(* ===== verification/Prelude.thy ===== *)
theory Prelude
  imports Main "HOL-Library.Word" "HOL-Library.Monad_Syntax"
begin

text \<open>
  Shared vocabulary of the development.

  \<^item> Types: \<open>byte\<close> is C++'s \<^verbatim>\<open>unsigned char\<close> (\<^verbatim>\<open>char\<close> is read through its bit
    pattern), \<open>bytes\<close> a buffer, \<open>u32\<close> and \<open>u64\<close> the fixed-width unsigned integers.
  \<^item> Memory: a buffer is a list.  A read or write whose index is not below the length of
    the buffer is undefined behaviour in C++ (an assertion in Qt 6), so the accessors
    return an \<open>option\<close> and \<open>None\<close> stands for \<^emph>\<open>the access is out of range\<close>; every
    theorem that an operation returns \<open>Some\<close> is therefore a memory-safety theorem.
  \<^item> Interfaces: three locales state the contracts that several components share: a
    \<^emph>\<open>codec\<close> (decode after encode), a \<^emph>\<open>digest\<close> (an incremental computation whose
    result is a function of the whole input) and a \<^emph>\<open>stream filter\<close> (an incremental
    computation that also emits output).  Each component interprets them on its own
    definitions.
\<close>

unbundle bit_operations_syntax

type_synonym byte = "8 word"
type_synonym bytes = "byte list"
type_synonym u32 = "32 word"
type_synonym u64 = "64 word"
type_synonym qstring = "16 word list" \<comment> \<open>the UTF-16 code units of a \<^verbatim>\<open>QString\<close>\<close>

named_theorems mem_simps \<open>evaluation of buffer accesses in range\<close>
named_theorems bit_arith \<open>bit operations as arithmetic\<close>

section \<open>Buffers\<close>

definition peek :: "'a list \<Rightarrow> nat \<Rightarrow> 'a option" where
  "peek xs i = (if i < length xs then Some (xs ! i) else None)"

definition poke :: "'a list \<Rightarrow> nat \<Rightarrow> 'a \<Rightarrow> 'a list option" where
  "poke xs i v = (if i < length xs then Some (xs[i := v]) else None)"

text \<open>\<open>memcpy(dst + off, src, length src)\<close>; copying nothing is allowed at any address.\<close>

definition memcpy_at :: "'a list \<Rightarrow> nat \<Rightarrow> 'a list \<Rightarrow> 'a list option" where
  "memcpy_at dst off src =
     (if src = [] then Some dst
      else if off + length src \<le> length dst
      then Some (take off dst @ src @ drop (off + length src) dst)
      else None)"

text \<open>The \<open>n\<close> bytes read from \<open>src + off\<close>.\<close>

definition mem_slice :: "'a list \<Rightarrow> nat \<Rightarrow> nat \<Rightarrow> 'a list option" where
  "mem_slice xs off n =
     (if n = 0 then Some []
      else if off + n \<le> length xs then Some (take n (drop off xs)) else None)"

lemma peek_in [mem_simps]: "i < length xs \<Longrightarrow> peek xs i = Some (xs ! i)"
  by (simp add: peek_def)

lemma poke_in [mem_simps]: "i < length xs \<Longrightarrow> poke xs i v = Some (xs[i := v])"
  by (simp add: poke_def)

lemma poke_append [mem_simps]:
  "length pre = i \<Longrightarrow> poke (pre @ z # post) i v = Some (pre @ v # post)"
  by (auto simp: poke_def)

lemma peek_append [mem_simps]: "length pre = i \<Longrightarrow> peek (pre @ x # xs) i = Some x"
  by (auto simp: peek_def)

lemma peek_offset: "length pre = i \<Longrightarrow> peek (pre @ xs) (i + k) = peek xs k"
  by (auto simp: peek_def nth_append)

lemma poke_offset:
  "length pre = i \<Longrightarrow> poke (pre @ xs) (i + k) v = map_option ((@) pre) (poke xs k v)"
  by (auto simp: poke_def list_update_append)

lemma poke_length: "poke xs i v = Some ys \<Longrightarrow> length ys = length xs"
  by (auto simp: poke_def split: if_splits)

lemma memcpy_at_in [mem_simps]:
  "off + length src \<le> length dst \<Longrightarrow>
   memcpy_at dst off src = Some (take off dst @ src @ drop (off + length src) dst)"
  by (auto simp: memcpy_at_def)

lemma memcpy_at_Nil [simp]: "memcpy_at dst off [] = Some dst"
  by (simp add: memcpy_at_def)

lemma memcpy_at_length: "memcpy_at dst off src = Some ys \<Longrightarrow> length ys = length dst"
  by (auto simp: memcpy_at_def split: if_splits)

lemma memcpy_at_whole:
  "length src = length dst \<Longrightarrow> memcpy_at dst 0 src = Some src"
  by (cases src) (auto simp: memcpy_at_def)

lemma mem_slice_in [mem_simps]:
  "off + n \<le> length xs \<Longrightarrow> mem_slice xs off n = Some (take n (drop off xs))"
  by (simp add: mem_slice_def)

lemma mem_slice_all: "mem_slice xs 0 (length xs) = Some xs"
  by (simp add: mem_slice_def)

section \<open>Rounding\<close>

text \<open>\<^verbatim>\<open>Botan::round_up\<close>: the next multiple; zero is rounded to the alignment itself.\<close>

definition round_up :: "nat \<Rightarrow> nat \<Rightarrow> nat" where
  "round_up n align_to = (if n mod align_to \<noteq> 0 \<or> n = 0 then n + (align_to - n mod align_to) else n)"

lemma round_up_ge: "n \<le> round_up n k"
  by (simp only: round_up_def le_add1 order.refl simp_thms split: if_split)

section \<open>Signed 32-bit arithmetic\<close>

text \<open>
  C++'s \<^verbatim>\<open>int\<close> is modelled by \<open>int\<close>; an addition that leaves the range is undefined and
  gives \<open>None\<close>.
\<close>

definition INT_MAX :: int where "INT_MAX = 2 ^ 31 - 1"

definition in_int32 :: "int \<Rightarrow> bool" where
  "in_int32 i \<longleftrightarrow> - (2 ^ 31) \<le> i \<and> i \<le> INT_MAX"

definition add_int32 :: "int \<Rightarrow> int \<Rightarrow> int option" where
  "add_int32 a b = (if in_int32 (a + b) then Some (a + b) else None)"

section \<open>Bits as arithmetic\<close>

text \<open>
  Masks, shifts and disjoint ors on \<open>nat\<close> and on words, read as arithmetic; the
  collection \<open>bit_arith\<close> turns the bit operations of the code into goals for \<open>arith\<close>.
\<close>

lemma nat_and_mask: "(n::nat) AND mask k = n mod 2 ^ k"
  by (simp add: take_bit_eq_mod flip: take_bit_eq_mask)

lemma nat_and_masks [bit_arith]:
  "(n::nat) AND 3 = n mod 4" "n AND 15 = n mod 16" "n AND 63 = n mod 64"
  "n AND 127 = n mod 128" "n AND 255 = n mod 256"
  using nat_and_mask [of n 2] nat_and_mask [of n 4] nat_and_mask [of n 6]
    nat_and_mask [of n 7] nat_and_mask [of n 8]
  by (simp_all add: mask_eq_exp_minus_1)

lemma nat_or_disjoint: "(v::nat) < 2 ^ k \<Longrightarrow> push_bit k u OR v = u * 2 ^ k + v"
proof -
  assume v: "v < 2 ^ k"
  have "\<not> bit v n" if "k \<le> n" for n
    using v that by (metis bit_take_bit_iff not_le take_bit_nat_eq_self)
  then have "push_bit k u AND v = 0" by (auto simp: bit_eq_iff bit_simps)
  then show ?thesis by (simp add: push_bit_eq_mult disjunctive_add_eq_or)
qed

lemma int_and_mask: "(i::int) AND mask k = i mod 2 ^ k"
  by (simp add: take_bit_eq_mod flip: take_bit_eq_mask)

lemma int_and_masks [bit_arith]:
  "(i::int) AND 3 = i mod 4" "i AND 15 = i mod 16" "i AND 63 = i mod 64"
  "i AND 127 = i mod 128" "i AND 255 = i mod 256"
  using int_and_mask [of i 2] int_and_mask [of i 4] int_and_mask [of i 6]
    int_and_mask [of i 7] int_and_mask [of i 8]
  by (simp_all add: mask_eq_exp_minus_1)

lemma int_or_disjoint:
  assumes "0 \<le> (v::int)" "v < 2 ^ k"
  shows "push_bit k u OR v = u * 2 ^ k + v"
proof -
  have "\<not> bit v n" if "k \<le> n" for n
    using assms that by (metis bit_take_bit_iff not_le take_bit_int_eq_self)
  then have "push_bit k u AND v = 0" by (auto simp: bit_eq_iff bit_simps)
  then show ?thesis by (simp add: push_bit_eq_mult disjunctive_add_eq_or)
qed

lemma unat_and_mask: "unat (w AND mask n) = unat w mod 2 ^ n" for w :: "'a::len word"
  by (metis take_bit_eq_mask take_bit_eq_mod unsigned_take_bit_eq)

lemma unat_drop: "unat (drop_bit n w) = unat w div 2 ^ n" for w :: "'a::len word"
  unfolding unat_drop_bit_eq by (rule drop_bit_eq_div)

lemma unat_push: "unat (push_bit n w) = unat w * 2 ^ n mod 2 ^ LENGTH('a)"
  for w :: "'a::len word"
  unfolding unsigned_push_bit_eq by (simp add: push_bit_eq_mult take_bit_eq_mod)

lemma unat_word_of_int: "unat (word_of_int i :: 'a::len word) = nat (i mod 2 ^ LENGTH('a))"
  by (metis nat_uint_eq uint_word_of_int)

lemma byte_less [simp]: "unat (b :: byte) < 256"
  using unsigned_less [of b] by simp

lemma unat_byte_15 [bit_arith]: "unat ((b :: byte) AND 15) = unat b mod 16"
  using unat_and_mask [of b 4] by (simp add: mask_eq_exp_minus_1)

lemma unat_byte_drop4 [bit_arith]: "unat (drop_bit 4 (b :: byte)) = unat b div 16"
  by (simp add: unat_drop)

lemma byte_eqI: "unat a = unat b \<Longrightarrow> a = b" for a b :: byte
  by (simp add: word_unat_eq_iff)

section \<open>QString and Latin-1\<close>

definition fromLatin1 :: "bytes \<Rightarrow> qstring" where
  "fromLatin1 b = map ucast b"

text \<open>A code unit outside Latin-1 becomes a question mark.\<close>

definition toLatin1 :: "qstring \<Rightarrow> bytes" where
  "toLatin1 s = map (\<lambda>u. if unat u < 256 then ucast u else 0x3f) s"

lemma byte_take_bit: "take_bit 16 (unat (b :: byte)) = unat b"
  by (intro take_bit_nat_eq_self less_trans [OF byte_less]) simp

lemma unat_ucast_up: "unat (ucast (b :: byte) :: 16 word) = unat b"
  by (simp add: unsigned_ucast_eq byte_take_bit)

lemma ucast_ucast_byte: "(ucast (ucast (b :: byte) :: 16 word) :: byte) = b"
proof (rule byte_eqI)
  have "unat (ucast (ucast b :: 16 word) :: byte) = take_bit 8 (unat (ucast b :: 16 word))"
    by (subst unsigned_ucast_eq) simp
  also have "\<dots> = unat b"
    using byte_less [of b] by (simp only: unat_ucast_up) (simp add: take_bit_eq_mod)
  finally show "unat (ucast (ucast b :: 16 word) :: byte) = unat b" .
qed

lemma toLatin1_fromLatin1 [simp]: "toLatin1 (fromLatin1 b) = b"
  by (simp add: toLatin1_def fromLatin1_def unat_ucast_up ucast_ucast_byte o_def)

lemma fromLatin1_eq_Nil [simp]: "fromLatin1 b = [] \<longleftrightarrow> b = []"
  by (simp add: fromLatin1_def)

section \<open>Lists\<close>

lemma replicate_snoc: "replicate (Suc n) x = replicate n x @ [x]"
  by (simp add: replicate_append_same)

text \<open>Cutting a list into full chunks of \<open>n\<close> elements (the rest is dropped).\<close>

function chunks_of :: "nat \<Rightarrow> 'a list \<Rightarrow> 'a list list" where
  "chunks_of n xs =
     (if n = 0 \<or> length xs < n then [] else take n xs # chunks_of n (drop n xs))"
  by pat_completeness auto
termination
  by (relation "measure (\<lambda>(n, xs). length xs)") auto

declare chunks_of.simps [simp del]

lemma chunks_of_short [simp]: "length xs < n \<Longrightarrow> chunks_of n xs = []"
  by (subst chunks_of.simps) simp

lemma chunks_of_Nil [simp]: "chunks_of n [] = []"
  by (subst chunks_of.simps) auto

lemma chunks_of_block:
  "0 < n \<Longrightarrow> length b = n \<Longrightarrow> chunks_of n (b @ xs) = b # chunks_of n xs"
  by (subst chunks_of.simps) simp

lemma chunks_of_step:
  "0 < n \<Longrightarrow> n \<le> length xs \<Longrightarrow> chunks_of n xs = take n xs # chunks_of n (drop n xs)"
  by (subst chunks_of.simps) simp

lemma chunks_of_append:
  assumes "0 < n" and "length xs mod n = 0"
  shows "chunks_of n (xs @ ys) = chunks_of n xs @ chunks_of n ys"
  using assms
proof (induction n xs rule: chunks_of.induct)
  case (1 n xs)
  show ?case
  proof (cases "length xs < n")
    case True
    with 1 have "xs = []" by (auto simp: mod_less)
    then show ?thesis by simp
  next
    case False
    with 1 have "chunks_of n (drop n xs @ ys) = chunks_of n (drop n xs) @ chunks_of n ys"
      by (auto simp: le_mod_geq)
    with False \<open>0 < n\<close> show ?thesis
      by (simp add: chunks_of_step [of n xs] chunks_of_step [of n "xs @ ys"])
  qed
qed

lemma chunks_of_length: "c \<in> set (chunks_of n xs) \<Longrightarrow> length c = n"
proof (induction n xs rule: chunks_of.induct)
  case (1 n xs)
  then show ?case
    by (cases "n = 0 \<or> length xs < n") (auto simp: chunks_of.simps [of n xs])
qed

lemma length_chunks_of: "0 < n \<Longrightarrow> length (chunks_of n xs) = length xs div n"
proof (induction n xs rule: chunks_of.induct)
  case (1 n xs)
  then show ?case
    by (cases "length xs < n") (auto simp: chunks_of_step [of n xs] le_div_geq)
qed

lemma concat_chunks_of:
  "0 < n \<Longrightarrow> concat (chunks_of n xs) = take (length xs div n * n) xs"
proof (induction n xs rule: chunks_of.induct)
  case (1 n xs)
  show ?case
  proof (cases "length xs < n")
    case True
    then show ?thesis by simp
  next
    case False
    with 1 have "concat (chunks_of n (drop n xs)) =
        take ((length xs - n) div n * n) (drop n xs)" by simp
    moreover have "length xs div n = Suc ((length xs - n) div n)"
      using False \<open>0 < n\<close> by (simp add: le_div_geq)
    ultimately show ?thesis
      using False \<open>0 < n\<close> by (simp add: chunks_of_step [of n xs] take_add)
  qed
qed

lemma concat_chunks_of_exact:
  "0 < n \<Longrightarrow> length xs mod n = 0 \<Longrightarrow> concat (chunks_of n xs) = xs"
  by (simp add: concat_chunks_of mod_eq_0_iff_dvd)

text \<open>The complete groups of \<open>c\<close> elements of a list, and what is left over.\<close>

definition whole :: "nat \<Rightarrow> 'a list \<Rightarrow> 'a list" where
  "whole c xs = take (length xs div c * c) xs"

definition rest :: "nat \<Rightarrow> 'a list \<Rightarrow> 'a list" where
  "rest c xs = drop (length xs div c * c) xs"

lemma whole_rest [simp]: "whole c xs @ rest c xs = xs"
  by (simp add: whole_def rest_def)

lemma length_whole: "length (whole c xs) = length xs div c * c"
  by (simp add: whole_def)

lemma length_rest [simp]: "length (rest c xs) = length xs mod c"
  by (simp add: rest_def minus_div_mult_eq_mod)

lemma whole_Nil [simp]: "whole c [] = []" and rest_Nil [simp]: "rest c [] = []"
  by (simp_all add: whole_def rest_def)

lemma take_whole: "take (c * (length w div c)) (w @ z) = whole c w"
proof -
  have "c * (length w div c) \<le> length w" by simp
  then show ?thesis by (simp add: whole_def mult.commute)
qed

lemma whole_eq_Nil_iff: "0 < c \<Longrightarrow> whole c xs = [] \<longleftrightarrow> length xs < c"
  by (auto simp: whole_def div_eq_0_iff)

lemma rest_short: "length xs < c \<Longrightarrow> rest c xs = xs"
  by (simp add: rest_def)

lemma whole_rest_append:
  assumes "0 < c"
  shows "whole c (xs @ ys) = whole c xs @ whole c (rest c xs @ ys)"
    and "rest c (xs @ ys) = rest c (rest c xs @ ys)"
proof -
  let ?q = "length xs div c" and ?w = "rest c xs @ ys"
  have split: "xs @ ys = whole c xs @ ?w" by simp
  have "length (xs @ ys) = length ?w + ?q * c"
    by (subst split) (simp add: length_whole del: whole_rest)
  then have "length (xs @ ys) div c = ?q + length ?w div c"
    using assms by (simp del: length_append length_rest)
  then have n: "length (xs @ ys) div c * c = length (whole c xs) + length ?w div c * c"
    by (simp add: length_whole algebra_simps)
  show "whole c (xs @ ys) = whole c xs @ whole c ?w"
    unfolding whole_def [of c "xs @ ys"] n unfolding split by (simp add: whole_def [of c ?w] del: whole_rest)
  show "rest c (xs @ ys) = rest c ?w"
    unfolding rest_def [of c "xs @ ys"] n unfolding split by (simp add: rest_def [of c ?w] del: whole_rest)
qed

section \<open>Shared interfaces\<close>

text \<open>A codec: decoding inverts encoding on every admissible value.\<close>

locale codec =
  fixes enc :: "'a \<Rightarrow> 'b" and dec :: "'b \<Rightarrow> 'a option" and adm :: "'a \<Rightarrow> bool"
  assumes dec_enc: "adm x \<Longrightarrow> dec (enc x) = Some x"
begin

lemma enc_inj:
  assumes "adm x" and "adm y" and "enc x = enc y"
  shows "x = y"
proof -
  have "Some x = dec (enc x)" using assms(1) by (simp add: dec_enc)
  also have "\<dots> = Some y" using assms(2,3) by (simp add: dec_enc)
  finally show ?thesis by simp
qed

lemma enc_inj_on: "inj_on enc (Collect adm)"
  by (rule inj_onI) (auto intro: enc_inj)

end

text \<open>
  A digest: an incremental computation.  \<open>rep s m\<close> says that the state \<open>s\<close> has absorbed
  the message \<open>m\<close>; absorbing an admissible chunk appends it, and finishing computes
  \<open>spec\<close> of the whole message.  The clients' law is that the division of the input into
  chunks does not matter.
\<close>

locale digest =
  fixes init :: 's and upd :: "'s \<Rightarrow> 'a list \<Rightarrow> 's" and fin :: "'s \<Rightarrow> 'r"
    and rep :: "'s \<Rightarrow> 'a list \<Rightarrow> bool" and spec :: "'a list \<Rightarrow> 'r" and adm :: "'a list \<Rightarrow> bool"
  assumes rep_init: "rep init []"
    and rep_upd: "rep s m \<Longrightarrow> adm x \<Longrightarrow> rep (upd s x) (m @ x)"
    and rep_fin: "rep s m \<Longrightarrow> fin s = spec m"
begin

lemma rep_chunks: "rep s m \<Longrightarrow> list_all adm xs \<Longrightarrow> rep (foldl upd s xs) (m @ concat xs)"
proof (induction xs arbitrary: s m)
  case Nil
  then show ?case by simp
next
  case (Cons x xs)
  then have "rep (upd s x) (m @ x)" by (simp add: rep_upd)
  with Cons show ?case by fastforce
qed

lemma fin_chunks: "list_all adm xs \<Longrightarrow> fin (foldl upd init xs) = spec (concat xs)"
  using rep_chunks [OF rep_init, of xs] by (simp add: rep_fin)

lemma chunking_irrelevant:
  "list_all adm xs \<Longrightarrow> list_all adm ys \<Longrightarrow> concat xs = concat ys \<Longrightarrow>
   fin (foldl upd init xs) = fin (foldl upd init ys)"
  by (simp add: fin_chunks)

end

text \<open>
  A stream filter: each step takes a chunk and emits output; \<open>run_filter\<close> feeds a list of
  chunks and collects the output.  \<open>None\<close> is a failed step.
\<close>

fun run_filter :: "('s \<Rightarrow> 'a list \<Rightarrow> ('s \<times> 'b list) option) \<Rightarrow> 's \<Rightarrow> 'a list list \<Rightarrow>
    ('s \<times> 'b list) option" where
  "run_filter upd s [] = Some (s, [])"
| "run_filter upd s (x # xs) =
     (case upd s x of None \<Rightarrow> None
      | Some (s', out) \<Rightarrow>
          (case run_filter upd s' xs of None \<Rightarrow> None
           | Some (s'', out') \<Rightarrow> Some (s'', out @ out')))"

locale stream_filter =
  fixes init :: 's and upd :: "'s \<Rightarrow> 'a list \<Rightarrow> ('s \<times> 'b list) option"
    and fin :: "'s \<Rightarrow> 'b list option"
    and rep :: "'s \<Rightarrow> 'a list \<Rightarrow> 'b list \<Rightarrow> bool" and spec :: "'a list \<Rightarrow> 'b list option"
    and adm :: "'a list \<Rightarrow> bool"
  assumes rep_init: "rep init [] []"
    and rep_upd: "rep s m out \<Longrightarrow> adm x \<Longrightarrow>
      \<exists>s' y. upd s x = Some (s', y) \<and> rep s' (m @ x) (out @ y)"
    and rep_fin: "rep s m out \<Longrightarrow> map_option ((@) out) (fin s) = spec m"
begin

lemma rep_run:
  "rep s m out \<Longrightarrow> list_all adm xs \<Longrightarrow>
   \<exists>s' y. run_filter upd s xs = Some (s', y) \<and> rep s' (m @ concat xs) (out @ y)"
proof (induction xs arbitrary: s m out)
  case Nil
  then show ?case by simp
next
  case (Cons x xs)
  then obtain s' y where u: "upd s x = Some (s', y)" and r: "rep s' (m @ x) (out @ y)"
    using rep_upd by fastforce
  from Cons.IH [OF r] Cons.prems obtain s'' z
    where "run_filter upd s' xs = Some (s'', z)"
      and "rep s'' ((m @ x) @ concat xs) ((out @ y) @ z)" by auto
  with u show ?case by simp
qed

lemma filter_chunks:
  assumes "list_all adm xs"
  shows "\<exists>s y. run_filter upd init xs = Some (s, y) \<and>
    map_option ((@) y) (fin s) = spec (concat xs)"
proof -
  from rep_run [OF rep_init assms] obtain s y
    where "run_filter upd init xs = Some (s, y)" and "rep s (concat xs) y" by auto
  with rep_fin show ?thesis by blast
qed

end

end
