(* ===== verification/MemoryRegion.thy ===== *)
theory MemoryRegion
  imports Prelude
begin

text \<open>
  The buffers of \<^verbatim>\<open>src/qca_tools.cpp\<close>: \<^verbatim>\<open>alloc_info\<close> with its four \<^verbatim>\<open>ai_*\<close> routines,
  \<^verbatim>\<open>MemoryRegion\<close> and \<^verbatim>\<open>SecureArray\<close>.

  An \<^verbatim>\<open>alloc_info\<close> owns either a Botan \<^verbatim>\<open>SecureVector\<close> of \<open>size + 1\<close> bytes or a
  \<^verbatim>\<open>QByteArray\<close> of \<open>size\<close> bytes, and \<^verbatim>\<open>data\<close> points into the one it owns.  \<^verbatim>\<open>Private\<close> is
  held by a \<^verbatim>\<open>QSharedDataPointer\<close>, which copies it (with \<open>ai_copy\<close>) before the first
  write through a shared handle, so a region is modelled by value.  Fresh \<^verbatim>\<open>SecureVector\<close>
  memory is zero (the pool clears blocks when they are created and when they are freed);
  a growing \<^verbatim>\<open>QByteArray::resize\<close> leaves the new bytes uninitialised, and the argument
  \<open>uninit\<close> gives them.  Exhausted memory aborts the process and is not modelled.
\<close>

section \<open>Model\<close>

subsection \<open>alloc_info\<close>

datatype data_ptr = NullPtr | IntoSbuf | IntoQbuf

record alloc_info =
  sec :: bool
  ai_data :: data_ptr
  ai_size :: int
  sbuf :: "bytes option"
  qbuf :: "bytes option"

text \<open>\<^verbatim>\<open>alloc_info ai {}\<close>: all members zero.\<close>

definition ai_zero :: alloc_info where
  "ai_zero = \<lparr>sec = False, ai_data = NullPtr, ai_size = 0, sbuf = None, qbuf = None\<rparr>"

definition ai_new :: "alloc_info \<Rightarrow> int \<Rightarrow> bool \<Rightarrow> bool \<times> alloc_info" where
  "ai_new ai sz s =
     (if sz < 0 then (False, ai)
      else
        let ai = ai\<lparr>ai_size := sz, sec := s\<rparr> in
        if sz = 0 then (True, ai\<lparr>sbuf := None, qbuf := None, ai_data := NullPtr\<rparr>)
        else if s then
          (True, ai\<lparr>sbuf := Some ((replicate (nat sz + 1) 0)[nat sz := 0]),
                    qbuf := None, ai_data := IntoSbuf\<rparr>)
        else
          (True, ai\<lparr>sbuf := None, qbuf := Some (replicate (nat sz) 0), ai_data := IntoQbuf\<rparr>))"

definition ai_copy :: "alloc_info \<Rightarrow> alloc_info \<Rightarrow> (bool \<times> alloc_info) option" where
  "ai_copy ai from =
     (let ai = ai\<lparr>ai_size := ai_size from, sec := sec from\<rparr> in
      if ai_size ai = 0 then Some (True, ai\<lparr>sbuf := None, qbuf := None, ai_data := NullPtr\<rparr>)
      else if sec ai then
        (case sbuf from of None \<Rightarrow> None
         | Some b \<Rightarrow> Some (True, ai\<lparr>sbuf := Some b, qbuf := None, ai_data := IntoSbuf\<rparr>))
      else
        (case qbuf from of None \<Rightarrow> None
         | Some b \<Rightarrow> Some (True, ai\<lparr>sbuf := None, qbuf := Some b, ai_data := IntoQbuf\<rparr>)))"

text \<open>\<^verbatim>\<open>QByteArray::resize\<close>: shrinking truncates, growing adds uninitialised bytes.\<close>

definition qba_resize :: "(nat \<Rightarrow> byte) \<Rightarrow> bytes \<Rightarrow> nat \<Rightarrow> bytes" where
  "qba_resize uninit b n = take n b @ map uninit [length b..<n]"

definition ai_resize ::
    "(nat \<Rightarrow> byte) \<Rightarrow> alloc_info \<Rightarrow> int \<Rightarrow> (bool \<times> alloc_info) option" where
  "ai_resize uninit ai new_size =
     (if new_size < 0 then Some (False, ai)
      else if new_size = 0 then
        (if ai_size ai > 0 then
           (let ai = (if sec ai then ai\<lparr>sbuf := None\<rparr> else ai\<lparr>qbuf := None\<rparr>) in
            Some (True, ai\<lparr>ai_size := 0, ai_data := NullPtr\<rparr>))
         else Some (True, ai))
      else if sec ai then
        (let new_buf = replicate (nat new_size + 1) 0 in
         do {
           new_buf \<leftarrow>
             (if ai_size ai > 0 then
                (case sbuf ai of None \<Rightarrow> None
                 | Some old \<Rightarrow>
                     do {
                       src \<leftarrow> mem_slice old 0 (nat (min new_size (ai_size ai)));
                       memcpy_at new_buf 0 src
                     })
              else Some new_buf);
           new_buf \<leftarrow> poke new_buf (nat new_size) 0;
           Some (True, ai\<lparr>sbuf := Some new_buf, ai_size := new_size, ai_data := IntoSbuf\<rparr>)
         })
      else
        do {
          q \<leftarrow> (if ai_size ai > 0
                then map_option (\<lambda>b. qba_resize uninit b (nat new_size)) (qbuf ai)
                else Some (replicate (nat new_size) 0));
          Some (True, ai\<lparr>qbuf := Some q, ai_size := new_size, ai_data := IntoQbuf\<rparr>)
        })"

text \<open>Reading and writing through \<^verbatim>\<open>ai.data\<close>.\<close>

definition ai_read :: "alloc_info \<Rightarrow> nat \<Rightarrow> nat \<Rightarrow> bytes option" where
  "ai_read ai off n =
     (case ai_data ai of
        NullPtr \<Rightarrow> (if n = 0 then Some [] else None)
      | IntoSbuf \<Rightarrow> Option.bind (sbuf ai) (\<lambda>b. mem_slice b off n)
      | IntoQbuf \<Rightarrow> Option.bind (qbuf ai) (\<lambda>b. mem_slice b off n))"

definition ai_write :: "alloc_info \<Rightarrow> nat \<Rightarrow> bytes \<Rightarrow> alloc_info option" where
  "ai_write ai off src =
     (case ai_data ai of
        NullPtr \<Rightarrow> (if src = [] then Some ai else None)
      | IntoSbuf \<Rightarrow> do { b \<leftarrow> sbuf ai; b \<leftarrow> memcpy_at b off src; Some (ai\<lparr>sbuf := Some b\<rparr>) }
      | IntoQbuf \<Rightarrow> do { b \<leftarrow> qbuf ai; b \<leftarrow> memcpy_at b off src; Some (ai\<lparr>qbuf := Some b\<rparr>) })"

subsection \<open>MemoryRegion::Private\<close>

definition Private_size :: "int \<Rightarrow> bool \<Rightarrow> alloc_info" where
  "Private_size sz s = snd (ai_new ai_zero sz s)"

text \<open>
  \<^verbatim>\<open>QByteArray::size()\<close> is a 64-bit \<^verbatim>\<open>qsizetype\<close> in the default Qt 6 build, and \<^verbatim>\<open>ai_new\<close>
  takes an \<^verbatim>\<open>int\<close>: the size is narrowed modulo \<open>2 ^ 32\<close>, so an array of 2 GB or more can give
  a negative size, or one that is too small.
\<close>

definition int_of_qsizetype :: "nat \<Rightarrow> int" where
  "int_of_qsizetype n = sint (word_of_int (int n) :: 32 word)"

definition Private_copy :: "bytes \<Rightarrow> int \<Rightarrow> bool \<Rightarrow> alloc_info option" where
  "Private_copy from sz s =
     (let ai = snd (ai_new ai_zero sz s) in
      do { src \<leftarrow> mem_slice from 0 (nat (ai_size ai)); ai_write ai 0 src })"

definition Private_bytes :: "bytes \<Rightarrow> bool \<Rightarrow> alloc_info option" where
  "Private_bytes from s = Private_copy from (int_of_qsizetype (length from)) s"

definition Private_setSecure :: "alloc_info \<Rightarrow> bool \<Rightarrow> alloc_info option" where
  "Private_setSecure ai s =
     (if sec ai = s then Some ai
      else
        let other = snd (ai_new ai_zero (ai_size ai) s) in
        do { src \<leftarrow> ai_read ai 0 (nat (ai_size ai)); ai_write other 0 src })"

subsection \<open>MemoryRegion\<close>

record memory_region =
  secure :: bool
  priv :: "alloc_info option"

definition region_null :: "bool \<Rightarrow> memory_region" where
  "region_null s = \<lparr>secure = s, priv = None\<rparr>"

definition region_size :: "int \<Rightarrow> bool \<Rightarrow> memory_region" where
  "region_size sz s = \<lparr>secure = s, priv = Some (Private_size sz s)\<rparr>"

definition region_bytes :: "bytes \<Rightarrow> bool \<Rightarrow> memory_region option" where
  "region_bytes from s = map_option (\<lambda>ai. \<lparr>secure = s, priv = Some ai\<rparr>) (Private_bytes from s)"

text \<open>
  The region that holds given bytes.  It is what \<^verbatim>\<open>MemoryRegion(const QByteArray &)\<close> builds
  from an array whose size is within an \<^verbatim>\<open>int\<close> (\<open>region_bytes_value\<close> below); the text filters,
  whose sizes are unbounded, make their results with it.
\<close>

definition region_value :: "bytes \<Rightarrow> bool \<Rightarrow> memory_region option" where
  "region_value from s =
     map_option (\<lambda>ai. \<lparr>secure = s, priv = Some ai\<rparr>) (Private_copy from (int (length from)) s)"

definition isNull :: "memory_region \<Rightarrow> bool" where
  "isNull r \<longleftrightarrow> priv r = None"

definition toByteArray :: "memory_region \<Rightarrow> bytes option" where
  "toByteArray r =
     (case priv r of None \<Rightarrow> Some []
      | Some ai \<Rightarrow>
          if sec ai then ai_read ai 0 (nat (ai_size ai))
          else if ai_size ai > 0 then qbuf ai else Some [])"

definition size_of :: "memory_region \<Rightarrow> int" where
  "size_of r = (case priv r of None \<Rightarrow> 0 | Some ai \<Rightarrow> ai_size ai)"

definition isEmpty :: "memory_region \<Rightarrow> bool" where
  "isEmpty r = (case priv r of None \<Rightarrow> True | Some ai \<Rightarrow> \<not> ai_size ai > 0)"

text \<open>The bytes at \<^verbatim>\<open>data()\<close>; a null region points at the static empty string.\<close>

definition data_read :: "memory_region \<Rightarrow> nat \<Rightarrow> nat \<Rightarrow> bytes option" where
  "data_read r off n =
     (case priv r of None \<Rightarrow> mem_slice [0] off n | Some ai \<Rightarrow> ai_read ai off n)"

definition data_write :: "memory_region \<Rightarrow> nat \<Rightarrow> bytes \<Rightarrow> memory_region option" where
  "data_write r off src =
     (case priv r of None \<Rightarrow> (if src = [] then Some r else None)
      | Some ai \<Rightarrow> map_option (\<lambda>ai. r\<lparr>priv := Some ai\<rparr>) (ai_write ai off src))"

definition region_resize ::
    "(nat \<Rightarrow> byte) \<Rightarrow> memory_region \<Rightarrow> int \<Rightarrow> (bool \<times> memory_region) option" where
  "region_resize uninit r n =
     (case priv r of
        None \<Rightarrow> Some (True, r\<lparr>priv := Some (Private_size n (secure r))\<rparr>)
      | Some ai \<Rightarrow>
          if ai_size ai = n then Some (True, r)
          else map_option (\<lambda>(ok, ai). (ok, r\<lparr>priv := Some ai\<rparr>)) (ai_resize uninit ai n))"

definition region_set :: "memory_region \<Rightarrow> bytes \<Rightarrow> bool \<Rightarrow> memory_region option" where
  "region_set r from s =
     (let r = r\<lparr>secure := s\<rparr> in
      if from \<noteq> [] then map_option (\<lambda>ai. r\<lparr>priv := Some ai\<rparr>) (Private_bytes from s)
      else Some (r\<lparr>priv := Some (Private_size 0 s)\<rparr>))"

definition setSecure :: "memory_region \<Rightarrow> bool \<Rightarrow> memory_region option" where
  "setSecure r s =
     (let r = r\<lparr>secure := s\<rparr> in
      case priv r of
        None \<Rightarrow> Some (r\<lparr>priv := Some (Private_size 0 s)\<rparr>)
      | Some ai \<Rightarrow> map_option (\<lambda>ai. r\<lparr>priv := Some ai\<rparr>) (Private_setSecure ai s))"

subsection \<open>SecureArray\<close>

definition fill :: "memory_region \<Rightarrow> byte \<Rightarrow> int \<Rightarrow> memory_region option" where
  "fill r fillChar fillToPosition =
     (let len = (if fillToPosition = -1 then size_of r else min fillToPosition (size_of r)) in
      if len > 0 then data_write r 0 (replicate (nat len) fillChar) else Some r)"

definition SecureArray_size :: "int \<Rightarrow> byte \<Rightarrow> memory_region option" where
  "SecureArray_size sz ch =
     (let r = region_size sz True in if ch \<noteq> 0 then fill r ch sz else Some r)"

definition SecureArray_bytes :: "bytes \<Rightarrow> memory_region option" where
  "SecureArray_bytes a = region_bytes a True"

definition SecureArray_region :: "memory_region \<Rightarrow> memory_region option" where
  "SecureArray_region a = setSecure a True"

definition SecureArray_clear ::
    "(nat \<Rightarrow> byte) \<Rightarrow> memory_region \<Rightarrow> memory_region option" where
  "SecureArray_clear uninit r = map_option snd (region_resize uninit r 0)"

text \<open>
  \<^verbatim>\<open>append(const SecureArray &a)\<close>: the argument is a reference, so it may be the receiver
  itself; its size and bytes are read after the receiver has been resized.
\<close>

datatype array_ref = Other memory_region | This

definition deref :: "memory_region \<Rightarrow> array_ref \<Rightarrow> memory_region" where
  "deref this a = (case a of Other r \<Rightarrow> r | This \<Rightarrow> this)"

definition append_array ::
    "(nat \<Rightarrow> byte) \<Rightarrow> memory_region \<Rightarrow> array_ref \<Rightarrow> memory_region option" where
  "append_array uninit this a =
     (let oldsize = size_of this in
      do {
        n \<leftarrow> add_int32 oldsize (size_of (deref this a));
        (ok, this) \<leftarrow> region_resize uninit this n;
        let a = deref this a;
        src \<leftarrow> data_read a 0 (nat (size_of a));
        data_write this (nat oldsize) src
      })"

definition array_eq :: "memory_region \<Rightarrow> array_ref \<Rightarrow> bool option" where
  "array_eq this a =
     (case a of
        This \<Rightarrow> Some True
      | Other other \<Rightarrow>
          if size_of this = size_of other then
            do {
              x \<leftarrow> data_read this 0 (nat (size_of this));
              y \<leftarrow> data_read other 0 (nat (size_of this));
              Some (x = y)
            }
          else Some False)"

definition array_plus ::
    "(nat \<Rightarrow> byte) \<Rightarrow> memory_region \<Rightarrow> memory_region \<Rightarrow> memory_region option" where
  "array_plus uninit a b = append_array uninit a (Other b)"

section \<open>Invariant\<close>

text \<open>
  The representation invariant: \<open>data\<close> points into the buffer that \<open>sec\<close> selects, the
  other buffer is absent, a secure buffer has one more byte, which is zero.
\<close>

definition ai_inv :: "alloc_info \<Rightarrow> bool" where
  "ai_inv ai \<longleftrightarrow>
     (if ai_size ai = 0 then ai_data ai = NullPtr \<and> sbuf ai = None \<and> qbuf ai = None
      else 0 < ai_size ai \<and>
        (if sec ai
         then ai_data ai = IntoSbuf \<and> qbuf ai = None \<and>
           (case sbuf ai of None \<Rightarrow> False
            | Some b \<Rightarrow> length b = nat (ai_size ai) + 1 \<and> last b = 0)
         else ai_data ai = IntoQbuf \<and> sbuf ai = None \<and>
           (case qbuf ai of None \<Rightarrow> False | Some b \<Rightarrow> length b = nat (ai_size ai))))"

definition region_inv :: "memory_region \<Rightarrow> bool" where
  "region_inv r \<longleftrightarrow>
     (case priv r of None \<Rightarrow> True | Some ai \<Rightarrow> ai_inv ai \<and> sec ai = secure r)"

text \<open>The value of a region: its bytes.\<close>

definition ai_content :: "alloc_info \<Rightarrow> bytes" where
  "ai_content ai =
     (case ai_data ai of NullPtr \<Rightarrow> []
      | IntoSbuf \<Rightarrow> butlast (the (sbuf ai)) | IntoQbuf \<Rightarrow> the (qbuf ai))"

definition content :: "memory_region \<Rightarrow> bytes" where
  "content r = (case priv r of None \<Rightarrow> [] | Some ai \<Rightarrow> ai_content ai)"

section \<open>Lemmas\<close>

lemma ai_inv_cases [consumes 1, case_names empty secure plain]:
  assumes "ai_inv ai"
  obtains "ai_size ai = 0" "ai_data ai = NullPtr" "sbuf ai = None" "qbuf ai = None"
      "ai_content ai = []"
  | bs where "0 < ai_size ai" "sec ai" "ai_data ai = IntoSbuf" "qbuf ai = None"
      "sbuf ai = Some (bs @ [0])" "length bs = nat (ai_size ai)" "ai_content ai = bs"
  | bs where "0 < ai_size ai" "\<not> sec ai" "ai_data ai = IntoQbuf" "sbuf ai = None"
      "qbuf ai = Some bs" "length bs = nat (ai_size ai)" "ai_content ai = bs"
proof (cases "ai_size ai = 0")
  case True
  with assms that(1) show ?thesis by (auto simp: ai_inv_def ai_content_def)
next
  case False
  show ?thesis
  proof (cases "sec ai")
    case True
    with False assms obtain b where b: "sbuf ai = Some b" "length b = nat (ai_size ai) + 1"
      "last b = 0" by (auto simp: ai_inv_def split: option.splits)
    then have "b = butlast b @ [0]"
      by (metis append_butlast_last_id add_is_0 list.size(3) zero_neq_one)
    with b False True assms that(2) [of "butlast b"] show ?thesis
      by (auto simp: ai_inv_def ai_content_def)
  next
    case False
    with \<open>ai_size ai \<noteq> 0\<close> assms that(3) show ?thesis
      by (auto simp: ai_inv_def ai_content_def split: option.splits)
  qed
qed

lemma ai_inv_zero [simp]: "ai_inv ai_zero"
  by (simp add: ai_inv_def ai_zero_def)

lemma length_ai_content: "ai_inv ai \<Longrightarrow> int (length (ai_content ai)) = ai_size ai"
  by (cases ai rule: ai_inv_cases) auto

lemma ai_read_all: "ai_inv ai \<Longrightarrow> ai_read ai 0 (nat (ai_size ai)) = Some (ai_content ai)"
  by (cases ai rule: ai_inv_cases) (auto simp: ai_read_def mem_slice_def)

lemma ai_new_inv:
  assumes "0 \<le> n"
  shows "ai_inv (snd (ai_new ai_zero n s))" and "sec (snd (ai_new ai_zero n s)) = s"
    and "ai_content (snd (ai_new ai_zero n s)) = replicate (nat n) 0"
    and "ai_size (snd (ai_new ai_zero n s)) = n"
  using assms
  by (auto simp: ai_new_def ai_inv_def ai_content_def ai_zero_def Let_def
      replicate_snoc list_update_append simp del: replicate.simps(2) split: option.splits)

text \<open>Writing inside the buffer changes exactly the bytes written.\<close>

lemma ai_write_in:
  assumes "ai_inv ai" and "int (off + length src) \<le> ai_size ai"
  obtains ai' where "ai_write ai off src = Some ai'" "ai_inv ai'" "sec ai' = sec ai"
    "ai_size ai' = ai_size ai"
    "ai_content ai' = take off (ai_content ai) @ src @ drop (off + length src) (ai_content ai)"
  using assms(1)
proof (cases ai rule: ai_inv_cases)
  case empty
  with assms have "length src = 0" by linarith
  then have "src = []" by simp
  with empty assms that [of ai] show ?thesis by (simp add: ai_write_def)
next
  case (secure bs)
  with assms have le: "off + length src \<le> length bs" by simp
  let ?b = "take off bs @ src @ drop (off + length src) bs"
  have "ai_write ai off src = Some (ai\<lparr>sbuf := Some (?b @ [0])\<rparr>)"
    using secure le by (simp add: ai_write_def memcpy_at_def)
  moreover have "ai_inv (ai\<lparr>sbuf := Some (?b @ [0])\<rparr>)"
    using secure le by (simp add: ai_inv_def)
  ultimately show ?thesis
    using that secure by (simp add: ai_content_def butlast_append)
next
  case (plain bs)
  with assms have le: "off + length src \<le> length bs" by simp
  let ?b = "take off bs @ src @ drop (off + length src) bs"
  have "ai_write ai off src = Some (ai\<lparr>qbuf := Some ?b\<rparr>)"
    using plain le by (simp add: ai_write_def memcpy_at_def)
  moreover have "ai_inv (ai\<lparr>qbuf := Some ?b\<rparr>)"
    using plain le by (simp add: ai_inv_def)
  ultimately show ?thesis
    using that plain by (simp add: ai_content_def)
qed

text \<open>Sizes, contents and invariants of the constructors.\<close>

lemma Private_size_inv:
  "0 \<le> n \<Longrightarrow> ai_inv (Private_size n s) \<and> sec (Private_size n s) = s \<and>
     ai_content (Private_size n s) = replicate (nat n) 0 \<and> ai_size (Private_size n s) = n"
  by (simp add: Private_size_def ai_new_inv)

lemma int_of_qsizetype_eq: "int_of_qsizetype n = signed_take_bit 31 (int n)"
  unfolding int_of_qsizetype_def signed_of_int by simp

lemma int_of_qsizetype_le: "int_of_qsizetype n \<le> int n"
  using zmod_le_nonneg_dividend [of "int n + 2 ^ 31" "2 ^ 32"]
  by (simp add: int_of_qsizetype_eq signed_take_bit_eq_take_bit_shift take_bit_eq_mod)

lemma int_of_qsizetype_id: "int n \<le> INT_MAX \<Longrightarrow> int_of_qsizetype n = int n"
  by (simp add: int_of_qsizetype_eq INT_MAX_def signed_take_bit_int_eq_self)

lemma Private_copy_inv:
  assumes "sz \<le> int (length b)"
  obtains ai where "Private_copy b sz s = Some ai" "ai_inv ai" "sec ai \<longleftrightarrow> s \<and> 0 \<le> sz"
    "ai_content ai = take (nat sz) b"
proof (cases "0 \<le> sz")
  case True
  let ?ai = "snd (ai_new ai_zero sz s)" and ?b = "take (nat sz) b"
  have new: "ai_inv ?ai" "sec ?ai = s" "ai_size ?ai = sz" using True by (simp_all add: ai_new_inv)
  have len: "length ?b = nat sz" using assms by simp
  have le: "int (0 + length ?b) \<le> ai_size ?ai" using len new True by simp
  obtain ai' where "ai_write ?ai 0 ?b = Some ai'" "ai_inv ai'" "sec ai' = sec ?ai"
    "ai_content ai' = take 0 (ai_content ?ai) @ ?b @ drop (0 + length ?b) (ai_content ?ai)"
    using ai_write_in [OF new(1) le] .
  moreover have "ai_content ?ai = replicate (nat sz) 0" using True by (rule ai_new_inv)
  moreover have "mem_slice b 0 (nat (ai_size ?ai)) = Some ?b"
    using assms new(3) by (simp add: mem_slice_def nat_le_iff)
  ultimately show ?thesis
    using that [of ai'] new True len by (simp add: Private_copy_def Let_def)
next
  case False
  then have "Private_copy b sz s = Some ai_zero"
    by (simp add: Private_copy_def ai_new_def ai_zero_def mem_slice_def ai_write_def Let_def)
  then show ?thesis
    by (rule that) (use False in \<open>simp, simp_all add: ai_zero_def ai_content_def\<close>)
qed

lemma Private_bytes_any:
  obtains ai where "Private_bytes b s = Some ai" "ai_inv ai"
    "sec ai \<longleftrightarrow> s \<and> 0 \<le> int_of_qsizetype (length b)"
proof (rule Private_copy_inv [OF int_of_qsizetype_le, of b s])
  fix ai
  assume "Private_copy b (int_of_qsizetype (length b)) s = Some ai" "ai_inv ai"
    "sec ai \<longleftrightarrow> s \<and> 0 \<le> int_of_qsizetype (length b)"
  with that show thesis by (simp add: Private_bytes_def)
qed

lemma Private_bytes_inv:
  assumes "int (length b) \<le> INT_MAX"
  obtains ai where "Private_bytes b s = Some ai" "ai_inv ai" "sec ai = s" "ai_content ai = b"
proof (rule Private_copy_inv [of "int (length b)" b s])
  fix ai
  assume "Private_copy b (int (length b)) s = Some ai" "ai_inv ai" "sec ai \<longleftrightarrow> s \<and> 0 \<le> int (length b)"
    "ai_content ai = take (nat (int (length b))) b"
  with assms that [of ai] show thesis by (simp add: Private_bytes_def int_of_qsizetype_id)
qed simp

lemma ai_copy_inv:
  assumes "ai_inv from"
  obtains ai where "ai_copy ai0 from = Some (True, ai)" "ai_inv ai" "sec ai = sec from"
    "ai_content ai = ai_content from"
  using assms
  by (cases "from" rule: ai_inv_cases)
    (use that in \<open>auto simp: ai_copy_def ai_inv_def ai_content_def Let_def\<close>)

text \<open>
  Resizing keeps the common prefix; the bytes that are added are zero, except those of a
  non-empty ordinary buffer, which are uninitialised.
\<close>

definition grow :: "(nat \<Rightarrow> byte) \<Rightarrow> bool \<Rightarrow> bytes \<Rightarrow> nat \<Rightarrow> bytes" where
  "grow uninit s b n =
     take n b @ (if s \<or> b = [] then replicate (n - length b) 0 else map uninit [length b..<n])"

lemma length_grow [simp]: "length (grow uninit s b n) = n"
  by (auto simp: grow_def)

lemma grow_append [simp]: "length b \<le> n \<Longrightarrow> take (length b) (grow uninit s b n) = b"
  by (simp add: grow_def)

lemma ai_resize_secure:
  assumes "0 < ai_size ai" "0 < n" "sec ai" "sbuf ai = Some (bs @ [0])"
    "length bs = nat (ai_size ai)"
  shows "ai_resize uninit ai n =
    Some (True, ai\<lparr>sbuf := Some (grow uninit True bs (nat n) @ [0]), ai_size := n,
                   ai_data := IntoSbuf\<rparr>)"
proof -
  have src: "mem_slice (bs @ [0]) 0 (nat (min n (ai_size ai))) = Some (take (nat n) bs)"
    using assms by (simp add: mem_slice_in min_def)
  have cp: "memcpy_at (replicate (Suc (nat n)) 0) 0 (take (nat n) bs) =
      Some (grow uninit True bs (nat n) @ [0])"
    by (simp add: memcpy_at_in grow_def min_def replicate_snoc del: replicate.simps(2))
  have pk: "poke (grow uninit True bs (nat n) @ [0]) (nat n) 0 =
      Some (grow uninit True bs (nat n) @ [0])"
    by (simp add: poke_append)
  show ?thesis
    using assms by (simp add: ai_resize_def src cp pk Let_def del: replicate.simps(2))
qed

lemma ai_resize_inv:
  assumes "ai_inv ai" and "0 \<le> n"
  obtains ai' where "ai_resize uninit ai n = Some (True, ai')" "ai_inv ai'" "sec ai' = sec ai"
    "ai_content ai' = grow uninit (sec ai) (ai_content ai) (nat n)"
proof (cases "n = 0")
  case True
  with assms(1) that show ?thesis
    by (cases ai rule: ai_inv_cases)
      (auto simp: ai_resize_def ai_inv_def ai_content_def grow_def Let_def)
next
  case False
  with assms(2) have n: "0 < n" by simp
  from assms(1) show ?thesis
  proof (cases ai rule: ai_inv_cases)
    case empty
    show ?thesis
      by (rule that [of "if sec ai then ai\<lparr>sbuf := Some (replicate (nat n) 0 @ [0]), ai_size := n,
            ai_data := IntoSbuf\<rparr> else ai\<lparr>qbuf := Some (replicate (nat n) 0), ai_size := n,
            ai_data := IntoQbuf\<rparr>"])
        (use empty n in \<open>auto simp: ai_resize_def ai_inv_def ai_content_def grow_def Let_def
          poke_def replicate_snoc list_update_append simp del: replicate.simps(2)\<close>)
  next
    case (secure bs)
    with n ai_resize_secure [of ai n bs uninit] that show ?thesis
      by (auto simp: ai_inv_def ai_content_def)
  next
    case (plain bs)
    have "ai_resize uninit ai n = Some (True, ai\<lparr>qbuf := Some (grow uninit False bs (nat n)),
        ai_size := n, ai_data := IntoQbuf\<rparr>)"
      using plain n by (auto simp: ai_resize_def grow_def qba_resize_def)
    with plain n that show ?thesis by (auto simp: ai_inv_def ai_content_def)
  qed
qed

lemma Private_setSecure_inv:
  assumes "ai_inv ai"
  obtains ai' where "Private_setSecure ai s = Some ai'" "ai_inv ai'" "sec ai' = s"
    "ai_content ai' = ai_content ai"
proof (cases "sec ai = s")
  case True
  with assms that show ?thesis by (simp add: Private_setSecure_def)
next
  case False
  let ?o = "snd (ai_new ai_zero (ai_size ai) s)"
  have sz: "0 \<le> ai_size ai" "length (ai_content ai) = nat (ai_size ai)"
    using length_ai_content [OF assms] by auto
  then have new: "ai_inv ?o" "sec ?o = s" "ai_size ?o = ai_size ai"
    "ai_content ?o = replicate (nat (ai_size ai)) 0"
    by (simp_all add: ai_new_inv)
  obtain ai' where "ai_write ?o 0 (ai_content ai) = Some ai'" "ai_inv ai'" "sec ai' = s"
    "ai_content ai' = ai_content ai"
    using ai_write_in [of ?o 0 "ai_content ai"] new sz by auto
  with False assms that show ?thesis
    by (simp add: Private_setSecure_def ai_read_all Let_def)
qed

subsection \<open>Regions\<close>

lemma size_of_content: "region_inv r \<Longrightarrow> size_of r = int (length (content r))"
  by (auto simp: region_inv_def size_of_def content_def length_ai_content split: option.splits)

lemma toByteArray_content [simp]: "region_inv r \<Longrightarrow> toByteArray r = Some (content r)"
proof (cases "priv r")
  case None
  then show ?thesis by (simp add: toByteArray_def content_def)
next
  case (Some ai)
  assume "region_inv r"
  with Some have inv: "ai_inv ai" by (simp add: region_inv_def)
  then show ?thesis
    using Some ai_read_all [OF inv]
    by (cases ai rule: ai_inv_cases) (auto simp: toByteArray_def content_def)
qed

lemma isEmpty_content: "region_inv r \<Longrightarrow> isEmpty r = (content r = [])"
  using size_of_content [of r]
  by (auto simp: isEmpty_def size_of_def content_def split: option.splits)

lemma data_read_content [simp]:
  "region_inv r \<Longrightarrow> data_read r 0 (nat (size_of r)) = Some (content r)"
  by (auto simp: data_read_def region_inv_def size_of_def content_def ai_read_all mem_slice_def
      split: option.splits)

lemma data_write_in:
  assumes "region_inv r" and "off + length src \<le> length (content r)"
  obtains r' where "data_write r off src = Some r'" "region_inv r'" "secure r' = secure r"
    "content r' = take off (content r) @ src @ drop (off + length src) (content r)"
proof (cases "priv r")
  case None
  with assms that [of r] show ?thesis by (simp add: data_write_def content_def)
next
  case (Some ai)
  with assms have inv: "ai_inv ai" "sec ai = secure r"
    and le: "int (off + length src) \<le> ai_size ai"
    using length_ai_content [of ai] by (auto simp: region_inv_def content_def)
  from ai_write_in [OF inv(1) le] obtain ai' where "ai_write ai off src = Some ai'" "ai_inv ai'"
    "sec ai' = sec ai"
    "ai_content ai' = take off (ai_content ai) @ src @ drop (off + length src) (ai_content ai)" .
  with Some inv that [of "r\<lparr>priv := Some ai'\<rparr>"] show ?thesis
    by (simp add: data_write_def region_inv_def content_def)
qed

lemma region_null_inv [simp]: "region_inv (region_null s)" "content (region_null s) = []"
  "secure (region_null s) = s"
  by (simp_all add: region_null_def region_inv_def content_def)

lemma region_value_inv:
  obtains r where "region_value b s = Some r" "region_inv r" "secure r = s" "content r = b"
proof (rule Private_copy_inv [of "int (length b)" b s])
  fix ai
  assume "Private_copy b (int (length b)) s = Some ai" "ai_inv ai" "sec ai \<longleftrightarrow> s \<and> 0 \<le> int (length b)"
    "ai_content ai = take (nat (int (length b))) b"
  with that show thesis by (simp add: region_value_def region_inv_def content_def)
qed simp

lemma region_bytes_value: "int (length b) \<le> INT_MAX \<Longrightarrow> region_bytes b s = region_value b s"
  by (simp add: region_bytes_def region_value_def Private_bytes_def int_of_qsizetype_id)

lemma region_bytes_inv:
  assumes "int (length b) \<le> INT_MAX"
  obtains r where "region_bytes b s = Some r" "region_inv r" "secure r = s" "content r = b"
  using region_bytes_value [OF assms, of s] that by (metis region_value_inv)

lemma region_resize_inv:
  assumes "region_inv r" and "0 \<le> n"
  obtains r' where "region_resize uninit r n = Some (True, r')" "region_inv r'"
    "secure r' = secure r" "content r' = grow uninit (secure r) (content r) (nat n)"
proof (cases "priv r")
  case None
  with assms(2) that Private_size_inv [of n "secure r"] show ?thesis
    by (simp add: region_resize_def region_inv_def content_def grow_def)
next
  case (Some ai)
  with assms(1) have inv: "ai_inv ai" "sec ai = secure r" by (simp_all add: region_inv_def)
  show ?thesis
  proof (cases "ai_size ai = n")
    case True
    with length_ai_content [OF inv(1)] Some assms that [of r] show ?thesis
      by (auto simp: region_resize_def content_def grow_def)
  next
    case False
    obtain ai' where "ai_resize uninit ai n = Some (True, ai')" "ai_inv ai'" "sec ai' = sec ai"
      "ai_content ai' = grow uninit (sec ai) (ai_content ai) (nat n)"
      using ai_resize_inv [OF inv(1) assms(2)] .
    with Some False inv that [of "r\<lparr>priv := Some ai'\<rparr>"] show ?thesis
      by (simp add: region_resize_def region_inv_def content_def)
  qed
qed

lemma setSecure_inv:
  assumes "region_inv r"
  obtains r' where "setSecure r s = Some r'" "region_inv r'" "secure r' = s"
    "content r' = content r"
proof (cases "priv r")
  case None
  with that Private_size_inv [of 0 s] show ?thesis
    by (simp add: setSecure_def region_inv_def content_def)
next
  case (Some ai)
  with assms have "ai_inv ai" by (simp add: region_inv_def)
  then obtain ai' where "Private_setSecure ai s = Some ai'" "ai_inv ai'" "sec ai' = s"
    "ai_content ai' = ai_content ai" by (rule Private_setSecure_inv)
  with Some that [of "r\<lparr>secure := s, priv := Some ai'\<rparr>"] show ?thesis
    by (simp add: setSecure_def region_inv_def content_def)
qed

lemma append_other_inv:
  assumes "region_inv r" and "region_inv a" and "size_of r + size_of a \<le> INT_MAX"
  obtains r' where "append_array uninit r (Other a) = Some r'" "region_inv r'"
    "secure r' = secure r" "content r' = content r @ content a"
proof -
  let ?n = "size_of r + size_of a"
  have sz: "size_of r = int (length (content r))" "size_of a = int (length (content a))"
    using assms by (simp_all add: size_of_content)
  then have n: "0 \<le> ?n" "nat ?n = length (content r) + length (content a)" by simp_all
  have add: "add_int32 (size_of r) (size_of a) = Some ?n"
    using n assms(3) by (simp add: add_int32_def in_int32_def)
  obtain r1 where r1: "region_resize uninit r ?n = Some (True, r1)" "region_inv r1"
    "secure r1 = secure r" "content r1 = grow uninit (secure r) (content r) (nat ?n)"
    using region_resize_inv [OF assms(1) n(1)] .
  have len: "length (content r) + length (content a) \<le> length (content r1)"
    by (simp add: r1(4) n(2))
  obtain r2 where r2: "data_write r1 (length (content r)) (content a) = Some r2" "region_inv r2"
    "secure r2 = secure r1" "content r2 = take (length (content r)) (content r1) @ content a @
       drop (length (content r) + length (content a)) (content r1)"
    using data_write_in [OF r1(2) len] .
  have "content r2 = content r @ content a"
    using r2(4) by (simp add: r1(4) n(2))
  moreover have "append_array uninit r (Other a) = Some r2"
    using add r1(1) r2(1) assms(2) data_read_content [OF assms(2)]
    by (simp add: append_array_def deref_def sz)
  ultimately show ?thesis using that r2 r1 by simp
qed

section \<open>The interface of a byte buffer\<close>

text \<open>
  What the rest of the library relies on: a buffer is a value that holds a byte string;
  resizing and appending act on that string, and the buffer stays in locked memory.
\<close>

locale byte_buffer =
  fixes of_bytes :: "bytes \<Rightarrow> 'b option" and to_bytes :: "'b \<Rightarrow> bytes option"
    and app :: "'b \<Rightarrow> 'b \<Rightarrow> 'b option" and inv :: "'b \<Rightarrow> bool" and val :: "'b \<Rightarrow> bytes"
  assumes of_bytes: "int (length b) \<le> INT_MAX \<Longrightarrow> \<exists>r. of_bytes b = Some r \<and> inv r \<and> val r = b"
    and to_bytes: "inv r \<Longrightarrow> to_bytes r = Some (val r)"
    and app: "inv r \<Longrightarrow> inv a \<Longrightarrow> int (length (val r) + length (val a)) \<le> INT_MAX \<Longrightarrow>
      \<exists>r'. app r a = Some r' \<and> inv r' \<and> val r' = val r @ val a"
begin

fun app_all :: "'b \<Rightarrow> 'b list \<Rightarrow> 'b option" where
  "app_all r [] = Some r"
| "app_all r (a # as) = Option.bind (app r a) (\<lambda>r. app_all r as)"

lemma app_all_concat:
  assumes "inv r" and "list_all inv as"
    and "int (length (val r @ concat (map val as))) \<le> INT_MAX"
  shows "\<exists>r'. app_all r as = Some r' \<and> inv r' \<and> val r' = val r @ concat (map val as)"
  using assms
proof (induction as arbitrary: r)
  case Nil
  then show ?case by simp
next
  case (Cons a as)
  then have "int (length (val r) + length (val a)) \<le> INT_MAX" by simp
  with Cons.prems obtain r1 where "app r a = Some r1" "inv r1" "val r1 = val r @ val a"
    using app [of r a] by auto
  with Cons.IH [of r1] Cons.prems show ?case by auto
qed

lemma round_trip: "int (length b) \<le> INT_MAX \<Longrightarrow> Option.bind (of_bytes b) to_bytes = Some b"
  using of_bytes [of b] to_bytes by auto

end

definition secure_inv :: "memory_region \<Rightarrow> bool" where
  "secure_inv r \<longleftrightarrow> region_inv r \<and> secure r"

interpretation secure_buf: byte_buffer SecureArray_bytes toByteArray
  "\<lambda>r a. append_array uninit r (Other a)" secure_inv content
proof (unfold_locales, goal_cases)
  case (1 b)
  then obtain r where "region_bytes b True = Some r" "region_inv r" "secure r" "content r = b"
    by (rule region_bytes_inv [of b True]) auto
  then show ?case by (simp add: SecureArray_bytes_def secure_inv_def)
next
  case (2 r)
  then show ?case by (simp add: secure_inv_def)
next
  case (3 r a)
  then have "region_inv r" "region_inv a" "size_of r + size_of a \<le> INT_MAX" "secure r"
    by (simp_all add: secure_inv_def size_of_content)
  then show ?case
    using append_other_inv [of r a uninit] by (auto simp: secure_inv_def)
qed

section \<open>Life of a SecureArray\<close>

text \<open>
  The states a \<^verbatim>\<open>SecureArray\<close> can reach through its public operations, with any sizes, negative
  ones included (the comments of \<^verbatim>\<open>ai_new\<close> and \<^verbatim>\<open>ai_resize\<close> ask for sizes that are not, and
  nothing enforces it).  The index \<open>neg\<close> records of the history whether the allocation that
  the array owns was requested with a negative size: by the constructor, by \<^verbatim>\<open>resize\<close> of a
  null array, or by a \<^verbatim>\<open>QByteArray\<close> whose narrowed size is negative.  Copies and
  assignments of another \<^verbatim>\<open>SecureArray\<close> give a state of that array.  Appending an array to
  itself is left out: it is undefined for an array that is not empty
  (\<open>append_self_out_of_range\<close> below, and overlapping \<^verbatim>\<open>memcpy\<close> for a single byte).
\<close>

definition region_ok :: "memory_region \<Rightarrow> bool" where
  "region_ok r \<longleftrightarrow> (case priv r of None \<Rightarrow> True | Some ai \<Rightarrow> ai_inv ai)"

inductive secure_reach :: "(nat \<Rightarrow> byte) \<Rightarrow> bool \<Rightarrow> memory_region \<Rightarrow> bool" for uninit where
  default: "secure_reach uninit False (region_null True)"
| sized: "SecureArray_size n ch = Some r \<Longrightarrow> secure_reach uninit (n < 0) r"
| bytes: "SecureArray_bytes b = Some r \<Longrightarrow>
    secure_reach uninit (int_of_qsizetype (length b) < 0) r"
| from_region: "region_ok a \<Longrightarrow> SecureArray_region a = Some r \<Longrightarrow> secure_reach uninit False r"
| resize: "secure_reach uninit neg r \<Longrightarrow> region_resize uninit r n = Some (ok, r') \<Longrightarrow>
    secure_reach uninit (neg \<or> isNull r \<and> n < 0) r'"
| clear: "secure_reach uninit neg r \<Longrightarrow> SecureArray_clear uninit r = Some r' \<Longrightarrow>
    secure_reach uninit neg r'"
| append: "secure_reach uninit neg r \<Longrightarrow> secure_reach uninit neg' a \<Longrightarrow>
    append_array uninit r (Other a) = Some r' \<Longrightarrow> secure_reach uninit neg r'"
| fill: "secure_reach uninit neg r \<Longrightarrow> fill r ch n = Some r' \<Longrightarrow> secure_reach uninit neg r'"
| store: "secure_reach uninit neg r \<Longrightarrow> int i < size_of r \<Longrightarrow> data_write r i [ch] = Some r' \<Longrightarrow>
    secure_reach uninit neg r'"
| assign_bytes: "secure_reach uninit neg r \<Longrightarrow> region_set r b True = Some r' \<Longrightarrow>
    secure_reach uninit (int_of_qsizetype (length b) < 0) r'"

text \<open>
  Only \<open>resize\<close> of a null region reads the member \<^verbatim>\<open>_secure\<close>; every other operation goes by
  \<open>sec\<close> of the allocation.
\<close>

lemma size_of_secure [simp]: "size_of (r\<lparr>secure := s\<rparr>) = size_of r"
  by (simp add: size_of_def)

lemma data_write_secure:
  "data_write (r\<lparr>secure := s\<rparr>) off src = map_option (\<lambda>r. r\<lparr>secure := s\<rparr>) (data_write r off src)"
  by (cases r) (simp add: data_write_def option.map_comp comp_def split: option.split)

lemma fill_secure: "fill (r\<lparr>secure := s\<rparr>) ch n = map_option (\<lambda>r. r\<lparr>secure := s\<rparr>) (fill r ch n)"
  by (simp add: fill_def data_write_secure Let_def)

lemma resize_secure:
  assumes "\<not> isNull r"
  shows "region_resize uninit (r\<lparr>secure := s\<rparr>) n =
    map_option (\<lambda>(ok, r). (ok, r\<lparr>secure := s\<rparr>)) (region_resize uninit r n)"
  using assms
  by (cases r) (auto simp: region_resize_def isNull_def option.map_comp comp_def split_def
      split: option.split)

lemma append_secure:
  assumes "\<not> isNull r"
  shows "append_array uninit (r\<lparr>secure := s\<rparr>) (Other (a\<lparr>secure := s'\<rparr>)) =
    map_option (\<lambda>r. r\<lparr>secure := s\<rparr>) (append_array uninit r (Other a))"
proof -
  have "data_read (a\<lparr>secure := s'\<rparr>) 0 n = data_read a 0 n" for n by (simp add: data_read_def)
  then show ?thesis
    using resize_secure [OF assms]
    by (cases "add_int32 (size_of r) (size_of a)"; cases "data_read a 0 (nat (size_of a))";
        cases "region_resize uninit r (size_of r + size_of a)")
      (auto simp: append_array_def deref_def data_write_secure Let_def add_int32_def
        split: if_splits)
qed

lemma fill_inv:
  assumes "region_inv r"
  obtains r' where "fill r ch n = Some r'" "region_inv r'" "secure r' = secure r"
proof -
  let ?len = "if n = -1 then size_of r else min n (size_of r)"
  show ?thesis
  proof (cases "?len > 0")
    case True
    then have "0 + length (replicate (nat ?len) ch) \<le> length (content r)"
      using size_of_content [OF assms] by (auto split: if_splits)
    from data_write_in [OF assms this] obtain r' where
      "data_write r 0 (replicate (nat ?len) ch) = Some r'" "region_inv r'"
      "secure r' = secure r" .
    with True that show ?thesis by (simp add: fill_def Let_def)
  next
    case False
    with assms that show ?thesis by (simp add: fill_def Let_def)
  qed
qed

lemma region_size_inv: "0 \<le> n \<Longrightarrow> region_inv (region_size n s)"
  using Private_size_inv [of n s] by (simp add: region_size_def region_inv_def)

text \<open>
  The invariant of the relation: with \<open>secure\<close> set to what \<open>neg\<close> says of the allocation the
  region satisfies \<open>region_inv\<close>, and only an array that is not null can be tainted.
\<close>

definition reach_inv :: "bool \<Rightarrow> memory_region \<Rightarrow> bool" where
  "reach_inv neg r \<longleftrightarrow> secure r \<and> region_inv (r\<lparr>secure := \<not> neg\<rparr>) \<and> (neg \<longrightarrow> \<not> isNull r)"

lemma reach_inv_null: "reach_inv neg r \<Longrightarrow> isNull r \<Longrightarrow> neg = False \<and> r = region_null True"
  by (cases r) (auto simp: reach_inv_def isNull_def region_null_def)

lemma reach_inv_alloc:
  "secure r \<Longrightarrow> priv r = Some ai \<Longrightarrow> ai_inv ai \<Longrightarrow> sec ai = (\<not> neg) \<Longrightarrow> reach_inv neg r"
  by (simp add: reach_inv_def region_inv_def isNull_def)

lemma Private_size_any:
  "ai_inv (Private_size n True)" "sec (Private_size n True) \<longleftrightarrow> \<not> n < 0"
proof -
  show "ai_inv (Private_size n True)"
    by (cases "n < 0") (simp_all add: Private_size_inv, simp add: Private_size_def ai_new_def)
  show "sec (Private_size n True) \<longleftrightarrow> \<not> n < 0"
    by (cases "n < 0") (simp_all add: Private_size_inv, simp add: Private_size_def ai_new_def ai_zero_def)
qed

lemma reach_inv_fill:
  assumes "reach_inv neg r" and "fill r ch n = Some r'"
  shows "reach_inv neg r'"
proof -
  let ?u = "\<lambda>r. r\<lparr>secure := \<not> neg\<rparr>"
  have "region_inv (?u r)" "secure r" using assms(1) by (simp_all add: reach_inv_def)
  from fill_inv [OF this(1), of ch n] have "region_inv (?u r')"
    by (metis assms(2) fill_secure option.inject option.simps(9))
  moreover have "secure r' = secure r \<and> isNull r' = isNull r"
    using assms(2) by (auto simp: fill_def data_write_def isNull_def Let_def
        split: if_splits option.splits)
  ultimately show ?thesis using assms(1) by (simp add: reach_inv_def)
qed

lemma reach_inv_store:
  assumes "reach_inv neg r" and "int i < size_of r" and "data_write r i [ch] = Some r'"
  shows "reach_inv neg r'"
proof -
  let ?u = "\<lambda>r. r\<lparr>secure := \<not> neg\<rparr>"
  have inv: "region_inv (?u r)" using assms(1) by (simp add: reach_inv_def)
  have "i + length [ch] \<le> length (content (?u r))"
    using assms(2) size_of_content [OF inv] by simp
  from data_write_in [OF inv this] have "region_inv (?u r')"
    by (metis assms(3) data_write_secure option.inject option.simps(9))
  moreover have "secure r' = secure r \<and> isNull r' = isNull r"
    using assms(3) by (auto simp: data_write_def isNull_def split: option.splits if_splits)
  ultimately show ?thesis using assms(1) by (simp add: reach_inv_def)
qed

lemma reach_inv_resize:
  assumes "reach_inv neg r" and "region_resize uninit r n = Some (ok, r')"
  shows "reach_inv (neg \<or> isNull r \<and> n < 0) r'"
proof (cases "priv r")
  case None
  then have "neg = False" "r = region_null True"
    using reach_inv_null [OF assms(1)] by (simp_all add: isNull_def)
  with assms(2) Private_size_any [of n] show ?thesis
    by (auto simp: region_resize_def region_null_def isNull_def intro!: reach_inv_alloc)
next
  case (Some ai)
  with assms(1) have ai: "ai_inv ai" "sec ai = (\<not> neg)" "secure r"
    by (simp_all add: reach_inv_def region_inv_def)
  obtain ai' where "priv r' = Some ai'" "ai_inv ai'" "sec ai' = sec ai" "secure r' = secure r"
  proof (cases "n < 0 \<or> ai_size ai = n")
    case True
    with assms(2) Some ai that show ?thesis
      by (auto simp: region_resize_def ai_resize_def split: if_splits)
  next
    case False
    then have n: "0 \<le> n" "ai_size ai \<noteq> n" by simp_all
    obtain ai' where "ai_resize uninit ai n = Some (True, ai')" "ai_inv ai'" "sec ai' = sec ai"
      using ai_resize_inv [OF ai(1) n(1)] by blast
    with n(2) assms(2) Some that [of ai'] show ?thesis by (auto simp: region_resize_def)
  qed
  with ai Some show ?thesis by (auto simp: isNull_def intro!: reach_inv_alloc)
qed

lemma reach_inv_append:
  assumes "reach_inv neg r" and "reach_inv neg' a"
    and "append_array uninit r (Other a) = Some r'"
  shows "reach_inv neg r'"
proof -
  let ?r = "r\<lparr>secure := \<not> neg\<rparr>" and ?a = "a\<lparr>secure := \<not> neg'\<rparr>"
  have inv: "region_inv ?r" "region_inv ?a" "secure r" using assms by (simp_all add: reach_inv_def)
  have "size_of ?r + size_of ?a \<le> INT_MAX"
    using assms(3)
    by (auto simp: append_array_def deref_def add_int32_def in_int32_def Let_def split: if_splits)
  from append_other_inv [OF inv(1,2) this, of uninit] obtain r1 where
    r1: "append_array uninit ?r (Other ?a) = Some r1" "region_inv r1" "secure r1 = (\<not> neg)" by auto
  have keep: "secure r' = secure r" "isNull r' \<Longrightarrow> isNull r"
    using assms(3) by (auto simp: append_array_def region_resize_def data_write_def isNull_def
        deref_def Let_def split: Option.bind_splits option.splits if_splits)
  show ?thesis
  proof (cases "isNull r")
    case True
    then have "neg = False" "?r = r" using reach_inv_null [OF assms(1)] by (auto simp: region_null_def)
    moreover have "append_array uninit r (Other ?a) = append_array uninit r (Other a)"
      by (simp add: append_array_def deref_def data_read_def Let_def cong: option.case_cong)
    ultimately have "r1 = r'" "?r = r" using r1(1) assms(3) by simp_all
    moreover have "r'\<lparr>secure := True\<rparr> = r'" using keep(1) inv(3) by simp
    ultimately have "region_inv (r'\<lparr>secure := True\<rparr>)" using r1(2) by metis
    then show ?thesis using \<open>neg = False\<close> keep inv by (simp add: reach_inv_def)
  next
    case False
    with r1 append_secure [OF False, of uninit "\<not> neg" "\<not> neg'" a] assms(3) keep inv show ?thesis
      by (auto simp: reach_inv_def)
  qed
qed

lemma reach_inv_bytes:
  assumes "Private_bytes b True = Some ai" and "secure r" and "priv r = Some ai"
  shows "reach_inv (int_of_qsizetype (length b) < 0) r"
  by (rule Private_bytes_any [of b True])
    (use assms in \<open>auto intro!: reach_inv_alloc [of r ai]\<close>)

lemma reach_inv_region:
  assumes "region_ok a" and "SecureArray_region a = Some r"
  shows "reach_inv False r"
proof (cases "priv a")
  case None
  with assms Private_size_any [of 0] show ?thesis
    by (auto simp: SecureArray_region_def setSecure_def intro!: reach_inv_alloc)
next
  case (Some ai)
  with assms(1) have "ai_inv ai" by (simp add: region_ok_def)
  then obtain ai' where "Private_setSecure ai True = Some ai'" "ai_inv ai'" "sec ai' = True"
    using Private_setSecure_inv by blast
  with assms(2) Some show ?thesis
    by (auto simp: SecureArray_region_def setSecure_def intro!: reach_inv_alloc)
qed

lemma secure_reach_inv: "secure_reach uninit neg r \<Longrightarrow> reach_inv neg r"
proof (induction rule: secure_reach.induct)
  case default
  show ?case by (simp add: reach_inv_def region_null_def region_inv_def)
next
  case (sized n ch r)
  have "reach_inv (n < 0) (region_size n True)"
    using Private_size_any [of n] by (auto simp: region_size_def intro!: reach_inv_alloc)
  with sized show ?case
    by (auto simp: SecureArray_size_def Let_def split: if_splits intro: reach_inv_fill)
next
  case (bytes b r)
  then show ?case
    by (auto simp: SecureArray_bytes_def region_bytes_def intro!: reach_inv_bytes)
next
  case (from_region a r)
  then show ?case by (rule reach_inv_region)
next
  case (resize neg r n ok r')
  from resize.IH resize.hyps(2) show ?case by (rule reach_inv_resize)
next
  case (clear neg r r')
  then show ?case
    using reach_inv_resize [of neg r uninit 0] by (auto simp: SecureArray_clear_def)
next
  case (append neg r neg' a r')
  from append.IH append.hyps(3) show ?case by (rule reach_inv_append)
next
  case (fill neg r ch n r')
  from fill.IH fill.hyps(2) show ?case by (rule reach_inv_fill)
next
  case (store neg r i ch r')
  from store.IH store.hyps(2,3) show ?case by (rule reach_inv_store)
next
  case (assign_bytes neg r b r')
  show ?case
  proof (cases "b = []")
    case True
    with assign_bytes Private_size_any [of 0] show ?thesis
      by (auto simp: region_set_def int_of_qsizetype_def intro!: reach_inv_alloc)
  next
    case False
    with assign_bytes show ?thesis by (auto simp: region_set_def Let_def intro!: reach_inv_bytes)
  qed
qed

lemma secure_reach_secure: "secure_reach uninit False r \<Longrightarrow> secure_inv r"
  using secure_reach_inv [of uninit False r] by (cases r) (simp add: reach_inv_def secure_inv_def)

lemma negative_size_reach:
  assumes "(n::int) < 0"
  shows "secure_reach uninit True \<lparr>secure = True, priv = Some ai_zero\<rparr>"
proof -
  have "SecureArray_size n 0 = Some \<lparr>secure = True, priv = Some ai_zero\<rparr>"
    using assms by (simp add: SecureArray_size_def region_size_def Private_size_def ai_new_def)
  from secure_reach.sized [OF this] assms show ?thesis by simp
qed

section \<open>Properties\<close>

text \<open>
  C3. Take any \<^verbatim>\<open>SecureArray\<close> made and changed through its public operations, with any sizes
  (self-append apart).  Its allocation satisfies the representation invariant, and its bytes
  are in locked memory, followed by a zero byte, and in no ordinary \<^verbatim>\<open>QByteArray\<close>, exactly when
  that allocation was not requested with a negative size.  Otherwise, after a constructor, a
  \<^verbatim>\<open>resize\<close> of a null array or a narrowed \<^verbatim>\<open>QByteArray\<close> size below zero, the array still calls
  itself secure and whatever it holds is in ordinary memory: the last conjunct shows this for
  \<^verbatim>\<open>resize(n); resize(m)\<close> and for \<^verbatim>\<open>SecureArray(n); resize(m)\<close>, \<open>n\<close> negative, \<open>m\<close> positive.
\<close>

theorem secure_array_locked:
  assumes "secure_reach uninit neg r" and "priv r = Some ai" and "n < 0" and "0 < m"
  shows "ai_inv ai \<and> secure r \<and> sec ai = (\<not> neg) \<and>
    (\<not> neg \<longrightarrow> qbuf ai = None \<and>
      (0 < ai_size ai \<longrightarrow> (\<exists>bs. sbuf ai = Some (bs @ [0]) \<and> toByteArray r = Some bs))) \<and>
    (neg \<longrightarrow> sbuf ai = None \<and>
      (0 < ai_size ai \<longrightarrow> (\<exists>bs. qbuf ai = Some bs \<and> toByteArray r = Some bs))) \<and>
    (\<exists>r1 r2 r3. region_resize uninit (region_null True) n = Some (True, r1) \<and>
      SecureArray_size n 0 = Some r2 \<and> secure_reach uninit True r1 \<and> secure_reach uninit True r2 \<and>
      region_resize uninit r1 m = Some (True, r3) \<and> region_resize uninit r2 m = Some (True, r3) \<and>
      secure r3 \<and> map_option qbuf (priv r3) = Some (Some (replicate (nat m) 0)))"
proof (intro conjI)
  from secure_reach_inv [OF assms(1)] assms(2)
  have inv: "secure r" "ai_inv ai" "sec ai = (\<not> neg)" by (auto simp: reach_inv_def region_inv_def)
  show "ai_inv ai" "secure r" "sec ai = (\<not> neg)" by (fact inv)+
  show "\<not> neg \<longrightarrow> qbuf ai = None \<and>
      (0 < ai_size ai \<longrightarrow> (\<exists>bs. sbuf ai = Some (bs @ [0]) \<and> toByteArray r = Some bs))"
    using inv(3) assms(2) ai_read_all [OF inv(2)]
    by (cases rule: ai_inv_cases [OF inv(2)]) (auto simp: toByteArray_def)
  show "neg \<longrightarrow> sbuf ai = None \<and>
      (0 < ai_size ai \<longrightarrow> (\<exists>bs. qbuf ai = Some bs \<and> toByteArray r = Some bs))"
    using inv(3) assms(2) by (cases rule: ai_inv_cases [OF inv(2)]) (auto simp: toByteArray_def)
  show "\<exists>r1 r2 r3. region_resize uninit (region_null True) n = Some (True, r1) \<and>
      SecureArray_size n 0 = Some r2 \<and> secure_reach uninit True r1 \<and> secure_reach uninit True r2 \<and>
      region_resize uninit r1 m = Some (True, r3) \<and> region_resize uninit r2 m = Some (True, r3) \<and>
      secure r3 \<and> map_option qbuf (priv r3) = Some (Some (replicate (nat m) 0))"
    using negative_size_reach [OF assms(3), of uninit] assms(3,4)
    by (auto simp: region_resize_def region_null_def SecureArray_size_def region_size_def
        Private_size_def ai_new_def ai_zero_def ai_resize_def Let_def)
qed

definition demo_array :: memory_region where
  "demo_array = the (SecureArray_bytes [1, 2, 3])"

lemma demo_array_some: "SecureArray_bytes [1, 2, 3] = Some demo_array"
  using secure_buf.of_bytes [of "[1, 2, 3]"] by (auto simp: demo_array_def INT_MAX_def)

lemma demo_array_eq: "demo_array = \<lparr>secure = True, priv = Some \<lparr>sec = True, ai_data = IntoSbuf,
    ai_size = 3, sbuf = Some [1, 2, 3, 0], qbuf = None\<rparr>\<rparr>"
  by code_simp

lemma demo_array_reach: "secure_reach uninit False demo_array"
  using secure_reach.bytes [OF demo_array_some, of uninit]
  by (simp add: int_of_qsizetype_id INT_MAX_def)

lemmas demo_array_inv = secure_reach_secure [OF demo_array_reach]

theorem secure_array_locked_witness:
  "secure_reach (\<lambda>_. 0) False demo_array \<and> (- 1 :: int) < 0 \<and> (0 :: int) < 2 \<and>
   priv demo_array = Some (the (priv demo_array)) \<and> qbuf (the (priv demo_array)) = None \<and>
   (\<exists>r1 r3. region_resize (\<lambda>_. 0) (region_null True) (- 1) = Some (True, r1) \<and>
     region_resize (\<lambda>_. 0) r1 2 = Some (True, r3) \<and> secure r3 \<and>
     map_option qbuf (priv r3) = Some (Some [0, 0]))"
proof -
  have s: "priv demo_array = Some (the (priv demo_array))" by (simp add: demo_array_eq)
  have "replicate (nat 2) (0::byte) = [0, 0]" by (simp add: numeral_eq_Suc)
  with secure_array_locked [OF demo_array_reach s, of "- 1" 2 "\<lambda>_. 0"] demo_array_reach s
  show ?thesis by auto
qed

text \<open>
  Concatenation: \<^verbatim>\<open>a + b\<close> succeeds whenever the total size fits an \<^verbatim>\<open>int\<close>, stays in
  locked memory and holds the bytes of \<open>a\<close> followed by those of \<open>b\<close>.
\<close>

theorem array_plus_concat:
  assumes "secure_inv a" and "secure_inv b" and "size_of a + size_of b \<le> INT_MAX"
  shows "\<exists>c. array_plus uninit a b = Some c \<and> secure_inv c \<and>
    size_of c = size_of a + size_of b \<and> toByteArray c = Some (content a @ content b)"
proof -
  from assms obtain c where "append_array uninit a (Other b) = Some c" "region_inv c"
    "secure c = secure a" "content c = content a @ content b"
    using append_other_inv [of a b uninit] by (auto simp: secure_inv_def)
  with assms show ?thesis
    by (auto simp: array_plus_def secure_inv_def size_of_content)
qed

theorem array_plus_concat_witness:
  "secure_inv demo_array \<and> size_of demo_array + size_of demo_array \<le> INT_MAX \<and>
   (\<exists>c. array_plus (\<lambda>_. 0) demo_array demo_array = Some c \<and> secure_inv c \<and>
     size_of c = 6 \<and> toByteArray c = Some [1, 2, 3, 1, 2, 3])"
proof -
  note inv = demo_array_inv
  have sz: "size_of demo_array + size_of demo_array \<le> INT_MAX" "size_of demo_array = 3"
    "content demo_array = [1, 2, 3]"
    by (simp_all add: demo_array_eq size_of_def INT_MAX_def content_def ai_content_def)
  from array_plus_concat [OF inv inv sz(1), of "\<lambda>_. 0"] inv sz show ?thesis by simp
qed

text \<open>
  Resizing a secure array to a size that is not negative succeeds, keeps the common
  prefix and fills with zero bytes: no uninitialised memory becomes visible.
\<close>

theorem secure_resize_zero_fill:
  assumes "secure_inv r" and "0 \<le> n"
  shows "\<exists>r'. region_resize uninit r n = Some (True, r') \<and> secure_inv r' \<and> size_of r' = n \<and>
    toByteArray r' =
      Some (take (nat n) (content r) @ replicate (nat n - length (content r)) 0)"
proof -
  from assms obtain r' where "region_resize uninit r n = Some (True, r')" "region_inv r'"
    "secure r'" "content r' = grow uninit True (content r) (nat n)"
    using region_resize_inv [of r n uninit] by (auto simp: secure_inv_def)
  with assms(2) show ?thesis
    by (auto simp: secure_inv_def size_of_content) (simp add: grow_def)
qed

theorem secure_resize_zero_fill_witness:
  "secure_inv demo_array \<and> (0::int) \<le> 5 \<and>
   (\<exists>r'. region_resize (\<lambda>_. 7) demo_array 5 = Some (True, r') \<and>
     toByteArray r' = Some [1, 2, 3, 0, 0])"
proof -
  note inv = demo_array_inv
  have "content demo_array = [1, 2, 3]"
    by (simp add: demo_array_eq content_def ai_content_def)
  moreover have "replicate (2::nat) (0::byte) = [0, 0]" by (simp add: numeral_eq_Suc)
  ultimately show ?thesis
    using secure_resize_zero_fill [OF inv, of 5 "\<lambda>_. 7"] inv by auto
qed

text \<open>
  Appending an array of at least two bytes to itself (\<^verbatim>\<open>a.append(a)\<close>, \<^verbatim>\<open>a += a\<close>) writes
  past the end of the buffer: the size of the argument is read again after the receiver,
  which is the argument, has been resized.
\<close>

theorem append_self_out_of_range:
  assumes "secure_inv r" and "2 \<le> size_of r" and "2 * size_of r \<le> INT_MAX"
  shows "append_array uninit r This = None"
proof -
  let ?n = "size_of r + size_of r"
  have sz: "size_of r = int (length (content r))" using assms by (simp add: size_of_content secure_inv_def)
  from assms obtain r1 where r1: "region_resize uninit r ?n = Some (True, r1)" "region_inv r1"
    "secure r1" "content r1 = grow uninit True (content r) (nat ?n)"
    using region_resize_inv [of r ?n uninit] by (auto simp: secure_inv_def)
  then have sz1: "size_of r1 = ?n" by (simp add: size_of_content sz)
  then obtain ai where ai: "priv r1 = Some ai" "ai_inv ai" "sec ai" "ai_size ai = ?n"
    using r1 assms(2) by (auto simp: size_of_def region_inv_def split: option.splits)
  obtain bs where "sbuf ai = Some (bs @ [0])" "length bs = nat ?n" "ai_data ai = IntoSbuf"
    using ai(2,3,4) assms(2) by (cases ai rule: ai_inv_cases) auto
  moreover have "length (content r1) = nat ?n" using r1(4) by simp
  ultimately have "data_write r1 (nat (size_of r)) (content r1) = None"
    using ai(1) assms(2) by (auto simp: data_write_def ai_write_def memcpy_at_def)
  moreover have "add_int32 (size_of r) (size_of r) = Some ?n"
    using assms by (simp add: add_int32_def in_int32_def)
  ultimately show ?thesis
    using r1(1) data_read_content [OF r1(2)]
    by (simp add: append_array_def deref_def)
qed

theorem append_self_out_of_range_witness:
  "secure_inv demo_array \<and> 2 \<le> size_of demo_array \<and> 2 * size_of demo_array \<le> INT_MAX \<and>
   append_array (\<lambda>_. 0) demo_array This = None"
proof -
  note inv = demo_array_inv
  have sz: "2 \<le> size_of demo_array" "2 * size_of demo_array \<le> INT_MAX"
    by (simp_all add: demo_array_eq size_of_def INT_MAX_def)
  show ?thesis using append_self_out_of_range [OF inv sz, of "\<lambda>_. 0"] inv sz by simp
qed

end
