(* ===== verification/TextFilter.thy ===== *)
theory TextFilter
  imports MemoryRegion
begin

text \<open>
  \<^verbatim>\<open>src/qca_textfilter.cpp\<close>, first part: \<^verbatim>\<open>TextFilter\<close>, the generic \<^verbatim>\<open>Filter::process\<close> of
  \<^verbatim>\<open>src/qca_core.cpp\<close> and the \<^verbatim>\<open>Hex\<close> filter.

  The object's members are a record, every method takes the object and returns it updated.
  \<^verbatim>\<open>QByteArray::operator[]\<close> is used as Qt 6 documents it (the default build): the index must
  be below the size, so a write outside the array is \<open>None\<close>.

  The filters of this theory and of \<open>Base64\<close> work on texts whose sizes, and the sizes of the
  results, are within an \<^verbatim>\<open>int\<close>: their sums and products of sizes are unbounded here, and
  regions are made with \<open>region_value\<close>, which does not narrow.  The code computes sizes as
  \<^verbatim>\<open>int\<close>, so it differs from the model when a result nears 2 GB.
\<close>

section \<open>Model\<close>

datatype direction = Encode | Decode

subsection \<open>Filter::process\<close>

definition filter_process ::
    "(nat \<Rightarrow> byte) \<Rightarrow> ('f \<Rightarrow> 'f) \<Rightarrow> ('f \<Rightarrow> memory_region \<Rightarrow> ('f \<times> memory_region) option) \<Rightarrow>
     ('f \<Rightarrow> ('f \<times> memory_region) option) \<Rightarrow> ('f \<Rightarrow> bool) \<Rightarrow> 'f \<Rightarrow> memory_region \<Rightarrow>
     ('f \<times> memory_region) option" where
  "filter_process uninit clear update final ok f a =
     do {
       let f = clear f;
       (f, buf) \<leftarrow> update f a;
       if \<not> ok f then Some (f, region_null False)
       else do {
         (f, fin) \<leftarrow> final f;
         if \<not> ok f then Some (f, region_null False)
         else if secure buf \<or> secure fin then do {
           x \<leftarrow> SecureArray_region buf;
           y \<leftarrow> SecureArray_region fin;
           r \<leftarrow> array_plus uninit x y;
           Some (f, r)
         }
         else do {
           x \<leftarrow> toByteArray buf;
           y \<leftarrow> toByteArray fin;
           r \<leftarrow> region_value (x @ y) False;
           Some (f, r)
         }
       }
     }"

subsection \<open>Hex\<close>

definition enhex :: "byte \<Rightarrow> int" where
  "enhex c =
     (let c = unat c in
      if c < 10 then int c + 0x30
      else if c < 16 then int c - 10 + 0x61
      else -1)"

definition dehex :: "byte \<Rightarrow> int" where
  "dehex c =
     (let c = unat c in
      if 0x61 \<le> c \<and> c \<le> 0x66 then int c - 0x61 + 10
      else if 0x41 \<le> c \<and> c \<le> 0x46 then int c - 0x41 + 10
      else if 0x30 \<le> c \<and> c \<le> 0x39 then int c - 0x30
      else -1)"

record hex =
  hex_dir :: direction
  hex_val :: byte
  hex_partial :: bool
  hex_ok :: bool

definition hex_clear :: "hex \<Rightarrow> hex" where
  "hex_clear h = h\<lparr>hex_partial := False, hex_ok := True\<rparr>"

text \<open>\<^verbatim>\<open>Hex(dir)\<close>; \<^verbatim>\<open>val\<close> is not initialised.\<close>

definition Hex :: "byte \<Rightarrow> direction \<Rightarrow> hex" where
  "Hex uninit_val dir =
     hex_clear \<lparr>hex_dir = dir, hex_val = uninit_val, hex_partial = False, hex_ok = False\<rparr>"

fun hex_encode_loop :: "bytes \<Rightarrow> bytes \<Rightarrow> nat \<Rightarrow> bool \<Rightarrow> (bool \<times> bytes) option" where
  "hex_encode_loop [] out at ok = Some (ok, out)"
| "hex_encode_loop (ac # a) out at ok =
     (let lo = ac AND 0x0f; hi = drop_bit 4 ac; c = enhex hi in
      if c = -1 then Some (False, out)
      else do {
        out \<leftarrow> poke out at (word_of_int c);
        let c = enhex lo;
        if c = -1 then Some (False, out)
        else do {
          out \<leftarrow> poke out (at + 1) (word_of_int c);
          hex_encode_loop a out (at + 2) ok
        }
      })"

text \<open>The decoding loop returns \<^verbatim>\<open>_ok\<close>, \<^verbatim>\<open>hi\<close>, \<^verbatim>\<open>flag\<close> and \<^verbatim>\<open>out\<close>.\<close>

fun hex_decode_loop ::
    "bytes \<Rightarrow> bytes \<Rightarrow> nat \<Rightarrow> byte \<Rightarrow> bool \<Rightarrow> bool \<Rightarrow> (bool \<times> byte \<times> bool \<times> bytes) option" where
  "hex_decode_loop [] out at hi flag ok = Some (ok, hi, flag, out)"
| "hex_decode_loop (ac # a) out at hi flag ok =
     (let c = dehex ac in
      if c = -1 then Some (False, hi, flag, out)
      else if flag then
        do {
          let lo = word_of_int c;
          let full = push_bit 4 (hi AND 0x0f) + (lo AND 0x0f);
          out \<leftarrow> poke out at full;
          hex_decode_loop a out (at + 1) hi False ok
        }
      else hex_decode_loop a out at (word_of_int c) True ok)"

definition hex_update :: "hex \<Rightarrow> memory_region \<Rightarrow> (hex \<times> memory_region) option" where
  "hex_update h m =
     do {
       a \<leftarrow> toByteArray m;
       if hex_dir h = Encode then
         do {
           (ok, out) \<leftarrow> hex_encode_loop a (replicate (length a * 2) 0) 0 (hex_ok h);
           let h = h\<lparr>hex_ok := ok\<rparr>;
           if \<not> ok then Some (h, region_null False)
           else map_option (Pair h) (region_value out False)
         }
       else
         do {
           let hi = (if hex_partial h then hex_val h else 0);
           let flag = hex_partial h;
           (ok, hi, flag, out) \<leftarrow>
             hex_decode_loop a (replicate (length a div 2) 0) 0 hi flag (hex_ok h);
           let h = h\<lparr>hex_ok := ok\<rparr>;
           if \<not> ok then Some (h, region_null False)
           else do {
             let h = (if flag then h\<lparr>hex_val := hi, hex_partial := True\<rparr> else h);
             map_option (Pair h) (region_value out False)
           }
         }
     }"

definition hex_final :: "hex \<Rightarrow> (hex \<times> memory_region) option" where
  "hex_final h =
     Some (if hex_partial h then h\<lparr>hex_ok := False\<rparr> else h, region_null False)"

text \<open>\<^verbatim>\<open>TextFilter::encode\<close> and \<^verbatim>\<open>decode\<close> on a \<^verbatim>\<open>Hex\<close> object.\<close>

definition hex_encode :: "(nat \<Rightarrow> byte) \<Rightarrow> hex \<Rightarrow> memory_region \<Rightarrow> (hex \<times> memory_region) option"
  where "hex_encode uninit h a =
    filter_process uninit hex_clear hex_update hex_final hex_ok (h\<lparr>hex_dir := Encode\<rparr>) a"

definition hex_decode :: "(nat \<Rightarrow> byte) \<Rightarrow> hex \<Rightarrow> memory_region \<Rightarrow> (hex \<times> memory_region) option"
  where "hex_decode uninit h a =
    filter_process uninit hex_clear hex_update hex_final hex_ok (h\<lparr>hex_dir := Decode\<rparr>) a"

text \<open>
  \<^verbatim>\<open>TextFilter::arrayToString\<close> and \<^verbatim>\<open>stringToArray\<close>, and the two convenience functions of
  \<^verbatim>\<open>src/qca_core.cpp\<close>, which use a temporary \<^verbatim>\<open>Hex\<close> object.
\<close>

definition hex_arrayToString :: "(nat \<Rightarrow> byte) \<Rightarrow> hex \<Rightarrow> memory_region \<Rightarrow> qstring option" where
  "hex_arrayToString uninit h a =
     do { (h, r) \<leftarrow> hex_encode uninit h a; b \<leftarrow> toByteArray r; Some (fromLatin1 b) }"

definition hex_stringToArray :: "(nat \<Rightarrow> byte) \<Rightarrow> hex \<Rightarrow> qstring \<Rightarrow> memory_region option" where
  "hex_stringToArray uninit h s =
     (if s = [] then Some (region_null False)
      else do { a \<leftarrow> region_value (toLatin1 s) False; map_option snd (hex_decode uninit h a) })"

definition arrayToHex :: "(nat \<Rightarrow> byte) \<Rightarrow> bytes \<Rightarrow> qstring option" where
  "arrayToHex uninit a =
     do { m \<leftarrow> region_value a False; hex_arrayToString uninit (Hex (uninit 0) Encode) m }"

definition hexToArray :: "(nat \<Rightarrow> byte) \<Rightarrow> qstring \<Rightarrow> bytes option" where
  "hexToArray uninit str =
     do { r \<leftarrow> hex_stringToArray uninit (Hex (uninit 0) Encode) str; toByteArray r }"

text \<open>Feeding bytes to an object: the argument is wrapped, the result unwrapped.\<close>

definition hex_feed :: "hex \<Rightarrow> bytes \<Rightarrow> (hex \<times> bytes) option" where
  "hex_feed h x =
     do { m \<leftarrow> region_value x False; (h, r) \<leftarrow> hex_update h m; y \<leftarrow> toByteArray r; Some (h, y) }"

definition hex_finish :: "hex \<Rightarrow> bytes option" where
  "hex_finish h =
     do { (h, r) \<leftarrow> hex_final h; y \<leftarrow> toByteArray r; if hex_ok h then Some y else None }"

section \<open>Specification\<close>

text \<open>Two lower-case digits per byte, high nibble first.\<close>

definition hex_digit :: "nat \<Rightarrow> byte" where
  "hex_digit n = of_nat (if n < 10 then n + 0x30 else n + 0x57)"

definition hex_pair :: "byte \<Rightarrow> bytes" where
  "hex_pair b = [hex_digit (unat b div 16), hex_digit (unat b mod 16)]"

definition hex_text :: "bytes \<Rightarrow> bytes" where
  "hex_text bs = concat (map hex_pair bs)"

definition is_hex :: "byte \<Rightarrow> bool" where
  "is_hex c \<longleftrightarrow> dehex c \<noteq> -1"

fun hex_value :: "bytes \<Rightarrow> bytes" where
  "hex_value (x # y # cs) = of_int (16 * dehex x + dehex y) # hex_value cs"
| "hex_value _ = []"

section \<open>Lemmas\<close>

lemma enhex_digit: "unat n < 16 \<Longrightarrow> enhex n \<noteq> -1 \<and> word_of_int (enhex n) = hex_digit (unat n)"
  by (auto simp: enhex_def hex_digit_def Let_def of_nat_diff simp del: of_nat_unat)

lemma dehex_range: "dehex c \<noteq> -1 \<Longrightarrow> 0 \<le> dehex c \<and> dehex c < 16"
  by (auto simp: dehex_def Let_def simp del: of_nat_unat split: if_splits)

lemma unat_hex_digit: "n < 16 \<Longrightarrow> unat (hex_digit n) = (if n < 10 then n + 0x30 else n + 0x57)"
  by (auto simp: hex_digit_def unat_of_nat simp del: of_nat_add)

lemma dehex_hex_digit: "n < 16 \<Longrightarrow> dehex (hex_digit n) = int n"
  by (auto simp: dehex_def unat_hex_digit Let_def)

lemma hex_join:
  assumes "0 \<le> h" "h < 16" "0 \<le> l" "l < 16"
  shows "push_bit 4 ((word_of_int h :: byte) AND 15) + (word_of_int l AND 15) =
    word_of_int (16 * h + l)"
proof (rule byte_eqI)
  have w: "unat ((word_of_int i :: byte) AND 15) = nat i" if "0 \<le> i" "i < 16" for i
    using that by (simp add: bit_arith unat_word_of_int nat_mod_distrib)
  have "unat (push_bit 4 ((word_of_int h :: byte) AND 15)) = nat h * 16"
    using assms by (simp only: unat_push w [OF assms(1,2)]) simp
  then show "unat (push_bit 4 ((word_of_int h :: byte) AND 15) + (word_of_int l AND 15)) =
      unat (word_of_int (16 * h + l) :: byte)"
    using assms by (simp only: unat_word_ariths w [OF assms(3,4)] unat_word_of_int) simp
qed

lemma hex_encode_loop_text:
  "length pre = at \<Longrightarrow>
   hex_encode_loop a (pre @ replicate (length a * 2) 0) at ok = Some (ok, pre @ hex_text a)"
proof (induction a arbitrary: pre at)
  case Nil
  then show ?case by (simp add: hex_text_def)
next
  case (Cons b a)
  have d: "enhex (drop_bit 4 b) \<noteq> -1"
      "word_of_int (enhex (drop_bit 4 b)) = hex_digit (unat b div 16)"
      "enhex (b AND 15) \<noteq> -1" "word_of_int (enhex (b AND 15)) = hex_digit (unat b mod 16)"
    using enhex_digit [of "drop_bit 4 b"] enhex_digit [of "b AND 15"] byte_less [of b]
    by (simp_all add: bit_arith less_mult_imp_div_less)
  let ?hi = "hex_digit (unat b div 16)" and ?lo = "hex_digit (unat b mod 16)"
  have "hex_encode_loop a ((pre @ [?hi, ?lo]) @ replicate (length a * 2) 0) (at + 2) ok =
      Some (ok, (pre @ [?hi, ?lo]) @ hex_text a)"
    by (rule Cons.IH) (simp add: Cons.prems)
  then show ?case
    using Cons.prems d
    by (simp add: Let_def poke_append hex_text_def hex_pair_def
        poke_append [of "pre @ [?hi]" "Suc at", simplified])
qed

text \<open>
  The decoder's loop: with a pending digit (\<open>flag\<close>) the pairs are shifted by one.  It stays
  inside the output buffer exactly when the buffer holds all complete pairs.
\<close>

lemma hex_decode_loop_value:
  assumes "list_all is_hex cs" and "length pre = at"
    and "length (hex_value cs) \<le> length post"
  shows "\<exists>hi'. hex_decode_loop cs (pre @ post) at hi False ok =
    Some (ok, hi', odd (length cs),
          pre @ hex_value cs @ drop (length (hex_value cs)) post) \<and>
    (odd (length cs) \<longrightarrow> hi' = word_of_int (dehex (last cs)))"
  using assms
proof (induction cs arbitrary: pre post at hi rule: hex_value.induct)
  case (1 x y cs)
  then obtain z post' where post: "post = z # post'" by (cases post) auto
  have hx: "dehex x \<noteq> -1" "dehex y \<noteq> -1" using 1 by (auto simp: is_hex_def)
  let ?v = "word_of_int (16 * dehex x + dehex y) :: byte"
  have full: "push_bit 4 ((word_of_int (dehex x) :: byte) AND 15) + (word_of_int (dehex y) AND 15) = ?v"
    using dehex_range [OF hx(1)] dehex_range [OF hx(2)] by (intro hex_join) auto
  from 1 post have "\<exists>hi'. hex_decode_loop cs ((pre @ [?v]) @ post') (at + 1)
      (word_of_int (dehex x)) False ok =
      Some (ok, hi', odd (length cs), (pre @ [?v]) @ hex_value cs @
        drop (length (hex_value cs)) post') \<and>
      (odd (length cs) \<longrightarrow> hi' = word_of_int (dehex (last cs)))"
    by (intro "1.IH") auto
  with hx full post "1.prems"(2) show ?case
    by (auto simp: poke_append)
qed (auto simp: is_hex_def)

lemma length_hex_value: "length (hex_value cs) = length cs div 2"
  by (induction cs rule: hex_value.induct) auto

text \<open>With a buffer that is too short the loop leaves it.\<close>

lemma hex_decode_loop_overflow:
  assumes "list_all is_hex cs" and "length pre = at" and "length post < length cs div 2"
  shows "hex_decode_loop cs (pre @ post) at hi False ok = None"
  using assms
proof (induction cs arbitrary: pre post at hi rule: hex_value.induct)
  case (1 x y cs)
  then have hx: "dehex x \<noteq> -1" "dehex y \<noteq> -1" by (auto simp: is_hex_def)
  show ?case
  proof (cases post)
    case Nil
    with hx 1 show ?thesis by (simp add: poke_def Let_def)
  next
    case (Cons z post')
    let ?v = "push_bit 4 ((word_of_int (dehex x) :: byte) AND 15) + (word_of_int (dehex y) AND 15)"
    from 1 Cons have "hex_decode_loop cs ((pre @ [?v]) @ post') (at + 1)
        (word_of_int (dehex x)) False ok = None"
      by (intro "1.IH") auto
    with hx 1 Cons show ?thesis by (simp add: poke_append Let_def)
  qed
qed auto

text \<open>A character that is not a hexadecimal digit clears \<^verbatim>\<open>_ok\<close>.\<close>

lemma hex_decode_loop_bad:
  assumes "\<not> list_all is_hex cs" and "length pre = at" and "length cs div 2 \<le> length post"
  shows "\<exists>x. hex_decode_loop cs (pre @ post) at hi False ok = Some (False, x)"
  using assms
proof (induction cs arbitrary: pre post at hi rule: hex_value.induct)
  case (1 x y cs)
  then obtain z post' where post: "post = z # post'" by (cases post) auto
  let ?v = "push_bit 4 ((word_of_int (dehex x) :: byte) AND 15) + (word_of_int (dehex y) AND 15)"
  show ?case
  proof (cases "is_hex x \<and> is_hex y")
    case True
    with 1 post have "\<exists>x'. hex_decode_loop cs ((pre @ [?v]) @ post') (at + 1)
        (word_of_int (dehex x)) False ok = Some (False, x')"
      by (intro "1.IH") auto
    with True 1 post show ?thesis by (auto simp: poke_append Let_def is_hex_def)
  next
    case False
    with 1 post show ?thesis by (auto simp: poke_append Let_def is_hex_def)
  qed
qed (auto simp: is_hex_def)

lemma region_value_plain:
  "\<exists>r. region_value b False = Some r \<and> region_inv r \<and> \<not> secure r \<and> content r = b"
  by (rule region_value_inv [of b False]) auto

lemma hex_update_encode:
  assumes "region_inv m" and "hex_dir h = Encode" and "hex_ok h"
  shows "\<exists>r. hex_update h m = Some (h, r) \<and> region_inv r \<and> \<not> secure r \<and>
    content r = hex_text (content m)"
  using assms hex_encode_loop_text [of "[]" 0 "content m" True]
    region_value_plain [of "hex_text (content m)"]
  by (auto simp: hex_update_def Let_def)

lemma hex_update_decode:
  assumes "region_inv m" and "hex_dir h = Decode" and "hex_ok h" and "\<not> hex_partial h"
    and "list_all is_hex (content m)"
  shows "\<exists>r h'. hex_update h m = Some (h', r) \<and> region_inv r \<and> \<not> secure r \<and>
    content r = hex_value (content m) \<and> hex_dir h' = Decode \<and> hex_ok h' \<and>
    hex_partial h' = odd (length (content m))"
proof -
  from hex_decode_loop_value [OF assms(5), of "[]" 0 "replicate (length (content m) div 2) 0" 0 True]
  obtain hi where "hex_decode_loop (content m) (replicate (length (content m) div 2) 0) 0 0 False
      True = Some (True, hi, odd (length (content m)), hex_value (content m))"
    by (auto simp: length_hex_value)
  with assms region_value_plain [of "hex_value (content m)"] show ?thesis
    by (auto simp: hex_update_def Let_def)
qed

lemma hex_update_decode_bad:
  assumes "region_inv m" and "hex_dir h = Decode" and "\<not> hex_partial h"
    and "\<not> list_all is_hex (content m)"
  shows "\<exists>h'. hex_update h m = Some (h', region_null False) \<and> \<not> hex_ok h'"
proof -
  from hex_decode_loop_bad [OF assms(4), of "[]" 0 "replicate (length (content m) div 2) 0" 0 "hex_ok h"]
  obtain x where "hex_decode_loop (content m) (replicate (length (content m) div 2) 0) 0 0 False
      (hex_ok h) = Some (False, x)"
    by (auto simp: length_hex_value)
  with assms show ?thesis by (cases x) (auto simp: hex_update_def Let_def)
qed

text \<open>The one-shot operations.\<close>

lemma hex_encode_eq:
  assumes "region_inv m"
  shows "\<exists>h' r. hex_encode uninit h m = Some (h', r) \<and> hex_ok h' \<and> region_inv r \<and>
    content r = hex_text (content m)"
proof -
  let ?h = "hex_clear (h\<lparr>hex_dir := Encode\<rparr>)"
  obtain r where "hex_update ?h m = Some (?h, r)" "region_inv r" "\<not> secure r"
    "content r = hex_text (content m)"
    using hex_update_encode [OF assms, of ?h] by (auto simp: hex_clear_def)
  with region_value_plain [of "hex_text (content m)"] show ?thesis
    by (auto simp: hex_encode_def filter_process_def hex_final_def hex_clear_def)
qed

lemma hex_decode_eq:
  assumes "region_inv m"
  shows "\<exists>h' r. hex_decode uninit h m = Some (h', r) \<and> region_inv r \<and>
    hex_ok h' = (list_all is_hex (content m) \<and> even (length (content m))) \<and>
    content r = (if hex_ok h' then hex_value (content m) else [])"
proof (cases "list_all is_hex (content m)")
  case True
  let ?h = "hex_clear (h\<lparr>hex_dir := Decode\<rparr>)"
  obtain r h' where "hex_update ?h m = Some (h', r)" "region_inv r" "\<not> secure r"
    "content r = hex_value (content m)" "hex_ok h'" "hex_partial h' = odd (length (content m))"
    using hex_update_decode [OF assms, of ?h] True by (auto simp: hex_clear_def)
  with True region_value_plain [of "hex_value (content m)"] show ?thesis
    by (auto simp: hex_decode_def filter_process_def hex_final_def)
next
  case False
  let ?h = "hex_clear (h\<lparr>hex_dir := Decode\<rparr>)"
  obtain h' where "hex_update ?h m = Some (h', region_null False)" "\<not> hex_ok h'"
    using hex_update_decode_bad [OF assms, of ?h] False by (auto simp: hex_clear_def)
  with False show ?thesis by (auto simp: hex_decode_def filter_process_def)
qed

lemma hex_text_is_hex: "list_all is_hex (hex_text bs)"
  by (induction bs) (auto simp: hex_text_def hex_pair_def is_hex_def dehex_hex_digit
      less_mult_imp_div_less simp del: of_nat_unat)

lemma even_hex_text: "even (length (hex_text bs))"
  by (induction bs) (auto simp: hex_text_def hex_pair_def)

lemma hex_value_text: "hex_value (hex_text bs) = bs"
proof (induction bs)
  case Nil
  then show ?case by (simp add: hex_text_def)
next
  case (Cons b bs)
  have "dehex (hex_digit (unat b div 16)) = int (unat b div 16)"
    "dehex (hex_digit (unat b mod 16)) = int (unat b mod 16)"
    using byte_less [of b] by (simp_all add: dehex_hex_digit less_mult_imp_div_less)
  moreover have "16 * int (unat b div 16) + int (unat b mod 16) = int (unat b)"
    by (metis mult_div_mod_eq of_nat_add of_nat_mult of_nat_numeral)
  ultimately show ?case
    using Cons by (simp add: hex_text_def hex_pair_def del: of_nat_unat) (simp)
qed

section \<open>The filter as a codec and as a stream filter\<close>

lemma arrayToHex_eq: "arrayToHex uninit a = Some (fromLatin1 (hex_text a))"
proof -
  obtain m where m: "region_value a False = Some m" "region_inv m" "content m = a"
    using region_value_plain [of a] by auto
  from hex_encode_eq [OF m(2), of uninit "Hex (uninit 0) Encode"] m show ?thesis
    by (auto simp: arrayToHex_def hex_arrayToString_def)
qed

lemma hexToArray_eq:
  "hexToArray uninit s =
     Some (if list_all is_hex (toLatin1 s) \<and> even (length s) then hex_value (toLatin1 s) else [])"
proof (cases "s = []")
  case True
  then show ?thesis by (simp add: hexToArray_def hex_stringToArray_def toLatin1_def)
next
  case False
  obtain m where m: "region_value (toLatin1 s) False = Some m" "region_inv m"
    "content m = toLatin1 s"
    using region_value_plain [of "toLatin1 s"] by auto
  moreover have "length (toLatin1 s) = length s" by (simp add: toLatin1_def)
  ultimately show ?thesis
    using hex_decode_eq [OF m(2), of uninit "Hex (uninit 0) Encode"] False
    by (auto simp: hexToArray_def hex_stringToArray_def)
qed

interpretation hex_codec: codec "arrayToHex uninit" "\<lambda>s. Option.bind s (hexToArray uninit)" "\<lambda>_. True"
  by unfold_locales
    (simp add: arrayToHex_eq hexToArray_eq hex_text_is_hex even_hex_text hex_value_text fromLatin1_def
      [THEN arg_cong [of _ _ length]])

definition hex_enc_rep :: "hex \<Rightarrow> bytes \<Rightarrow> bytes \<Rightarrow> bool" where
  "hex_enc_rep h m out \<longleftrightarrow>
     hex_dir h = Encode \<and> hex_ok h \<and> \<not> hex_partial h \<and> out = hex_text m"

interpretation hex_enc: stream_filter "Hex v Encode" hex_feed hex_finish hex_enc_rep
  "\<lambda>m. Some (hex_text m)" "\<lambda>_. True"
proof (unfold_locales, goal_cases)
  case 1
  show ?case by (simp add: hex_enc_rep_def Hex_def hex_clear_def hex_text_def)
next
  case (2 h m out x)
  obtain r where r: "region_value x False = Some r" "region_inv r" "content r = x"
    using region_value_plain [of x] by auto
  with 2 hex_update_encode [OF r(2), of h] show ?case
    by (auto simp: hex_feed_def hex_enc_rep_def hex_text_def)
next
  case (3 h m out)
  then show ?case by (simp add: hex_finish_def hex_final_def hex_enc_rep_def)
qed

definition hex_dec_rep :: "hex \<Rightarrow> bytes \<Rightarrow> bytes \<Rightarrow> bool" where
  "hex_dec_rep h m out \<longleftrightarrow>
     hex_dir h = Decode \<and> hex_ok h \<and> \<not> hex_partial h \<and> even (length m) \<and> out = hex_value m"

definition hex_chunk :: "bytes \<Rightarrow> bool" where
  "hex_chunk x \<longleftrightarrow> list_all is_hex x \<and> even (length x)"

lemma hex_value_append:
  "even (length xs) \<Longrightarrow> hex_value (xs @ ys) = hex_value xs @ hex_value ys"
  by (induction xs rule: hex_value.induct) auto

interpretation hex_dec: stream_filter "Hex v Decode" hex_feed hex_finish hex_dec_rep
  "\<lambda>m. Some (hex_value m)" hex_chunk
proof (unfold_locales, goal_cases)
  case 1
  show ?case by (simp add: hex_dec_rep_def Hex_def hex_clear_def)
next
  case (2 h m out x)
  obtain r where r: "region_value x False = Some r" "region_inv r" "content r = x"
    using region_value_plain [of x] by auto
  with 2 hex_update_decode [OF r(2), of h] show ?case
    by (fastforce simp: hex_feed_def hex_dec_rep_def hex_chunk_def hex_value_append)
next
  case (3 h m out)
  then show ?case by (simp add: hex_finish_def hex_final_def hex_dec_rep_def)
qed

section \<open>Properties\<close>

text \<open>
  \<^verbatim>\<open>arrayToHex\<close> never leaves its buffers, \<^verbatim>\<open>hexToArray\<close> inverts it on every byte array,
  and the text is two lower-case digits per byte.
\<close>

theorem hex_round_trip:
  "arrayToHex uninit a = Some (fromLatin1 (hex_text a)) \<and>
   Option.bind (arrayToHex uninit a) (hexToArray uninit) = Some a"
  using hex_codec.dec_enc [of uninit a] by (simp add: arrayToHex_eq)

text \<open>
  One-shot decoding is total: it accepts exactly the even-length strings of hexadecimal
  digits (both cases), returns their value, and returns the empty array with \<^verbatim>\<open>ok()\<close> false on
  every other input.
\<close>

theorem hex_decode_exact:
  assumes "region_inv m"
  shows "\<exists>h' r. hex_decode uninit h m = Some (h', r) \<and>
    hex_ok h' = (list_all is_hex (content m) \<and> even (length (content m))) \<and>
    toByteArray r = Some (if hex_ok h' then hex_value (content m) else [])"
  using hex_decode_eq [OF assms, of uninit h] by fastforce

theorem hex_decode_exact_witness:
  "region_inv (region_null False) \<and>
   (\<exists>h' r. hex_decode (\<lambda>_. 0) (Hex 0 Encode) (region_null False) = Some (h', r) \<and>
     hex_ok h' \<and> toByteArray r = Some [])"
proof -
  have inv: "region_inv (region_null False)" by simp
  from hex_decode_exact [OF inv, of "\<lambda>_. 0" "Hex 0 Encode"] show ?thesis by auto
qed

text \<open>
  Incremental encoding does not depend on how the input is cut, and incremental decoding
  is correct when every chunk holds complete digit pairs.
\<close>

theorem hex_incremental:
  assumes "list_all hex_chunk ds"
  shows "(\<exists>h y. run_filter hex_feed (Hex v Encode) xs = Some (h, y) \<and>
      map_option ((@) y) (hex_finish h) = Some (hex_text (concat xs))) \<and>
    (\<exists>h y. run_filter hex_feed (Hex v Decode) ds = Some (h, y) \<and>
      map_option ((@) y) (hex_finish h) = Some (hex_value (concat ds)))"
proof -
  have "list_all (\<lambda>_. True) xs" by (simp add: list_all_iff)
  from hex_enc.filter_chunks [OF this, of v] hex_dec.filter_chunks [OF assms, of v]
  show ?thesis by (rule conjI)
qed

theorem hex_incremental_witness:
  "list_all hex_chunk [[0x36, 0x31], [0x36, 0x32]] \<and>
   (\<exists>h y. run_filter hex_feed (Hex 0 Decode) [[0x36, 0x31], [0x36, 0x32]] = Some (h, y) \<and>
      map_option ((@) y) (hex_finish h) = Some [0x61, 0x62])"
proof -
  have h: "list_all hex_chunk [[0x36, 0x31], [0x36, 0x32]]"
    by (simp add: hex_chunk_def is_hex_def dehex_def)
  have "hex_value (concat [[0x36, 0x31], [0x36, 0x32]]) = [0x61, 0x62]"
    by (simp add: dehex_def)
  with h hex_incremental [OF h, of 0 "[]"] show ?thesis by simp
qed

text \<open>
  When a digit is left over from the previous call, a following chunk of digits is
  decoded inside the buffer exactly when its length is even: a chunk of odd length, which
  completes the pending pair, writes one byte past the end, because the output is sized
  for half of the chunk without the pending digit.
\<close>

theorem hex_pending_digit:
  assumes "hex_dir h = Decode" and "hex_ok h" and "hex_partial h"
    and "region_inv m" and "list_all is_hex (content m)" and "content m \<noteq> []"
  shows "hex_update h m \<noteq> None \<longleftrightarrow> even (length (content m))"
proof -
  obtain y cs where c: "content m = y # cs" using assms(6) by (cases "content m") auto
  let ?n = "length (content m) div 2"
  let ?v = "push_bit 4 (hex_val h AND 0x0f) + ((word_of_int (dehex y) :: byte) AND 0x0f)"
  have hx: "dehex y \<noteq> -1" "list_all is_hex cs" using assms(5) c by (auto simp: is_hex_def)
  have loop: "hex_decode_loop (content m) (replicate ?n 0) 0 (hex_val h) True True =
      Option.bind (poke (replicate ?n 0) 0 ?v)
        (\<lambda>out. hex_decode_loop cs out 1 (hex_val h) False True)"
    using c hx by (simp add: Let_def)
  show ?thesis
  proof (cases "even (length (content m))")
    case True
    with c have n: "?n = Suc (length cs div 2)" by (auto elim!: oddE)
    obtain hi fl out where
      "hex_decode_loop cs ([?v] @ replicate (length cs div 2) 0) 1 (hex_val h) False True =
        Some (True, hi, fl, out)"
      using hex_decode_loop_value [OF hx(2), of "[?v]" 1 "replicate (length cs div 2) 0"]
      by (fastforce simp: length_hex_value)
    with loop n have "hex_decode_loop (content m) (replicate ?n 0) 0 (hex_val h) True True =
        Some (True, hi, fl, out)" by (simp add: poke_def)
    with True assms region_value_plain [of out] show ?thesis
      by (auto simp: hex_update_def Let_def)
  next
    case False
    have "hex_decode_loop (content m) (replicate ?n 0) 0 (hex_val h) True True = None"
    proof (cases "?n = 0")
      case True
      with loop show ?thesis by (simp add: poke_def)
    next
      case nz: False
      have "hex_decode_loop cs ([?v] @ replicate (?n - 1) 0) 1 (hex_val h) False True = None"
        using False nz c by (intro hex_decode_loop_overflow [OF hx(2)]) auto
      with loop nz show ?thesis by (cases ?n) (auto simp: poke_def)
    qed
    with False assms show ?thesis by (simp add: hex_update_def Let_def)
  qed
qed

definition pending_hex :: hex where
  "pending_hex = \<lparr>hex_dir = Decode, hex_val = 6, hex_partial = True, hex_ok = True\<rparr>"

definition one_digit :: memory_region where
  "one_digit = \<lparr>secure = False, priv = Some \<lparr>sec = False, ai_data = IntoQbuf, ai_size = 1,
     sbuf = None, qbuf = Some [0x31]\<rparr>\<rparr>"

theorem hex_pending_digit_witness:
  "hex_dir pending_hex = Decode \<and> hex_ok pending_hex \<and> hex_partial pending_hex \<and>
   region_inv one_digit \<and> list_all is_hex (content one_digit) \<and> content one_digit \<noteq> [] \<and>
   hex_update pending_hex one_digit = None"
proof -
  have h: "hex_dir pending_hex = Decode" "hex_ok pending_hex" "hex_partial pending_hex"
    by (simp_all add: pending_hex_def)
  have m: "region_inv one_digit" "content one_digit = [0x31]"
    by (simp_all add: one_digit_def region_inv_def ai_inv_def content_def ai_content_def)
  have d: "list_all is_hex (content one_digit)" "content one_digit \<noteq> []"
    by (simp_all add: m(2) is_hex_def dehex_def)
  from hex_pending_digit [OF h m(1) d] m(2) have "hex_update pending_hex one_digit = None"
    by (cases "hex_update pending_hex one_digit") auto
  with h m d show ?thesis by simp
qed

end
