(* ===== verification/Base64Codec.thy ===== *)
theory Base64Codec
  imports TextFilter
begin

text \<open>
  \<^verbatim>\<open>src/qca_textfilter.cpp\<close>, second part: the static functions under the \<^verbatim>\<open>Base64\<close> filter,
  \<^verbatim>\<open>b64encode\<close>, \<^verbatim>\<open>b64decode\<close>, \<^verbatim>\<open>findLF\<close>, \<^verbatim>\<open>insert_linebreaks\<close> and \<^verbatim>\<open>remove_linebreaks\<close>, with
  their index loops.  \<^verbatim>\<open>char\<close> is signed, as on the platforms the library is built for by
  default, so \<^verbatim>\<open>tbl[(int)s[i]]\<close> reads before the table for a byte of 128 or more.  Sizes are
  unbounded: \<^verbatim>\<open>(len + 2) / 3 * 4\<close> is an \<^verbatim>\<open>int\<close> in the code and overflows for inputs above
  about 1.6 GB.
\<close>

section \<open>Model\<close>

definition b64_tbl :: bytes where
  "b64_tbl =
     [0x41, 0x42, 0x43, 0x44, 0x45, 0x46, 0x47, 0x48,
      0x49, 0x4a, 0x4b, 0x4c, 0x4d, 0x4e, 0x4f, 0x50,
      0x51, 0x52, 0x53, 0x54, 0x55, 0x56, 0x57, 0x58,
      0x59, 0x5a, 0x61, 0x62, 0x63, 0x64, 0x65, 0x66,
      0x67, 0x68, 0x69, 0x6a, 0x6b, 0x6c, 0x6d, 0x6e,
      0x6f, 0x70, 0x71, 0x72, 0x73, 0x74, 0x75, 0x76,
      0x77, 0x78, 0x79, 0x7a, 0x30, 0x31, 0x32, 0x33,
      0x34, 0x35, 0x36, 0x37, 0x38, 0x39, 0x2b, 0x2f,
      0x3d]"

function b64encode_loop :: "bytes \<Rightarrow> nat \<Rightarrow> bytes \<Rightarrow> nat \<Rightarrow> bytes option" where
  "b64encode_loop s i p at =
     (if i < length s then
        do {
          s0 \<leftarrow> peek s i;
          let a = push_bit 4 (unat s0 AND 3);
          (a, b, c) \<leftarrow>
            (if i + 1 < length s then
               do {
                 s1 \<leftarrow> peek s (i + 1);
                 let a = a + drop_bit 4 (unat s1);
                 let b = push_bit 2 (unat s1 AND 0xf);
                 if i + 2 < length s then
                   do {
                     s2 \<leftarrow> peek s (i + 2);
                     Some (a, b + drop_bit 6 (unat s2), unat s2 AND 0x3f)
                   }
                 else Some (a, b, 64)
               }
             else Some (a, 64, 64));
          t \<leftarrow> peek b64_tbl (drop_bit 2 (unat s0));
          p \<leftarrow> poke p at t;
          t \<leftarrow> peek b64_tbl a;
          p \<leftarrow> poke p (at + 1) t;
          t \<leftarrow> peek b64_tbl b;
          p \<leftarrow> poke p (at + 2) t;
          t \<leftarrow> peek b64_tbl c;
          p \<leftarrow> poke p (at + 3) t;
          b64encode_loop s (i + 3) p (at + 4)
        }
      else Some p)"
  by pat_completeness auto
termination
  by (relation "measure (\<lambda>(s, i, p, at). length s - i)") auto

declare b64encode_loop.simps [simp del]

definition b64encode :: "bytes \<Rightarrow> bytes option" where
  "b64encode s = b64encode_loop s 0 (replicate ((length s + 2) div 3 * 4) 0) 0"

definition b64_dtbl :: "int list" where
  "b64_dtbl =
     [-1,-1,-1,-1,-1,-1,-1,-1,-1,-1,-1,-1,-1,-1,-1,-1,
      -1,-1,-1,-1,-1,-1,-1,-1,-1,-1,-1,-1,-1,-1,-1,-1,
      -1,-1,-1,-1,-1,-1,-1,-1,-1,-1,-1,62,-1,-1,-1,63,
      52,53,54,55,56,57,58,59,60,61,-1,-1,-1,64,-1,-1,
      -1, 0, 1, 2, 3, 4, 5, 6, 7, 8, 9,10,11,12,13,14,
      15,16,17,18,19,20,21,22,23,24,25,-1,-1,-1,-1,-1,
      -1,26,27,28,29,30,31,32,33,34,35,36,37,38,39,40,
      41,42,43,44,45,46,47,48,49,50,51,-1,-1,-1,-1,-1,
      -1,-1,-1,-1,-1,-1,-1,-1,-1,-1,-1,-1,-1,-1,-1,-1,
      -1,-1,-1,-1,-1,-1,-1,-1,-1,-1,-1,-1,-1,-1,-1,-1,
      -1,-1,-1,-1,-1,-1,-1,-1,-1,-1,-1,-1,-1,-1,-1,-1,
      -1,-1,-1,-1,-1,-1,-1,-1,-1,-1,-1,-1,-1,-1,-1,-1,
      -1,-1,-1,-1,-1,-1,-1,-1,-1,-1,-1,-1,-1,-1,-1,-1,
      -1,-1,-1,-1,-1,-1,-1,-1,-1,-1,-1,-1,-1,-1,-1,-1,
      -1,-1,-1,-1,-1,-1,-1,-1,-1,-1,-1,-1,-1,-1,-1,-1,
      -1,-1,-1,-1,-1,-1,-1,-1,-1,-1,-1,-1,-1,-1,-1,-1]"

text \<open>\<^verbatim>\<open>tbl[(int)s[i]]\<close> with a signed \<^verbatim>\<open>char\<close>.\<close>

definition b64_lookup :: "byte \<Rightarrow> int option" where
  "b64_lookup c = (if unat c < 128 then peek b64_dtbl (unat c) else None)"

text \<open>The three bytes written for a group.\<close>

definition b64_byte0 :: "int \<Rightarrow> int \<Rightarrow> byte" where
  "b64_byte0 a b = word_of_int (push_bit 2 (a AND 0x3F) OR (drop_bit 4 b AND 0x03))"

definition b64_byte1 :: "int \<Rightarrow> int \<Rightarrow> byte" where
  "b64_byte1 b c = word_of_int (push_bit 4 (b AND 0x0F) OR (drop_bit 2 c AND 0x0F))"

definition b64_byte2 :: "int \<Rightarrow> int \<Rightarrow> byte" where
  "b64_byte2 c d = word_of_int (push_bit 6 (c AND 0x03) OR (drop_bit 0 d AND 0x3F))"

text \<open>The loop returns \<^verbatim>\<open>*ok\<close>, \<^verbatim>\<open>p\<close>, \<^verbatim>\<open>at\<close> and the last \<^verbatim>\<open>c\<close> and \<^verbatim>\<open>d\<close>.\<close>

function b64decode_loop ::
    "bytes \<Rightarrow> nat \<Rightarrow> bytes \<Rightarrow> nat \<Rightarrow> int \<Rightarrow> int \<Rightarrow> (bool \<times> bytes \<times> nat \<times> int \<times> int) option" where
  "b64decode_loop s i p at c d =
     (if i < length s then
        do {
          x \<leftarrow> peek s i; a \<leftarrow> b64_lookup x;
          x \<leftarrow> peek s (i + 1); b \<leftarrow> b64_lookup x;
          x \<leftarrow> peek s (i + 2); c \<leftarrow> b64_lookup x;
          x \<leftarrow> peek s (i + 3); d \<leftarrow> b64_lookup x;
          if (a = 64 \<or> b = 64) \<or> (a < 0 \<or> b < 0 \<or> c < 0 \<or> d < 0) then Some (False, [], at, c, d)
          else do {
            p \<leftarrow> poke p at (b64_byte0 a b);
            p \<leftarrow> poke p (at + 1) (b64_byte1 b c);
            p \<leftarrow> poke p (at + 2) (b64_byte2 c d);
            b64decode_loop s (i + 4) p (at + 3) c d
          }
        }
      else Some (True, p, at, c, d))"
  by pat_completeness auto
termination
  by (relation "measure (\<lambda>(s, i, p, at, c, d). length s - i)") auto

declare b64decode_loop.simps [simp del]

text \<open>\<^verbatim>\<open>p.resize\<close> fills with uninitialised bytes, all of which are overwritten.\<close>

definition b64decode :: "(nat \<Rightarrow> byte) \<Rightarrow> bytes \<Rightarrow> (bool \<times> bytes) option" where
  "b64decode uninit s =
     (if length s mod 4 \<noteq> 0 then Some (False, [])
      else do {
        (ok, p, at, c, d) \<leftarrow>
          b64decode_loop s 0 (qba_resize uninit [] (length s div 4 * 3)) 0 0 0;
        if \<not> ok then Some (False, [])
        else if c AND 64 \<noteq> 0 then Some (True, qba_resize uninit p (at - 2))
        else if d AND 64 \<noteq> 0 then Some (True, qba_resize uninit p (at - 1))
        else Some (True, p)
      })"

section \<open>Specification\<close>

text \<open>RFC 4648: three bytes are four digits; the last group is padded.\<close>

definition b64_digit :: "nat \<Rightarrow> byte" where
  "b64_digit n = b64_tbl ! n"

fun b64_text :: "bytes \<Rightarrow> bytes" where
  "b64_text (x # y # z # r) =
     b64_digit (unat x div 4) # b64_digit (unat x mod 4 * 16 + unat y div 16) #
     b64_digit (unat y mod 16 * 4 + unat z div 64) # b64_digit (unat z mod 64) # b64_text r"
| "b64_text [x, y] =
     [b64_digit (unat x div 4), b64_digit (unat x mod 4 * 16 + unat y div 16),
      b64_digit (unat y mod 16 * 4), 0x3d]"
| "b64_text [x] = [b64_digit (unat x div 4), b64_digit (unat x mod 4 * 16), 0x3d, 0x3d]"
| "b64_text [] = []"

section \<open>Lemmas\<close>

lemma peek_b64_tbl: "n < 64 \<Longrightarrow> peek b64_tbl n = Some (b64_digit n)"
  by (simp add: peek_def b64_digit_def b64_tbl_def)

lemma peek_b64_tbl_pad: "peek b64_tbl 64 = Some 0x3d"
  by (simp add: peek_def b64_tbl_def)

lemma digit_bounds:
  "unat (x :: byte) div 4 < 64" "unat x mod 4 * 16 + unat (y :: byte) div 16 < 64"
  "unat y mod 16 * 4 + unat (z :: byte) div 64 < 64" "unat x mod 4 * 16 < 64"
  "unat y mod 16 * 4 < 64"
  using byte_less [of x] byte_less [of y] byte_less [of z] by linarith+

lemma groups_div: "(length (x # y # z # r) + 2) div 3 = Suc ((length r + 2) div 3)"
proof -
  have "length (x # y # z # r) + 2 = (length r + 2) + 3" by simp
  then show ?thesis by (simp add: div_add_self2)
qed

lemma groups_step:
  "(length (x # y # z # r) + 2) div 3 * 4 = Suc (Suc (Suc (Suc ((length r + 2) div 3 * 4))))"
  by (simp only: groups_div) simp

lemma length_b64_text: "length (b64_text r) = (length r + 2) div 3 * 4"
  by (induction r rule: b64_text.induct) (simp_all, presburger)

lemmas buffer_defs = peek_def poke_def nth_append list_update_append

lemma replicate4: "replicate 4 x = [x, x, x, x]"
  by (simp add: numeral_eq_Suc)

lemma b64encode_loop_done: "length s \<le> i \<Longrightarrow> b64encode_loop s i p at = Some p"
  by (subst b64encode_loop.simps) simp

lemma b64encode_loop_text:
  assumes "s = ps @ r" and "i = length ps" and "at = length pre"
    and "p = pre @ replicate ((length r + 2) div 3 * 4) 0"
  shows "b64encode_loop s i p at = Some (pre @ b64_text r)"
  using assms
proof (induction r arbitrary: ps s i at pre p rule: b64_text.induct)
  case (1 x y z r)
  let ?q = "[b64_digit (unat x div 4), b64_digit (unat x mod 4 * 16 + unat y div 16),
     b64_digit (unat y mod 16 * 4 + unat z div 64), b64_digit (unat z mod 64)]"
  have p: "p = pre @ 0 # 0 # 0 # 0 # replicate ((length r + 2) div 3 * 4) 0"
    using "1.prems"(4) by (simp only: groups_step replicate.simps)
  have "b64encode_loop s (i + 3) ((pre @ ?q) @ replicate ((length r + 2) div 3 * 4) 0) (at + 4) =
      Some ((pre @ ?q) @ b64_text r)"
    by (rule "1.IH" [of s "ps @ [x, y, z]"]) (simp_all add: "1.prems"(1-3))
  then show ?case
    by (subst b64encode_loop.simps)
      (simp add: p "1.prems"(1-3) peek_b64_tbl digit_bounds bit_arith push_bit_eq_mult
        drop_bit_eq_div, simp add: buffer_defs)
next
  case (2 x y)
  have p: "p = pre @ [0, 0, 0, 0]" using "2.prems"(4) by (simp add: replicate4)
  show ?case
    by (subst b64encode_loop.simps)
      (simp add: p "2.prems"(1-3) peek_b64_tbl peek_b64_tbl_pad digit_bounds bit_arith
        push_bit_eq_mult drop_bit_eq_div, simp add: buffer_defs b64encode_loop_done)
next
  case (3 x)
  have p: "p = pre @ [0, 0, 0, 0]" using "3.prems"(4) by (simp add: replicate4)
  show ?case
    by (subst b64encode_loop.simps)
      (simp add: p "3.prems"(1-3) peek_b64_tbl peek_b64_tbl_pad digit_bounds bit_arith
        push_bit_eq_mult drop_bit_eq_div, simp add: buffer_defs b64encode_loop_done)
next
  case 4
  then show ?case by (subst b64encode_loop.simps) simp
qed

lemma b64encode_text: "b64encode s = Some (b64_text s)"
  unfolding b64encode_def
  by (rule b64encode_loop_text [where ps = "[]" and pre = "[]", simplified]) simp_all

lemma b64_lookup_digit: "n < 64 \<Longrightarrow> b64_lookup (b64_digit n) = Some (int n)"
proof -
  have "list_all (\<lambda>n. b64_lookup (b64_digit n) = Some (int n)) [0..<64]"
    by (simp add: b64_lookup_def b64_digit_def b64_tbl_def peek_def b64_dtbl_def upt_rec)
  then show "n < 64 \<Longrightarrow> ?thesis" by (simp add: list_all_iff)
qed

lemma b64_lookup_pad: "b64_lookup 0x3d = Some 64"
  by (simp add: b64_lookup_def peek_def b64_dtbl_def)

lemma and_64: "0 \<le> i \<Longrightarrow> i < 64 \<Longrightarrow> i AND 64 = 0" for i :: int
  using and_exp_eq_0_iff_not_bit [of i 6] by (simp add: bit_iff_odd)

text \<open>The three bytes of a group, from its four digits.\<close>

lemma b64_arith:
  fixes x y z :: nat
  assumes "x < 256" "y < 256" "z < 256"
  shows "x div 4 mod 64 * 4 + (x mod 4 * 16 + y div 16) div 16 mod 4 = x"
    and "(x mod 4 * 16 + y div 16) mod 16 * 16 + (y mod 16 * 4 + z div 64) div 4 mod 16 = y"
    and "(y mod 16 * 4 + z div 64) mod 4 * 64 + z mod 64 mod 64 = z"
proof -
  have "x div 4 < 64" "y div 16 < 16" "z div 64 < 4" using assms by linarith+
  moreover have "(u * 16 + v) div 16 = u \<and> (u * 16 + v) mod 16 = v" if "v < 16" for u v :: nat
    using that by simp
  moreover have "(u * 4 + v) div 4 = u \<and> (u * 4 + v) mod 4 = v" if "v < 4" for u v :: nat
    using that by simp
  ultimately show "x div 4 mod 64 * 4 + (x mod 4 * 16 + y div 16) div 16 mod 4 = x"
    and "(x mod 4 * 16 + y div 16) mod 16 * 16 + (y mod 16 * 4 + z div 64) div 4 mod 16 = y"
    and "(y mod 16 * 4 + z div 64) mod 4 * 64 + z mod 64 mod 64 = z"
    by simp_all
qed

lemma b64_or:
  "push_bit 2 (int a AND 63) OR (drop_bit 4 (int b) AND 3) = int (a mod 64 * 4 + b div 16 mod 4)"
  "push_bit 4 (int b AND 15) OR (drop_bit 2 (int c) AND 15) = int (b mod 16 * 16 + c div 4 mod 16)"
  "push_bit 6 (int c AND 3) OR (drop_bit 0 (int e) AND 63) = int (c mod 4 * 64 + e mod 64)"
  by (subst int_or_disjoint;
      simp add: bit_arith drop_bit_eq_div zdiv_int zmod_int)+

lemma b64_join:
  fixes x y z :: byte
  defines "a \<equiv> unat x div 4" and "b \<equiv> unat x mod 4 * 16 + unat y div 16"
    and "c \<equiv> unat y mod 16 * 4 + unat z div 64" and "e \<equiv> unat z mod 64"
  shows "b64_byte0 (int a) (int b) = x" and "b64_byte1 (int b) (int c) = y"
    and "b64_byte2 (int c) (int e) = z"
  unfolding b64_byte0_def b64_byte1_def b64_byte2_def b64_or a_def b_def c_def e_def
    b64_arith [OF byte_less byte_less byte_less]
  by simp_all

text \<open>One group of four characters whose table entries are known.\<close>

lemma b64decode_loop_group:
  assumes "s = ps @ w0 # w1 # w2 # w3 # ws" and "i = length ps" and "at = length pre"
    and "b64_lookup w0 = Some a" "b64_lookup w1 = Some b" "b64_lookup w2 = Some c'"
      "b64_lookup w3 = Some e'"
    and "0 \<le> a" "a < 64" "0 \<le> b" "b < 64" "0 \<le> c'" "0 \<le> e'"
  shows "b64decode_loop s i (pre @ p0 # p1 # p2 # post) at c e =
    b64decode_loop s (i + 4) ((pre @ [b64_byte0 a b, b64_byte1 b c', b64_byte2 c' e']) @ post)
      (at + 3) c' e'"
  using assms by (subst b64decode_loop.simps) (simp add: buffer_defs)

lemma b64decode_loop_text:
  assumes "s = ps @ b64_text r" and "i = length ps" and "at = length pre"
    and "length post = (length r + 2) div 3 * 3" and "c AND 64 = 0" and "e AND 64 = 0"
  shows "\<exists>junk c' e'. b64decode_loop s i (pre @ post) at c e =
      Some (True, pre @ r @ junk, length (pre @ r @ junk), c', e') \<and>
    length junk = (if c' AND 64 \<noteq> 0 then 2 else if e' AND 64 \<noteq> 0 then 1 else 0)"
  using assms
proof (induction r arbitrary: ps s i at pre post c e rule: b64_text.induct)
  case (1 x y z r)
  from "1.prems"(4) have l: "length post = 3 + (length r + 2) div 3 * 3"
    by (simp only: groups_div) simp
  then have "Suc (Suc (Suc 0)) \<le> length post" by linarith
  then obtain p0 p1 p2 post' where post: "post = p0 # p1 # p2 # post'"
    by (auto simp only: Suc_le_length_iff)
  let ?a = "unat x div 4" and ?b = "unat x mod 4 * 16 + unat y div 16"
    and ?c = "unat y mod 16 * 4 + unat z div 64" and ?e = "unat z mod 64"
  have lp: "length post' = (length r + 2) div 3 * 3" using l post by simp
  have ce: "int ?c AND 64 = 0" "int ?e AND 64 = 0"
    using digit_bounds(3) [of y z] by (intro and_64; simp)+
  from "1.IH" [of s "ps @ take 4 (b64_text (x # y # z # r))" "i + 4" "at + 3" "pre @ [x, y, z]"
      post' "int ?c" "int ?e", OF _ _ _ lp ce] "1.prems"(1-3)
  obtain junk c' e' where IH: "b64decode_loop s (i + 4) ((pre @ [x, y, z]) @ post') (at + 3)
      (int ?c) (int ?e) =
      Some (True, (pre @ [x, y, z]) @ r @ junk, length ((pre @ [x, y, z]) @ r @ junk), c', e')"
    "length junk = (if c' AND 64 \<noteq> 0 then 2 else if e' AND 64 \<noteq> 0 then 1 else 0)"
    by auto
  have "b64decode_loop s i (pre @ p0 # p1 # p2 # post') at c e =
      b64decode_loop s (i + 4) ((pre @ [b64_byte0 (int ?a) (int ?b), b64_byte1 (int ?b) (int ?c),
        b64_byte2 (int ?c) (int ?e)]) @ post') (at + 3) (int ?c) (int ?e)"
    by (rule b64decode_loop_group [of s ps "b64_digit ?a" "b64_digit ?b" "b64_digit ?c"
          "b64_digit ?e" "b64_text r"])
      (use "1.prems"(1-3) digit_bounds in \<open>simp_all add: b64_lookup_digit del: of_nat_add of_nat_mult\<close>)
  then have "b64decode_loop s i (pre @ post) at c e =
      b64decode_loop s (i + 4) ((pre @ [x, y, z]) @ post') (at + 3) (int ?c) (int ?e)"
    unfolding post b64_join .
  with IH show ?case by simp
next
  case (2 x y)
  then have "length post = Suc (Suc (Suc 0))" by simp
  then obtain p0 p1 p2 where post: "post = [p0, p1, p2]"
    by (auto simp only: length_Suc_conv length_0_conv)
  let ?a = "unat x div 4" and ?b = "unat x mod 4 * 16 + unat y div 16"
    and ?c = "unat y mod 16 * 4 + unat (0 :: byte) div 64"
  have "b64decode_loop s i (pre @ [p0, p1, p2]) at c e =
      b64decode_loop s (i + 4) ((pre @ [b64_byte0 (int ?a) (int ?b), b64_byte1 (int ?b) (int ?c),
        b64_byte2 (int ?c) 64]) @ []) (at + 3) (int ?c) 64"
    by (rule b64decode_loop_group [of s ps "b64_digit ?a" "b64_digit ?b" "b64_digit ?c" "0x3d" "[]"])
      (use "2.prems"(1-3) digit_bounds in \<open>simp_all add: b64_lookup_digit b64_lookup_pad
        del: of_nat_add of_nat_mult\<close>)
  then have "b64decode_loop s i (pre @ post) at c e =
      b64decode_loop s (i + 4) (pre @ [x, y, b64_byte2 (int ?c) 64]) (at + 3) (int ?c) 64"
    unfolding post b64_join by simp
  also have "\<dots> = Some (True, pre @ [x, y, b64_byte2 (int ?c) 64], at + 3, int ?c, 64)"
    using "2.prems"(1-3) by (simp add: b64decode_loop.simps)
  finally show ?case
    using "2.prems"(3) and_64 [of "int ?c"] digit_bounds(5) [of y]
    by (simp del: of_nat_add of_nat_mult)
next
  case (3 x)
  then have "length post = Suc (Suc (Suc 0))" by simp
  then obtain p0 p1 p2 where post: "post = [p0, p1, p2]"
    by (auto simp only: length_Suc_conv length_0_conv)
  let ?a = "unat x div 4" and ?b = "unat x mod 4 * 16 + unat (0 :: byte) div 16"
  have "b64decode_loop s i (pre @ [p0, p1, p2]) at c e =
      b64decode_loop s (i + 4) ((pre @ [b64_byte0 (int ?a) (int ?b), b64_byte1 (int ?b) 64,
        b64_byte2 64 64]) @ []) (at + 3) 64 64"
    by (rule b64decode_loop_group [of s ps "b64_digit ?a" "b64_digit ?b" "0x3d" "0x3d" "[]"])
      (use "3.prems"(1-3) digit_bounds in \<open>simp_all add: b64_lookup_digit b64_lookup_pad
        del: of_nat_add of_nat_mult\<close>)
  then have "b64decode_loop s i (pre @ post) at c e =
      b64decode_loop s (i + 4) (pre @ [x, b64_byte1 (int ?b) 64, b64_byte2 64 64]) (at + 3) 64 64"
    unfolding post b64_join by simp
  also have "\<dots> = Some (True, pre @ [x, b64_byte1 (int ?b) 64, b64_byte2 64 64], at + 3, 64, 64)"
    using "3.prems"(1-3) by (simp add: b64decode_loop.simps)
  finally show ?case
    using "3.prems"(3) by simp
qed (auto simp: b64decode_loop.simps)

lemma b64decode_text: "b64decode uninit (b64_text m) = Some (True, m)"
proof -
  let ?p = "qba_resize uninit [] (length (b64_text m) div 4 * 3)"
  have "length ?p = (length m + 2) div 3 * 3" by (simp add: qba_resize_def length_b64_text)
  from b64decode_loop_text [of "b64_text m" "[]" m 0 0 "[]" ?p 0 0, OF _ _ _ this]
  obtain junk c e where "b64decode_loop (b64_text m) 0 ?p 0 0 0 =
      Some (True, m @ junk, length (m @ junk), c, e)"
    "length junk = (if c AND 64 \<noteq> 0 then 2 else if e AND 64 \<noteq> 0 then 1 else 0)" by auto
  moreover have "length (b64_text m) mod 4 = 0" by (simp add: length_b64_text)
  ultimately show ?thesis by (auto simp: b64decode_def qba_resize_def)
qed

lemma take_quad: "take (4 + n) (a # b # c # e # xs) = a # b # c # e # take n xs"
  by (simp add: numeral_eq_Suc)

lemma drop_quad: "drop (4 + n) (a # b # c # e # xs) = drop n xs"
  by (simp add: numeral_eq_Suc)

lemma take_triple: "take (3 + n) (a # b # c # xs) = a # b # c # take n xs"
  by (simp add: numeral_eq_Suc)

lemma drop_triple: "drop (3 + n) (a # b # c # xs) = drop n xs"
  by (simp add: numeral_eq_Suc)

lemma mod3_step: "Suc (Suc (Suc n)) mod 3 = n mod 3"
proof -
  have "Suc (Suc (Suc n)) = n + 3" by simp
  then show ?thesis by (simp only: mod_add_self2)
qed

text \<open>Whole groups decode on their own: the text can be cut at multiples of four.\<close>

lemma take_b64_text: "take (4 * k) (b64_text m) = b64_text (take (3 * k) m)"
proof (induction m arbitrary: k rule: b64_text.induct)
  case (1 x y z r)
  then show ?case by (cases k) (simp_all add: take_quad take_triple)
next
  case (2 x y)
  then show ?case by (cases k) (simp_all add: take_quad take_triple)
next
  case (3 x)
  then show ?case by (cases k) (simp_all add: take_quad take_triple)
qed simp

lemma drop_b64_text: "drop (4 * k) (b64_text m) = b64_text (drop (3 * k) m)"
proof (induction m arbitrary: k rule: b64_text.induct)
  case (1 x y z r)
  then show ?case by (cases k) (simp_all add: drop_quad drop_triple)
next
  case (2 x y)
  then show ?case by (cases k) (simp_all add: drop_quad drop_triple)
next
  case (3 x)
  then show ?case by (cases k) (simp_all add: drop_quad drop_triple)
qed simp

lemma b64_text_append:
  "length xs mod 3 = 0 \<Longrightarrow> b64_text (xs @ ys) = b64_text xs @ b64_text ys"
  by (induction xs rule: b64_text.induct) (simp_all add: mod3_step)

text \<open>No newline among the digits.\<close>

lemma b64_digit_no_LF: "n < 64 \<Longrightarrow> b64_digit n \<noteq> 10 \<and> unat (b64_digit n) < 128"
proof -
  have "list_all (\<lambda>n. b64_digit n \<noteq> 10 \<and> unat (b64_digit n) < 128) [0..<64]"
    by (simp add: b64_digit_def b64_tbl_def upt_rec)
  then show "n < 64 \<Longrightarrow> ?thesis" by (simp add: list_all_iff)
qed

lemma b64_text_no_LF: "10 \<notin> set (b64_text m)"
  by (induction m rule: b64_text.induct)
    (use b64_digit_no_LF digit_bounds in \<open>fastforce+\<close>)

end
