(* ===== verification/LineBreaks.thy ===== *)
theory LineBreaks
  imports Base64Codec
begin

text \<open>
  \<^verbatim>\<open>insert_linebreaks\<close> and \<^verbatim>\<open>remove_linebreaks\<close> of \<^verbatim>\<open>src/qca_textfilter.cpp\<close>: both edit a buffer in
  place with \<^verbatim>\<open>memmove\<close>.  The model keeps the moves; the lemmas show that the first puts a
  newline after every \<^verbatim>\<open>lfAt\<close> characters, counting from the column of the previous call, and
  that the second deletes exactly the newlines.  Offsets are signed, and a negative offset or
  length is an access out of range; sums and products of sizes are not bounded by the range
  of \<^verbatim>\<open>int\<close>, which matters only for texts near 2 GB.
\<close>

section \<open>Model\<close>

definition slice_int :: "'a list \<Rightarrow> int \<Rightarrow> int \<Rightarrow> 'a list option" where
  "slice_int xs off n = (if off < 0 \<or> n < 0 then None else mem_slice xs (nat off) (nat n))"

definition memcpy_int :: "'a list \<Rightarrow> int \<Rightarrow> 'a list \<Rightarrow> 'a list option" where
  "memcpy_int xs off src = (if off < 0 then None else memcpy_at xs (nat off) src)"

definition poke_int :: "'a list \<Rightarrow> int \<Rightarrow> 'a \<Rightarrow> 'a list option" where
  "poke_int xs i v = (if i < 0 then None else poke xs (nat i) v)"

text \<open>C++ division truncates towards zero; division by zero is undefined.\<close>

definition cdiv :: "int \<Rightarrow> int \<Rightarrow> int option" where
  "cdiv a b = (if b = 0 then None else Some (sgn a * sgn b * (\<bar>a\<bar> div \<bar>b\<bar>)))"

function insert_loop ::
    "int \<Rightarrow> int \<Rightarrow> int \<Rightarrow> int \<Rightarrow> int \<Rightarrow> bytes \<Rightarrow> bytes option" where
  "insert_loop lfAt needed lastlen n at out =
     (if n < needed then
        do {
          let len = (if n = 0 then lastlen else lfAt);
          src \<leftarrow> slice_int out at len;
          out \<leftarrow> memcpy_int out (at + needed - n) src;
          out \<leftarrow> poke_int out (at + needed - n - 1) 10;
          insert_loop lfAt needed lastlen (n + 1) (at - lfAt) out
        }
      else Some out)"
  by pat_completeness auto
termination
  by (relation "measure (\<lambda>(lfAt, needed, lastlen, n, at, out). nat (needed - n))") auto

declare insert_loop.simps [simp del]

definition insert_linebreaks ::
    "(nat \<Rightarrow> byte) \<Rightarrow> bytes \<Rightarrow> int \<Rightarrow> int \<Rightarrow> (bytes \<times> int) option" where
  "insert_linebreaks uninit s col lfAt =
     do {
       needed \<leftarrow> cdiv (int (length s) + col) lfAt;
       if needed > 0 then
         do {
           let firstlen = lfAt - col;
           let at = firstlen + lfAt * (needed - 1);
           let lastlen = int (length s) - at;
           let out = qba_resize uninit s (nat (int (length s) + needed));
           out \<leftarrow> insert_loop lfAt needed lastlen 0 at out;
           Some (out, lastlen)
         }
       else Some (s, col + int (length s))
     }"

text \<open>\<^verbatim>\<open>findLF\<close>; \<open>None\<close> stands for \<^verbatim>\<open>-1\<close>.\<close>

function findLF :: "bytes \<Rightarrow> nat \<Rightarrow> nat option" where
  "findLF inp n =
     (if n < length inp then (if inp ! n = 10 then Some n else findLF inp (n + 1)) else None)"
  by pat_completeness auto
termination
  by (relation "measure (\<lambda>(inp, n). length inp - n)") auto

declare findLF.simps [simp del]

lemma findLF_ge: "findLF inp n = Some k \<Longrightarrow> n \<le> k \<and> k < length inp"
  by (induction inp n rule: findLF.induct) (auto simp: findLF.simps split: if_splits)

lemma memcpy_int_length: "memcpy_int xs off src = Some ys \<Longrightarrow> length ys = length xs"
  by (auto simp: memcpy_int_def memcpy_at_length split: if_splits)

text \<open>The loop returns the buffer and the number of newlines removed.\<close>

function remove_loop :: "bytes \<Rightarrow> nat \<Rightarrow> nat option \<Rightarrow> (bytes \<times> nat) option" where
  "remove_loop out removed None = Some (out, removed)"
| "remove_loop out removed (Some at) =
     (let next = findLF out (at + 1);
          len = (case next of Some k \<Rightarrow> k - at | None \<Rightarrow> length out - at) in
      do {
        out' \<leftarrow> (if len > 1
                then do {
                  src \<leftarrow> mem_slice out (at + 1) (len - 1);
                  memcpy_int out (int at - int removed) src
                }
                else Some out);
        remove_loop out' (removed + 1) next
      })"
  by pat_completeness auto

termination
proof (relation "measure (\<lambda>(out, removed, at). case at of None \<Rightarrow> 0 | Some k \<Rightarrow> Suc (length out - k))",
    goal_cases)
  case 1
  then show ?case by simp
next
  case (2 out removed at x xa out')
  then have "length out' = length out"
    by (auto simp: memcpy_int_length split: if_splits Option.bind_splits)
  with 2 findLF_ge [of out "at + 1"] show ?case
    by (auto split: option.splits)
qed

declare remove_loop.simps(2) [simp del]

definition remove_linebreaks :: "bytes \<Rightarrow> bytes option" where
  "remove_linebreaks s =
     do {
       (out, removed) \<leftarrow> remove_loop s 0 (findLF s 0);
       Some (take (length out - removed) out)
     }"

section \<open>Specification\<close>

text \<open>A newline after every \<open>L\<close> characters, \<open>c\<close> of which have been written before.\<close>

fun break_lines :: "nat \<Rightarrow> nat \<Rightarrow> bytes \<Rightarrow> bytes" where
  "break_lines L c [] = []"
| "break_lines L c (x # xs) =
     (if Suc c = L then x # 10 # break_lines L 0 xs else x # break_lines L (Suc c) xs)"

section \<open>Lemmas\<close>

lemma break_lines_append:
  "c < L \<Longrightarrow> break_lines L c (xs @ ys) =
     break_lines L c xs @ break_lines L ((c + length xs) mod L) ys"
proof (induction xs arbitrary: c)
  case Nil
  then show ?case by simp
next
  case (Cons x xs)
  show ?case
  proof (cases "Suc c = L")
    case True
    moreover have "c + length (x # xs) = length xs + L" using True by simp
    then have "(c + length (x # xs)) mod L = length xs mod L" by (simp only: mod_add_self2)
    ultimately show ?thesis using Cons.IH [of 0] Cons.prems by simp
  next
    case False
    with Cons.prems have "Suc c < L" by simp
    from Cons.IH [OF this] False show ?thesis by simp
  qed
qed

lemma break_lines_short: "c + length xs < L \<Longrightarrow> break_lines L c xs = xs"
  by (induction xs arbitrary: c) auto

lemma break_lines_full: "xs \<noteq> [] \<Longrightarrow> c + length xs = L \<Longrightarrow> break_lines L c xs = xs @ [10]"
proof (induction xs arbitrary: c)
  case (Cons x xs)
  then show ?case by (cases "xs = []") auto
qed simp

lemma filter_break_lines: "filter (\<lambda>x. x \<noteq> 10) (break_lines L c xs) = filter (\<lambda>x. x \<noteq> 10) xs"
  by (induction L c xs rule: break_lines.induct) auto

text \<open>One move: the last unmoved chunk \<open>B\<close> goes to its place, a newline in front of it.\<close>

lemma insert_step:
  assumes "length P = at" and "length J = Suc j"
  shows "\<exists>J'. length J' = j \<and>
    Option.bind (slice_int (P @ B @ J @ D) (int at) (int (length B))) (\<lambda>src.
      Option.bind (memcpy_int (P @ B @ J @ D) (int at + int (Suc j)) src) (\<lambda>out.
        poke_int out (int at + int (Suc j) - 1) 10)) = Some (P @ J' @ 10 # B @ D)"
proof -
  let ?J = "take j (B @ J)"
  have src: "slice_int (P @ B @ J @ D) (int at) (int (length B)) = Some B"
    using assms by (simp add: slice_int_def mem_slice_def)
  have nat: "nat (int at + int (Suc j)) = at + Suc j" by simp
  have take: "take (Suc j) (B @ J) = ?J @ [(B @ J) ! j]"
    using assms by (intro take_Suc_conv_app_nth) simp
  have "take (at + Suc j) (P @ B @ J @ D) = P @ take (Suc j) (B @ J)"
    using assms by (simp add: take_append)
  moreover have "drop (at + Suc j + length B) (P @ B @ J @ D) = D"
    using assms by (simp add: drop_append)
  ultimately have cp: "memcpy_int (P @ B @ J @ D) (int at + int (Suc j)) B =
      Some (P @ (?J @ [(B @ J) ! j]) @ B @ D)"
    using assms take by (simp add: memcpy_int_def memcpy_at_in nat del: of_nat_Suc)
  have "length ?J = j" using assms by simp
  moreover have "poke_int (P @ (?J @ [(B @ J) ! j]) @ B @ D) (int at + int (Suc j) - 1) 10 =
      Some (P @ ?J @ 10 # B @ D)"
    using assms by (simp add: poke_int_def nat_add_distrib poke_append [of "P @ ?J" "at + j", simplified])
  ultimately show ?thesis using src cp by (intro exI [of _ ?J]) (simp del: of_nat_Suc)
qed

lemma insert_loop_step:
  assumes "n = needed - int (Suc j)" and "len = (if n = 0 then lastlen else lfAt)"
  shows "insert_loop lfAt needed lastlen n at out =
    Option.bind (Option.bind (slice_int out at len) (\<lambda>src.
      Option.bind (memcpy_int out (at + int (Suc j)) src) (\<lambda>out.
        poke_int out (at + int (Suc j) - 1) 10)))
      (insert_loop lfAt needed lastlen (n + 1) (at - lfAt))"
proof -
  have "n < needed" "at + needed - n = at + int (Suc j)" using assms(1) by simp_all
  then show ?thesis
    unfolding assms(2) by (subst insert_loop.simps) (simp only: if_True Let_def Option.bind_assoc)
qed

lemma insert_loop_lines:
  assumes "length P = at" and "length J = Suc j" and "length P + c = L * Suc j" and "c < L"
    and "n = needed - int (Suc j)" and "int (length B) = (if n = 0 then lastlen else int L)"
    and "0 \<le> n"
  shows "insert_loop (int L) needed lastlen n (int at) (P @ B @ J @ D) =
    Some (break_lines L c P @ B @ D)"
  using assms
proof (induction j arbitrary: P at J B D n)
  case 0
  then obtain J' where "length J' = 0" and
    step: "Option.bind (slice_int (P @ B @ J @ D) (int at) (int (length B))) (\<lambda>src.
      Option.bind (memcpy_int (P @ B @ J @ D) (int at + int (Suc 0)) src) (\<lambda>out.
        poke_int out (int at + int (Suc 0) - 1) 10)) = Some (P @ J' @ 10 # B @ D)"
    using insert_step [of P at J 0 B D] by auto
  moreover have "break_lines L c P = P @ [10]"
    using 0 by (intro break_lines_full) auto
  moreover have "insert_loop (int L) needed lastlen n (int at) (P @ B @ J @ D) =
      insert_loop (int L) needed lastlen (n + 1) (int at - int L) (P @ J' @ 10 # B @ D)"
    unfolding insert_loop_step [OF 0(5,6)] step by simp
  moreover have "\<not> n + 1 < needed" using 0(5) by simp
  ultimately show ?case by (simp add: insert_loop.simps)
next
  case (Suc j)
  obtain J' where J': "length J' = Suc j" and
    step: "Option.bind (slice_int (P @ B @ J @ D) (int at) (int (length B))) (\<lambda>src.
      Option.bind (memcpy_int (P @ B @ J @ D) (int at + int (Suc (Suc j))) src) (\<lambda>out.
        poke_int out (int at + int (Suc (Suc j)) - 1) 10)) = Some (P @ J' @ 10 # B @ D)"
    using insert_step [of P at J "Suc j" B D] Suc.prems by auto
  let ?P = "take (at - L) P" and ?B = "drop (at - L) P"
  have at: "L \<le> at" "length ?P = at - L" "length ?B = L"
    using Suc.prems by (auto simp: algebra_simps)
  have "insert_loop (int L) needed lastlen (n + 1) (int (at - L)) (?P @ ?B @ J' @ (10 # B @ D)) =
      Some (break_lines L c ?P @ ?B @ (10 # B @ D))"
    using Suc.prems at J' by (intro Suc.IH) (auto simp: algebra_simps)
  moreover have "break_lines L c P = break_lines L c ?P @ ?B @ [10]"
  proof -
    have "(c + length ?P) mod L = 0" using Suc.prems at by (simp add: algebra_simps)
    then show ?thesis
      using break_lines_append [OF Suc.prems(4), of ?P ?B] break_lines_full [of ?B 0 L] at Suc.prems(4)
      by (cases "?B = []") auto
  qed
  moreover have "insert_loop (int L) needed lastlen n (int at) (P @ B @ J @ D) =
      insert_loop (int L) needed lastlen (n + 1) (int (at - L)) (P @ J' @ 10 # B @ D)"
    unfolding insert_loop_step [OF Suc.prems(5,6)] step using at by (simp add: of_nat_diff)
  moreover have "?P @ ?B @ J' @ (10 # B @ D) = P @ J' @ 10 # B @ D" by simp
  ultimately show ?case by simp
qed

lemma cdiv_pos: "0 \<le> a \<Longrightarrow> 0 < b \<Longrightarrow> cdiv a b = Some (a div b)"
  by (cases "a = 0") (simp_all add: cdiv_def)

lemma insert_linebreaks_lines:
  assumes "c < L"
  shows "insert_linebreaks uninit s (int c) (int L) =
    Some (break_lines L c s, int ((length s + c) mod L))"
proof (cases "(length s + c) div L")
  case 0
  then have "length s + c < L" using assms by (simp add: div_eq_0_iff)
  then show ?thesis
    using assms by (simp add: insert_linebreaks_def cdiv_pos 0 break_lines_short
        zdiv_int [symmetric] flip: of_nat_add)
next
  case (Suc j)
  let ?at = "L * Suc j - c"
  let ?last = "(length s + c) mod L"
  have tot: "length s + c = L * Suc j + ?last"
    using mult_div_mod_eq [of L "length s + c"] Suc by simp
  have le: "c \<le> L * Suc j" "?at \<le> length s" using assms tot by auto
  let ?P = "take ?at s" and ?B = "drop ?at s"
  let ?J = "map uninit [length s..<length s + Suc j]"
  have len: "length ?P = ?at" "length ?B = ?last" using le tot by auto
  have "insert_loop (int L) (int (Suc j)) (int ?last) 0 (int ?at) (?P @ ?B @ ?J @ []) =
      Some (break_lines L c ?P @ ?B @ [])"
    using assms len le by (intro insert_loop_lines) auto
  moreover have "?P @ ?B @ ?J @ [] = s @ ?J"
    by (metis append_Nil2 append_assoc append_take_drop_id)
  ultimately have "insert_loop (int L) (int (Suc j)) (int ?last) 0 (int ?at) (s @ ?J) =
      Some (break_lines L c ?P @ ?B)"
    by (simp only: append_Nil2)
  moreover have "break_lines L c s = break_lines L c ?P @ ?B"
  proof -
    have "(c + length ?P) mod L = 0" using len le by simp
    then show ?thesis
      using break_lines_append [OF assms, of ?P ?B] break_lines_short [of 0 ?B L] len assms by simp
  qed
  moreover have "qba_resize uninit s (length s + Suc j) = s @ ?J"
    by (simp add: qba_resize_def)
  moreover have "cdiv (int (length s) + int c) (int L) = Some (int (Suc j))"
    using assms by (simp add: cdiv_pos Suc [symmetric] zdiv_int)
  moreover have "int L - int c + int L * (int (Suc j) - 1) = int ?at"
    using le by (simp add: of_nat_diff algebra_simps)
  moreover have "int (length s) - int ?at = int ?last"
  proof -
    have "length s = ?at + ?last" using tot le by linarith
    then show ?thesis by linarith
  qed
  moreover have "nat (int (length s) + int (Suc j)) = length s + Suc j" by simp
  ultimately show ?thesis
    by (simp add: insert_linebreaks_def Let_def del: of_nat_Suc)
qed

lemma findLF_None: "10 \<notin> set A \<Longrightarrow> findLF (P @ A) (length P) = None"
proof (induction A arbitrary: P)
  case Nil
  then show ?case by (simp add: findLF.simps)
next
  case (Cons x A)
  then show ?case using Cons.IH [of "P @ [x]"] by (subst findLF.simps) (auto simp: nth_append)
qed

lemma findLF_Some:
  "10 \<notin> set A \<Longrightarrow> findLF (P @ A @ 10 # R) (length P) = Some (length P + length A)"
proof (induction A arbitrary: P)
  case Nil
  then show ?case by (simp add: findLF.simps)
next
  case (Cons x A)
  then show ?case using Cons.IH [of "P @ [x]"] by (subst findLF.simps) (auto simp: nth_append)
qed

text \<open>One move: the segment \<open>A\<close> behind the newline at \<open>at\<close> closes the gap \<open>J\<close>.\<close>

lemma remove_step:
  assumes "length K + length J = at" and "length J = removed"
  shows "\<exists>J'. length J' = Suc removed \<and>
    (if Suc (length A) > 1
     then Option.bind (mem_slice (K @ J @ 10 # A @ R) (at + 1) (Suc (length A) - 1))
       (memcpy_int (K @ J @ 10 # A @ R) (int at - int removed))
     else Some (K @ J @ 10 # A @ R)) = Some (K @ A @ J' @ R)"
proof (cases A)
  case Nil
  then show ?thesis using assms by (intro exI [of _ "J @ [10]"]) simp
next
  case (Cons x A')
  have "mem_slice (K @ J @ 10 # A @ R) (at + 1) (length A) = Some A"
    using assms by (simp add: mem_slice_def drop_append)
  moreover have "int at - int removed = int (length K)" using assms by simp
  moreover have "memcpy_int (K @ J @ 10 # A @ R) (int (length K)) A =
      Some (K @ A @ drop (length A) (J @ 10 # A) @ R)"
    using drop_append [of "length A" "J @ 10 # A" R]
      drop_append [of "length K + length A" K "J @ 10 # A @ R"]
    by (simp add: memcpy_int_def memcpy_at_in del: drop_append)
  moreover have "length (drop (length A) (J @ 10 # A)) = Suc removed"
    unfolding length_drop length_append using assms by simp
  moreover have "Suc (length A) > 1" using Cons by simp
  ultimately show ?thesis
    by (intro exI [of _ "drop (length A) (J @ 10 # A)"]) (simp del: drop_append drop_Cons')
qed

lemma remove_loop_step:
  assumes "length K + length J = at" and "length J = removed"
    and "findLF (K @ J @ 10 # A @ R) (at + 1) = nx"
    and "(case nx of Some k \<Rightarrow> k - at | None \<Rightarrow> length (K @ J @ 10 # A @ R) - at) = Suc (length A)"
  shows "\<exists>J'. length J' = Suc removed \<and>
    remove_loop (K @ J @ 10 # A @ R) removed (Some at) =
    remove_loop (K @ A @ J' @ R) (Suc removed) nx"
proof -
  obtain J' where "length J' = Suc removed" and
    step: "(if Suc (length A) > 1
     then Option.bind (mem_slice (K @ J @ 10 # A @ R) (at + 1) (Suc (length A) - 1))
       (memcpy_int (K @ J @ 10 # A @ R) (int at - int removed))
     else Some (K @ J @ 10 # A @ R)) = Some (K @ A @ J' @ R)"
    using remove_step [OF assms(1,2), of A R] by auto
  moreover have "remove_loop (K @ J @ 10 # A @ R) removed (Some at) =
      remove_loop (K @ A @ J' @ R) (removed + 1) nx"
    unfolding remove_loop.simps(2) assms(3) Let_def assms(4) step by simp
  ultimately show ?thesis by auto
qed

lemma remove_loop_filter:
  assumes "length K + length J = at" and "length J = removed"
  shows "\<exists>out n. remove_loop (K @ J @ 10 # S) removed (Some at) = Some (out, n) \<and>
    take (length out - n) out = K @ filter (\<lambda>x. x \<noteq> 10) S"
  using assms
proof (induction "length S" arbitrary: K J S at removed rule: less_induct)
  case less
  show ?case
  proof (cases "10 \<in> set S")
    case True
    then obtain A R where S: "S = A @ 10 # R" and A: "10 \<notin> set A"
      by (metis split_list_first)
    have nx: "findLF (K @ J @ 10 # A @ 10 # R) (at + 1) = Some (Suc (at + length A))"
      using findLF_Some [OF A, of "K @ J @ [10]" R] less(2) by simp
    obtain J' where J': "length J' = Suc removed" and
      step: "remove_loop (K @ J @ 10 # A @ 10 # R) removed (Some at) =
        remove_loop (K @ A @ J' @ 10 # R) (Suc removed) (Some (Suc (at + length A)))"
      using remove_loop_step [OF less(2,3) nx] by auto
    have "\<exists>out n. remove_loop ((K @ A) @ J' @ 10 # R) (Suc removed)
        (Some (Suc (at + length A))) = Some (out, n) \<and>
        take (length out - n) out = (K @ A) @ filter (\<lambda>x. x \<noteq> 10) R"
      using less(2,3) J' S by (intro less(1)) auto
    moreover have "filter (\<lambda>x. x \<noteq> 10) S = A @ filter (\<lambda>x. x \<noteq> 10) R"
      using A S by (auto simp: filter_id_conv)
    ultimately show ?thesis using step S by simp
  next
    case False
    have nx: "findLF (K @ J @ 10 # S @ []) (at + 1) = None"
      using findLF_None [OF False, of "K @ J @ [10]"] less(2) by simp
    obtain J' where "length J' = Suc removed" and
      "remove_loop (K @ J @ 10 # S) removed (Some at) =
        remove_loop (K @ S @ J') (Suc removed) None"
      using remove_loop_step [OF less(2,3) nx] less(2) by auto
    moreover have "filter (\<lambda>x. x \<noteq> 10) S = S" using False by (auto simp: filter_id_conv)
    ultimately show ?thesis by simp
  qed
qed

lemma remove_linebreaks_filter: "remove_linebreaks s = Some (filter (\<lambda>x. x \<noteq> 10) s)"
proof (cases "10 \<in> set s")
  case True
  then obtain A R where s: "s = A @ 10 # R" and A: "10 \<notin> set A"
    by (metis split_list_first)
  have "findLF s 0 = Some (length A)" using findLF_Some [OF A, of "[]" R] s by simp
  moreover have "filter (\<lambda>x. x \<noteq> 10) A = A" using A by (auto simp: filter_id_conv)
  ultimately show ?thesis
    using remove_loop_filter [of A "[]" "length A" 0 R] s by (auto simp: remove_linebreaks_def)
next
  case False
  then have "findLF s 0 = None" "filter (\<lambda>x. x \<noteq> 10) s = s"
    using findLF_None [of s "[]"] by (auto simp: filter_id_conv)
  then show ?thesis by (simp add: remove_linebreaks_def)
qed

end
