(* ===== verification/Base64.thy ===== *)
theory Base64
  imports LineBreaks
begin

text \<open>
  The \<^verbatim>\<open>Base64\<close> filter object of \<^verbatim>\<open>src/qca_textfilter.cpp\<close>: buffering of incomplete groups
  between calls, line breaks, the one-shot operations and \<^verbatim>\<open>arrayToBase64\<close> and
  \<^verbatim>\<open>base64ToArray\<close> of \<^verbatim>\<open>src/qca_core.cpp\<close>.

  The lemmas show that the object refines the plain text \<open>b64_text\<close>, cut into lines by
  \<open>break_lines\<close>: whatever way the input is divided into calls, the output is the encoding
  (respectively the decoding) of the whole.  As in the theories below, sizes are unbounded:
  \<^verbatim>\<open>partial.size() + in.size()\<close> is an \<^verbatim>\<open>int\<close> in the code.
\<close>

section \<open>Model\<close>

record base64 =
  b64_dir :: direction
  b64_partial :: bytes
  b64_ok :: bool
  b64_col :: int
  lb_enabled :: bool
  lb_column :: int

text \<open>\<^verbatim>\<open>Base64(dir)\<close> leaves \<^verbatim>\<open>_ok\<close> and \<^verbatim>\<open>col\<close> uninitialised; \<^verbatim>\<open>clear\<close> sets them.\<close>

definition Base64 :: "bool \<Rightarrow> int \<Rightarrow> direction \<Rightarrow> base64" where
  "Base64 uninit_ok uninit_col dir =
     \<lparr>b64_dir = dir, b64_partial = [], b64_ok = uninit_ok, b64_col = uninit_col,
      lb_enabled = False, lb_column = 76\<rparr>"

definition b64_clear :: "base64 \<Rightarrow> base64" where
  "b64_clear h = h\<lparr>b64_partial := [], b64_ok := True, b64_col := 0\<rparr>"

definition lineBreaksEnabled :: "base64 \<Rightarrow> bool" where
  "lineBreaksEnabled h = lb_enabled h"

definition lineBreaksColumn :: "base64 \<Rightarrow> int" where
  "lineBreaksColumn h = lb_column h"

definition setLineBreaksEnabled :: "base64 \<Rightarrow> bool \<Rightarrow> base64" where
  "setLineBreaksEnabled h b = h\<lparr>lb_enabled := b\<rparr>"

definition setLineBreaksColumn :: "base64 \<Rightarrow> int \<Rightarrow> base64" where
  "setLineBreaksColumn h column = (if column > 0 then h\<lparr>lb_column := column\<rparr> else h\<lparr>lb_column := 76\<rparr>)"

text \<open>The last statement of \<^verbatim>\<open>update\<close> and of \<^verbatim>\<open>final\<close>: encode or decode the bytes \<open>s\<close>.\<close>

definition b64_emit :: "(nat \<Rightarrow> byte) \<Rightarrow> base64 \<Rightarrow> bytes \<Rightarrow> (base64 \<times> memory_region) option" where
  "b64_emit uninit h s =
     (if b64_dir h = Encode then
        (if lb_enabled h then
           do {
             e \<leftarrow> b64encode s;
             (out, col) \<leftarrow> insert_linebreaks uninit e (b64_col h) (lb_column h);
             map_option (Pair (h\<lparr>b64_col := col\<rparr>)) (region_value out False)
           }
         else do { e \<leftarrow> b64encode s; map_option (Pair h) (region_value e False) })
      else
        do {
          (ok, out) \<leftarrow> b64decode uninit s;
          let h = (if \<not> ok then h\<lparr>b64_ok := False\<rparr> else h);
          map_option (Pair h) (region_value out False)
        })"

definition b64_update ::
    "(nat \<Rightarrow> byte) \<Rightarrow> base64 \<Rightarrow> memory_region \<Rightarrow> (base64 \<times> memory_region) option" where
  "b64_update uninit h m =
     do {
       a \<leftarrow> toByteArray m;
       inp \<leftarrow> (if b64_dir h = Decode \<and> lb_enabled h then remove_linebreaks a else Some a);
       if inp = [] then Some (h, region_null False)
       else do {
         let chunk = (if b64_dir h = Encode then 3 else 4);
         let n = length (b64_partial h) + length inp;
         if n < chunk then Some (h\<lparr>b64_partial := b64_partial h @ inp\<rparr>, region_null False)
         else do {
           let eat = n mod chunk;
           let s = replicate (length (b64_partial h) + length inp - eat) 0;
           s \<leftarrow> memcpy_at s 0 (b64_partial h);
           x \<leftarrow> slice_int inp 0 (int (length inp) - int eat);
           s \<leftarrow> memcpy_at s (length (b64_partial h)) x;
           let p = qba_resize uninit (b64_partial h) eat;
           y \<leftarrow> slice_int inp (int (length inp) - int eat) (int eat);
           p \<leftarrow> memcpy_at p 0 y;
           b64_emit uninit (h\<lparr>b64_partial := p\<rparr>) s
         }
       }
     }"

definition b64_final :: "(nat \<Rightarrow> byte) \<Rightarrow> base64 \<Rightarrow> (base64 \<times> memory_region) option" where
  "b64_final uninit h = b64_emit uninit h (b64_partial h)"

text \<open>\<^verbatim>\<open>TextFilter\<close>'s one-shot operations on a \<^verbatim>\<open>Base64\<close> object.\<close>

definition b64_encode :: "(nat \<Rightarrow> byte) \<Rightarrow> base64 \<Rightarrow> memory_region \<Rightarrow> (base64 \<times> memory_region) option"
  where "b64_encode uninit h a =
    filter_process uninit b64_clear (b64_update uninit) (b64_final uninit) b64_ok
      (h\<lparr>b64_dir := Encode\<rparr>) a"

definition b64_decode :: "(nat \<Rightarrow> byte) \<Rightarrow> base64 \<Rightarrow> memory_region \<Rightarrow> (base64 \<times> memory_region) option"
  where "b64_decode uninit h a =
    filter_process uninit b64_clear (b64_update uninit) (b64_final uninit) b64_ok
      (h\<lparr>b64_dir := Decode\<rparr>) a"

definition b64_arrayToString :: "(nat \<Rightarrow> byte) \<Rightarrow> base64 \<Rightarrow> memory_region \<Rightarrow> qstring option" where
  "b64_arrayToString uninit h a =
     do { (h, r) \<leftarrow> b64_encode uninit h a; b \<leftarrow> toByteArray r; Some (fromLatin1 b) }"

definition b64_stringToArray :: "(nat \<Rightarrow> byte) \<Rightarrow> base64 \<Rightarrow> qstring \<Rightarrow> memory_region option" where
  "b64_stringToArray uninit h s =
     (if s = [] then Some (region_null False)
      else do { a \<leftarrow> region_value (toLatin1 s) False; map_option snd (b64_decode uninit h a) })"

definition arrayToBase64 :: "(nat \<Rightarrow> byte) \<Rightarrow> bool \<Rightarrow> int \<Rightarrow> bytes \<Rightarrow> qstring option" where
  "arrayToBase64 uninit uok ucol a =
     do { m \<leftarrow> region_value a False; b64_arrayToString uninit (Base64 uok ucol Encode) m }"

definition base64ToArray :: "(nat \<Rightarrow> byte) \<Rightarrow> bool \<Rightarrow> int \<Rightarrow> qstring \<Rightarrow> bytes option" where
  "base64ToArray uninit uok ucol s =
     do { r \<leftarrow> b64_stringToArray uninit (Base64 uok ucol Encode) s; toByteArray r }"

text \<open>Feeding bytes to an object: the argument is wrapped, the result unwrapped.\<close>

definition b64_feed :: "(nat \<Rightarrow> byte) \<Rightarrow> base64 \<Rightarrow> bytes \<Rightarrow> (base64 \<times> bytes) option" where
  "b64_feed uninit h x =
     do { m \<leftarrow> region_value x False; (h, r) \<leftarrow> b64_update uninit h m; y \<leftarrow> toByteArray r; Some (h, y) }"

definition b64_finish :: "(nat \<Rightarrow> byte) \<Rightarrow> base64 \<Rightarrow> bytes option" where
  "b64_finish uninit h =
     do { (h, r) \<leftarrow> b64_final uninit h; y \<leftarrow> toByteArray r; if b64_ok h then Some y else None }"

section \<open>Lemmas\<close>

text \<open>The buffering of \<^verbatim>\<open>update\<close>: complete groups are emitted, the rest is kept.\<close>

definition b64_chunk :: "base64 \<Rightarrow> nat" where
  "b64_chunk h = (if b64_dir h = Encode then 3 else 4)"

definition b64_input :: "base64 \<Rightarrow> bytes \<Rightarrow> bytes" where
  "b64_input h x = (if b64_dir h = Decode \<and> lb_enabled h then filter (\<lambda>b. b \<noteq> 10) x else x)"

lemma b64_update_buffers:
  assumes m: "region_inv m" and p: "length (b64_partial h) < b64_chunk h"
  defines "w \<equiv> b64_partial h @ b64_input h (content m)"
  shows "b64_update uninit h m =
    (if whole (b64_chunk h) w = [] then Some (h\<lparr>b64_partial := w\<rparr>, region_null False)
     else b64_emit uninit (h\<lparr>b64_partial := rest (b64_chunk h) w\<rparr>) (whole (b64_chunk h) w))"
proof -
  define k where "k = length w div b64_chunk h * b64_chunk h"
  have wr: "whole (b64_chunk h) w = take k w" "rest (b64_chunk h) w = drop k w"
    by (simp_all add: whole_def rest_def k_def)
  let ?inp = "b64_input h (content m)" and ?c = "b64_chunk h" and ?p = "b64_partial h"
  have c0: "0 < ?c" by (simp add: b64_chunk_def)
  have start: "b64_update uninit h m =
    (if ?inp = [] then Some (h, region_null False)
     else if length ?p + length ?inp < ?c
     then Some (h\<lparr>b64_partial := ?p @ ?inp\<rparr>, region_null False)
     else let eat = (length ?p + length ?inp) mod ?c in do {
           s \<leftarrow> memcpy_at (replicate (length ?p + length ?inp - eat) 0) 0 ?p;
           x \<leftarrow> slice_int ?inp 0 (int (length ?inp) - int eat);
           s \<leftarrow> memcpy_at s (length ?p) x;
           y \<leftarrow> slice_int ?inp (int (length ?inp) - int eat) (int eat);
           p \<leftarrow> memcpy_at (qba_resize uninit ?p eat) 0 y;
           b64_emit uninit (h\<lparr>b64_partial := p\<rparr>) s
         })"
    using m by (simp add: b64_update_def b64_input_def b64_chunk_def Let_def remove_linebreaks_filter
        del: mem_simps)
  show ?thesis
  proof (cases "length w < ?c")
    case True
    then show ?thesis using start by (auto simp: w_def whole_def)
  next
    case False
    define eat where "eat = length w mod ?c"
    have kw: "k = length w - eat"
      unfolding k_def eat_def by (simp add: minus_mod_eq_div_mult)
    have "1 \<le> length w div ?c" using False c0 by (simp add: div_greater_zero_iff Suc_le_eq)
    from mult_le_mono1 [OF this, of ?c] have "?c \<le> k" by (simp add: k_def)
    then have le: "length ?p < k" "eat \<le> length ?inp" "?inp \<noteq> []"
      using p kw by (auto simp: w_def)
    have tot: "length w = length ?p + length ?inp" by (simp add: w_def)
    have i: "int (length ?inp) - int eat = int (length ?inp - eat)" using le by simp
    have l: "length ?p + (length ?inp - eat) = k" using le kw tot by simp
    have tk: "take k w = ?p @ take (length ?inp - eat) ?inp"
      "drop k w = drop (length ?inp - eat) ?inp"
      unfolding l [symmetric] w_def by simp_all
    have rep: "replicate k (0::byte) = replicate (length ?p) 0 @ replicate (length ?inp - eat) 0"
      unfolding l [symmetric] by (rule replicate_add)
    have s1: "memcpy_at (replicate k 0) 0 ?p = Some (?p @ replicate (length ?inp - eat) 0)"
      using le l by (simp add: memcpy_at_in rep)
    have s2: "memcpy_at (?p @ replicate (length ?inp - eat) 0) (length ?p)
        (take (length ?inp - eat) ?inp) = Some (take k w)"
      using le by (simp add: memcpy_at_in tk)
    have x: "slice_int ?inp 0 (int (length ?inp) - int eat) = Some (take (length ?inp - eat) ?inp)"
      unfolding i by (simp add: slice_int_def mem_slice_in)
    have y: "slice_int ?inp (int (length ?inp) - int eat) (int eat) = Some (drop k w)"
      unfolding i tk using le by (simp add: slice_int_def mem_slice_in del: of_nat_diff)
    have p': "memcpy_at (qba_resize uninit ?p eat) 0 (drop k w) = Some (drop k w)"
      using le by (intro memcpy_at_whole) (simp add: tk qba_resize_def)
    have "length ?p + length ?inp - eat = k" using kw tot by simp
    moreover have "w \<noteq> []" using le(3) by (simp add: w_def)
    ultimately show ?thesis using start False le
      by (simp add: tot [symmetric] eat_def [symmetric] Let_def wr s1 s2 x y p' \<open>?c \<le> k\<close>)
  qed
qed

text \<open>What \<^verbatim>\<open>update\<close> and \<^verbatim>\<open>final\<close> emit.\<close>

definition b64_lines :: "bool \<Rightarrow> nat \<Rightarrow> nat \<Rightarrow> bytes \<Rightarrow> bytes" where
  "b64_lines lb L c e = (if lb then break_lines L c e else e)"

definition b64_column :: "bool \<Rightarrow> nat \<Rightarrow> nat \<Rightarrow> bytes \<Rightarrow> nat" where
  "b64_column lb L c e = (if lb then (length e + c) mod L else c)"

lemma b64_emit_encode:
  assumes "b64_dir h = Encode" and "lb_column h = int L" and "b64_col h = int c" and "c < L"
  shows "\<exists>r. b64_emit uninit h s =
      Some (h\<lparr>b64_col := int (b64_column (lb_enabled h) L c (b64_text s))\<rparr>, r) \<and>
    region_inv r \<and> \<not> secure r \<and> content r = b64_lines (lb_enabled h) L c (b64_text s)"
proof -
  have "h\<lparr>b64_col := int c\<rparr> = h" using assms(3) by simp
  with assms region_value_plain [of "b64_lines (lb_enabled h) L c (b64_text s)"] show ?thesis
    by (auto simp: b64_emit_def b64encode_text insert_linebreaks_lines b64_lines_def b64_column_def)
qed

lemma b64_emit_decode:
  assumes "b64_dir h = Decode"
  shows "\<exists>r. b64_emit uninit h (b64_text m) = Some (h, r) \<and> region_inv r \<and> \<not> secure r \<and> content r = m"
  using assms region_value_plain [of m] by (auto simp: b64_emit_def b64decode_text)

lemma b64_feed_buffers:
  fixes x :: bytes
  assumes "length (b64_partial h) < b64_chunk h"
  defines "w \<equiv> b64_partial h @ b64_input h x"
  shows "b64_feed uninit h x =
    (if whole (b64_chunk h) w = [] then Some (h\<lparr>b64_partial := w\<rparr>, [])
     else do {
       (h, r) \<leftarrow> b64_emit uninit (h\<lparr>b64_partial := rest (b64_chunk h) w\<rparr>) (whole (b64_chunk h) w);
       y \<leftarrow> toByteArray r;
       Some (h, y)
     })"
proof -
  obtain m where m: "region_value x False = Some m" "region_inv m" "content m = x"
    using region_value_plain [of x] by auto
  from b64_update_buffers [OF m(2) assms(1), of uninit] m show ?thesis
    by (simp add: b64_feed_def w_def)
qed

section \<open>The encoder as a stream filter\<close>

definition b64_enc_rep :: "bool \<Rightarrow> nat \<Rightarrow> base64 \<Rightarrow> bytes \<Rightarrow> bytes \<Rightarrow> bool" where
  "b64_enc_rep lb L h m out \<longleftrightarrow>
     b64_dir h = Encode \<and> b64_ok h \<and> lb_enabled h = lb \<and> lb_column h = int L \<and>
     b64_partial h = rest 3 m \<and> b64_col h = int (b64_column lb L 0 (b64_text (whole 3 m))) \<and>
     out = b64_lines lb L 0 (b64_text (whole 3 m))"

lemma b64_whole_append:
  "b64_text (whole 3 (m @ x)) = b64_text (whole 3 m) @ b64_text (whole 3 (rest 3 m @ x))"
  using whole_rest_append(1) [of 3 m x] b64_text_append [of "whole 3 m"] by (simp add: length_whole)

lemma b64_column_less: "0 < L \<Longrightarrow> b64_column lb L 0 e < L"
  by (simp add: b64_column_def)

lemma b64_lines_append:
  "0 < L \<Longrightarrow> b64_lines lb L 0 (e @ f) = b64_lines lb L 0 e @ b64_lines lb L (b64_column lb L 0 e) f"
  by (simp add: b64_lines_def b64_column_def break_lines_append)

lemma b64_column_append:
  "b64_column lb L (b64_column lb L 0 e) f = b64_column lb L 0 (e @ f)"
  by (simp add: b64_column_def mod_add_right_eq add.commute)

lemma b64_enc_step:
  assumes "b64_enc_rep lb L h m out" and "0 < L"
  shows "\<exists>h' y. b64_feed uninit h x = Some (h', y) \<and> b64_enc_rep lb L h' (m @ x) (out @ y)"
proof -
  let ?w = "rest 3 m @ x"
  have h: "b64_chunk h = 3" "b64_input h x = x" "b64_partial h = rest 3 m" "b64_dir h = Encode"
    using assms by (auto simp: b64_enc_rep_def b64_chunk_def b64_input_def)
  show ?thesis
  proof (cases "whole 3 ?w = []")
    case True
    then have "rest 3 (m @ x) = ?w" "whole 3 (m @ x) = whole 3 m"
      using whole_rest_append [of 3 m x] whole_rest [of 3 ?w] by auto
    with True h assms show ?thesis by (auto simp: b64_feed_buffers b64_enc_rep_def)
  next
    case False
    let ?h = "h\<lparr>b64_partial := rest 3 ?w\<rparr>" and ?c = "b64_column lb L 0 (b64_text (whole 3 m))"
    have "b64_dir ?h = Encode" "lb_column ?h = int L" "b64_col ?h = int ?c" "lb_enabled ?h = lb"
      using assms by (auto simp: b64_enc_rep_def)
    from b64_emit_encode [OF this(1,2,3) b64_column_less [OF assms(2)], of uninit "whole 3 ?w"] this(4)
    obtain r where emit: "b64_emit uninit ?h (whole 3 ?w) =
        Some (?h\<lparr>b64_col := int (b64_column lb L ?c (b64_text (whole 3 ?w)))\<rparr>, r)" and
      r: "region_inv r" "content r = b64_lines lb L ?c (b64_text (whole 3 ?w))" by auto
    from emit r(1) False have "b64_feed uninit h x =
        Some (?h\<lparr>b64_col := int (b64_column lb L ?c (b64_text (whole 3 ?w)))\<rparr>, content r)"
      using b64_feed_buffers [of h uninit x] by (simp add: h)
    moreover have "b64_enc_rep lb L
        (?h\<lparr>b64_col := int (b64_column lb L ?c (b64_text (whole 3 ?w)))\<rparr>) (m @ x) (out @ content r)"
      using assms(1) whole_rest_append(2) [of 3 m x]
      by (simp add: b64_enc_rep_def r(2) b64_whole_append [of m x] b64_lines_append [OF assms(2)]
          b64_column_append)
    ultimately show ?thesis by blast
  qed
qed

lemma b64_enc_end:
  assumes "b64_enc_rep lb L h m out" and "0 < L"
  shows "map_option ((@) out) (b64_finish uninit h) = Some (b64_lines lb L 0 (b64_text m))"
proof -
  let ?c = "b64_column lb L 0 (b64_text (whole 3 m))"
  have h: "b64_dir h = Encode" "lb_column h = int L" "b64_col h = int ?c"
    "lb_enabled h = lb" "b64_partial h = rest 3 m" "b64_ok h"
    using assms by (auto simp: b64_enc_rep_def)
  have "b64_text m = b64_text (whole 3 m) @ b64_text (rest 3 m)"
    using b64_text_append [of "whole 3 m" "rest 3 m"] by (simp add: length_whole)
  with assms h b64_emit_encode [OF h(1-3) b64_column_less [OF assms(2)], of uninit "rest 3 m"]
  show ?thesis
    by (auto simp: b64_finish_def b64_final_def b64_enc_rep_def b64_lines_append)
qed

text \<open>An object as a program makes it: constructed, configured and cleared.\<close>

definition base64_object :: "bool \<Rightarrow> int \<Rightarrow> direction \<Rightarrow> bool \<Rightarrow> int \<Rightarrow> base64" where
  "base64_object uok ucol dir lb column =
     b64_clear (setLineBreaksColumn (setLineBreaksEnabled (Base64 uok ucol dir) lb) column)"

definition line_length :: "int \<Rightarrow> nat" where
  "line_length column = (if column > 0 then nat column else 76)"

lemma line_length_pos [simp]: "0 < line_length column"
  by (simp add: line_length_def)

lemma base64_object_simps [simp]:
  "b64_dir (base64_object uok ucol dir lb column) = dir"
  "b64_partial (base64_object uok ucol dir lb column) = []"
  "b64_ok (base64_object uok ucol dir lb column)"
  "b64_col (base64_object uok ucol dir lb column) = 0"
  "lb_enabled (base64_object uok ucol dir lb column) = lb"
  "lb_column (base64_object uok ucol dir lb column) = int (line_length column)"
  by (simp_all add: base64_object_def b64_clear_def setLineBreaksColumn_def setLineBreaksEnabled_def
      Base64_def line_length_def)

interpretation b64_enc: stream_filter "base64_object uok ucol Encode lb column" "b64_feed uninit"
  "b64_finish uninit" "b64_enc_rep lb (line_length column)"
  "\<lambda>m. Some (b64_lines lb (line_length column) 0 (b64_text m))" "\<lambda>_. True"
proof (unfold_locales, goal_cases)
  case 1
  show ?case by (simp add: b64_enc_rep_def b64_column_def b64_lines_def)
next
  case (2 h m out x)
  then show ?case by (intro b64_enc_step) auto
next
  case (3 h m out)
  then show ?case by (intro b64_enc_end) auto
qed

section \<open>The decoder\<close>

text \<open>\<open>h\<close> has read \<open>m\<close>, the first part of the encoding of \<open>M\<close>, and has returned \<open>out\<close>.\<close>

definition b64_dec_rep :: "bytes \<Rightarrow> base64 \<Rightarrow> bytes \<Rightarrow> bytes \<Rightarrow> bool" where
  "b64_dec_rep M h m out \<longleftrightarrow>
     b64_dir h = Decode \<and> b64_ok h \<and> b64_partial h = rest 4 m \<and>
     whole 4 m = b64_text out \<and> out = take (3 * (length m div 4)) M"

lemma b64_text_group:
  assumes "b64_text M = m @ x @ z"
  shows "whole 4 (rest 4 m @ x) =
    b64_text (take (3 * (length (rest 4 m @ x) div 4)) (drop (3 * (length m div 4)) M))"
proof -
  let ?q = "length m div 4" and ?w = "rest 4 m @ x"
  have "b64_text M = whole 4 m @ ?w @ z"
    unfolding assms by (metis append_assoc whole_rest)
  then have "?w @ z = drop (4 * ?q) (b64_text M)"
    by (simp add: length_whole mult.commute)
  then have "?w @ z = b64_text (drop (3 * ?q) M)" by (simp only: drop_b64_text)
  then have "take (4 * (length ?w div 4)) (?w @ z) =
      b64_text (take (3 * (length ?w div 4)) (drop (3 * ?q) M))"
    by (simp only: take_b64_text)
  then show ?thesis by (simp only: take_whole)
qed

lemma b64_dec_step:
  assumes "b64_dec_rep M h m out" and "b64_text M = m @ b64_input h x @ z"
  shows "\<exists>h' y. b64_feed uninit h x = Some (h', y) \<and> b64_dec_rep M h' (m @ b64_input h x) (out @ y) \<and>
    lb_enabled h' = lb_enabled h"
proof -
  let ?x = "b64_input h x"
  let ?w = "rest 4 m @ ?x"
  let ?y = "take (3 * (length ?w div 4)) (drop (3 * (length m div 4)) M)"
  have h: "b64_chunk h = 4" "b64_partial h = rest 4 m" "b64_dir h = Decode" "b64_ok h"
    "out = take (3 * (length m div 4)) M"
    using assms by (auto simp: b64_dec_rep_def b64_chunk_def)
  have y: "whole 4 ?w = b64_text ?y" by (rule b64_text_group [OF assms(2)])
  have "length (m @ ?x) = length ?w + length m div 4 * 4" by (simp add: algebra_simps)
  then have len: "length (m @ ?x) div 4 = length m div 4 + length ?w div 4"
    by (simp del: length_append length_rest)
  have tk: "out @ ?y = take (3 * (length (m @ ?x) div 4)) M"
    unfolding len h by (simp add: distrib_left take_add)
  have wh: "whole 4 (m @ ?x) = b64_text (out @ ?y)"
    using take_b64_text [of "length (m @ ?x) div 4" M] take_whole [of 4 "m @ ?x" z] assms(2)
    unfolding tk by (simp only: append_assoc)
  let ?h = "h\<lparr>b64_partial := rest 4 ?w\<rparr>"
  have rep: "b64_dec_rep M ?h (m @ ?x) (out @ ?y)"
    using h wh tk whole_rest_append(2) [of 4 m ?x] by (simp add: b64_dec_rep_def)
  show ?thesis
  proof (cases "whole 4 ?w = []")
    case True
    then have "length ?w < 4" by (simp add: whole_eq_Nil_iff del: length_append length_rest)
    then have "rest 4 ?w = ?w" "?y = []"
      by (simp_all add: rest_short del: length_append length_rest)
    with rep have "b64_dec_rep M (h\<lparr>b64_partial := ?w\<rparr>) (m @ ?x) out" by (simp only: append_Nil2)
    with True h show ?thesis using b64_feed_buffers [of h uninit x] by simp
  next
    case False
    from b64_emit_decode [of ?h uninit ?y] h obtain r where
      "b64_emit uninit ?h (whole 4 ?w) = Some (?h, r)" "region_inv r" "content r = ?y"
      unfolding y by auto
    with False h rep show ?thesis using b64_feed_buffers [of h uninit x] by simp
  qed
qed

lemma b64_dec_run:
  assumes "b64_dec_rep M h m out" and "b64_text M = m @ concat (map (b64_input h) xs)"
  shows "\<exists>h' y. run_filter (b64_feed uninit) h xs = Some (h', y) \<and>
    b64_dec_rep M h' (b64_text M) (out @ y)"
  using assms
proof (induction xs arbitrary: h m out)
  case Nil
  then show ?case by simp
next
  case (Cons x xs)
  from b64_dec_step [OF Cons.prems(1), of x] Cons.prems(2)
  obtain h' y where s: "b64_feed uninit h x = Some (h', y)"
    "b64_dec_rep M h' (m @ b64_input h x) (out @ y)" "lb_enabled h' = lb_enabled h"
    by fastforce
  have "b64_input h' = b64_input h"
    using Cons.prems(1) s by (auto simp: b64_input_def b64_dec_rep_def fun_eq_iff)
  with Cons.IH [OF s(2)] Cons.prems(2) obtain h'' z where
    "run_filter (b64_feed uninit) h' xs = Some (h'', z)"
    "b64_dec_rep M h'' (b64_text M) ((out @ y) @ z)" by auto
  with s(1) show ?case by simp
qed

lemma b64_dec_end:
  assumes "b64_dec_rep M h (b64_text M) out"
  shows "b64_finish uninit h = Some [] \<and> out = M"
proof -
  have h: "b64_dir h = Decode" "b64_ok h" "b64_partial h = []"
    using assms by (auto simp: b64_dec_rep_def length_b64_text rest_def)
  have "length M \<le> 3 * ((length M + 2) div 3)" by presburger
  then have "out = M" using assms by (simp add: b64_dec_rep_def length_b64_text)
  moreover have "b64_finish uninit h = Some []"
    using b64_emit_decode [OF h(1), of uninit "[]"] h by (auto simp: b64_finish_def b64_final_def)
  ultimately show ?thesis by simp
qed

lemma b64_decode_chunks:
  assumes "b64_dir h = Decode" and "b64_ok h" and "b64_partial h = []"
    and "concat (map (b64_input h) xs) = b64_text M"
  shows "\<exists>h'. run_filter (b64_feed uninit) h xs = Some (h', M) \<and> b64_finish uninit h' = Some []"
proof -
  have "b64_dec_rep M h [] []" using assms by (simp add: b64_dec_rep_def)
  from b64_dec_run [OF this, of xs uninit] assms(4) obtain h' y where
    "run_filter (b64_feed uninit) h xs = Some (h', y)" "b64_dec_rep M h' (b64_text M) y" by auto
  with b64_dec_end [of M h' y uninit] show ?thesis by blast
qed

section \<open>The one-shot operations\<close>

lemma region_value_some: "region_value b False = Some r \<Longrightarrow> region_inv r \<and> \<not> secure r"
  using region_value_plain [of b] by auto

lemma b64_emit_plain: "b64_emit uninit h s = Some (h', r) \<Longrightarrow> region_inv r \<and> \<not> secure r"
  by (auto simp: b64_emit_def region_value_some split: if_splits Option.bind_splits prod.splits)

lemma b64_update_plain: "b64_update uninit h m = Some (h', r) \<Longrightarrow> region_inv r \<and> \<not> secure r"
  by (auto simp: b64_update_def Let_def region_null_def [of False] region_inv_def
      dest: b64_emit_plain split: if_splits Option.bind_splits)

lemma b64_process:
  assumes "region_inv a" and "b64_feed uninit (b64_clear h) (content a) = Some (h1, y)"
    and "b64_ok h1" and "b64_finish uninit h1 = Some z"
  shows "\<exists>h2 r. filter_process uninit b64_clear (b64_update uninit) (b64_final uninit) b64_ok h a =
      Some (h2, r) \<and> b64_ok h2 \<and> region_inv r \<and> content r = y @ z"
proof -
  obtain m where m: "region_value (content a) False = Some m" "region_inv m" "content m = content a"
    using region_value_plain [of "content a"] by auto
  then have "b64_update uninit (b64_clear h) a = b64_update uninit (b64_clear h) m"
    using assms(1) by (simp add: b64_update_def)
  with assms(2) m obtain r1 where r1: "b64_update uninit (b64_clear h) a = Some (h1, r1)"
      "toByteArray r1 = Some y"
    by (auto simp: b64_feed_def split: Option.bind_splits)
  from assms(4) obtain h2 r2 where r2: "b64_final uninit h1 = Some (h2, r2)"
      "toByteArray r2 = Some z" "b64_ok h2"
    by (auto simp: b64_finish_def split: Option.bind_splits if_splits)
  have "region_inv r1 \<and> \<not> secure r1" "region_inv r2 \<and> \<not> secure r2"
    using b64_update_plain [OF r1(1)] b64_emit_plain r2(1) by (auto simp: b64_final_def)
  with r1 r2 assms(3) region_value_plain [of "y @ z"] show ?thesis
    by (auto simp: filter_process_def Let_def)
qed

lemma b64_encode_eq:
  assumes "region_inv a" and "lb_column h = int L" and "0 < L"
  shows "\<exists>h' r. b64_encode uninit h a = Some (h', r) \<and> b64_ok h' \<and> region_inv r \<and>
    content r = b64_lines (lb_enabled h) L 0 (b64_text (content a))"
proof -
  let ?h = "b64_clear (h\<lparr>b64_dir := Encode\<rparr>)"
  have "b64_enc_rep (lb_enabled h) L ?h [] []"
    using assms by (simp add: b64_enc_rep_def b64_clear_def b64_column_def b64_lines_def)
  from b64_enc_step [OF this assms(3), of uninit "content a"] obtain h1 y where
    f: "b64_feed uninit ?h (content a) = Some (h1, y)" "b64_enc_rep (lb_enabled h) L h1 (content a) y"
    by auto
  from b64_enc_end [OF f(2) assms(3), of uninit] obtain z where
    z: "b64_finish uninit h1 = Some z" "y @ z = b64_lines (lb_enabled h) L 0 (b64_text (content a))"
    by auto
  have "b64_ok h1" using f(2) by (simp add: b64_enc_rep_def)
  from b64_process [OF assms(1) f(1) this z(1)] z(2) show ?thesis by (simp add: b64_encode_def)
qed

lemma b64_decode_eq:
  assumes "region_inv a"
    and "(if lb_enabled h then filter (\<lambda>b. b \<noteq> 10) (content a) else content a) = b64_text M"
  shows "\<exists>h' r. b64_decode uninit h a = Some (h', r) \<and> b64_ok h' \<and> region_inv r \<and> content r = M"
proof -
  let ?h = "b64_clear (h\<lparr>b64_dir := Decode\<rparr>)"
  have h: "b64_dir ?h = Decode" "b64_ok ?h" "b64_partial ?h = []"
    "concat (map (b64_input ?h) [content a]) = b64_text M"
    using assms by (auto simp: b64_clear_def b64_input_def)
  then have "b64_dec_rep M ?h [] []" by (simp add: b64_dec_rep_def)
  from b64_dec_step [OF this, of "content a" "[]" uninit] h(4) obtain h1 y where
    f: "b64_feed uninit ?h (content a) = Some (h1, y)" "b64_dec_rep M h1 (b64_text M) y" by auto
  from b64_dec_end [OF f(2), of uninit] have z: "b64_finish uninit h1 = Some []" "y = M" by auto
  have "b64_ok h1" using f(2) by (simp add: b64_dec_rep_def)
  from b64_process [OF assms(1) f(1) this z(1)] z(2) show ?thesis by (simp add: b64_decode_def)
qed

lemma arrayToBase64_eq: "arrayToBase64 uninit uok ucol a = Some (fromLatin1 (b64_text a))"
proof -
  obtain m where m: "region_value a False = Some m" "region_inv m" "content m = a"
    using region_value_plain [of a] by auto
  from b64_encode_eq [OF m(2), of "Base64 uok ucol Encode" 76 uninit] m show ?thesis
    by (auto simp: arrayToBase64_def b64_arrayToString_def Base64_def b64_lines_def)
qed

lemma base64ToArray_eq: "base64ToArray uninit uok ucol (fromLatin1 (b64_text a)) = Some a"
proof (cases "b64_text a = []")
  case True
  then have "a = []" by (cases a rule: b64_text.cases) auto
  then show ?thesis by (simp add: base64ToArray_def b64_stringToArray_def fromLatin1_def)
next
  case False
  obtain m where m: "region_value (b64_text a) False = Some m" "region_inv m"
    "content m = b64_text a"
    using region_value_plain [of "b64_text a"] by auto
  from b64_decode_eq [OF m(2), of "Base64 uok ucol Encode" a uninit] m False show ?thesis
    by (auto simp: base64ToArray_def b64_stringToArray_def Base64_def)
qed

interpretation b64_codec: codec "arrayToBase64 uninit uok ucol"
  "\<lambda>s. Option.bind s (base64ToArray uninit uok ucol)" "\<lambda>_. True"
  by unfold_locales (simp add: arrayToBase64_eq base64ToArray_eq)

text \<open>An object with line breaks decodes what it has encoded.\<close>

lemma b64_filter_lines:
  "(if lb then filter (\<lambda>b. b \<noteq> 10) (b64_lines lb L c (b64_text m)) else b64_lines lb L c (b64_text m)) =
   b64_text m"
  using b64_text_no_LF [of m] by (auto simp: b64_lines_def filter_break_lines filter_id_conv)

lemma b64decode_loop_bad:
  assumes "\<exists>b\<in>set [w0, w1, w2, w3]. b64_lookup b = None"
  shows "b64decode_loop [w0, w1, w2, w3] 0 p at c d = None"
proof -
  let ?s = "[w0, w1, w2, w3]"
  have "peek ?s 0 = Some w0" "peek ?s (0 + 1) = Some w1" "peek ?s (0 + 2) = Some w2"
    "peek ?s (0 + 3) = Some w3" "0 < length ?s"
    by (simp_all add: peek_def)
  with assms show ?thesis
    by (subst b64decode_loop.simps, cases "b64_lookup w0"; cases "b64_lookup w1";
        cases "b64_lookup w2"; cases "b64_lookup w3")
      (simp_all only: if_True Option.bind.simps option.distinct set_simps simp_thms insert_iff
        empty_iff bex_simps)
qed

text \<open>Before the buffer: the column is beyond a line length that was lowered meanwhile.\<close>

lemma insert_loop_before:
  assumes "n = needed - int (Suc j)" and "at = lfAt * int (Suc j) - col" and "lfAt < col"
  shows "insert_loop lfAt needed lastlen n at out = None"
  using assms
proof (induction j arbitrary: n at out)
  case 0
  then show ?case
    by (subst insert_loop_step [OF 0(1) refl]) (simp add: slice_int_def)
next
  case (Suc j)
  have "insert_loop lfAt needed lastlen (n + 1) (at - lfAt) = (\<lambda>_. None)"
    using Suc.prems by (intro ext Suc.IH) (auto simp: algebra_simps)
  moreover have "Option.bind x (\<lambda>_. None) = None" for x :: "bytes option" by (cases x) simp_all
  ultimately show ?case by (simp only: insert_loop_step [OF Suc.prems(1) refl])
qed

lemma insert_linebreaks_before:
  assumes "0 < L" and "L < col"
  shows "insert_linebreaks uninit s col L = None"
proof -
  let ?n = "(int (length s) + col) div L"
  have "L \<le> int (length s) + col" using assms by simp
  then have "0 < ?n" using assms by (simp add: pos_imp_zdiv_pos_iff)
  then obtain j where j: "?n = int (Suc j)" by (metis gr0_implies_Suc zero_less_imp_eq_int)
  have "insert_loop L (int (Suc j)) lastlen 0 (L - col + L * (int (Suc j) - 1)) out = None"
    for lastlen out
    using assms by (intro insert_loop_before) (auto simp: algebra_simps)
  then show ?thesis
    using assms by (simp add: insert_linebreaks_def cdiv_pos j Let_def del: of_nat_Suc)
qed

section \<open>Properties\<close>

text \<open>
  \<^verbatim>\<open>base64ToArray\<close> inverts \<^verbatim>\<open>arrayToBase64\<close> on every byte array, the text is the padded
  standard encoding, and neither leaves its buffers, whatever the constructor left in the
  uninitialised members.
\<close>

theorem base64_round_trip:
  "arrayToBase64 uninit uok ucol a = Some (fromLatin1 (b64_text a)) \<and>
   Option.bind (arrayToBase64 uninit uok ucol a) (base64ToArray uninit uok ucol) = Some a"
  using b64_codec.dec_enc [of uninit uok ucol a] by (simp add: arrayToBase64_eq)

text \<open>
  C27. With line breaks at any column the object encodes into lines of that many characters,
  and decodes them back to the input: nothing is lost at the line ends.
\<close>

theorem base64_lines_round_trip:
  assumes "region_inv m" and "h = setLineBreaksColumn (setLineBreaksEnabled h0 lb) column"
  shows "\<exists>h1 t h2 r. b64_encode uninit h m = Some (h1, t) \<and>
    toByteArray t = Some (b64_lines lb (line_length column) 0 (b64_text (content m))) \<and>
    b64_decode uninit h t = Some (h2, r) \<and> b64_ok h2 \<and> toByteArray r = Some (content m)"
proof -
  have h: "lb_column h = int (line_length column)" "lb_enabled h = lb"
    using assms(2) by (simp_all add: setLineBreaksColumn_def setLineBreaksEnabled_def line_length_def)
  from b64_encode_eq [OF assms(1) h(1), of uninit] h(2) obtain h1 t where
    t: "b64_encode uninit h m = Some (h1, t)" "region_inv t"
      "content t = b64_lines lb (line_length column) 0 (b64_text (content m))" by auto
  have "(if lb_enabled h then filter (\<lambda>b. b \<noteq> 10) (content t) else content t) = b64_text (content m)"
    unfolding t(3) h(2) by (rule b64_filter_lines)
  from b64_decode_eq [OF t(2) this, of uninit]
  obtain h2 r where "b64_decode uninit h t = Some (h2, r)" "b64_ok h2" "region_inv r"
    "content r = content m" by auto
  with t show ?thesis by auto
qed

definition lines_input :: memory_region where
  "lines_input = \<lparr>secure = False, priv = Some \<lparr>sec = False, ai_data = IntoQbuf, ai_size = 4,
     sbuf = None, qbuf = Some [0x4d, 0x61, 0x6e, 0x21]\<rparr>\<rparr>"

lemma lines_input_props: "region_inv lines_input" "content lines_input = [0x4d, 0x61, 0x6e, 0x21]"
  by (simp_all add: lines_input_def region_inv_def ai_inv_def content_def ai_content_def)

theorem base64_lines_round_trip_witness:
  "region_inv lines_input \<and>
   (\<exists>h1 t. b64_encode (\<lambda>_. 0) (setLineBreaksColumn (setLineBreaksEnabled (Base64 False 9 Encode) True) 5)
      lines_input = Some (h1, t) \<and>
    toByteArray t = Some [0x54, 0x57, 0x46, 0x75, 0x49, 10, 0x51, 0x3d, 0x3d])"
proof -
  have "b64_lines True (line_length 5) 0 (b64_text (content lines_input)) =
      [0x54, 0x57, 0x46, 0x75, 0x49, 10, 0x51, 0x3d, 0x3d]"
    by (simp add: b64_lines_def line_length_def lines_input_props b64_digit_def b64_tbl_def)
  with base64_lines_round_trip [OF lines_input_props(1) refl, of "\<lambda>_. 0" "Base64 False 9 Encode" True 5]
  show ?thesis by (auto simp: lines_input_props(1))
qed

text \<open>
  Incremental encoding is independent of the division of the input: for every list of
  chunks the outputs of the updates followed by that of \<^verbatim>\<open>final\<close> are the encoding of the whole
  input, broken into lines as the object was told.
\<close>

theorem base64_encode_incremental:
  "\<exists>h y. run_filter (b64_feed uninit) (base64_object uok ucol Encode lb column) xs = Some (h, y) \<and>
    map_option ((@) y) (b64_finish uninit h) =
      Some (b64_lines lb (line_length column) 0 (b64_text (concat xs)))"
  by (rule b64_enc.filter_chunks) (simp add: list_all_iff)

text \<open>
  C28. Incremental decoding is independent of the division of the input, also when a group or
  its padding is split between calls, and, with line breaks enabled, wherever the newlines
  are: the updates return the encoded bytes and \<^verbatim>\<open>final\<close> adds nothing.
\<close>

theorem base64_decode_incremental:
  assumes "(if lb then filter (\<lambda>b. b \<noteq> 10) (concat xs) else concat xs) = b64_text m"
  shows "\<exists>h. run_filter (b64_feed uninit) (base64_object uok ucol Decode lb column) xs = Some (h, m) \<and>
    b64_finish uninit h = Some []"
proof (rule b64_decode_chunks)
  show "concat (map (b64_input (base64_object uok ucol Decode lb column)) xs) = b64_text m"
    using assms by (cases lb) (simp_all add: b64_input_def [abs_def] filter_concat)
qed simp_all

theorem base64_decode_incremental_witness:
  "filter (\<lambda>b. b \<noteq> 10) (concat [[0x54, 0x57], [0x46, 10, 0x75, 0x49], [0x51, 0x3d], [0x3d]]) =
     b64_text [0x4d, 0x61, 0x6e, 0x21] \<and>
   (\<exists>h. run_filter (b64_feed (\<lambda>_. 0)) (base64_object False 0 Decode True 76)
       [[0x54, 0x57], [0x46, 10, 0x75, 0x49], [0x51, 0x3d], [0x3d]] =
     Some (h, [0x4d, 0x61, 0x6e, 0x21]))"
proof -
  have "(if True then filter (\<lambda>b. b \<noteq> 10) (concat [[0x54, 0x57], [0x46, 10, 0x75, 0x49], [0x51, 0x3d], [0x3d]])
      else concat [[0x54, 0x57], [0x46, 10, 0x75, 0x49], [0x51, 0x3d], [0x3d]]) =
     b64_text [0x4d, 0x61, 0x6e, 0x21]"
    by (simp add: b64_digit_def b64_tbl_def)
  from base64_decode_incremental [OF this, of "\<lambda>_. 0" False 0 76] this show ?thesis
    by (simp only: if_True) blast
qed

text \<open>
  Decoding text with a character of the upper half of Latin-1 reads outside the decoding
  table: the \<^verbatim>\<open>char\<close> is converted to \<^verbatim>\<open>int\<close> with its sign and the index is negative.
\<close>

theorem base64_non_ascii_out_of_range:
  assumes "length s = 4" and "list_all (\<lambda>c. unat c < 256) s" and "\<exists>c\<in>set s. 128 \<le> unat c"
  shows "base64ToArray uninit uok ucol s = None"
proof -
  obtain c0 c1 c2 c3 where s: "s = [c0, c1, c2, c3]"
    using assms(1) by (auto simp: numeral_eq_Suc length_Suc_conv)
  have hi: "unat (ucast c :: byte) = unat c" if "unat c < 256" for c :: "16 word"
    using that by (simp add: unsigned_ucast_eq take_bit_eq_mod)
  have l: "toLatin1 s = map ucast s" using assms(2) by (auto simp: toLatin1_def list_all_iff)
  obtain c where c: "c \<in> set s" "128 \<le> unat c" using assms(3) by blast
  with assms(2) hi [of c] have "b64_lookup (ucast c) = None"
    by (simp add: list_all_iff b64_lookup_def)
  with c(1) have "\<exists>b\<in>set (map ucast s). b64_lookup b = None" by auto
  then have "b64decode_loop (map ucast s) 0 p 0 0 0 = None" for p
    unfolding s list.map by (rule b64decode_loop_bad)
  then have "b64decode uninit (toLatin1 s) = None"
    unfolding b64decode_def l using assms(1) by simp
  moreover obtain m where m: "region_value (toLatin1 s) False = Some m" "region_inv m"
    "content m = toLatin1 s"
    using region_value_plain [of "toLatin1 s"] by auto
  let ?h = "b64_clear ((Base64 uok ucol Encode)\<lparr>b64_dir := Decode\<rparr>)"
  have "whole 4 (toLatin1 s) = toLatin1 s" "rest 4 (toLatin1 s) = []"
    by (simp_all add: s toLatin1_def whole_def rest_def)
  ultimately have "b64_update uninit ?h m = None"
    using b64_update_buffers [OF m(2), of ?h uninit] m(3) s
    by (simp add: b64_clear_def Base64_def b64_chunk_def b64_input_def b64_emit_def toLatin1_def)
  with m(1) s show ?thesis
    by (simp add: base64ToArray_def b64_stringToArray_def b64_decode_def filter_process_def Let_def)
qed

theorem base64_non_ascii_out_of_range_witness:
  "list_all (\<lambda>c. unat c < 256) [0xe9, 0x41, 0x41, 0x41 :: 16 word] \<and>
   base64ToArray (\<lambda>_. 0) True 0 [0xe9, 0x41, 0x41, 0x41] = None"
  using base64_non_ascii_out_of_range [of "[0xe9, 0x41, 0x41, 0x41]" "\<lambda>_. 0" True 0] by simp

text \<open>
  Lowering the line length below the current column in the middle of an encoding makes
  the next line-breaking call write before its buffer.
\<close>

theorem base64_lowered_column_out_of_range:
  assumes "b64_dir h = Encode" and "lb_enabled h" and "0 < column" and "column < b64_col h"
  shows "b64_final uninit (setLineBreaksColumn h column) = None"
  using assms by (simp add: b64_final_def b64_emit_def setLineBreaksColumn_def b64encode_text
      insert_linebreaks_before)

theorem base64_lowered_column_out_of_range_witness:
  "\<exists>h y. run_filter (b64_feed (\<lambda>_. 0)) (base64_object True 0 Encode True 76) [[0x4d, 0x61, 0x6e]] =
     Some (h, y) \<and> b64_final (\<lambda>_. 0) (setLineBreaksColumn h 3) = None"
proof -
  obtain h y where r: "run_filter (b64_feed (\<lambda>_. 0)) (base64_object True 0 Encode True 76)
      [[0x4d, 0x61, 0x6e]] = Some (h, y)" "b64_enc_rep True 76 h [0x4d, 0x61, 0x6e] y"
    using b64_enc.rep_run [OF b64_enc.rep_init, of "[[0x4d, 0x61, 0x6e]]" "\<lambda>_. 0" True 0 True 76]
    by (auto simp: line_length_def)
  then have "b64_dir h = Encode" "lb_enabled h" "(0::int) < 3" "3 < b64_col h"
    by (simp_all add: b64_enc_rep_def b64_column_def length_b64_text whole_def)
  from base64_lowered_column_out_of_range [OF this, of "\<lambda>_. 0"] r(1) show ?thesis by blast
qed

end
