(* ===== verification/QStrings.thy ===== *)
theory QStrings
  imports Prelude
begin

text \<open>
  The operations of Qt's \<^verbatim>\<open>QString\<close> and \<^verbatim>\<open>QStringList\<close> that several components use, on the list of
  UTF-16 code units: literals, \<^verbatim>\<open>split\<close>, \<^verbatim>\<open>join\<close>.
\<close>

definition qlatin :: "string \<Rightarrow> qstring" where
  "qlatin s = map (\<lambda>c. of_nat (of_char c)) s"

text \<open>\<^verbatim>\<open>QString::split(QChar)\<close> and \<^verbatim>\<open>QStringList::join\<close>.\<close>

fun qsplit :: "16 word \<Rightarrow> qstring \<Rightarrow> qstring list" where
  "qsplit c [] = [[]]"
| "qsplit c (x # xs) =
     (if x = c then [] # qsplit c xs
      else case qsplit c xs of [] \<Rightarrow> [[x]] | y # ys \<Rightarrow> (x # y) # ys)"

fun qjoin :: "qstring \<Rightarrow> qstring list \<Rightarrow> qstring" where
  "qjoin sep [] = []"
| "qjoin sep [x] = x"
| "qjoin sep (x # y # ys) = x @ sep @ qjoin sep (y # ys)"

lemma qsplit_not_Nil [simp]: "qsplit c s \<noteq> []"
  by (induction s) (auto split: list.splits)

lemma qsplit_plain: "c \<notin> set s \<Longrightarrow> qsplit c s = [s]"
  by (induction s) auto

lemma qsplit_append: "c \<notin> set s \<Longrightarrow> qsplit c (s @ c # t) = s # qsplit c t"
  by (induction s) auto

lemma qsplit_qjoin: "xs \<noteq> [] \<Longrightarrow> \<forall>x\<in>set xs. c \<notin> set x \<Longrightarrow> qsplit c (qjoin [c] xs) = xs"
  by (induction "[c]" xs rule: qjoin.induct) (auto simp: qsplit_plain qsplit_append)

lemma qjoin_clean: "\<forall>x\<in>set xs. set x \<inter> B = {} \<Longrightarrow> set sep \<inter> B = {} \<Longrightarrow> set (qjoin sep xs) \<inter> B = {}"
  by (induction sep xs rule: qjoin.induct) auto

lemma qsplit_no_sep: "\<forall>p \<in> set (qsplit c s). c \<notin> set p"
  by (induction c s rule: qsplit.induct) (auto split: list.splits)

lemma qsplit_chars: "p \<in> set (qsplit c s) \<Longrightarrow> set p \<subseteq> set s"
  by (induction c s arbitrary: p rule: qsplit.induct) (fastforce split: list.splits if_splits)+

lemma qjoin_qsplit: "qjoin [c] (qsplit c s) = s"
proof (induction s)
  case (Cons x xs)
  obtain y ys where y: "qsplit c xs = y # ys" by (cases "qsplit c xs") auto
  then show ?case using Cons by (cases ys) auto
qed simp

end
