(* ===== verification/KeyStoreEntry.thy ===== *)
theory KeyStoreEntry
  imports Base64 QStrings
begin

text \<open>
  The key store entries of the default provider (\<^verbatim>\<open>src/qca_default.cpp\<close>): the escaping of strings
  and string lists, the seven-field serialisation and \<^verbatim>\<open>DefaultKeyStoreEntry\<close>.

  Certificates and CRLs belong to a provider plugin; their DER conversions are parameters of
  the model (\<open>toDER\<close>, and \<open>fromDER\<close> with \<open>None\<close> for a null object).  The round trip of an entry
  relies on \<open>fromDER\<close> reading what \<open>toDER\<close> wrote, and on nothing else about them.
\<close>

section \<open>Model\<close>

definition escape_char :: "16 word \<Rightarrow> qstring" where
  "escape_char c =
     (if c = 0x5c then [0x5c, 0x5c]
      else if c = 0x3a then [0x5c, 0x63]
      else if c = 0x2c then [0x5c, 0x6f]
      else if c = 0x0a then [0x5c, 0x6e]
      else [c])"

fun escape_string_loop :: "qstring \<Rightarrow> qstring \<Rightarrow> qstring" where
  "escape_string_loop [] out = out"
| "escape_string_loop (c # inp) out = escape_string_loop inp (out @ escape_char c)"

definition escape_string :: "qstring \<Rightarrow> qstring" where
  "escape_string inp = escape_string_loop inp []"

fun unescape_loop :: "qstring \<Rightarrow> qstring \<Rightarrow> qstring option" where
  "unescape_loop [] out = Some out"
| "unescape_loop [c] out = (if c = 0x5c then None else Some (out @ [c]))"
| "unescape_loop (c # e # inp) out =
     (if c = 0x5c then
        (if e = 0x5c then unescape_loop inp (out @ [0x5c])
         else if e = 0x63 then unescape_loop inp (out @ [0x3a])
         else if e = 0x6f then unescape_loop inp (out @ [0x2c])
         else if e = 0x6e then unescape_loop inp (out @ [0x0a])
         else None)
      else unescape_loop (e # inp) (out @ [c]))"

definition unescape_string :: "qstring \<Rightarrow> qstring option" where
  "unescape_string inp = unescape_loop inp []"

definition escape_stringlist :: "qstring list \<Rightarrow> qstring" where
  "escape_stringlist inp = qjoin [0x3a] (map escape_string inp)"

fun unescape_list :: "qstring list \<Rightarrow> qstring list \<Rightarrow> qstring list option" where
  "unescape_list [] out = Some out"
| "unescape_list (s # ss) out =
     (case unescape_string s of None \<Rightarrow> None | Some str \<Rightarrow> unescape_list ss (out @ [str]))"

definition unescape_stringlist :: "qstring \<Rightarrow> qstring list option" where
  "unescape_stringlist inp = unescape_list (qsplit 0x3a inp) []"

record entry_fields =
  ef_storeId :: qstring
  ef_storeName :: qstring
  ef_entryId :: qstring
  ef_entryName :: qstring
  ef_entryType :: qstring
  ef_data :: qstring

definition entry_serialize :: "entry_fields \<Rightarrow> qstring" where
  "entry_serialize f =
     escape_stringlist [qlatin ''qca_def'', ef_storeId f, ef_storeName f, ef_entryId f,
       ef_entryName f, ef_entryType f, ef_data f]"

definition entry_deserialize :: "qstring \<Rightarrow> entry_fields option" where
  "entry_deserialize inp =
     (case unescape_stringlist inp of
        None \<Rightarrow> None
      | Some list \<Rightarrow>
          if length list \<noteq> 7 then None
          else if list ! 0 \<noteq> qlatin ''qca_def'' then None
          else Some \<lparr>ef_storeId = list ! 1, ef_storeName = list ! 2, ef_entryId = list ! 3,
                 ef_entryName = list ! 4, ef_entryType = list ! 5, ef_data = list ! 6\<rparr>)"

subsection \<open>DefaultKeyStoreEntry\<close>

datatype ('c, 'r) entry_object = TypeCertificate 'c | TypeCRL 'r

record ('c, 'r) keystore_entry =
  kse_object :: "('c, 'r) entry_object"
  kse_id :: qstring
  kse_name :: qstring
  kse_storeId :: qstring
  kse_storeName :: qstring
  kse_serialized :: qstring

definition DefaultKeyStoreEntry ::
    "('c, 'r) entry_object \<Rightarrow> qstring \<Rightarrow> qstring \<Rightarrow> ('c, 'r) keystore_entry" where
  "DefaultKeyStoreEntry ob storeId storeName =
     \<lparr>kse_object = ob, kse_id = [], kse_name = [], kse_storeId = storeId, kse_storeName = storeName,
      kse_serialized = []\<rparr>"

text \<open>\<^verbatim>\<open>serialize()\<close> is \<^verbatim>\<open>const\<close> but caches its result.\<close>

definition kse_serialize ::
    "(nat \<Rightarrow> byte) \<Rightarrow> bool \<Rightarrow> int \<Rightarrow> ('c \<Rightarrow> bytes) \<Rightarrow> ('r \<Rightarrow> bytes) \<Rightarrow> ('c, 'r) keystore_entry \<Rightarrow>
     (('c, 'r) keystore_entry \<times> qstring) option" where
  "kse_serialize uninit uok ucol cert_toDER crl_toDER e =
     do {
       e \<leftarrow>
         (if kse_serialized e = [] then
            do {
              (typestr, datastr) \<leftarrow>
                (case kse_object e of
                   TypeCertificate c \<Rightarrow>
                     map_option (Pair (qlatin ''cert'')) (arrayToBase64 uninit uok ucol (cert_toDER c))
                 | TypeCRL r \<Rightarrow>
                     map_option (Pair (qlatin ''crl'')) (arrayToBase64 uninit uok ucol (crl_toDER r)));
              Some (e\<lparr>kse_serialized := entry_serialize \<lparr>ef_storeId = kse_storeId e,
                ef_storeName = kse_storeName e, ef_entryId = kse_id e, ef_entryName = kse_name e,
                ef_entryType = typestr, ef_data = datastr\<rparr>\<rparr>)
            }
          else Some e);
       Some (e, kse_serialized e)
     }"

text \<open>\<open>Some None\<close> is a returned null pointer.\<close>

definition kse_deserialize ::
    "(nat \<Rightarrow> byte) \<Rightarrow> bool \<Rightarrow> int \<Rightarrow> (bytes \<Rightarrow> 'c option) \<Rightarrow> (bytes \<Rightarrow> 'r option) \<Rightarrow> qstring \<Rightarrow>
     ('c, 'r) keystore_entry option option" where
  "kse_deserialize uninit uok ucol cert_fromDER crl_fromDER inp =
     (case entry_deserialize inp of
        None \<Rightarrow> Some None
      | Some f \<Rightarrow>
          do {
            data \<leftarrow> base64ToArray uninit uok ucol (ef_data f);
            let finish = map_option (\<lambda>ob. (DefaultKeyStoreEntry ob (ef_storeId f) (ef_storeName f))
                  \<lparr>kse_id := ef_entryId f, kse_name := ef_entryName f, kse_serialized := inp\<rparr>);
            if ef_entryType f = qlatin ''cert'' then
              Some (finish (map_option TypeCertificate (cert_fromDER data)))
            else if ef_entryType f = qlatin ''crl'' then
              Some (finish (map_option TypeCRL (crl_fromDER data)))
            else Some None
          })"

section \<open>Lemmas\<close>

lemma escape_loop_eq: "escape_string_loop inp out = out @ concat (map escape_char inp)"
  by (induction inp arbitrary: out) auto

lemma escape_string_eq: "escape_string inp = concat (map escape_char inp)"
  by (simp add: escape_string_def escape_loop_eq)

lemma unescape_plain: "c \<noteq> 0x5c \<Longrightarrow> unescape_loop (c # t) out = unescape_loop t (out @ [c])"
  by (cases t) simp_all

lemma unescape_escape_loop:
  "unescape_loop (concat (map escape_char inp) @ ys) out = unescape_loop ys (out @ inp)"
proof (induction inp arbitrary: out)
  case (Cons c inp)
  from Cons [of "out @ [c]"] show ?case by (auto simp: escape_char_def unescape_plain)
qed simp

lemma unescape_escape [simp]: "unescape_string (escape_string inp) = Some inp"
  using unescape_escape_loop [of inp "[]" "[]"] by (simp add: unescape_string_def escape_string_eq)

lemma escape_string_clean: "set (escape_string inp) \<inter> {0x3a, 0x2c, 0x0a} = {}"
  unfolding escape_string_eq by (induction inp) (auto simp: escape_char_def)

lemma unescape_list_map: "unescape_list (map escape_string xs) out = Some (out @ xs)"
  by (induction xs arbitrary: out) auto

lemma unescape_stringlist_escape: "xs \<noteq> [] \<Longrightarrow> unescape_stringlist (escape_stringlist xs) = Some xs"
proof -
  assume "xs \<noteq> []"
  moreover have "\<forall>x\<in>set (map escape_string xs). 0x3a \<notin> set x" using escape_string_clean by auto
  ultimately have "qsplit 0x3a (escape_stringlist xs) = map escape_string xs"
    unfolding escape_stringlist_def by (intro qsplit_qjoin) auto
  then show ?thesis by (simp add: unescape_stringlist_def unescape_list_map)
qed

lemma entry_round_trip: "entry_deserialize (entry_serialize f) = Some f"
  by (simp add: entry_deserialize_def entry_serialize_def unescape_stringlist_escape)

interpretation entry_codec: codec entry_serialize entry_deserialize "\<lambda>_. True"
  by unfold_locales (rule entry_round_trip)

lemma entry_serialize_line: "0x0a \<notin> set (entry_serialize f) \<and> 0x2c \<notin> set (entry_serialize f)"
proof -
  have "set (escape_string x) \<inter> {0x2c, 0x0a} = {}" for x using escape_string_clean by blast
  then have "set (entry_serialize f) \<inter> {0x2c, 0x0a} = {}"
    unfolding entry_serialize_def escape_stringlist_def by (intro qjoin_clean) auto
  then show ?thesis by auto
qed

lemma entry_serialize_nonempty: "entry_serialize f \<noteq> []"
  using entry_codec.dec_enc [of f] by (auto simp: entry_deserialize_def unescape_stringlist_def unescape_string_def)

section \<open>Properties\<close>

text \<open>
  Escaping is lossless and its output is free of the delimiters: the serialised entry is
  one line of text in which the only colons separate the seven fields.
\<close>

theorem entry_serialization:
  "entry_deserialize (entry_serialize f) = Some f \<and> 0x0a \<notin> set (entry_serialize f) \<and>
   0x2c \<notin> set (entry_serialize f) \<and> length (qsplit 0x3a (entry_serialize f)) = 7"
proof -
  have "unescape_list ss out = Some list \<Longrightarrow> length list = length out + length ss" for ss out list
    by (induction ss arbitrary: out) (auto split: option.splits)
  moreover obtain list where "unescape_list (qsplit 0x3a (entry_serialize f)) [] = Some list" "length list = 7"
    using entry_codec.dec_enc [of f]
    by (auto simp: entry_deserialize_def unescape_stringlist_def split: option.splits if_splits)
  ultimately show ?thesis using entry_codec.dec_enc [of f] entry_serialize_line by fastforce
qed

text \<open>
  C16. An entry survives serialisation: whatever its names contain, deserialising the text of
  an entry gives an entry with the same object, ids and names, provided the provider reads
  back the DER encoding it wrote.
\<close>

theorem keystore_entry_round_trip:
  assumes "kse_serialized e = []"
    and "\<And>c. cert_fromDER (cert_toDER c) = Some c" and "\<And>r. crl_fromDER (crl_toDER r) = Some r"
  shows "\<exists>e' s. kse_serialize uninit uok ucol cert_toDER crl_toDER e = Some (e', s) \<and>
    kse_deserialize uninit uok ucol cert_fromDER crl_fromDER s = Some (Some (e\<lparr>kse_serialized := s\<rparr>))"
proof -
  have ne: "qlatin ''crl'' \<noteq> qlatin ''cert''" by (simp add: qlatin_def)
  show ?thesis
    using assms ne
    by (cases "kse_object e")
      (auto simp: kse_serialize_def kse_deserialize_def arrayToBase64_eq base64ToArray_eq
        entry_codec.dec_enc DefaultKeyStoreEntry_def)
qed

theorem keystore_entry_round_trip_witness:
  "\<exists>e' s. kse_serialize (\<lambda>_. 0) True 0 (\<lambda>c. c) (\<lambda>r. r)
      ((DefaultKeyStoreEntry (TypeCertificate [0x30, 0]) [0x3a] [0x5c])\<lparr>kse_id := [0x2c]\<rparr>) = Some (e', s) \<and>
    kse_deserialize (\<lambda>_. 0) True 0 Some Some s =
      Some (Some ((DefaultKeyStoreEntry (TypeCertificate [0x30, 0]) [0x3a] [0x5c] :: (bytes, bytes) keystore_entry)
        \<lparr>kse_id := [0x2c], kse_serialized := s\<rparr>))"
proof -
  let ?e = "(DefaultKeyStoreEntry (TypeCertificate [0x30, 0]) [0x3a] [0x5c] :: (bytes, bytes) keystore_entry)\<lparr>kse_id := [0x2c]\<rparr>"
  have "kse_serialized ?e = []" by (simp add: DefaultKeyStoreEntry_def)
  from keystore_entry_round_trip [OF this, of Some "\<lambda>c. c" Some "\<lambda>r. r" "\<lambda>_. 0" True 0]
  show ?thesis by simp
qed

text \<open>
  Errors of deserialisation are null results, never partial entries: a text with another
  number of fields, another header, a dangling or unknown escape, an unknown type or data
  the provider rejects gives a null pointer.
\<close>

theorem keystore_entry_rejects:
  assumes "kse_deserialize uninit uok ucol cert_fromDER crl_fromDER s = Some (Some e)"
  shows "\<exists>fs. unescape_stringlist s = Some fs \<and> length fs = 7 \<and> hd fs = qlatin ''qca_def'' \<and>
    fs ! 5 \<in> {qlatin ''cert'', qlatin ''crl''} \<and> kse_storeId e = fs ! 1 \<and> kse_storeName e = fs ! 2 \<and>
    kse_id e = fs ! 3 \<and> kse_name e = fs ! 4 \<and> kse_serialized e = s"
proof -
  obtain f where f: "entry_deserialize s = Some f"
    using assms by (auto simp: kse_deserialize_def split: option.splits)
  then obtain fs where fs: "unescape_stringlist s = Some fs" "length fs = 7" "fs ! 0 = qlatin ''qca_def''"
    "ef_storeId f = fs ! 1" "ef_storeName f = fs ! 2" "ef_entryId f = fs ! 3" "ef_entryName f = fs ! 4"
    "ef_entryType f = fs ! 5"
    by (auto simp: entry_deserialize_def split: option.splits if_splits)
  moreover have "hd fs = fs ! 0" using fs(2) by (intro hd_conv_nth) auto
  ultimately show ?thesis
    using assms f by (auto simp: kse_deserialize_def DefaultKeyStoreEntry_def Let_def
        split: if_splits Option.bind_splits)
qed

theorem keystore_entry_rejects_witness:
  "\<exists>e s. kse_deserialize (\<lambda>_. 0) True 0 Some Some s = Some (Some (e :: (bytes, bytes) keystore_entry)) \<and>
    kse_serialized e = s \<and> kse_storeId e = [0x3a]"
proof -
  let ?f = "\<lparr>ef_storeId = [0x3a], ef_storeName = [], ef_entryId = [], ef_entryName = [],
    ef_entryType = qlatin ''crl'', ef_data = fromLatin1 (b64_text [1])\<rparr>"
  have ne: "qlatin ''crl'' \<noteq> qlatin ''cert''" by (simp add: qlatin_def)
  let ?e = "(DefaultKeyStoreEntry (TypeCRL [1]) [0x3a] [] :: (bytes, bytes) keystore_entry)
    \<lparr>kse_serialized := entry_serialize ?f\<rparr>"
  have d: "kse_deserialize (\<lambda>_. 0) True 0 Some Some (entry_serialize ?f) = Some (Some ?e)"
    using ne by (simp add: kse_deserialize_def entry_codec.dec_enc base64ToArray_eq DefaultKeyStoreEntry_def
        del: b64_text.simps)
  have "kse_storeId ?e = [0x3a]" by (simp add: DefaultKeyStoreEntry_def)
  with keystore_entry_rejects [OF d] d show ?thesis by (intro exI [of _ ?e] exI) auto
qed

end
