(* ===== verification/HashCommon.thy ===== *)
theory HashCommon
  imports MemoryRegion
begin

text \<open>
  Facts shared by the two hash functions of \<^verbatim>\<open>src/qca_default.cpp\<close>: rotations, the two-word
  bit counter with its carry, the division of a message into 64-byte blocks, and the
  padding both algorithms append.
\<close>

section \<open>Rotation\<close>

text \<open>The macros \<^verbatim>\<open>ROTATE_LEFT\<close> and \<^verbatim>\<open>rol\<close>.\<close>

definition rol32 :: "u32 \<Rightarrow> nat \<Rightarrow> u32" where
  "rol32 x n = push_bit n x OR drop_bit (32 - n) x"

lemma rol32_word_rotl: "n < 32 \<Longrightarrow> rol32 x n = word_rotl n x"
proof -
  assume n: "n < 32"
  have "bit (push_bit n x OR drop_bit (32 - n) x) i = bit (word_rotl n x) i" if "i < 32" for i
  proof (cases "n \<le> i")
    case True
    then have "(i + (32 - n)) mod 32 = i - n"
      using n that by (simp add: mod_if)
    moreover have "\<not> bit x (32 - n + i)" using True n by (auto dest: bit_imp_le_length)
    ultimately show ?thesis
      using True that n by (simp add: bit_word_rotl_iff bit_simps)
  next
    case False
    then have "(i + (32 - n)) mod 32 = 32 - n + i" using n by simp
    with False that n show ?thesis by (simp add: bit_word_rotl_iff bit_simps)
  qed
  then show ?thesis unfolding rol32_def by (intro bit_word_eqI) simp
qed

section \<open>The bit counter\<close>

lemma mod_add_less_iff:
  assumes "(a::nat) < M" and "b < M"
  shows "(a + b) mod M < b \<longleftrightarrow> M \<le> a + b"
proof (cases "M \<le> a + b")
  case True
  then have "(a + b) mod M = a + b - M" using assms by (simp add: le_mod_geq)
  with True assms show ?thesis by linarith
qed simp

lemma carry32:
  "(of_nat A + of_nat B :: u32) < of_nat B \<longleftrightarrow> 2 ^ 32 \<le> A mod 2 ^ 32 + B mod 2 ^ 32"
proof -
  have "unat (of_nat A + of_nat B :: u32) = (A + B) mod 2 ^ 32"
    by (simp add: unat_of_nat flip: of_nat_add)
  moreover have "(A + B) mod 2 ^ 32 = (A mod 2 ^ 32 + B mod 2 ^ 32) mod 2 ^ 32"
    by (simp add: mod_add_eq)
  moreover have "unat (of_nat B :: u32) = B mod 2 ^ 32" by (simp add: unat_of_nat)
  ultimately show ?thesis
    unfolding word_less_nat_alt by (simp only:) (rule mod_add_less_iff; simp)
qed

lemma count_high:
  "(of_nat (A div 2 ^ 32) :: u32) + of_nat (B div 2 ^ 32) +
     (if (of_nat A + of_nat B :: u32) < of_nat B then 1 else 0) = of_nat ((A + B) div 2 ^ 32)"
proof -
  have "(A mod 2 ^ 32 + B mod 2 ^ 32) div 2 ^ 32 =
      (if 2 ^ 32 \<le> A mod 2 ^ 32 + B mod 2 ^ 32 then 1 else 0)"
    by (auto simp: div_if)
  then have "(A + B) div 2 ^ 32 =
      A div 2 ^ 32 + B div 2 ^ 32 + (if (of_nat A + of_nat B :: u32) < of_nat B then 1 else 0)"
    unfolding carry32 div_add1_eq [of A B] by simp
  then show ?thesis by simp
qed

lemma count_high_after:
  "(let hi = of_nat (A div 2 ^ 32) + of_nat (B div 2 ^ 32) in
    if (of_nat A + of_nat B :: u32) < of_nat B then hi + 1 else hi) = (of_nat ((A + B) div 2 ^ 32) :: u32)"
  unfolding count_high [symmetric] Let_def by simp

lemma count_high_before:
  "(let hi = of_nat (A div 2 ^ 32) in
    if (of_nat A + of_nat B :: u32) < of_nat B then hi + 1 else hi) + of_nat (B div 2 ^ 32) =
   (of_nat ((A + B) div 2 ^ 32) :: u32)"
  unfolding count_high [symmetric] Let_def by simp

text \<open>The number of bytes already in the buffer.\<close>

lemma count_offset: "unat (drop_bit 3 (of_nat (8 * n) :: u32) AND 63) = n mod 64"
proof -
  have "unat (drop_bit 3 (of_nat (8 * n) :: u32) AND mask 6) = 8 * n mod 2 ^ 32 div 8 mod 64"
    by (simp only: unat_and_mask unat_drop unat_of_nat) simp
  also have "8 * n mod 2 ^ 32 = 8 * (n mod 2 ^ 29)"
    using mult_mod_right [of 8 n "2 ^ 29"] by simp
  also have "8 * (n mod 2 ^ 29) div 8 mod 64 = n mod 64"
    using mod_mod_cancel [of 64 "2 ^ 29" n] by simp
  finally show ?thesis by (simp add: mask_eq_exp_minus_1)
qed

section \<open>Blocks\<close>

lemma chunks_of_rest_append:
  assumes "0 < c"
  shows "chunks_of c (xs @ ys) = chunks_of c xs @ chunks_of c (rest c xs @ ys)"
proof -
  have w: "length (whole c xs) mod c = 0" by (simp add: length_whole)
  have "chunks_of c (xs @ ys) = chunks_of c (whole c xs @ rest c xs @ ys)"
    by (metis append_assoc whole_rest)
  also have "\<dots> = chunks_of c (whole c xs) @ chunks_of c (rest c xs @ ys)"
    by (rule chunks_of_append [OF assms w])
  also have "chunks_of c (whole c xs) = chunks_of c (whole c xs @ rest c xs)"
    using chunks_of_append [OF assms w, of "rest c xs"] assms by (simp del: whole_rest)
  finally show ?thesis by simp
qed

lemma rest_block: "0 < c \<Longrightarrow> length b = c \<Longrightarrow> rest c (b @ y) = rest c y"
  using whole_rest_append(2) [of c b y] by (simp add: rest_def [of c b])

text \<open>The state of an iterated hash after a message.\<close>

definition absorb :: "('h \<Rightarrow> 'a list \<Rightarrow> 'h) \<Rightarrow> 'h \<Rightarrow> 'a list \<Rightarrow> 'h" where
  "absorb f iv m = foldl f iv (chunks_of 64 m)"

lemma absorb_Nil [simp]: "absorb f iv [] = iv"
  by (simp add: absorb_def)

lemma absorb_short: "length m < 64 \<Longrightarrow> absorb f iv m = iv"
  by (simp add: absorb_def)

lemma absorb_block: "length b = 64 \<Longrightarrow> absorb f iv (b @ m) = absorb f (f iv b) m"
  by (simp add: absorb_def chunks_of_block)

lemma absorb_append: "absorb f iv (m @ x) = absorb f (absorb f iv m) (rest 64 m @ x)"
  by (simp add: absorb_def chunks_of_rest_append [of 64 m x])

section \<open>Padding\<close>

text \<open>
  A one bit, zeros up to 56 bytes modulo 64, and the length of the message in bits, reduced
  modulo 2 to the 64, in the byte order \<open>ord\<close> of the algorithm (least significant first in
  MD5, most significant first in SHA-1).
\<close>

definition len_bytes :: "nat \<Rightarrow> bytes" where
  "len_bytes n = map (\<lambda>i. of_nat (8 * n div 256 ^ i)) [0..<8]"

definition pad_zeros :: "nat \<Rightarrow> nat" where
  "pad_zeros n = (119 - n mod 64) mod 64"

definition md_pad :: "(bytes \<Rightarrow> bytes) \<Rightarrow> bytes \<Rightarrow> bytes" where
  "md_pad ord m = m @ 0x80 # replicate (pad_zeros (length m)) 0 @ ord (len_bytes (length m))"

lemma pad_zeros_56: "(n + 1 + pad_zeros n) mod 64 = 56"
proof -
  define q r where "q = n div 64" and "r = n mod 64"
  have n: "n = r + q * 64" and r: "r < 64" by (simp_all add: q_def r_def)
  have "n + 1 + pad_zeros n = (if r \<le> 55 then 56 + q * 64 else 56 + (q + 1) * 64)"
  proof (cases "r \<le> 55")
    case True
    then have "119 - r = (55 - r) + 64" by simp
    then have "pad_zeros n = 55 - r"
      unfolding pad_zeros_def r_def [symmetric] by (simp only: mod_add_self2) simp
    with True n show ?thesis by simp
  next
    case False
    then have "pad_zeros n = 119 - r"
      unfolding pad_zeros_def r_def [symmetric] by simp
    with False n r show ?thesis by simp
  qed
  also have "\<dots> mod 64 = 56" unfolding if_distrib [of "\<lambda>x. x mod 64"] mod_mult_self1 by simp
  finally show ?thesis .
qed

lemma length_md_pad:
  assumes "\<And>x. length (ord x) = length x"
  shows "length (md_pad ord m) mod 64 = 0"
proof -
  have "length (md_pad ord m) = (length m + 1 + pad_zeros (length m)) + 8"
    by (simp add: md_pad_def assms len_bytes_def)
  then show ?thesis
    using pad_zeros_56 [of "length m"] mod_add_left_eq [of "length m + 1 + pad_zeros (length m)" 64 8]
    by simp
qed

section \<open>Words and bytes\<close>

lemma word_byte:
  assumes "8 * k + 8 \<le> 32"
  shows "ucast (drop_bit (8 * k) (of_nat N :: u32)) = (of_nat (N div 256 ^ k) :: byte)"
proof -
  have e: "(256::nat) ^ k = 2 ^ (8 * k)" by (simp add: power_mult)
  show ?thesis
    using assms unfolding e drop_bit_eq_div [symmetric] by (intro bit_word_eqI) (auto simp: bit_simps)
qed

section \<open>Hash contexts\<close>

text \<open>\<^verbatim>\<open>update\<close> called on a list of regions.\<close>

fun hash_run :: "('h \<Rightarrow> memory_region \<Rightarrow> 'h option) \<Rightarrow> 'h \<Rightarrow> memory_region list \<Rightarrow> 'h option" where
  "hash_run upd h [] = Some h"
| "hash_run upd h (r # rs) = Option.bind (upd h r) (\<lambda>h. hash_run upd h rs)"

lemma secure_fill:
  assumes "length x = n"
  shows "\<exists>r. data_write (region_size (int n) True) 0 x = Some r \<and> region_inv r \<and> secure r \<and> content r = x"
proof -
  let ?b = "region_size (int n) True"
  have b: "region_inv ?b" "length (content ?b) = n" "secure ?b"
    using region_size_inv [of "int n" True] Private_size_inv [of "int n" True]
    by (simp_all add: region_size_def content_def)
  obtain r where "data_write ?b 0 x = Some r" "region_inv r" "secure r = secure ?b"
    "content r = take 0 (content ?b) @ x @ drop (0 + length x) (content ?b)"
    by (rule data_write_in [OF b(1), of 0 x]) (simp add: b(2) assms)
  with b(2,3) assms show ?thesis by auto
qed

definition hash_input :: "memory_region \<Rightarrow> bool" where
  "hash_input r \<longleftrightarrow> region_inv r \<and> size_of r \<le> INT_MAX - 63"

end
