(* ===== verification/Md5.thy ===== *)
theory Md5
  imports HashCommon
begin

text \<open>
  The MD5 implementation of \<^verbatim>\<open>src/qca_default.cpp\<close> and \<^verbatim>\<open>DefaultMD5Context\<close>.

  \<^verbatim>\<open>md5_process\<close> reads the block as sixteen little-endian words; its three ways of doing so
  (byte by byte on big-endian hosts, in place or through \<^verbatim>\<open>memcpy\<close> on little-endian ones)
  give the same words, which is what \<open>md5_words\<close> computes.  The working variables are kept
  in the order in which the next \<^verbatim>\<open>SET\<close> names them, so that one \<^verbatim>\<open>SET\<close> is \<open>md5_SET\<close> and the
  sixteen of a round are a list of their last three arguments.

  \<^verbatim>\<open>int\<close> shifts are taken modulo 2 to the 32; the addition \<^verbatim>\<open>offset + nbytes\<close> is \<open>None\<close> when it
  leaves the range of \<^verbatim>\<open>int\<close>.
\<close>

section \<open>Model\<close>

record md5_state =
  md5_count0 :: u32
  md5_count1 :: u32
  md5_abcd :: "u32 \<times> u32 \<times> u32 \<times> u32"
  md5_buf :: bytes

definition md5_state_t :: md5_state where
  "md5_state_t = \<lparr>md5_count0 = 0, md5_count1 = 0, md5_abcd = (0, 0, 0, 0), md5_buf = replicate 64 0\<rparr>"

definition T_MASK :: u32 where "T_MASK = NOT 0"

definition T_table :: "u32 list" where
  "T_table =
     [T_MASK XOR 0x28955b87, T_MASK XOR 0x173848a9, 0x242070db, T_MASK XOR 0x3e423111,
      T_MASK XOR 0x0a83f050, 0x4787c62a, T_MASK XOR 0x57cfb9ec, T_MASK XOR 0x02b96afe,
      0x698098d8, T_MASK XOR 0x74bb0850, T_MASK XOR 0x0000a44e, T_MASK XOR 0x76a32841,
      0x6b901122, T_MASK XOR 0x02678e6c, T_MASK XOR 0x5986bc71, 0x49b40821,
      T_MASK XOR 0x09e1da9d, T_MASK XOR 0x3fbf4cbf, 0x265e5a51, T_MASK XOR 0x16493855,
      T_MASK XOR 0x29d0efa2, 0x02441453, T_MASK XOR 0x275e197e, T_MASK XOR 0x182c0437,
      0x21e1cde6, T_MASK XOR 0x3cc8f829, T_MASK XOR 0x0b2af278, 0x455a14ed,
      T_MASK XOR 0x561c16fa, T_MASK XOR 0x03105c07, 0x676f02d9, T_MASK XOR 0x72d5b375,
      T_MASK XOR 0x0005c6bd, T_MASK XOR 0x788e097e, 0x6d9d6122, T_MASK XOR 0x021ac7f3,
      T_MASK XOR 0x5b4115bb, 0x4bdecfa9, T_MASK XOR 0x0944b49f, T_MASK XOR 0x4140438f,
      0x289b7ec6, T_MASK XOR 0x155ed805, T_MASK XOR 0x2b10cf7a, 0x04881d05,
      T_MASK XOR 0x262b2fc6, T_MASK XOR 0x1924661a, 0x1fa27cf8, T_MASK XOR 0x3b53a99a,
      T_MASK XOR 0x0bd6ddbb, 0x432aff97, T_MASK XOR 0x546bdc58, T_MASK XOR 0x036c5fc6,
      0x655b59c3, T_MASK XOR 0x70f3336d, T_MASK XOR 0x00100b82, T_MASK XOR 0x7a7ba22e,
      0x6fa87e4f, T_MASK XOR 0x01d3191f, T_MASK XOR 0x5cfebceb, 0x4e0811a1,
      T_MASK XOR 0x08ac817d, T_MASK XOR 0x42c50dca, 0x2ad7d2bb, T_MASK XOR 0x14792c6e]"

definition round1 :: "(nat \<times> nat \<times> nat) list" where
  "round1 =
     [(0, 7, 1), (1, 12, 2), (2, 17, 3), (3, 22, 4),
      (4, 7, 5), (5, 12, 6), (6, 17, 7), (7, 22, 8),
      (8, 7, 9), (9, 12, 10), (10, 17, 11), (11, 22, 12),
      (12, 7, 13), (13, 12, 14), (14, 17, 15), (15, 22, 16)]"

definition round2 :: "(nat \<times> nat \<times> nat) list" where
  "round2 =
     [(1, 5, 17), (6, 9, 18), (11, 14, 19), (0, 20, 20),
      (5, 5, 21), (10, 9, 22), (15, 14, 23), (4, 20, 24),
      (9, 5, 25), (14, 9, 26), (3, 14, 27), (8, 20, 28),
      (13, 5, 29), (2, 9, 30), (7, 14, 31), (12, 20, 32)]"

definition round3 :: "(nat \<times> nat \<times> nat) list" where
  "round3 =
     [(5, 4, 33), (8, 11, 34), (11, 16, 35), (14, 23, 36),
      (1, 4, 37), (4, 11, 38), (7, 16, 39), (10, 23, 40),
      (13, 4, 41), (0, 11, 42), (3, 16, 43), (6, 23, 44),
      (9, 4, 45), (12, 11, 46), (15, 16, 47), (2, 23, 48)]"

definition round4 :: "(nat \<times> nat \<times> nat) list" where
  "round4 =
     [(0, 6, 49), (7, 10, 50), (14, 15, 51), (5, 21, 52),
      (12, 6, 53), (3, 10, 54), (10, 15, 55), (1, 21, 56),
      (8, 6, 57), (15, 10, 58), (6, 15, 59), (13, 21, 60),
      (4, 6, 61), (11, 10, 62), (2, 15, 63), (9, 21, 64)]"

definition md5_T :: "nat \<Rightarrow> u32" where "md5_T i = T_table ! (i - 1)"

definition md5_F :: "u32 \<Rightarrow> u32 \<Rightarrow> u32 \<Rightarrow> u32" where "md5_F x y z = (x AND y) OR (NOT x AND z)"
definition md5_G :: "u32 \<Rightarrow> u32 \<Rightarrow> u32 \<Rightarrow> u32" where "md5_G x y z = (x AND z) OR (y AND NOT z)"
definition md5_H :: "u32 \<Rightarrow> u32 \<Rightarrow> u32 \<Rightarrow> u32" where "md5_H x y z = x XOR y XOR z"
definition md5_I :: "u32 \<Rightarrow> u32 \<Rightarrow> u32 \<Rightarrow> u32" where "md5_I x y z = y XOR (x OR NOT z)"

type_synonym md5_regs = "u32 \<times> u32 \<times> u32 \<times> u32"

fun md5_SET :: "(u32 \<Rightarrow> u32 \<Rightarrow> u32 \<Rightarrow> u32) \<Rightarrow> u32 list \<Rightarrow> md5_regs \<Rightarrow> nat \<times> nat \<times> nat \<Rightarrow> md5_regs" where
  "md5_SET f X (a, b, c, d) (k, s, i) =
     (let t = a + f b c d + X ! k + md5_T i; a = rol32 t s + b in (d, a, b, c))"

definition md5_word :: "bytes \<Rightarrow> nat \<Rightarrow> u32" where
  "md5_word xp i =
     ucast (xp ! (4 * i)) + push_bit 8 (ucast (xp ! (4 * i + 1))) +
     push_bit 16 (ucast (xp ! (4 * i + 2))) + push_bit 24 (ucast (xp ! (4 * i + 3)))"

definition md5_words :: "bytes \<Rightarrow> u32 list" where
  "md5_words data = map (md5_word data) [0..<16]"

definition md5_rounds :: "md5_regs \<Rightarrow> bytes \<Rightarrow> md5_regs" where
  "md5_rounds abcd data =
     (let X = md5_words data;
          r = foldl (md5_SET md5_F X) abcd round1;
          r = foldl (md5_SET md5_G X) r round2;
          r = foldl (md5_SET md5_H X) r round3
      in foldl (md5_SET md5_I X) r round4)"

definition md5_process :: "md5_state \<Rightarrow> bytes \<Rightarrow> md5_state" where
  "md5_process pms data =
     (let (a, b, c, d) = md5_rounds (md5_abcd pms) data;
          (a0, b0, c0, d0) = md5_abcd pms
      in pms\<lparr>md5_abcd := (a0 + a, b0 + b, c0 + c, d0 + d)\<rparr>)"

definition md5_init :: "md5_state \<Rightarrow> md5_state" where
  "md5_init pms =
     pms\<lparr>md5_count0 := 0, md5_count1 := 0,
         md5_abcd := (0x67452301, T_MASK XOR 0x10325476, T_MASK XOR 0x67452301, 0x10325476)\<rparr>"

text \<open>The last two steps of \<^verbatim>\<open>md5_append\<close>: full blocks from \<open>p\<close> on, then a partial block.\<close>

function md5_full_blocks :: "md5_state \<Rightarrow> bytes \<Rightarrow> nat \<Rightarrow> nat \<Rightarrow> md5_state option" where
  "md5_full_blocks pms data p left =
     (if left \<ge> 64 then
        do {
          block \<leftarrow> mem_slice data p 64;
          md5_full_blocks (md5_process pms block) data (p + 64) (left - 64)
        }
      else if left \<noteq> 0 then
        do {
          src \<leftarrow> mem_slice data p left;
          buf \<leftarrow> memcpy_at (md5_buf pms) 0 src;
          Some (pms\<lparr>md5_buf := buf\<rparr>)
        }
      else Some pms)"
  by pat_completeness auto
termination
  by (relation "measure (\<lambda>(pms, data, p, left). left)") auto

declare md5_full_blocks.simps [simp del]

text \<open>The initial partial block: \<open>copy\<close> bytes complete the buffer, or do not.\<close>

definition md5_partial_block ::
    "md5_state \<Rightarrow> bytes \<Rightarrow> nat \<Rightarrow> nat \<Rightarrow> int \<Rightarrow> md5_state option" where
  "md5_partial_block pms data offset copy nbytes =
     do {
       src \<leftarrow> mem_slice data 0 copy;
       buf \<leftarrow> memcpy_at (md5_buf pms) offset src;
       let pms = pms\<lparr>md5_buf := buf\<rparr>;
       if offset + copy < 64 then Some pms
       else md5_full_blocks (md5_process pms buf) data copy (nat nbytes - copy)
     }"

definition md5_count :: "md5_state \<Rightarrow> int \<Rightarrow> md5_state" where
  "md5_count pms nbytes =
     (let nbits = word_of_int (nbytes * 8);
          count1 = md5_count1 pms + word_of_int (nbytes div 2 ^ 29);
          count0 = md5_count0 pms + nbits;
          count1 = (if count0 < nbits then count1 + 1 else count1)
      in pms\<lparr>md5_count0 := count0, md5_count1 := count1\<rparr>)"

definition md5_append :: "md5_state \<Rightarrow> bytes \<Rightarrow> int \<Rightarrow> md5_state option" where
  "md5_append pms data nbytes =
     (let offset = unat (drop_bit 3 (md5_count0 pms) AND 63) in
      if nbytes \<le> 0 then Some pms
      else
        let pms = md5_count pms nbytes in
        if offset \<noteq> 0 then
          do {
            total \<leftarrow> add_int32 (int offset) nbytes;
            md5_partial_block pms data offset (if total > 64 then 64 - offset else nat nbytes) nbytes
          }
        else md5_full_blocks pms data 0 (nat nbytes))"

definition md5_pad :: bytes where
  "md5_pad = 0x80 # replicate 63 0"

definition md5_finish :: "md5_state \<Rightarrow> (md5_state \<times> bytes) option" where
  "md5_finish pms =
     do {
       let data = map (\<lambda>i. ucast (drop_bit (8 * (i mod 4))
                    (if i div 4 = 0 then md5_count0 pms else md5_count1 pms))) [0..<8];
       pms \<leftarrow> md5_append pms md5_pad (int (unat ((55 - drop_bit 3 (md5_count0 pms)) AND 63)) + 1);
       pms \<leftarrow> md5_append pms data 8;
       let (a, b, c, d) = md5_abcd pms;
       Some (pms, map (\<lambda>i. ucast (drop_bit (8 * (i mod 4)) ([a, b, c, d] ! (i div 4)))) [0..<16])
     }"

subsection \<open>DefaultMD5Context\<close>

record md5_context =
  md5_secure :: bool
  md5_st :: md5_state

definition md5_clear :: "md5_context \<Rightarrow> md5_context" where
  "md5_clear h = h\<lparr>md5_secure := True, md5_st := md5_init (md5_st h)\<rparr>"

definition DefaultMD5Context :: "bool \<Rightarrow> md5_context" where
  "DefaultMD5Context uninit_secure = md5_clear \<lparr>md5_secure = uninit_secure, md5_st = md5_state_t\<rparr>"

definition md5_update :: "md5_context \<Rightarrow> memory_region \<Rightarrow> md5_context option" where
  "md5_update h inp =
     do {
       let h = (if \<not> secure inp then h\<lparr>md5_secure := False\<rparr> else h);
       data \<leftarrow> data_read inp 0 (nat (size_of inp));
       s \<leftarrow> md5_append (md5_st h) data (size_of inp);
       Some (h\<lparr>md5_st := s\<rparr>)
     }"

definition md5_final :: "md5_context \<Rightarrow> (md5_context \<times> memory_region) option" where
  "md5_final h =
     (if md5_secure h then
        do {
          b \<leftarrow> SecureArray_size 16 0;
          (s, digest) \<leftarrow> md5_finish (md5_st h);
          b \<leftarrow> data_write b 0 digest;
          Some (h\<lparr>md5_st := s\<rparr>, b)
        }
      else
        do {
          let b = replicate 16 0;
          (s, digest) \<leftarrow> md5_finish (md5_st h);
          b \<leftarrow> memcpy_at b 0 digest;
          r \<leftarrow> region_bytes b False;
          Some (h\<lparr>md5_st := s\<rparr>, r)
        })"

section \<open>Specification\<close>

text \<open>
  RFC 1321.  The constants are the integer parts of 2 to the 32 times the absolute values
  of the sines of 1 to 64.
\<close>

definition md5_K :: "u32 list" where
  "md5_K =
     [0xd76aa478, 0xe8c7b756, 0x242070db, 0xc1bdceee, 0xf57c0faf, 0x4787c62a, 0xa8304613, 0xfd469501,
      0x698098d8, 0x8b44f7af, 0xffff5bb1, 0x895cd7be, 0x6b901122, 0xfd987193, 0xa679438e, 0x49b40821,
      0xf61e2562, 0xc040b340, 0x265e5a51, 0xe9b6c7aa, 0xd62f105d, 0x02441453, 0xd8a1e681, 0xe7d3fbc8,
      0x21e1cde6, 0xc33707d6, 0xf4d50d87, 0x455a14ed, 0xa9e3e905, 0xfcefa3f8, 0x676f02d9, 0x8d2a4c8a,
      0xfffa3942, 0x8771f681, 0x6d9d6122, 0xfde5380c, 0xa4beea44, 0x4bdecfa9, 0xf6bb4b60, 0xbebfbc70,
      0x289b7ec6, 0xeaa127fa, 0xd4ef3085, 0x04881d05, 0xd9d4d039, 0xe6db99e5, 0x1fa27cf8, 0xc4ac5665,
      0xf4292244, 0x432aff97, 0xab9423a7, 0xfc93a039, 0x655b59c3, 0x8f0ccc92, 0xffeff47d, 0x85845dd1,
      0x6fa87e4f, 0xfe2ce6e0, 0xa3014314, 0x4e0811a1, 0xf7537e82, 0xbd3af235, 0x2ad7d2bb, 0xeb86d391]"

definition md5_f :: "nat \<Rightarrow> u32 \<Rightarrow> u32 \<Rightarrow> u32 \<Rightarrow> u32" where
  "md5_f i x y z =
     (if i < 16 then (x AND y) OR (NOT x AND z)
      else if i < 32 then (x AND z) OR (y AND NOT z)
      else if i < 48 then x XOR y XOR z
      else y XOR (x OR NOT z))"

definition md5_index :: "nat \<Rightarrow> nat" where
  "md5_index i =
     (if i < 16 then i else if i < 32 then (5 * i + 1) mod 16
      else if i < 48 then (3 * i + 5) mod 16 else 7 * i mod 16)"

definition md5_shift :: "nat \<Rightarrow> nat" where
  "md5_shift i = [[7, 12, 17, 22], [5, 9, 14, 20], [4, 11, 16, 23], [6, 10, 15, 21]] ! (i div 16) ! (i mod 4)"

fun md5_op :: "u32 list \<Rightarrow> md5_regs \<Rightarrow> nat \<Rightarrow> md5_regs" where
  "md5_op X (a, b, c, d) i =
     (d, b + word_rotl (md5_shift i) (a + md5_f i b c d + X ! md5_index i + md5_K ! i), b, c)"

definition md5_compress :: "md5_regs \<Rightarrow> bytes \<Rightarrow> md5_regs" where
  "md5_compress abcd block =
     (let (a, b, c, d) = foldl (md5_op (md5_words block)) abcd [0..<64]; (a0, b0, c0, d0) = abcd
      in (a0 + a, b0 + b, c0 + c, d0 + d))"

definition md5_IV :: md5_regs where
  "md5_IV = (0x67452301, 0xefcdab89, 0x98badcfe, 0x10325476)"

definition le_bytes :: "u32 \<Rightarrow> bytes" where
  "le_bytes w = map (\<lambda>i. ucast (drop_bit (8 * i) w)) [0..<4]"

definition md5_spec :: "bytes \<Rightarrow> bytes" where
  "md5_spec m =
     (let (a, b, c, d) = absorb md5_compress md5_IV (md_pad id m)
      in le_bytes a @ le_bytes b @ le_bytes c @ le_bytes d)"

section \<open>Lemmas\<close>

lemma T_table_K: "T_table = md5_K"
  by (simp add: T_table_def md5_K_def T_MASK_def)

lemma rounds_table:
  "round1 = map (\<lambda>i. (md5_index i, md5_shift i, Suc i)) [0..<16]"
  "round2 = map (\<lambda>i. (md5_index i, md5_shift i, Suc i)) [16..<32]"
  "round3 = map (\<lambda>i. (md5_index i, md5_shift i, Suc i)) [32..<48]"
  "round4 = map (\<lambda>i. (md5_index i, md5_shift i, Suc i)) [48..<64]"
  by (simp_all add: round1_def round2_def round3_def round4_def upt_rec md5_index_def md5_shift_def)

lemma md5_shift_less: "i < 64 \<Longrightarrow> md5_shift i < 32"
proof -
  have "list_all (\<lambda>i. md5_shift i < 32) [0..<64]"
    by (simp add: upt_rec md5_shift_def)
  then show "i < 64 \<Longrightarrow> ?thesis" by (simp add: list_all_iff)
qed

lemma md5_SET_op:
  assumes "i < 64" and "f = md5_f i"
  shows "md5_SET f X r (md5_index i, md5_shift i, Suc i) = md5_op X r i"
  using assms by (cases r) (simp add: Let_def rol32_word_rotl md5_shift_less md5_T_def T_table_K add.commute)

lemma foldl_map_cong:
  "(\<And>s i. i \<in> set xs \<Longrightarrow> f s (h i) = g s i) \<Longrightarrow> foldl f s (map h xs) = foldl g s xs"
  by (induction xs arbitrary: s) auto

lemma md5_rounds_ops: "md5_rounds abcd block = foldl (md5_op (md5_words block)) abcd [0..<64]"
proof -
  let ?X = "md5_words block" and ?h = "\<lambda>i. (md5_index i, md5_shift i, Suc i)"
  have "[0..<64] = [0..<16] @ [16..<32] @ [32..<48] @ [48..<64]"
    by (simp add: upt_rec)
  moreover have "foldl (md5_SET md5_F ?X) r (map ?h [0..<16]) = foldl (md5_op ?X) r [0..<16]" for r
    by (rule foldl_map_cong) (auto intro!: md5_SET_op simp: md5_f_def md5_F_def fun_eq_iff)
  moreover have "foldl (md5_SET md5_G ?X) r (map ?h [16..<32]) = foldl (md5_op ?X) r [16..<32]" for r
    by (rule foldl_map_cong) (auto intro!: md5_SET_op simp: md5_f_def md5_G_def fun_eq_iff)
  moreover have "foldl (md5_SET md5_H ?X) r (map ?h [32..<48]) = foldl (md5_op ?X) r [32..<48]" for r
    by (rule foldl_map_cong) (auto intro!: md5_SET_op simp: md5_f_def md5_H_def fun_eq_iff)
  moreover have "foldl (md5_SET md5_I ?X) r (map ?h [48..<64]) = foldl (md5_op ?X) r [48..<64]" for r
    by (rule foldl_map_cong) (auto intro!: md5_SET_op simp: md5_f_def md5_I_def fun_eq_iff)
  ultimately show ?thesis by (simp only: md5_rounds_def Let_def rounds_table foldl_append)
qed

lemma md5_process_compress: "md5_process pms block = pms\<lparr>md5_abcd := md5_compress (md5_abcd pms) block\<rparr>"
  by (simp add: md5_process_def md5_compress_def md5_rounds_ops Let_def split: prod.splits)

text \<open>\<open>md5_rep pms m\<close>: the state \<open>pms\<close> has read the message \<open>m\<close>.\<close>

definition md5_rep :: "md5_state \<Rightarrow> bytes \<Rightarrow> bool" where
  "md5_rep pms m \<longleftrightarrow>
     md5_count0 pms = of_nat (8 * length m) \<and> md5_count1 pms = of_nat (8 * length m div 2 ^ 32) \<and>
     md5_abcd pms = absorb md5_compress md5_IV m \<and> length (md5_buf pms) = 64 \<and>
     take (length m mod 64) (md5_buf pms) = rest 64 m"

lemma md5_count_rep:
  assumes "md5_count0 pms = of_nat (8 * l)" and "md5_count1 pms = of_nat (8 * l div 2 ^ 32)"
  shows "md5_count pms (int n) =
    pms\<lparr>md5_count0 := of_nat (8 * (l + n)), md5_count1 := of_nat (8 * (l + n) div 2 ^ 32)\<rparr>"
proof -
  have w: "word_of_int (int n * 8) = (of_nat (8 * n) :: u32)" by (simp add: mult.commute)
  have "8 * n div 2 ^ 32 = n div 2 ^ 29"
    using div_mult_mult1 [of 8 n "2 ^ 29"] by simp
  then have h: "word_of_int (int n div 2 ^ 29) = (of_nat (8 * n div 2 ^ 32) :: u32)"
    using zdiv_int [of n "2 ^ 29"] by (metis of_int_of_nat_eq of_nat_numeral of_nat_power)
  have s: "8 * l + 8 * n = 8 * (l + n)" by simp
  show ?thesis
    using count_high_after [of "8 * l" "8 * n"] of_nat_add [where 'a = "32 word", of "8 * l" "8 * n"]
    unfolding md5_count_def w h assms Let_def s by (simp only:)
qed

lemma md5_full_blocks_absorb:
  assumes "p + left \<le> length data" and "length (md5_buf pms) = 64"
  defines "y \<equiv> take left (drop p data)"
  shows "\<exists>buf. md5_full_blocks pms data p left =
      Some (pms\<lparr>md5_abcd := absorb md5_compress (md5_abcd pms) y, md5_buf := buf\<rparr>) \<and>
    length buf = 64 \<and> take (left mod 64) buf = rest 64 y"
  using assms(1,2) unfolding y_def
proof (induction pms data p left rule: md5_full_blocks.induct)
  case (1 pms data p left)
  let ?y = "take left (drop p data)"
  show ?case
  proof (cases "left \<ge> 64")
    case True
    let ?b = "take 64 (drop p data)" and ?z = "take (left - 64) (drop (p + 64) data)"
    have y: "?y = ?b @ ?z"
      using True take_add [of 64 "left - 64" "drop p data"] by (simp add: add.commute)
    have b: "mem_slice data p 64 = Some ?b" "length ?b = 64"
      using True "1.prems"(1) by (auto simp: mem_slice_def)
    have len: "left mod 64 = (left - 64) mod 64" using True by (simp add: le_mod_geq)
    have r: "rest 64 ?y = rest 64 ?z"
      using True "1.prems"(1) b(2) by (simp add: y rest_def le_div_geq)
    have "\<exists>buf. md5_full_blocks (md5_process pms ?b) data (p + 64) (left - 64) =
        Some ((md5_process pms ?b)\<lparr>md5_abcd := absorb md5_compress (md5_abcd (md5_process pms ?b)) ?z,
          md5_buf := buf\<rparr>) \<and> length buf = 64 \<and> take ((left - 64) mod 64) buf = rest 64 ?z"
      using True "1.prems" b(1) by (intro "1.IH") (auto simp: md5_process_compress)
    then show ?thesis
      using True by (subst md5_full_blocks.simps)
        (simp only: b(1) md5_process_compress y absorb_block [OF b(2)] len r [unfolded y], simp)
  next
    case False
    then have s: "length ?y < 64" "length ?y = left" using "1.prems"(1) by auto
    have "memcpy_at (md5_buf pms) 0 ?y = Some (?y @ drop left (md5_buf pms))"
      using "1.prems" s by (simp add: memcpy_at_in)
    moreover have "mem_slice data p left = Some ?y"
      using "1.prems"(1) by (simp add: mem_slice_in)
    ultimately have "md5_full_blocks pms data p left =
        Some (pms\<lparr>md5_buf := (if left = 0 then md5_buf pms else ?y @ drop left (md5_buf pms))\<rparr>)"
      using False by (subst md5_full_blocks.simps) simp
    moreover have "absorb md5_compress (md5_abcd pms) ?y = md5_abcd pms" using s by (simp add: absorb_short)
    ultimately show ?thesis
      using False s "1.prems"(2)
      by (intro exI [of _ "if left = 0 then md5_buf pms else ?y @ drop left (md5_buf pms)"])
        (simp add: rest_short)
  qed
qed

lemma md5_rep_advance:
  assumes "md5_rep pms m" and "length buf = 64"
    and "take (length (m @ x) mod 64) buf = rest 64 (m @ x)"
  shows "md5_rep ((md5_count pms (int (length x)))\<lparr>md5_abcd := absorb md5_compress md5_IV (m @ x),
    md5_buf := buf\<rparr>) (m @ x)"
  using assms md5_count_rep [of pms "length m" "length x"] by (simp add: md5_rep_def)

text \<open>Appending \<open>x\<close>, the first \<open>n\<close> bytes of \<open>data\<close>, to a state with a partial block.\<close>

lemma md5_partial_block_rep:
  assumes rep: "md5_rep pms m" and n: "n \<le> length data" and nz: "length m mod 64 \<noteq> 0"
  defines "copy \<equiv> if 64 < int (length m mod 64) + int n then 64 - length m mod 64 else n"
  shows "\<exists>pms'. md5_partial_block (md5_count pms (int n)) data (length m mod 64) copy (int n) = Some pms' \<and>
    md5_rep pms' (m @ take n data)"
proof -
  let ?x = "take n data" and ?o = "length m mod 64" and ?p = "md5_count pms (int n)"
  have buf: "length (md5_buf ?p) = 64" "take ?o (md5_buf ?p) = rest 64 m"
    "md5_abcd ?p = absorb md5_compress md5_IV m"
    using rep by (auto simp: md5_rep_def md5_count_def Let_def)
  have x: "length ?x = n" using n by simp
  have ab: "absorb md5_compress md5_IV (m @ ?x) = absorb md5_compress (md5_abcd ?p) (rest 64 m @ ?x)"
    unfolding buf(3) by (rule absorb_append)
  have re: "rest 64 (m @ ?x) = rest 64 (rest 64 m @ ?x)" by (rule whole_rest_append) simp
  have o64: "?o < 64" by simp
  have c: "copy \<le> n" "?o + copy \<le> 64" using o64 unfolding copy_def by auto
  let ?b = "rest 64 m @ take copy data @ drop (?o + copy) (md5_buf ?p)"
  have "mem_slice data 0 copy = Some (take copy data)" using c n by (simp add: mem_slice_in)
  moreover have "memcpy_at (md5_buf ?p) ?o (take copy data) = Some ?b"
    using c n buf by (simp add: memcpy_at_in)
  ultimately have start: "md5_partial_block ?p data ?o copy (int n) =
      (if ?o + copy < 64 then Some (?p\<lparr>md5_buf := ?b\<rparr>)
       else md5_full_blocks (md5_process (?p\<lparr>md5_buf := ?b\<rparr>) ?b) data copy (n - copy))"
    by (simp add: md5_partial_block_def Let_def)
  have lb: "length ?b = 64" using c n buf by simp
  show ?thesis
  proof (cases "?o + copy < 64")
    case True
    then have cn: "copy = n" unfolding copy_def by (auto split: if_splits)
    have sh: "length (rest 64 m @ ?x) < 64" using True cn x by simp
    have "length (m @ ?x) mod 64 = ?o + n"
      using True cn x by (simp add: mod_add_left_eq [of "length m" 64 n, symmetric])
    then have tk: "take (length (m @ ?x) mod 64) ?b = rest 64 (m @ ?x)"
      using cn n re rest_short [OF sh] by simp
    have "absorb md5_compress md5_IV (m @ ?x) = md5_abcd ?p" using ab absorb_short [OF sh] by simp
    from md5_rep_advance [OF rep lb tk, unfolded this] have "md5_rep (?p\<lparr>md5_buf := ?b\<rparr>) (m @ ?x)"
      using x by simp
    with True start show ?thesis by simp
  next
    case False
    then have oc: "?o + copy = 64" using c by simp
    let ?y = "take (n - copy) (drop copy data)" and ?q = "md5_process (?p\<lparr>md5_buf := ?b\<rparr>) ?b"
    have y: "rest 64 m @ ?x = ?b @ ?y"
      using c oc buf take_add [of copy "n - copy" data] by simp
    obtain b' where b': "md5_full_blocks ?q data copy (n - copy) =
        Some (?q\<lparr>md5_abcd := absorb md5_compress (md5_abcd ?q) ?y, md5_buf := b'\<rparr>)"
      "length b' = 64" "take ((n - copy) mod 64) b' = rest 64 ?y"
      using md5_full_blocks_absorb [of copy "n - copy" data ?q] c n lb
      by (auto simp: md5_process_compress)
    have "(?o + n) mod 64 = (64 + (n - copy)) mod 64" using oc c by (intro arg_cong [of _ _ "\<lambda>i. i mod 64"]) simp
    then have "length (m @ ?x) mod 64 = (n - copy) mod 64"
      using x by (simp only: length_append mod_add_left_eq mod_add_self1)
    then have tk: "take (length (m @ ?x) mod 64) b' = rest 64 (m @ ?x)"
      unfolding re y using b'(3) rest_block [OF _ lb, of ?y] by (simp only: zero_less_numeral)
    have A: "absorb md5_compress md5_IV (m @ ?x) = absorb md5_compress (md5_abcd ?q) ?y"
      unfolding ab y absorb_block [OF lb] by (simp add: md5_process_compress)
    have "?q\<lparr>md5_abcd := z, md5_buf := b'\<rparr> = ?p\<lparr>md5_abcd := z, md5_buf := b'\<rparr>" for z
      by (simp add: md5_process_compress)
    with b'(1) md5_rep_advance [OF rep b'(2) tk] have "md5_full_blocks ?q data copy (n - copy) =
        Some (?p\<lparr>md5_abcd := absorb md5_compress md5_IV (m @ ?x), md5_buf := b'\<rparr>)" by (simp only: A)
    with False start md5_rep_advance [OF rep b'(2) tk] x show ?thesis by simp
  qed
qed

lemma md5_append_rep:
  assumes rep: "md5_rep pms m" and n: "n \<le> length data" "int n \<le> INT_MAX - 63"
  shows "\<exists>pms'. md5_append pms data (int n) = Some pms' \<and> md5_rep pms' (m @ take n data)"
proof (cases "n = 0 \<or> length m mod 64 = 0")
  case False
  let ?o = "length m mod 64"
  have o: "unat (drop_bit 3 (md5_count0 pms) AND 63) = ?o"
    using rep count_offset [of "length m"] by (simp add: md5_rep_def)
  have "?o < 64" by simp
  then have "add_int32 (int ?o) (int n) = Some (int ?o + int n)"
    using n(2) by (simp add: add_int32_def in_int32_def)
  with False o have "md5_append pms data (int n) =
      md5_partial_block (md5_count pms (int n)) data ?o
        (if 64 < int ?o + int n then 64 - ?o else n) (int n)"
    by (simp add: md5_append_def Let_def)
  with False md5_partial_block_rep [OF rep n(1)] show ?thesis by (simp only:) simp
next
  case True
  show ?thesis
  proof (cases "n = 0")
    case True
    then show ?thesis using rep by (simp add: md5_append_def)
  next
    case False
    let ?x = "take n data" and ?p = "md5_count pms (int n)"
    from False True have o: "length m mod 64 = 0" by simp
    then have r0: "rest 64 m = []" by (simp add: length_0_conv [symmetric])
    have buf: "length (md5_buf ?p) = 64" "md5_abcd ?p = absorb md5_compress md5_IV m"
      using rep by (auto simp: md5_rep_def md5_count_def Let_def)
    have x: "length ?x = n" using n by simp
    obtain b where b: "md5_full_blocks ?p data 0 n =
        Some (?p\<lparr>md5_abcd := absorb md5_compress (md5_abcd ?p) ?x, md5_buf := b\<rparr>)"
      "length b = 64" "take (n mod 64) b = rest 64 ?x"
      using md5_full_blocks_absorb [of 0 n data ?p] n buf by auto
    have re: "rest 64 (m @ ?x) = rest 64 ?x"
      using whole_rest_append(2) [of 64 m ?x] r0 by simp
    have "length (m @ ?x) mod 64 = n mod 64"
      using o x mod_add_left_eq [of "length m" 64 n] by simp
    with b(3) re have tk: "take (length (m @ ?x) mod 64) b = rest 64 (m @ ?x)" by simp
    have A: "absorb md5_compress md5_IV (m @ ?x) = absorb md5_compress (md5_abcd ?p) ?x"
      using absorb_append [of md5_compress md5_IV m ?x] buf(2) r0 by simp
    have off: "unat (drop_bit 3 (md5_count0 pms) AND 63) = 0"
      using rep count_offset [of "length m"] o by (simp add: md5_rep_def)
    have "md5_append pms data (int n) = md5_full_blocks ?p data 0 n"
      using False off by (simp add: md5_append_def)
    with b(1) md5_rep_advance [OF rep b(2) tk] x show ?thesis by (simp add: A)
  qed
qed

lemma md5_pad_length: "unat ((55 - drop_bit 3 (of_nat (8 * l) :: u32)) AND 63) = pad_zeros l"
proof -
  let ?w = "drop_bit 3 (of_nat (8 * l) :: u32)"
  have "8 * l mod 2 ^ 32 = 8 * (l mod 2 ^ 29)"
    using mult_mod_right [of 8 l "2 ^ 29"] by simp
  then have "unat ?w = l mod 2 ^ 29" by (simp only: unat_drop unat_of_nat) simp
  then have "uint ?w = int l mod 2 ^ 29" by (simp only: uint_nat zmod_int) simp
  then have w: "uint ?w mod 64 = int l mod 64" by (simp add: mod_mod_cancel)
  have "uint (55 - ?w) = (55 - uint ?w) mod 2 ^ 32" by (simp only: uint_word_ariths) simp
  then have "uint (55 - ?w) mod 64 = (55 - uint ?w) mod 64"
    using mod_mod_cancel [of 64 "2 ^ 32" "55 - uint ?w"] by simp
  also have "\<dots> = (55 - int l mod 64) mod 64"
    unfolding w [symmetric] by (rule mod_diff_right_eq [symmetric])
  also have "\<dots> = (55 - int l mod 64 + 64) mod 64" by (simp only: mod_add_self2)
  also have "\<dots> = int (pad_zeros l)"
  proof -
    have "l mod 64 \<le> 119" using mod_less_divisor [of 64 l] by linarith
    then have "int (119 - l mod 64) = 55 - int l mod 64 + 64" by (simp add: of_nat_diff zmod_int)
    then show ?thesis unfolding pad_zeros_def zmod_int by simp
  qed
  finally have "int (unat (55 - ?w) mod 64) = int (pad_zeros l)"
    by (simp only: uint_nat zmod_int of_nat_numeral)
  then have "unat (55 - ?w) mod 64 = pad_zeros l" by (simp only: of_nat_eq_iff)
  then show ?thesis using unat_and_mask [of "55 - ?w" 6] by (simp add: mask_eq_exp_minus_1)
qed

lemma md5_finish_rep:
  assumes rep: "md5_rep pms m"
  shows "\<exists>pms'. md5_finish pms = Some (pms', md5_spec m)"
proof -
  let ?data = "map (\<lambda>i. ucast (drop_bit (8 * (i mod 4))
                    (if i div 4 = 0 then md5_count0 pms else md5_count1 pms))) [0..<8]"
  let ?z = "pad_zeros (length m)"
  have data: "?data = len_bytes (length m)"
    using rep word_byte [of 0 "8 * length m"] word_byte [of 1 "8 * length m"]
      word_byte [of 2 "8 * length m"] word_byte [of 3 "8 * length m"]
      word_byte [of 0 "8 * length m div 2 ^ 32"] word_byte [of 1 "8 * length m div 2 ^ 32"]
      word_byte [of 2 "8 * length m div 2 ^ 32"] word_byte [of 3 "8 * length m div 2 ^ 32"]
    by (simp add: len_bytes_def upt_rec md5_rep_def div_mult2_eq [symmetric])
  have z: "?z < 64" by (simp add: pad_zeros_def)
  have n1: "int (unat ((55 - drop_bit 3 (md5_count0 pms)) AND 63)) + 1 = int (Suc ?z)"
    using rep md5_pad_length [of "length m"] by (simp add: md5_rep_def)
  obtain p1 where p1: "md5_append pms md5_pad (int (Suc ?z)) = Some p1"
    "md5_rep p1 (m @ take (Suc ?z) md5_pad)"
    using md5_append_rep [OF rep, of "Suc ?z" md5_pad] z by (auto simp: md5_pad_def INT_MAX_def)
  have pad: "take (Suc ?z) md5_pad = 0x80 # replicate ?z 0" using z by (simp add: md5_pad_def)
  have len8: "length (len_bytes (length m)) = 8" by (simp add: len_bytes_def)
  obtain p2 where p2: "md5_append p1 ?data (int 8) = Some p2"
    "md5_rep p2 ((m @ take (Suc ?z) md5_pad) @ take 8 (len_bytes (length m)))"
    using md5_append_rep [OF p1(2), of 8 "len_bytes (length m)"] len8 unfolding data
    by (auto simp: INT_MAX_def)
  have "(m @ take (Suc ?z) md5_pad) @ take 8 (len_bytes (length m)) = md_pad id m"
    using len8 unfolding pad by (simp add: md_pad_def)
  with p2(2) have "md5_abcd p2 = absorb md5_compress md5_IV (md_pad id m)"
    by (simp only:) (simp add: md5_rep_def)
  then have "(let (a, b, c, d) = md5_abcd p2 in
      map (\<lambda>i. ucast (drop_bit (8 * (i mod 4)) ([a, b, c, d] ! (i div 4)))) [0..<16]) = md5_spec m"
    by (auto simp: md5_spec_def le_bytes_def upt_rec split: prod.splits)
  with p1(1) p2(1) show ?thesis
    unfolding md5_finish_def n1 by (auto simp: Let_def split: prod.splits)
qed

interpretation md5: digest "Some (md5_init md5_state_t)"
  "\<lambda>s x. Option.bind s (\<lambda>s. md5_append s x (int (length x)))"
  "\<lambda>s. map_option snd (Option.bind s md5_finish)"
  "\<lambda>s m. \<exists>p. s = Some p \<and> md5_rep p m" "\<lambda>m. Some (md5_spec m)"
  "\<lambda>x. int (length x) \<le> INT_MAX - 63"
proof (unfold_locales, goal_cases)
  case 1
  show ?case by (simp add: md5_rep_def md5_init_def md5_state_t_def md5_IV_def T_MASK_def)
next
  case (2 s m x)
  then show ?case using md5_append_rep [of _ m "length x" x] by fastforce
next
  case (3 s m)
  then show ?case using md5_finish_rep by fastforce
qed

section \<open>The hash context\<close>

definition md5_context_rep :: "md5_context \<Rightarrow> bool \<Rightarrow> bytes \<Rightarrow> bool" where
  "md5_context_rep h s m \<longleftrightarrow> md5_secure h = s \<and> md5_rep (md5_st h) m"

lemma md5_update_rep:
  assumes "md5_context_rep h s m" and "hash_input r"
  shows "\<exists>h'. md5_update h r = Some h' \<and> md5_context_rep h' (s \<and> secure r) (m @ content r)"
proof -
  have r: "region_inv r" "size_of r = int (length (content r))" "int (length (content r)) \<le> INT_MAX - 63"
    using assms(2) by (auto simp: hash_input_def size_of_content)
  have read: "data_read r 0 (nat (int (length (content r)))) = Some (content r)"
    using data_read_content [OF r(1)] by (simp only: r(2))
  obtain p where "md5_append (md5_st h) (content r) (int (length (content r))) = Some p"
    "md5_rep p (m @ content r)"
    using md5_append_rep [of "md5_st h" m "length (content r)" "content r"] assms(1) r(3)
    by (auto simp: md5_context_rep_def)
  with assms(1) read show ?thesis
    by (auto simp: md5_update_def md5_context_rep_def r(2) Let_def simp del: nat_int)
qed

lemma md5_run_rep:
  "md5_context_rep h s m \<Longrightarrow> list_all hash_input rs \<Longrightarrow>
   \<exists>h'. hash_run md5_update h rs = Some h' \<and>
     md5_context_rep h' (s \<and> list_all secure rs) (m @ concat (map content rs))"
proof (induction rs arbitrary: h s m)
  case Nil
  then show ?case by simp
next
  case (Cons r rs)
  then obtain h1 where h1: "md5_update h r = Some h1"
    "md5_context_rep h1 (s \<and> secure r) (m @ content r)"
    using md5_update_rep [of h s m r] by auto
  with Cons.IH [OF h1(2)] Cons.prems(2) show ?case by auto
qed

lemma length_md5_spec: "length (md5_spec m) = 16"
  by (simp add: md5_spec_def le_bytes_def split: prod.splits)

lemma md5_final_rep:
  assumes "md5_context_rep h s m"
  shows "\<exists>h' r. md5_final h = Some (h', r) \<and> region_inv r \<and> secure r = s \<and> content r = md5_spec m"
proof -
  obtain p where p: "md5_finish (md5_st h) = Some (p, md5_spec m)"
    using md5_finish_rep assms by (auto simp: md5_context_rep_def)
  show ?thesis
  proof (cases s)
    case True
    obtain r where "data_write (region_size 16 True) 0 (md5_spec m) = Some r" "region_inv r"
      "secure r" "content r = md5_spec m"
      using secure_fill [of "md5_spec m" 16] by (auto simp: length_md5_spec)
    with True p assms show ?thesis
      by (auto simp: md5_final_def md5_context_rep_def SecureArray_size_def)
  next
    case False
    have "memcpy_at (replicate 16 0) 0 (md5_spec m) = Some (md5_spec m)"
      by (rule memcpy_at_whole) (simp add: length_md5_spec)
    moreover obtain r where "region_bytes (md5_spec m) False = Some r" "region_inv r"
      "secure r = False" "content r = md5_spec m"
      by (rule region_bytes_inv [of "md5_spec m" False]) (simp_all add: length_md5_spec INT_MAX_def)
    ultimately show ?thesis using False p assms by (auto simp: md5_final_def md5_context_rep_def)
  qed
qed

section \<open>Properties\<close>

text \<open>
  \<^verbatim>\<open>md5_process\<close> computes the compression function of RFC 1321: the sixty-four unrolled
  \<^verbatim>\<open>SET\<close> steps, with their masked constants, are the sixty-four operations of the standard.
\<close>

theorem md5_process_is_rfc:
  "md5_process pms block = pms\<lparr>md5_abcd := md5_compress (md5_abcd pms) block\<rparr>"
  by (rule md5_process_compress)

text \<open>
  C15. The MD5 context: for every list of inputs, in ordinary or locked memory, \<^verbatim>\<open>final\<close>
  returns the MD5 digest of their concatenation (padding and 64-bit length included), no
  call leaves its buffers, and the digest is in locked memory exactly when every input was.
\<close>

theorem md5_context_digest:
  assumes "list_all hash_input rs"
  shows "\<exists>h h' r. hash_run md5_update (DefaultMD5Context u) rs = Some h \<and> md5_final h = Some (h', r) \<and>
    toByteArray r = Some (md5_spec (concat (map content rs))) \<and> secure r = list_all secure rs"
proof -
  have "md5_context_rep (DefaultMD5Context u) True []"
    using md5.rep_init by (simp add: md5_context_rep_def DefaultMD5Context_def md5_clear_def)
  from md5_run_rep [OF this assms] obtain h where "hash_run md5_update (DefaultMD5Context u) rs = Some h"
    "md5_context_rep h (list_all secure rs) (concat (map content rs))" by auto
  with md5_final_rep show ?thesis by fastforce
qed

definition md5_input :: memory_region where
  "md5_input = \<lparr>secure = False, priv = Some \<lparr>sec = False, ai_data = IntoQbuf, ai_size = 3,
     sbuf = None, qbuf = Some [0x61, 0x62, 0x63]\<rparr>\<rparr>"

theorem md5_context_digest_witness:
  "list_all hash_input [md5_input] \<and>
   (\<exists>h h' r. hash_run md5_update (DefaultMD5Context False) [md5_input] = Some h \<and>
     md5_final h = Some (h', r) \<and> toByteArray r = Some (md5_spec [0x61, 0x62, 0x63]) \<and> \<not> secure r)"
proof -
  have h: "list_all hash_input [md5_input]"
    by (simp add: hash_input_def md5_input_def region_inv_def ai_inv_def size_of_def INT_MAX_def)
  have "content md5_input = [0x61, 0x62, 0x63]" "\<not> secure md5_input"
    by (simp_all add: md5_input_def content_def ai_content_def)
  with md5_context_digest [OF h, of False] h show ?thesis by simp
qed

end
