(* ===== verification/Sha1.thy ===== *)
theory Sha1
  imports HashCommon
begin

text \<open>
  The SHA-1 implementation of \<^verbatim>\<open>src/qca_default.cpp\<close>, \<^verbatim>\<open>DefaultSHA1Context\<close>.

  \<^verbatim>\<open>transform\<close> works on the block in place: except on ARM, \<^verbatim>\<open>block\<close> points into the buffer it is
  given, and the message schedule is computed in that memory.  The model therefore returns the
  bytes of the block as well, and \<^verbatim>\<open>sha1_update\<close> returns the caller's data.  The byte order of
  the host and the ARM variant are a parameter of the model.

  The working variables are kept in the order in which the next macro names them, so that the
  unrolled calls \<^verbatim>\<open>R0(a,b,c,d,e, 0); R0(e,a,b,c,d, 1); ...\<close> are a fold.  \<^verbatim>\<open>len\<close> is the size of a
  \<^verbatim>\<open>MemoryRegion\<close>, at most 2 to the 31, so the 32-bit sums of \<^verbatim>\<open>i\<close>, \<^verbatim>\<open>j\<close> and \<^verbatim>\<open>len\<close> do not wrap and
  are natural numbers here; the bit counter is kept at its width.
\<close>

section \<open>Model\<close>

record host =
  big_endian :: bool
  arm :: bool

type_synonym sha1_regs = "u32 \<times> u32 \<times> u32 \<times> u32 \<times> u32"

record sha1_context =
  sha1_state :: sha1_regs
  sha1_count0 :: u32
  sha1_count1 :: u32
  sha1_buffer :: bytes

definition SHA1_CONTEXT :: sha1_context where
  "SHA1_CONTEXT = \<lparr>sha1_state = (0, 0, 0, 0, 0), sha1_count0 = 0, sha1_count1 = 0,
     sha1_buffer = replicate 64 0\<rparr>"

text \<open>The union \<^verbatim>\<open>CHAR64LONG16\<close>: the block as bytes and as words of the host.\<close>

definition be_word :: "bytes \<Rightarrow> u32" where
  "be_word b = foldl (\<lambda>w x. push_bit 8 w OR ucast x) 0 b"

definition be_bytes :: "u32 \<Rightarrow> bytes" where
  "be_bytes w = map (\<lambda>i. ucast (drop_bit (8 * (3 - i)) w)) [0..<4]"

definition block_words :: "host \<Rightarrow> bytes \<Rightarrow> u32 list" where
  "block_words hst c = map (\<lambda>b. be_word (if big_endian hst then b else rev b)) (chunks_of 4 c)"

definition block_bytes :: "host \<Rightarrow> u32 list \<Rightarrow> bytes" where
  "block_bytes hst l = concat (map (\<lambda>w. if big_endian hst then be_bytes w else rev (be_bytes w)) l)"

definition blk0 :: "host \<Rightarrow> u32 list \<Rightarrow> nat \<Rightarrow> u32 \<times> u32 list" where
  "blk0 hst l i =
     (if big_endian hst then (l ! i, l)
      else let v = (rol32 (l ! i) 24 AND 0xFF00FF00) OR (rol32 (l ! i) 8 AND 0x00FF00FF)
           in (v, l[i := v]))"

definition blk :: "u32 list \<Rightarrow> nat \<Rightarrow> u32 \<times> u32 list" where
  "blk l i =
     (let v = rol32 (l ! ((i + 13) mod 16) XOR l ! ((i + 8) mod 16) XOR l ! ((i + 2) mod 16) XOR l ! (i mod 16)) 1
      in (v, l[i mod 16 := v]))"

text \<open>One macro call: \<^verbatim>\<open>z += f(w,x,y) + block word + k + rol(v,5); w = rol(w,30);\<close>\<close>

fun sha1_R ::
    "(u32 \<Rightarrow> u32 \<Rightarrow> u32 \<Rightarrow> u32) \<Rightarrow> u32 \<Rightarrow> (u32 list \<Rightarrow> nat \<Rightarrow> u32 \<times> u32 list) \<Rightarrow>
     u32 list \<times> sha1_regs \<Rightarrow> nat \<Rightarrow> u32 list \<times> sha1_regs" where
  "sha1_R f k b (l, (v, w, x, y, z)) i =
     (let (m, l) = b l i; z = z + (f w x y + m + k + rol32 v 5); w = rol32 w 30 in (l, (z, v, w, x, y)))"

definition R0 :: "host \<Rightarrow> u32 list \<times> sha1_regs \<Rightarrow> nat \<Rightarrow> u32 list \<times> sha1_regs" where
  "R0 hst = sha1_R (\<lambda>w x y. (w AND (x XOR y)) XOR y) 0x5A827999 (blk0 hst)"

definition R1 :: "u32 list \<times> sha1_regs \<Rightarrow> nat \<Rightarrow> u32 list \<times> sha1_regs" where
  "R1 = sha1_R (\<lambda>w x y. (w AND (x XOR y)) XOR y) 0x5A827999 blk"

definition R2 :: "u32 list \<times> sha1_regs \<Rightarrow> nat \<Rightarrow> u32 list \<times> sha1_regs" where
  "R2 = sha1_R (\<lambda>w x y. w XOR x XOR y) 0x6ED9EBA1 blk"

definition R3 :: "u32 list \<times> sha1_regs \<Rightarrow> nat \<Rightarrow> u32 list \<times> sha1_regs" where
  "R3 = sha1_R (\<lambda>w x y. ((w OR x) AND y) OR (w AND x)) 0x8F1BBCDC blk"

definition R4 :: "u32 list \<times> sha1_regs \<Rightarrow> nat \<Rightarrow> u32 list \<times> sha1_regs" where
  "R4 = sha1_R (\<lambda>w x y. w XOR x XOR y) 0xCA62C1D6 blk"

text \<open>\<^verbatim>\<open>transform\<close> returns the new state and the bytes of the buffer.\<close>

definition transform :: "host \<Rightarrow> sha1_regs \<Rightarrow> bytes \<Rightarrow> sha1_regs \<times> bytes" where
  "transform hst state buffer =
     (let s = (block_words hst buffer, state);
          s = foldl (R0 hst) s [0..<16];
          s = foldl R1 s [16..<20];
          s = foldl R2 s [20..<40];
          s = foldl R3 s [40..<60];
          (l, (a, b, c, d, e)) = foldl R4 s [60..<80];
          (s0, s1, s2, s3, s4) = state
      in ((s0 + a, s1 + b, s2 + c, s3 + d, s4 + e), if arm hst then buffer else block_bytes hst l))"

definition sha1_init :: "sha1_context \<Rightarrow> sha1_context" where
  "sha1_init c = c\<lparr>sha1_state := (0x67452301, 0xEFCDAB89, 0x98BADCFE, 0x10325476, 0xC3D2E1F0),
     sha1_count0 := 0, sha1_count1 := 0\<rparr>"

text \<open>The loop over the whole blocks of the data, from offset \<open>i\<close> on.\<close>

function sha1_blocks :: "host \<Rightarrow> sha1_regs \<Rightarrow> bytes \<Rightarrow> nat \<Rightarrow> nat \<Rightarrow> (sha1_regs \<times> bytes \<times> nat) option" where
  "sha1_blocks hst state data i len =
     (if i + 63 < len then
        do {
          b \<leftarrow> mem_slice data i 64;
          let (state, b) = transform hst state b;
          data \<leftarrow> memcpy_at data i b;
          sha1_blocks hst state data (i + 64) len
        }
      else Some (state, data, i))"
  by pat_completeness auto
termination
  by (relation "measure (\<lambda>(hst, state, data, i, len). len - i)") auto

declare sha1_blocks.simps [simp del]

definition sha1_count :: "sha1_context \<Rightarrow> nat \<Rightarrow> sha1_context" where
  "sha1_count c len =
     (let nbits = push_bit 3 (of_nat len :: u32);
          count0 = sha1_count0 c + nbits;
          count1 = (if count0 < nbits then sha1_count1 c + 1 else sha1_count1 c);
          count1 = count1 + drop_bit 29 (of_nat len)
      in c\<lparr>sha1_count0 := count0, sha1_count1 := count1\<rparr>)"

definition sha1_absorb :: "host \<Rightarrow> sha1_context \<Rightarrow> bytes \<Rightarrow> nat \<Rightarrow> nat \<Rightarrow> (sha1_context \<times> bytes) option" where
  "sha1_absorb hst c data len j =
     (if j + len > 63 then
        do {
          src \<leftarrow> mem_slice data 0 (64 - j);
          buf \<leftarrow> memcpy_at (sha1_buffer c) j src;
          let (state, buf) = transform hst (sha1_state c) buf;
          (state, data, i) \<leftarrow> sha1_blocks hst state data (64 - j) len;
          src \<leftarrow> mem_slice data i (len - i);
          buf \<leftarrow> memcpy_at buf 0 src;
          Some (c\<lparr>sha1_state := state, sha1_buffer := buf\<rparr>, data)
        }
      else
        do {
          src \<leftarrow> mem_slice data 0 len;
          buf \<leftarrow> memcpy_at (sha1_buffer c) j src;
          Some (c\<lparr>sha1_buffer := buf\<rparr>, data)
        })"

definition sha1_update :: "host \<Rightarrow> sha1_context \<Rightarrow> bytes \<Rightarrow> nat \<Rightarrow> (sha1_context \<times> bytes) option" where
  "sha1_update hst c data len =
     (let j = unat (drop_bit 3 (sha1_count0 c) AND 63) in sha1_absorb hst (sha1_count c len) data len j)"

section \<open>Specification\<close>

text \<open>FIPS 180-1: the message schedule and the eighty operations.\<close>

fun sha1_schedule :: "u32 list \<Rightarrow> nat \<Rightarrow> u32 list" where
  "sha1_schedule ws 0 = ws"
| "sha1_schedule ws (Suc n) =
     (let s = sha1_schedule ws n; t = length s
      in s @ [word_rotl 1 (s ! (t - 3) XOR s ! (t - 8) XOR s ! (t - 14) XOR s ! (t - 16))])"

definition sha1_f :: "nat \<Rightarrow> u32 \<Rightarrow> u32 \<Rightarrow> u32 \<Rightarrow> u32" where
  "sha1_f t x y z =
     (if t < 20 then (x AND y) OR (NOT x AND z)
      else if t < 40 then x XOR y XOR z
      else if t < 60 then (x AND y) OR (x AND z) OR (y AND z)
      else x XOR y XOR z)"

definition sha1_K :: "nat \<Rightarrow> u32" where
  "sha1_K t =
     (if t < 20 then 0x5A827999 else if t < 40 then 0x6ED9EBA1
      else if t < 60 then 0x8F1BBCDC else 0xCA62C1D6)"

fun sha1_op :: "u32 list \<Rightarrow> sha1_regs \<Rightarrow> nat \<Rightarrow> sha1_regs" where
  "sha1_op W (a, b, c, d, e) t =
     (word_rotl 5 a + sha1_f t b c d + e + W ! t + sha1_K t, a, word_rotl 30 b, c, d)"

definition sha1_W :: "bytes \<Rightarrow> u32 list" where
  "sha1_W block = sha1_schedule (map be_word (chunks_of 4 block)) 64"

definition sha1_compress :: "sha1_regs \<Rightarrow> bytes \<Rightarrow> sha1_regs" where
  "sha1_compress st block =
     (let (a, b, c, d, e) = foldl (sha1_op (sha1_W block)) st [0..<80]; (a0, b0, c0, d0, e0) = st
      in (a0 + a, b0 + b, c0 + c, d0 + d, e0 + e))"

definition sha1_IV :: sha1_regs where
  "sha1_IV = (0x67452301, 0xEFCDAB89, 0x98BADCFE, 0x10325476, 0xC3D2E1F0)"

definition sha1_spec :: "bytes \<Rightarrow> bytes" where
  "sha1_spec m =
     (let (a, b, c, d, e) = absorb sha1_compress sha1_IV (md_pad rev m)
      in be_bytes a @ be_bytes b @ be_bytes c @ be_bytes d @ be_bytes e)"

text \<open>What is left in a block that has been transformed: the last sixteen schedule words.\<close>

definition sha1_scramble :: "host \<Rightarrow> bytes \<Rightarrow> bytes" where
  "sha1_scramble hst block = (if arm hst then block else block_bytes hst (drop 64 (sha1_W block)))"

section \<open>Lemmas\<close>

text \<open>The block window: the sixteen words hold the last sixteen entries of the schedule.\<close>

definition window :: "u32 list \<Rightarrow> u32 list \<Rightarrow> bool" where
  "window l s \<longleftrightarrow> length l = 16 \<and> 16 \<le> length s \<and>
     (\<forall>j. length s - 16 \<le> j \<and> j < length s \<longrightarrow> l ! (j mod 16) = s ! j)"

lemma window_nth: "window l s \<Longrightarrow> j < length s \<Longrightarrow> length s - 16 \<le> j \<Longrightarrow> l ! (j mod 16) = s ! j"
  by (simp add: window_def)

lemma mod_shift: "k \<le> 16 \<Longrightarrow> 16 \<le> (t::nat) \<Longrightarrow> (t + (16 - k)) mod 16 = (t - k) mod 16"
proof -
  assume "k \<le> 16" "16 \<le> t"
  then have "t + (16 - k) = (t - k) + 16" by simp
  then show ?thesis by (simp only: mod_add_self2)
qed

lemma blk_window:
  assumes "window l s" and "length s = t"
  shows "\<exists>v l'. blk l t = (v, l') \<and>
    v = word_rotl 1 (s ! (t - 3) XOR s ! (t - 8) XOR s ! (t - 14) XOR s ! (t - 16)) \<and>
    window l' (s @ [v])"
proof -
  have t: "16 \<le> t" "length l = 16" using assms by (auto simp: window_def)
  have prev: "l ! ((t + (16 - k)) mod 16) = s ! (t - k)" if "0 < k" "k \<le> 16" for k
    using window_nth [OF assms(1), of "t - k"] mod_shift [of k t] that assms(2) t by simp
  have "l ! ((t + 13) mod 16) = s ! (t - 3)" "l ! ((t + 8) mod 16) = s ! (t - 8)"
    "l ! ((t + 2) mod 16) = s ! (t - 14)" "l ! (t mod 16) = s ! (t - 16)"
    using prev [of 3] prev [of 8] prev [of 14] prev [of 16] by simp_all
  then have v: "blk l t = (let v = word_rotl 1 (s ! (t - 3) XOR s ! (t - 8) XOR s ! (t - 14) XOR s ! (t - 16))
      in (v, l[t mod 16 := v]))"
    by (simp add: blk_def rol32_word_rotl)
  have "window (l[t mod 16 := v]) (s @ [v])" for v
    unfolding window_def
  proof (intro conjI allI impI)
    fix j assume j: "length (s @ [v]) - 16 \<le> j \<and> j < length (s @ [v])"
    show "l[t mod 16 := v] ! (j mod 16) = (s @ [v]) ! j"
    proof (cases "j = t")
      case True
      then show ?thesis using assms(2) t by (simp add: nth_append)
    next
      case False
      with j assms(2) t have j': "j < t" "t - 16 < j" by auto
      then have "j mod 16 \<noteq> t mod 16"
        by (metis add.commute add_less_cancel_left less_diff_conv2 mod_eq_dvd_iff_nat nat_dvd_not_less
            le_add_diff_inverse less_imp_le_nat t(1) zero_less_diff)
      then show ?thesis using j' window_nth [OF assms(1), of j] assms(2) by (simp add: nth_append)
    qed
  qed (use t assms in auto)
  with v show ?thesis by (simp add: Let_def)
qed

lemma length_schedule [simp]: "length (sha1_schedule ws n) = length ws + n"
  by (induction n) (simp_all add: Let_def)

lemma schedule_prefix: "n \<le> k \<Longrightarrow> take (length ws + n) (sha1_schedule ws k) = sha1_schedule ws n"
proof (induction k)
  case 0
  then show ?case by simp
next
  case (Suc k)
  then show ?case by (cases "n = Suc k") (auto simp: Let_def)
qed

lemma schedule_nth:
  assumes "length ws = 16" and "16 \<le> t" and "t < 16 + k"
  defines "W \<equiv> sha1_schedule ws k"
  shows "W ! t = word_rotl 1 (W ! (t - 3) XOR W ! (t - 8) XOR W ! (t - 14) XOR W ! (t - 16))"
proof -
  obtain n where t: "t = 16 + n" using assms(2) le_Suc_ex by blast
  have p: "take (Suc t) W = sha1_schedule ws (Suc n)"
    using schedule_prefix [of "Suc n" k ws] assms(1,3) t unfolding W_def by simp
  have i: "W ! j = sha1_schedule ws (Suc n) ! j" if "j \<le> t" for j
    unfolding p [symmetric] using that by simp
  have l: "length (sha1_schedule ws n) = t" using assms(1) t by simp
  then show ?thesis
    using i [of t] i [of "t - 3"] i [of "t - 8"] i [of "t - 14"] i [of "t - 16"] t
    by (simp add: Let_def nth_append)
qed

text \<open>The operations of the code are those of the standard.\<close>

lemma choose_eq: "(w AND (x XOR y)) XOR y = (w AND x) OR (NOT w AND y)" for w x y :: u32
  by (rule bit_word_eqI) (auto simp: bit_simps)

lemma majority_eq: "((w OR x) AND y) OR (w AND x) = (w AND x) OR (w AND y) OR (x AND y)" for w x y :: u32
  by (rule bit_word_eqI) (auto simp: bit_simps)

lemma sha1_R_op:
  assumes "b l i = (W ! i, l')" and "f = sha1_f i" and "k = sha1_K i"
  shows "sha1_R f k b (l, r) i = (l', sha1_op W r i)"
  using assms by (cases r) (simp add: Let_def rol32_word_rotl ac_simps)

lemma R_op:
  assumes "blk l i = (W ! i, l')"
  shows "16 \<le> i \<Longrightarrow> i < 20 \<Longrightarrow> R1 (l, r) i = (l', sha1_op W r i)"
    and "20 \<le> i \<Longrightarrow> i < 40 \<Longrightarrow> R2 (l, r) i = (l', sha1_op W r i)"
    and "40 \<le> i \<Longrightarrow> i < 60 \<Longrightarrow> R3 (l, r) i = (l', sha1_op W r i)"
    and "60 \<le> i \<Longrightarrow> R4 (l, r) i = (l', sha1_op W r i)"
  unfolding R1_def R2_def R3_def R4_def
  by (rule sha1_R_op [of blk, OF assms]; simp add: sha1_f_def sha1_K_def choose_eq majority_eq fun_eq_iff)+

lemma R_stage:
  assumes ws: "length ws = 16" and ab: "16 \<le> a" "a \<le> b" "b \<le> 80"
    and step: "\<And>l i l' r. a \<le> i \<Longrightarrow> i < b \<Longrightarrow> blk l i = (W ! i, l') \<Longrightarrow> R (l, r) i = (l', sha1_op W r i)"
    and W: "W = sha1_schedule ws 64" and win: "window l (take a W)"
  shows "\<exists>l'. foldl R (l, r) [a..<b] = (l', foldl (sha1_op W) r [a..<b]) \<and> window l' (take b W)"
  using ab(2,3) step
proof (induction b)
  case 0
  then show ?case using ab(1) by simp
next
  case (Suc b)
  show ?case
  proof (cases "a = Suc b")
    case True
    then show ?thesis using win by auto
  next
    case False
    with Suc obtain l1 where l1: "foldl R (l, r) [a..<b] = (l1, foldl (sha1_op W) r [a..<b])"
      "window l1 (take b W)" by fastforce
    have lW: "length W = 80" using W ws by simp
    have b: "16 \<le> b" "b < 80" using False Suc.prems ab(1) by auto
    obtain v l2 where v: "blk l1 b = (v, l2)" "window l2 (take b W @ [v])"
      "v = word_rotl 1 (W ! (b - 3) XOR W ! (b - 8) XOR W ! (b - 14) XOR W ! (b - 16))"
      using blk_window [OF l1(2), of b] lW b by auto
    moreover have "v = W ! b" using schedule_nth [OF ws b(1), of 64] b(2) v(3) W by simp
    moreover have "take (Suc b) W = take b W @ [W ! b]"
      using b lW by (simp add: take_Suc_conv_app_nth)
    ultimately show ?thesis using l1 Suc.prems False by simp
  qed
qed

text \<open>The first sixteen operations replace the words of the host by big-endian ones.\<close>

lemma be_word4: "be_word [b0, b1, b2, b3] =
    (push_bit 24 (ucast b0) OR push_bit 16 (ucast b1) OR push_bit 8 (ucast b2) OR ucast b3)"
  by (rule bit_word_eqI) (auto simp: be_word_def bit_simps)

lemma bit_be_word:
  "n < 32 \<Longrightarrow> bit (be_word [b0, b1, b2, b3]) n =
    (if n < 8 then bit b3 n else if n < 16 then bit b2 (n - 8)
     else if n < 24 then bit b1 (n - 16) else bit b0 (n - 24))"
  unfolding be_word4 by (auto simp: bit_simps dest: bit_imp_le_length)

lemma bit_rol32: "n < 32 \<Longrightarrow> k < 32 \<Longrightarrow> bit (rol32 w k) n = bit w ((n + (32 - k)) mod 32)"
  by (simp add: rol32_word_rotl bit_word_rotl_iff)

lemma bit_swap_masks:
  "bit (0xFF00FF00 :: u32) n = (8 \<le> n \<and> n < 16 \<or> 24 \<le> n \<and> n < 32)"
  "bit (0x00FF00FF :: u32) n = (n < 8 \<or> 16 \<le> n \<and> n < 24)"
proof -
  have m: "0xFF00FF00 = (push_bit 24 (mask 8) OR push_bit 8 (mask 8) :: u32)"
    "0x00FF00FF = (push_bit 16 (mask 8) OR mask 8 :: u32)"
    by (simp_all add: mask_eq_exp_minus_1)
  show "bit (0xFF00FF00 :: u32) n = (8 \<le> n \<and> n < 16 \<or> 24 \<le> n \<and> n < 32)"
    by (subst m(1)) (auto simp: bit_simps)
  show "bit (0x00FF00FF :: u32) n = (n < 8 \<or> 16 \<le> n \<and> n < 24)"
    by (subst m(2)) (auto simp: bit_simps)
qed

lemma swap_bytes:
  assumes "length b = 4"
  shows "(rol32 (be_word (rev b)) 24 AND 0xFF00FF00) OR (rol32 (be_word (rev b)) 8 AND 0x00FF00FF) = be_word b"
proof (rule bit_word_eqI)
  fix n assume "n < LENGTH(32)"
  then have n: "n < 32" by simp
  obtain b0 b1 b2 b3 where b: "b = [b0, b1, b2, b3]"
    using assms by (auto simp: numeral_eq_Suc length_Suc_conv)
  let ?w = "be_word [b3, b2, b1, b0]"
  consider "n < 8" | "8 \<le> n" "n < 16" | "16 \<le> n" "n < 24" | "24 \<le> n" using n by linarith
  then have "bit ((rol32 ?w 24 AND 0xFF00FF00) OR (rol32 ?w 8 AND 0x00FF00FF)) n = bit (be_word [b0, b1, b2, b3]) n"
  proof cases
    case 1
    then have "(n + 24) mod 32 = n + 24" by simp
    with 1 n show ?thesis
      unfolding bit_or_iff bit_and_iff bit_swap_masks by (simp add: bit_rol32 bit_be_word)
  next
    case 2
    then have "(n + 8) mod 32 = n + 8" by simp
    with 2 n show ?thesis
      unfolding bit_or_iff bit_and_iff bit_swap_masks by (simp add: bit_rol32 bit_be_word)
  next
    case 3
    then have "(n + 24) mod 32 = n - 8" "\<not> n - 8 < 8" "n - 8 < 16" by (auto simp: mod_if)
    with 3 n show ?thesis
      unfolding bit_or_iff bit_and_iff bit_swap_masks by (simp add: bit_rol32 bit_be_word)
  next
    case 4
    then have "(n + 8) mod 32 = n - 24" "n - 24 < 8" using n by (auto simp: mod_if)
    with 4 n show ?thesis
      unfolding bit_or_iff bit_and_iff bit_swap_masks by (simp add: bit_rol32 bit_be_word)
  qed
  then show "bit ((rol32 (be_word (rev b)) 24 AND 0xFF00FF00) OR (rol32 (be_word (rev b)) 8 AND 0x00FF00FF)) n =
      bit (be_word b) n"
    by (simp only: b rev.simps append.simps)
qed

lemma blk0_step:
  fixes hst :: host
  assumes "length c = 64" and "i < 16"
  defines "ws \<equiv> map be_word (chunks_of 4 c)" and "l0 \<equiv> block_words hst c"
  shows "blk0 hst (take i ws @ drop i l0) i = (ws ! i, take (Suc i) ws @ drop (Suc i) l0)"
proof -
  have len: "length (chunks_of 4 c) = 16" using assms(1) by (simp add: length_chunks_of)
  then have l: "length ws = 16" "length l0 = 16" by (simp_all add: ws_def l0_def block_words_def)
  have "length (chunks_of 4 c ! i) = 4" using assms(2) len by (intro chunks_of_length [of _ 4 c] nth_mem) simp
  note swap = swap_bytes [OF this]
  have n: "(take i ws @ drop i l0) ! i = l0 ! i" using l assms(2) by (simp add: nth_append)
  have u: "take i ws @ drop i l0 = take i ws @ (l0 ! i) # drop (Suc i) l0"
    "take (Suc i) ws = take i ws @ [ws ! i]"
    using l assms(2) by (simp_all add: Cons_nth_drop_Suc take_Suc_conv_app_nth)
  show ?thesis
  proof (cases "big_endian hst")
    case True
    then have "l0 = ws" by (simp add: l0_def ws_def block_words_def)
    with True n show ?thesis by (simp add: blk0_def)
  next
    case False
    then have "l0 ! i = be_word (rev (chunks_of 4 c ! i))" "ws ! i = be_word (chunks_of 4 c ! i)"
      using len assms(2) by (simp_all add: l0_def ws_def block_words_def)
    with False n swap show ?thesis
      unfolding blk0_def Let_def by (simp add: u list_update_append l assms(2) less_imp_le)
  qed
qed

lemma R0_stage:
  assumes "length c = 64" and "n \<le> 16" and "\<And>i. i < 16 \<Longrightarrow> W ! i = map be_word (chunks_of 4 c) ! i"
  shows "foldl (R0 hst) (block_words hst c, r) [0..<n] =
    (take n (map be_word (chunks_of 4 c)) @ drop n (block_words hst c), foldl (sha1_op W) r [0..<n])"
  using assms(2)
proof (induction n)
  case 0
  show ?case by simp
next
  case (Suc n)
  let ?ws = "map be_word (chunks_of 4 c)" and ?l0 = "block_words hst c"
  have "blk0 hst (take n ?ws @ drop n ?l0) n = (W ! n, take (Suc n) ?ws @ drop (Suc n) ?l0)"
    using blk0_step [OF assms(1), of n hst] assms(3) [of n] Suc.prems by simp
  moreover have "(\<lambda>w x y. (w AND (x XOR y)) XOR y) = sha1_f n" "0x5A827999 = sha1_K n"
    using Suc.prems by (auto simp: sha1_f_def sha1_K_def choose_eq fun_eq_iff)
  ultimately have "R0 hst (take n ?ws @ drop n ?l0, r') n =
      (take (Suc n) ?ws @ drop (Suc n) ?l0, sha1_op W r' n)" for r'
    unfolding R0_def by (rule sha1_R_op)
  then show ?case using Suc by simp
qed

lemma transform_compress:
  assumes "length c = 64"
  shows "transform hst st c = (sha1_compress st c, sha1_scramble hst c)"
proof -
  let ?ws = "map be_word (chunks_of 4 c)" and ?W = "sha1_W c"
  have ws: "length ?ws = 16" using assms by (simp add: length_chunks_of)
  have W: "?W = sha1_schedule ?ws 64" by (simp add: sha1_W_def)
  have lW: "length ?W = 80" using ws by (simp add: W)
  have pre: "take 16 ?W = ?ws" using schedule_prefix [of 0 64 ?ws] ws by (simp add: W)
  then have "?W ! i = ?ws ! i" if "i < 16" for i using that nth_take [of i 16 ?W] by simp
  moreover have "length (block_words hst c) = 16" using ws by (simp add: block_words_def)
  ultimately have s0: "foldl (R0 hst) (block_words hst c, st) [0..<16] =
      (?ws, foldl (sha1_op ?W) st [0..<16])"
    using R0_stage [OF assms, of 16 ?W hst st] ws by simp
  have w0: "window ?ws (take 16 ?W)" using ws unfolding pre by (simp add: window_def)
  define r0 where "r0 = foldl (sha1_op ?W) st [0..<16]"
  obtain l1 where s1: "foldl R1 (?ws, r0) [16..<20] = (l1, foldl (sha1_op ?W) r0 [16..<20])"
      "window l1 (take 20 ?W)"
    using R_stage [OF ws _ _ _ _ W w0, of 20 R1 r0] R_op(1) by fastforce
  define r1 where "r1 = foldl (sha1_op ?W) r0 [16..<20]"
  obtain l2 where s2: "foldl R2 (l1, r1) [20..<40] = (l2, foldl (sha1_op ?W) r1 [20..<40])"
      "window l2 (take 40 ?W)"
    using R_stage [OF ws _ _ _ _ W s1(2), of 40 R2 r1] R_op(2) by fastforce
  define r2 where "r2 = foldl (sha1_op ?W) r1 [20..<40]"
  obtain l3 where s3: "foldl R3 (l2, r2) [40..<60] = (l3, foldl (sha1_op ?W) r2 [40..<60])"
      "window l3 (take 60 ?W)"
    using R_stage [OF ws _ _ _ _ W s2(2), of 60 R3 r2] R_op(3) by fastforce
  define r3 where "r3 = foldl (sha1_op ?W) r2 [40..<60]"
  obtain l4 where s4: "foldl R4 (l3, r3) [60..<80] = (l4, foldl (sha1_op ?W) r3 [60..<80])"
      "window l4 (take 80 ?W)"
    using R_stage [OF ws _ _ _ _ W s3(2), of 80 R4 r3] R_op(4) by fastforce
  have l4: "l4 = drop 64 ?W"
  proof (rule nth_equalityI)
    show "length l4 = length (drop 64 ?W)" using s4(2) lW by (simp add: window_def)
    fix i assume "i < length l4"
    then have i: "i < 16" using s4(2) by (simp add: window_def)
    then have "(64 + i) mod 16 = i" using i by presburger
    then show "l4 ! i = drop 64 ?W ! i" using i window_nth [OF s4(2), of "64 + i"] lW by simp
  qed
  have "[0..<80] = [0..<16] @ [16..<20] @ [20..<40] @ [40..<60] @ [60..<80]" by (simp add: upt_rec)
  then have "foldl (sha1_op ?W) r3 [60..<80] = foldl (sha1_op ?W) st [0..<80]"
    by (simp only: foldl_append r0_def r1_def r2_def r3_def)
  then show ?thesis
    using s0 s1(1) s2(1) s3(1) s4(1) l4
    unfolding transform_def Let_def sha1_compress_def sha1_scramble_def r0_def r1_def r2_def r3_def
    by (simp only: fst_conv snd_conv prod.case) (simp split: prod.splits)
qed

end
