(* ===== verification/Sha1Context.thy ===== *)
theory Sha1Context
  imports Sha1
begin

text \<open>
  \<^verbatim>\<open>sha1_final\<close> and \<^verbatim>\<open>DefaultSHA1Context\<close> of \<^verbatim>\<open>src/qca_default.cpp\<close>, and the proof that the context
  computes SHA-1 of everything it was given.  \<^verbatim>\<open>update\<close> hands \<^verbatim>\<open>sha1_update\<close> a pointer into the
  caller's region; the model returns that region as the call leaves it.
\<close>

section \<open>Model\<close>

lemma sha1_update_count0:
  "sha1_update hst c data len = Some (c', data') \<Longrightarrow> sha1_count0 c' = sha1_count0 c + push_bit 3 (of_nat len)"
  by (auto simp: sha1_update_def sha1_absorb_def sha1_count_def Let_def
      split: if_splits Option.bind_splits prod.splits)

lemma unat_504: "unat (w AND 504) = 8 * (unat w div 8 mod 64)" for w :: u32
proof -
  have m: "(504 :: u32) = push_bit 3 (mask 6)" by (simp add: mask_eq_exp_minus_1)
  have e: "w AND push_bit 3 (mask 6) = push_bit 3 (drop_bit 3 w AND mask 6)"
    by (rule bit_word_eqI) (auto simp: bit_simps)
  have u: "unat (drop_bit 3 w AND mask 6) = unat w div 8 mod 64"
    by (simp only: unat_and_mask unat_drop) simp
  have "unat w div 8 mod 64 < 64" by simp
  then have "unat w div 8 mod 64 * 8 < 512" by linarith
  then have "unat w div 8 mod 64 * 8 < 2 ^ 32" by simp
  then show ?thesis unfolding m e unat_push u by simp
qed

lemma offset_mod: "(a mod 2 ^ 32) div 8 mod 64 = a div 8 mod (64::nat)"
proof -
  have "take_bit 6 (drop_bit 3 (take_bit 32 a)) = take_bit 6 (drop_bit 3 a)"
    by (rule bit_eqI) (auto simp: bit_simps)
  then show ?thesis by (simp add: take_bit_eq_mod drop_bit_eq_div)
qed

text \<open>The bytes still missing to 56 modulo 64.\<close>

definition zeros_left :: "u32 \<Rightarrow> nat" where
  "zeros_left w = (120 - unat w div 8 mod 64) mod 64"

lemma zeros_left_Suc:
  assumes "w AND 504 \<noteq> 448"
  shows "zeros_left w = Suc (zeros_left (w + push_bit 3 (of_nat 1)))"
proof -
  define r where "r = unat w div 8 mod 64"
  have "r \<noteq> 56"
  proof
    assume "r = 56"
    then have "unat (w AND 504) = unat (448 :: u32)" by (simp add: unat_504 r_def)
    with assms show False by (simp only: word_unat_eq_iff)
  qed
  have "push_bit 3 (of_nat 1) = (8 :: u32)" by simp
  moreover have "unat (w + 8) = (unat w + 8) mod 2 ^ 32" by (simp add: unat_word_ariths)
  ultimately have "unat (w + push_bit 3 (of_nat 1)) div 8 mod 64 = (unat w + 8) div 8 mod 64"
    by (simp only: offset_mod)
  also have "(unat w + 8) div 8 mod 64 = (r + 1) mod 64"
    unfolding r_def mod_add_left_eq using div_add_self2 [of 8 "unat w"] by simp
  finally have new: "zeros_left (w + push_bit 3 (of_nat 1)) = (120 - (r + 1) mod 64) mod 64"
    by (simp add: zeros_left_def)
  have "list_all (\<lambda>r. r \<noteq> 56 \<longrightarrow> (120 - r) mod 64 = Suc ((120 - (r + 1) mod 64) mod (64::nat))) [0..<64]"
    by (simp add: upt_rec)
  moreover have "r \<in> set [0..<64]" by (simp add: r_def)
  ultimately have "(120 - r) mod 64 = Suc ((120 - (r + 1) mod 64) mod 64)"
    using \<open>r \<noteq> 56\<close> unfolding list_all_iff by blast
  then show ?thesis using new by (simp add: zeros_left_def r_def)
qed

lemma zeros_left_step:
  "w AND 504 \<noteq> 448 \<Longrightarrow> zeros_left (w + push_bit 3 (of_nat 1)) < zeros_left w"
  using zeros_left_Suc [of w] by linarith

text \<open>The padding loop of \<^verbatim>\<open>sha1_final\<close>: one zero byte at a time until 56 bytes modulo 64.\<close>

function sha1_zeros :: "host \<Rightarrow> sha1_context \<Rightarrow> sha1_context option" where
  "sha1_zeros hst c =
     (if sha1_count0 c AND 504 \<noteq> 448 then
        do { (c, z) \<leftarrow> sha1_update hst c [0] 1; sha1_zeros hst c }
      else Some c)"
  by pat_completeness auto
termination
  by (relation "measure (\<lambda>(hst, c). zeros_left (sha1_count0 c))")
    (auto dest!: sha1_update_count0 intro: zeros_left_step [simplified])

declare sha1_zeros.simps [simp del]

definition sha1_final :: "host \<Rightarrow> sha1_context \<Rightarrow> (sha1_context \<times> bytes) option" where
  "sha1_final hst c =
     do {
       let finalcount = map (\<lambda>i. ucast (drop_bit ((3 - i mod 4) * 8)
                          (if i \<ge> 4 then sha1_count0 c else sha1_count1 c) AND 255)) [0..<8];
       (c, x) \<leftarrow> sha1_update hst c [0x80] 1;
       c \<leftarrow> sha1_zeros hst c;
       (c, x) \<leftarrow> sha1_update hst c finalcount 8;
       let (s0, s1, s2, s3, s4) = sha1_state c;
       let digest = map (\<lambda>i. ucast (drop_bit ((3 - i mod 4) * 8) ([s0, s1, s2, s3, s4] ! (i div 4)) AND 255)) [0..<20];
       Some (c\<lparr>sha1_buffer := replicate 64 0, sha1_state := (0, 0, 0, 0, 0), sha1_count0 := 0,
               sha1_count1 := 0\<rparr>, digest)
     }"

subsection \<open>DefaultSHA1Context\<close>

record sha1_object =
  sha1_ctx :: sha1_context
  sha1_secure :: bool

definition sha1_clear :: "sha1_object \<Rightarrow> sha1_object" where
  "sha1_clear h = h\<lparr>sha1_secure := True, sha1_ctx := sha1_init (sha1_ctx h)\<rparr>"

definition DefaultSHA1Context :: "bool \<Rightarrow> sha1_object" where
  "DefaultSHA1Context uninit_secure = sha1_clear \<lparr>sha1_ctx = SHA1_CONTEXT, sha1_secure = uninit_secure\<rparr>"

definition sha1_object_update ::
    "host \<Rightarrow> sha1_object \<Rightarrow> memory_region \<Rightarrow> (sha1_object \<times> memory_region) option" where
  "sha1_object_update hst h inp =
     do {
       let h = (if \<not> secure inp then h\<lparr>sha1_secure := False\<rparr> else h);
       data \<leftarrow> data_read inp 0 (nat (size_of inp));
       (c, data) \<leftarrow> sha1_update hst (sha1_ctx h) data (nat (size_of inp));
       inp \<leftarrow> data_write inp 0 data;
       Some (h\<lparr>sha1_ctx := c\<rparr>, inp)
     }"

definition sha1_object_final :: "host \<Rightarrow> sha1_object \<Rightarrow> (sha1_object \<times> memory_region) option" where
  "sha1_object_final hst h =
     (if sha1_secure h then
        do {
          b \<leftarrow> SecureArray_size 20 0;
          (c, digest) \<leftarrow> sha1_final hst (sha1_ctx h);
          b \<leftarrow> data_write b 0 digest;
          Some (h\<lparr>sha1_ctx := c\<rparr>, b)
        }
      else
        do {
          let b = replicate 20 0;
          (c, digest) \<leftarrow> sha1_final hst (sha1_ctx h);
          b \<leftarrow> memcpy_at b 0 digest;
          r \<leftarrow> region_bytes b False;
          Some (h\<lparr>sha1_ctx := c\<rparr>, r)
        })"

section \<open>Lemmas\<close>

definition sha1_rep :: "sha1_context \<Rightarrow> bytes \<Rightarrow> bool" where
  "sha1_rep c m \<longleftrightarrow>
     sha1_count0 c = of_nat (8 * length m) \<and> sha1_count1 c = of_nat (8 * length m div 2 ^ 32) \<and>
     sha1_state c = absorb sha1_compress sha1_IV m \<and> length (sha1_buffer c) = 64 \<and>
     take (length m mod 64) (sha1_buffer c) = rest 64 m"

lemma sha1_count_rep:
  assumes "sha1_count0 c = of_nat (8 * l)" and "sha1_count1 c = of_nat (8 * l div 2 ^ 32)" and "n < 2 ^ 32"
  shows "sha1_count c n =
    c\<lparr>sha1_count0 := of_nat (8 * (l + n)), sha1_count1 := of_nat (8 * (l + n) div 2 ^ 32)\<rparr>"
proof -
  have w: "push_bit 3 (of_nat n :: u32) = of_nat (8 * n)" by (simp add: push_bit_eq_mult)
  have "drop_bit 29 (of_nat n :: u32) = of_nat (n div 2 ^ 29)"
    using assms(3) by (intro word_unat_eq_iff [THEN iffD2]) (simp add: unat_drop unat_of_nat)
  moreover have "8 * n div 2 ^ 32 = n div 2 ^ 29"
    using div_mult_mult1 [of 8 n "2 ^ 29"] by simp
  ultimately have h: "drop_bit 29 (of_nat n :: u32) = of_nat (8 * n div 2 ^ 32)" by (simp only:)
  have s: "8 * l + 8 * n = 8 * (l + n)" by simp
  show ?thesis
    using count_high_before [of "8 * l" "8 * n"] of_nat_add [where 'a = "32 word", of "8 * l" "8 * n"]
    unfolding sha1_count_def w h assms Let_def s by (simp only:)
qed

lemma length_sha1_scramble: "length c = 64 \<Longrightarrow> length (sha1_scramble hst c) = 64"
proof -
  assume c: "length c = 64"
  have "length (concat (map (\<lambda>w. if big_endian hst then be_bytes w else rev (be_bytes w)) l)) = 4 * length l"
    for l by (induction l) (auto simp: be_bytes_def)
  moreover have "length (sha1_W c) = 80" using c by (simp add: sha1_W_def length_chunks_of)
  ultimately show ?thesis using c by (simp add: sha1_scramble_def block_bytes_def)
qed

text \<open>What the loop leaves in the caller's data: whole blocks scrambled, the rest as it was.\<close>

definition scrambled :: "host \<Rightarrow> bytes \<Rightarrow> bytes" where
  "scrambled hst y = concat (map (sha1_scramble hst) (chunks_of 64 y)) @ rest 64 y"

lemma scrambled_block: "length b = 64 \<Longrightarrow> scrambled hst (b @ y) = sha1_scramble hst b @ scrambled hst y"
  by (simp add: scrambled_def chunks_of_block rest_block)

lemma length_scrambled_whole: "length (concat (map (sha1_scramble hst) (chunks_of 64 y))) = length y div 64 * 64"
proof -
  have "length (concat (map (sha1_scramble hst) bs)) = length bs * 64" if "\<forall>b\<in>set bs. length b = 64" for bs
    using that by (induction bs) (auto simp: length_sha1_scramble)
  then show ?thesis using chunks_of_length [of _ 64 y] by (simp add: length_chunks_of)
qed

lemma length_scrambled [simp]: "length (scrambled hst y) = length y"
  by (simp add: scrambled_def length_scrambled_whole)

lemma sha1_blocks_absorb:
  "sha1_blocks hst st (pre @ y) (length pre) (length (pre @ y)) =
    Some (absorb sha1_compress st y, pre @ scrambled hst y, length pre + length y div 64 * 64)"
proof (induction "length y" arbitrary: st pre y rule: less_induct)
  case less
  show ?case
  proof (cases "length y < 64")
    case True
    then show ?thesis
      by (subst sha1_blocks.simps) (simp add: absorb_short scrambled_def rest_short)
  next
    case False
    let ?b = "take 64 y" and ?z = "drop 64 y"
    let ?s = "sha1_scramble hst ?b"
    have y: "y = ?b @ ?z" by simp
    have b: "length ?b = 64" "length ?s = 64" using False by (simp_all add: length_sha1_scramble)
    have sl: "mem_slice (pre @ y) (length pre) 64 = Some ?b" using False by (simp add: mem_slice_in)
    have cp: "memcpy_at (pre @ y) (length pre) ?s = Some ((pre @ ?s) @ ?z)"
      using False b by (simp add: memcpy_at_in)
    have ih: "sha1_blocks hst (sha1_compress st ?b) ((pre @ ?s) @ ?z) (length (pre @ ?s)) (length ((pre @ ?s) @ ?z)) =
      Some (absorb sha1_compress (sha1_compress st ?b) ?z, (pre @ ?s) @ scrambled hst ?z,
        length (pre @ ?s) + length ?z div 64 * 64)"
      using False by (intro less) simp
    have len: "length ((pre @ ?s) @ ?z) = length (pre @ y)" "length (pre @ ?s) = length pre + 64"
      using b False by simp_all
    have n: "length pre + 64 + length ?z div 64 * 64 = length pre + length y div 64 * 64"
      using False by (simp add: le_div_geq)
    have go: "length pre + 63 < length (pre @ y)" using False by simp
    have "sha1_blocks hst st (pre @ y) (length pre) (length (pre @ y)) =
        sha1_blocks hst (sha1_compress st ?b) ((pre @ ?s) @ ?z) (length pre + 64) (length (pre @ y))"
      by (subst sha1_blocks.simps) (simp only: go if_True sl cp transform_compress [OF b(1)] Let_def
          Option.bind.simps prod.case)
    also have "\<dots> = Some (absorb sha1_compress (sha1_compress st ?b) ?z, (pre @ ?s) @ scrambled hst ?z,
        length pre + length y div 64 * 64)"
      using ih unfolding len n .
    also have "absorb sha1_compress (sha1_compress st ?b) ?z = absorb sha1_compress st y"
      using absorb_block [OF b(1), of sha1_compress st ?z] by simp
    also have "(pre @ ?s) @ scrambled hst ?z = pre @ scrambled hst y"
      using scrambled_block [OF b(1), of hst ?z] by simp
    finally show ?thesis .
  qed
qed

text \<open>The caller's data after an update.\<close>

definition overwritten :: "host \<Rightarrow> nat \<Rightarrow> bytes \<Rightarrow> bytes" where
  "overwritten hst j x =
     (if j + length x > 63 then take (64 - j) x @ scrambled hst (drop (64 - j) x) else x)"

lemma sha1_rep_advance:
  assumes "sha1_rep c m" and "length x < 2 ^ 32" and "length buf = 64"
    and "take (length (m @ x) mod 64) buf = rest 64 (m @ x)"
  shows "sha1_rep ((sha1_count c (length x))\<lparr>sha1_state := absorb sha1_compress sha1_IV (m @ x),
    sha1_buffer := buf\<rparr>) (m @ x)"
  using assms sha1_count_rep [of c "length m" "length x"] by (simp add: sha1_rep_def)

lemma sha1_rep_buffer:
  assumes "sha1_rep c m"
  shows "sha1_update hst c x (length x) = sha1_absorb hst (sha1_count c (length x)) x (length x) (length m mod 64)"
    and "length (sha1_buffer (sha1_count c n)) = 64"
    and "take (length m mod 64) (sha1_buffer (sha1_count c n)) = rest 64 m"
    and "absorb sha1_compress (sha1_state (sha1_count c n)) (rest 64 m @ x) = absorb sha1_compress sha1_IV (m @ x)"
proof -
  show "sha1_update hst c x (length x) = sha1_absorb hst (sha1_count c (length x)) x (length x) (length m mod 64)"
    using assms count_offset [of "length m"] by (simp add: sha1_update_def sha1_rep_def)
  have "sha1_state (sha1_count c n) = absorb sha1_compress sha1_IV m"
    using assms by (simp add: sha1_rep_def sha1_count_def Let_def)
  then show "absorb sha1_compress (sha1_state (sha1_count c n)) (rest 64 m @ x) = absorb sha1_compress sha1_IV (m @ x)"
    by (simp add: absorb_append [of _ _ m])
qed (use assms in \<open>auto simp: sha1_rep_def sha1_count_def Let_def\<close>)

lemma sha1_update_short:
  assumes rep: "sha1_rep c m" and n: "length x < 2 ^ 32" and short: "length m mod 64 + length x < 64"
  shows "\<exists>c'. sha1_update hst c x (length x) = Some (c', x) \<and> sha1_rep c' (m @ x)"
proof -
  let ?o = "length m mod 64" and ?p = "sha1_count c (length x)"
  note buf = sha1_rep_buffer(2,3) [OF rep, of "length x"]
  let ?b = "rest 64 m @ x @ drop (?o + length x) (sha1_buffer ?p)"
  have cp: "memcpy_at (sha1_buffer ?p) ?o x = Some ?b" using short buf by (simp add: memcpy_at_in)
  have lb: "length ?b = 64" using short buf by simp
  have sh: "length (rest 64 m @ x) < 64" using short by simp
  have re: "rest 64 (m @ x) = rest 64 m @ x"
    using whole_rest_append(2) [of 64 m x] rest_short [OF sh] by simp
  have "length (m @ x) mod 64 = ?o + length x"
    using short mod_add_left_eq [of "length m" 64 "length x"] by simp
  then have tk: "take (length (m @ x) mod 64) ?b = rest 64 (m @ x)" unfolding re by simp
  have "absorb sha1_compress sha1_IV (m @ x) = sha1_state ?p"
    unfolding sha1_rep_buffer(4) [OF rep, symmetric, of x "length x"] by (rule absorb_short [OF sh])
  from sha1_rep_advance [OF rep n lb tk, unfolded this]
  have "sha1_rep (?p\<lparr>sha1_buffer := ?b\<rparr>) (m @ x)" by simp
  with short cp show ?thesis
    by (simp add: sha1_rep_buffer(1) [OF rep] sha1_absorb_def mem_slice_all)
qed

text \<open>The bytes behind the last whole block, read after the loop.\<close>

lemma scrambled_rest:
  "mem_slice (xs @ scrambled hst y) (length xs + length y div 64 * 64)
     (length (xs @ y) - (length xs + length y div 64 * 64)) = Some (rest 64 y)"
proof -
  let ?w = "length y div 64 * 64"
  have n: "length (xs @ y) - (length xs + ?w) = length y mod 64"
    by (simp add: minus_div_mult_eq_mod [symmetric])
  have "length xs + ?w + length y mod 64 \<le> length (xs @ scrambled hst y)" by simp
  then have "mem_slice (xs @ scrambled hst y) (length xs + ?w) (length y mod 64) =
      Some (take (length y mod 64) (drop (length xs + ?w) (xs @ scrambled hst y)))"
    by (rule mem_slice_in)
  moreover have "drop (length xs + ?w) (xs @ scrambled hst y) = rest 64 y"
    by (simp add: scrambled_def length_scrambled_whole)
  ultimately show ?thesis unfolding n by (simp only:) simp
qed

lemma sha1_update_full:
  assumes rep: "sha1_rep c m" and n: "length x < 2 ^ 32" and full: "length m mod 64 + length x > 63"
  defines "k \<equiv> 64 - length m mod 64"
  shows "\<exists>c'. sha1_update hst c x (length x) = Some (c', take k x @ scrambled hst (drop k x)) \<and>
    sha1_rep c' (m @ x)"
proof -
  let ?o = "length m mod 64" and ?p = "sha1_count c (length x)"
  note buf = sha1_rep_buffer(2,3) [OF rep, of "length x"]
  let ?x = "take k x" and ?y = "drop k x"
  let ?b = "rest 64 m @ ?x" and ?w = "length ?y div 64 * 64"
  have o64: "?o < 64" by simp
  have lx: "length ?x = k" using full o64 by (simp add: k_def)
  have lb: "length ?b = 64" using lx o64 by (simp add: k_def)
  let ?B = "sha1_scramble hst ?b"
  let ?B' = "rest 64 ?y @ drop (length ?y mod 64) ?B"
  have lB: "length ?B = 64" using lb by (rule length_sha1_scramble)
  have all: "rest 64 m @ x = ?b @ ?y" by simp
  have i: "mem_slice (?x @ scrambled hst ?y) (length ?x + ?w) (length x - (length ?x + ?w)) = Some (rest 64 ?y)"
    using scrambled_rest [of ?x hst ?y] by simp
  have cp: "memcpy_at ?B 0 (rest 64 ?y) = Some ?B'"
    using lB by (simp add: memcpy_at_in mod_less_divisor less_imp_le)
  have sl: "mem_slice x 0 k = Some ?x" using full by (simp add: mem_slice_in k_def)
  have cp0: "memcpy_at (sha1_buffer ?p) ?o ?x = Some ?b"
    using lx buf o64 by (simp add: memcpy_at_in k_def)
  have bl: "sha1_blocks hst (sha1_compress (sha1_state ?p) ?b) x k (length x) =
      Some (absorb sha1_compress (sha1_compress (sha1_state ?p) ?b) ?y, ?x @ scrambled hst ?y, length ?x + ?w)"
    using sha1_blocks_absorb [of hst _ ?x ?y] lx by simp
  have st: "absorb sha1_compress (sha1_compress (sha1_state ?p) ?b) ?y = absorb sha1_compress sha1_IV (m @ x)"
    unfolding sha1_rep_buffer(4) [OF rep, symmetric, of x "length x"] all absorb_block [OF lb] ..
  have "sha1_update hst c x (length x) = Some (?p\<lparr>sha1_state := absorb sha1_compress sha1_IV (m @ x),
      sha1_buffer := ?B'\<rparr>, ?x @ scrambled hst ?y)"
    using full unfolding sha1_rep_buffer(1) [OF rep] sha1_absorb_def k_def [symmetric]
    by (simp only: if_True sl cp0 transform_compress [OF lb] Let_def prod.case Option.bind.simps bl st i cp)
  moreover have "take (length (m @ x) mod 64) ?B' = rest 64 (m @ x)"
  proof -
    have "(?o + length x) mod 64 = (64 + length ?y) mod 64"
      using full o64 by (intro arg_cong [of _ _ "\<lambda>i. i mod 64"]) (simp add: k_def)
    then have "length (m @ x) mod 64 = length ?y mod 64"
      by (simp only: length_append mod_add_left_eq mod_add_self1)
    moreover have "rest 64 (m @ x) = rest 64 ?y"
      using whole_rest_append(2) [of 64 m x] rest_block [OF _ lb, of ?y] by simp
    ultimately show ?thesis by simp
  qed
  ultimately show ?thesis using sha1_rep_advance [OF rep n, of ?B'] lB by simp
qed

lemma sha1_update_rep:
  assumes "sha1_rep c m" and "length x < 2 ^ 32"
  shows "\<exists>c'. sha1_update hst c x (length x) = Some (c', overwritten hst (length m mod 64) x) \<and>
    sha1_rep c' (m @ x)"
proof (cases "length m mod 64 + length x > 63")
  case True
  with sha1_update_full [OF assms True] show ?thesis by (simp add: overwritten_def)
next
  case False
  with sha1_update_short [OF assms] show ?thesis by (simp add: overwritten_def)
qed

section \<open>The digest\<close>

lemma sha1_zeros_rep:
  assumes "sha1_rep c m"
  shows "\<exists>c'. sha1_zeros hst c = Some c' \<and> sha1_rep c' (m @ replicate (zeros_left (sha1_count0 c)) 0)"
  using assms
proof (induction "zeros_left (sha1_count0 c)" arbitrary: c m rule: less_induct)
  case less
  show ?case
  proof (cases "sha1_count0 c AND 504 = 448")
    case True
    then have "8 * (unat (sha1_count0 c) div 8 mod 64) = 448"
      using unat_504 [of "sha1_count0 c"] by simp
    then have "zeros_left (sha1_count0 c) = 0" by (simp add: zeros_left_def)
    with True less.prems show ?thesis by (subst sha1_zeros.simps) simp
  next
    case False
    obtain c1 z where c1: "sha1_update hst c [0] 1 = Some (c1, z)" "sha1_rep c1 (m @ [0])"
      using sha1_update_rep [OF less.prems, of "[0]" hst] by auto
    have c: "sha1_count0 c1 = sha1_count0 c + push_bit 3 (of_nat 1)"
      using sha1_update_count0 [OF c1(1)] by simp
    have lt: "zeros_left (sha1_count0 c1) < zeros_left (sha1_count0 c)"
      unfolding c using False by (rule zeros_left_step)
    have eq: "zeros_left (sha1_count0 c) = Suc (zeros_left (sha1_count0 c1))"
      unfolding c using False by (rule zeros_left_Suc)
    have "sha1_zeros hst c = sha1_zeros hst c1"
      using False c1(1) by (subst sha1_zeros.simps) simp
    with less.hyps [OF lt c1(2)] eq show ?thesis by simp
  qed
qed

lemma ucast_and_255: "(ucast (w AND 255) :: byte) = ucast w" for w :: u32
proof -
  have "(255 :: u32) = mask 8" by (simp add: mask_eq_exp_minus_1)
  then have "w AND 255 = take_bit 8 w" by (simp only: take_bit_eq_mask)
  then show ?thesis by (simp only:) (rule bit_word_eqI, auto simp: bit_simps)
qed

lemma zeros_left_pad: "zeros_left (of_nat (8 * (l + 1))) = pad_zeros l"
proof -
  have "unat (of_nat (8 * (l + 1)) :: u32) div 8 mod 64 = (l mod 64 + 1) mod 64"
    by (simp only: unat_of_nat len_of_finite_1_def) (simp add: offset_mod [simplified] mod_Suc_eq)
  moreover have "list_all (\<lambda>r. (120 - (r + 1) mod 64) mod 64 = (119 - r) mod (64::nat)) [0..<64]"
    by (simp add: upt_rec)
  moreover have "l mod 64 \<in> set [0..<64]" by simp
  ultimately show ?thesis unfolding zeros_left_def pad_zeros_def list_all_iff by (simp only:)
qed

lemma sha1_finalcount:
  assumes "sha1_rep c m"
  shows "map (\<lambda>i. ucast (drop_bit ((3 - i mod 4) * 8)
      (if i \<ge> 4 then sha1_count0 c else sha1_count1 c) AND 255)) [0..<8] = rev (len_bytes (length m))"
  using assms word_byte [of 0 "8 * length m"] word_byte [of 1 "8 * length m"]
    word_byte [of 2 "8 * length m"] word_byte [of 3 "8 * length m"]
    word_byte [of 0 "8 * length m div 2 ^ 32"] word_byte [of 1 "8 * length m div 2 ^ 32"]
    word_byte [of 2 "8 * length m div 2 ^ 32"] word_byte [of 3 "8 * length m div 2 ^ 32"]
  by (simp add: len_bytes_def upt_rec sha1_rep_def div_mult2_eq [symmetric] ucast_and_255)

lemma sha1_final_rep:
  assumes rep: "sha1_rep c m"
  shows "\<exists>c'. sha1_final hst c = Some (c', sha1_spec m)"
proof -
  let ?z = "pad_zeros (length m)" and ?n = "rev (len_bytes (length m))"
  obtain c1 x1 where c1: "sha1_update hst c [0x80] 1 = Some (c1, x1)" "sha1_rep c1 (m @ [0x80])"
    using sha1_update_rep [OF rep, of "[0x80]" hst] by auto
  have "zeros_left (sha1_count0 c1) = ?z"
    using c1(2) zeros_left_pad [of "length m"] by (simp add: sha1_rep_def)
  then obtain c2 where c2: "sha1_zeros hst c1 = Some c2" "sha1_rep c2 ((m @ [0x80]) @ replicate ?z 0)"
    using sha1_zeros_rep [OF c1(2), of hst] by auto
  have n8: "length ?n = 8" by (simp add: len_bytes_def)
  then obtain c3 x3 where c3: "sha1_update hst c2 ?n 8 = Some (c3, x3)"
      "sha1_rep c3 (((m @ [0x80]) @ replicate ?z 0) @ ?n)"
    using sha1_update_rep [OF c2(2), of ?n hst] by (auto simp del: length_rev)
  have "((m @ [0x80]) @ replicate ?z 0) @ ?n = md_pad rev m" by (simp add: md_pad_def)
  with c3(2) have "sha1_state c3 = absorb sha1_compress sha1_IV (md_pad rev m)"
    by (simp only:) (simp add: sha1_rep_def)
  then have "(let (s0, s1, s2, s3, s4) = sha1_state c3 in
      map (\<lambda>i. ucast (drop_bit ((3 - i mod 4) * 8) ([s0, s1, s2, s3, s4] ! (i div 4)) AND 255)) [0..<20]) = sha1_spec m"
    by (auto simp: sha1_spec_def be_bytes_def upt_rec ucast_and_255 split: prod.splits)
  with c1(1) c2(1) c3(1) show ?thesis
    unfolding sha1_final_def sha1_finalcount [OF rep] by (auto simp: Let_def split: prod.splits)
qed

interpretation sha1: digest "Some (sha1_init SHA1_CONTEXT)"
  "\<lambda>s x. Option.bind s (\<lambda>c. map_option fst (sha1_update hst c x (length x)))"
  "\<lambda>s. map_option snd (Option.bind s (sha1_final hst))"
  "\<lambda>s m. \<exists>c. s = Some c \<and> sha1_rep c m" "\<lambda>m. Some (sha1_spec m)" "\<lambda>x. length x < 2 ^ 32"
proof (unfold_locales, goal_cases)
  case 1
  show ?case by (simp add: sha1_rep_def sha1_init_def SHA1_CONTEXT_def sha1_IV_def)
next
  case (2 s m x)
  then obtain c where "s = Some c" "sha1_rep c m" by blast
  with sha1_update_rep [of c m x hst] 2(2) show ?case by auto
next
  case (3 s m)
  then show ?case using sha1_final_rep by fastforce
qed

section \<open>The hash context\<close>

definition sha1_object_rep :: "sha1_object \<Rightarrow> bool \<Rightarrow> bytes \<Rightarrow> bool" where
  "sha1_object_rep h s m \<longleftrightarrow> sha1_secure h = s \<and> sha1_rep (sha1_ctx h) m"

lemma length_overwritten: "length (overwritten hst j x) = length x"
  by (simp add: overwritten_def)

lemma sha1_object_update_rep:
  assumes "sha1_object_rep h s m" and "hash_input r"
  shows "\<exists>h' r'. sha1_object_update hst h r = Some (h', r') \<and> region_inv r' \<and> secure r' = secure r \<and>
    content r' = overwritten hst (length m mod 64) (content r) \<and>
    sha1_object_rep h' (s \<and> secure r) (m @ content r)"
proof -
  let ?x = "content r"
  have r: "region_inv r" "size_of r = int (length ?x)" "length ?x < 2 ^ 32"
    using assms(2) by (auto simp: hash_input_def size_of_content INT_MAX_def)
  have read: "data_read r 0 (length ?x) = Some ?x"
    using data_read_content [OF r(1)] by (simp add: r(2))
  obtain c where c: "sha1_update hst (sha1_ctx h) ?x (length ?x) = Some (c, overwritten hst (length m mod 64) ?x)"
    "sha1_rep c (m @ ?x)"
    using sha1_update_rep [of "sha1_ctx h" m ?x hst] assms(1) r(3) by (auto simp: sha1_object_rep_def)
  obtain r' where "data_write r 0 (overwritten hst (length m mod 64) ?x) = Some r'" "region_inv r'"
    "secure r' = secure r" "content r' = take 0 ?x @ overwritten hst (length m mod 64) ?x @
      drop (0 + length (overwritten hst (length m mod 64) ?x)) ?x"
    by (rule data_write_in [OF r(1), of 0 "overwritten hst (length m mod 64) ?x"])
      (simp add: length_overwritten)
  with assms(1) read c show ?thesis
    by (auto simp: sha1_object_update_def sha1_object_rep_def r(2) Let_def length_overwritten)
qed

lemma sha1_run_rep:
  "sha1_object_rep h s m \<Longrightarrow> list_all hash_input rs \<Longrightarrow>
   \<exists>h'. hash_run (\<lambda>h r. map_option fst (sha1_object_update hst h r)) h rs = Some h' \<and>
     sha1_object_rep h' (s \<and> list_all secure rs) (m @ concat (map content rs))"
proof (induction rs arbitrary: h s m)
  case Nil
  then show ?case by simp
next
  case (Cons r rs)
  then obtain h1 r1 where h1: "sha1_object_update hst h r = Some (h1, r1)"
    "sha1_object_rep h1 (s \<and> secure r) (m @ content r)"
    using sha1_object_update_rep [of h s m r hst] by auto
  with Cons.IH [OF h1(2)] Cons.prems(2) show ?case by auto
qed

lemma length_sha1_spec: "length (sha1_spec m) = 20"
  by (simp add: sha1_spec_def be_bytes_def split: prod.splits)

lemma sha1_object_final_rep:
  assumes "sha1_object_rep h s m"
  shows "\<exists>h' r. sha1_object_final hst h = Some (h', r) \<and> region_inv r \<and> secure r = s \<and> content r = sha1_spec m"
proof -
  obtain c where p: "sha1_final hst (sha1_ctx h) = Some (c, sha1_spec m)"
    using sha1_final_rep assms by (fastforce simp: sha1_object_rep_def)
  show ?thesis
  proof (cases s)
    case True
    obtain r where "data_write (region_size 20 True) 0 (sha1_spec m) = Some r" "region_inv r"
      "secure r" "content r = sha1_spec m"
      using secure_fill [of "sha1_spec m" 20] by (auto simp: length_sha1_spec)
    with True p assms show ?thesis
      by (auto simp: sha1_object_final_def sha1_object_rep_def SecureArray_size_def)
  next
    case False
    have "memcpy_at (replicate 20 0) 0 (sha1_spec m) = Some (sha1_spec m)"
      by (rule memcpy_at_whole) (simp add: length_sha1_spec)
    moreover obtain r where "region_bytes (sha1_spec m) False = Some r" "region_inv r"
      "secure r = False" "content r = sha1_spec m"
      by (rule region_bytes_inv [of "sha1_spec m" False]) (simp_all add: length_sha1_spec INT_MAX_def)
    ultimately show ?thesis using False p assms by (auto simp: sha1_object_final_def sha1_object_rep_def)
  qed
qed

section \<open>The schedule as a sliding window\<close>

definition slide :: "u32 list \<Rightarrow> u32 list" where
  "slide l = tl l @ [rol32 (l ! 13 XOR l ! 8 XOR l ! 2 XOR l ! 0) 1]"

lemma funpow_forward: "(f ^^ numeral k) x = (f ^^ pred_numeral k) (f x)"
  by (simp add: numeral_eq_Suc funpow_swap1 del: funpow.simps(2)) (simp add: funpow_swap1)

lemma schedule_slide:
  assumes "length ws = 16"
  shows "drop n (sha1_schedule ws n) = (slide ^^ n) ws"
proof (induction n)
  case (Suc n)
  let ?s = "sha1_schedule ws n" and ?l = "(slide ^^ n) ws"
  have l: "length ?s = 16 + n" using assms by simp
  have i: "?s ! (k + n) = ?l ! k" if "k < 16" for k
    using that l unfolding Suc [symmetric] by (simp add: add.commute)
  have "16 + n - 3 = 13 + n" "16 + n - 8 = 8 + n" "16 + n - 14 = 2 + n" "16 + n - 16 = 0 + n" by simp_all
  then have "sha1_schedule ws (Suc n) = ?s @ [rol32 (?l ! 13 XOR ?l ! 8 XOR ?l ! 2 XOR ?l ! 0) 1]"
    using i [of 13] i [of 8] i [of 2] i [of 0] l by (simp add: Let_def rol32_word_rotl)
  moreover have "drop (Suc n) ?s = tl ?l" unfolding Suc [symmetric] by (simp add: drop_Suc tl_drop)
  ultimately have "drop (Suc n) (sha1_schedule ws (Suc n)) = slide ?l"
    unfolding slide_def using l by (simp only: drop_append) simp
  then show ?case by (simp only: funpow.simps o_apply)
qed simp

lemma slide_list:
  "slide [w0, w1, w2, w3, w4, w5, w6, w7, w8, w9, w10, w11, w12, w13, w14, w15] =
    [w1, w2, w3, w4, w5, w6, w7, w8, w9, w10, w11, w12, w13, w14, w15, rol32 (w13 XOR w8 XOR w2 XOR w0) 1]"
  by (simp add: slide_def)

section \<open>Properties\<close>

text \<open>
  \<^verbatim>\<open>transform\<close> computes the compression function of FIPS 180-1 on every host: the in-place
  byte swap, the sixteen-word circular schedule and the eighty unrolled macros are the
  schedule and operations of the standard.  Off ARM the block is left holding the last
  sixteen words of the schedule.
\<close>

theorem sha1_transform_is_fips:
  assumes "length block = 64"
  shows "transform hst st block =
    (sha1_compress st block, if arm hst then block else block_bytes hst (drop 64 (sha1_W block)))"
  using transform_compress [OF assms] by (simp add: sha1_scramble_def)

theorem sha1_transform_is_fips_witness:
  "length (replicate 64 (0 :: byte)) = 64 \<and>
   fst (transform \<lparr>big_endian = False, arm = False\<rparr> sha1_IV (replicate 64 0)) = sha1_compress sha1_IV (replicate 64 0)"
  using sha1_transform_is_fips [of "replicate 64 0" "\<lparr>big_endian = False, arm = False\<rparr>" sha1_IV] by simp

text \<open>
  C14. The SHA-1 context: for every list of inputs \<^verbatim>\<open>final\<close> returns the SHA-1 digest of their
  concatenation, no call leaves its buffers, the padding loop ends, and the digest is in
  locked memory exactly when every input was.
\<close>

theorem sha1_context_digest:
  assumes "list_all hash_input rs"
  shows "\<exists>h h' r. hash_run (\<lambda>h r. map_option fst (sha1_object_update hst h r)) (DefaultSHA1Context u) rs = Some h \<and>
    sha1_object_final hst h = Some (h', r) \<and>
    toByteArray r = Some (sha1_spec (concat (map content rs))) \<and> secure r = list_all secure rs"
proof -
  have "sha1_object_rep (DefaultSHA1Context u) True []"
    using sha1.rep_init by (simp add: sha1_object_rep_def DefaultSHA1Context_def sha1_clear_def)
  from sha1_run_rep [OF this assms, of hst] obtain h where
    "hash_run (\<lambda>h r. map_option fst (sha1_object_update hst h r)) (DefaultSHA1Context u) rs = Some h"
    "sha1_object_rep h (list_all secure rs) (concat (map content rs))" by auto
  with sha1_object_final_rep [of h _ _ hst] show ?thesis by fastforce
qed

definition sha1_input :: memory_region where
  "sha1_input = \<lparr>secure = False, priv = Some \<lparr>sec = False, ai_data = IntoQbuf, ai_size = 128,
     sbuf = None, qbuf = Some (replicate 64 0 @ [0, 0, 0, 1] @ replicate 60 0)\<rparr>\<rparr>"

lemma sha1_input_props:
  "hash_input sha1_input" "content sha1_input = replicate 64 0 @ [0, 0, 0, 1] @ replicate 60 0"
  "\<not> secure sha1_input"
  by (simp_all add: hash_input_def sha1_input_def region_inv_def ai_inv_def size_of_def INT_MAX_def
      content_def ai_content_def)

theorem sha1_context_digest_witness:
  "list_all hash_input [sha1_input, sha1_input] \<and>
   (\<exists>h h' r. hash_run (\<lambda>h r. map_option fst (sha1_object_update \<lparr>big_endian = False, arm = False\<rparr> h r))
       (DefaultSHA1Context False) [sha1_input, sha1_input] = Some h \<and>
     sha1_object_final \<lparr>big_endian = False, arm = False\<rparr> h = Some (h', r) \<and> \<not> secure r)"
  using sha1_context_digest [of "[sha1_input, sha1_input]" "\<lparr>big_endian = False, arm = False\<rparr>" False]
    sha1_input_props by auto

text \<open>
  What an update does to the caller's region: the bytes that complete the pending block
  and those behind the last whole block are kept, but every whole block in between is
  replaced by the last sixteen words of its message schedule (except on ARM).  So a second
  use of the same region after an update hashes or reads different bytes.
\<close>

theorem sha1_update_overwrites_input:
  assumes "sha1_object_rep h s m" and "hash_input r"
  defines "k \<equiv> 64 - length m mod 64"
  shows "\<exists>h' r'. sha1_object_update hst h r = Some (h', r') \<and>
    toByteArray r' = Some (if length m mod 64 + length (content r) < 64 then content r
      else take k (content r) @ concat (map (sha1_scramble hst) (chunks_of 64 (drop k (content r)))) @
        rest 64 (drop k (content r)))"
  using sha1_object_update_rep [OF assms(1,2), of hst]
  by (auto simp: overwritten_def scrambled_def k_def)

theorem sha1_update_overwrites_input_witness:
  "sha1_object_rep (DefaultSHA1Context False) True [] \<and>
   (\<exists>h' r'. sha1_object_update \<lparr>big_endian = False, arm = False\<rparr> (DefaultSHA1Context False) sha1_input = Some (h', r') \<and>
     toByteArray r' \<noteq> toByteArray sha1_input)"
proof -
  let ?h = "\<lparr>big_endian = False, arm = False\<rparr>" and ?b = "[0, 0, 0, 1] @ replicate 60 (0 :: byte)"
  have rep: "sha1_object_rep (DefaultSHA1Context False) True []"
    using sha1.rep_init by (simp add: sha1_object_rep_def DefaultSHA1Context_def sha1_clear_def)
  have b: "length ?b = 64" "?b = [0, 0, 0, 1] @ concat (replicate 15 [0, 0, 0, 0])"
    by (simp_all add: numeral_eq_Suc)
  have "map be_word (chunks_of 4 ?b) = [1, 0, 0, 0, 0, 0, 0, 0, 0, 0, 0, 0, 0, 0, 0, 0]"
  proof -
    have "chunks_of 4 (concat (replicate n [0, 0, 0, 0 :: byte])) = replicate n [0, 0, 0, 0]" for n
      by (induction n) (use chunks_of_block [of 4 "[0, 0, 0, 0 :: byte]"] in auto)
    moreover have "replicate 15 (0 :: u32) = [0, 0, 0, 0, 0, 0, 0, 0, 0, 0, 0, 0, 0, 0, 0]"
      by (simp add: numeral_eq_Suc)
    ultimately show ?thesis
      unfolding b(2) by (simp add: chunks_of_block [of 4 "[0, 0, 0, 1]", simplified] be_word4)
  qed
  then have "drop 64 (sha1_W ?b) = (slide ^^ 64) [1, 0, 0, 0, 0, 0, 0, 0, 0, 0, 0, 0, 0, 0, 0, 0]"
    using schedule_slide [of "[1, 0, 0, 0, 0, 0, 0, 0, 0, 0, 0, 0, 0, 0, 0, 0]" 64] by (simp add: sha1_W_def)
  then have "hd (sha1_scramble ?h ?b) \<noteq> hd ?b"
    by (simp add: sha1_scramble_def block_bytes_def be_bytes_def funpow_forward slide_list rol32_def upt_rec)
  then have "sha1_scramble ?h ?b \<noteq> ?b" by metis
  moreover have "chunks_of 64 ?b = [?b]" "rest 64 ?b = []" "drop 64 (content sha1_input) = ?b"
    using b(1) chunks_of_block [of 64 ?b "[]"] by (simp_all add: sha1_input_props rest_def)
  ultimately show ?thesis
    using sha1_update_overwrites_input [OF rep sha1_input_props(1), of ?h] rep sha1_input_props
    by (auto simp: hash_input_def)
qed

end
