(* ===== verification/DefaultProvider.thy ===== *)
theory DefaultProvider
  imports KeyStoreEntry Md5 Sha1Context
begin

text \<open>
  The default provider of \<^verbatim>\<open>src/qca_default.cpp\<close>: the configuration shared with its contexts
  (\<^verbatim>\<open>DefaultShared\<close>), the key store list, the features and \<^verbatim>\<open>createContext\<close>, and the parsing of the
  configuration.

  Parameters: Qt's \<^verbatim>\<open>QString::trimmed\<close>, \<^verbatim>\<open>QStringView::toInt\<close> and \<^verbatim>\<open>qHash\<close>; the support of certificates
  by other plugins; the system store and the reading of a file of certificates; the names that
  \<^verbatim>\<open>makeFriendlyNames\<close> gives.  The mutex of \<^verbatim>\<open>DefaultShared\<close> makes each accessor atomic; the model
  takes each as one step.
\<close>

section \<open>Model\<close>

subsection \<open>DefaultShared\<close>

record default_shared =
  ds_use_system :: bool
  ds_roots_file :: qstring
  ds_skip_plugins :: "qstring list"
  ds_plugin_priorities :: "qstring list"

definition DefaultShared :: default_shared where
  "DefaultShared = \<lparr>ds_use_system = True, ds_roots_file = [], ds_skip_plugins = [], ds_plugin_priorities = []\<rparr>"

definition shared_set :: "default_shared \<Rightarrow> bool \<Rightarrow> qstring \<Rightarrow> qstring list \<Rightarrow> qstring list \<Rightarrow> default_shared" where
  "shared_set sh use_system roots_file skip_plugins plugin_priorities =
     sh\<lparr>ds_use_system := use_system, ds_roots_file := roots_file, ds_skip_plugins := skip_plugins,
        ds_plugin_priorities := plugin_priorities\<rparr>"

subsection \<open>DefaultKeyStoreList\<close>

definition kse_simpleId ::
    "(bytes \<Rightarrow> qstring) \<Rightarrow> ('c \<Rightarrow> bytes) \<Rightarrow> ('r \<Rightarrow> bytes) \<Rightarrow> ('c, 'r) keystore_entry \<Rightarrow> qstring" where
  "kse_simpleId hash_number cert_toDER crl_toDER e =
     (case kse_object e of
        TypeCertificate c \<Rightarrow> hash_number (cert_toDER c)
      | TypeCRL r \<Rightarrow> hash_number (crl_toDER r))"

definition kse_simpleName ::
    "('c \<Rightarrow> qstring) \<Rightarrow> ('c \<Rightarrow> qstring) \<Rightarrow> ('r \<Rightarrow> qstring) \<Rightarrow> ('c, 'r) keystore_entry \<Rightarrow> qstring" where
  "kse_simpleName commonName organization issuerCommonName e =
     (case kse_object e of
        TypeCertificate c \<Rightarrow> (if commonName c = [] then organization c else commonName c)
      | TypeCRL r \<Rightarrow> issuerCommonName r)"

record keystore_list =
  x509_supported :: bool
  ksl_busy :: bool \<comment> \<open>\<^verbatim>\<open>busyEnd\<close> has been queued\<close>

definition ksl_start :: "keystore_list \<Rightarrow> keystore_list" where
  "ksl_start k = k\<lparr>x509_supported := False, ksl_busy := True\<rparr>"

definition ksl_keyStores :: "bool \<Rightarrow> bool \<Rightarrow> default_shared \<Rightarrow> keystore_list \<Rightarrow> keystore_list \<times> int list" where
  "ksl_keyStores cert_supported system_available sh k =
     (let k = (if \<not> x509_supported k then (if cert_supported then k\<lparr>x509_supported := True\<rparr> else k) else k);
          have_systemstore = (if ds_use_system sh then system_available else False);
          list = (if x509_supported k \<and> (have_systemstore \<or> ds_roots_file sh \<noteq> []) then [0] else [])
      in (k, list))"

datatype entry_type = EntryCertificate | EntryCRL

definition ksl_entryTypes :: "bool \<Rightarrow> entry_type list" where
  "ksl_entryTypes crl_supported = [EntryCertificate] @ (if crl_supported then [EntryCRL] else [])"

definition store_id :: qstring where "store_id = qlatin ''qca-default-systemstore''"
definition store_name :: qstring where "store_name = qlatin ''System Trusted Certificates''"

definition ksl_entryList ::
    "('c list \<times> 'r list) \<Rightarrow> (qstring \<Rightarrow> 'c list \<times> 'r list) \<Rightarrow> ('c list \<Rightarrow> qstring list) \<Rightarrow>
     (('c, 'r) keystore_entry \<Rightarrow> qstring) \<Rightarrow> (('c, 'r) keystore_entry \<Rightarrow> qstring) \<Rightarrow>
     default_shared \<Rightarrow> ('c, 'r) keystore_entry list option" where
  "ksl_entryList systemstore flat_file friendly simpleId simpleName sh =
     (let (certs, crls) = (if ds_use_system sh then systemstore else ([], []));
          roots = ds_roots_file sh;
          (certs, crls) = (if roots \<noteq> [] then (certs @ fst (flat_file roots), crls @ snd (flat_file roots))
                           else (certs, crls));
          names = friendly certs
      in
      do {
        a \<leftarrow> those (map (\<lambda>n. do {
               nm \<leftarrow> peek names n;
               let e = DefaultKeyStoreEntry (TypeCertificate (certs ! n)) store_id store_name;
               let e = e\<lparr>kse_id := simpleId e\<rparr>;
               Some (e\<lparr>kse_name := nm\<rparr>)
             }) [0..<length certs]);
        let b = map (\<lambda>r.
               let e = DefaultKeyStoreEntry (TypeCRL r) store_id store_name;
                   e = e\<lparr>kse_id := simpleId e\<rparr>
               in e\<lparr>kse_name := simpleName e\<rparr>) crls;
        Some (a @ b)
      })"

subsection \<open>DefaultProvider\<close>

fun unescape_config_list :: "(qstring \<Rightarrow> qstring) \<Rightarrow> qstring list \<Rightarrow> qstring list \<Rightarrow> qstring list option" where
  "unescape_config_list trimmed [] out = Some out"
| "unescape_config_list trimmed (s # ss) out =
     (case unescape_string s of None \<Rightarrow> None
      | Some str \<Rightarrow> unescape_config_list trimmed ss (out @ [trimmed str]))"

definition unescape_config_stringlist :: "(qstring \<Rightarrow> qstring) \<Rightarrow> qstring \<Rightarrow> qstring list option" where
  "unescape_config_stringlist trimmed inp = unescape_config_list trimmed (qsplit 0x2c inp) []"

definition features :: "qstring list" where
  "features = [qlatin ''random'', qlatin ''md5'', qlatin ''sha1'', qlatin ''keystorelist'']"

datatype default_context = RandomContext | MD5Context md5_context | SHA1Context sha1_object | KeyStoreListContext

definition createContext :: "bool \<Rightarrow> qstring \<Rightarrow> default_context option" where
  "createContext u type =
     (if type = qlatin ''random'' then Some RandomContext
      else if type = qlatin ''md5'' then Some (MD5Context (DefaultMD5Context u))
      else if type = qlatin ''sha1'' then Some (SHA1Context (DefaultSHA1Context u))
      else if type = qlatin ''keystorelist'' then Some KeyStoreListContext
      else None)"

text \<open>The configuration map; a missing key reads as false or the empty string.\<close>

record config =
  cfg_formtype :: qstring
  cfg_use_system :: bool
  cfg_roots_file :: qstring
  cfg_skip_plugins :: qstring
  cfg_plugin_priorities :: qstring

definition defaultConfig :: config where
  "defaultConfig = \<lparr>cfg_formtype = qlatin ''http://affinix.com/qca/forms/default#1.0'',
     cfg_use_system = True, cfg_roots_file = [], cfg_skip_plugins = [], cfg_plugin_priorities = []\<rparr>"

text \<open>\<^verbatim>\<open>indexOf(':')\<close>.\<close>

fun indexOf :: "16 word \<Rightarrow> qstring \<Rightarrow> nat option" where
  "indexOf c [] = None"
| "indexOf c (x # xs) = (if x = c then Some 0 else map_option Suc (indexOf c xs))"

definition priority_ok :: "(qstring \<Rightarrow> int option) \<Rightarrow> qstring \<Rightarrow> bool" where
  "priority_ok toInt s = (case indexOf 0x3a s of None \<Rightarrow> False | Some x \<Rightarrow> toInt (drop (x + 1) s) \<noteq> None)"

text \<open>The loop that removes malformed entries, with the index it steps back.\<close>

function prune :: "(qstring \<Rightarrow> int option) \<Rightarrow> qstring list \<Rightarrow> nat \<Rightarrow> qstring list" where
  "prune toInt l n =
     (if n < length l then
        (if priority_ok toInt (l ! n) then prune toInt l (n + 1)
         else prune toInt (take n l @ drop (n + 1) l) n)
      else l)"
  by pat_completeness auto
termination
  by (relation "measure (\<lambda>(toInt, l, n). length l - n)") auto

declare prune.simps [simp del]

definition configChanged ::
    "(qstring \<Rightarrow> qstring) \<Rightarrow> (qstring \<Rightarrow> int option) \<Rightarrow> config \<Rightarrow> default_shared \<Rightarrow> default_shared" where
  "configChanged trimmed toInt cfg sh =
     (let skip_plugins = (case unescape_config_stringlist trimmed (cfg_skip_plugins cfg) of
                            Some tmp \<Rightarrow> tmp | None \<Rightarrow> []);
          priorities = (case unescape_config_stringlist trimmed (cfg_plugin_priorities cfg) of
                            Some tmp \<Rightarrow> tmp | None \<Rightarrow> []);
          priorities = prune toInt priorities 0
      in shared_set sh (cfg_use_system cfg) (cfg_roots_file cfg) skip_plugins priorities)"

definition skip_plugins :: "default_shared \<Rightarrow> qstring list" where
  "skip_plugins sh = ds_skip_plugins sh"

definition plugin_priorities :: "default_shared \<Rightarrow> qstring list" where
  "plugin_priorities sh = ds_plugin_priorities sh"

section \<open>Lemmas\<close>

lemma prune_filter: "n \<le> length l \<Longrightarrow> prune toInt l n = take n l @ filter (priority_ok toInt) (drop n l)"
proof (induction toInt l n rule: prune.induct)
  case (1 toInt l n)
  show ?case
  proof (cases "n < length l")
    case True
    then have l: "drop n l = l ! n # drop (Suc n) l" by (simp add: Cons_nth_drop_Suc)
    show ?thesis
    proof (cases "priority_ok toInt (l ! n)")
      case True
      with 1 \<open>n < length l\<close> l show ?thesis
        by (subst prune.simps) (simp add: take_Suc_conv_app_nth)
    next
      case False
      with 1 \<open>n < length l\<close> l show ?thesis by (subst prune.simps) simp
    qed
  next
    case False
    with 1 show ?thesis by (subst prune.simps) simp
  qed
qed

lemma unescape_config_map:
  "unescape_config_list trimmed (map escape_string xs) out = Some (out @ map trimmed xs)"
  by (induction xs arbitrary: out) auto

lemma unescape_config_join:
  assumes "xs \<noteq> []"
  shows "unescape_config_stringlist trimmed (qjoin [0x2c] (map escape_string xs)) = Some (map trimmed xs)"
proof -
  have "\<forall>x\<in>set (map escape_string xs). 0x2c \<notin> set x" using escape_string_clean by auto
  then have "qsplit 0x2c (qjoin [0x2c] (map escape_string xs)) = map escape_string xs"
    using assms by (intro qsplit_qjoin) auto
  then show ?thesis by (simp add: unescape_config_stringlist_def unescape_config_map)
qed

section \<open>Properties\<close>

text \<open>
  \<^verbatim>\<open>configChanged\<close> stores the two lists of the configuration as they were written: every
  escaped item, trimmed, and of the priorities exactly those that end in a number, in
  order.  The removal loop terminates although it steps its index back.
\<close>

theorem config_lists:
  assumes "skip \<noteq> []" and "prio \<noteq> []"
    and "cfg_skip_plugins cfg = qjoin [0x2c] (map escape_string skip)"
    and "cfg_plugin_priorities cfg = qjoin [0x2c] (map escape_string prio)"
  shows "skip_plugins (configChanged trimmed toInt cfg sh) = map trimmed skip \<and>
    plugin_priorities (configChanged trimmed toInt cfg sh) = filter (priority_ok toInt) (map trimmed prio)"
  using assms by (simp add: configChanged_def skip_plugins_def plugin_priorities_def shared_set_def
      unescape_config_join prune_filter)

theorem config_lists_witness:
  "skip_plugins (configChanged (\<lambda>s. s) (\<lambda>s. if s = [0x35] then Some 5 else None)
     (defaultConfig\<lparr>cfg_skip_plugins := [0x61, 0x2c, 0x62], cfg_plugin_priorities := [0x61, 0x2c, 0x62, 0x5c, 0x63, 0x35]\<rparr>)
     DefaultShared) = [[0x61], [0x62]] \<and>
   plugin_priorities (configChanged (\<lambda>s. s) (\<lambda>s. if s = [0x35] then Some 5 else None)
     (defaultConfig\<lparr>cfg_skip_plugins := [0x61, 0x2c, 0x62], cfg_plugin_priorities := [0x61, 0x2c, 0x62, 0x5c, 0x63, 0x35]\<rparr>)
     DefaultShared) = [[0x62, 0x3a, 0x35]]"
proof -
  let ?c = "defaultConfig\<lparr>cfg_skip_plugins := [0x61, 0x2c, 0x62], cfg_plugin_priorities := [0x61, 0x2c, 0x62, 0x5c, 0x63, 0x35]\<rparr>"
  have "cfg_skip_plugins ?c = qjoin [0x2c] (map escape_string [[0x61], [0x62]])"
    "cfg_plugin_priorities ?c = qjoin [0x2c] (map escape_string [[0x61], [0x62, 0x3a, 0x35]])"
    by (simp_all add: escape_string_eq escape_char_def)
  from config_lists [OF _ _ this, of "\<lambda>s. s" "\<lambda>s. if s = [0x35] then Some 5 else None" DefaultShared]
  show ?thesis by (simp add: priority_ok_def)
qed

text \<open>
  The provider creates a context for exactly the features it announces.
\<close>

theorem provider_features:
  "createContext u type \<noteq> None \<longleftrightarrow> type \<in> set features"
  by (auto simp: createContext_def features_def)

end
