(* ===== verification/ProviderManager.thy ===== *)
theory ProviderManager
  imports DefaultProvider
begin

text \<open>
  The registry of providers (\<^verbatim>\<open>ProviderManager\<close> of \<^verbatim>\<open>src/src/qca_plugin.cpp\<close>): loading, ordering by
  priority, lookup, initialisation on first use, removal, and the diagnostic text.

  \<^item> A provider is what it answers: its name, version, features (before and after its
    initialisation) and default configuration; its number stands for the object.
  \<^item> Libraries, directories and static plugins are what a scan finds, an argument of the scan.
    The configuration of a provider and the settings of the default provider are arguments too.
  \<^item> What the manager does to providers and plugin objects, and the lines it logs, are events.
  \<^item> A mutex makes each operation one step.
\<close>

unbundle bit_operations_syntax

section \<open>Model\<close>

datatype variant = VString qstring | VInt int | VBool bool | VOther nat

type_synonym conf = "(qstring \<times> variant) list" \<comment> \<open>a \<^verbatim>\<open>QVariantMap\<close>\<close>

record provider =
  pv_id :: nat
  pv_name :: qstring
  pv_version :: "32 word"
  pv_features :: "bool \<Rightarrow> qstring list"
  pv_defaultConfig :: conf

datatype pm_event =
    EInit nat
  | EConfig nat conf
  | EDeinit nat
  | EDelete nat
  | EDeleteInstance nat
  | EUnloadLibrary nat
  | ESay qstring

subsection \<open>Diagnostic text\<close>

text \<open>
  The loop of \<^verbatim>\<open>truncate_log\<close> to the next newline, and the function; \<open>None\<close> when it reads past the end of the text.
\<close>

fun skip_line :: "qstring \<Rightarrow> nat \<Rightarrow> nat" where
  "skip_line [] at = at"
| "skip_line (c # cs) at = (if c \<noteq> 0x0a then skip_line cs (at + 1) else at)"

definition truncate_log :: "qstring \<Rightarrow> int \<Rightarrow> qstring option" where
  "truncate_log inp sz =
     (if sz < 2 \<or> int (length inp) < sz then Some inp
      else
        let at = length inp - nat (sz div 2) in
        if inp ! (at - 1) \<noteq> 0x0a then
          let at = skip_line (drop at inp) at in
          if length inp \<le> at then None
          else Some (drop (if inp ! at = 0x0a then at + 1 else at) inp)
        else Some (drop at inp))"

definition appendDiagnosticText :: "qstring \<Rightarrow> qstring \<Rightarrow> qstring option" where
  "appendDiagnosticText dtext str = truncate_log (dtext @ str) 20000"

definition logDebug :: "qstring \<Rightarrow> pm_event" where
  "logDebug str = ESay (str @ [0x0a])"

text \<open>The diagnostic text that the events of a log leave.\<close>

fun diagnosticText :: "qstring \<Rightarrow> pm_event list \<Rightarrow> qstring option" where
  "diagnosticText dtext [] = Some dtext"
| "diagnosticText dtext (ESay str # es) = (case appendDiagnosticText dtext str of None \<Rightarrow> None | Some t \<Rightarrow> diagnosticText t es)"
| "diagnosticText dtext (_ # es) = diagnosticText dtext es"

subsection \<open>Versions\<close>

definition validVersion :: "32 word \<Rightarrow> 32 word \<Rightarrow> bool" where
  "validVersion qca_version ver \<longleftrightarrow>
     ver AND 0xff0000 = qca_version AND 0xff0000 \<and> ver AND 0xff00 \<le> qca_version AND 0xff00"

text \<open>The conversion \<^verbatim>\<open>%06x\<close>.\<close>

definition version_digit :: "nat \<Rightarrow> 16 word" where
  "version_digit n = of_nat (if n < 10 then 0x30 + n else 0x57 + n)"

fun version_digits :: "nat \<Rightarrow> qstring" where
  "version_digits n = (if n < 16 then [version_digit n] else version_digits (n div 16) @ [version_digit (n mod 16)])"

declare version_digits.simps [simp del]

definition version_error :: "32 word \<Rightarrow> qstring" where
  "version_error ver =
     (let ds = version_digits (unat ver)
      in qlatin ''plugin version 0x'' @ replicate (6 - length ds) 0x30 @ ds @ qlatin '' is in the future'')"

subsection \<open>PluginInstance and ProviderItem\<close>

record plugin_instance =
  pi_loader :: "nat option"
  pi_instance :: nat
  pi_own :: bool

record provider_item =
  it_fname :: qstring
  it_p :: provider
  it_priority :: int
  it_instance :: "plugin_instance option"
  it_init :: bool

abbreviation it_name :: "provider_item \<Rightarrow> qstring" where
  "it_name i \<equiv> pv_name (it_p i)"

abbreviation it_id :: "provider_item \<Rightarrow> nat" where
  "it_id i \<equiv> pv_id (it_p i)"

text \<open>A file that may be a plugin: what the loader and the plugin answer.\<close>

record plugin_file =
  pf_path :: qstring
  pf_name :: qstring
  pf_isLibrary :: bool
  pf_loader :: nat
  pf_loadError :: "qstring option"
  pf_instance :: "nat option"
  pf_class :: qstring
  pf_isPlugin :: bool
  pf_provider :: "provider option"

record static_plugin =
  sp_instance :: nat
  sp_class :: qstring
  sp_isPlugin :: bool
  sp_provider :: "provider option"

definition fromFile :: "plugin_file \<Rightarrow> (qstring + plugin_instance) \<times> pm_event list" where
  "fromFile f =
     (case pf_loadError f of
        Some err \<Rightarrow> (Inl (qlatin ''failed to load: '' @ err), [])
      | None \<Rightarrow>
          case pf_instance f of
            None \<Rightarrow> (Inl (qlatin ''failed to get instance''), [EUnloadLibrary (pf_loader f)])
          | Some obj \<Rightarrow> (Inr \<lparr> pi_loader = Some (pf_loader f), pi_instance = obj, pi_own = True \<rparr>, []))"

definition delete_instance :: "plugin_instance \<Rightarrow> pm_event list" where
  "delete_instance i =
     (if pi_own i then [EDeleteInstance (pi_instance i)] else []) @
     (case pi_loader i of None \<Rightarrow> [] | Some l \<Rightarrow> [EUnloadLibrary l])"

definition new_item :: "plugin_instance option \<Rightarrow> provider \<Rightarrow> provider_item" where
  "new_item inst p = \<lparr> it_fname = [], it_p = p, it_priority = 0, it_instance = inst, it_init = False \<rparr>"

definition create_item :: "plugin_instance \<Rightarrow> bool \<Rightarrow> provider option \<Rightarrow> (qstring + provider_item) \<times> pm_event list" where
  "create_item i isPlugin created =
     (if \<not> isPlugin then (Inl (qlatin ''does not offer QCAPlugin interface''), delete_instance i)
      else case created of
        None \<Rightarrow> (Inl (qlatin ''unable to create provider''), delete_instance i)
      | Some p \<Rightarrow> (Inr (new_item (Some i) p), []))"

definition item_load :: "plugin_file \<Rightarrow> (qstring + provider_item) \<times> pm_event list" where
  "item_load f =
     (case fromFile f of
        (Inl err, es) \<Rightarrow> (Inl err, es)
      | (Inr i, es) \<Rightarrow>
          case create_item i (pf_isPlugin f) (pf_provider f) of
            (Inl err, es') \<Rightarrow> (Inl err, es @ es')
          | (Inr pi, es') \<Rightarrow> (Inr (pi\<lparr> it_fname := pf_path f \<rparr>), es @ es'))"

definition loadStatic :: "static_plugin \<Rightarrow> (qstring + provider_item) \<times> pm_event list" where
  "loadStatic sp = create_item \<lparr> pi_loader = None, pi_instance = sp_instance sp, pi_own = False \<rparr> (sp_isPlugin sp) (sp_provider sp)"

definition delete_item :: "provider_item \<Rightarrow> pm_event list" where
  "delete_item i = EDelete (it_id i) # (case it_instance i of None \<Rightarrow> [] | Some inst \<Rightarrow> delete_instance inst)"

text \<open>\<open>conf_of\<close> is the configuration of a provider.\<close>

definition ensureInit :: "(provider \<Rightarrow> conf) \<Rightarrow> provider_item \<Rightarrow> provider_item \<times> pm_event list" where
  "ensureInit conf_of i =
     (if it_init i then (i, [])
      else (i\<lparr> it_init := True \<rparr>,
            EInit (it_id i) # (let c = conf_of (it_p i) in if c \<noteq> [] then [EConfig (it_id i) c] else [])))"

subsection \<open>ProviderManager\<close>

record manager =
  pm_items :: "provider_item list"
  pm_list :: "provider list"
  pm_def :: "provider option"
  pm_scanned :: bool
  pm_log :: "pm_event list"

definition new_manager :: manager where
  "new_manager = \<lparr> pm_items = [], pm_list = [], pm_def = None, pm_scanned = False, pm_log = [] \<rparr>"

definition events :: "pm_event list \<Rightarrow> manager \<Rightarrow> manager" where
  "events es m = m\<lparr> pm_log := pm_log m @ es \<rparr>"

text \<open>The position before the first item with the same or a greater priority.\<close>

fun place :: "int \<Rightarrow> provider_item list \<Rightarrow> nat" where
  "place priority [] = 0"
| "place priority (i # is) = (if priority \<le> it_priority i then 0 else Suc (place priority is))"

definition insert_at :: "nat \<Rightarrow> 'a \<Rightarrow> 'a list \<Rightarrow> 'a list" where
  "insert_at n x xs = take n xs @ x # drop n xs"

definition remove_at :: "nat \<Rightarrow> 'a list \<Rightarrow> 'a list" where
  "remove_at n xs = take n xs @ drop (n + 1) xs"

definition addItem :: "provider_item \<Rightarrow> int \<Rightarrow> manager \<Rightarrow> manager" where
  "addItem item priority m =
     (if priority < 0 then
        let item = item\<lparr> it_priority := (if pm_items m \<noteq> [] then it_priority (List.last (pm_items m)) else 0) \<rparr>
        in m\<lparr> pm_items := pm_items m @ [item], pm_list := pm_list m @ [it_p item] \<rparr>
      else
        let n = place priority (pm_items m)
        in m\<lparr> pm_items := insert_at n (item\<lparr> it_priority := priority \<rparr>) (pm_items m),
              pm_list := insert_at n (it_p item) (pm_list m) \<rparr>)"

fun item_index :: "(provider_item \<Rightarrow> bool) \<Rightarrow> provider_item list \<Rightarrow> nat option" where
  "item_index P [] = None"
| "item_index P (i # is) = (if P i then Some 0 else map_option Suc (item_index P is))"

abbreviation named :: "qstring \<Rightarrow> provider_item \<Rightarrow> bool" where
  "named name i \<equiv> it_name i = name"

definition haveAlready :: "qstring \<Rightarrow> manager \<Rightarrow> bool" where
  "haveAlready name m \<longleftrightarrow>
     (case pm_def m of Some p \<Rightarrow> name = pv_name p | None \<Rightarrow> False) \<or> item_index (named name) (pm_items m) \<noteq> None"

text \<open>\<open>toInt\<close> is Qt's conversion, zero for a text that is no number; \<open>sh\<close> the settings of the default provider.\<close>

fun priority_entry :: "(qstring \<Rightarrow> int) \<Rightarrow> qstring \<Rightarrow> qstring list \<Rightarrow> int" where
  "priority_entry toInt name [] = -1"
| "priority_entry toInt name (s # ss) =
     (let sname = (case indexOf 0x3a s of None \<Rightarrow> s | Some n \<Rightarrow> take n s);
          spriority = toInt (case indexOf 0x3a s of None \<Rightarrow> s | Some n \<Rightarrow> drop (n + 1) s)
      in if sname = name then spriority else priority_entry toInt name ss)"

definition get_default_priority :: "(qstring \<Rightarrow> int) \<Rightarrow> default_shared \<Rightarrow> qstring \<Rightarrow> int" where
  "get_default_priority toInt sh name = priority_entry toInt name (plugin_priorities sh)"

text \<open>What a scan finds and uses.\<close>

record plugin_dir =
  pd_path :: qstring
  pd_exists :: bool
  pd_files :: "plugin_file list"

record scan_env =
  se_toInt :: "qstring \<Rightarrow> int"
  se_shared :: default_shared
  se_static :: "static_plugin list"
  se_noPlugins :: bool
  se_dirs :: "plugin_dir list"

text \<open>The part of the two loops of \<^verbatim>\<open>scan\<close> after an item was loaded; \<open>who\<close> begins its log lines and \<open>ok\<close> the last.\<close>

definition accept_item ::
    "32 word \<Rightarrow> scan_env \<Rightarrow> qstring \<Rightarrow> qstring \<Rightarrow> qstring list \<Rightarrow> provider_item \<Rightarrow> manager \<Rightarrow> manager" where
  "accept_item qca_version env who ok skipped i m =
     (let providerName = it_name i; ver = pv_version (it_p i) in
      if haveAlready providerName m then
        events (logDebug (who @ qlatin '') already loaded provider, skipping'') # delete_item i) m
      else if \<not> validVersion qca_version ver then
        events (logDebug (who @ qlatin '') '' @ version_error ver) # delete_item i) m
      else if providerName \<in> set skipped then
        events (logDebug (who @ qlatin '') explicitly disabled, skipping'') # delete_item i) m
      else events [logDebug ok] (addItem i (get_default_priority (se_toInt env) (se_shared env) providerName) m))"

definition scan_static :: "32 word \<Rightarrow> scan_env \<Rightarrow> static_plugin \<Rightarrow> manager \<Rightarrow> manager" where
  "scan_static qca_version env sp m =
     (case loadStatic sp of
        (Inl errstr, es) \<Rightarrow> events (es @ [logDebug (qlatin ''  '' @ sp_class sp @ qlatin '': '' @ errstr)]) m
      | (Inr i, es) \<Rightarrow>
          accept_item qca_version env (qlatin ''  '' @ sp_class sp @ qlatin '': (as '' @ it_name i)
            (qlatin ''  '' @ sp_class sp @ qlatin '': loaded as '' @ it_name i) [] i (events es m))"

definition scan_file :: "32 word \<Rightarrow> scan_env \<Rightarrow> plugin_file \<Rightarrow> manager \<Rightarrow> manager" where
  "scan_file qca_version env f m =
     (let fileName = qlatin ''  '' @ pf_name f @ qlatin '': '' in
      if \<not> pf_isLibrary f then events [logDebug (fileName @ qlatin ''not a library, skipping'')] m
      else if item_index (\<lambda>pi. it_fname pi \<noteq> [] \<and> it_fname pi = pf_path f) (pm_items m) \<noteq> None then
        events [logDebug (fileName @ qlatin ''already loaded file, skipping'')] m
      else case item_load f of
        (Inl errstr, es) \<Rightarrow> events (es @ [logDebug (fileName @ errstr)]) m
      | (Inr i, es) \<Rightarrow>
          accept_item qca_version env (fileName @ qlatin ''(class: '' @ pf_class f @ qlatin '', as '' @ it_name i)
            (fileName @ qlatin ''(class: '' @ pf_class f @ qlatin '') loaded as '' @ it_name i)
            (skip_plugins (se_shared env)) i (events es m))"

definition scan_dir :: "32 word \<Rightarrow> scan_env \<Rightarrow> plugin_dir \<Rightarrow> manager \<Rightarrow> manager" where
  "scan_dir qca_version env dir m =
     (let m = events [logDebug (qlatin ''Checking Qt Library Path: '' @ pd_path dir)] m in
      if \<not> pd_exists dir then events [logDebug (qlatin ''  (No 'crypto' subdirectory)'')] m
      else if pd_files dir = [] then events [logDebug (qlatin ''  (No files in 'crypto' subdirectory)'')] m
      else fold (scan_file qca_version env) (pd_files dir) m)"

definition scan :: "32 word \<Rightarrow> scan_env \<Rightarrow> manager \<Rightarrow> manager" where
  "scan qca_version env m =
     (let m = (if pm_scanned m then m
               else let m = events (logDebug (qlatin ''Checking Qt static plugins:'') #
                          (if se_static env = [] then [logDebug (qlatin ''  (none)'')] else [])) m
                    in (fold (scan_static qca_version env) (se_static env) m)\<lparr> pm_scanned := True \<rparr>)
      in if se_noPlugins env then m
         else fold (scan_dir qca_version env) (se_dirs env)
                (if se_dirs env = [] then events [logDebug (qlatin ''No Qt Library Paths'')] m else m))"

definition add_provider :: "32 word \<Rightarrow> provider \<Rightarrow> int \<Rightarrow> manager \<Rightarrow> bool \<times> manager" where
  "add_provider qca_version p priority m =
     (let who = qlatin ''Directly adding: '' @ pv_name p @ qlatin '': '' in
      if haveAlready (pv_name p) m then (False, events [logDebug (who @ qlatin ''already loaded provider, skipping'')] m)
      else if \<not> validVersion qca_version (pv_version p) then (False, events [logDebug (who @ version_error (pv_version p))] m)
      else (True, events [logDebug (who @ qlatin ''loaded'')] (addItem (new_item None p) priority m)))"

definition unload :: "qstring \<Rightarrow> manager \<Rightarrow> bool \<times> manager" where
  "unload name m =
     (case item_index (named name) (pm_items m) of
        None \<Rightarrow> (False, m)
      | Some n \<Rightarrow>
          let i = pm_items m ! n in
          (True, events ((if it_init i then [EDeinit (it_id i)] else []) @ delete_item i @ [logDebug (qlatin ''Unloaded: '' @ name)])
                   (m\<lparr> pm_items := remove_at n (pm_items m), pm_list := remove_at n (pm_list m) \<rparr>)))"

definition unloadAll :: "manager \<Rightarrow> manager" where
  "unloadAll m =
     events (concat (map (\<lambda>i. if it_init i then [EDeinit (it_id i)] else []) (pm_items m)) @
             concat (map (\<lambda>i. delete_item i @ [logDebug (qlatin ''Unloaded: '' @ it_name i)]) (pm_items m)))
       (m\<lparr> pm_items := [], pm_list := drop (length (pm_items m)) (pm_list m) \<rparr>)"

definition setDefault :: "(provider \<Rightarrow> conf) \<Rightarrow> provider \<Rightarrow> manager \<Rightarrow> manager" where
  "setDefault conf_of p m =
     (let m = events (case pm_def m of None \<Rightarrow> [] | Some d \<Rightarrow> [EDelete (pv_id d)]) m;
          c = conf_of p
      in events (EInit (pv_id p) # (if c \<noteq> [] then [EConfig (pv_id p) c] else [])) (m\<lparr> pm_def := Some p \<rparr>))"

definition delete_manager :: "manager \<Rightarrow> pm_event list" where
  "delete_manager m =
     pm_log (events (case pm_def m of None \<Rightarrow> [] | Some d \<Rightarrow> [EDelete (pv_id d)])
       (unloadAll (events (case pm_def m of None \<Rightarrow> [] | Some d \<Rightarrow> [EDeinit (pv_id d)]) m)))"

definition init_item :: "(provider \<Rightarrow> conf) \<Rightarrow> nat \<Rightarrow> manager \<Rightarrow> manager" where
  "init_item conf_of n m =
     (case ensureInit conf_of (pm_items m ! n) of (i, es) \<Rightarrow> events es (m\<lparr> pm_items := (pm_items m)[n := i] \<rparr>))"

definition find_where :: "(provider \<Rightarrow> conf) \<Rightarrow> (provider \<Rightarrow> bool) \<Rightarrow> manager \<Rightarrow> provider option \<times> manager" where
  "find_where conf_of P m =
     (case pm_def m of
        Some p \<Rightarrow> if P p then (Some p, m)
          else (case item_index (\<lambda>i. P (it_p i)) (pm_items m) of
                  None \<Rightarrow> (None, m) | Some n \<Rightarrow> (Some (it_p (pm_items m ! n)), init_item conf_of n m))
      | None \<Rightarrow>
          (case item_index (\<lambda>i. P (it_p i)) (pm_items m) of
             None \<Rightarrow> (None, m) | Some n \<Rightarrow> (Some (it_p (pm_items m ! n)), init_item conf_of n m)))"

definition find_provider :: "(provider \<Rightarrow> conf) \<Rightarrow> nat \<Rightarrow> manager \<Rightarrow> provider option \<times> manager" where
  "find_provider conf_of p m = find_where conf_of (\<lambda>x. pv_id x = p) m"

definition find_name :: "(provider \<Rightarrow> conf) \<Rightarrow> qstring \<Rightarrow> manager \<Rightarrow> provider option \<times> manager" where
  "find_name conf_of name m = find_where conf_of (\<lambda>x. name = pv_name x) m"

fun first_able :: "(provider \<Rightarrow> conf) \<Rightarrow> qstring \<Rightarrow> provider_item list \<Rightarrow> provider option \<times> provider_item list \<times> pm_event list" where
  "first_able conf_of type [] = (None, [], [])"
| "first_able conf_of type (i # is) =
     (case ensureInit conf_of i of (i', es) \<Rightarrow>
        if type \<in> set (pv_features (it_p i') True) then (Some (it_p i'), i' # is, es)
        else case first_able conf_of type is of (r, is', es') \<Rightarrow> (r, i' # is', es @ es'))"

definition findFor :: "(provider \<Rightarrow> conf) \<Rightarrow> qstring \<Rightarrow> qstring \<Rightarrow> manager \<Rightarrow> provider option \<times> manager" where
  "findFor conf_of name type m =
     (if name = [] then
        case first_able conf_of type (pm_items m) of (r, is, es) \<Rightarrow>
          let m = events es (m\<lparr> pm_items := is \<rparr>) in
          (case r of
             Some p \<Rightarrow> (Some p, m)
           | None \<Rightarrow> (case pm_def m of
               Some p \<Rightarrow> if type \<in> set (pv_features p True) then (Some p, m) else (None, m) | None \<Rightarrow> (None, m)))
      else case find_name conf_of name m of
        (Some p, m) \<Rightarrow> if type \<in> set (pv_features p True) then (Some p, m) else (None, m)
      | (None, m) \<Rightarrow> (None, m))"

definition changePriority :: "qstring \<Rightarrow> int \<Rightarrow> manager \<Rightarrow> manager" where
  "changePriority name priority m =
     (case item_index (named name) (pm_items m) of
        None \<Rightarrow> m
      | Some n \<Rightarrow> addItem (pm_items m ! n) priority
                   (m\<lparr> pm_items := remove_at n (pm_items m), pm_list := remove_at n (pm_list m) \<rparr>))"

definition getPriority :: "qstring \<Rightarrow> manager \<Rightarrow> int" where
  "getPriority name m =
     (case item_index (named name) (pm_items m) of None \<Rightarrow> -1 | Some n \<Rightarrow> it_priority (pm_items m ! n))"

fun mergeFeatures :: "qstring list \<Rightarrow> qstring list \<Rightarrow> qstring list" where
  "mergeFeatures a [] = a"
| "mergeFeatures a (s # b) = mergeFeatures (if s \<in> set a then a else a @ [s]) b"

definition allFeatures :: "manager \<Rightarrow> qstring list" where
  "allFeatures m =
     fold (\<lambda>i a. mergeFeatures a (pv_features (it_p i) (it_init i))) (pm_items m)
       (case pm_def m of None \<Rightarrow> [] | Some p \<Rightarrow> pv_features p True)"

section \<open>Diagnostic text\<close>

lemma skip_line_eq: "skip_line cs at = at + length (takeWhile (\<lambda>c. c \<noteq> 0x0a) cs)"
  by (induction cs at rule: skip_line.induct) auto

lemma skip_line_stop:
  assumes "0x0a \<in> set cs"
  shows "skip_line cs at - at < length cs" and "cs ! (skip_line cs at - at) = 0x0a"
proof -
  have "length (takeWhile (\<lambda>c. c \<noteq> 0x0a) cs) < length cs"
    using assms by (metis (mono_tags, lifting) length_takeWhile_le linorder_neqE_nat not_less takeWhile_eq_all_conv takeWhile_eq_take take_all_iff)
  then show "skip_line cs at - at < length cs" "cs ! (skip_line cs at - at) = 0x0a"
    using nth_length_takeWhile [of "\<lambda>c. c \<noteq> 0x0a" cs] by (simp_all add: skip_line_eq)
qed

lemma skip_line_none: "0x0a \<notin> set cs \<Longrightarrow> skip_line cs at = at + length cs"
proof -
  assume "0x0a \<notin> set cs"
  then have t: "takeWhile (\<lambda>c. c \<noteq> 0x0a) cs = cs" by (auto simp: takeWhile_eq_all_conv)
  show ?thesis by (simp only: skip_line_eq t)
qed

text \<open>A text that is cut keeps at most half of the limit, from the beginning of a line on.\<close>

lemma truncate_cut:
  assumes "2 \<le> sz" and "sz \<le> int (length inp)"
    and "inp ! (length inp - nat (sz div 2) - 1) = 0x0a \<or> 0x0a \<in> set (drop (length inp - nat (sz div 2)) inp)"
  shows "\<exists>pre out. truncate_log inp sz = Some out \<and> inp = pre @ [0x0a] @ out \<and> length out \<le> nat (sz div 2)"
proof -
  define at where "at = length inp - nat (sz div 2)"
  have at: "0 < at" "at < length inp" using assms(1,2) by (auto simp: at_def)
  have cut: "\<exists>pre out. drop k inp = out \<and> inp = pre @ [0x0a] @ out \<and> length out \<le> nat (sz div 2)"
    if "0 < k" "k \<le> length inp" "at \<le> k" "inp ! (k - 1) = 0x0a" for k
  proof -
    have "inp = take (k - 1) inp @ inp ! (k - 1) # drop (Suc (k - 1)) inp" using that by (intro id_take_nth_drop) auto
    then show ?thesis using that assms(1,2) by (auto simp: at_def)
  qed
  show ?thesis
  proof (cases "inp ! (at - 1) = 0x0a")
    case True
    then have "truncate_log inp sz = Some (drop at inp)"
      using assms(1,2) unfolding truncate_log_def at_def Let_def by simp
    then show ?thesis using cut [of at] at True by auto
  next
    case False
    then have nl: "0x0a \<in> set (drop at inp)" using assms(3) by (simp add: at_def)
    define k where "k = skip_line (drop at inp) at"
    have k: "at \<le> k" "k < length inp" "inp ! k = 0x0a"
      using skip_line_stop [OF nl, of at] by (auto simp: k_def skip_line_eq)
    then have "truncate_log inp sz = Some (drop (k + 1) inp)"
      using assms(1,2) False unfolding truncate_log_def at_def k_def Let_def by simp
    then show ?thesis using cut [of "k + 1"] k by auto
  qed
qed

lemma truncate_none:
  assumes "2 \<le> sz" and "sz \<le> int (length inp)"
    and "inp ! (length inp - nat (sz div 2) - 1) \<noteq> 0x0a" and "0x0a \<notin> set (drop (length inp - nat (sz div 2)) inp)"
  shows "truncate_log inp sz = None"
  using assms skip_line_none [OF assms(4), of "length inp - nat (sz div 2)"] by (simp add: truncate_log_def Let_def)

lemma append_line: "\<exists>t. appendDiagnosticText dtext (str @ [0x0a]) = Some t \<and> length t < 20000 \<and> (\<exists>pre. dtext @ str @ [0x0a] = pre @ t)"
proof (cases "length (dtext @ str @ [0x0a :: 16 word]) < 20000")
  case True
  then show ?thesis by (simp add: appendDiagnosticText_def truncate_log_def)
next
  case False
  let ?t = "dtext @ str @ [0x0a :: 16 word]"
  have "0x0a \<in> set (drop (length ?t - nat (20000 div 2)) ?t)" using False by (simp add: drop_Cons')
  from truncate_cut [OF _ _ disjI2 [OF this]] obtain pre out where
    "truncate_log ?t 20000 = Some out" "?t = pre @ [0x0a] @ out" "length out \<le> nat (20000 div 2)" using False by auto
  then show ?thesis by (auto simp: appendDiagnosticText_def intro!: exI [of _ "pre @ [0x0a]"])
qed

end
