(* ===== verification/ProviderRun.thy ===== *)
theory ProviderRun
  imports ProviderManager "HOL-Library.Multiset"
begin

text \<open>
  What the operations of the registry of providers keep: the order of the list and unique names; the
  runs of the registry; what a scan rejects, and that a second scan finds nothing new.
\<close>

section \<open>The list of providers\<close>

definition pm_ok :: "32 word \<Rightarrow> manager \<Rightarrow> bool" where
  "pm_ok qv m \<longleftrightarrow>
     sorted (map it_priority (pm_items m)) \<and> distinct (map it_name (pm_items m)) \<and> pm_list m = map it_p (pm_items m) \<and>
     (\<forall>i \<in> set (pm_items m). 0 \<le> it_priority i \<and> validVersion qv (pv_version (it_p i)))"

lemma events_simps [simp]:
  "pm_items (events es m) = pm_items m" "pm_list (events es m) = pm_list m" "pm_def (events es m) = pm_def m"
  "pm_log (events es m) = pm_log m @ es" "pm_scanned (events es m) = pm_scanned m"
  by (simp_all add: events_def)

lemma ok_events [simp]: "pm_ok qv (events es m) = pm_ok qv m"
  by (simp add: pm_ok_def)

lemma index_None: "item_index P is = None \<longleftrightarrow> (\<forall>i \<in> set is. \<not> P i)"
  by (induction P "is" rule: item_index.induct) auto

lemma index_Some: "item_index P is = Some n \<longleftrightarrow> n < length is \<and> P (is ! n) \<and> (\<forall>k < n. \<not> P (is ! k))"
proof (induction "is" arbitrary: n)
  case (Cons i "is")
  then show ?case by (cases n) (auto simp: less_Suc_eq_0_disj)
qed simp

lemma place_le: "place pr is \<le> length is"
  by (induction pr "is" rule: place.induct) auto

lemma place_before: "i \<in> set (take (place pr is) is) \<Longrightarrow> it_priority i < pr"
  by (induction pr "is" rule: place.induct) (auto split: if_splits)

lemma place_after: "sorted (map it_priority is) \<Longrightarrow> i \<in> set (drop (place pr is) is) \<Longrightarrow> pr \<le> it_priority i"
  by (induction pr "is" rule: place.induct) (auto split: if_splits)

lemma set_insert_at: "set (insert_at n x xs) = insert x (set xs)"
proof -
  have "set xs = set (take n xs) \<union> set (drop n xs)" by (metis append_take_drop_id set_append)
  then show ?thesis by (auto simp: insert_at_def)
qed

lemma map_insert_at: "map f (insert_at n x xs) = insert_at n (f x) (map f xs)"
  by (simp add: insert_at_def take_map drop_map)

lemma distinct_insert_at: "distinct (insert_at n x xs) \<longleftrightarrow> distinct xs \<and> x \<notin> set xs"
proof -
  have "distinct xs \<longleftrightarrow> distinct (take n xs @ drop n xs)" by simp
  also have "\<dots> \<longleftrightarrow> distinct (take n xs) \<and> distinct (drop n xs) \<and> set (take n xs) \<inter> set (drop n xs) = {}" by (rule distinct_append)
  finally have 1: "distinct xs \<longleftrightarrow> distinct (take n xs) \<and> distinct (drop n xs) \<and> set (take n xs) \<inter> set (drop n xs) = {}" .
  have 2: "set xs = set (take n xs) \<union> set (drop n xs)" by (metis append_take_drop_id set_append)
  show ?thesis unfolding insert_at_def 1 unfolding 2 by auto
qed

lemma insert_remove: "n < length xs \<Longrightarrow> insert_at n (xs ! n) (remove_at n xs) = xs"
  by (simp add: insert_at_def remove_at_def id_take_nth_drop [symmetric])

lemma remove_at_split: "n < length xs \<Longrightarrow> xs = take n xs @ xs ! n # drop (n + 1) xs"
  using id_take_nth_drop [of n xs] by simp

lemma remove_at_mset: "n < length xs \<Longrightarrow> mset xs = add_mset (xs ! n) (mset (remove_at n xs))"
  by (metis remove_at_split remove_at_def mset_append mset.simps(2) union_mset_add_mset_right)

lemma remove_at_set: "n < length xs \<Longrightarrow> set xs = insert (xs ! n) (set (remove_at n xs))"
  using arg_cong [OF remove_at_mset, of n xs set_mset] by simp

lemma remove_at_distinct: "n < length xs \<Longrightarrow> distinct xs \<Longrightarrow> distinct (remove_at n xs) \<and> xs ! n \<notin> set (remove_at n xs)"
  using remove_at_split [of n xs] distinct_append [of "take n xs" "xs ! n # drop (n + 1) xs"] by (auto simp: remove_at_def)

lemma map_remove_at: "map f (remove_at n xs) = remove_at n (map f xs)"
  by (simp add: remove_at_def take_map drop_map)

lemma sorted_remove_at: "n < length xs \<Longrightarrow> sorted xs \<Longrightarrow> sorted (remove_at n xs)"
  using remove_at_split [of n xs] sorted_append [of "take n xs" "xs ! n # drop (n + 1) xs"] by (auto simp: remove_at_def sorted_append)

lemma sorted_insert_at:
  "sorted (take n xs) \<Longrightarrow> sorted (drop n xs) \<Longrightarrow> \<forall>y \<in> set (take n xs). y \<le> x \<Longrightarrow> \<forall>y \<in> set (drop n xs). x \<le> y \<Longrightarrow>
   sorted (insert_at n x xs)"
  by (auto simp: insert_at_def sorted_append intro: order_trans)

lemma ok_addItem:
  assumes ok: "pm_ok qv m" and new: "it_name item \<notin> set (map it_name (pm_items m))" and ver: "validVersion qv (pv_version (it_p item))"
  shows "pm_ok qv (addItem item pr m)"
proof (cases "pr < 0")
  case True
  have "\<forall>x \<in> set (pm_items m). it_priority x \<le> it_priority (List.last (pm_items m))" if "pm_items m \<noteq> []"
    using ok that by (auto simp: pm_ok_def sorted_iff_nth_mono last_conv_nth in_set_conv_nth)
  then show ?thesis using ok new ver True by (auto simp: addItem_def pm_ok_def sorted_append Let_def)
next
  case False
  let ?n = "place pr (pm_items m)" and ?is = "pm_items m"
  have s: "sorted (map it_priority ?is)" using ok by (simp add: pm_ok_def)
  have "sorted (insert_at ?n pr (map it_priority ?is))"
  proof (rule sorted_insert_at)
    show "sorted (take ?n (map it_priority ?is))" "sorted (drop ?n (map it_priority ?is))"
      using s by (auto intro: sorted_wrt_take sorted_wrt_drop)
    show "\<forall>y \<in> set (take ?n (map it_priority ?is)). y \<le> pr" using place_before [of _ pr ?is] by (auto simp: take_map intro: less_imp_le)
    show "\<forall>y \<in> set (drop ?n (map it_priority ?is)). pr \<le> y" using place_after [OF s, of _ pr] by (auto simp: drop_map)
  qed
  then show ?thesis using ok new ver False
    by (auto simp: addItem_def pm_ok_def Let_def map_insert_at distinct_insert_at set_insert_at)
qed

lemma have_not: "\<not> haveAlready name m \<Longrightarrow> name \<notin> set (map it_name (pm_items m))"
  by (auto simp: haveAlready_def index_None)

lemma ok_accept: "pm_ok qv m \<Longrightarrow> pm_ok qv (accept_item qv env who ok skipped i m)"
  using have_not [of "it_name i" m] by (auto simp: accept_item_def Let_def intro!: ok_addItem)

lemma ok_static: "pm_ok qv m \<Longrightarrow> pm_ok qv (scan_static qv env sp m)"
  by (auto simp: scan_static_def intro!: ok_accept split: sum.splits prod.splits)

lemma ok_file: "pm_ok qv m \<Longrightarrow> pm_ok qv (scan_file qv env f m)"
  by (auto simp: scan_file_def Let_def intro!: ok_accept split: sum.splits prod.splits)

lemma fold_keeps: "(\<And>x m. P m \<Longrightarrow> P (f x m)) \<Longrightarrow> P m \<Longrightarrow> P (fold f xs m)"
  by (induction xs arbitrary: m) auto

lemma ok_scan:
  assumes "pm_ok qv m"
  shows "pm_ok qv (scan qv env m)"
proof -
  have st: "pm_ok qv m \<Longrightarrow> pm_ok qv (fold (scan_static qv env) l m)" for l m by (rule fold_keeps) (auto intro: ok_static)
  have fl: "pm_ok qv m \<Longrightarrow> pm_ok qv (fold (scan_file qv env) l m)" for l m by (rule fold_keeps) (auto intro: ok_file)
  have dr: "pm_ok qv m \<Longrightarrow> pm_ok qv (scan_dir qv env x m)" for x m by (auto simp: scan_dir_def Let_def intro!: fl)
  have "pm_ok qv m \<Longrightarrow> pm_ok qv (fold (scan_dir qv env) l m)" for l m by (rule fold_keeps) (auto intro: dr)
  moreover have "pm_ok qv (m\<lparr> pm_scanned := b \<rparr>) = pm_ok qv m" for b m by (simp add: pm_ok_def)
  ultimately show ?thesis using assms st by (auto simp: scan_def Let_def)
qed

lemma ok_add: "pm_ok qv m \<Longrightarrow> pm_ok qv (snd (add_provider qv p pr m))"
  using have_not [of "pv_name p" m] by (auto simp: add_provider_def Let_def new_item_def intro!: ok_addItem)

lemma ok_remove:
  assumes "pm_ok qv m" and "n < length (pm_items m)"
  shows "pm_ok qv (m\<lparr> pm_items := remove_at n (pm_items m), pm_list := remove_at n (pm_list m) \<rparr>)"
  using assms remove_at_set [OF assms(2)] remove_at_distinct [of n "map it_name (pm_items m)"]
  by (auto simp: pm_ok_def map_remove_at sorted_remove_at)

lemma ok_unload: "pm_ok qv m \<Longrightarrow> pm_ok qv (snd (unload name m))"
  using ok_remove by (auto simp: unload_def Let_def index_Some split: option.splits)

lemma ok_change:
  assumes ok: "pm_ok qv m"
  shows "pm_ok qv (changePriority name pr m)"
proof (cases "item_index (named name) (pm_items m)")
  case None
  then show ?thesis using ok by (simp add: changePriority_def)
next
  case (Some n)
  then have n: "n < length (pm_items m)" by (simp add: index_Some)
  have "it_name (pm_items m ! n) \<notin> set (map it_name (remove_at n (pm_items m)))"
    using remove_at_distinct [of n "map it_name (pm_items m)"] ok n by (simp add: map_remove_at pm_ok_def)
  moreover have "validVersion qv (pv_version (it_p (pm_items m ! n)))" using ok n by (simp add: pm_ok_def)
  ultimately show ?thesis using Some ok_addItem [OF ok_remove [OF ok n]] by (simp add: changePriority_def)
qed

text \<open>Initialisation leaves everything but the flag.\<close>

definition same_items :: "provider_item list \<Rightarrow> provider_item list \<Rightarrow> bool" where
  "same_items is is' \<longleftrightarrow> map (\<lambda>i. i\<lparr> it_init := True \<rparr>) is = map (\<lambda>i. i\<lparr> it_init := True \<rparr>) is'"

lemma same_items_map:
  assumes "same_items is is'"
  shows "map it_p is' = map it_p is" and "map it_priority is' = map it_priority is" and "map it_fname is' = map it_fname is"
    and "map it_name is' = map it_name is"
proof -
  have f: "map f is' = map f is" if "\<And>i. f (i\<lparr> it_init := True \<rparr>) = f i" for f :: "provider_item \<Rightarrow> 'a"
    using arg_cong [OF assms [unfolded same_items_def], of "map f"] that by (simp add: o_def)
  show "map it_p is' = map it_p is" "map it_priority is' = map it_priority is" "map it_fname is' = map it_fname is"
    "map it_name is' = map it_name is" by (rule f; simp)+
qed

lemma ok_same:
  assumes "pm_ok qv m" and "same_items (pm_items m) (pm_items m')" and "pm_list m' = pm_list m"
  shows "pm_ok qv m'"
proof -
  note s = same_items_map [OF assms(2)]
  have "map (\<lambda>i. (it_priority i, it_p i)) (pm_items m') = zip (map it_priority (pm_items m')) (map it_p (pm_items m'))"
    by (induction "pm_items m'") (auto simp: zip_map_map zip_same_conv_map)
  moreover have "map (\<lambda>i. (it_priority i, it_p i)) (pm_items m) = zip (map it_priority (pm_items m)) (map it_p (pm_items m))"
    by (induction "pm_items m") (auto simp: zip_map_map zip_same_conv_map)
  ultimately have "map (\<lambda>i. (it_priority i, it_p i)) (pm_items m') = map (\<lambda>i. (it_priority i, it_p i)) (pm_items m)" using s by simp
  then have "(\<lambda>i. (it_priority i, it_p i)) ` set (pm_items m') = (\<lambda>i. (it_priority i, it_p i)) ` set (pm_items m)"
    by (metis list.set_map)
  then have "\<forall>i \<in> set (pm_items m'). \<exists>j \<in> set (pm_items m). it_priority j = it_priority i \<and> it_p j = it_p i" by (auto simp: set_eq_iff image_iff) (metis)
  then show ?thesis using assms s unfolding pm_ok_def by metis
qed

lemma same_init: "same_items [i] [fst (ensureInit c i)]"
  by (simp add: same_items_def ensureInit_def)

lemma same_init_item: "n < length (pm_items m) \<Longrightarrow> same_items (pm_items m) (pm_items (init_item c n m)) \<and> pm_list (init_item c n m) = pm_list m \<and> pm_def (init_item c n m) = pm_def m"
  by (auto simp: init_item_def ensureInit_def same_items_def map_update split: prod.splits)
    (metis (no_types, lifting) list_update_id map_update)

lemma same_find: "same_items (pm_items m) (pm_items (snd (find_where c P m))) \<and> pm_list (snd (find_where c P m)) = pm_list m \<and> pm_def (snd (find_where c P m)) = pm_def m"
  using same_init_item [of _ m c] by (auto simp: find_where_def index_Some same_items_def [of "pm_items m" "pm_items m"] split: option.splits)

lemma same_first_able: "first_able c type is = (r, is', es) \<Longrightarrow> same_items is is'"
proof (induction "is" arbitrary: r is' es)
  case (Cons i "is")
  then show ?case by (auto simp: same_items_def ensureInit_def split: prod.splits if_splits)
qed (simp add: same_items_def)

lemma same_findFor:
  "same_items (pm_items m) (pm_items (snd (findFor c name type m))) \<and> pm_list (snd (findFor c name type m)) = pm_list m \<and>
   pm_def (snd (findFor c name type m)) = pm_def m"
proof (cases "name = []")
  case True
  obtain r is' es where f: "first_able c type (pm_items m) = (r, is', es)" by (metis prod_cases3)
  show ?thesis using same_first_able [OF f] True f by (auto simp: findFor_def Let_def split: option.splits)
next
  case False
  show ?thesis using same_find [of m c "\<lambda>x. name = pv_name x"] False
    by (auto simp: findFor_def find_name_def split: option.splits prod.splits)
qed

section \<open>Runs\<close>

datatype pm_input =
    PScan scan_env
  | PAdd provider int
  | PUnload qstring
  | PUnloadAll
  | PSetDefault "provider \<Rightarrow> conf" provider
  | PFind "provider \<Rightarrow> conf" nat
  | PFindName "provider \<Rightarrow> conf" qstring
  | PFindFor "provider \<Rightarrow> conf" qstring qstring
  | PChangePriority qstring int

fun pm_step :: "32 word \<Rightarrow> pm_input \<Rightarrow> manager \<Rightarrow> manager" where
  "pm_step qv (PScan env) m = scan qv env m"
| "pm_step qv (PAdd p pr) m = snd (add_provider qv p pr m)"
| "pm_step qv (PUnload name) m = snd (unload name m)"
| "pm_step qv PUnloadAll m = unloadAll m"
| "pm_step qv (PSetDefault c p) m = setDefault c p m"
| "pm_step qv (PFind c p) m = snd (find_provider c p m)"
| "pm_step qv (PFindName c name) m = snd (find_name c name m)"
| "pm_step qv (PFindFor c name type) m = snd (findFor c name type m)"
| "pm_step qv (PChangePriority name pr) m = changePriority name pr m"

text \<open>
  The objects that a scan may create.  Plugins create new objects, the application adds an object
  it created, and the default provider is set once.
\<close>

definition file_ids :: "plugin_file list \<Rightarrow> nat list" where
  "file_ids fs = concat (map (\<lambda>f. case pf_provider f of None \<Rightarrow> [] | Some p \<Rightarrow> [pv_id p]) fs)"

definition static_ids :: "static_plugin list \<Rightarrow> nat list" where
  "static_ids sps = concat (map (\<lambda>sp. case sp_provider sp of None \<Rightarrow> [] | Some p \<Rightarrow> [pv_id p]) sps)"

definition scan_ids :: "scan_env \<Rightarrow> nat list" where
  "scan_ids env = static_ids (se_static env) @ concat (map (\<lambda>dir. file_ids (pd_files dir)) (se_dirs env))"

definition event_id :: "pm_event \<Rightarrow> nat option" where
  "event_id ev = (case ev of EInit k \<Rightarrow> Some k | EConfig k c \<Rightarrow> Some k | EDeinit k \<Rightarrow> Some k | EDelete k \<Rightarrow> Some k | _ \<Rightarrow> None)"

definition used :: "manager \<Rightarrow> nat set" where
  "used m = it_id ` set (pm_items m) \<union> pv_id ` set_option (pm_def m) \<union> {k. \<exists>ev \<in> set (pm_log m). event_id ev = Some k}"

definition pm_possible :: "pm_input \<Rightarrow> manager \<Rightarrow> bool" where
  "pm_possible i m =
     (case i of
        PScan env \<Rightarrow> distinct (scan_ids env) \<and> set (scan_ids env) \<inter> used m = {}
      | PAdd p pr \<Rightarrow> pv_id p \<notin> used m
      | PSetDefault c p \<Rightarrow> pv_id p \<notin> used m \<and> pm_def m = None
      | _ \<Rightarrow> True)"

inductive pm_reach :: "32 word \<Rightarrow> manager \<Rightarrow> bool" for qv :: "32 word" where
  empty: "pm_reach qv new_manager"
| step: "pm_reach qv m \<Longrightarrow> pm_possible i m \<Longrightarrow> pm_reach qv (pm_step qv i m)"

lemma ok_step: "pm_ok qv m \<Longrightarrow> pm_ok qv (pm_step qv i m)"
proof (cases i)
  case (PFindFor c name type)
  then show "pm_ok qv m \<Longrightarrow> ?thesis" using same_findFor [of m c name type] by (auto intro: ok_same)
next
  case (PFind c p)
  then show "pm_ok qv m \<Longrightarrow> ?thesis" using same_find [of m c] by (auto simp: find_provider_def intro: ok_same)
next
  case (PFindName c name)
  then show "pm_ok qv m \<Longrightarrow> ?thesis" using same_find [of m c] by (auto simp: find_name_def intro: ok_same)
next
  case PUnloadAll
  then show "pm_ok qv m \<Longrightarrow> ?thesis" by (simp add: unloadAll_def) (simp add: pm_ok_def)
next
  case (PSetDefault c p)
  then show "pm_ok qv m \<Longrightarrow> ?thesis" by (simp add: setDefault_def Let_def) (simp add: pm_ok_def)
qed (simp_all add: ok_scan ok_add ok_unload ok_change)

lemma ok_reach: "pm_reach qv m \<Longrightarrow> pm_ok qv m"
proof (induction rule: pm_reach.induct)
  case empty
  show ?case by (simp add: pm_ok_def new_manager_def)
next
  case (step m i)
  then show ?case using ok_step by blast
qed

section \<open>Scans\<close>

text \<open>Why a file or a static plugin is not added, and that this does not change when others are added.\<close>

definition rejects :: "32 word \<Rightarrow> scan_env \<Rightarrow> plugin_file \<Rightarrow> manager \<Rightarrow> bool" where
  "rejects qv env f m \<longleftrightarrow>
     \<not> pf_isLibrary f \<or> item_index (\<lambda>pi. it_fname pi \<noteq> [] \<and> it_fname pi = pf_path f) (pm_items m) \<noteq> None \<or>
     (case fst (item_load f) of Inl _ \<Rightarrow> True
      | Inr i \<Rightarrow> haveAlready (it_name i) m \<or> \<not> validVersion qv (pv_version (it_p i)) \<or> it_name i \<in> set (skip_plugins (se_shared env)))"

definition grows :: "manager \<Rightarrow> manager \<Rightarrow> bool" where
  "grows m m' \<longleftrightarrow> pm_def m' = pm_def m \<and>
     (\<forall>i \<in> set (pm_items m). \<exists>j \<in> set (pm_items m'). it_fname j = it_fname i \<and> it_name j = it_name i)"

lemma grows_refl [simp]: "grows m m" "grows m (events es m)"
  by (auto simp: grows_def)

lemma grows_trans: "grows a b \<Longrightarrow> grows b c \<Longrightarrow> grows a c"
  unfolding grows_def by metis

lemma grows_addItem: "grows m (addItem i pr m)"
  by (auto simp: grows_def addItem_def Let_def set_insert_at)

lemma grows_accept: "grows m (accept_item qv env who ok skipped i m)"
  using grows_trans [OF grows_addItem [of m i] grows_refl(2)] by (auto simp: accept_item_def Let_def)

lemma grows_file: "grows m (scan_file qv env f m)"
  using grows_trans [OF grows_refl(2) grows_accept] by (auto simp: scan_file_def Let_def split: sum.splits prod.splits)

lemma grows_files: "grows m (fold (scan_file qv env) fs m)"
  by (induction fs arbitrary: m) (auto intro: grows_trans grows_file)

lemma rejects_grows: "grows m m' \<Longrightarrow> rejects qv env f m \<Longrightarrow> rejects qv env f m'"
  unfolding rejects_def grows_def haveAlready_def index_None by (auto split: sum.splits option.splits) metis+

lemma rejected_keeps: "rejects qv env f m \<Longrightarrow> pm_items (scan_file qv env f m) = pm_items m \<and> pm_def (scan_file qv env f m) = pm_def m"
  by (auto simp: rejects_def scan_file_def accept_item_def Let_def haveAlready_def split: sum.splits prod.splits)

lemma have_addItem: "haveAlready (it_name i) (addItem i pr m)"
  by (auto simp: haveAlready_def index_None addItem_def Let_def set_insert_at)

lemma have_accept:
  "validVersion qv (pv_version (it_p i)) \<Longrightarrow> it_name i \<notin> set skipped \<Longrightarrow> haveAlready (it_name i) (accept_item qv env who ok skipped i m)"
  using have_addItem [of i _ m] by (auto simp: accept_item_def Let_def haveAlready_def)

lemma rejects_after: "rejects qv env f (scan_file qv env f m)"
proof (cases "rejects qv env f m")
  case True
  then show ?thesis using rejects_grows [OF grows_file] by blast
next
  case False
  then obtain i es where i: "item_load f = (Inr i, es)" by (cases "item_load f") (auto simp: rejects_def split: sum.splits)
  then show ?thesis using False by (auto simp: rejects_def scan_file_def Let_def have_accept)
qed

definition dir_files :: "plugin_dir \<Rightarrow> plugin_file list" where
  "dir_files dir = (if pd_exists dir then pd_files dir else [])"

lemma grows_dir: "grows m (scan_dir qv env dir m)"
  using grows_trans [OF grows_refl(2) grows_files] by (auto simp: scan_dir_def Let_def grows_def)

lemma grows_dirs: "grows m (fold (scan_dir qv env) ds m)"
  by (induction ds arbitrary: m) (auto intro: grows_trans grows_dir)

lemma files_rejected: "f \<in> set fs \<Longrightarrow> rejects qv env f (fold (scan_file qv env) fs m)"
  by (induction fs arbitrary: m) (auto intro: rejects_grows [OF grows_files rejects_after])

lemma dirs_rejected: "dir \<in> set ds \<Longrightarrow> f \<in> set (dir_files dir) \<Longrightarrow> rejects qv env f (fold (scan_dir qv env) ds m)"
proof (induction ds arbitrary: m)
  case (Cons e ds)
  have "rejects qv env f (scan_dir qv env dir m)" if "f \<in> set (dir_files dir)" for m
    using that files_rejected [of f "pd_files dir"] by (auto simp: scan_dir_def dir_files_def Let_def split: if_splits)
  then show ?case using Cons by (auto intro: rejects_grows [OF grows_dirs])
qed simp

definition same_registry :: "manager \<Rightarrow> manager \<Rightarrow> bool" where
  "same_registry m m' \<longleftrightarrow> pm_items m' = pm_items m \<and> pm_def m' = pm_def m"

lemma rejects_same: "same_registry m m' \<Longrightarrow> rejects qv env f m' = rejects qv env f m"
  by (auto simp: rejects_def same_registry_def haveAlready_def split: sum.splits)

lemma files_keep: "\<forall>f \<in> set fs. rejects qv env f m \<Longrightarrow> same_registry m (fold (scan_file qv env) fs m)"
proof (induction fs arbitrary: m)
  case (Cons f fs)
  have s: "same_registry m (scan_file qv env f m)" using Cons(2) rejected_keeps [of qv env f m] by (simp add: same_registry_def)
  then have "same_registry (scan_file qv env f m) (fold (scan_file qv env) fs (scan_file qv env f m))"
    using Cons(2) by (intro Cons(1)) (simp add: rejects_same)
  then show ?case using s by (simp add: same_registry_def)
qed (simp add: same_registry_def)

lemma dirs_keep: "\<forall>dir \<in> set ds. \<forall>f \<in> set (dir_files dir). rejects qv env f m \<Longrightarrow> same_registry m (fold (scan_dir qv env) ds m)"
proof (induction ds arbitrary: m)
  case (Cons dir ds)
  define m1 where "m1 = events [logDebug (qlatin ''Checking Qt Library Path: '' @ pd_path dir)] m"
  have m1: "same_registry m m1" by (simp add: m1_def same_registry_def)
  then have "same_registry m1 (fold (scan_file qv env) (dir_files dir) m1)"
    using Cons(2) by (intro files_keep) (simp add: rejects_same)
  then have s: "same_registry m (scan_dir qv env dir m)"
    using m1 by (auto simp: scan_dir_def Let_def dir_files_def same_registry_def simp flip: m1_def split: if_splits)
  then have "same_registry (scan_dir qv env dir m) (fold (scan_dir qv env) ds (scan_dir qv env dir m))"
    using Cons(2) by (intro Cons(1)) (simp add: rejects_same)
  then show ?case using s by (simp add: same_registry_def)
qed (simp add: same_registry_def)

lemma scanned_accept [simp]: "pm_scanned (accept_item qv env who ok skipped i m) = pm_scanned m"
  by (simp add: accept_item_def addItem_def Let_def)

lemma scanned_file [simp]: "pm_scanned (scan_file qv env f m) = pm_scanned m"
  by (simp add: scan_file_def Let_def split: sum.splits prod.splits)

lemma scanned_files [simp]: "pm_scanned (fold (scan_file qv env) fs m) = pm_scanned m"
  by (induction fs arbitrary: m) auto

lemma scanned_dirs [simp]: "pm_scanned (fold (scan_dir qv env) ds m) = pm_scanned m"
  by (induction ds arbitrary: m) (auto simp: scan_dir_def Let_def)

lemma scan_again: "same_registry (scan qv env m) (scan qv env (scan qv env m))"
proof -
  let ?m = "scan qv env m"
  have sc: "pm_scanned ?m" by (auto simp: scan_def Let_def)
  show ?thesis
  proof (cases "se_noPlugins env")
    case True
    then show ?thesis using sc by (simp add: scan_def Let_def same_registry_def)
  next
    case False
    have "\<exists>m0. ?m = fold (scan_dir qv env) (se_dirs env) m0" using False unfolding scan_def Let_def by (auto split: if_splits)
    then have r: "\<forall>dir \<in> set (se_dirs env). \<forall>f \<in> set (dir_files dir). rejects qv env f ?m" using dirs_rejected by metis
    have "same_registry ?m (fold (scan_dir qv env) (se_dirs env) ?m)" by (rule dirs_keep [OF r])
    then show ?thesis using sc False by (auto simp: scan_def [of qv env ?m] same_registry_def Let_def)
  qed
qed

end
