(* ===== verification/ProviderLife.thy ===== *)
theory ProviderLife
  imports ProviderRun
begin

text \<open>
  What holds of the registry of providers whatever is done to it: its order, the life of each
  provider object from creation to deletion, the lines of the diagnostic text.
\<close>

section \<open>The life of a provider\<close>

text \<open>A provider is initialised at most once, used and configured only then, finished only then and deleted last.\<close>

datatype life = LFresh | LReady | LOver | LGone

fun life_step :: "nat \<Rightarrow> life option \<Rightarrow> pm_event \<Rightarrow> life option" where
  "life_step k None ev = None"
| "life_step k (Some l) (EInit j) = (if j \<noteq> k then Some l else if l = LFresh then Some LReady else None)"
| "life_step k (Some l) (EConfig j c) = (if j \<noteq> k then Some l else if l = LReady then Some LReady else None)"
| "life_step k (Some l) (EDeinit j) = (if j \<noteq> k then Some l else if l = LReady then Some LOver else None)"
| "life_step k (Some l) (EDelete j) = (if j \<noteq> k then Some l else if l = LFresh \<or> l = LOver then Some LGone else None)"
| "life_step k (Some l) ev = Some l"

definition life_of :: "nat \<Rightarrow> pm_event list \<Rightarrow> life option" where
  "life_of k log = foldl (life_step k) (Some LFresh) log"

lemma life_append [simp]: "life_of k (log @ es) = foldl (life_step k) (life_of k log) es"
  by (simp add: life_of_def)

lemma life_other: "event_id ev \<noteq> Some k \<Longrightarrow> life_step k l ev = l"
  by (cases l; cases ev) (auto simp: event_id_def)

lemma life_others: "\<forall>ev \<in> set es. event_id ev \<noteq> Some k \<Longrightarrow> foldl (life_step k) l es = l"
  by (induction es arbitrary: l) (auto simp: life_other)

lemma life_unused: "\<forall>ev \<in> set log. event_id ev \<noteq> Some k \<Longrightarrow> life_of k log = Some LFresh"
  by (simp add: life_of_def life_others)

definition tracks :: "(nat \<rightharpoonup> life) \<Rightarrow> pm_event list \<Rightarrow> bool" where
  "tracks T log \<longleftrightarrow> (\<forall>k. case T k of Some l \<Rightarrow> life_of k log = Some l | None \<Rightarrow> life_of k log = Some LFresh \<or> life_of k log = Some LGone)"

lemma tracks_event:
  assumes "tracks T log" and "T k = Some l" and "event_id ev = Some k" and "life_step k (Some l) ev = Some l'"
  shows "tracks (T(k \<mapsto> l')) (log @ [ev])"
  unfolding tracks_def
proof
  fix j
  show "case (T(k \<mapsto> l')) j of Some l \<Rightarrow> life_of j (log @ [ev]) = Some l
    | None \<Rightarrow> life_of j (log @ [ev]) = Some LFresh \<or> life_of j (log @ [ev]) = Some LGone"
    using spec [OF assms(1) [unfolded tracks_def], of j] assms(2-) by (cases "j = k") (auto simp: life_other split: option.splits)
qed

lemma tracks_silent:
  assumes "tracks T log" and "\<forall>ev \<in> set es. event_id ev = None"
  shows "tracks T (log @ es)"
proof -
  have "life_of k (log @ es) = life_of k log" for k using assms(2) by (simp add: life_others)
  then show ?thesis using assms(1) unfolding tracks_def by metis
qed

lemma tracks_drop: "tracks T log \<Longrightarrow> T k = Some LFresh \<or> T k = Some LGone \<Longrightarrow> tracks (T(k := None)) log"
  unfolding tracks_def by (auto split: option.splits)

lemma tracks_new: "tracks T log \<Longrightarrow> life_of k log = Some LFresh \<Longrightarrow> tracks (T(k \<mapsto> LFresh)) log"
  unfolding tracks_def by auto

definition status :: "provider_item \<Rightarrow> life" where
  "status i = (if it_init i then LReady else LFresh)"

definition track_items :: "provider_item list \<Rightarrow> nat \<rightharpoonup> life" where
  "track_items is = map_of (map (\<lambda>i. (it_id i, status i)) is)"

definition track_def :: "provider option \<Rightarrow> nat \<rightharpoonup> life" where
  "track_def d = (case d of None \<Rightarrow> Map.empty | Some p \<Rightarrow> [pv_id p \<mapsto> LReady])"

definition track_of :: "manager \<Rightarrow> nat \<rightharpoonup> life" where
  "track_of m = track_items (pm_items m) ++ track_def (pm_def m)"

definition life_ok :: "manager \<Rightarrow> bool" where
  "life_ok m \<longleftrightarrow> distinct (map it_id (pm_items m)) \<and> (\<forall>p. pm_def m = Some p \<longrightarrow> pv_id p \<notin> it_id ` set (pm_items m)) \<and>
     tracks (track_of m) (pm_log m)"

lemma track_items_eq:
  assumes "distinct (map it_id is)"
  shows "track_items is k = Some l \<longleftrightarrow> (\<exists>i \<in> set is. it_id i = k \<and> status i = l)"
proof -
  have "distinct (map fst (map (\<lambda>i. (it_id i, status i)) is))" using assms by (simp add: o_def)
  then show ?thesis by (auto simp: track_items_def map_of_eq_Some_iff image_iff)
qed

lemma track_items_None: "track_items is k = None \<longleftrightarrow> k \<notin> it_id ` set is"
  by (auto simp: track_items_def map_of_eq_None_iff image_iff)

lemma map_eqI: "(\<And>k v. f k = Some v \<longleftrightarrow> g k = Some v) \<Longrightarrow> f = g"
  by (rule ext) (metis not_Some_eq)

lemma track_perm:
  assumes "distinct (map it_id is)" and "distinct (map it_id is')"
    and "(\<lambda>i. (it_id i, status i)) ` set is' = (\<lambda>i. (it_id i, status i)) ` set is"
  shows "track_items is' = track_items is"
proof (rule map_eqI)
  fix k l
  have "(\<exists>i \<in> set is'. it_id i = k \<and> status i = l) \<longleftrightarrow> (k, l) \<in> (\<lambda>i. (it_id i, status i)) ` set is'"
    "(\<exists>i \<in> set is. it_id i = k \<and> status i = l) \<longleftrightarrow> (k, l) \<in> (\<lambda>i. (it_id i, status i)) ` set is" by auto
  then show "track_items is' k = Some l \<longleftrightarrow> track_items is k = Some l" using assms by (simp add: track_items_eq)
qed

lemma track_insert:
  assumes "distinct (map it_id is)" and "it_id i \<notin> it_id ` set is" and "distinct (map it_id is')" and "set is' = insert i (set is)"
  shows "track_items is' = (track_items is)(it_id i \<mapsto> status i)"
  by (rule map_eqI) (use assms in \<open>auto simp: track_items_eq image_iff\<close>)

lemma track_remove:
  assumes "distinct (map it_id is)" and "n < length is"
  shows "track_items (remove_at n is) = (track_items is)(it_id (is ! n) := None)"
proof (rule map_eqI)
  fix k l
  have d: "distinct (map it_id (remove_at n is))" "it_id (is ! n) \<notin> it_id ` set (remove_at n is)"
    using remove_at_distinct [of n "map it_id is"] assms by (auto simp: map_remove_at simp flip: map_remove_at)
  show "track_items (remove_at n is) k = Some l \<longleftrightarrow> ((track_items is)(it_id (is ! n) := None)) k = Some l"
    using d assms remove_at_set [OF assms(2)] by (auto simp: track_items_eq image_iff)
qed

lemma silent_simps [simp]:
  "event_id (logDebug s) = None" "event_id (EDeleteInstance n) = None" "event_id (EUnloadLibrary l) = None"
  "event_id (EDelete k) = Some k" "event_id (EDeinit k) = Some k" "event_id (EInit k) = Some k" "event_id (EConfig k c) = Some k"
  by (simp_all add: event_id_def logDebug_def)

lemma silent_delete_instance: "ev \<in> set (delete_instance i) \<Longrightarrow> event_id ev = None"
  by (auto simp: delete_instance_def split: if_splits option.splits)

lemma silent_load: "item_load f = (r, es) \<Longrightarrow> ev \<in> set es \<Longrightarrow> event_id ev = None"
  by (auto simp: item_load_def fromFile_def create_item_def dest: silent_delete_instance split: option.splits sum.splits prod.splits if_splits)

lemma silent_static: "loadStatic sp = (r, es) \<Longrightarrow> ev \<in> set es \<Longrightarrow> event_id ev = None"
  by (auto simp: loadStatic_def create_item_def dest: silent_delete_instance split: option.splits if_splits)

lemma load_item: "item_load f = (Inr i, es) \<Longrightarrow> pf_provider f = Some (it_p i) \<and> \<not> it_init i"
  by (auto simp: item_load_def fromFile_def create_item_def new_item_def split: option.splits sum.splits prod.splits if_splits)

lemma static_item: "loadStatic sp = (Inr i, es) \<Longrightarrow> sp_provider sp = Some (it_p i) \<and> \<not> it_init i"
  by (auto simp: loadStatic_def create_item_def new_item_def split: option.splits if_splits)

lemma life_silent: "life_ok m \<Longrightarrow> \<forall>ev \<in> set es. event_id ev = None \<Longrightarrow> life_ok (events es m)"
  by (simp add: life_ok_def track_of_def tracks_silent)

text \<open>An object that is deleted: with its last events it is no longer tracked.\<close>

lemma tracks_delete:
  assumes "tracks T log" and "T k = Some LFresh \<or> T k = Some LOver" and "\<forall>ev \<in> set es. event_id ev = None"
  shows "tracks (T(k := None)) (log @ EDelete k # es)"
proof -
  have "tracks (T(k \<mapsto> LGone)) (log @ [EDelete k])" using assms(1,2) by (auto intro!: tracks_event)
  from tracks_silent [OF tracks_drop [OF this, of k] assms(3)] show ?thesis by simp
qed

lemma delete_item_silent: "\<exists>es. delete_item i = EDelete (it_id i) # es \<and> (\<forall>ev \<in> set es. event_id ev = None)"
  by (auto simp: delete_item_def dest: silent_delete_instance split: option.splits)

lemma used_life: "k \<notin> used m \<Longrightarrow> life_of k (pm_log m) = Some LFresh \<and> track_of m k = None"
  by (auto simp: used_def track_of_def track_def_def track_items_None intro!: life_unused split: option.splits)

lemma track_upd: "(\<And>p. d = Some p \<Longrightarrow> pv_id p \<noteq> k) \<Longrightarrow> (T(k := v)) ++ track_def d = (T ++ track_def d)(k := v)"
  by (rule ext) (auto simp: track_def_def map_add_def split: option.splits)

lemma life_reject:
  assumes "life_ok m" and "it_id i \<notin> used m"
  shows "life_ok (events (delete_item i) m)"
proof -
  obtain es where es: "delete_item i = EDelete (it_id i) # es" "\<forall>ev \<in> set es. event_id ev = None" using delete_item_silent by blast
  have "tracks ((track_of m)(it_id i \<mapsto> LFresh)) (pm_log m)" using assms used_life [OF assms(2)] by (simp add: life_ok_def tracks_new)
  from tracks_delete [OF this _ es(2), of "it_id i"] have "tracks ((track_of m)(it_id i := None)) (pm_log m @ delete_item i)" using es by simp
  moreover have "(track_of m)(it_id i := None) = track_of m" using used_life [OF assms(2)] by (simp add: fun_upd_idem)
  ultimately show ?thesis using assms(1) by (simp add: life_ok_def track_of_def)
qed

lemma life_add:
  assumes "life_ok m" and "it_id i \<notin> used m" and "\<not> it_init i"
  shows "life_ok (addItem i pr m)"
proof -
  obtain j where j: "set (pm_items (addItem i pr m)) = insert j (set (pm_items m))" "it_id j = it_id i" "status j = LFresh"
  proof (cases "pr < 0")
    case True
    let ?j = "i\<lparr> it_priority := (if pm_items m \<noteq> [] then it_priority (List.last (pm_items m)) else 0) \<rparr>"
    show thesis by (rule that [of ?j]) (use True assms(3) in \<open>auto simp: addItem_def Let_def status_def\<close>)
  next
    case False
    show thesis
      by (rule that [of "i\<lparr> it_priority := pr \<rparr>"]) (use False assms(3) in \<open>auto simp: addItem_def Let_def set_insert_at status_def\<close>)
  qed
  have jd: "distinct (map it_id (pm_items (addItem i pr m))) \<longleftrightarrow> distinct (map it_id (pm_items m)) \<and> it_id i \<notin> it_id ` set (pm_items m)"
    by (auto simp: addItem_def Let_def map_insert_at distinct_insert_at)
  have new: "it_id i \<notin> it_id ` set (pm_items m)" "pm_def m = Some p \<Longrightarrow> pv_id p \<noteq> it_id i" for p using assms(2) by (auto simp: used_def)
  have d: "pm_def (addItem i pr m) = pm_def m" "pm_log (addItem i pr m) = pm_log m" by (simp_all add: addItem_def Let_def)
  have "track_items (pm_items (addItem i pr m)) = (track_items (pm_items m))(it_id i \<mapsto> LFresh)"
    using track_insert [of "pm_items m" j "pm_items (addItem i pr m)"] assms(1) new j jd by (simp add: life_ok_def)
  then have "track_of (addItem i pr m) = (track_of m)(it_id i \<mapsto> LFresh)" using new(2) d by (simp add: track_of_def track_upd)
  then show ?thesis using assms(1) j jd new d used_life [OF assms(2)] by (auto simp: life_ok_def tracks_new)
qed

lemma used_events: "used (events es m) = used m \<union> {k. \<exists>ev \<in> set es. event_id ev = Some k}"
  by (auto simp: used_def)

lemma used_silent: "\<forall>ev \<in> set es. event_id ev = None \<Longrightarrow> used (events es m) = used m"
  by (auto simp: used_events)

lemma used_add: "used (addItem i pr m) = insert (it_id i) (used m)"
  by (auto simp: used_def addItem_def Let_def set_insert_at)

lemma events_split: "events (ev # es) m = events es (events [ev] m)"
  by (simp add: events_def)

lemma accept_life:
  assumes "life_ok m" and "it_id i \<notin> used m" and "\<not> it_init i"
  shows "life_ok (accept_item qv env who ok skipped i m) \<and> used (accept_item qv env who ok skipped i m) \<subseteq> insert (it_id i) (used m)"
proof -
  obtain es where es: "delete_item i = EDelete (it_id i) # es" "\<forall>ev \<in> set es. event_id ev = None" using delete_item_silent by blast
  have say: "life_ok (events [logDebug s] m)" "used (events [logDebug s] m) = used m" for s
    using life_silent [OF assms(1), of "[logDebug s]"] by (auto simp: used_events)
  have "life_ok (events (logDebug s # delete_item i) m)" for s
    unfolding events_split [of "logDebug s" "delete_item i"] by (rule life_reject [OF say(1)]) (simp add: say(2) assms(2))
  moreover have "used (events (logDebug s # delete_item i) m) \<subseteq> insert (it_id i) (used m)" for s
    using es by (auto simp: used_events)
  moreover have "life_ok (events [logDebug s] (addItem i pr m))" for s pr
    by (rule life_silent [OF life_add [OF assms]]) simp
  moreover have "used (events [logDebug s] (addItem i pr m)) = insert (it_id i) (used m)" for s pr
    by (simp add: used_silent used_add)
  ultimately show ?thesis by (simp add: accept_item_def Let_def)
qed

lemma static_life:
  assumes "life_ok m" and "set (static_ids [sp]) \<inter> used m = {}"
  shows "life_ok (scan_static qv env sp m) \<and> used (scan_static qv env sp m) \<subseteq> set (static_ids [sp]) \<union> used m"
proof -
  obtain r es where l: "loadStatic sp = (r, es)" by fastforce
  have es: "\<forall>ev \<in> set es. event_id ev = None" using silent_static [OF l] by blast
  show ?thesis
  proof (cases r)
    case (Inl err)
    then show ?thesis using l es life_silent [OF assms(1)] by (auto simp: scan_static_def used_events)
  next
    case (Inr i)
    have i: "static_ids [sp] = [it_id i]" "\<not> it_init i" using static_item l Inr by (auto simp: static_ids_def)
    have "it_id i \<notin> used (events es m)" using assms(2) i(1) used_silent [OF es] by simp
    from accept_life [OF life_silent [OF assms(1) es] this i(2)] show ?thesis
      using l Inr i(1) used_silent [OF es] by (simp add: scan_static_def)
  qed
qed

lemma file_life:
  assumes "life_ok m" and "set (file_ids [f]) \<inter> used m = {}"
  shows "life_ok (scan_file qv env f m) \<and> used (scan_file qv env f m) \<subseteq> set (file_ids [f]) \<union> used m"
proof -
  obtain r es where l: "item_load f = (r, es)" by fastforce
  have es: "\<forall>ev \<in> set es. event_id ev = None" using silent_load [OF l] by blast
  have say: "life_ok (events [logDebug s] m) \<and> used (events [logDebug s] m) \<subseteq> set (file_ids [f]) \<union> used m" for s
    using life_silent [OF assms(1), of "[logDebug s]"] by (auto simp: used_events)
  have "life_ok (case (r, es) of (Inl errstr, es) \<Rightarrow> events (es @ [logDebug (s @ errstr)]) m
      | (Inr i, es) \<Rightarrow> accept_item qv env (who i) (ok i) skipped i (events es m)) \<and>
    used (case (r, es) of (Inl errstr, es) \<Rightarrow> events (es @ [logDebug (s @ errstr)]) m
      | (Inr i, es) \<Rightarrow> accept_item qv env (who i) (ok i) skipped i (events es m)) \<subseteq> set (file_ids [f]) \<union> used m" for s who ok skipped
  proof (cases r)
    case (Inl err)
    then show ?thesis using es life_silent [OF assms(1)] by (auto simp: used_events)
  next
    case (Inr i)
    have i: "file_ids [f] = [it_id i]" "\<not> it_init i" using load_item l Inr by (auto simp: file_ids_def)
    have "it_id i \<notin> used (events es m)" using assms(2) i(1) used_silent [OF es] by simp
    from accept_life [OF life_silent [OF assms(1) es] this i(2)] show ?thesis
      using Inr i(1) used_silent [OF es] by simp
  qed
  then show ?thesis using say l by (auto simp: scan_file_def Let_def)
qed

text \<open>Loops over things that create objects.\<close>

lemma fold_life:
  assumes step: "\<And>x m. life_ok m \<Longrightarrow> set (ids x) \<inter> used m = {} \<Longrightarrow> distinct (ids x) \<Longrightarrow> life_ok (f x m) \<and> used (f x m) \<subseteq> set (ids x) \<union> used m"
    and "life_ok m" and "distinct (concat (map ids xs))" and "set (concat (map ids xs)) \<inter> used m = {}"
  shows "life_ok (fold f xs m) \<and> used (fold f xs m) \<subseteq> set (concat (map ids xs)) \<union> used m"
  using assms(2-)
proof (induction xs arbitrary: m)
  case (Cons x xs)
  have 1: "life_ok (f x m) \<and> used (f x m) \<subseteq> set (ids x) \<union> used m" using Cons(2-) by (intro step) auto
  have "set (concat (map ids xs)) \<inter> used (f x m) = {}" using 1 Cons(3,4) by auto
  with 1 Cons(3) have "life_ok (fold f xs (f x m)) \<and> used (fold f xs (f x m)) \<subseteq> set (concat (map ids xs)) \<union> used (f x m)"
    by (intro Cons(1)) auto
  then show ?case using 1 by auto
qed simp

lemma ids_concat: "file_ids fs = concat (map (\<lambda>f. file_ids [f]) fs)" "static_ids sps = concat (map (\<lambda>sp. static_ids [sp]) sps)"
  by (simp_all add: file_ids_def static_ids_def)

lemma dir_life:
  assumes "life_ok m" and "set (file_ids (pd_files dir)) \<inter> used m = {}" and "distinct (file_ids (pd_files dir))"
  shows "life_ok (scan_dir qv env dir m) \<and> used (scan_dir qv env dir m) \<subseteq> set (file_ids (pd_files dir)) \<union> used m"
proof -
  have say: "life_ok m \<Longrightarrow> life_ok (events [logDebug s] m)" "used (events [logDebug s] m) = used m" for s m
    using life_silent [of m "[logDebug s]"] by (auto simp: used_events)
  have "life_ok m \<Longrightarrow> set (file_ids (pd_files dir)) \<inter> used m = {} \<Longrightarrow>
    life_ok (fold (scan_file qv env) (pd_files dir) m) \<and> used (fold (scan_file qv env) (pd_files dir) m) \<subseteq> set (file_ids (pd_files dir)) \<union> used m" for m
    using fold_life [of "\<lambda>f. file_ids [f]" "scan_file qv env" m "pd_files dir"] file_life assms(3) unfolding ids_concat(1) [of "pd_files dir"] by blast
  from this [of "events [logDebug (qlatin ''Checking Qt Library Path: '' @ pd_path dir)] m"] show ?thesis
    using say assms(1,2) by (simp add: scan_dir_def Let_def)
qed

lemma life_scanned: "life_ok (m\<lparr> pm_scanned := b \<rparr>) = life_ok m" "used (m\<lparr> pm_scanned := b \<rparr>) = used m"
  by (simp_all add: life_ok_def track_of_def used_def)

lemma scan_life:
  assumes "life_ok m" and "distinct (scan_ids env)" and "set (scan_ids env) \<inter> used m = {}"
  shows "life_ok (scan qv env m)"
proof -
  have say: "life_ok m \<Longrightarrow> \<forall>ev \<in> set es. event_id ev = None \<Longrightarrow> life_ok (events es m) \<and> used (events es m) = used m" for es m
    using life_silent used_silent by blast
  define m1 where "m1 = (if pm_scanned m then m
               else let m = events (logDebug (qlatin ''Checking Qt static plugins:'') #
                          (if se_static env = [] then [logDebug (qlatin ''  (none)'')] else [])) m
                    in (fold (scan_static qv env) (se_static env) m)\<lparr> pm_scanned := True \<rparr>)"
  have m1: "life_ok m1 \<and> used m1 \<subseteq> set (static_ids (se_static env)) \<union> used m"
  proof (cases "pm_scanned m")
    case False
    define m0 where "m0 = events (logDebug (qlatin ''Checking Qt static plugins:'') # (if se_static env = [] then [logDebug (qlatin ''  (none)'')] else [])) m"
    have m0: "life_ok m0 \<and> used m0 = used m" unfolding m0_def by (rule say [OF assms(1)]) simp
    have "distinct (static_ids (se_static env))" "set (static_ids (se_static env)) \<inter> used m0 = {}"
      using assms(2,3) m0 by (auto simp: scan_ids_def)
    then have "life_ok (fold (scan_static qv env) (se_static env) m0) \<and>
      used (fold (scan_static qv env) (se_static env) m0) \<subseteq> set (static_ids (se_static env)) \<union> used m0"
      using fold_life [of "\<lambda>sp. static_ids [sp]" "scan_static qv env" m0 "se_static env"] static_life m0
      unfolding ids_concat(2) [of "se_static env"] by blast
    then show ?thesis using False m0 by (simp add: m1_def life_scanned flip: m0_def)
  qed (use assms(1) in \<open>simp add: m1_def\<close>)
  define m2 where "m2 = (if se_dirs env = [] then events [logDebug (qlatin ''No Qt Library Paths'')] m1 else m1)"
  have m2: "life_ok m2" "used m2 = used m1" using say m1 by (auto simp: m2_def)
  let ?ids = "concat (map (\<lambda>dir. file_ids (pd_files dir)) (se_dirs env))"
  have "distinct ?ids" "set ?ids \<inter> set (static_ids (se_static env)) = {}" "set ?ids \<inter> used m = {}"
    using assms(2,3) unfolding scan_ids_def by auto
  then have "distinct ?ids" "set ?ids \<inter> used m2 = {}" using m1 m2(2) by blast+
  then have "life_ok (fold (scan_dir qv env) (se_dirs env) m2)"
    using fold_life [of "\<lambda>dir. file_ids (pd_files dir)" "scan_dir qv env" m2 "se_dirs env"] dir_life m2(1) by blast
  then show ?thesis using m1 by (simp add: scan_def flip: m1_def m2_def)
qed

text \<open>Removal.\<close>

lemma id_neq: "k \<notin> it_id ` set is \<Longrightarrow> j \<in> set is \<Longrightarrow> it_id j \<noteq> k"
  by blast

lemma tracks_deinit:
  assumes "tracks T log" and "T (it_id i) = Some (status i)"
  shows "tracks (T(it_id i \<mapsto> (if it_init i then LOver else LFresh))) (log @ (if it_init i then [EDeinit (it_id i)] else []))"
proof (cases "it_init i")
  case True
  then show ?thesis using tracks_event [OF assms, of "EDeinit (it_id i)" LOver] by (simp add: status_def)
next
  case False
  then have "T(it_id i \<mapsto> LFresh) = T" using assms(2) by (simp add: status_def fun_upd_idem)
  then show ?thesis using False assms(1) by simp
qed

lemma tracks_delete_item:
  assumes "tracks T log" and "T (it_id i) = Some LFresh \<or> T (it_id i) = Some LOver" and "\<forall>ev \<in> set es. event_id ev = None"
  shows "tracks (T(it_id i := None)) (log @ delete_item i @ es)"
proof -
  obtain es' where es': "delete_item i = EDelete (it_id i) # es'" "\<forall>ev \<in> set es'. event_id ev = None" using delete_item_silent by blast
  then show ?thesis using tracks_delete [OF assms(1,2), of "es' @ es"] assms(3) by auto
qed

lemma status_item: "life_ok m \<Longrightarrow> i \<in> set (pm_items m) \<Longrightarrow> track_of m (it_id i) = Some (status i)"
proof -
  assume l: "life_ok m" and i: "i \<in> set (pm_items m)"
  then have "track_items (pm_items m) (it_id i) = Some (status i)" by (auto simp: life_ok_def track_items_eq)
  moreover have "track_def (pm_def m) (it_id i) = None" using l id_neq [OF _ i] by (auto simp: life_ok_def track_def_def split: option.splits)
  ultimately show ?thesis by (simp add: track_of_def map_add_def)
qed

lemma track_def_item:
  assumes "life_ok m" and "k \<in> it_id ` set (pm_items m)"
  shows "track_def (pm_def m) k = None" and "pm_def m = Some p \<Longrightarrow> pv_id p \<noteq> k"
proof -
  show *: "pv_id p \<noteq> k" if "pm_def m = Some p" for p using assms that by (metis life_ok_def)
  show "track_def (pm_def m) k = None" using * by (cases "pm_def m") (auto simp: track_def_def)
qed

lemma track_remove_item:
  assumes "life_ok m" and "n < length (pm_items m)"
  shows "track_of (m\<lparr> pm_items := remove_at n (pm_items m), pm_list := l \<rparr>) = (track_of m)(it_id (pm_items m ! n) := None)"
proof -
  have "track_items (remove_at n (pm_items m)) = (track_items (pm_items m))(it_id (pm_items m ! n) := None)"
    using assms by (intro track_remove) (auto simp: life_ok_def)
  moreover have "pm_def m = Some p \<Longrightarrow> pv_id p \<noteq> it_id (pm_items m ! n)" for p using assms by (auto simp: life_ok_def)
  ultimately show ?thesis by (simp add: track_of_def track_upd)
qed

lemma unload_life:
  assumes "life_ok m"
  shows "life_ok (snd (unload name m))"
proof (cases "item_index (named name) (pm_items m)")
  case None
  then show ?thesis using assms by (simp add: unload_def)
next
  case (Some n)
  then have n: "n < length (pm_items m)" by (simp add: index_Some)
  let ?i = "pm_items m ! n" and ?m = "m\<lparr> pm_items := remove_at n (pm_items m), pm_list := remove_at n (pm_list m) \<rparr>"
  have t: "track_of m (it_id ?i) = Some (status ?i)" using status_item [OF assms] n by simp
  have "tracks ((track_of m)(it_id ?i \<mapsto> (if it_init ?i then LOver else LFresh))) (pm_log m @ (if it_init ?i then [EDeinit (it_id ?i)] else []))"
    by (rule tracks_deinit) (use assms t in \<open>simp_all add: life_ok_def\<close>)
  from tracks_delete_item [OF this, of ?i "[logDebug (qlatin ''Unloaded: '' @ name)]"]
  have "tracks (track_of ?m) (pm_log (snd (unload name m)))"
    using Some track_remove_item [OF assms n] by (auto simp: unload_def Let_def split: if_splits)
  moreover have "track_of (snd (unload name m)) = track_of ?m" using Some by (simp add: unload_def Let_def track_of_def)
  moreover have "distinct (map it_id (remove_at n (pm_items m)))" "set (remove_at n (pm_items m)) \<subseteq> set (pm_items m)"
    using assms n remove_at_distinct [of n "map it_id (pm_items m)"] remove_at_set [OF n] by (auto simp: life_ok_def map_remove_at simp flip: map_remove_at)
  ultimately show ?thesis using assms Some by (auto simp: life_ok_def unload_def Let_def)
qed

lemma tracks_deinits:
  assumes "tracks T log" and "\<forall>i \<in> set is. T (it_id i) = Some (status i)" and "distinct (map it_id is)"
  shows "\<exists>T'. tracks T' (log @ concat (map (\<lambda>i. if it_init i then [EDeinit (it_id i)] else []) is)) \<and>
    (\<forall>i \<in> set is. T' (it_id i) = Some LFresh \<or> T' (it_id i) = Some LOver) \<and> (\<forall>k. k \<notin> it_id ` set is \<longrightarrow> T' k = T k)"
  using assms
proof (induction "is" arbitrary: T log)
  case (Cons i "is")
  let ?T = "T(it_id i \<mapsto> (if it_init i then LOver else LFresh))" and ?log = "log @ (if it_init i then [EDeinit (it_id i)] else [])"
  have 1: "tracks ?T ?log" using tracks_deinit [OF Cons(2)] Cons(3) by simp
  have 2: "\<forall>j \<in> set is. ?T (it_id j) = Some (status j)" using Cons(3,4) id_neq [of "it_id i" "is"] by auto
  have 3: "distinct (map it_id is)" using Cons(4) by simp
  obtain T' where "tracks T' (?log @ concat (map (\<lambda>i. if it_init i then [EDeinit (it_id i)] else []) is))"
    "\<forall>i \<in> set is. T' (it_id i) = Some LFresh \<or> T' (it_id i) = Some LOver" "\<forall>k. k \<notin> it_id ` set is \<longrightarrow> T' k = ?T k"
    using Cons(1) [OF 1 2 3] by blast
  then show ?case using Cons(4) by (intro exI [of _ T']) auto
qed auto

lemma tracks_deletes:
  assumes "tracks T log" and "\<forall>i \<in> set is. T (it_id i) = Some LFresh \<or> T (it_id i) = Some LOver" and "distinct (map it_id is)"
  shows "tracks (\<lambda>k. if k \<in> it_id ` set is then None else T k) (log @ concat (map (\<lambda>i. delete_item i @ [logDebug (f i)]) is))"
  using assms
proof (induction "is" arbitrary: T log)
  case (Cons i "is")
  let ?log = "log @ delete_item i @ [logDebug (f i)]"
  have 1: "tracks (T(it_id i := None)) ?log" using tracks_delete_item [OF Cons(2), of i "[logDebug (f i)]"] Cons(3) by simp
  have 2: "\<forall>j \<in> set is. (T(it_id i := None)) (it_id j) = Some LFresh \<or> (T(it_id i := None)) (it_id j) = Some LOver"
    using Cons(3,4) id_neq [of "it_id i" "is"] by auto
  have 3: "distinct (map it_id is)" using Cons(4) by simp
  have "tracks (\<lambda>k. if k \<in> it_id ` set is then None else (T(it_id i := None)) k)
    (?log @ concat (map (\<lambda>i. delete_item i @ [logDebug (f i)]) is))" by (rule Cons(1) [OF 1 2 3])
  moreover have "(\<lambda>k. if k \<in> it_id ` set is then None else (T(it_id i := None)) k) = (\<lambda>k. if k \<in> it_id ` set (i # is) then None else T k)"
    by (rule ext) auto
  ultimately show ?case by simp
qed simp

lemma unloadAll_life:
  assumes "life_ok m"
  shows "life_ok (unloadAll m) \<and> pm_items (unloadAll m) = []"
proof -
  let ?es = "concat (map (\<lambda>i. if it_init i then [EDeinit (it_id i)] else []) (pm_items m))"
  have d: "distinct (map it_id (pm_items m))" "tracks (track_of m) (pm_log m)" using assms by (auto simp: life_ok_def)
  obtain T where T: "tracks T (pm_log m @ ?es)" "\<forall>i \<in> set (pm_items m). T (it_id i) = Some LFresh \<or> T (it_id i) = Some LOver"
    "\<forall>k. k \<notin> it_id ` set (pm_items m) \<longrightarrow> T k = track_of m k"
    using tracks_deinits [OF d(2) _ d(1)] status_item [OF assms] by blast
  note r = tracks_deletes [OF T(1,2) d(1), of "\<lambda>i. qlatin ''Unloaded: '' @ it_name i"]
  have "(\<lambda>k. if k \<in> it_id ` set (pm_items m) then None else T k) = track_def (pm_def m)"
  proof
    fix k
    show "(if k \<in> it_id ` set (pm_items m) then None else T k) = track_def (pm_def m) k"
      using T(3) assms by (auto simp: track_of_def track_def_def map_add_def life_ok_def track_items_None split: option.splits)
  qed
  then show ?thesis using r by (simp add: unloadAll_def life_ok_def track_of_def track_items_def)
qed

text \<open>Changes that keep which objects there are and their state.\<close>

lemma life_keys:
  assumes "life_ok m" and "distinct (map it_id (pm_items m'))"
    and "(\<lambda>i. (it_id i, status i)) ` set (pm_items m') = (\<lambda>i. (it_id i, status i)) ` set (pm_items m)"
    and "pm_def m' = pm_def m" and "pm_log m' = pm_log m"
  shows "life_ok m'"
proof -
  have "track_items (pm_items m') = track_items (pm_items m)" using assms by (intro track_perm) (auto simp: life_ok_def)
  moreover have "it_id ` set (pm_items m') = it_id ` set (pm_items m)" using arg_cong [OF assms(3), of "image fst"] by (simp add: image_image)
  ultimately show ?thesis using assms by (simp add: life_ok_def track_of_def)
qed

lemma change_items:
  assumes "item_index (named name) (pm_items m) = Some n"
  shows "\<exists>j. set (pm_items (changePriority name pr m)) = insert j (set (remove_at n (pm_items m))) \<and> it_p j = it_p (pm_items m ! n) \<and>
      it_init j = it_init (pm_items m ! n) \<and>
      (distinct (map it_id (pm_items m)) \<longrightarrow> distinct (map it_id (pm_items (changePriority name pr m))))"
proof -
  have n: "n < length (pm_items m)" using assms by (simp add: index_Some)
  have "distinct (map it_id (pm_items m)) \<Longrightarrow> distinct (map it_id (remove_at n (pm_items m))) \<and> it_id (pm_items m ! n) \<notin> it_id ` set (remove_at n (pm_items m))"
    using remove_at_distinct [of n "map it_id (pm_items m)"] n by (simp add: map_remove_at [symmetric])
  then show ?thesis using assms
    by (cases "pr < 0") (auto simp: changePriority_def addItem_def Let_def set_insert_at map_insert_at distinct_insert_at)
qed

lemma change_life: "life_ok m \<Longrightarrow> life_ok (changePriority name pr m)"
proof (cases "item_index (named name) (pm_items m)")
  case (Some n)
  assume l: "life_ok m"
  have n: "n < length (pm_items m)" using Some by (simp add: index_Some)
  obtain j where j: "set (pm_items (changePriority name pr m)) = insert j (set (remove_at n (pm_items m)))" "it_p j = it_p (pm_items m ! n)"
    "it_init j = it_init (pm_items m ! n)" "distinct (map it_id (pm_items m)) \<longrightarrow> distinct (map it_id (pm_items (changePriority name pr m)))"
    using change_items [OF Some] by blast
  have d: "pm_def (changePriority name pr m) = pm_def m" "pm_log (changePriority name pr m) = pm_log m"
    using Some by (simp_all add: changePriority_def addItem_def Let_def)
  show ?thesis
    by (rule life_keys [OF l]) (use j d l remove_at_set [OF n] in \<open>auto simp: life_ok_def status_def\<close>)
qed (simp add: changePriority_def)

lemma setDefault_life:
  assumes "life_ok m" and "pv_id p \<notin> used m" and "pm_def m = None"
  shows "life_ok (setDefault c p m)"
proof -
  let ?k = "pv_id p" and ?es = "if c p \<noteq> [] then [EConfig (pv_id p) (c p)] else []"
  have "tracks ((track_of m)(?k \<mapsto> LFresh)) (pm_log m)" using assms used_life [OF assms(2)] by (simp add: life_ok_def tracks_new)
  then have "tracks ((track_of m)(?k \<mapsto> LFresh, ?k \<mapsto> LReady)) (pm_log m @ [EInit ?k])" by (rule tracks_event [of _ _ _ LFresh]) auto
  then have 1: "tracks ((track_of m)(?k \<mapsto> LReady)) (pm_log m @ [EInit ?k])" by simp
  then have "tracks ((track_of m)(?k \<mapsto> LReady, ?k \<mapsto> LReady)) ((pm_log m @ [EInit ?k]) @ [EConfig ?k cc])" for cc
    by (rule tracks_event [of _ _ _ LReady]) auto
  then have "tracks ((track_of m)(?k \<mapsto> LReady)) (pm_log m @ EInit ?k # ?es)" using 1 by simp
  moreover have "track_of (setDefault c p m) = (track_of m)(?k \<mapsto> LReady)"
    using assms(3) by (simp add: setDefault_def Let_def track_of_def track_def_def)
  moreover have "?k \<notin> it_id ` set (pm_items m)" using assms(2) by (auto simp: used_def)
  ultimately show ?thesis using assms(1,3) by (simp add: life_ok_def setDefault_def Let_def)
qed

text \<open>Initialisation of one tracked object.\<close>

lemma tracks_init:
  assumes "tracks T log" and "T (it_id i) = Some (status i)" and "ensureInit c i = (j, es)"
  shows "tracks (T(it_id i \<mapsto> LReady)) (log @ es) \<and> it_p j = it_p i \<and> it_init j"
proof (cases "it_init i")
  case True
  then have "T(it_id i \<mapsto> LReady) = T" using assms(2) by (simp add: status_def fun_upd_idem)
  then show ?thesis using assms True by (simp add: ensureInit_def)
next
  case False
  let ?k = "it_id i"
  have 1: "tracks (T(?k \<mapsto> LReady)) (log @ [EInit ?k])"
    by (rule tracks_event [OF assms(1,2)]) (use False in \<open>auto simp: status_def\<close>)
  then have "tracks (T(?k \<mapsto> LReady, ?k \<mapsto> LReady)) ((log @ [EInit ?k]) @ [EConfig ?k cc])" for cc
    by (rule tracks_event [of _ _ _ LReady]) auto
  then show ?thesis using assms(3) False 1 by (auto simp: ensureInit_def Let_def)
qed

lemma init_item_life:
  assumes "life_ok m" and "n < length (pm_items m)"
  shows "life_ok (init_item c n m)"
proof -
  obtain j es where e: "ensureInit c (pm_items m ! n) = (j, es)" by fastforce
  let ?i = "pm_items m ! n"
  have t: "tracks ((track_of m)(it_id ?i \<mapsto> LReady)) (pm_log m @ es)" "it_p j = it_p ?i" "it_init j"
    using tracks_init [of "track_of m" "pm_log m" ?i c j es] status_item [OF assms(1), of ?i] e assms by (auto simp: life_ok_def)
  have ids: "map it_id ((pm_items m)[n := j]) = map it_id (pm_items m)" using t(2) assms(2) by (simp add: map_update list_update_same_conv)
  have dist: "distinct (map it_id ((pm_items m)[n := j]))" using ids assms(1) by (simp add: life_ok_def)
  have "set ((pm_items m)[n := j]) = insert j (set (remove_at n (pm_items m)))"
    using assms(2) by (simp add: upd_conv_take_nth_drop remove_at_def)
  moreover have r: "distinct (map it_id (remove_at n (pm_items m)))" "it_id ?i \<notin> it_id ` set (remove_at n (pm_items m))"
    using remove_at_distinct [of n "map it_id (pm_items m)"] assms by (auto simp: life_ok_def map_remove_at simp flip: map_remove_at)
  ultimately have "track_items ((pm_items m)[n := j]) = (track_items (remove_at n (pm_items m)))(it_id j \<mapsto> status j)"
    using dist t(2) by (intro track_insert) auto
  also have "\<dots> = (track_items (pm_items m))(it_id ?i \<mapsto> LReady)"
    using track_remove [of "pm_items m" n] assms t(2,3) by (simp add: life_ok_def status_def)
  finally have "track_of (init_item c n m) = (track_of m)(it_id ?i \<mapsto> LReady)"
    using track_def_item(2) [OF assms(1), of "it_id ?i"] assms(2) by (simp add: track_of_def init_item_def e track_upd)
  moreover have "it_id ` set ((pm_items m)[n := j]) = it_id ` set (pm_items m)" using arg_cong [OF ids, of set] by simp
  ultimately show ?thesis using assms(1) t(1) dist by (simp add: life_ok_def init_item_def e)
qed

lemma find_life: "life_ok m \<Longrightarrow> life_ok (snd (find_where c P m))"
  using init_item_life [of m _ c] by (auto simp: find_where_def index_Some split: option.splits)

lemma tracks_first_able:
  assumes "first_able c type is = (r, is', es)" and "tracks T log" and "\<forall>i \<in> set is. T (it_id i) = Some (status i)" and "distinct (map it_id is)"
  shows "\<exists>T'. tracks T' (log @ es) \<and> (\<forall>i \<in> set is'. T' (it_id i) = Some (status i)) \<and> (\<forall>k. k \<notin> it_id ` set is \<longrightarrow> T' k = T k)"
  using assms
proof (induction "is" arbitrary: r is' es T log)
  case (Cons i "is")
  obtain j es1 where e: "ensureInit c i = (j, es1)" by fastforce
  let ?T = "T(it_id i \<mapsto> LReady)"
  have 1: "tracks ?T (log @ es1)" "it_p j = it_p i" "it_init j" using tracks_init [of T log i c j es1] Cons(3,4) e by auto
  have 2: "\<forall>x \<in> set is. ?T (it_id x) = Some (status x)" using Cons(4,5) id_neq [of "it_id i" "is"] by auto
  have j: "?T (it_id j) = Some (status j)" using 1 by (simp add: status_def)
  show ?case
  proof (cases "type \<in> set (pv_features (it_p j) True)")
    case True
    then have r: "is' = j # is" "es = es1" using Cons(2) e by auto
    show ?thesis
    proof (intro exI conjI)
      show "tracks ?T (log @ es)" using 1(1) r by simp
      show "\<forall>i \<in> set is'. ?T (it_id i) = Some (status i)" using 2 j r by simp
    qed auto
  next
    case False
    obtain r2 is2 es2 where f: "first_able c type is = (r2, is2, es2)" by (metis prod_cases3)
    have 3: "distinct (map it_id is)" using Cons(5) by simp
    obtain T' where T': "tracks T' ((log @ es1) @ es2)" "\<forall>i \<in> set is2. T' (it_id i) = Some (status i)" "\<forall>k. k \<notin> it_id ` set is \<longrightarrow> T' k = ?T k"
      using Cons(1) [OF f 1(1) 2 3] by blast
    have r: "is' = j # is2" "es = es1 @ es2" using Cons(2) e f False by auto
    have "T' (it_id j) = Some (status j)" using T'(3) Cons(5) 1(2) j by simp
    then show ?thesis using T' r by (intro exI [of _ T']) auto
  qed
qed auto

lemma findFor_life:
  assumes "life_ok m"
  shows "life_ok (snd (findFor c name type m))"
proof (cases "name = []")
  case False
  then show ?thesis using find_life [OF assms, of c] by (auto simp: findFor_def find_name_def split: option.splits prod.splits) (metis snd_conv)+
next
  case True
  obtain r is' es where f: "first_able c type (pm_items m) = (r, is', es)" by (metis prod_cases3)
  have d: "distinct (map it_id (pm_items m))" "tracks (track_of m) (pm_log m)" using assms by (auto simp: life_ok_def)
  obtain T where T: "tracks T (pm_log m @ es)" "\<forall>i \<in> set is'. T (it_id i) = Some (status i)"
    "\<forall>k. k \<notin> it_id ` set (pm_items m) \<longrightarrow> T k = track_of m k"
    using tracks_first_able [OF f d(2) _ d(1)] status_item [OF assms] by blast
  have ids: "map it_id is' = map it_id (pm_items m)"
    using arg_cong [OF same_items_map(1) [OF same_first_able [OF f]], of "map pv_id"] by (simp add: o_def)
  then have set: "it_id ` set is' = it_id ` set (pm_items m)" by (metis list.set_map)
  let ?m = "events es (m\<lparr> pm_items := is' \<rparr>)"
  have "track_of ?m = T"
  proof
    fix k
    show "track_of ?m k = T k"
    proof (cases "k \<in> it_id ` set is'")
      case k: True
      then obtain i where i: "i \<in> set is'" "k = it_id i" by blast
      then have "track_items is' k = Some (status i)" using d(1) ids by (auto simp: track_items_eq)
      moreover have "track_def (pm_def m) k = None" using track_def_item(1) [OF assms] k set by simp
      ultimately show ?thesis using T(2) i by (simp add: track_of_def map_add_def)
    next
      case k: False
      then have "track_items is' k = None" "track_items (pm_items m) k = None" using set by (simp_all add: track_items_None)
      then show ?thesis using T(3) k set by (simp add: track_of_def map_add_def split: option.splits)
    qed
  qed
  then have "life_ok ?m" using assms T(1) ids set d(1) by (simp add: life_ok_def)
  then show ?thesis using True f by (auto simp: findFor_def Let_def split: option.splits)
qed

lemma add_life: "life_ok m \<Longrightarrow> pv_id p \<notin> used m \<Longrightarrow> life_ok (snd (add_provider qv p pr m))"
  using life_add [of m "new_item None p" pr] life_silent by (auto simp: add_provider_def Let_def new_item_def)

lemma life_step_ok: "life_ok m \<Longrightarrow> pm_possible i m \<Longrightarrow> life_ok (pm_step qv i m)"
  by (cases i) (auto simp: pm_possible_def scan_life add_life unload_life unloadAll_life setDefault_life change_life findFor_life
      find_provider_def find_name_def find_life)

lemma life_reach: "pm_reach qv m \<Longrightarrow> life_ok m"
proof (induction rule: pm_reach.induct)
  case empty
  show ?case by (simp add: life_ok_def new_manager_def tracks_def track_of_def track_items_def track_def_def life_of_def)
next
  case (step m i)
  then show ?case using life_step_ok by blast
qed

section \<open>Providers that are handed out\<close>

text \<open>A provider that the manager may hand out for use: the default provider, or one that was initialised.\<close>

definition usable :: "manager \<Rightarrow> provider \<Rightarrow> bool" where
  "usable m p \<longleftrightarrow> pm_def m = Some p \<or> (\<exists>i \<in> set (pm_items m). it_p i = p \<and> it_init i)"

lemma usable_ready:
  assumes "life_ok m" and "usable m p"
  shows "life_of (pv_id p) (pm_log m) = Some LReady"
proof -
  have "track_of m (pv_id p) = Some LReady"
  proof (cases "pm_def m = Some p")
    case True
    then show ?thesis by (simp add: track_of_def track_def_def)
  next
    case False
    then obtain i where i: "i \<in> set (pm_items m)" "it_p i = p" "it_init i" using assms(2) by (auto simp: usable_def)
    from status_item [OF assms(1) i(1)] show ?thesis using i(2,3) by (simp add: status_def)
  qed
  moreover from assms(1) have "case track_of m (pv_id p) of Some l \<Rightarrow> life_of (pv_id p) (pm_log m) = Some l
      | None \<Rightarrow> life_of (pv_id p) (pm_log m) = Some LFresh \<or> life_of (pv_id p) (pm_log m) = Some LGone"
    unfolding life_ok_def tracks_def by blast
  ultimately show ?thesis by simp
qed

lemma init_item_usable:
  assumes "n < length (pm_items m)"
  shows "usable (init_item c n m) (it_p (pm_items m ! n))"
proof -
  obtain j es where e: "ensureInit c (pm_items m ! n) = (j, es)" by fastforce
  then have "it_p j = it_p (pm_items m ! n)" "it_init j" by (auto simp: ensureInit_def split: if_splits)
  moreover have "j \<in> set ((pm_items m)[n := j])" using assms by (rule set_update_memI)
  ultimately show ?thesis by (auto simp: usable_def init_item_def e)
qed

lemma find_usable: "find_where c P m = (Some p, m') \<Longrightarrow> usable m' p"
  using init_item_usable [of _ m c]
  by (auto simp: find_where_def index_Some split: option.splits if_splits) (simp_all add: usable_def)

lemma first_able_usable:
  "first_able c type is = (Some p, is', es) \<Longrightarrow> \<exists>i \<in> set is'. it_p i = p \<and> it_init i"
  by (induction "is" arbitrary: is' es)
    (auto simp: ensureInit_def Let_def split: if_splits prod.splits)

lemma findFor_usable: "findFor c name type m = (Some p, m') \<Longrightarrow> usable m' p"
  by (auto simp: findFor_def find_name_def usable_def Let_def events_def
      split: if_splits prod.splits option.splits
      dest: first_able_usable find_usable [unfolded usable_def])

section \<open>The end of the manager\<close>

lemma fresh_unseen: "life_of k log = Some LFresh \<Longrightarrow> ev \<in> set log \<Longrightarrow> event_id ev \<noteq> Some k"
proof (induction log rule: rev_induct)
  case (snoc e log)
  obtain l where l: "life_of k log = Some l" using snoc(2) by (cases "life_of k log") auto
  have s: "life_step k (Some l) e = Some LFresh" using snoc(2) l by simp
  then have e: "event_id e \<noteq> Some k" by (cases e) (auto simp: event_id_def split: if_splits)
  then have "l = LFresh" using s by (simp add: life_other)
  then show ?case using snoc(1,3) l e by auto
qed simp

lemma delete_manager_tracks:
  assumes "life_ok m"
  shows "tracks Map.empty (delete_manager m)"
proof (cases "pm_def m")
  case None
  then have "track_of (unloadAll m) = Map.empty" using unloadAll_life [OF assms] by (simp add: track_of_def track_items_def track_def_def unloadAll_def)
  then show ?thesis using unloadAll_life [OF assms] None by (simp add: life_ok_def delete_manager_def events_def)
next
  case (Some d)
  have new: "pv_id d \<notin> it_id ` set (pm_items m)" using assms Some by (simp add: life_ok_def)
  define T where "T = track_items (pm_items m)"
  have "tracks (T(pv_id d \<mapsto> LReady)) (pm_log m)" using assms Some by (simp add: life_ok_def track_of_def track_def_def T_def)
  then have "tracks (T(pv_id d \<mapsto> LReady, pv_id d \<mapsto> LOver)) (pm_log m @ [EDeinit (pv_id d)])" by (rule tracks_event [of _ _ _ LReady]) auto
  then have 0: "tracks (T(pv_id d \<mapsto> LOver)) (pm_log m @ [EDeinit (pv_id d)])" by simp
  let ?es = "concat (map (\<lambda>i. if it_init i then [EDeinit (it_id i)] else []) (pm_items m))"
  have dist: "distinct (map it_id (pm_items m))" using assms by (simp add: life_ok_def)
  have "\<forall>i \<in> set (pm_items m). (T(pv_id d \<mapsto> LOver)) (it_id i) = Some (status i)"
    using new id_neq [OF new] dist by (auto simp: T_def track_items_eq)
  then obtain T' where T': "tracks T' ((pm_log m @ [EDeinit (pv_id d)]) @ ?es)"
    "\<forall>i \<in> set (pm_items m). T' (it_id i) = Some LFresh \<or> T' (it_id i) = Some LOver"
    "\<forall>k. k \<notin> it_id ` set (pm_items m) \<longrightarrow> T' k = (T(pv_id d \<mapsto> LOver)) k"
    using tracks_deinits [OF 0 _ dist] by blast
  note r = tracks_deletes [OF T'(1,2) dist, of "\<lambda>i. qlatin ''Unloaded: '' @ it_name i"]
  have "(\<lambda>k. if k \<in> it_id ` set (pm_items m) then None else T' k) = [pv_id d \<mapsto> LOver]"
    by (rule ext) (use T'(3) new in \<open>auto simp: T_def track_items_None\<close>)
  then have "tracks (([pv_id d \<mapsto> LOver])(pv_id d := None)) (pm_log (unloadAll (events [EDeinit (pv_id d)] m)) @ EDelete (pv_id d) # [])"
    using r by (intro tracks_delete) (auto simp: unloadAll_def)
  then show ?thesis using Some by (simp add: delete_manager_def)
qed

lemma deleted_in: "i \<in> set (pm_items m) \<Longrightarrow> EDelete (it_id i) \<in> set (delete_manager m)"
  by (auto simp: delete_manager_def unloadAll_def delete_item_def)

lemma tracks_defined: "tracks T log \<Longrightarrow> life_of k log \<noteq> None"
  using spec [of "\<lambda>k. case T k of Some l \<Rightarrow> life_of k log = Some l | None \<Rightarrow> life_of k log = Some LFresh \<or> life_of k log = Some LGone" k]
  by (auto simp: tracks_def split: option.splits)

section \<open>The order of priorities\<close>

lemma place_filter:
  "sorted (map it_priority is) \<Longrightarrow>
   take (place pr is) is = filter (\<lambda>i. it_priority i < pr) is \<and> drop (place pr is) is = filter (\<lambda>i. pr \<le> it_priority i) is"
proof (induction pr "is" rule: place.induct)
  case (2 pr i "is")
  show ?case
  proof (cases "pr \<le> it_priority i")
    case True
    then have "\<forall>j \<in> set is. pr \<le> it_priority j" using 2(2) by auto
    then show ?thesis using True by (auto simp: filter_empty_conv filter_id_conv not_less)
  qed (use 2 in auto)
qed simp

lemma remove_filter: "item_index (named name) is = Some n \<Longrightarrow> distinct (map it_name is) \<Longrightarrow> remove_at n is = filter (\<lambda>i. it_name i \<noteq> name) is"
proof (induction "is" arbitrary: n)
  case (Cons i "is")
  show ?case
  proof (cases "it_name i = name")
    case True
    then have "name \<notin> it_name ` set is" using Cons(3) by simp
    then have "\<forall>x \<in> set is. it_name x \<noteq> name" by blast
    then have "filter (\<lambda>i. it_name i \<noteq> name) is = is" by (simp add: filter_id_conv)
    then show ?thesis using True Cons(2) by (auto simp: remove_at_def)
  next
    case False
    then obtain k where "n = Suc k" "item_index (named name) is = Some k" using Cons(2) by auto
    then show ?thesis using Cons(1,3) False by (simp add: remove_at_def)
  qed
qed simp

section \<open>Log lines\<close>

definition tame :: "pm_event \<Rightarrow> bool" where
  "tame ev = (case ev of ESay s \<Rightarrow> \<exists>u. s = u @ [0x0a] | _ \<Rightarrow> True)"

lemma tame_simps [simp]: "tame (logDebug s)" "tame (EInit k)" "tame (EConfig k c)" "tame (EDeinit k)" "tame (EDelete k)"
  "tame (EDeleteInstance n)" "tame (EUnloadLibrary n)"
  by (simp_all add: tame_def logDebug_def)

definition lines :: "manager \<Rightarrow> bool" where
  "lines m \<longleftrightarrow> (\<forall>ev \<in> set (pm_log m). tame ev)"

lemma tame_delete: "ev \<in> set (delete_instance i) \<Longrightarrow> tame ev" "ev \<in> set (delete_item pi) \<Longrightarrow> tame ev"
  by (auto simp: delete_instance_def delete_item_def split: if_splits option.splits)

lemma tame_load: "item_load f = (r, es) \<Longrightarrow> ev \<in> set es \<Longrightarrow> tame ev" "loadStatic sp = (r, es) \<Longrightarrow> ev \<in> set es \<Longrightarrow> tame ev"
  by (auto simp: item_load_def fromFile_def loadStatic_def create_item_def dest: tame_delete
      split: option.splits sum.splits prod.splits if_splits)

lemma lines_events: "lines m \<Longrightarrow> \<forall>ev \<in> set es. tame ev \<Longrightarrow> lines (events es m)"
  by (auto simp: lines_def)

lemma log_addItem [simp]: "pm_log (addItem i pr m) = pm_log m"
  by (simp add: addItem_def Let_def)

lemma lines_accept: "lines m \<Longrightarrow> lines (accept_item qv env who ok skipped i m)"
  by (auto simp: accept_item_def Let_def lines_def dest: tame_delete)

lemma lines_static: "lines m \<Longrightarrow> lines (scan_static qv env sp m)"
  by (auto simp: scan_static_def dest: tame_load intro!: lines_accept lines_events split: sum.splits prod.splits)

lemma lines_file: "lines m \<Longrightarrow> lines (scan_file qv env f m)"
  by (auto simp: scan_file_def Let_def dest: tame_load intro!: lines_accept lines_events split: sum.splits prod.splits)

lemma lines_scan:
  assumes "lines m"
  shows "lines (scan qv env m)"
proof -
  have st: "lines m \<Longrightarrow> lines (fold (scan_static qv env) l m)" for l m by (rule fold_keeps) (auto intro: lines_static)
  have fl: "lines m \<Longrightarrow> lines (fold (scan_file qv env) l m)" for l m by (rule fold_keeps) (auto intro: lines_file)
  have dr: "lines m \<Longrightarrow> lines (scan_dir qv env x m)" for x m by (auto simp: scan_dir_def Let_def intro!: fl lines_events)
  have ds: "lines m \<Longrightarrow> lines (fold (scan_dir qv env) l m)" for l m by (rule fold_keeps) (auto intro: dr)
  have fl2: "lines (m\<lparr> pm_scanned := b \<rparr>) = lines m" for b m by (simp add: lines_def)
  show ?thesis using assms by (simp add: scan_def Let_def st ds fl2 lines_events)
qed

lemma tame_init: "ensureInit c i = (j, es) \<Longrightarrow> ev \<in> set es \<Longrightarrow> tame ev"
  by (auto simp: ensureInit_def Let_def split: if_splits)

lemma tame_first_able: "first_able c type is = (r, is', es) \<Longrightarrow> ev \<in> set es \<Longrightarrow> tame ev"
  by (induction "is" arbitrary: r is' es) (auto dest: tame_init split: prod.splits if_splits)

lemma lines_find: "lines m \<Longrightarrow> lines (snd (find_where c P m))"
  by (auto simp: find_where_def init_item_def lines_def dest: tame_init split: option.splits prod.splits)

lemma lines_findFor:
  assumes "lines m"
  shows "lines (snd (findFor c name type m))"
proof (cases "name = []")
  case True
  obtain r is' es where f: "first_able c type (pm_items m) = (r, is', es)" by (metis prod_cases3)
  have "lines (events es (m\<lparr> pm_items := is' \<rparr>))" using assms tame_first_able [OF f] by (auto simp: lines_def)
  then show ?thesis using True f by (auto simp: findFor_def Let_def split: option.splits)
next
  case False
  then show ?thesis using lines_find [OF assms, of c] by (auto simp: findFor_def find_name_def split: option.splits prod.splits) (metis snd_conv)+
qed

lemma lines_step: "lines m \<Longrightarrow> lines (pm_step qv i m)"
proof (cases i)
  case PUnloadAll
  then show "lines m \<Longrightarrow> ?thesis" by (auto simp: unloadAll_def lines_def dest: tame_delete split: if_splits)
next
  case (PUnload name)
  then show "lines m \<Longrightarrow> ?thesis" by (auto simp: unload_def Let_def lines_def dest: tame_delete split: option.splits)
qed (auto simp: lines_scan lines_findFor lines_find find_provider_def find_name_def,
     auto simp: lines_def add_provider_def setDefault_def changePriority_def Let_def split: option.splits)

lemma lines_reach: "pm_reach qv m \<Longrightarrow> lines m"
proof (induction rule: pm_reach.induct)
  case empty
  show ?case by (simp add: lines_def new_manager_def)
next
  case (step m i)
  then show ?case using lines_step by blast
qed

lemma diagnostic_lines: "\<forall>ev \<in> set es. tame ev \<Longrightarrow> length dtext < 20000 \<Longrightarrow> \<exists>t. diagnosticText dtext es = Some t \<and> length t < 20000"
proof (induction dtext es rule: diagnosticText.induct)
  case (2 dtext str es)
  obtain u where "str = u @ [0x0a]" using 2(2) by (auto simp: tame_def)
  then obtain t where "appendDiagnosticText dtext str = Some t" "length t < 20000" using append_line by blast
  then show ?case using 2(1) [of t] 2(2) by simp
qed auto

section \<open>Properties\<close>

text \<open>A manager with the default provider and two providers, of which one has been initialised.\<close>

definition demo_provider :: "nat \<Rightarrow> string \<Rightarrow> string list \<Rightarrow> provider" where
  "demo_provider k name fs = \<lparr> pv_id = k, pv_name = qlatin name, pv_version = 0x30001, pv_features = (\<lambda>_. map qlatin fs), pv_defaultConfig = [] \<rparr>"

definition demo_manager :: manager where
  "demo_manager = pm_step 0x30002 (PFindName (\<lambda>_. []) (qlatin ''b'')) (pm_step 0x30002 (PAdd (demo_provider 2 ''b'' [''sha1'', ''md5'']) 2)
     (pm_step 0x30002 (PAdd (demo_provider 1 ''a'' [''sha1'']) 5) (pm_step 0x30002 (PSetDefault (\<lambda>_. []) (demo_provider 0 ''default'' [''crl''])) new_manager)))"

lemma demo_manager_reach: "pm_reach 0x30002 demo_manager"
proof -
  have k: "pv_id (demo_provider k name fs) = k" for k name fs by (simp add: demo_provider_def)
  let ?m1 = "pm_step 0x30002 (PSetDefault (\<lambda>_. []) (demo_provider 0 ''default'' [''crl''])) new_manager"
  let ?m2 = "pm_step 0x30002 (PAdd (demo_provider 1 ''a'' [''sha1'']) 5) ?m1"
  have 1: "pm_reach 0x30002 ?m1"
    by (rule pm_reach.step [OF pm_reach.empty]) (simp add: pm_possible_def used_def new_manager_def)
  have u1: "used ?m1 = {0}" by (auto simp: used_def setDefault_def new_manager_def demo_provider_def Let_def)
  have 2: "pm_reach 0x30002 ?m2" by (rule pm_reach.step [OF 1]) (use u1 k in \<open>simp add: pm_possible_def\<close>)
  have "used ?m2 \<subseteq> {0, 1}"
    using u1 by (auto simp: add_provider_def used_events used_add new_item_def demo_provider_def Let_def)
  then have 3: "pm_reach 0x30002 (pm_step 0x30002 (PAdd (demo_provider 2 ''b'' [''sha1'', ''md5'']) 2) ?m2)"
    by (intro pm_reach.step [OF 2]) (auto simp: pm_possible_def demo_provider_def)
  show ?thesis unfolding demo_manager_def by (rule pm_reach.step [OF 3]) (simp add: pm_possible_def)
qed

text \<open>
  C12. The registry is in order.  Whatever is added, removed, scanned, looked up or given another
  priority: the providers are listed by priority, none of which is negative, no two have the same
  name, the two lists agree, and every provider was built for this version of the library.
\<close>

theorem provider_registry:
  assumes "pm_reach qv m"
  shows "sorted (map it_priority (pm_items m)) \<and> distinct (map it_name (pm_items m)) \<and> pm_list m = map it_p (pm_items m) \<and>
    (\<forall>i \<in> set (pm_items m). 0 \<le> it_priority i \<and> validVersion qv (pv_version (it_p i)))"
  using ok_reach [OF assms] by (simp add: pm_ok_def)

theorem provider_registry_witness:
  "sorted (map it_priority (pm_items demo_manager)) \<and> distinct (map it_name (pm_items demo_manager)) \<and>
   map it_id (pm_items demo_manager) = [2, 1]"
proof -
  have "map it_id (pm_items demo_manager) = [2, 1]" by code_simp
  then show ?thesis using provider_registry [OF demo_manager_reach] by simp
qed

text \<open>
  C11. The life of a provider.  In every run no provider is initialised twice, configured or
  finished before it was initialised, deleted while it is initialised and not yet finished, or
  touched after it was deleted.  A provider that \<^verbatim>\<open>find\<close> (by object or by name) or \<^verbatim>\<open>findFor\<close> hands out
  has been initialised, and neither finished nor deleted.  When the manager is deleted, every
  provider it holds has been finished if it was initialised, and deleted.  (\<^verbatim>\<open>providers()\<close> and
  \<^verbatim>\<open>allFeatures()\<close> do not initialise: the first lists the providers and the second asks each of
  them for its features as it is.)
\<close>

theorem provider_life:
  assumes "pm_reach qv m"
  shows "(\<forall>k. life_of k (pm_log m) \<noteq> None) \<and>
    (\<forall>c k p m'. find_provider c k m = (Some p, m') \<longrightarrow> life_of (pv_id p) (pm_log m') = Some LReady) \<and>
    (\<forall>c name p m'. find_name c name m = (Some p, m') \<longrightarrow> life_of (pv_id p) (pm_log m') = Some LReady) \<and>
    (\<forall>c name type p m'. findFor c name type m = (Some p, m') \<longrightarrow> life_of (pv_id p) (pm_log m') = Some LReady) \<and>
    (\<forall>k. life_of k (delete_manager m) \<in> {Some LFresh, Some LGone}) \<and>
    (\<forall>i \<in> set (pm_items m). life_of (it_id i) (delete_manager m) = Some LGone)"
proof (intro conjI allI impI ballI)
  note l = life_reach [OF assms]
  show "life_of k (pm_log m) \<noteq> None" for k using l tracks_defined by (auto simp: life_ok_def)
  show "life_of (pv_id p) (pm_log m') = Some LReady" if "find_provider c k m = (Some p, m')" for c k p m'
    using find_life [OF l] find_usable that by (metis find_provider_def snd_conv usable_ready)
  show "life_of (pv_id p) (pm_log m') = Some LReady" if "find_name c name m = (Some p, m')" for c name p m'
    using find_life [OF l] find_usable that by (metis find_name_def snd_conv usable_ready)
  show "life_of (pv_id p) (pm_log m') = Some LReady" if "findFor c name type m = (Some p, m')" for c name type p m'
    using findFor_life [OF l] findFor_usable [OF that] that by (metis snd_conv usable_ready)
  show gone: "life_of k (delete_manager m) \<in> {Some LFresh, Some LGone}" for k
    using delete_manager_tracks [OF l] by (simp add: tracks_def)
  show "life_of (it_id i) (delete_manager m) = Some LGone" if "i \<in> set (pm_items m)" for i
    using fresh_unseen [OF _ deleted_in [OF that]] gone [of "it_id i"] by auto
qed

theorem provider_life_witness:
  "life_of 2 (pm_log demo_manager) = Some LReady \<and> life_of 1 (pm_log demo_manager) = Some LFresh \<and>
   map_option pv_id (fst (find_name (\<lambda>_. []) (qlatin ''a'') demo_manager)) = Some 1 \<and>
   life_of 1 (pm_log (snd (find_name (\<lambda>_. []) (qlatin ''a'') demo_manager))) = Some LReady \<and>
   life_of 2 (delete_manager demo_manager) = Some LGone \<and> life_of 1 (delete_manager demo_manager) = Some LGone"
proof -
  have "life_of 2 (pm_log demo_manager) = Some LReady" "life_of 1 (pm_log demo_manager) = Some LFresh" by code_simp+
  moreover have "map it_id (pm_items demo_manager) = [2, 1]" by code_simp
  moreover from this have "2 \<in> it_id ` set (pm_items demo_manager)" "1 \<in> it_id ` set (pm_items demo_manager)"
    by (metis list.set_map list.set_intros)+
  moreover have f: "map_option pv_id (fst (find_name (\<lambda>_. []) (qlatin ''a'') demo_manager)) = Some 1" by code_simp
  moreover have "life_of 1 (pm_log (snd (find_name (\<lambda>_. []) (qlatin ''a'') demo_manager))) = Some LReady"
  proof -
    obtain p m' where p: "find_name (\<lambda>_. []) (qlatin ''a'') demo_manager = (Some p, m')" "pv_id p = 1"
      using f by (cases "find_name (\<lambda>_. []) (qlatin ''a'') demo_manager") auto
    then have "life_of (pv_id p) (pm_log m') = Some LReady" using provider_life [OF demo_manager_reach] by blast
    then show ?thesis using p by simp
  qed
  ultimately show ?thesis using provider_life [OF demo_manager_reach] by auto
qed

text \<open>
  C38. A second scan finds nothing new.  With the same static plugins, directories and settings a
  scan leaves the providers and the default provider that an earlier scan left.
\<close>

theorem scan_idempotent:
  "pm_items (scan qv env (scan qv env m)) = pm_items (scan qv env m) \<and> pm_def (scan qv env (scan qv env m)) = pm_def (scan qv env m)"
  using scan_again [of qv env m] by (simp add: same_registry_def)

text \<open>
  C39. Where a changed priority puts a provider.  The other providers stay as they are; with
  a priority that is not negative the provider comes after those with a smaller and before those
  with the same or a greater priority; with a negative one it becomes the last, with the priority of
  the provider that was last of the others.
\<close>

theorem priority_order:
  assumes "pm_reach qv m" and "item_index (named name) (pm_items m) = Some n"
  shows "let others = filter (\<lambda>i. it_name i \<noteq> name) (pm_items m); item = pm_items m ! n in
    pm_items (changePriority name pr m) =
      (if pr < 0 then others @ [item\<lparr> it_priority := (if others = [] then 0 else it_priority (List.last others)) \<rparr>]
       else filter (\<lambda>i. it_priority i < pr) others @ [item\<lparr> it_priority := pr \<rparr>] @ filter (\<lambda>i. pr \<le> it_priority i) others)"
proof -
  have ok: "pm_ok qv m" by (rule ok_reach [OF assms(1)])
  define others where "others = filter (\<lambda>i. it_name i \<noteq> name) (pm_items m)"
  have r: "remove_at n (pm_items m) = others" using remove_filter [OF assms(2)] ok by (simp add: pm_ok_def others_def)
  have "sorted (map it_priority others)" using ok_remove [OF ok, of n] assms(2) r by (simp add: pm_ok_def index_Some)
  from place_filter [OF this, of pr] have "insert_at (place pr others) x others =
      filter (\<lambda>i. it_priority i < pr) others @ [x] @ filter (\<lambda>i. pr \<le> it_priority i) others" for x
    by (simp add: insert_at_def)
  then show ?thesis using assms(2) r unfolding others_def [symmetric] by (simp add: changePriority_def addItem_def Let_def)
qed

theorem priority_order_witness:
  "map it_id (pm_items (changePriority (qlatin ''b'') 5 demo_manager)) = [2, 1] \<and>
   map it_id (pm_items (changePriority (qlatin ''b'') (-1) demo_manager)) = [1, 2] \<and>
   getPriority (qlatin ''b'') (changePriority (qlatin ''b'') (-1) demo_manager) = 5"
proof -
  have i: "item_index (named (qlatin ''b'')) (pm_items demo_manager) = Some 0" by code_simp
  note r = priority_order [OF demo_manager_reach i, unfolded Let_def]
  have "map it_id (pm_items (changePriority (qlatin ''b'') 5 demo_manager)) = [2, 1]" unfolding r by code_simp
  moreover have "map it_id (pm_items (changePriority (qlatin ''b'') (-1) demo_manager)) = [1, 2]" unfolding r by code_simp
  moreover have "getPriority (qlatin ''b'') (changePriority (qlatin ''b'') (-1) demo_manager) = 5" by code_simp
  ultimately show ?thesis by simp
qed

text \<open>
  C40. The diagnostic text.  The text that the manager itself logs always fits below the limit of
  20000 characters.  In general a text below the limit stays, a longer one is cut to at most half of the
  limit, to begin with a line; but when the last half and the character before it hold no
  newline, the cut reads the character behind the end of the text.
\<close>

theorem diagnostic_text:
  assumes "pm_reach qv m" and "2 \<le> sz" and "sz \<le> int (length inp)"
  shows "(\<exists>t. diagnosticText [] (pm_log m) = Some t \<and> length t < 20000) \<and>
    (if 0x0a \<in> set (drop (length inp - nat (sz div 2) - 1) inp)
     then \<exists>pre out. truncate_log inp sz = Some out \<and> inp = pre @ [0x0a] @ out \<and> length out \<le> nat (sz div 2)
     else truncate_log inp sz = None)"
proof -
  let ?at = "length inp - nat (sz div 2)"
  have "Suc (?at - 1) = ?at" "?at - 1 < length inp" using assms(2,3) by auto
  then have "drop (?at - 1) inp = inp ! (?at - 1) # drop ?at inp" by (metis Cons_nth_drop_Suc)
  then have c: "0x0a \<in> set (drop (?at - 1) inp) \<longleftrightarrow> inp ! (?at - 1) = 0x0a \<or> 0x0a \<in> set (drop ?at inp)" by auto
  show ?thesis using diagnostic_lines [of "pm_log m" "[]"] lines_reach [OF assms(1)] truncate_cut [OF assms(2,3)] truncate_none [OF assms(2,3)]
    unfolding c by (auto simp: lines_def)
qed

theorem diagnostic_text_witness:
  "truncate_log [1, 0x0a, 2, 0x0a, 3] 4 = Some [3] \<and> truncate_log [0x0a, 1, 2, 3, 4] 4 = None \<and>
   (\<exists>t. diagnosticText [] (pm_log demo_manager) = Some t \<and> length t < 20000)"
  using diagnostic_text [OF demo_manager_reach, of 4 "[1, 0x0a, 2, 0x0a, 3]"] diagnostic_text [OF demo_manager_reach, of 4 "[0x0a, 1, 2, 3, 4]"]
  by (simp add: truncate_log_def)

end
