(* ===== verification/CoreGlobal.thy ===== *)
theory CoreGlobal
  imports ProviderLife "HOL-Library.AList"
begin

text \<open>
  The global object of the library (\<^verbatim>\<open>Global\<close> of \<^verbatim>\<open>src/src/qca_core.cpp\<close>) and the functions over it:
  initialisation, features, the choice of a provider for an algorithm, provider configuration.

  \<^item> What a call finds in its surroundings is its record \<open>core_env\<close>: the version of the library, the object of the default
    provider, what a scan of plugins finds, and what the settings of the system give back for a stored value.
  \<^item> The persistent settings are a state of their own: per version the names with an entry, and their groups.
  \<^item> The object for random numbers is the number of the provider that made it.
  \<^item> A call without a global object ends at the assertion or returns at once: the state \<open>None\<close>.
\<close>

section \<open>Model\<close>

record settings_file =
  sf_names :: "qstring list"
  sf_group :: "qstring \<Rightarrow> conf"

type_synonym settings = "nat \<Rightarrow> settings_file"

record core_env =
  ce_version :: "32 word"
  ce_major :: nat
  ce_default :: provider
  ce_scan :: scan_env
  ce_stored :: "variant \<Rightarrow> variant"

record global =
  g_refs :: int
  g_secmem :: bool
  g_loaded :: bool
  g_first_scan :: bool
  g_app_name :: qstring
  g_manager :: manager
  g_rng :: "nat option"
  g_properties :: "qstring \<rightharpoonup> variant"
  g_config :: "qstring \<rightharpoonup> conf"

subsection \<open>Configuration\<close>

definition formtype :: qstring where
  "formtype = qlatin ''formtype''"

definition configIsValid :: "conf \<Rightarrow> bool" where
  "configIsValid config \<longleftrightarrow>
     map_of config formtype \<noteq> None \<and> list_all (\<lambda>(k, v). case v of VOther _ \<Rightarrow> False | _ \<Rightarrow> True) config"

definition readConfig_version :: "settings \<Rightarrow> qstring \<Rightarrow> nat \<Rightarrow> conf" where
  "readConfig_version st name majorVersion =
     (if name \<notin> set (sf_names (st majorVersion)) then []
      else let m = sf_group (st majorVersion) name in if \<not> configIsValid m then [] else m)"

definition readConfig :: "core_env \<Rightarrow> settings \<Rightarrow> qstring \<Rightarrow> conf" where
  "readConfig env st name =
     (let config = readConfig_version st name (ce_major env)
      in if config = [] \<and> ce_major env = 3 then readConfig_version st name 2 else config)"

definition writeConfig :: "core_env \<Rightarrow> qstring \<Rightarrow> conf \<Rightarrow> settings \<Rightarrow> settings" where
  "writeConfig env name config st =
     (let f = st (ce_major env);
          f = f\<lparr> sf_names := (if name \<in> set (sf_names f) then sf_names f else sf_names f @ [name]) \<rparr>;
          g = fold (\<lambda>(k, v). AList.update k (ce_stored env v)) config (sf_group f name)
      in st(ce_major env := f\<lparr> sf_group := (sf_group f)(name := g) \<rparr>))"

text \<open>The configuration from the settings or from memory.\<close>

definition loaded_config :: "core_env \<Rightarrow> settings \<Rightarrow> (qstring \<rightharpoonup> conf) \<Rightarrow> qstring \<Rightarrow> conf" where
  "loaded_config env st config name =
     (let c = readConfig env st name in if c = [] then (case config name of None \<Rightarrow> [] | Some c \<Rightarrow> c) else c)"

definition getProviderConfig_internal :: "core_env \<Rightarrow> settings \<Rightarrow> (qstring \<rightharpoonup> conf) \<Rightarrow> provider \<Rightarrow> conf" where
  "getProviderConfig_internal env st config p =
     (let c = loaded_config env st config (pv_name p); pconf = pv_defaultConfig p
      in if \<not> configIsValid pconf then c
         else if c = [] then pconf
         else if map_of pconf formtype \<noteq> map_of c formtype then pconf
         else c)"

subsection \<open>Global\<close>

definition new_global :: global where
  "new_global = \<lparr> g_refs = 0, g_secmem = False, g_loaded = False, g_first_scan = False, g_app_name = [],
     g_manager = new_manager, g_rng = None, g_properties = Map.empty, g_config = Map.empty \<rparr>"

abbreviation conf_of :: "core_env \<Rightarrow> settings \<Rightarrow> global \<Rightarrow> provider \<Rightarrow> conf" where
  "conf_of env st g \<equiv> getProviderConfig_internal env st (g_config g)"

definition ensure_loaded :: "core_env \<Rightarrow> settings \<Rightarrow> global \<Rightarrow> global" where
  "ensure_loaded env st g =
     (if g_loaded g then g
      else g\<lparr> g_loaded := True, g_manager := setDefault (conf_of env st g) (ce_default env) (g_manager g) \<rparr>)"

definition global_scan :: "core_env \<Rightarrow> global \<Rightarrow> global" where
  "global_scan env g = g\<lparr> g_first_scan := True, g_manager := scan (ce_version env) (ce_scan env) (g_manager g) \<rparr>"

definition ensure_first_scan :: "core_env \<Rightarrow> global \<Rightarrow> bool \<times> global" where
  "ensure_first_scan env g = (if g_first_scan g then (False, g) else (True, global_scan env g))"

definition manager_find :: "core_env \<Rightarrow> settings \<Rightarrow> qstring \<Rightarrow> global \<Rightarrow> provider option \<times> global" where
  "manager_find env st name g =
     (case find_name (conf_of env st g) name (g_manager g) of (p, m) \<Rightarrow> (p, g\<lparr> g_manager := m \<rparr>))"

definition manager_findFor :: "core_env \<Rightarrow> settings \<Rightarrow> qstring \<Rightarrow> qstring \<Rightarrow> global \<Rightarrow> provider option \<times> global" where
  "manager_findFor env st name type g =
     (case findFor (conf_of env st g) name type (g_manager g) of (p, m) \<Rightarrow> (p, g\<lparr> g_manager := m \<rparr>))"

subsection \<open>init, deinit\<close>

text \<open>\<open>secmem\<close> is what \<^verbatim>\<open>botan_init\<close> returned.\<close>

definition init :: "bool \<Rightarrow> global option \<Rightarrow> global option" where
  "init secmem st =
     (case st of
        Some g \<Rightarrow> Some (g\<lparr> g_refs := g_refs g + 1 \<rparr>)
      | None \<Rightarrow> Some (new_global\<lparr> g_secmem := secmem, g_refs := 1 \<rparr>))"

definition deinit :: "global option \<Rightarrow> global option \<times> pm_event list" where
  "deinit st =
     (case st of
        None \<Rightarrow> (None, [])
      | Some g \<Rightarrow>
          let g = g\<lparr> g_refs := g_refs g - 1 \<rparr> in
          if g_refs g = 0 then (None, delete_manager (g_manager g)) else (Some g, []))"

subsection \<open>Features and providers\<close>

definition features_have :: "qstring list \<Rightarrow> qstring list \<Rightarrow> bool" where
  "features_have have_list want \<longleftrightarrow> list_all (\<lambda>i. i \<in> set have_list) want"

text \<open>The features of a provider that the manager found, which has been initialised.\<close>

definition isSupported :: "core_env \<Rightarrow> settings \<Rightarrow> qstring list \<Rightarrow> qstring \<Rightarrow> global \<Rightarrow> bool \<times> global" where
  "isSupported env st feats provider g =
     (let g = ensure_loaded env st g in
      if provider \<noteq> [] then
        case manager_find env st provider g of
          (Some p, g) \<Rightarrow> (features_have (pv_features p True) feats, g)
        | (None, g) \<Rightarrow>
            (case manager_find env st provider (global_scan env g) of
               (Some p, g) \<Rightarrow> (features_have (pv_features p True) feats, g)
             | (None, g) \<Rightarrow> (False, g))
      else if features_have (allFeatures (g_manager g)) feats then (True, g)
      else
        let g = g\<lparr> g_manager := events [ESay (qlatin ''Scanning to find features: '' @ qjoin (qlatin '' '') feats @ [0x0a])] (g_manager g) \<rparr>;
            g = global_scan env g
        in (features_have (allFeatures (g_manager g)) feats, g))"

definition supportedFeatures :: "core_env \<Rightarrow> settings \<Rightarrow> global \<Rightarrow> qstring list \<times> global" where
  "supportedFeatures env st g =
     (let g = global_scan env (ensure_loaded env st g) in (allFeatures (g_manager g), g))"

definition providers :: "core_env \<Rightarrow> settings \<Rightarrow> global \<Rightarrow> provider list \<times> global" where
  "providers env st g =
     (let g = snd (ensure_first_scan env (ensure_loaded env st g)) in (pm_list (g_manager g), g))"

definition insertProvider :: "core_env \<Rightarrow> settings \<Rightarrow> provider \<Rightarrow> int \<Rightarrow> global \<Rightarrow> bool \<times> global" where
  "insertProvider env st p priority g =
     (let g = snd (ensure_first_scan env (ensure_loaded env st g)) in
      case add_provider (ce_version env) p priority (g_manager g) of (r, m) \<Rightarrow> (r, g\<lparr> g_manager := m \<rparr>))"

definition unloadProvider :: "core_env \<Rightarrow> settings \<Rightarrow> qstring \<Rightarrow> global \<Rightarrow> bool \<times> global" where
  "unloadProvider env st name g =
     (let g = snd (ensure_first_scan env (ensure_loaded env st g)) in
      case unload name (g_manager g) of (r, m) \<Rightarrow> (r, g\<lparr> g_manager := m \<rparr>))"

definition setProviderPriority :: "core_env \<Rightarrow> settings \<Rightarrow> qstring \<Rightarrow> int \<Rightarrow> global \<Rightarrow> global" where
  "setProviderPriority env st name priority g =
     (let g = snd (ensure_first_scan env (ensure_loaded env st g))
      in g\<lparr> g_manager := changePriority name priority (g_manager g) \<rparr>)"

definition providerPriority :: "core_env \<Rightarrow> settings \<Rightarrow> qstring \<Rightarrow> global \<Rightarrow> int \<times> global" where
  "providerPriority env st name g =
     (let g = snd (ensure_first_scan env (ensure_loaded env st g)) in (getPriority name (g_manager g), g))"

definition findProvider :: "core_env \<Rightarrow> settings \<Rightarrow> qstring \<Rightarrow> global \<Rightarrow> provider option \<times> global" where
  "findProvider env st name g = manager_find env st name (snd (ensure_first_scan env (ensure_loaded env st g)))"

definition defaultProvider :: "core_env \<Rightarrow> settings \<Rightarrow> global \<Rightarrow> provider option \<times> global" where
  "defaultProvider env st g = manager_find env st (qlatin ''default'') (ensure_loaded env st g)"

definition scanForPlugins :: "core_env \<Rightarrow> settings \<Rightarrow> global \<Rightarrow> global" where
  "scanForPlugins env st g = global_scan env (ensure_loaded env st g)"

definition unloadAllPlugins :: "core_env \<Rightarrow> settings \<Rightarrow> global \<Rightarrow> global" where
  "unloadAllPlugins env st g =
     (let g = ensure_loaded env st g;
          g = (case g_rng g of
                 None \<Rightarrow> g
               | Some k \<Rightarrow>
                   (case manager_find env st (qlatin ''default'') g of
                      (Some p, g) \<Rightarrow> if k \<noteq> pv_id p then g\<lparr> g_rng := None \<rparr> else g
                    | (None, g) \<Rightarrow> g\<lparr> g_rng := None \<rparr>))
      in g\<lparr> g_manager := unloadAll (g_manager g) \<rparr>)"

subsection \<open>Choice of a provider\<close>

definition getProviderForType :: "core_env \<Rightarrow> settings \<Rightarrow> qstring \<Rightarrow> qstring \<Rightarrow> global \<Rightarrow> provider option \<times> global" where
  "getProviderForType env st type provider g =
     (let (scanned, g) = ensure_first_scan env g;
          (p, scanned, g) =
            (if provider \<noteq> [] then
               case manager_findFor env st provider type g of
                 (Some p, g) \<Rightarrow> (Some p, scanned, g)
               | (None, g) \<Rightarrow>
                   if scanned then (None, scanned, g)
                   else case manager_findFor env st provider type (global_scan env g) of (p, g) \<Rightarrow> (p, True, g)
             else (None, scanned, g))
      in case p of
           Some p \<Rightarrow> (Some p, g)
         | None \<Rightarrow>
             (case manager_findFor env st [] type g of
                (Some p, g) \<Rightarrow> (Some p, g)
              | (None, g) \<Rightarrow>
                  if scanned then (None, g) else manager_findFor env st [] type (global_scan env g)))"

text \<open>\<^verbatim>\<open>getContext\<close> up to the call of the provider's \<^verbatim>\<open>createContext\<close>.\<close>

definition getContext :: "core_env \<Rightarrow> settings \<Rightarrow> qstring \<Rightarrow> qstring \<Rightarrow> global \<Rightarrow> provider option \<times> global" where
  "getContext env st type provider g = getProviderForType env st type provider (ensure_loaded env st g)"

definition getContext_of :: "core_env \<Rightarrow> settings \<Rightarrow> nat \<Rightarrow> global \<Rightarrow> provider option \<times> global" where
  "getContext_of env st p g =
     (let g = ensure_loaded env st g in
      case find_provider (conf_of env st g) p (g_manager g) of (r, m) \<Rightarrow> (r, g\<lparr> g_manager := m \<rparr>))"

text \<open>The object for random numbers: made on first use, or anew for another provider.\<close>

definition global_random :: "core_env \<Rightarrow> settings \<Rightarrow> global \<Rightarrow> global" where
  "global_random env st g =
     (case g_rng g of
        Some k \<Rightarrow> g
      | None \<Rightarrow> (case getContext env st (qlatin ''random'') [] g of (p, g) \<Rightarrow> g\<lparr> g_rng := map_option pv_id p \<rparr>))"

definition setGlobalRandomProvider :: "core_env \<Rightarrow> settings \<Rightarrow> qstring \<Rightarrow> global \<Rightarrow> global" where
  "setGlobalRandomProvider env st provider g =
     (case getContext env st (qlatin ''random'') provider g of (p, g) \<Rightarrow> g\<lparr> g_rng := map_option pv_id p \<rparr>)"

subsection \<open>Settings and properties\<close>

definition setProviderConfig :: "core_env \<Rightarrow> settings \<Rightarrow> qstring \<Rightarrow> conf \<Rightarrow> global \<Rightarrow> global" where
  "setProviderConfig env st name config g =
     (let g = ensure_loaded env st g in
      if \<not> configIsValid config then g
      else
        let g = g\<lparr> g_config := (g_config g)(name \<mapsto> config) \<rparr> in
        case findProvider env st name g of
          (Some p, g) \<Rightarrow> g\<lparr> g_manager := events [EConfig (pv_id p) config] (g_manager g) \<rparr>
        | (None, g) \<Rightarrow> g)"

definition getProviderConfig :: "core_env \<Rightarrow> settings \<Rightarrow> qstring \<Rightarrow> global \<Rightarrow> conf \<times> global" where
  "getProviderConfig env st name g =
     (let g = ensure_loaded env st g;
          c = loaded_config env st (g_config g) name
      in case findProvider env st name g of
           (None, g) \<Rightarrow> (c, g)
         | (Some p, g) \<Rightarrow>
             let pconf = pv_defaultConfig p in
             (if \<not> configIsValid pconf then c
              else if c = [] then pconf
              else if map_of pconf formtype \<noteq> map_of c formtype then pconf
              else c, g))"

definition saveProviderConfig :: "core_env \<Rightarrow> qstring \<Rightarrow> global \<Rightarrow> settings \<Rightarrow> settings \<times> global" where
  "saveProviderConfig env name g st =
     (let g = ensure_loaded env st g;
          c = (case g_config g name of None \<Rightarrow> [] | Some c \<Rightarrow> c)
      in (if c = [] then st else writeConfig env name c st, g))"

definition setProperty :: "core_env \<Rightarrow> settings \<Rightarrow> qstring \<Rightarrow> variant \<Rightarrow> global \<Rightarrow> global" where
  "setProperty env st name v g =
     (let g = ensure_loaded env st g in g\<lparr> g_properties := (g_properties g)(name \<mapsto> v) \<rparr>)"

definition getProperty :: "core_env \<Rightarrow> settings \<Rightarrow> qstring \<Rightarrow> global \<Rightarrow> variant option \<times> global" where
  "getProperty env st name g = (let g = ensure_loaded env st g in (g_properties g name, g))"

section \<open>Choice of a provider\<close>

text \<open>
  The rule: the nominated provider if it offers the algorithm; otherwise the first that does, in the
  order of priorities; the default provider last.
\<close>

definition def_list :: "manager \<Rightarrow> provider list" where
  "def_list m = (case pm_def m of None \<Rightarrow> [] | Some p \<Rightarrow> [p])"

definition able :: "qstring \<Rightarrow> provider \<Rightarrow> bool" where
  "able type p \<longleftrightarrow> type \<in> set (pv_features p True)"

definition nominated :: "qstring \<Rightarrow> qstring \<Rightarrow> manager \<Rightarrow> provider option" where
  "nominated name type m = List.find (\<lambda>p. pv_name p = name \<and> able type p) (def_list m @ map it_p (pm_items m))"

definition in_order :: "qstring \<Rightarrow> manager \<Rightarrow> provider option" where
  "in_order type m = List.find (able type) (map it_p (pm_items m) @ def_list m)"

definition choice :: "qstring \<Rightarrow> qstring \<Rightarrow> manager \<Rightarrow> provider option" where
  "choice name type m =
     (case (if name = [] then None else nominated name type m) of Some p \<Rightarrow> Some p | None \<Rightarrow> in_order type m)"

definition names_ok :: "manager \<Rightarrow> bool" where
  "names_ok m \<longleftrightarrow> distinct (map pv_name (def_list m @ map it_p (pm_items m)))"

text \<open>Two managers with the same providers in the same order.\<close>

definition same_providers :: "manager \<Rightarrow> manager \<Rightarrow> bool" where
  "same_providers m m' \<longleftrightarrow> map it_p (pm_items m') = map it_p (pm_items m) \<and> pm_def m' = pm_def m"

lemma choice_same:
  assumes "same_providers m m'"
  shows "nominated name type m' = nominated name type m" and "in_order type m' = in_order type m"
    and "choice name type m' = choice name type m" and "names_ok m' = names_ok m"
proof -
  have d: "def_list m' = def_list m" "map it_p (pm_items m') = map it_p (pm_items m)" using assms by (auto simp: same_providers_def def_list_def)
  show 1: "nominated name type m' = nominated name type m" and 2: "in_order type m' = in_order type m" and "names_ok m' = names_ok m"
    unfolding nominated_def in_order_def names_ok_def d by (rule refl)+
  show "choice name type m' = choice name type m" unfolding choice_def 1 2 by (rule refl)
qed

lemma find_append: "List.find P (xs @ ys) = (case List.find P xs of None \<Rightarrow> List.find P ys | Some x \<Rightarrow> Some x)"
  by (induction xs) auto

lemma first_able_find: "first_able c type is = (r, is', es) \<Longrightarrow> r = List.find (able type) (map it_p is)"
proof (induction "is" arbitrary: r is' es)
  case (Cons i "is")
  then show ?case by (auto simp: able_def ensureInit_def split: prod.splits if_splits)
qed simp

lemma find_def_list: "List.find P (def_list m) = (case pm_def m of Some p \<Rightarrow> if P p then Some p else None | None \<Rightarrow> None)"
  by (simp add: def_list_def split: option.splits)

lemma findFor_first: "fst (findFor c [] type m) = in_order type m"
proof -
  obtain r is' es where f: "first_able c type (pm_items m) = (r, is', es)" by (metis prod_cases3)
  show ?thesis using first_able_find [OF f] f
    by (auto simp: findFor_def in_order_def find_append find_def_list able_def Let_def split: option.splits)
qed

lemma index_find: "List.find P (map it_p is) = (case item_index (\<lambda>i. P (it_p i)) is of None \<Rightarrow> None | Some n \<Rightarrow> Some (it_p (is ! n)))"
  by (induction "is") (auto split: option.splits)

lemma find_name_find: "fst (find_name c name m) = List.find (\<lambda>p. pv_name p = name) (def_list m @ map it_p (pm_items m))"
proof -
  have e: "(\<lambda>x. name = pv_name x) = (\<lambda>x. pv_name x = name)" by auto
  show ?thesis unfolding find_name_def e using index_find [of "\<lambda>p. pv_name p = name" "pm_items m"]
    by (auto simp: find_where_def find_append find_def_list split: option.splits)
qed

lemma find_unique:
  "distinct (map pv_name ps) \<Longrightarrow>
   List.find (\<lambda>p. pv_name p = name \<and> P p) ps = (case List.find (\<lambda>p. pv_name p = name) ps of None \<Rightarrow> None | Some p \<Rightarrow> if P p then Some p else None)"
proof (induction ps)
  case (Cons p ps)
  have "List.find (\<lambda>q. pv_name q = name \<and> P q) ps = None" if "pv_name p = name"
  proof -
    have "name \<notin> pv_name ` set ps" using Cons(2) that by simp
    then have "\<forall>q \<in> set ps. pv_name q \<noteq> name" by blast
    then show ?thesis by (auto simp: find_None_iff)
  qed
  then show ?case using Cons by auto
qed simp

lemma findFor_named: "names_ok m \<Longrightarrow> name \<noteq> [] \<Longrightarrow> fst (findFor c name type m) = nominated name type m"
  using find_name_find [of c name m] find_unique [of "def_list m @ map it_p (pm_items m)" name "able type"]
  by (auto simp: findFor_def nominated_def names_ok_def able_def split: option.splits prod.splits)

lemma findFor_same: "same_providers m (snd (findFor c name type m))"
  using same_findFor [of m c name type] same_items_map(1) by (auto simp: same_providers_def)

lemma names_ok_eq: "names_ok m \<longleftrightarrow> distinct (map it_name (pm_items m)) \<and> (\<forall>p. pm_def m = Some p \<longrightarrow> pv_name p \<notin> it_name ` set (pm_items m))"
  by (auto simp: names_ok_def def_list_def o_def image_image split: option.splits)

lemma names_ok_cong: "pm_items m' = pm_items m \<Longrightarrow> pm_def m' = pm_def m \<Longrightarrow> names_ok m' = names_ok m"
  by (simp add: names_ok_eq)

lemma names_ok_events [simp]: "names_ok (events es m) = names_ok m"
  by (rule names_ok_cong) simp_all

lemma names_ok_addItem:
  assumes "names_ok m" and "\<not> haveAlready (it_name i) m"
  shows "names_ok (addItem i pr m)"
proof -
  have n: "it_name i \<notin> it_name ` set (pm_items m)" using have_not [OF assms(2)] by simp
  have d: "pm_def m = Some p \<Longrightarrow> pv_name p \<noteq> it_name i" for p using assms(2) by (auto simp: haveAlready_def)
  have s: "it_name ` set (pm_items (addItem i pr m)) = insert (it_name i) (it_name ` set (pm_items m))"
    by (auto simp: addItem_def Let_def set_insert_at)
  have "distinct (map it_name (pm_items (addItem i pr m)))"
    using assms(1) n by (auto simp: names_ok_eq addItem_def Let_def map_insert_at distinct_insert_at)
  moreover have "pm_def (addItem i pr m) = pm_def m" by (simp add: addItem_def Let_def)
  ultimately show ?thesis using assms(1) d unfolding names_ok_eq s by auto
qed

lemma names_ok_accept: "names_ok m \<Longrightarrow> names_ok (accept_item qv env who ok skipped i m)"
  using names_ok_addItem [of m i] by (auto simp: accept_item_def Let_def)

lemma names_ok_static: "names_ok m \<Longrightarrow> names_ok (scan_static qv env sp m)"
  by (auto simp: scan_static_def intro!: names_ok_accept split: sum.splits prod.splits)

lemma names_ok_file: "names_ok m \<Longrightarrow> names_ok (scan_file qv env f m)"
  by (auto simp: scan_file_def Let_def intro!: names_ok_accept split: sum.splits prod.splits)

lemma names_ok_scan:
  assumes "names_ok m"
  shows "names_ok (scan qv env m)"
proof -
  have st: "names_ok m \<Longrightarrow> names_ok (fold (scan_static qv env) l m)" for l m by (rule fold_keeps) (auto intro: names_ok_static)
  have fl: "names_ok m \<Longrightarrow> names_ok (fold (scan_file qv env) l m)" for l m by (rule fold_keeps) (auto intro: names_ok_file)
  have dr: "names_ok m \<Longrightarrow> names_ok (scan_dir qv env x m)" for x m by (auto simp: scan_dir_def Let_def intro!: fl)
  have ds: "names_ok m \<Longrightarrow> names_ok (fold (scan_dir qv env) l m)" for l m by (rule fold_keeps) (auto intro: dr)
  have sc: "names_ok (m\<lparr> pm_scanned := b \<rparr>) = names_ok m" for b m by (rule names_ok_cong) simp_all
  show ?thesis using assms by (simp add: scan_def Let_def st ds sc)
qed

lemma manager_findFor_props:
  assumes "manager_findFor env st name type g = (r, g')"
  shows "same_providers (g_manager g) (g_manager g')" and "r = fst (findFor (conf_of env st g) name type (g_manager g))"
    and "g_config g' = g_config g"
  using assms findFor_same [of "g_manager g" "conf_of env st g" name type] by (auto simp: manager_findFor_def split: prod.splits)

lemma findFor_first_step:
  assumes "manager_findFor env st [] type g = (r, g')"
  shows "r = in_order type (g_manager g')"
  using manager_findFor_props [OF assms] findFor_first choice_same(2) by metis

lemma findFor_named_step:
  assumes "manager_findFor env st name type g = (r, g')" and "names_ok (g_manager g)" and "name \<noteq> []"
  shows "r = nominated name type (g_manager g')" and "names_ok (g_manager g')"
  using manager_findFor_props [OF assms(1)] findFor_named [OF assms(2,3)] choice_same(1,4) assms(2) by metis+

lemma choice_cases: "choice name type m = (if name = [] \<or> nominated name type m = None then in_order type m else nominated name type m)"
  by (auto simp: choice_def split: option.splits)

text \<open>The last part of the choice, once there is no nominated provider.\<close>

lemma choice_first:
  assumes "manager_findFor env st [] type g = (r, g')" and "name = [] \<or> nominated name type (g_manager g) = None"
  shows "r = choice name type (g_manager g')"
  using findFor_first_step [OF assms(1)] choice_same(1) [OF manager_findFor_props(1) [OF assms(1)]] assms(2) by (simp add: choice_cases)

lemma choice_correct:
  assumes "names_ok (g_manager g)" and "getProviderForType env st type name g = (r, g')"
  shows "r = choice name type (g_manager g')"
proof -
  obtain scanned g1 where e: "ensure_first_scan env g = (scanned, g1)" by fastforce
  have n1: "names_ok (g_manager g1)" using assms(1) e by (auto simp: ensure_first_scan_def global_scan_def names_ok_scan split: if_splits)
  have n2: "names_ok (g_manager (global_scan env g1))" if "names_ok (g_manager g1)" for g1 using that by (simp add: global_scan_def names_ok_scan)
  show ?thesis
  proof (cases "name = []")
    case True
    obtain r1 g2 where f1: "manager_findFor env st [] type g1 = (r1, g2)" by fastforce
    obtain r2 g3 where f2: "manager_findFor env st [] type (global_scan env g2) = (r2, g3)" by fastforce
    have "(r, g') = (r1, g2) \<or> (r, g') = (r2, g3)"
      using assms(2) True e f1 f2 by (auto simp: getProviderForType_def split: option.splits if_splits)
    then show ?thesis using choice_first [OF f1] choice_first [OF f2] True by auto
  next
    case False
    obtain r1 g2 where f1: "manager_findFor env st name type g1 = (r1, g2)" by fastforce
    note f1' = findFor_named_step [OF f1 n1 False]
    show ?thesis
    proof (cases r1)
      case (Some p)
      then have "(r, g') = (Some p, g2)" using assms(2) e f1 False by (simp add: getProviderForType_def)
      then show ?thesis using f1' Some False by (auto simp: choice_cases)
    next
      case None
      obtain r2 g3 where f2: "manager_findFor env st name type (global_scan env g2) = (r2, g3)" by fastforce
      note f2' = findFor_named_step [OF f2 n2 [OF f1'(2)] False]
      obtain r3 g4 where f3: "manager_findFor env st [] type g2 = (r3, g4)" by fastforce
      obtain r5 g5 where f5: "manager_findFor env st [] type g3 = (r5, g5)" by fastforce
      have "scanned \<and> (r, g') = (r3, g4) \<or> r2 \<noteq> None \<and> (r, g') = (r2, g3) \<or> r2 = None \<and> (r, g') = (r5, g5)"
        using assms(2) e f1 f2 f3 f5 False None by (auto simp: getProviderForType_def split: option.splits if_splits)
      moreover have "r3 = choice name type (g_manager g4)" using choice_first [OF f3, of name] f1'(1) None by simp
      moreover have "r5 = choice name type (g_manager g5)" if "r2 = None" using choice_first [OF f5, of name] f2'(1) that by simp
      moreover have "r2 = choice name type (g_manager g3)" if "r2 \<noteq> None" using f2'(1) that False by (auto simp: choice_cases)
      ultimately show ?thesis by auto
    qed
  qed
qed

section \<open>Scans and initialisation\<close>

text \<open>Which providers a scan finds does not depend on which have been initialised.\<close>

definition sim :: "manager \<Rightarrow> manager \<Rightarrow> bool" where
  "sim m m' \<longleftrightarrow> same_items (pm_items m) (pm_items m') \<and> pm_def m' = pm_def m \<and> pm_scanned m' = pm_scanned m"

lemma same_items_sym: "same_items is is' \<Longrightarrow> same_items is' is"
  by (simp add: same_items_def)

lemma place_same: "same_items is is' \<Longrightarrow> place pr is' = place pr is"
proof (induction "is" arbitrary: is')
  case (Cons i "is")
  then obtain j js where j: "is' = j # js" "same_items is js" "it_priority j = it_priority i"
    by (auto simp: same_items_def Cons_eq_map_conv) (metis provider_item.select_convs(3) provider_item.surjective provider_item.update_convs(5))
  then show ?case using Cons(1) by simp
qed (simp add: same_items_def)

lemma have_iff: "haveAlready name m \<longleftrightarrow> (case pm_def m of Some p \<Rightarrow> name = pv_name p | None \<Rightarrow> False) \<or> name \<in> it_name ` set (pm_items m)"
  unfolding haveAlready_def index_None by (metis image_iff)

lemma have_same: "sim m m' \<Longrightarrow> haveAlready name m' = haveAlready name m"
proof -
  assume s: "sim m m'"
  have "it_name ` set (pm_items m') = it_name ` set (pm_items m)"
    using arg_cong [OF same_items_map(4), of "pm_items m" "pm_items m'" set] s by (simp add: sim_def)
  then show ?thesis using s by (simp add: have_iff sim_def)
qed

lemma fname_same: "sim m m' \<Longrightarrow> (item_index (\<lambda>pi. it_fname pi \<noteq> [] \<and> it_fname pi = x) (pm_items m') = None) = (item_index (\<lambda>pi. it_fname pi \<noteq> [] \<and> it_fname pi = x) (pm_items m) = None)"
proof -
  assume "sim m m'"
  then have "it_fname ` set (pm_items m') = it_fname ` set (pm_items m)" using same_items_map(3) unfolding sim_def by (metis list.set_map)
  then show ?thesis unfolding index_None by (metis (no_types, lifting) image_iff)
qed

lemma sim_events: "sim m m' \<Longrightarrow> sim (events es m) (events es' m')"
  by (simp add: sim_def)

lemma sim_addItem:
  assumes "sim m m'"
  shows "sim (addItem i pr m) (addItem i pr m')"
proof -
  have s: "same_items (pm_items m) (pm_items m')" using assms by (simp add: sim_def)
  have p: "map it_priority (pm_items m') = map it_priority (pm_items m)" by (rule same_items_map(2) [OF s])
  have e: "pm_items m' = [] \<longleftrightarrow> pm_items m = []" using s by (auto simp: same_items_def)
  have l: "it_priority (List.last (pm_items m')) = it_priority (List.last (pm_items m))" if "pm_items m \<noteq> []"
    using arg_cong [OF p, of List.last] that e by (simp add: last_map)
  have "same_items (insert_at n x (pm_items m)) (insert_at n x (pm_items m'))" for n x
    using s unfolding same_items_def by (simp add: map_insert_at)
  then show ?thesis using assms e l place_same [OF s] by (auto simp: addItem_def sim_def Let_def same_items_def)
qed

lemma sim_accept: "sim m m' \<Longrightarrow> sim (accept_item qv env who ok skipped i m) (accept_item qv env who ok skipped i m')"
  by (auto simp: accept_item_def Let_def have_same intro!: sim_events sim_addItem)

lemma sim_static: "sim m m' \<Longrightarrow> sim (scan_static qv env sp m) (scan_static qv env sp m')"
  by (auto simp: scan_static_def intro!: sim_accept sim_events split: sum.splits prod.splits)

lemma sim_file: "sim m m' \<Longrightarrow> sim (scan_file qv env f m) (scan_file qv env f m')"
  using fname_same [of m m' "pf_path f"] by (auto simp: scan_file_def Let_def intro!: sim_accept sim_events split: sum.splits prod.splits)

lemma fold_sim: "(\<And>x m m'. sim m m' \<Longrightarrow> sim (f x m) (f x m')) \<Longrightarrow> sim m m' \<Longrightarrow> sim (fold f xs m) (fold f xs m')"
  by (induction xs arbitrary: m m') auto

lemma sim_scan:
  assumes "sim m m'"
  shows "sim (scan qv env m) (scan qv env m')"
proof -
  have st: "sim m m' \<Longrightarrow> sim (fold (scan_static qv env) l m) (fold (scan_static qv env) l m')" for l m m' by (rule fold_sim) (auto intro: sim_static)
  have fl: "sim m m' \<Longrightarrow> sim (fold (scan_file qv env) l m) (fold (scan_file qv env) l m')" for l m m' by (rule fold_sim) (auto intro: sim_file)
  have dr: "sim m m' \<Longrightarrow> sim (scan_dir qv env x m) (scan_dir qv env x m')" for x m m' by (auto simp: scan_dir_def Let_def intro!: fl sim_events)
  have ds: "sim m m' \<Longrightarrow> sim (fold (scan_dir qv env) l m) (fold (scan_dir qv env) l m')" for l m m' by (rule fold_sim) (auto intro: dr)
  have sc: "sim m m' \<Longrightarrow> sim (m\<lparr> pm_scanned := b \<rparr>) (m'\<lparr> pm_scanned := b \<rparr>)" for b m m' by (simp add: sim_def)
  have p: "pm_scanned m' = pm_scanned m" using assms by (simp add: sim_def)
  show ?thesis using assms unfolding scan_def Let_def p by (auto intro!: st ds sc sim_events)
qed

section \<open>Runs of the library\<close>

datatype core_input =
    CContext qstring qstring
  | CContextOf nat
  | CSupported "qstring list" qstring
  | CFeatures
  | CProviders
  | CInsert provider int
  | CUnload qstring
  | CPriority qstring int
  | CFind qstring
  | CScan
  | CUnloadAll
  | CRandom
  | CSetRandom qstring
  | CSetConfig qstring conf
  | CGetConfig qstring
  | CSetProperty qstring variant

fun core_step :: "core_env \<Rightarrow> settings \<Rightarrow> core_input \<Rightarrow> global \<Rightarrow> global" where
  "core_step env st (CContext type name) g = snd (getContext env st type name g)"
| "core_step env st (CContextOf p) g = snd (getContext_of env st p g)"
| "core_step env st (CSupported fs name) g = snd (isSupported env st fs name g)"
| "core_step env st CFeatures g = snd (supportedFeatures env st g)"
| "core_step env st CProviders g = snd (providers env st g)"
| "core_step env st (CInsert p pr) g = snd (insertProvider env st p pr g)"
| "core_step env st (CUnload name) g = snd (unloadProvider env st name g)"
| "core_step env st (CPriority name pr) g = setProviderPriority env st name pr g"
| "core_step env st (CFind name) g = snd (findProvider env st name g)"
| "core_step env st CScan g = scanForPlugins env st g"
| "core_step env st CUnloadAll g = unloadAllPlugins env st g"
| "core_step env st CRandom g = global_random env st g"
| "core_step env st (CSetRandom name) g = setGlobalRandomProvider env st name g"
| "core_step env st (CSetConfig name c) g = setProviderConfig env st name c g"
| "core_step env st (CGetConfig name) g = snd (getProviderConfig env st name g)"
| "core_step env st (CSetProperty name v) g = setProperty env st name v g"

inductive core_reach :: "global \<Rightarrow> bool" where
  created: "init secmem None = Some g \<Longrightarrow> core_reach g"
| call: "core_reach g \<Longrightarrow> core_reach (core_step env st i g)"

definition core_ok :: "global \<Rightarrow> bool" where
  "core_ok g \<longleftrightarrow> names_ok (g_manager g) \<and> (g_loaded g \<or> pm_items (g_manager g) = [] \<and> pm_def (g_manager g) = None)"

definition ready :: "global \<Rightarrow> bool" where
  "ready g \<longleftrightarrow> names_ok (g_manager g) \<and> g_loaded g"

lemma ready_loaded: "core_ok g \<Longrightarrow> ready (ensure_loaded env st g)"
  by (auto simp: core_ok_def ready_def ensure_loaded_def setDefault_def names_ok_eq Let_def)

lemma ready_ok: "ready g \<Longrightarrow> core_ok g"
  by (simp add: ready_def core_ok_def)

lemma ready_scan: "ready g \<Longrightarrow> ready (global_scan env g)"
  by (simp add: ready_def global_scan_def names_ok_scan)

lemma ready_first_scan: "ready g \<Longrightarrow> ready (snd (ensure_first_scan env g))"
  by (simp add: ensure_first_scan_def ready_scan)

lemma names_ok_same: "names_ok m \<Longrightarrow> same_items (pm_items m) (pm_items m') \<Longrightarrow> pm_def m' = pm_def m \<Longrightarrow> names_ok m'"
  using choice_same(4) [of m m'] same_items_map(1) by (simp add: same_providers_def)

lemma ready_find: "ready g \<Longrightarrow> manager_find env st name g = (p, g') \<Longrightarrow> ready g'"
  using names_ok_same [of "g_manager g"] same_find [of "g_manager g" "conf_of env st g" "\<lambda>x. name = pv_name x"]
  by (auto simp: manager_find_def find_name_def ready_def split: prod.splits)

lemma ready_findFor: "ready g \<Longrightarrow> manager_findFor env st name type g = (p, g') \<Longrightarrow> ready g'"
  using findFor_same [of "g_manager g" "conf_of env st g" name type] choice_same(4)
  by (auto simp: manager_findFor_def ready_def split: prod.splits)

lemma ready_context: "ready g \<Longrightarrow> getProviderForType env st type name g = (p, g') \<Longrightarrow> ready g'"
proof -
  assume r: "ready g" and e: "getProviderForType env st type name g = (p, g')"
  obtain scanned g1 where s: "ensure_first_scan env g = (scanned, g1)" by fastforce
  then have "ready g1" using ready_first_scan [OF r, of env] by simp
  then show ?thesis using e s
    by (auto simp: getProviderForType_def split: option.splits prod.splits if_splits) (meson ready_findFor ready_scan)+
qed

lemma names_ok_add: "names_ok m \<Longrightarrow> names_ok (snd (add_provider qv p pr m))"
  using names_ok_addItem [of m "new_item None p" pr] by (auto simp: add_provider_def Let_def new_item_def)

lemma names_ok_remove:
  assumes "names_ok m" and "n < length (pm_items m)"
  shows "names_ok (m\<lparr> pm_items := remove_at n (pm_items m), pm_list := l \<rparr>)"
  using assms remove_at_set [OF assms(2)] remove_at_distinct [of n "map it_name (pm_items m)"]
  by (auto simp: names_ok_eq map_remove_at)

lemma names_ok_unload: "names_ok m \<Longrightarrow> names_ok (snd (unload name m))"
  using names_ok_remove by (auto simp: unload_def Let_def index_Some split: option.splits)

lemma names_ok_unloadAll: "names_ok (unloadAll m)"
  by (simp add: unloadAll_def) (simp add: names_ok_eq)

lemma names_ok_change:
  assumes ok: "names_ok m"
  shows "names_ok (changePriority name pr m)"
proof (cases "item_index (named name) (pm_items m)")
  case None
  then show ?thesis using ok by (simp add: changePriority_def)
next
  case (Some n)
  then have n: "n < length (pm_items m)" by (simp add: index_Some)
  let ?m = "m\<lparr> pm_items := remove_at n (pm_items m), pm_list := remove_at n (pm_list m) \<rparr>"
  have a: "it_name (pm_items m ! n) \<notin> it_name ` set (remove_at n (pm_items m))"
    using remove_at_distinct [of n "map it_name (pm_items m)"] ok n by (simp add: map_remove_at [symmetric] names_ok_eq)
  have "it_name (pm_items m ! n) \<in> it_name ` set (pm_items m)" using n by simp
  then have b: "it_name (pm_items m ! n) \<noteq> pv_name p" if "pm_def m = Some p" for p
    using ok that unfolding names_ok_eq by metis
  have "\<not> haveAlready (it_name (pm_items m ! n)) ?m" using a b by (auto simp: have_iff split: option.splits)
  then show ?thesis using Some names_ok_addItem [OF names_ok_remove [OF ok n]] by (simp add: changePriority_def)
qed

lemma ready_manager: "ready g \<Longrightarrow> names_ok m \<Longrightarrow> ready (g\<lparr> g_manager := m \<rparr>)"
  by (simp add: ready_def)

lemma ready_same: "g_manager g' = g_manager g \<Longrightarrow> g_loaded g' = g_loaded g \<Longrightarrow> ready g' = ready g"
  by (simp add: ready_def)

lemma ready_rng [simp]: "ready (g\<lparr> g_rng := r \<rparr>) = ready g" "ready (g\<lparr> g_config := c \<rparr>) = ready g" "ready (g\<lparr> g_properties := ps \<rparr>) = ready g"
  by (simp_all add: ready_def)

lemma ready_getContext: "core_ok g \<Longrightarrow> getContext env st type name g = (p, g') \<Longrightarrow> ready g'"
  unfolding getContext_def by (rule ready_context [OF ready_loaded])

lemma ready_findProvider: "core_ok g \<Longrightarrow> findProvider env st name g = (p, g') \<Longrightarrow> ready g'"
  unfolding findProvider_def by (rule ready_find [OF ready_first_scan [OF ready_loaded]])

lemma ready_names: "ready g \<Longrightarrow> names_ok (g_manager g)"
  by (simp add: ready_def)

lemma core_ok_step:
  assumes "core_ok g"
  shows "core_ok (core_step env st i g)"
proof -
  note l = ready_loaded [OF assms, of env st]
  note f = ready_first_scan [OF l, of env]
  show ?thesis
  proof (cases i)
    case (CSupported fs name)
    show ?thesis unfolding CSupported core_step.simps isSupported_def Let_def
      by (rule ready_ok) (use l in \<open>auto intro!: ready_scan ready_manager ready_names dest: ready_find split: option.splits prod.splits\<close>,
        (meson l ready_find ready_scan)+)
  next
    case (CContextOf p)
    obtain r m where r: "find_provider (conf_of env st (ensure_loaded env st g)) p (g_manager (ensure_loaded env st g)) = (r, m)" by fastforce
    have "names_ok m" using names_ok_same [OF ready_names [OF l], of m] same_find [of "g_manager (ensure_loaded env st g)"] r by (metis find_provider_def snd_conv)
    then show ?thesis using CContextOf r by (simp add: getContext_of_def ready_ok ready_manager [OF l])
  next
    case CUnloadAll
    have "ready (case g_rng g of None \<Rightarrow> g | Some k \<Rightarrow> (case manager_find env st (qlatin ''default'') g of
        (Some p, g) \<Rightarrow> if k \<noteq> pv_id p then g\<lparr> g_rng := None \<rparr> else g | (None, g) \<Rightarrow> g\<lparr> g_rng := None \<rparr>))" if "ready g" for g
      using that by (auto dest: ready_find split: option.splits prod.splits)
    then show ?thesis using CUnloadAll l names_ok_unloadAll by (simp add: unloadAllPlugins_def Let_def ready_ok ready_manager)
  next
    case CRandom
    then show ?thesis using assms ready_getContext [OF assms] by (auto simp: global_random_def ready_ok split: option.splits prod.splits)
  next
    case (CSetRandom name)
    then show ?thesis using ready_getContext [OF assms] by (auto simp: setGlobalRandomProvider_def ready_ok split: prod.splits)
  next
    case (CSetConfig name c)
    let ?g = "(ensure_loaded env st g)\<lparr> g_config := (g_config (ensure_loaded env st g))(name \<mapsto> c) \<rparr>"
    obtain p g2 where e: "findProvider env st name ?g = (p, g2)" by fastforce
    have "ready ?g" using l by simp
    then have r: "ready g2" by (rule ready_findProvider [OF ready_ok e])
    have "ready (g2\<lparr> g_manager := events es (g_manager g2) \<rparr>)" for es using ready_manager [OF r] ready_names [OF r] by simp
    then show ?thesis using CSetConfig e r l by (cases p) (simp_all add: setProviderConfig_def Let_def ready_ok)
  next
    case (CGetConfig name)
    then show ?thesis using ready_findProvider [OF ready_ok [OF l]] by (auto simp: getProviderConfig_def Let_def ready_ok split: prod.splits option.splits)
  next
    case (CContext type name)
    then show ?thesis using ready_getContext [OF assms prod.collapse [symmetric]] by (simp add: ready_ok)
  next
    case (CFind name)
    then show ?thesis using ready_findProvider [OF assms prod.collapse [symmetric]] by (simp add: ready_ok)
  next
    case (CInsert p pr)
    then show ?thesis using ready_manager [OF f names_ok_add [OF ready_names [OF f]]]
      by (simp add: insertProvider_def Let_def ready_ok case_prod_beta)
  next
    case (CUnload name)
    then show ?thesis using ready_manager [OF f names_ok_unload [OF ready_names [OF f]]]
      by (simp add: unloadProvider_def Let_def ready_ok case_prod_beta)
  qed (use f l in \<open>auto simp: supportedFeatures_def providers_def setProviderPriority_def scanForPlugins_def setProperty_def Let_def ready_ok ready_scan ready_manager
        names_ok_change ready_names\<close>)
qed

lemma core_reach_ok: "core_reach g \<Longrightarrow> core_ok g"
proof (induction rule: core_reach.induct)
  case (created secmem g)
  then show ?case by (auto simp: init_def core_ok_def new_global_def new_manager_def names_ok_eq)
next
  case (call g env st i)
  then show ?case by (simp add: core_ok_step)
qed

section \<open>Features\<close>

definition anyone :: "qstring \<Rightarrow> manager \<Rightarrow> bool" where
  "anyone type m \<longleftrightarrow> (\<exists>p \<in> set (map it_p (pm_items m) @ def_list m). able type p)"

lemma in_order_None: "in_order type m = None \<longleftrightarrow> \<not> anyone type m"
  by (auto simp: in_order_def find_None_iff anyone_def)

lemma merge_set: "set (mergeFeatures a b) = set a \<union> set b"
  by (induction a b rule: mergeFeatures.induct) auto

text \<open>Providers whose features do not depend on their initialisation.\<close>

definition stable :: "manager \<Rightarrow> bool" where
  "stable m \<longleftrightarrow> (\<forall>p \<in> set (map it_p (pm_items m) @ def_list m). pv_features p False = pv_features p True)"

lemma allFeatures_set:
  assumes "stable m"
  shows "type \<in> set (allFeatures m) \<longleftrightarrow> anyone type m"
proof -
  have f: "pv_features (it_p i) (it_init i) = pv_features (it_p i) True" if "i \<in> set (pm_items m)" for i
    using assms that by (cases "it_init i") (auto simp: stable_def)
  have "set (fold (\<lambda>i a. mergeFeatures a (pv_features (it_p i) (it_init i))) is a) = set a \<union> (\<Union>i \<in> set is. set (pv_features (it_p i) True))"
    if "set is \<subseteq> set (pm_items m)" for "is" a
    using that by (induction "is" arbitrary: a) (auto simp: merge_set f)
  then show ?thesis by (auto simp: allFeatures_def anyone_def able_def def_list_def split: option.splits)
qed

definition more_providers :: "manager \<Rightarrow> manager \<Rightarrow> bool" where
  "more_providers m m' \<longleftrightarrow> pm_def m' = pm_def m \<and> it_p ` set (pm_items m) \<subseteq> it_p ` set (pm_items m')"

lemma mp_refl: "more_providers m (events es m)" "more_providers m m" "more_providers m (m\<lparr> pm_scanned := b \<rparr>)"
  by (simp_all add: more_providers_def)

lemma mp_trans: "more_providers a b \<Longrightarrow> more_providers b c \<Longrightarrow> more_providers a c"
  by (auto simp: more_providers_def)

lemma mp_addItem: "more_providers m (addItem i pr m)"
  by (auto simp: more_providers_def addItem_def Let_def set_insert_at)

lemma mp_accept: "more_providers m (accept_item qv env who ok skipped i m)"
  using mp_trans [OF mp_addItem [of m i] mp_refl(1)] by (auto simp: accept_item_def Let_def mp_refl)

lemma mp_static: "more_providers m (scan_static qv env sp m)"
  using mp_trans [OF mp_refl(1) mp_accept] by (auto simp: scan_static_def mp_refl split: sum.splits prod.splits)

lemma mp_file: "more_providers m (scan_file qv env f m)"
  using mp_trans [OF mp_refl(1) mp_accept] by (auto simp: scan_file_def Let_def mp_refl split: sum.splits prod.splits)

lemma mp_fold: "(\<And>x m. more_providers m (f x m)) \<Longrightarrow> more_providers m (fold f xs m)"
  by (induction xs arbitrary: m) (auto simp: mp_refl intro: mp_trans)

lemma mp_scan: "more_providers m (scan qv env m)"
proof -
  have fl: "more_providers m (fold (scan_file qv env) l m)" for l m by (rule mp_fold) (rule mp_file)
  have dr: "more_providers m (scan_dir qv env x m)" for x m
    using mp_trans [OF mp_refl(1) fl] mp_trans [OF mp_refl(1) mp_refl(1)] by (auto simp: scan_dir_def Let_def)
  have ds: "more_providers m (fold (scan_dir qv env) l m)" for l m by (rule mp_fold) (rule dr)
  have st: "more_providers m (fold (scan_static qv env) l m)" for l m by (rule mp_fold) (rule mp_static)
  have s: "more_providers m ((fold (scan_static qv env) l (events es m))\<lparr> pm_scanned := True \<rparr>)" for l es m
    by (rule mp_trans [OF mp_refl(1) mp_trans [OF st mp_refl(3)]])
  have d: "more_providers m (fold (scan_dir qv env) l (if b then events es m else m))" for l es m b
    using ds [of m] mp_trans [OF mp_refl(1) ds] by auto
  show ?thesis unfolding scan_def Let_def using mp_trans [OF s d] d s by (auto simp: mp_refl split: if_splits)
qed

lemma more_set: "more_providers m m' \<Longrightarrow> set (map it_p (pm_items m) @ def_list m) \<subseteq> set (map it_p (pm_items m') @ def_list m')"
  by (auto simp: more_providers_def def_list_def)

lemma anyone_more: "more_providers m m' \<Longrightarrow> anyone type m \<Longrightarrow> anyone type m'"
  using more_set unfolding anyone_def by blast

lemma stable_more: "more_providers m m' \<Longrightarrow> stable m' \<Longrightarrow> stable m"
  using more_set unfolding stable_def by blast

lemma stable_sim: "sim m m' \<Longrightarrow> stable m' = stable m"
  using same_items_map(1) [of "pm_items m" "pm_items m'"] unfolding stable_def sim_def def_list_def by auto

lemma anyone_same: "map it_p (pm_items m') = map it_p (pm_items m) \<Longrightarrow> pm_def m' = pm_def m \<Longrightarrow> anyone type m' = anyone type m"
  unfolding anyone_def def_list_def by simp

lemma anyone_sim: "sim m m' \<Longrightarrow> anyone type m' = anyone type m"
  using same_items_map(1) by (auto simp: sim_def intro!: anyone_same)

lemma findFor_scanned: "pm_scanned (snd (findFor c name type m)) = pm_scanned m"
proof (cases "name = []")
  case True
  obtain r is' es where "first_able c type (pm_items m) = (r, is', es)" by (metis prod_cases3)
  then show ?thesis using True by (auto simp: findFor_def Let_def split: option.splits)
next
  case False
  then show ?thesis
    by (auto simp: findFor_def find_name_def find_where_def init_item_def split: option.splits prod.splits)
qed

text \<open>What the two functions answer about one algorithm, with the default provider loaded.\<close>

lemma supported_any:
  assumes "stable (scan (ce_version env) (ce_scan env) (g_manager (ensure_loaded env st g)))"
  shows "fst (isSupported env st [type] [] g) \<longleftrightarrow> anyone type (scan (ce_version env) (ce_scan env) (g_manager (ensure_loaded env st g)))"
proof -
  let ?m = "g_manager (ensure_loaded env st g)" and ?scan = "scan (ce_version env) (ce_scan env)"
  have s: "sim (?scan ?m) (?scan (events es ?m))" for es
    by (rule sim_scan) (simp add: sim_def same_items_def)
  have "type \<in> set (allFeatures (?scan (events es ?m))) \<longleftrightarrow> anyone type (?scan ?m)" for es
    using anyone_sim [OF s] allFeatures_set stable_sim [OF s] assms by blast
  moreover have "type \<in> set (allFeatures ?m) \<Longrightarrow> anyone type (?scan ?m)"
    using anyone_more [OF mp_scan] allFeatures_set [OF stable_more [OF mp_scan assms]] by blast
  ultimately show ?thesis by (auto simp: isSupported_def features_have_def global_scan_def Let_def)
qed

lemma context_any:
  "fst (getContext env st type [] g) \<noteq> None \<longleftrightarrow> anyone type (scan (ce_version env) (ce_scan env) (g_manager (ensure_loaded env st g)))"
proof -
  let ?g = "ensure_loaded env st g" and ?scan = "scan (ce_version env) (ce_scan env)"
  obtain r g2 where f: "manager_findFor env st [] type ?g = (r, g2)" by fastforce
  have r: "r = None \<longleftrightarrow> \<not> anyone type (g_manager ?g)"
    using manager_findFor_props(2) [OF f] findFor_first in_order_None by metis
  have "g_manager g2 = snd (findFor (conf_of env st ?g) [] type (g_manager ?g))" using f by (auto simp: manager_findFor_def split: prod.splits)
  then have "sim (g_manager ?g) (g_manager g2)"
    using same_findFor [of "g_manager ?g" "conf_of env st ?g" "[]" type] findFor_scanned [of "conf_of env st ?g" "[]" type "g_manager ?g"] by (simp add: sim_def)
  then have s: "anyone type (?scan (g_manager g2)) \<longleftrightarrow> anyone type (?scan (g_manager ?g))" by (rule anyone_sim [OF sim_scan])
  have first: "fst (manager_findFor env st [] type g) = None \<longleftrightarrow> \<not> anyone type (g_manager g)" for g
    using findFor_first in_order_None by (simp add: manager_findFor_def case_prod_beta)
  show ?thesis
  proof (cases "g_first_scan ?g")
    case True
    then show ?thesis using f r s first [of "global_scan env g2"] anyone_more [OF mp_scan, of type "g_manager ?g"]
      by (auto simp: getContext_def getProviderForType_def ensure_first_scan_def global_scan_def split: option.splits)
  next
    case False
    then show ?thesis using first [of "global_scan env ?g"]
      by (auto simp: getContext_def getProviderForType_def ensure_first_scan_def global_scan_def split: option.splits prod.splits)
  qed
qed

section \<open>Stored configuration\<close>

definition plain_value :: "variant \<Rightarrow> bool" where
  "plain_value v = (case v of VOther _ \<Rightarrow> False | _ \<Rightarrow> True)"

definition written :: "(variant \<Rightarrow> variant) \<Rightarrow> conf \<Rightarrow> conf \<Rightarrow> conf" where
  "written f config g = fold (\<lambda>(k, v). AList.update k (f v)) config g"

lemma written_map:
  "distinct (map fst config) \<Longrightarrow>
   map_of (written f config g) k = (case map_of config k of Some v \<Rightarrow> Some (f v) | None \<Rightarrow> map_of g k)"
  unfolding written_def
proof (induction config arbitrary: g)
  case (Cons kv config)
  obtain j v where kv: "kv = (j, v)" by fastforce
  have "map_of config j = None" using Cons(2) kv by (simp add: map_of_eq_None_iff)
  then show ?case using Cons kv by (auto simp: update_conv' split: option.splits)
qed simp

lemma update_values: "(k, v) \<in> set (AList.update j w al) \<Longrightarrow> v = w \<or> (k, v) \<in> set al"
  by (induction al) (auto split: if_splits)

lemma written_plain:
  "\<forall>(k, v) \<in> set config. plain_value (f v) \<Longrightarrow> \<forall>(k, v) \<in> set g. plain_value v \<Longrightarrow> \<forall>(k, v) \<in> set (written f config g). plain_value v"
  unfolding written_def
proof (induction config arbitrary: g)
  case (Cons kv config)
  obtain j w where kv: "kv = (j, w)" by fastforce
  have "\<forall>(k, v) \<in> set (AList.update j (f w) g). plain_value v" using Cons(2,3) kv by (auto dest!: update_values)
  then show ?case using Cons(1,2) kv by simp
qed simp

lemma valid_iff: "configIsValid c \<longleftrightarrow> map_of c formtype \<noteq> None \<and> (\<forall>(k, v) \<in> set c. plain_value v)"
  by (auto simp: configIsValid_def list_all_iff plain_value_def)

lemma config_loaded [simp]: "g_config (ensure_loaded env st g) = g_config g"
  by (simp add: ensure_loaded_def)

lemma saved_config:
  assumes valid: "configIsValid config" and dist: "distinct (map fst config)"
    and stored: "\<forall>v. plain_value v \<longrightarrow> plain_value (ce_stored env v)"
    and old: "\<forall>(k, v) \<in> set (sf_group (st (ce_major env)) name). plain_value v" and mem: "g_config g name = Some config"
  shows "readConfig env (fst (saveProviderConfig env name g st)) name = written (ce_stored env) config (sf_group (st (ce_major env)) name)"
proof -
  let ?w = "written (ce_stored env) config (sf_group (st (ce_major env)) name)"
  have ne: "config \<noteq> []" using valid by (auto simp: configIsValid_def)
  have "map_of ?w formtype \<noteq> None" using valid written_map [OF dist] by (auto simp: configIsValid_def split: option.splits)
  moreover have "\<forall>(k, v) \<in> set ?w. plain_value v" by (rule written_plain) (use valid stored old in \<open>auto simp: valid_iff\<close>)
  ultimately have v: "configIsValid ?w" by (simp add: valid_iff)
  then have w: "?w \<noteq> []" by (auto simp: configIsValid_def)
  have "readConfig_version (writeConfig env name config st) name (ce_major env) = ?w"
    using v by (simp add: readConfig_version_def writeConfig_def Let_def written_def)
  then show ?thesis using ne w mem by (simp add: saveProviderConfig_def readConfig_def Let_def)
qed

section \<open>Properties\<close>

definition demo_core :: core_env where
  "demo_core = \<lparr> ce_version = 0x30002, ce_major = 3, ce_default = demo_provider 0 ''default'' [''sha1'', ''random''],
     ce_scan = \<lparr> se_toInt = (\<lambda>_. 0), se_shared = DefaultShared, se_static = [], se_noPlugins = True, se_dirs = [] \<rparr>,
     ce_stored = (\<lambda>v. v) \<rparr>"

definition demo_settings :: settings where
  "demo_settings = (\<lambda>_. \<lparr> sf_names = [qlatin ''b''], sf_group = (\<lambda>_. [(formtype, VString [1]), ([9], VInt 4)]) \<rparr>)"

definition demo_global :: global where
  "demo_global =
     core_step demo_core demo_settings (CInsert (demo_provider 2 ''b'' [''md5'', ''random'']) 2)
       (core_step demo_core demo_settings (CInsert (demo_provider 1 ''a'' [''sha1'', ''md5'']) 5) (the (init True None)))"

lemma demo_global_reach: "core_reach demo_global"
  unfolding demo_global_def by (intro core_reach.call, rule core_reach.created [of True]) (simp add: init_def)

text \<open>
  C10. The choice of a provider.  In every state of the library the provider that is asked for a
  context is the nominated one if it offers the algorithm, otherwise the first in the order of
  priorities that offers it, the default provider last; and there is none only if no provider
  offers it, plugins that were found on the way included.
\<close>

theorem provider_choice:
  assumes "core_reach g" and "getContext env st type name g = (r, g')"
  shows "r = choice name type (g_manager g') \<and> (r = None \<longrightarrow> (\<forall>p \<in> set (map it_p (pm_items (g_manager g')) @ def_list (g_manager g')). \<not> able type p))"
proof -
  have "names_ok (g_manager (ensure_loaded env st g))" using ready_loaded [OF core_reach_ok [OF assms(1)]] by (simp add: ready_def)
  then have r: "r = choice name type (g_manager g')" using choice_correct assms(2) by (simp add: getContext_def)
  then show ?thesis using in_order_None [of type "g_manager g'"] by (auto simp: choice_cases anyone_def split: if_splits)
qed

theorem provider_choice_witness:
  "map_option pv_id (fst (getContext demo_core demo_settings (qlatin ''md5'') [] demo_global)) = Some 2 \<and>
   map_option pv_id (fst (getContext demo_core demo_settings (qlatin ''md5'') (qlatin ''a'') demo_global)) = Some 1 \<and>
   map_option pv_id (fst (getContext demo_core demo_settings (qlatin ''random'') (qlatin ''a'') demo_global)) = Some 2"
proof -
  have c: "fst (getContext demo_core demo_settings type name demo_global) = choice name type (g_manager (snd (getContext demo_core demo_settings type name demo_global)))" for type name
    using provider_choice [OF demo_global_reach, of demo_core demo_settings type name] by (metis prod.collapse)
  have "map_option pv_id (choice [] (qlatin ''md5'') (g_manager (snd (getContext demo_core demo_settings (qlatin ''md5'') [] demo_global)))) = Some 2"
    "map_option pv_id (choice (qlatin ''a'') (qlatin ''md5'') (g_manager (snd (getContext demo_core demo_settings (qlatin ''md5'') (qlatin ''a'') demo_global)))) = Some 1"
    "map_option pv_id (choice (qlatin ''a'') (qlatin ''random'') (g_manager (snd (getContext demo_core demo_settings (qlatin ''random'') (qlatin ''a'') demo_global)))) = Some 2"
    by code_simp+
  then show ?thesis by (simp add: c)
qed

text \<open>
  C36. What is supported can be used.  When the providers announce the same features before and
  after their initialisation, an algorithm is reported as supported exactly when a provider is found
  for it.
\<close>

theorem supported_usable:
  assumes "stable (scan (ce_version env) (ce_scan env) (g_manager (ensure_loaded env st g)))"
  shows "fst (isSupported env st [type] [] g) \<longleftrightarrow> fst (getContext env st type [] g) \<noteq> None"
  using supported_any [OF assms] context_any by blast

theorem supported_usable_witness:
  "fst (isSupported demo_core demo_settings [qlatin ''md5''] [] demo_global) \<and> \<not> fst (isSupported demo_core demo_settings [qlatin ''rsa''] [] demo_global)"
proof -
  have s: "stable (scan (ce_version demo_core) (ce_scan demo_core) (g_manager (ensure_loaded demo_core demo_settings demo_global)))" by code_simp
  have "map_option pv_id (fst (getContext demo_core demo_settings (qlatin ''md5'') [] demo_global)) = Some 2"
    "map_option pv_id (fst (getContext demo_core demo_settings (qlatin ''rsa'') [] demo_global)) = None" by code_simp+
  then show ?thesis using supported_usable [OF s] by auto
qed

text \<open>
  C37. Saved configuration.  A valid configuration that was set and saved is what the settings
  give back, value by value as the system stores them, with entries of an older one that it
  does not mention.  From then on the settings hide what is set: \<^verbatim>\<open>getProviderConfig\<close> returns the
  saved configuration, not the one that \<^verbatim>\<open>setProviderConfig\<close> has set since.
\<close>

theorem config_saved:
  assumes "configIsValid config" and "distinct (map fst config)" and "\<forall>v. plain_value v \<longrightarrow> plain_value (ce_stored env v)"
    and "\<forall>(k, v) \<in> set (sf_group (st (ce_major env)) name). plain_value v" and "g_config g name = Some config"
    and "st' = fst (saveProviderConfig env name g st)"
    and "\<forall>p. fst (findProvider env st' name (ensure_loaded env st' (setProviderConfig env st' name other g))) = Some p \<longrightarrow>
           configIsValid (pv_defaultConfig p) \<longrightarrow> map_of (pv_defaultConfig p) formtype = map_of (readConfig env st' name) formtype"
  shows "(\<forall>k. map_of (readConfig env st' name) k =
      (case map_of config k of Some v \<Rightarrow> Some (ce_stored env v) | None \<Rightarrow> map_of (sf_group (st (ce_major env)) name) k)) \<and>
    fst (getProviderConfig env st' name (setProviderConfig env st' name other g)) = readConfig env st' name"
proof -
  let ?w = "written (ce_stored env) config (sf_group (st (ce_major env)) name)"
  have r: "readConfig env st' name = ?w" using saved_config [of config env st name g] assms(1-6) by simp
  have "map_of ?w formtype \<noteq> None" using assms(1) written_map [OF assms(2)] by (auto simp: configIsValid_def split: option.splits)
  then have "?w \<noteq> []" by auto
  then have "loaded_config env st' c name = ?w" for c using r by (simp add: loaded_config_def)
  then have "fst (getProviderConfig env st' name (setProviderConfig env st' name other g)) = ?w"
    using assms(7) r \<open>?w \<noteq> []\<close> by (auto simp: getProviderConfig_def Let_def split: prod.splits option.splits)
  then show ?thesis using r written_map [OF assms(2)] by auto
qed

theorem config_saved_witness:
  "fst (getProviderConfig demo_core (fst (saveProviderConfig demo_core (qlatin ''b'')
       (setProviderConfig demo_core demo_settings (qlatin ''b'') [(formtype, VString [2])] demo_global) demo_settings)) (qlatin ''b'')
     (setProviderConfig demo_core (fst (saveProviderConfig demo_core (qlatin ''b'')
       (setProviderConfig demo_core demo_settings (qlatin ''b'') [(formtype, VString [2])] demo_global) demo_settings)) (qlatin ''b'') [(formtype, VString [3])]
       (setProviderConfig demo_core demo_settings (qlatin ''b'') [(formtype, VString [2])] demo_global))) =
   [(formtype, VString [2]), ([9], VInt 4)]"
proof -
  let ?g = "setProviderConfig demo_core demo_settings (qlatin ''b'') [(formtype, VString [2])] demo_global"
  define st' where "st' = fst (saveProviderConfig demo_core (qlatin ''b'') ?g demo_settings)"
  have f: "map_option pv_defaultConfig (fst (findProvider demo_core (fst (saveProviderConfig demo_core (qlatin ''b'') ?g demo_settings)) (qlatin ''b'')
     (ensure_loaded demo_core (fst (saveProviderConfig demo_core (qlatin ''b'') ?g demo_settings))
       (setProviderConfig demo_core (fst (saveProviderConfig demo_core (qlatin ''b'') ?g demo_settings)) (qlatin ''b'') [(formtype, VString [3])] ?g)))) = Some []"
    by code_simp
  then have p: "\<forall>p. fst (findProvider demo_core st' (qlatin ''b'') (ensure_loaded demo_core st' (setProviderConfig demo_core st' (qlatin ''b'') [(formtype, VString [3])] ?g))) = Some p \<longrightarrow>
           configIsValid (pv_defaultConfig p) \<longrightarrow> map_of (pv_defaultConfig p) formtype = map_of (readConfig demo_core st' (qlatin ''b'')) formtype"
    unfolding st'_def by (auto simp: configIsValid_def)
  have v: "configIsValid [(formtype, VString [2])]" "\<forall>v. plain_value v \<longrightarrow> plain_value (ce_stored demo_core v)"
    by (simp_all add: configIsValid_def demo_core_def)
  have o: "\<forall>(k, v) \<in> set (sf_group (demo_settings (ce_major demo_core)) (qlatin ''b'')). plain_value v"
    by (simp add: demo_settings_def plain_value_def)
  have g: "g_config ?g (qlatin ''b'') = Some [(formtype, VString [2])]" by code_simp
  have "fst (getProviderConfig demo_core st' (qlatin ''b'') (setProviderConfig demo_core st' (qlatin ''b'') [(formtype, VString [3])] ?g)) = readConfig demo_core st' (qlatin ''b'')"
    using config_saved [of "[(formtype, VString [2])]" demo_core demo_settings "qlatin ''b''" ?g st' "[(formtype, VString [3])]"] g st'_def p v o by simp
  moreover have "readConfig demo_core (fst (saveProviderConfig demo_core (qlatin ''b'') ?g demo_settings)) (qlatin ''b'') = [(formtype, VString [2]), ([9], VInt 4)]" by code_simp
  ultimately show ?thesis by (simp add: st'_def)
qed

text \<open>
  The object for random numbers.  When all plugins are unloaded, the object that remains is
  none or that of the default provider.  When a single provider is unloaded, the object stays even
  if that provider made it: it then refers to a provider that has been deleted.
\<close>

theorem random_owner:
  assumes "pm_def (g_manager (ensure_loaded env st g)) = Some d" and "pv_name d = qlatin ''default''"
    and "item_index (named name) (pm_items (g_manager (snd (ensure_first_scan env (ensure_loaded env st g))))) = Some n"
    and "it_id (pm_items (g_manager (snd (ensure_first_scan env (ensure_loaded env st g)))) ! n) = k"
  shows "(g_rng (unloadAllPlugins env st g) = None \<or> g_rng (unloadAllPlugins env st g) = Some (pv_id d)) \<and>
    (case unloadProvider env st name g of (r, g') \<Rightarrow> r \<and> g_rng g' = g_rng g \<and> EDelete k \<in> set (pm_log (g_manager g')))"
proof -
  let ?g = "ensure_loaded env st g"
  have "manager_find env st (qlatin ''default'') ?g = (Some d, ?g\<lparr> g_manager := g_manager ?g \<rparr>)"
    using assms(1,2) by (simp add: manager_find_def find_name_def find_where_def)
  then have 1: "g_rng (unloadAllPlugins env st g) = None \<or> g_rng (unloadAllPlugins env st g) = Some (pv_id d)"
    by (auto simp: unloadAllPlugins_def Let_def split: option.splits)
  have "g_rng (snd (ensure_first_scan env ?g)) = g_rng g" by (simp add: ensure_first_scan_def global_scan_def ensure_loaded_def)
  then show ?thesis using 1 assms(3,4) by (auto simp: unloadProvider_def unload_def Let_def delete_item_def)
qed

theorem random_owner_witness:
  "g_rng (unloadAllPlugins demo_core demo_settings (setGlobalRandomProvider demo_core demo_settings (qlatin ''b'') demo_global)) = None \<and>
   g_rng (snd (unloadProvider demo_core demo_settings (qlatin ''b'') (setGlobalRandomProvider demo_core demo_settings (qlatin ''b'') demo_global))) = Some 2 \<and>
   EDelete 2 \<in> set (pm_log (g_manager (snd (unloadProvider demo_core demo_settings (qlatin ''b'') (setGlobalRandomProvider demo_core demo_settings (qlatin ''b'') demo_global)))))"
proof -
  let ?g = "setGlobalRandomProvider demo_core demo_settings (qlatin ''b'') demo_global"
  have d: "map_option pv_id (pm_def (g_manager (ensure_loaded demo_core demo_settings ?g))) = Some 0"
    "map_option pv_name (pm_def (g_manager (ensure_loaded demo_core demo_settings ?g))) = Some (qlatin ''default'')"
    "item_index (named (qlatin ''b'')) (pm_items (g_manager (snd (ensure_first_scan demo_core (ensure_loaded demo_core demo_settings ?g))))) = Some 0"
    "it_id (pm_items (g_manager (snd (ensure_first_scan demo_core (ensure_loaded demo_core demo_settings ?g)))) ! 0) = 2"
    "g_rng ?g = Some 2" "g_rng (unloadAllPlugins demo_core demo_settings ?g) \<noteq> Some 0"
    by code_simp+
  then obtain p where p: "pm_def (g_manager (ensure_loaded demo_core demo_settings ?g)) = Some p" "pv_name p = qlatin ''default''" "pv_id p = 0"
    by (cases "pm_def (g_manager (ensure_loaded demo_core demo_settings ?g))") auto
  from random_owner [OF p(1,2) d(3,4)] show ?thesis using d(5,6) p(3) by (auto split: prod.splits)
qed

end
