(* ===== verification/CipherPrims.thy ===== *)
theory CipherPrims
  imports Prelude
begin

text \<open>
  The arithmetic of the block cipher modes (\<^verbatim>\<open>src/plugins/qca-wincrypto/aesmodes.cpp\<close>):
  big-endian loads and stores, the multiplication of GCM in the field with \<open>2 ^ 128\<close>
  elements, the counters of CTR and GCM and the exclusive or of blocks.  The lemmas read
  a block as one 128-bit number: the two 64-bit halves of \<^verbatim>\<open>gfMultiply\<close> implement
  algorithm 1 of NIST SP 800-38D, and the byte-wise increments are additions.
\<close>

section \<open>Definitions\<close>

definition BlockSize :: nat where "BlockSize = 16"

definition loadBigEndian :: "bytes \<Rightarrow> u64" where
  "loadBigEndian p = foldl (\<lambda>v i. push_bit 8 v OR ucast (p ! i)) 0 [0..<8]"

text \<open>The bytes \<open>p[0] \<dots> p[n - 1]\<close> that the loop of \<^verbatim>\<open>storeBigEndian\<close> writes, last byte first.\<close>

fun store_loop :: "nat \<Rightarrow> u64 \<Rightarrow> bytes" where
  "store_loop 0 v = []"
| "store_loop (Suc i) v = store_loop i (drop_bit 8 v) @ [ucast v]"

definition storeBigEndian :: "u64 \<Rightarrow> bytes" where
  "storeBigEndian v = store_loop 8 v"

text \<open>One round of \<^verbatim>\<open>gfMultiply\<close>; the state is \<open>(zHigh, zLow, vHigh, vLow)\<close>.\<close>

type_synonym gf_state = "u64 \<times> u64 \<times> u64 \<times> u64"

definition gf_round :: "bytes \<Rightarrow> gf_state \<Rightarrow> nat \<Rightarrow> gf_state" where
  "gf_round x s i = (case s of (zHigh, zLow, vHigh, vLow) \<Rightarrow>
     let bt = (ucast (drop_bit (7 - i mod 8) (x ! (i div 8))) :: u64) AND 1;
         mk = 0 - bt;
         zHigh' = zHigh XOR (vHigh AND mk);
         zLow' = zLow XOR (vLow AND mk);
         carry = 0 - (vLow AND 1);
         vLow' = drop_bit 1 vLow OR push_bit 63 vHigh;
         vHigh' = drop_bit 1 vHigh XOR (0xe100000000000000 AND carry)
     in (zHigh', zLow', vHigh', vLow'))"

definition gfMultiply :: "bytes \<Rightarrow> bytes \<Rightarrow> bytes" where
  "gfMultiply x y =
     (case foldl (gf_round x) (0, 0, loadBigEndian y, loadBigEndian (drop 8 y)) [0..<128] of
        (zHigh, zLow, _, _) \<Rightarrow> storeBigEndian zHigh @ storeBigEndian zLow)"

text \<open>At most \<open>n\<close> rounds of the carry loop of the increments, starting at index \<open>i\<close>.\<close>

fun increment_loop :: "nat \<Rightarrow> nat \<Rightarrow> bytes \<Rightarrow> bytes" where
  "increment_loop 0 i counter = counter"
| "increment_loop (Suc n) i counter =
     (let counter' = counter[i := counter ! i + 1] in
      if counter' ! i \<noteq> 0 then counter' else increment_loop n (i - 1) counter')"

definition increment128 :: "bytes \<Rightarrow> bytes" where
  "increment128 counter = increment_loop BlockSize (BlockSize - 1) counter"

definition increment32 :: "bytes \<Rightarrow> bytes" where
  "increment32 counter = increment_loop 4 (BlockSize - 1) counter"

definition xorBlock :: "bytes \<Rightarrow> bytes \<Rightarrow> bytes" where
  "xorBlock a b = map (\<lambda>i. a ! i XOR b ! i) [0..<BlockSize]"

section \<open>Exclusive or of byte strings\<close>

definition xor_bytes :: "bytes \<Rightarrow> bytes \<Rightarrow> bytes" where
  "xor_bytes a b = map2 (XOR) a b"

lemma length_xor_bytes [simp]: "length (xor_bytes a b) = min (length a) (length b)"
  by (simp add: xor_bytes_def)

lemma xor_bytes_Nil [simp]: "xor_bytes [] b = []" "xor_bytes a [] = []"
  by (simp_all add: xor_bytes_def)

lemma xor_bytes_Cons [simp]: "xor_bytes (x # a) (y # b) = (x XOR y) # xor_bytes a b"
  by (simp add: xor_bytes_def)

lemma xor_bytes_append:
  "length a = length c \<Longrightarrow> xor_bytes (a @ b) (c @ d) = xor_bytes a c @ xor_bytes b d"
  by (simp add: xor_bytes_def)

lemma xor_bytes_involutive:
  "length a \<le> length k \<Longrightarrow> xor_bytes (xor_bytes a k) k = a"
  by (induction a k rule: list_induct2') (auto simp: xor.assoc)

lemma nth_xor_bytes [simp]:
  "i < length a \<Longrightarrow> i < length b \<Longrightarrow> xor_bytes a b ! i = a ! i XOR b ! i"
  by (simp add: xor_bytes_def)

lemma xorBlock_eq:
  "length a = 16 \<Longrightarrow> length b = 16 \<Longrightarrow> xorBlock a b = xor_bytes a b"
  by (rule nth_equalityI) (simp_all add: xorBlock_def BlockSize_def)

lemma length_xorBlock [simp]: "length (xorBlock a b) = 16"
  by (simp add: xorBlock_def BlockSize_def)

lemma xorBlock_involutive:
  "length a = 16 \<Longrightarrow> length b = 16 \<Longrightarrow> xorBlock (xorBlock a b) b = a"
  by (simp add: xorBlock_eq xor_bytes_involutive)

section \<open>Loads, stores and the field multiplication\<close>

lemma length_store_loop [simp]: "length (store_loop n v) = n"
  by (induction n v rule: store_loop.induct) auto

lemma length_storeBigEndian [simp]: "length (storeBigEndian v) = 8"
  by (simp add: storeBigEndian_def)

lemma length_gfMultiply [simp]: "length (gfMultiply x y) = 16"
  by (simp add: gfMultiply_def split: prod.split)

lemma length_increment_loop [simp]: "length (increment_loop n i c) = length c"
  by (induction n i c rule: increment_loop.induct) (auto simp: Let_def)

lemma length_increment [simp]:
  "length (increment128 c) = length c" "length (increment32 c) = length c"
  by (simp_all add: increment128_def increment32_def)

text \<open>A byte string as a big-endian number.\<close>

definition be_nat :: "bytes \<Rightarrow> nat" where
  "be_nat bs = foldl (\<lambda>n b. n * 256 + unat b) 0 bs"

lemma be_nat_Nil [simp]: "be_nat [] = 0"
  by (simp add: be_nat_def)

lemma be_nat_snoc [simp]: "be_nat (bs @ [b]) = be_nat bs * 256 + unat b"
  by (simp add: be_nat_def)

lemma be_nat_append: "be_nat (as @ bs) = be_nat as * 256 ^ length bs + be_nat bs"
  by (induction bs rule: rev_induct)
    (simp_all add: algebra_simps flip: append_assoc)

lemma be_nat_less: "be_nat bs < 256 ^ length bs"
proof (induction bs rule: rev_induct)
  case (snoc b bs)
  define P where "P = (256::nat) ^ length bs"
  from snoc have "be_nat bs < P" by (simp add: P_def)
  then have "be_nat bs * 256 + unat b < 256 * P" using byte_less [of b] by linarith
  then show ?case by (simp add: P_def)
qed simp

text \<open>The carry loop adds one to the bytes \<open>p\<close> it may touch, modulo their range.\<close>

lemma increment_loop_suffix:
  "length p = n \<Longrightarrow>
   \<exists>p'. increment_loop n (length pre + n - 1) (pre @ p @ post) = pre @ p' @ post \<and>
     length p' = n \<and> be_nat p' = (be_nat p + 1) mod 256 ^ n"
proof (induction n arbitrary: p post)
  case 0
  then show ?case by simp
next
  case (Suc n)
  then obtain q b where p: "p = q @ [b]" and q: "length q = n"
    by (metis append_butlast_last_id length_append_singleton length_0_conv nat.distinct(1) nat.inject)
  have u: "(pre @ p @ post)[length pre + n := b + 1] = pre @ q @ (b + 1) # post"
    using p q by (simp add: list_update_append)
  have g: "(pre @ p @ post) ! (length pre + n) = b" "(pre @ q @ (b + 1) # post) ! (length pre + n) = b + 1"
    using p q by (simp_all add: nth_append)
  have lt: "be_nat q < 256 ^ n" using be_nat_less [of q] q by simp
  show ?case
  proof (cases "b + 1 = 0")
    case False
    then have "unat (b + 1) = unat b + 1" by (metis Suc_eq_plus1 add.commute unatSuc)
    moreover have "unat b + 1 < 256" using calculation byte_less [of "b + 1"] by simp
    ultimately have "be_nat (q @ [b + 1]) = (be_nat p + 1) mod 256 ^ Suc n"
      using p lt by simp
    then show ?thesis
      using False u g q by (intro exI [of _ "q @ [b + 1]"]) simp
  next
    case True
    then have "b = - 1" by (simp add: eq_neg_iff_add_eq_0)
    then have b: "unat b = 255" by (simp add: unsigned_minus_1_eq_mask mask_eq_exp_minus_1)
    from Suc.IH [of q "(b + 1) # post"] q obtain q'
      where "increment_loop n (length pre + n - 1) (pre @ q @ (b + 1) # post) = pre @ q' @ (b + 1) # post"
        and q': "length q' = n" "be_nat q' = (be_nat q + 1) mod 256 ^ n" by auto
    moreover have "be_nat (q' @ [0]) = (be_nat p + 1) mod 256 ^ Suc n"
    proof -
      have "be_nat p + 1 = 256 * (be_nat q + 1)" using p b by simp
      then show ?thesis by (simp add: q' mult_mod_right mult.commute)
    qed
    ultimately show ?thesis
      using True u g by (intro exI [of _ "q' @ [0]"]) simp
  qed
qed

lemma increment32_value:
  assumes "length c = 16"
  shows "take 12 (increment32 c) = take 12 c"
    and "be_nat (drop 12 (increment32 c)) = (be_nat (drop 12 c) + 1) mod 2 ^ 32"
proof -
  obtain p' where i: "increment_loop 4 (length (take 12 c) + 4 - 1) (take 12 c @ drop 12 c @ []) = take 12 c @ p' @ []"
    and p': "be_nat p' = (be_nat (drop 12 c) + 1) mod 256 ^ 4"
    using increment_loop_suffix [of "drop 12 c" 4 "take 12 c" "[]"] assms by auto
  then have "increment32 c = take 12 c @ p'"
    using assms by (simp add: increment32_def BlockSize_def)
  then show "take 12 (increment32 c) = take 12 c"
    "be_nat (drop 12 (increment32 c)) = (be_nat (drop 12 c) + 1) mod 2 ^ 32"
    using assms p' by simp_all
qed

lemma increment128_value:
  assumes "length c = 16"
  shows "be_nat (increment128 c) = (be_nat c + 1) mod 2 ^ 128"
  using increment_loop_suffix [of c 16 "[]" "[]"] assms
  by (auto simp: increment128_def BlockSize_def)

text \<open>
  The counters: the carry loop of CTR mode adds one to the whole block as a 128-bit
  big-endian number and wraps at \<open>2 ^ 128\<close>; the one of GCM leaves the first twelve bytes
  alone and adds one to the last four, modulo \<open>2 ^ 32\<close>.
\<close>

theorem counter_increments:
  assumes "length counter = 16"
  shows "be_nat (increment128 counter) = (be_nat counter + 1) mod 2 ^ 128
    \<and> take 12 (increment32 counter) = take 12 counter
    \<and> be_nat (drop 12 (increment32 counter)) = (be_nat (drop 12 counter) + 1) mod 2 ^ 32"
  using increment128_value [OF assms] increment32_value [OF assms] by simp

theorem counter_increments_witness:
  "be_nat (increment128 (replicate 16 255)) = (be_nat (replicate 16 255) + 1) mod 2 ^ 128"
  using counter_increments [of "replicate 16 255"] by simp

section \<open>Multiplication in the field of GCM\<close>

definition block_word :: "bytes \<Rightarrow> 128 word" where
  "block_word bs = word_of_nat (be_nat bs)"

text \<open>Algorithm 1 of SP 800-38D on 128-bit values; bit 0 of the standard is the most
  significant one.\<close>

definition gf_R :: "128 word" where
  "gf_R = push_bit 120 0xe1"

definition gf_step :: "128 word \<Rightarrow> 128 word \<times> 128 word \<Rightarrow> nat \<Rightarrow> 128 word \<times> 128 word" where
  "gf_step X s i = (case s of (Z, V) \<Rightarrow>
     (if bit X (127 - i) then Z XOR V else Z,
      if bit V 0 then drop_bit 1 V XOR gf_R else drop_bit 1 V))"

definition gf_mult :: "128 word \<Rightarrow> 128 word \<Rightarrow> 128 word" where
  "gf_mult X Y = fst (foldl (gf_step X) (0, Y) [0..<128])"

lemma bit_be_nat:
  "bit (be_nat bs) n \<longleftrightarrow> n div 8 < length bs \<and> bit (rev bs ! (n div 8)) (n mod 8)"
proof (induction bs arbitrary: n rule: rev_induct)
  case (snoc b bs)
  have "be_nat (bs @ [b]) = push_bit 8 (be_nat bs) OR unat b"
    using nat_or_disjoint [of "unat b" 8 "be_nat bs"] by simp
  then have *: "bit (be_nat (bs @ [b])) n \<longleftrightarrow> 8 \<le> n \<and> bit (be_nat bs) (n - 8) \<or> bit b n"
    by (simp add: bit_simps)
  show ?case
  proof (cases "n < 8")
    case True
    then show ?thesis by (simp add: * del: be_nat_snoc)
  next
    case False
    then have "\<not> bit b n" using bit_imp_le_length [of b n] by auto
    moreover have "n div 8 = Suc ((n - 8) div 8)" "(n - 8) mod 8 = n mod 8"
      using False by (simp_all add: le_div_geq le_mod_geq)
    ultimately show ?thesis using False snoc [of "n - 8"] by (simp add: * del: be_nat_snoc)
  qed
qed simp

lemma loadBigEndian_value:
  assumes "8 \<le> length p"
  shows "loadBigEndian p = word_of_nat (be_nat (take 8 p))"
proof -
  have "foldl (\<lambda>v b. push_bit 8 v OR ucast b) (0 :: u64) bs = word_of_nat (be_nat bs)" for bs :: bytes
  proof (induction bs rule: rev_induct)
    case (snoc b bs)
    have "be_nat (bs @ [b]) = push_bit 8 (be_nat bs) OR unat b"
      using nat_or_disjoint [of "unat b" 8 "be_nat bs"] by simp
    then show ?case using snoc by (simp add: of_nat_or_eq push_bit_of_nat del: be_nat_snoc)
  qed simp
  moreover have "loadBigEndian p = foldl (\<lambda>v b. push_bit 8 v OR ucast b) 0 (map ((!) p) [0..<8])"
    by (simp add: loadBigEndian_def foldl_map)
  moreover have "map ((!) p) [0..<8] = take 8 p"
    using assms by (intro nth_equalityI) simp_all
  ultimately show ?thesis by simp
qed

lemma be_nat_store_loop: "be_nat (store_loop n v) = unat v mod 256 ^ n"
proof (induction n arbitrary: v)
  case (Suc n)
  have "unat (ucast v :: byte) = unat v mod 256"
    by (simp add: unsigned_ucast_eq take_bit_eq_mod)
  moreover have "unat (drop_bit 8 v) = unat v div 256" by (simp add: unat_drop)
  ultimately show ?case by (simp add: Suc mod_mult2_eq)
qed simp

text \<open>Two halves as one value.\<close>

definition halves :: "u64 \<Rightarrow> u64 \<Rightarrow> 128 word" where
  "halves hi lo = word_of_nat (unat hi * 2 ^ 64 + unat lo)"

lemma halves_or: "halves hi lo = push_bit 64 (ucast hi) OR ucast lo"
proof -
  have lo: "unat lo < 2 ^ 64" by (rule order_less_le_trans [OF unsigned_less]) simp
  have "unat hi * 2 ^ 64 + unat lo = push_bit 64 (unat hi) OR unat lo"
    using nat_or_disjoint [OF lo, of "unat hi"] by simp
  moreover have "word_of_nat (push_bit 64 (unat hi)) = push_bit 64 (ucast hi :: 128 word)"
    by (simp flip: push_bit_of_nat)
  ultimately show ?thesis unfolding halves_def by (simp only: of_nat_or_eq) simp
qed

lemma bit_halves [bit_simps]:
  "bit (halves hi lo) n \<longleftrightarrow> n < 128 \<and> (if n < 64 then bit lo n else bit hi (n - 64))"
  using bit_imp_le_length [of lo n] bit_imp_le_length [of hi "n - 64"]
  by (auto simp: halves_or bit_simps)

lemma halves_xor: "halves a b XOR halves c e = halves (a XOR c) (b XOR e)"
  by (rule bit_word_eqI) (auto simp: bit_simps)

lemma halves_zero: "halves 0 0 = 0"
  by (simp add: halves_def)

lemma halves_shift:
  "drop_bit 1 (halves hi lo) = halves (drop_bit 1 hi) (drop_bit 1 lo OR push_bit 63 hi)"
proof (rule bit_word_eqI)
  fix n assume "n < LENGTH(128)"
  consider "n < 63" | "n = 63" | "64 \<le> n" by linarith
  then show "bit (drop_bit 1 (halves hi lo)) n \<longleftrightarrow>
      bit (halves (drop_bit 1 hi) (drop_bit 1 lo OR push_bit 63 hi)) n"
  proof cases
    case 3
    then have "Suc n - 64 = Suc (n - 64)" by simp
    then show ?thesis
      using 3 \<open>n < LENGTH(128)\<close> bit_imp_le_length [of hi "Suc (n - 64)"] by (auto simp: bit_simps)
  qed (auto simp: bit_simps dest: bit_imp_le_length)
qed

lemma halves_reduce: "halves 0xe100000000000000 0 = gf_R"
  by (simp add: halves_def gf_R_def)

lemma and_one_mask: "0 - (w AND 1 :: u64) = (if bit w 0 then - 1 else 0)"
  by (simp add: and_one_eq mod_2_eq_odd bit_0)

lemma gf_round_refines:
  assumes "bit (x ! (i div 8)) (7 - i mod 8) = bit X (127 - i)"
    and "gf_round x (zh, zl, vh, vl) i = (zh', zl', vh', vl')"
  shows "gf_step X (halves zh zl, halves vh vl) i = (halves zh' zl', halves vh' vl')"
proof -
  have b0: "bit (halves vh vl) 0 = bit vl 0" by (simp add: bit_halves)
  have x: "bit (ucast (drop_bit (7 - i mod 8) (x ! (i div 8))) :: u64) 0 = bit X (127 - i)"
    using assms(1) by (simp add: bit_simps)
  have "zh' = (if bit X (127 - i) then zh XOR vh else zh)" "zl' = (if bit X (127 - i) then zl XOR vl else zl)"
    "vl' = drop_bit 1 vl OR push_bit 63 vh"
    "vh' = drop_bit 1 vh XOR (if bit vl 0 then 0xe100000000000000 else 0)"
    using assms(2) unfolding gf_round_def Let_def and_one_mask x by (auto split: if_splits)
  then show ?thesis
    by (simp add: gf_step_def b0 halves_xor halves_shift [unfolded One_nat_def] flip: halves_reduce)
qed

lemma gf_rounds_refine:
  assumes x: "\<And>i. i < n \<Longrightarrow> bit (x ! (i div 8)) (7 - i mod 8) = bit X (127 - i)"
    and "foldl (gf_round x) (0, 0, vh, vl) [0..<n] = (zh', zl', vh', vl')"
  shows "foldl (gf_step X) (0, halves vh vl) [0..<n] = (halves zh' zl', halves vh' vl')"
  using assms
proof (induction n arbitrary: zh' zl' vh' vl')
  case 0
  then show ?case by (simp add: halves_zero)
next
  case (Suc n)
  obtain a b p q where s: "foldl (gf_round x) (0, 0, vh, vl) [0..<n] = (a, b, p, q)"
    by (metis prod_cases4)
  with Suc.prems(2) have "gf_round x (a, b, p, q) n = (zh', zl', vh', vl')" by simp
  from gf_round_refines [OF Suc.prems(1) [OF lessI] this] Suc.IH [OF Suc.prems(1) s]
  show ?case by simp
qed

lemma block_word_halves:
  assumes "length y = 16"
  shows "block_word y = halves (loadBigEndian y) (loadBigEndian (drop 8 y))"
proof -
  have "be_nat (take 8 y @ drop 8 y) = be_nat (take 8 y) * 2 ^ 64 + be_nat (drop 8 y)"
    unfolding be_nat_append using assms by simp
  moreover have "unat (word_of_nat (be_nat b) :: u64) = be_nat b" if "length b = 8" for b
    using be_nat_less [of b] that by (simp add: unat_of_nat)
  ultimately show ?thesis
    using assms by (simp add: block_word_def halves_def loadBigEndian_value)
qed

lemma block_word_stores:
  "block_word (storeBigEndian hi @ storeBigEndian lo) = halves hi lo"
proof -
  have "be_nat (storeBigEndian w) = unat w" for w
    using unsigned_less [of w, where 'a = nat] by (simp add: storeBigEndian_def be_nat_store_loop)
  then show ?thesis by (simp add: block_word_def halves_def be_nat_append)
qed

lemma block_word_bit:
  assumes "length x = 16" and "i < 128"
  shows "bit (x ! (i div 8)) (7 - i mod 8) = bit (block_word x) (127 - i)"
proof -
  have q: "i div 8 < 16" using assms(2) by simp
  define a b where "a = 15 - i div 8" and "b = 7 - i mod 8"
  have "127 - i = b + 8 * a"
    using q mod_less_divisor [of 8 i] div_mult_mod_eq [of i 8] unfolding a_def b_def by linarith
  moreover have "b < 8" unfolding b_def by linarith
  ultimately have "(127 - i) div 8 = 15 - i div 8" "(127 - i) mod 8 = 7 - i mod 8"
    by (simp_all flip: a_def b_def)
  moreover have "rev x ! (15 - i div 8) = x ! (i div 8)" "127 - i < 128" "15 - i div 8 < 16"
    using assms q by (simp_all add: rev_nth less_Suc_eq_le)
  ultimately show ?thesis
    using assms q by (simp add: block_word_def bit_of_nat_iff bit_be_nat rev_nth)
qed

text \<open>
  \<^verbatim>\<open>gfMultiply\<close>, which works without branches on two 64-bit halves and on the bytes
  of the factor, is the multiplication of SP 800-38D (algorithm 1) on 128-bit values.
\<close>

theorem gfMultiply_is_gcm:
  assumes "length x = 16" and "length y = 16"
  shows "block_word (gfMultiply x y) = gf_mult (block_word x) (block_word y)"
proof -
  obtain zh zl vh vl where s: "foldl (gf_round x) (0, 0, loadBigEndian y, loadBigEndian (drop 8 y)) [0..<128] =
      (zh, zl, vh, vl)" by (metis prod_cases4)
  from gf_rounds_refine [OF block_word_bit [OF assms(1)] this] show ?thesis
    by (simp add: gf_mult_def block_word_halves [OF assms(2)] gfMultiply_def s block_word_stores)
qed

theorem gfMultiply_is_gcm_witness:
  "block_word (gfMultiply (replicate 16 3) (replicate 16 128)) =
   gf_mult (block_word (replicate 16 3)) (block_word (replicate 16 128))"
  using gfMultiply_is_gcm [of "replicate 16 3" "replicate 16 128"] by simp

end
