(* ===== verification/ModeEngine.thy ===== *)
theory ModeEngine
  imports CipherPrims
begin

text \<open>
  The block cipher modes of the Windows provider (class \<^verbatim>\<open>ModeEngine\<close> of
  \<^verbatim>\<open>src/plugins/qca-wincrypto/aesmodes.cpp\<close>), with the semantics of the code on every
  branch: the record \<open>engine\<close> has the members of the class, each operation returns the
  success flag, the updated engine and the output buffer.

  The block cipher is the operating system's: \<open>block_cipher\<close> is a parameter, with the
  success flag of a call and the bytes it leaves in the output buffer, also when it
  fails.  Blocks are lists of sixteen bytes; \<open>engine_inv\<close> is the type invariant that
  makes every index of the code valid.
\<close>

section \<open>State\<close>

datatype CipherMode = ECB | CBC | CFB | OFB | CTR | GCM

record block_cipher =
  bc_encrypt :: "bytes \<Rightarrow> bool \<times> bytes"
  bc_decrypt :: "bytes \<Rightarrow> bool \<times> bytes"
  bc_encryptCbc :: "bytes \<Rightarrow> bytes \<Rightarrow> bool \<times> bytes \<times> bytes" \<comment> \<open>input, iv to success, output, iv\<close>

record engine =
  eng_mode :: CipherMode
  eng_pkcs7 :: bool
  eng_encrypt :: bool
  eng_valid :: bool
  eng_cipher :: "block_cipher option"
  eng_register :: bytes
  eng_keystream :: bytes
  eng_used :: nat
  eng_pending :: bytes
  eng_h :: bytes
  eng_j0 :: bytes
  eng_ghash :: bytes
  eng_ghashPartial :: bytes
  eng_ghashFill :: nat
  eng_textBytes :: u64
  eng_expectedTag :: bytes
  eng_tagSize :: nat
  eng_tag :: bytes

definition zero_block :: bytes where
  "zero_block = replicate BlockSize 0"

lemma length_zero_block [simp]: "length zero_block = 16"
  by (simp add: zero_block_def BlockSize_def)

definition MaxGcmBytes :: u64 where
  "MaxGcmBytes = push_bit 36 1 - 32"

text \<open>\<^verbatim>\<open>BlockCipher::encryptCbc\<close>, the default that a cipher may override.\<close>

fun encryptCbc :: "(bytes \<Rightarrow> bool \<times> bytes) \<Rightarrow> bytes list \<Rightarrow> bytes \<Rightarrow> bool \<times> bytes \<times> bytes" where
  "encryptCbc encrypt [] iv = (True, [], iv)"
| "encryptCbc encrypt (b # bs) iv =
     (let (ok, c) = encrypt (xorBlock b iv) in
      if \<not> ok then (False, c @ concat (map (\<lambda>_. zero_block) bs), iv)
      else let (ok', cs, iv') = encryptCbc encrypt bs c in (ok', c @ cs, iv'))"

definition clearSecrets :: "engine \<Rightarrow> engine" where
  "clearSecrets s = s\<lparr> eng_cipher := None, eng_register := zero_block,
     eng_keystream := zero_block, eng_h := zero_block, eng_j0 := zero_block,
     eng_ghash := zero_block, eng_ghashPartial := zero_block,
     eng_pending := [], eng_expectedTag := [] \<rparr>"

definition blockSize :: "CipherMode \<Rightarrow> nat" where
  "blockSize mode = (if mode = ECB \<or> mode = CBC then BlockSize else 1)"

section \<open>GHASH\<close>

definition ghashBlock :: "engine \<Rightarrow> bytes \<Rightarrow> engine" where
  "ghashBlock s block =
     s\<lparr> eng_ghash := gfMultiply (xorBlock (eng_ghash s) block) (eng_h s) \<rparr>"

text \<open>One round of the loop of \<^verbatim>\<open>ghashBytes\<close>, on the bytes \<open>xs\<close> it copies.\<close>

definition ghash_round :: "engine \<Rightarrow> bytes \<Rightarrow> engine" where
  "ghash_round s xs =
     (let fill = eng_ghashFill s + length xs;
          p = take (eng_ghashFill s) (eng_ghashPartial s) @ xs @ drop fill (eng_ghashPartial s);
          s1 = s\<lparr> eng_ghashPartial := p, eng_ghashFill := fill \<rparr>
      in if fill = BlockSize then (ghashBlock s1 p)\<lparr> eng_ghashFill := 0 \<rparr> else s1)"

text \<open>
  A fill level of sixteen or more would be a write outside the buffer; \<open>engine_inv\<close>
  excludes it.
\<close>

function ghashBytes :: "engine \<Rightarrow> bytes \<Rightarrow> engine" where
  "ghashBytes s xs =
     (if xs = [] \<or> BlockSize \<le> eng_ghashFill s then s
      else
        let tk = min (length xs) (BlockSize - eng_ghashFill s)
        in ghashBytes (ghash_round s (take tk xs)) (drop tk xs))"
  by pat_completeness auto
termination
  by (relation "measure (\<lambda>(s, xs). length xs)") (auto simp: BlockSize_def)

declare ghashBytes.simps [simp del]

text \<open>The last, partial block, padded with zeros.\<close>

definition ghash_flush :: "engine \<Rightarrow> engine" where
  "ghash_flush s =
     (if eng_ghashFill s \<noteq> 0 then
        let p = take (eng_ghashFill s) (eng_ghashPartial s) @ replicate (BlockSize - eng_ghashFill s) 0
        in (ghashBlock (s\<lparr> eng_ghashPartial := p \<rparr>) p)\<lparr> eng_ghashFill := 0 \<rparr>
      else s)"

definition gcmTag :: "block_cipher \<Rightarrow> engine \<Rightarrow> bool \<times> engine \<times> bytes" where
  "gcmTag c s =
     (let s1 = ghash_flush s;
          s2 = ghashBlock s1 (replicate 8 0 @ storeBigEndian (eng_textBytes s1 * 8));
          (done, msk) = bc_encrypt c (eng_j0 s2)
      in (done, s2, if done then xorBlock (eng_ghash s2) msk else zero_block))"

section \<open>Construction\<close>

definition engine_blank :: "CipherMode \<Rightarrow> bool \<Rightarrow> bool \<Rightarrow> block_cipher option \<Rightarrow> engine" where
  "engine_blank mode pkcs7 encrypt cipher =
     \<lparr> eng_mode = mode, eng_pkcs7 = pkcs7, eng_encrypt = encrypt, eng_valid = False,
       eng_cipher = cipher, eng_register = zero_block, eng_keystream = zero_block,
       eng_used = BlockSize, eng_pending = [], eng_h = zero_block, eng_j0 = zero_block,
       eng_ghash = zero_block, eng_ghashPartial = zero_block, eng_ghashFill = 0,
       eng_textBytes = 0, eng_expectedTag = [], eng_tagSize = 0, eng_tag = [] \<rparr>"

text \<open>The first counter block of GCM, for a nonce of twelve bytes and for any other.\<close>

definition gcm_j0 :: "engine \<Rightarrow> bytes \<Rightarrow> engine" where
  "gcm_j0 s iv =
     (if length iv = 12 then s\<lparr> eng_j0 := iv @ [0, 0, 0, 1] \<rparr>
      else
        let s1 = ghash_flush (ghashBytes s iv);
            s2 = ghashBlock s1 (replicate 8 0 @ storeBigEndian (word_of_nat (length iv) * 8))
        in s2\<lparr> eng_j0 := eng_ghash s2, eng_ghash := zero_block \<rparr>)"

definition gcm_setup :: "block_cipher \<Rightarrow> engine \<Rightarrow> bytes \<Rightarrow> bytes \<Rightarrow> engine" where
  "gcm_setup c s iv tag =
     (if iv = [] \<or> tag = [] \<or> BlockSize < length tag then clearSecrets s
      else
        let (ok, h) = bc_encrypt c zero_block in
        if \<not> ok then clearSecrets s
        else
          let s1 = gcm_j0 (s\<lparr> eng_h := h \<rparr>) iv;
              s2 = s1\<lparr> eng_register := increment32 (eng_j0 s1) \<rparr>;
              s3 = (if eng_encrypt s2 then s2\<lparr> eng_tagSize := length tag \<rparr>
                    else s2\<lparr> eng_expectedTag := tag \<rparr>)
          in s3\<lparr> eng_valid := True \<rparr>)"

definition new_engine ::
    "CipherMode \<Rightarrow> bool \<Rightarrow> bool \<Rightarrow> block_cipher option \<Rightarrow> bytes \<Rightarrow> bytes \<Rightarrow> engine" where
  "new_engine mode pkcs7 encrypt cipher iv tag =
     (let s = engine_blank mode pkcs7 encrypt cipher in
      case cipher of None \<Rightarrow> s
      | Some c \<Rightarrow>
          if pkcs7 \<and> mode \<noteq> ECB \<and> mode \<noteq> CBC then clearSecrets s
          else (case mode of
            ECB \<Rightarrow> s\<lparr> eng_valid := True \<rparr>
          | CFB \<Rightarrow>
              if length iv \<noteq> BlockSize then clearSecrets s
              else s\<lparr> eng_keystream := iv, eng_valid := True \<rparr>
          | GCM \<Rightarrow> gcm_setup c s iv tag
          | _ \<Rightarrow>
              if length iv \<noteq> BlockSize then clearSecrets s
              else s\<lparr> eng_register := iv, eng_valid := True \<rparr>))"

text \<open>The copy constructor; \<open>clone\<close> is the cipher's own copy operation and may fail.\<close>

definition copy_engine :: "(block_cipher \<Rightarrow> block_cipher option) \<Rightarrow> engine \<Rightarrow> engine" where
  "copy_engine clone s =
     (let s' = s\<lparr> eng_cipher := Option.bind (eng_cipher s) clone \<rparr> in
      if eng_cipher s' = None then s'\<lparr> eng_valid := False \<rparr> else s')"

section \<open>Blocks and streams\<close>

text \<open>
  \<^verbatim>\<open>processBlocks\<close> on whole blocks.  A null cipher is never dereferenced: every caller has
  checked \<open>eng_valid\<close>, which \<open>engine_inv\<close> ties to the cipher.
\<close>

definition processBlocks :: "block_cipher \<Rightarrow> engine \<Rightarrow> bytes \<Rightarrow> bytes \<Rightarrow> bool \<times> engine \<times> bytes" where
  "processBlocks c s inp out =
     (if eng_mode s = ECB then
        let (ok, result) = (if eng_encrypt s then bc_encrypt c inp else bc_decrypt c inp)
        in (ok, s, out @ result)
      else if eng_encrypt s then
        let (ok, result, iv) = bc_encryptCbc c inp (eng_register s)
        in (ok, s\<lparr> eng_register := iv \<rparr>, out @ result)
      else
        let (ok, result) = bc_decrypt c inp in
        if \<not> ok then (False, s, out @ result)
        else (True, s\<lparr> eng_register := drop (length inp - BlockSize) inp \<rparr>,
              out @ concat (map2 xorBlock (chunks_of BlockSize result)
                              (eng_register s # chunks_of BlockSize inp))))"

definition nextKeystream :: "block_cipher \<Rightarrow> engine \<Rightarrow> bool \<times> engine" where
  "nextKeystream c s =
     (let (ok, output, s1) =
        (case eng_mode s of
           CFB \<Rightarrow> let (ok, output) = bc_encrypt c (eng_keystream s) in (ok, output, s)
         | OFB \<Rightarrow> let (ok, output) = bc_encrypt c (eng_register s)
                  in (ok, output, if ok then s\<lparr> eng_register := output \<rparr> else s)
         | CTR \<Rightarrow> let (ok, output) = bc_encrypt c (eng_register s)
                  in (ok, output, s\<lparr> eng_register := increment128 (eng_register s) \<rparr>)
         | GCM \<Rightarrow> let (ok, output) = bc_encrypt c (eng_register s)
                  in (ok, output, s\<lparr> eng_register := increment32 (eng_register s) \<rparr>)
         | _ \<Rightarrow> (False, zero_block, s))
      in (ok, if ok then s1\<lparr> eng_keystream := output \<rparr> else s1))"

text \<open>\<open>n\<close> counters written to the batch buffer, and the counter after them.\<close>

fun counter_batch :: "(bytes \<Rightarrow> bytes) \<Rightarrow> nat \<Rightarrow> bytes \<Rightarrow> bytes \<times> bytes" where
  "counter_batch inc 0 reg = ([], reg)"
| "counter_batch inc (Suc n) reg =
     (let (counters, reg') = counter_batch inc n (inc reg) in (reg @ counters, reg'))"

text \<open>One byte with a keystream that is not used up.\<close>

definition stream_byte :: "engine \<Rightarrow> byte \<Rightarrow> engine \<times> byte" where
  "stream_byte s x =
     (let r = eng_keystream s ! eng_used s XOR x;
          s1 = (if eng_mode s = CFB
                then s\<lparr> eng_keystream :=
                  (eng_keystream s)[eng_used s := if eng_encrypt s then r else x] \<rparr>
                else s)
      in (s1\<lparr> eng_used := Suc (eng_used s) \<rparr>, r))"

text \<open>The state with a fresh keystream where the old one is used up.\<close>

definition refill :: "block_cipher \<Rightarrow> engine \<Rightarrow> bool \<times> engine" where
  "refill c s =
     (if eng_used s = BlockSize then
        let (ok, s1) = nextKeystream c s in (ok, if ok then s1\<lparr> eng_used := 0 \<rparr> else s1)
      else (True, s))"

text \<open>
  The loop of \<^verbatim>\<open>stream\<close> on the input that is left.  The result region has been allocated,
  zero-filled, before the loop: where a call of the cipher fails, the rest of it is zero.
\<close>

function stream_loop :: "block_cipher \<Rightarrow> engine \<Rightarrow> bytes \<Rightarrow> bool \<times> engine \<times> bytes" where
  "stream_loop c s [] = (True, s, [])"
| "stream_loop c s (x # xs) =
     (if (eng_mode s = CTR \<or> eng_mode s = GCM) \<and> eng_used s = BlockSize \<and>
         BlockSize \<le> length (x # xs)
      then
        let blocks = min 64 (length (x # xs) div BlockSize);
            (counters, reg) =
              counter_batch (if eng_mode s = GCM then increment32 else increment128) blocks
                (eng_register s);
            s1 = s\<lparr> eng_register := reg \<rparr>;
            (ok, counterStream) = bc_encrypt c counters
        in
          if \<not> ok then (False, s1, replicate (length (x # xs)) 0)
          else
            let n = blocks * BlockSize;
                (ok', s', result) = stream_loop c s1 (drop n (x # xs))
            in (ok', s', xor_bytes (take n (x # xs)) counterStream @ result)
      else
        let (ok, s1) = refill c s in
          if \<not> ok then (False, s1, replicate (length (x # xs)) 0)
          else
            let (s2, r) = stream_byte s1 x;
                (ok', s', result) = stream_loop c s2 xs
            in (ok', s', r # result))"
  by pat_completeness auto
termination
  by (relation "measure (\<lambda>(c, s, xs). length xs)") (auto simp: BlockSize_def)

declare stream_loop.simps [simp del]

definition stream :: "block_cipher \<Rightarrow> engine \<Rightarrow> bytes \<Rightarrow> bytes \<Rightarrow> bool \<times> engine \<times> bytes" where
  "stream c s inp out = (let (ok, s', result) = stream_loop c s inp in (ok, s', out @ result))"

section \<open>Update and final\<close>

text \<open>The number of blocks that can be processed now; \<open>hold\<close> retains the last one.\<close>

definition ready_blocks :: "bool \<Rightarrow> nat \<Rightarrow> nat" where
  "ready_blocks hold n =
     (let blocks = n div BlockSize in
      if hold \<and> blocks \<noteq> 0 \<and> n mod BlockSize = 0 then blocks - 1 else blocks)"

text \<open>The block modes: what is left after a pending block has been completed.\<close>

definition update_blocks :: "block_cipher \<Rightarrow> engine \<Rightarrow> bytes \<Rightarrow> bytes \<Rightarrow> bool \<times> engine \<times> bytes" where
  "update_blocks c s inp out =
     (let holdLast = (\<not> eng_encrypt s \<and> eng_pkcs7 s);
          n = ready_blocks holdLast (length inp) * BlockSize;
          (ok, s1, out1) =
            (if n = 0 then (True, s, out) else processBlocks c s (take n inp) out)
      in if \<not> ok then (False, s1, out1)
         else (True, s1\<lparr> eng_pending := eng_pending s1 @ drop n inp \<rparr>, out1))"

definition update_pending :: "block_cipher \<Rightarrow> engine \<Rightarrow> bytes \<Rightarrow> bytes \<Rightarrow> bool \<times> engine \<times> bytes" where
  "update_pending c s inp out =
     (if eng_pending s = [] then update_blocks c s inp out
      else
        let holdLast = (\<not> eng_encrypt s \<and> eng_pkcs7 s);
            tk = min (length inp) (BlockSize - length (eng_pending s));
            s1 = s\<lparr> eng_pending := eng_pending s @ take tk inp \<rparr>;
            inp' = drop tk inp
        in
          if length (eng_pending s1) < BlockSize \<or> holdLast \<and> inp' = [] then (True, s1, out)
          else
            let (ok, s2, out') = processBlocks c s1 (eng_pending s1) out in
            if \<not> ok then (False, s2, out')
            else update_blocks c (s2\<lparr> eng_pending := [] \<rparr>) inp' out')"

definition update_gcm :: "block_cipher \<Rightarrow> engine \<Rightarrow> bytes \<Rightarrow> bytes \<Rightarrow> bool \<times> engine \<times> bytes" where
  "update_gcm c s inp out =
     (let n = word_of_nat (length inp) :: u64 in
      if MaxGcmBytes - eng_textBytes s < n \<or>
         2147483647 - word_of_nat (length (eng_pending s)) < n
      then (False, s, out)
      else
        let s1 = s\<lparr> eng_textBytes := eng_textBytes s + n \<rparr> in
        if \<not> eng_encrypt s1 then (True, s1\<lparr> eng_pending := eng_pending s1 @ inp \<rparr>, out)
        else
          let (ok, s2, out') = stream c s1 inp out in
          if \<not> ok then (False, s2, out')
          else (True, ghashBytes s2 (take (length inp) (drop (length out) out')), out'))"

definition updateImpl :: "block_cipher \<Rightarrow> engine \<Rightarrow> bytes \<Rightarrow> bytes \<Rightarrow> bool \<times> engine \<times> bytes" where
  "updateImpl c s inp out =
     (if inp = [] then (True, s, out)
      else (case eng_mode s of
        ECB \<Rightarrow> update_pending c s inp out
      | CBC \<Rightarrow> update_pending c s inp out
      | GCM \<Rightarrow> update_gcm c s inp out
      | _ \<Rightarrow> stream c s inp out))"

text \<open>The input of an update: a readable buffer, or a null pointer with a size.\<close>

datatype input = Buffer bytes | Null nat

fun input_size :: "input \<Rightarrow> nat" where
  "input_size (Buffer b) = length b"
| "input_size (Null n) = n"

fun input_bytes :: "input \<Rightarrow> bytes" where
  "input_bytes (Buffer b) = b"
| "input_bytes (Null n) = []"

fun is_null :: "input \<Rightarrow> bool" where
  "is_null (Buffer b) = False"
| "is_null (Null n) = True"

text \<open>\<open>std::size_t(std::numeric_limits<int>::max()) - start\<close>, in 64-bit arithmetic.\<close>

definition room :: "nat \<Rightarrow> u64" where
  "room start = 2147483647 - word_of_nat start"

definition update :: "engine \<Rightarrow> input \<Rightarrow> bytes \<Rightarrow> bool \<times> engine \<times> bytes" where
  "update s inp out =
     (if \<not> eng_valid s then (False, s, out)
      else
        let start = length out;
            (ok, s1, out1) =
              (if room start < word_of_nat (input_size inp) \<or> input_size inp \<noteq> 0 \<and> is_null inp
               then (False, s, out)
               else (case eng_cipher s of
                       None \<Rightarrow> (False, s, out)
                     | Some c \<Rightarrow> updateImpl c s (input_bytes inp) out))
        in if \<not> ok then (False, (clearSecrets s1)\<lparr> eng_valid := False \<rparr>, take start out1)
           else (True, s1, out1))"

text \<open>The padding check of decryption, over all sixteen bytes, as \<^verbatim>\<open>unsigned\<close> values.\<close>

definition padding_bad :: "bytes \<Rightarrow> u32" where
  "padding_bad block =
     (let pad = block ! (BlockSize - 1)
      in foldl (\<lambda>bad i. bad OR (ucast (block ! (BlockSize - 1 - i) XOR pad) AND
                                 (0 - (if i < unat pad then 1 else 0))))
           ((if pad = 0 then 1 else 0) OR (if BlockSize < unat pad then 1 else 0)) [0..<BlockSize])"

definition final_padded :: "block_cipher \<Rightarrow> engine \<Rightarrow> bytes \<Rightarrow> bool \<times> engine \<times> bytes" where
  "final_padded c s out =
     (if length (eng_pending s) \<noteq> BlockSize then (False, s, out)
      else
        let (ok, s1, block) = processBlocks c s (eng_pending s) [];
            s2 = s1\<lparr> eng_pending := [] \<rparr>
        in
          if \<not> ok \<or> length block \<noteq> BlockSize then (False, s2, out)
          else if padding_bad block = 0
          then (True, s2, out @ take (BlockSize - unat (block ! (BlockSize - 1))) block)
          else (False, s2, out))"

definition final_encrypt :: "block_cipher \<Rightarrow> engine \<Rightarrow> bytes \<Rightarrow> bool \<times> engine \<times> bytes" where
  "final_encrypt c s out =
     (let pad = BlockSize - length (eng_pending s) mod BlockSize;
          s1 = (if eng_pkcs7 s
                then s\<lparr> eng_pending := eng_pending s @ replicate pad (word_of_nat pad) \<rparr> else s)
      in
        if length (eng_pending s1) mod BlockSize \<noteq> 0 then (False, s1, out)
        else
          let (ok, s2, out') =
            (if eng_pending s1 = [] then (True, s1, out)
             else processBlocks c s1 (eng_pending s1) out)
          in (ok, s2\<lparr> eng_pending := [] \<rparr>, out'))"

definition final_gcm :: "block_cipher \<Rightarrow> engine \<Rightarrow> bytes \<Rightarrow> bool \<times> engine \<times> bytes" where
  "final_gcm c s out =
     (if eng_encrypt s then
        let (ok, s1, tag) = gcmTag c s in
        if \<not> ok then (False, s1, out)
        else (True, s1\<lparr> eng_tag := take (eng_tagSize s1) tag \<rparr>, out)
      else
        let (ok, s1, tag) = gcmTag c (ghashBytes s (eng_pending s)) in
        if \<not> ok then (False, s1, out)
        else
          let difference = foldl (\<lambda>df i. df OR (tag ! i XOR eng_expectedTag s1 ! i)) (0 :: byte)
                [0..<length (eng_expectedTag s1)]
          in
            if difference \<noteq> 0 then (False, s1\<lparr> eng_pending := [] \<rparr>, out)
            else
              let (ok', s2, out') = stream c s1 (eng_pending s1) out
              in (ok', s2\<lparr> eng_pending := [] \<rparr>, out'))"

definition finalImpl :: "block_cipher \<Rightarrow> engine \<Rightarrow> bytes \<Rightarrow> bool \<times> engine \<times> bytes" where
  "finalImpl c s out =
     (case eng_mode s of
        CFB \<Rightarrow> (True, s, out)
      | OFB \<Rightarrow> (True, s, out)
      | CTR \<Rightarrow> (True, s, out)
      | GCM \<Rightarrow> final_gcm c s out
      | _ \<Rightarrow>
          if eng_encrypt s then final_encrypt c s out
          else if \<not> eng_pkcs7 s then (eng_pending s = [], s, out)
          else final_padded c s out)"

definition final :: "engine \<Rightarrow> bytes \<Rightarrow> bool \<times> engine \<times> bytes" where
  "final s out =
     (if \<not> eng_valid s then (False, s, out)
      else
        let s0 = s\<lparr> eng_valid := False \<rparr>;
            start = length out;
            (done, s1, out1) =
              (case eng_cipher s0 of None \<Rightarrow> (False, s0, out) | Some c \<Rightarrow> finalImpl c s0 out)
        in (done, clearSecrets s1, if done then out1 else take start out1))"

section \<open>Failures leave nothing behind\<close>

definition wiped :: "engine \<Rightarrow> bool" where
  "wiped s \<longleftrightarrow> eng_cipher s = None \<and> eng_register s = zero_block \<and> eng_keystream s = zero_block
     \<and> eng_h s = zero_block \<and> eng_j0 s = zero_block \<and> eng_ghash s = zero_block
     \<and> eng_ghashPartial s = zero_block \<and> eng_pending s = [] \<and> eng_expectedTag s = []"

lemma wiped_clearSecrets [simp]: "wiped (clearSecrets s)"
  by (simp add: wiped_def clearSecrets_def)

lemma wiped_valid [simp]: "wiped (s\<lparr> eng_valid := b \<rparr>) = wiped s"
  by (simp add: wiped_def)

text \<open>The operations append: the output buffer given by the caller stays a prefix.\<close>

definition appends :: "bytes \<Rightarrow> bool \<times> engine \<times> bytes \<Rightarrow> bool" where
  "appends out r \<longleftrightarrow> (case r of (ok, s, out') \<Rightarrow> take (length out) out' = out)"

lemma appends_Pair [simp]: "appends out (ok, s, out') \<longleftrightarrow> take (length out) out' = out"
  by (simp add: appends_def)

lemma appendsD: "r = (ok, s, out') \<Longrightarrow> appends out r \<Longrightarrow> take (length out) out' = out"
  by simp

lemma prefix_trans:
  "take (length a) b = a \<Longrightarrow> take (length b) c = b \<Longrightarrow> take (length a) c = (a :: bytes)"
  by (metis min.absorb1 nat_le_linear take_all take_take)

lemma appends_processBlocks: "appends out (processBlocks c s inp out)"
  by (simp add: processBlocks_def Let_def split: prod.split)

lemma appends_stream: "appends out (stream c s inp out)"
  by (simp add: stream_def split: prod.split)

lemmas processBlocks_prefix = appendsD [OF _ appends_processBlocks]
  and stream_prefix = appendsD [OF _ appends_stream]

lemma appends_update_blocks: "appends out (update_blocks c s inp out)"
  by (auto simp: update_blocks_def Let_def dest: processBlocks_prefix split: prod.splits if_splits)

lemmas update_blocks_prefix = appendsD [OF _ appends_update_blocks]

lemma appends_update_pending: "appends out (update_pending c s inp out)"
proof -
  have "appends out (update_blocks c s3 inp' out')"
    if "processBlocks c s1 inp1 out = (ok, s2, out')" for ok s1 s2 s3 inp1 inp' out'
    by (cases "update_blocks c s3 inp' out'")
      (auto intro: prefix_trans [OF processBlocks_prefix [OF that]] update_blocks_prefix)
  then show ?thesis
    using appends_update_blocks
    by (auto simp: update_pending_def Let_def dest: processBlocks_prefix split: prod.splits)
qed

lemma appends_update_gcm: "appends out (update_gcm c s inp out)"
  by (auto simp: update_gcm_def Let_def dest: stream_prefix split: prod.splits)

lemma appends_updateImpl: "appends out (updateImpl c s inp out)"
  by (simp add: updateImpl_def appends_update_pending appends_update_gcm appends_stream
      split: CipherMode.split)

lemma appends_final_gcm: "appends out (final_gcm c s out)"
  by (auto simp: final_gcm_def Let_def dest: stream_prefix split: prod.splits)

lemma appends_final_encrypt: "appends out (final_encrypt c s out)"
  by (auto simp: final_encrypt_def Let_def dest: processBlocks_prefix split: prod.splits if_splits)

lemma appends_final_padded: "appends out (final_padded c s out)"
  by (auto simp: final_padded_def Let_def split: prod.splits)

lemma appends_finalImpl: "appends out (finalImpl c s out)"
  by (simp add: finalImpl_def appends_final_gcm appends_final_encrypt appends_final_padded
      split: CipherMode.split)

lemmas updateImpl_prefix = appendsD [OF _ appends_updateImpl]
  and finalImpl_prefix = appendsD [OF _ appends_finalImpl]

section \<open>What the operations keep\<close>

text \<open>The members that no operation but the constructors and \<open>clearSecrets\<close> changes.\<close>

definition keeps :: "engine \<Rightarrow> engine \<Rightarrow> bool" where
  "keeps s s' \<longleftrightarrow> eng_mode s' = eng_mode s \<and> eng_pkcs7 s' = eng_pkcs7 s
     \<and> eng_encrypt s' = eng_encrypt s \<and> eng_valid s' = eng_valid s
     \<and> eng_cipher s' = eng_cipher s \<and> eng_h s' = eng_h s \<and> eng_j0 s' = eng_j0 s
     \<and> eng_expectedTag s' = eng_expectedTag s \<and> eng_tagSize s' = eng_tagSize s"

text \<open>The fixed-size buffers have their size and the positions in them are in range.\<close>

definition blocks_ok :: "engine \<Rightarrow> bool" where
  "blocks_ok s \<longleftrightarrow> length (eng_register s) = 16 \<and> length (eng_keystream s) = 16
     \<and> length (eng_h s) = 16 \<and> length (eng_j0 s) = 16 \<and> length (eng_ghash s) = 16
     \<and> length (eng_ghashPartial s) = 16 \<and> eng_used s \<le> 16 \<and> eng_ghashFill s < 16"

text \<open>A cipher call fills its output buffer, also when it fails.\<close>

definition cipher_wf :: "block_cipher \<Rightarrow> bool" where
  "cipher_wf c \<longleftrightarrow>
     (\<forall>b. length (snd (bc_encrypt c b)) = length b \<and> length (snd (bc_decrypt c b)) = length b)
     \<and> (\<forall>b iv. length iv = 16 \<longrightarrow> length (snd (snd (bc_encryptCbc c b iv))) = 16)"

lemma cipher_wfD:
  "cipher_wf c \<Longrightarrow> bc_encrypt c b = (ok, r) \<Longrightarrow> length r = length b"
  "cipher_wf c \<Longrightarrow> bc_decrypt c b = (ok, r) \<Longrightarrow> length r = length b"
  "cipher_wf c \<Longrightarrow> bc_encryptCbc c b iv = (ok, r, iv') \<Longrightarrow> length iv = 16 \<Longrightarrow> length iv' = 16"
  unfolding cipher_wf_def by (metis snd_conv)+

text \<open>The two together, for an operation that may call the cipher \<open>c\<close>.\<close>

definition safe_step :: "block_cipher \<Rightarrow> engine \<Rightarrow> engine \<Rightarrow> bool" where
  "safe_step c s s' \<longleftrightarrow> keeps s s' \<and> (cipher_wf c \<longrightarrow> blocks_ok s \<longrightarrow> blocks_ok s')"

lemma safe_step_refl [simp, intro]: "safe_step c s s"
  by (simp add: safe_step_def keeps_def)

lemma safe_step_trans [trans]: "safe_step c s t \<Longrightarrow> safe_step c t u \<Longrightarrow> safe_step c s u"
  by (simp add: safe_step_def keeps_def)

lemma safe_step_pending [simp]:
  "safe_step c s (t\<lparr> eng_pending := p \<rparr>) = safe_step c s t"
  "safe_step c s (t\<lparr> eng_textBytes := n \<rparr>) = safe_step c s t"
  "safe_step c s (t\<lparr> eng_tag := p \<rparr>) = safe_step c s t"
  "safe_step c (t\<lparr> eng_pending := p \<rparr>) s = safe_step c t s"
  "safe_step c (t\<lparr> eng_textBytes := n \<rparr>) s = safe_step c t s"
  by (simp_all add: safe_step_def keeps_def blocks_ok_def)

lemma safe_ghashBlock: "safe_step c s (ghashBlock s b)"
  by (simp add: safe_step_def keeps_def blocks_ok_def ghashBlock_def)

lemma safe_fill: "n < 16 \<Longrightarrow> safe_step c s t \<Longrightarrow> safe_step c s (t\<lparr> eng_ghashFill := n \<rparr>)"
  by (simp add: safe_step_def keeps_def blocks_ok_def)

lemma safe_partial:
  "(blocks_ok s \<Longrightarrow> length p = 16) \<Longrightarrow> safe_step c s t \<Longrightarrow> safe_step c s (t\<lparr> eng_ghashPartial := p \<rparr>)"
  by (auto simp: safe_step_def keeps_def blocks_ok_def)

lemma safe_ghash_round:
  "eng_ghashFill s + length xs \<le> 16 \<Longrightarrow> safe_step c s (ghash_round s xs)"
  by (auto simp: ghash_round_def Let_def safe_step_def keeps_def blocks_ok_def ghashBlock_def BlockSize_def)

lemma safe_ghashBytes: "safe_step c s (ghashBytes s xs)"
proof (induction s xs rule: ghashBytes.induct)
  case (1 s xs)
  show ?case
  proof (cases "xs = [] \<or> BlockSize \<le> eng_ghashFill s")
    case True
    then show ?thesis by (simp add: ghashBytes.simps [of s])
  next
    case False
    let ?tk = "min (length xs) (BlockSize - eng_ghashFill s)"
    have "safe_step c s (ghash_round s (take ?tk xs))"
      using False by (intro safe_ghash_round) (auto simp: BlockSize_def)
    also have "safe_step c (ghash_round s (take ?tk xs)) (ghashBytes (ghash_round s (take ?tk xs)) (drop ?tk xs))"
      using 1 [OF False refl] .
    finally show ?thesis
      using False by (simp add: ghashBytes.simps [of s xs] Let_def)
  qed
qed

lemma safe_ghash_flush: "safe_step c s (ghash_flush s)"
  by (auto simp: ghash_flush_def Let_def safe_step_def keeps_def blocks_ok_def ghashBlock_def BlockSize_def)

lemma safe_gcmTag: "gcmTag c s = (ok, s', tag) \<Longrightarrow> safe_step c s s' \<and> length tag = 16"
  using safe_step_trans [OF safe_ghash_flush safe_ghashBlock]
  by (auto simp: gcmTag_def Let_def split: prod.splits if_splits)

lemma safe_processBlocks:
  assumes "processBlocks c s inp out = (ok, s', out')" and "16 \<le> length inp"
  shows "safe_step c s s'"
  using assms
  by (auto simp: processBlocks_def Let_def safe_step_def keeps_def blocks_ok_def BlockSize_def
      dest: cipher_wfD split: prod.splits if_splits)

lemma safe_nextKeystream: "nextKeystream c s = (ok, s') \<Longrightarrow> safe_step c s s'"
  by (auto simp: nextKeystream_def Let_def safe_step_def keeps_def blocks_ok_def
      dest: cipher_wfD split: prod.splits if_splits CipherMode.splits)

lemma safe_stream_byte:
  "stream_byte s x = (s', r) \<Longrightarrow> eng_used s \<noteq> 16 \<Longrightarrow> safe_step c s s'"
  by (cases "eng_mode s = CFB") (auto simp: stream_byte_def Let_def safe_step_def keeps_def blocks_ok_def)

lemma length_counter_batch:
  "(\<And>r. length (inc r) = length r) \<Longrightarrow> counter_batch inc n reg = (cs, reg') \<Longrightarrow>
   length cs = n * length reg \<and> length reg' = length reg"
  by (induction n arbitrary: reg cs reg') (fastforce simp: Let_def split: prod.splits)+

lemma safe_used: "safe_step c s t \<Longrightarrow> safe_step c s (t\<lparr> eng_used := 0 \<rparr>)"
  by (simp add: safe_step_def keeps_def blocks_ok_def)

lemma safe_refill:
  assumes "refill c s = (ok, s')"
  shows "safe_step c s s' \<and> (ok \<longrightarrow> eng_used s' \<noteq> 16)"
proof (cases "eng_used s = BlockSize")
  case True
  obtain ok1 s1 where n: "nextKeystream c s = (ok1, s1)" by fastforce
  from assms True safe_nextKeystream [OF n] show ?thesis
    by (auto simp: refill_def n safe_used)
next
  case False
  with assms show ?thesis by (auto simp: refill_def BlockSize_def)
qed

text \<open>The two branches of the loop, for rewriting.\<close>

abbreviation batched :: "engine \<Rightarrow> bytes \<Rightarrow> bool" where
  "batched s xs \<equiv> (eng_mode s = CTR \<or> eng_mode s = GCM) \<and> eng_used s = BlockSize \<and> BlockSize \<le> length xs"

lemma stream_loop_batch:
  assumes "batched s xs"
    and "counter_batch (if eng_mode s = GCM then increment32 else increment128)
      (min 64 (length xs div BlockSize)) (eng_register s) = (counters, reg)"
  shows "stream_loop c s xs =
     (let (ok, cs) = bc_encrypt c counters;
          n = min 64 (length xs div BlockSize) * BlockSize;
          (ok', s', result) = stream_loop c (s\<lparr> eng_register := reg \<rparr>) (drop n xs)
      in if ok then (ok', s', xor_bytes (take n xs) cs @ result)
         else (False, s\<lparr> eng_register := reg \<rparr>, replicate (length xs) 0))"
proof -
  from assms(1) obtain y ys where "xs = y # ys" by (cases xs) (auto simp: BlockSize_def)
  with assms show ?thesis
    by (subst \<open>xs = y # ys\<close>, subst stream_loop.simps(2))
      (simp add: Let_def split: prod.split)
qed

lemma stream_loop_byte:
  assumes "\<not> batched s (x # xs)" and "refill c s = (ok, s1)"
  shows "stream_loop c s (x # xs) =
     (if ok then
        let (s2, r) = stream_byte s1 x; (ok', s', result) = stream_loop c s2 xs
        in (ok', s', r # result)
      else (False, s1, replicate (length (x # xs)) 0))"
  unfolding stream_loop.simps(2) if_not_P [OF assms(1)] assms(2)
  by (simp add: Let_def)

lemma safe_stream_loop: "stream_loop c s xs = (ok, s', r) \<Longrightarrow> safe_step c s s'"
proof (induction "length xs" arbitrary: s xs ok s' r rule: less_induct)
  case less
  show ?case
  proof (cases xs)
    case Nil
    with less.prems show ?thesis by (simp add: stream_loop.simps(1))
  next
    case (Cons y ys)
    show ?thesis
    proof (cases "batched s xs")
      case True
      let ?inc = "if eng_mode s = GCM then increment32 else increment128"
      let ?n = "min 64 (length xs div BlockSize)"
      obtain counters reg where b: "counter_batch ?inc ?n (eng_register s) = (counters, reg)"
        by fastforce
      then have "length reg = length (eng_register s)"
        by (intro conjunct2 [OF length_counter_batch [OF _ b]]) simp
      then have r: "safe_step c s (s\<lparr> eng_register := reg \<rparr>)"
        by (simp add: safe_step_def keeps_def blocks_ok_def)
      have "length (drop (?n * BlockSize) xs) < length xs"
        using True Cons by (auto simp: BlockSize_def div_greater_zero_iff)
      from less.hyps [OF this] less.prems show ?thesis
        unfolding stream_loop_batch [OF True b]
        by (auto simp: Let_def split: prod.splits if_splits intro: safe_step_trans [OF r] r)
    next
      case False
      obtain ok1 s1 where f: "refill c s = (ok1, s1)" by fastforce
      have s1: "safe_step c s s1" using safe_refill [OF f] by simp
      have s3: "safe_step c s s3"
        if "stream_byte s1 y = (s2, v)" "stream_loop c s2 ys = (ok2, s3, w)" ok1 for s2 s3 v ok2 w
        using less.hyps [OF _ that(2)] safe_refill [OF f] safe_stream_byte [OF that(1), of c] that(3) Cons
        by (auto intro: safe_step_trans)
      from less.prems s1 show ?thesis
        unfolding Cons stream_loop_byte [OF False [unfolded Cons] f]
        by (auto simp: Let_def split: prod.splits if_splits intro: s3)
    qed
  qed
qed

lemma safe_stream: "stream c s inp out = (ok, s', out') \<Longrightarrow> safe_step c s s'"
  by (auto simp: stream_def split: prod.splits intro: safe_stream_loop)

lemma ready_blocks_le: "ready_blocks hold n * BlockSize \<le> n"
proof -
  have "ready_blocks hold n \<le> n div BlockSize" by (simp add: ready_blocks_def Let_def)
  then show ?thesis by (simp add: BlockSize_def less_eq_div_iff_mult_less_eq)
qed

lemma ready_blocks_pos:
  "0 < ready_blocks hold n \<Longrightarrow> 16 \<le> n \<and> 16 \<le> ready_blocks hold n * BlockSize"
  using ready_blocks_le [of hold n] by (cases "ready_blocks hold n") (auto simp: BlockSize_def)

lemma safe_update_blocks: "update_blocks c s inp out = (ok, s', out') \<Longrightarrow> safe_step c s s'"
  using ready_blocks_pos
  by (auto simp: update_blocks_def Let_def BlockSize_def dest: safe_processBlocks split: prod.splits if_splits)

lemma safe_update_pending:
  assumes "update_pending c s inp out = (ok, s', out')"
  shows "safe_step c s s'"
proof (cases "eng_pending s = []")
  case True
  with assms show ?thesis by (auto simp: update_pending_def dest: safe_update_blocks)
next
  case False
  define s1 where "s1 = s\<lparr> eng_pending := eng_pending s @
      take (min (length inp) (BlockSize - length (eng_pending s))) inp \<rparr>"
  have s1: "safe_step c s t = safe_step c s1 t" for t by (simp add: s1_def)
  obtain ok2 s2 out2 where p: "processBlocks c s1 (eng_pending s1) out = (ok2, s2, out2)"
    by (rule prod_cases3)
  have "safe_step c s s2" if "\<not> length (eng_pending s1) < BlockSize"
    using safe_processBlocks [OF p] that by (simp add: s1 BlockSize_def)
  moreover have "safe_step c s s1" by (simp add: s1_def)
  ultimately show ?thesis
    using assms False unfolding update_pending_def Let_def s1_def [symmetric] p
    by (auto split: if_splits dest!: safe_update_blocks intro: safe_step_trans)
qed

lemma safe_update_gcm: "update_gcm c s inp out = (ok, s', out') \<Longrightarrow> safe_step c s s'"
  by (auto simp: update_gcm_def Let_def dest!: safe_stream split: prod.splits if_splits
      intro: safe_step_trans safe_ghashBytes)

lemma safe_updateImpl: "updateImpl c s inp out = (ok, s', out') \<Longrightarrow> safe_step c s s'"
  by (auto simp: updateImpl_def split: CipherMode.splits if_splits
      dest: safe_update_pending safe_update_gcm safe_stream)

lemma safe_finalImpl: "finalImpl c s out = (ok, s', out') \<Longrightarrow> safe_step c s s'"
proof -
  have g: "final_gcm c s out = (ok, s', out') \<Longrightarrow> safe_step c s s'"
    by (auto simp: final_gcm_def Let_def dest!: safe_gcmTag safe_stream split: prod.splits if_splits
        intro: safe_step_trans safe_step_trans [OF safe_ghashBytes])
  have "16 \<le> length x" if "16 dvd length x" "x \<noteq> []" for x :: bytes
    using that by (simp add: dvd_imp_le)
  then have e: "final_encrypt c s out = (ok, s', out') \<Longrightarrow> safe_step c s s'"
    by (auto simp: final_encrypt_def Let_def BlockSize_def mod_eq_0_iff_dvd
        dest!: safe_processBlocks split: prod.splits if_splits)
  have "final_padded c s out = (ok, s', out') \<Longrightarrow> safe_step c s s'"
    by (auto simp: final_padded_def Let_def BlockSize_def dest!: safe_processBlocks split: prod.splits if_splits)
  with g e show "finalImpl c s out = (ok, s', out') \<Longrightarrow> safe_step c s s'"
    by (auto simp: finalImpl_def split: CipherMode.splits if_splits)
qed

lemma clearSecrets_fields [simp]:
  "eng_mode (clearSecrets s) = eng_mode s" "eng_pkcs7 (clearSecrets s) = eng_pkcs7 s"
  "eng_encrypt (clearSecrets s) = eng_encrypt s" "eng_valid (clearSecrets s) = eng_valid s"
  "eng_cipher (clearSecrets s) = None" "eng_tagSize (clearSecrets s) = eng_tagSize s"
  "eng_pending (clearSecrets s) = []" "eng_expectedTag (clearSecrets s) = []"
  "eng_tag (clearSecrets s) = eng_tag s"
  by (simp_all add: clearSecrets_def)

lemma update_fails:
  assumes "update s inp out = (False, s', out')"
  shows "out' = out" and "\<not> eng_valid s'" and "eng_valid s \<Longrightarrow> wiped s'"
  using assms
  by (auto simp: update_def Let_def dest: updateImpl_prefix split: prod.splits if_splits option.splits)

lemma final_result:
  assumes "final s out = (ok, s', out')"
  shows "\<not> ok \<Longrightarrow> out' = out" and "\<not> eng_valid s'" and "eng_valid s \<Longrightarrow> wiped s'"
proof -
  have v: "\<not> eng_valid t" if "finalImpl c (s\<lparr> eng_valid := False \<rparr>) out = (b, t, o1)" for c b t o1
    using safe_finalImpl [OF that] by (simp add: safe_step_def keeps_def)
  show "\<not> ok \<Longrightarrow> out' = out" and "\<not> eng_valid s'" and "eng_valid s \<Longrightarrow> wiped s'"
    using assms
    by (auto simp: final_def Let_def dest: finalImpl_prefix v split: prod.splits if_splits option.splits)
qed

section \<open>The type invariant\<close>

text \<open>
  The block modes never hold back more than a partial block, or one whole block when the
  padding of the last block has still to be checked.
\<close>

definition pending_ok :: "engine \<Rightarrow> bool" where
  "pending_ok s \<longleftrightarrow> (eng_mode s = ECB \<or> eng_mode s = CBC \<longrightarrow>
     length (eng_pending s) \<le> (if \<not> eng_encrypt s \<and> eng_pkcs7 s then 16 else 15))"

definition engine_inv :: "engine \<Rightarrow> bool" where
  "engine_inv s \<longleftrightarrow> blocks_ok s \<and> pending_ok s \<and> eng_tagSize s \<le> 16 \<and> length (eng_expectedTag s) \<le> 16
     \<and> (eng_valid s \<longrightarrow> eng_cipher s \<noteq> None) \<and> (\<forall>c. eng_cipher s = Some c \<longrightarrow> cipher_wf c)"

lemma processBlocks_pending: "processBlocks c s inp out = (ok, s', out') \<Longrightarrow> eng_pending s' = eng_pending s"
  by (auto simp: processBlocks_def Let_def split: prod.splits if_splits)

lemma ready_blocks_rest:
  "length (drop (ready_blocks hold n * BlockSize) xs) \<le> (if hold then 16 else 15)" if "n = length xs"
proof -
  have "n - n div 16 * 16 = n mod 16" by (simp add: minus_div_mult_eq_mod)
  moreover have "n - (n div 16 - 1) * 16 \<le> 16" if "n mod 16 = 0"
    using that by (auto simp: diff_mult_distrib elim!: dvdE simp flip: dvd_eq_mod_eq_0)
  ultimately show ?thesis
    using that mod_less_divisor [of 16 n] by (auto simp: ready_blocks_def Let_def BlockSize_def)
qed

lemma pending_update_blocks:
  assumes "update_blocks c s inp out = (True, s', out')" and "eng_pending s = []"
  shows "length (eng_pending s') \<le> (if \<not> eng_encrypt s \<and> eng_pkcs7 s then 16 else 15)"
  using assms ready_blocks_rest [OF refl, of "\<not> eng_encrypt s \<and> eng_pkcs7 s" inp]
  by (auto simp: update_blocks_def Let_def dest!: processBlocks_pending split: prod.splits if_splits)

lemma pending_update_pending:
  assumes "update_pending c s inp out = (True, s', out')" and "pending_ok s"
    and "eng_mode s = ECB \<or> eng_mode s = CBC"
  shows "pending_ok s'"
proof -
  define tk where "tk = min (length inp) (BlockSize - length (eng_pending s))"
  define s1 where "s1 = s\<lparr> eng_pending := eng_pending s @ take tk inp \<rparr>"
  have k: "keeps s s'" using safe_update_pending [OF assms(1)] by (simp add: safe_step_def)
  obtain ok2 s2 out2 where p: "processBlocks c s1 (eng_pending s1) out = (ok2, s2, out2)"
    by (rule prod_cases3)
  have l: "length (eng_pending s1) \<le> 16"
    using assms(2,3) by (auto simp: s1_def tk_def pending_ok_def BlockSize_def split: if_splits)
  have s2: "eng_encrypt s2 = eng_encrypt s" "eng_pkcs7 s2 = eng_pkcs7 s" if "16 \<le> length (eng_pending s1)"
    using safe_processBlocks [OF p that] by (simp_all add: safe_step_def keeps_def s1_def)
  show ?thesis
  proof (cases "eng_pending s = []")
    case True
    with assms(1) have "update_blocks c s inp out = (True, s', out')" by (simp add: update_pending_def)
    from pending_update_blocks [OF this True] k show ?thesis by (auto simp: pending_ok_def keeps_def)
  next
    case False
    have "length (eng_pending s') \<le> (if \<not> eng_encrypt s \<and> eng_pkcs7 s then 16 else 15)"
      using assms(1) False l s2
      unfolding update_pending_def Let_def tk_def [symmetric] s1_def [symmetric] p
      by (auto simp: BlockSize_def dest!: pending_update_blocks split: if_splits)
    with k show ?thesis by (auto simp: pending_ok_def keeps_def)
  qed
qed

lemma pending_updateImpl:
  assumes "updateImpl c s inp out = (True, s', out')" and "pending_ok s"
  shows "pending_ok s'"
proof (cases "eng_mode s = ECB \<or> eng_mode s = CBC")
  case True
  with assms show ?thesis
    by (auto simp: updateImpl_def split: if_splits dest: pending_update_pending)
next
  case False
  with safe_updateImpl [OF assms(1)] show ?thesis
    by (auto simp: safe_step_def keeps_def pending_ok_def)
qed

lemma engine_inv_cleared: "eng_tagSize s \<le> 16 \<Longrightarrow> eng_used s \<le> 16 \<Longrightarrow> eng_ghashFill s < 16 \<Longrightarrow>
    engine_inv ((clearSecrets s)\<lparr> eng_valid := False \<rparr>)"
  by (simp add: engine_inv_def blocks_ok_def pending_ok_def clearSecrets_def)

lemma engine_inv_failed:
  assumes "safe_step c s s'" and "engine_inv s" and "eng_cipher s = Some c"
  shows "engine_inv ((clearSecrets s')\<lparr> eng_valid := False \<rparr>)"
  using assms by (intro engine_inv_cleared) (auto simp: safe_step_def keeps_def engine_inv_def blocks_ok_def)

lemma engine_inv_update:
  assumes "engine_inv s" and "update s inp out = (ok, s', out')"
  shows "engine_inv s'"
proof (cases "eng_cipher s")
  case None
  with assms show ?thesis by (auto simp: update_def engine_inv_def)
next
  case (Some c)
  have u: "engine_inv t" if "updateImpl c s i out = (True, t, o')" for i t o'
    using safe_updateImpl [OF that] pending_updateImpl [OF that] assms(1) Some
    by (auto simp: engine_inv_def safe_step_def keeps_def)
  have f: "engine_inv ((clearSecrets t)\<lparr> eng_valid := False \<rparr>)" if "safe_step c s t" for t
    using engine_inv_failed [OF that assms(1) Some] .
  show ?thesis
    using assms Some
    by (auto simp: update_def Let_def intro: f dest: u safe_updateImpl split: prod.splits if_splits)
qed

lemma engine_inv_final:
  assumes "engine_inv s" and "final s out = (ok, s', out')"
  shows "engine_inv s'"
proof (cases "eng_valid s")
  case False
  with assms show ?thesis by (simp add: final_def)
next
  case True
  then obtain c where c: "eng_cipher s = Some c" using assms(1) by (auto simp: engine_inv_def)
  define s0 where "s0 = s\<lparr> eng_valid := False \<rparr>"
  have s0: "engine_inv s0" "eng_cipher s0 = Some c"
    using assms(1) c by (auto simp: s0_def engine_inv_def blocks_ok_def pending_ok_def)
  obtain b t o' where i: "finalImpl c s0 out = (b, t, o')" by (rule prod_cases3)
  have "\<not> eng_valid t" using safe_finalImpl [OF i] by (simp add: safe_step_def keeps_def s0_def)
  then have "s' = (clearSecrets t)\<lparr> eng_valid := False \<rparr>"
    using assms(2) True c i by (auto simp: final_def s0_def clearSecrets_def split: prod.splits)
  with engine_inv_failed [OF safe_finalImpl [OF i] s0] show ?thesis by simp
qed

lemma blocks_ok_blank: "blocks_ok (engine_blank mode pkcs7 enc cipher)"
  by (simp add: blocks_ok_def engine_blank_def BlockSize_def)

lemma safe_gcm_j0:
  assumes "blocks_ok s" and "cipher_wf c"
  shows "blocks_ok (gcm_j0 s iv)" and "eng_encrypt (gcm_j0 s iv) = eng_encrypt s"
    and "eng_cipher (gcm_j0 s iv) = eng_cipher s" and "eng_mode (gcm_j0 s iv) = eng_mode s"
    and "eng_tagSize (gcm_j0 s iv) = eng_tagSize s" and "eng_expectedTag (gcm_j0 s iv) = eng_expectedTag s"
    and "eng_pkcs7 (gcm_j0 s iv) = eng_pkcs7 s" and "eng_h (gcm_j0 s iv) = eng_h s"
proof -
  have "safe_step c s (ghashBlock (ghash_flush (ghashBytes s iv)) b)" for b
    using safe_step_trans [OF safe_ghashBytes safe_step_trans [OF safe_ghash_flush safe_ghashBlock]] .
  then have k: "keeps s (ghashBlock (ghash_flush (ghashBytes s iv)) b)"
      "blocks_ok (ghashBlock (ghash_flush (ghashBytes s iv)) b)" for b
    using assms by (auto simp: safe_step_def)
  then show "blocks_ok (gcm_j0 s iv)" and "eng_encrypt (gcm_j0 s iv) = eng_encrypt s"
    and "eng_cipher (gcm_j0 s iv) = eng_cipher s" and "eng_mode (gcm_j0 s iv) = eng_mode s"
    and "eng_tagSize (gcm_j0 s iv) = eng_tagSize s" and "eng_expectedTag (gcm_j0 s iv) = eng_expectedTag s"
    and "eng_pkcs7 (gcm_j0 s iv) = eng_pkcs7 s" and "eng_h (gcm_j0 s iv) = eng_h s"
    using assms by (auto simp: gcm_j0_def Let_def blocks_ok_def keeps_def)
qed

lemma engine_inv_gcm_setup:
  assumes "cipher_wf c"
  shows "engine_inv (gcm_setup c (engine_blank GCM pkcs7 enc (Some c)) iv tag)"
proof -
  let ?s = "engine_blank GCM pkcs7 enc (Some c)"
  obtain ok h where h: "bc_encrypt c zero_block = (ok, h)" by fastforce
  then have "blocks_ok (?s\<lparr> eng_h := h \<rparr>)"
    using cipher_wfD(1) [OF assms h] blocks_ok_blank by (simp add: blocks_ok_def)
  note j = safe_gcm_j0 [OF this assms, of iv]
  define r where "r = (gcm_j0 (?s\<lparr> eng_h := h \<rparr>) iv)\<lparr> eng_register := increment32 (eng_j0 (gcm_j0 (?s\<lparr> eng_h := h \<rparr>) iv)) \<rparr>"
  have r: "blocks_ok r" "eng_tagSize r = 0" "eng_expectedTag r = []" "eng_cipher r = Some c" "eng_mode r = GCM"
    and re: "eng_encrypt r = eng_encrypt (gcm_j0 (?s\<lparr> eng_h := h \<rparr>) iv)"
    using j by (simp_all add: r_def blocks_ok_def engine_blank_def)
  have i: "engine_inv ((t :: engine)\<lparr> eng_valid := True \<rparr>)"
    if "blocks_ok t" "eng_tagSize t \<le> 16" "length (eng_expectedTag t) \<le> 16" "eng_cipher t = Some c" "eng_mode t = GCM" for t
    using that assms by (simp add: engine_inv_def blocks_ok_def pending_ok_def)
  have e: "blocks_ok (r\<lparr> eng_tagSize := n \<rparr>)" "blocks_ok (r\<lparr> eng_expectedTag := tg \<rparr>)" for n tg
    using r(1) by (simp_all add: blocks_ok_def)
  have "gcm_setup c ?s iv tag = clearSecrets ?s \<or> length tag \<le> 16 \<and>
      gcm_setup c ?s iv tag = (if eng_encrypt r then r\<lparr> eng_tagSize := length tag \<rparr>
          else r\<lparr> eng_expectedTag := tag \<rparr>)\<lparr> eng_valid := True \<rparr>"
    by (simp add: gcm_setup_def h Let_def r_def [symmetric] re BlockSize_def)
  moreover have "engine_inv (clearSecrets ?s)"
    by (simp add: engine_inv_def blocks_ok_def pending_ok_def clearSecrets_def engine_blank_def BlockSize_def)
  moreover have "engine_inv ((if eng_encrypt r then r\<lparr> eng_tagSize := length tag \<rparr>
          else r\<lparr> eng_expectedTag := tag \<rparr>)\<lparr> eng_valid := True \<rparr>)" if "length tag \<le> 16"
    using that by (cases "eng_encrypt r"; simp only: if_True if_False; intro i) (simp_all add: e r)
  ultimately show ?thesis by presburger
qed

lemma engine_inv_new:
  assumes "\<And>c. cipher = Some c \<Longrightarrow> cipher_wf c"
  shows "engine_inv (new_engine mode pkcs7 enc cipher iv tag)"
proof (cases cipher)
  case None
  then show ?thesis
    by (simp add: new_engine_def engine_inv_def blocks_ok_def pending_ok_def engine_blank_def BlockSize_def)
next
  case (Some c)
  have cl: "engine_inv (clearSecrets (engine_blank mode pkcs7 enc (Some c)))"
    by (simp add: engine_inv_def blocks_ok_def pending_ok_def clearSecrets_def engine_blank_def BlockSize_def)
  have wf: "cipher_wf c" using assms Some by simp
  have k: "engine_inv ((engine_blank mode pkcs7 enc (Some c))\<lparr> eng_register := iv, eng_valid := True \<rparr>)"
    "engine_inv ((engine_blank mode pkcs7 enc (Some c))\<lparr> eng_keystream := iv, eng_valid := True \<rparr>)"
    if "length iv = BlockSize"
    using that wf by (simp_all add: engine_inv_def blocks_ok_def pending_ok_def engine_blank_def BlockSize_def)
  have "engine_inv ((engine_blank mode pkcs7 enc (Some c))\<lparr> eng_valid := True \<rparr>)"
    using wf by (simp add: engine_inv_def blocks_ok_def pending_ok_def engine_blank_def BlockSize_def)
  then show ?thesis
    unfolding new_engine_def Let_def Some option.case
    using cl k engine_inv_gcm_setup [OF wf] by (cases mode; cases pkcs7) simp_all
qed

lemma engine_inv_copy:
  assumes "engine_inv s" and "\<And>c c'. clone c = Some c' \<Longrightarrow> cipher_wf c'"
  shows "engine_inv (copy_engine clone s)"
  using assms by (cases "eng_cipher s")
    (auto simp: copy_engine_def Let_def engine_inv_def blocks_ok_def pending_ok_def)

text \<open>The engines a program can obtain through the class's interface.\<close>

inductive reachable_engine :: "(block_cipher \<Rightarrow> block_cipher option) \<Rightarrow> engine \<Rightarrow> bool"
  for clone where
  create: "(\<And>c. cipher = Some c \<Longrightarrow> cipher_wf c) \<Longrightarrow>
    reachable_engine clone (new_engine mode pkcs7 enc cipher iv tag)"
| copied: "reachable_engine clone s \<Longrightarrow> reachable_engine clone (copy_engine clone s)"
| updated: "reachable_engine clone s \<Longrightarrow> update s inp out = (ok, s', out') \<Longrightarrow>
    reachable_engine clone s'"
| finished: "reachable_engine clone s \<Longrightarrow> final s out = (ok, s', out') \<Longrightarrow>
    reachable_engine clone s'"

text \<open>
  C34. The type invariant: in every engine a program can reach, whatever the inputs and
  whichever cipher calls fail, the fixed buffers have sixteen bytes, the positions in the
  keystream and in the partial hash block are inside them, at most one block is held back
  by the block modes, the tag lengths fit a block, and a valid engine has a cipher.
\<close>

theorem engine_type_invariant:
  assumes "reachable_engine clone s"
    and "\<And>c c'. clone c = Some c' \<Longrightarrow> cipher_wf c'"
  shows "engine_inv s"
  using assms(1)
proof induction
  case (create cipher mode pkcs7 enc iv tag)
  then show ?case by (rule engine_inv_new)
next
  case (copied s)
  show ?case by (rule engine_inv_copy [OF copied.IH assms(2)])
next
  case (updated s inp out ok s' out')
  show ?case by (rule engine_inv_update [OF updated.IH updated.hyps(2)])
next
  case (finished s out ok s' out')
  show ?case by (rule engine_inv_final [OF finished.IH finished.hyps(2)])
qed

text \<open>A cipher for the witnesses: every byte is inverted.\<close>

definition not_cipher :: block_cipher where
  "not_cipher = \<lparr> bc_encrypt = \<lambda>b. (True, map (\<lambda>x. NOT x) b), bc_decrypt = \<lambda>b. (True, map (\<lambda>x. NOT x) b),
     bc_encryptCbc = \<lambda>b iv. encryptCbc (\<lambda>b. (True, map (\<lambda>x. NOT x) b)) (chunks_of 16 b) iv \<rparr>"

lemma encryptCbc_iv:
  assumes "\<And>b ok r. f b = (ok, r) \<Longrightarrow> length r = length b" and "length iv = 16"
  shows "length (snd (snd (encryptCbc f bs iv))) = 16"
  using assms(2)
proof (induction bs arbitrary: iv)
  case (Cons b bs)
  then show ?case
    using assms(1) by (auto simp: Let_def split: prod.splits) (metis length_xorBlock snd_conv)
qed simp

lemma not_cipher_wf: "cipher_wf not_cipher"
  unfolding cipher_wf_def not_cipher_def by (auto intro!: encryptCbc_iv)

theorem engine_type_invariant_witness:
  "engine_inv (new_engine CTR False True (Some not_cipher) zero_block [])"
  by (rule engine_type_invariant [of "\<lambda>_. None"])
    (auto intro!: reachable_engine.create simp: not_cipher_wf)

text \<open>
  C33. Failures.  An update that fails on a valid engine (a null buffer, a size beyond
  \<open>INT_MAX\<close>, a failing cipher call, the GCM limit) and every \<^verbatim>\<open>final\<close>, successful or not,
  leave an engine whose key object, chaining state, keystream, hash key and pending input
  are erased and which is no longer valid; a failing call gives back the caller's output
  buffer unchanged, whatever the cipher had written to it; and an engine that is not
  valid refuses every further call without touching anything.
\<close>

theorem engine_failure_is_final:
  "(\<forall>s inp out s' out'. eng_valid s \<longrightarrow> update s inp out = (False, s', out') \<longrightarrow>
      out' = out \<and> \<not> eng_valid s' \<and> wiped s')
   \<and> (\<forall>s out ok s' out'. eng_valid s \<longrightarrow> final s out = (ok, s', out') \<longrightarrow>
      (ok \<or> out' = out) \<and> \<not> eng_valid s' \<and> wiped s')
   \<and> (\<forall>s inp out. \<not> eng_valid s \<longrightarrow>
      update s inp out = (False, s, out) \<and> final s out = (False, s, out))"
proof (intro conjI allI impI)
  fix s :: engine and inp out s' out'
  assume v: "eng_valid s" and u: "update s inp out = (False, s', out')"
  show "out' = out" "\<not> eng_valid s'" "wiped s'" by (fact update_fails [OF u] v update_fails(3) [OF u v])+
next
  fix s :: engine and out ok s' out'
  assume v: "eng_valid s" and f: "final s out = (ok, s', out')"
  show "ok \<or> out' = out" using final_result(1) [OF f] by blast
  show "\<not> eng_valid s'" "wiped s'" by (fact final_result(2) [OF f] final_result(3) [OF f v])+
next
  fix s :: engine and inp out
  assume "\<not> eng_valid s"
  then show "update s inp out = (False, s, out)" "final s out = (False, s, out)"
    by (simp_all add: update_def final_def)
qed

theorem engine_failure_is_final_witness:
  "let s = new_engine ECB False True (Some not_cipher) [] []; r = update s (Null 3) [1, 2] in
   eng_valid s \<and> \<not> fst r \<and> snd (snd r) = [1, 2] \<and> wiped (fst (snd r))"
proof -
  define s where "s = new_engine ECB False True (Some not_cipher) [] []"
  obtain ok s' out' where r: "update s (Null 3) [1, 2] = (ok, s', out')" by (rule prod_cases3)
  have v: "eng_valid s" by (simp add: s_def new_engine_def)
  then have "\<not> ok" using r by (auto simp: update_def)
  with r have "update s (Null 3) [1, 2] = (False, s', out')" by simp
  with v conjunct1 [OF engine_failure_is_final] have "out' = [1, 2]" "wiped s'" by blast+
  with r v \<open>\<not> ok\<close> show ?thesis by (simp add: Let_def s_def)
qed

end
