(* ===== verification/ModeStream.thy ===== *)
theory ModeStream
  imports ModeEngine
begin

text \<open>
  The stream modes CFB, OFB and CTR of \<open>ModeEngine\<close> against the block-wise definitions of
  NIST SP 800-38A.  The code works byte by byte, keeps a partly used keystream between
  calls and, for the counter modes, encrypts up to 64 counters in one call of the cipher;
  \<open>byte_run\<close> is the same computation without the batches, and \<open>stream_spec\<close> the text-book
  definition on blocks.
\<close>

section \<open>The law of the block cipher\<close>

text \<open>
  The cipher of the operating system: a permutation \<open>e\<close> of the blocks with inverse \<open>d\<close>,
  applied to each block of a buffer of whole blocks; \<^verbatim>\<open>encryptCbc\<close> agrees with the default
  implementation.
\<close>

definition cipher_law :: "block_cipher \<Rightarrow> (bytes \<Rightarrow> bytes) \<Rightarrow> (bytes \<Rightarrow> bytes) \<Rightarrow> bool" where
  "cipher_law c e d \<longleftrightarrow>
     (\<forall>b. length b = 16 \<longrightarrow> length (e b) = 16 \<and> length (d b) = 16 \<and> d (e b) = b)
   \<and> (\<forall>bs. 16 dvd length bs \<longrightarrow> bc_encrypt c bs = (True, concat (map e (chunks_of 16 bs)))
        \<and> bc_decrypt c bs = (True, concat (map d (chunks_of 16 bs))))
   \<and> (\<forall>bs iv. 16 dvd length bs \<longrightarrow> length iv = 16 \<longrightarrow>
        bc_encryptCbc c bs iv = encryptCbc (bc_encrypt c) (chunks_of 16 bs) iv)"

lemma cipher_lawD:
  assumes "cipher_law c e d"
  shows "length b = 16 \<Longrightarrow> length (e b) = 16" and "length b = 16 \<Longrightarrow> length (d b) = 16"
    and "length b = 16 \<Longrightarrow> d (e b) = b"
    and "16 dvd length bs \<Longrightarrow> bc_encrypt c bs = (True, concat (map e (chunks_of 16 bs)))"
    and "16 dvd length bs \<Longrightarrow> bc_decrypt c bs = (True, concat (map d (chunks_of 16 bs)))"
    and "16 dvd length bs \<Longrightarrow> length iv = 16 \<Longrightarrow>
      bc_encryptCbc c bs iv = encryptCbc (bc_encrypt c) (chunks_of 16 bs) iv"
  using assms by (simp_all add: cipher_law_def)

lemma chunks_of_one: "length b = 16 \<Longrightarrow> chunks_of 16 b = [b]"
  using chunks_of_block [of 16 b "[]"] by simp

lemma encrypt_block: "cipher_law c e d \<Longrightarrow> length b = 16 \<Longrightarrow> bc_encrypt c b = (True, e b)"
  by (simp add: cipher_lawD(4) chunks_of_one)

section \<open>Byte by byte\<close>

text \<open>A fresh keystream block, with a cipher that does not fail.\<close>

definition fresh :: "(bytes \<Rightarrow> bytes) \<Rightarrow> engine \<Rightarrow> engine" where
  "fresh e s = (case eng_mode s of
      OFB \<Rightarrow> s\<lparr> eng_register := e (eng_register s), eng_keystream := e (eng_register s), eng_used := 0 \<rparr>
    | CTR \<Rightarrow> s\<lparr> eng_register := increment128 (eng_register s), eng_keystream := e (eng_register s), eng_used := 0 \<rparr>
    | GCM \<Rightarrow> s\<lparr> eng_register := increment32 (eng_register s), eng_keystream := e (eng_register s), eng_used := 0 \<rparr>
    | _ \<Rightarrow> s\<lparr> eng_keystream := e (eng_keystream s), eng_used := 0 \<rparr>)"

fun byte_run :: "(bytes \<Rightarrow> bytes) \<Rightarrow> engine \<Rightarrow> bytes \<Rightarrow> engine \<times> bytes" where
  "byte_run e s [] = (s, [])"
| "byte_run e s (x # xs) =
     (let (s1, r) = stream_byte (if eng_used s = 16 then fresh e s else s) x;
          (s2, rs) = byte_run e s1 xs
      in (s2, r # rs))"

abbreviation stream_mode :: "engine \<Rightarrow> bool" where
  "stream_mode s \<equiv> eng_mode s \<noteq> ECB \<and> eng_mode s \<noteq> CBC"

lemma refill_law:
  assumes "cipher_law c e d" and "blocks_ok s" and "stream_mode s"
  shows "refill c s = (True, if eng_used s = 16 then fresh e s else s)"
  using assms(2,3) encrypt_block [OF assms(1)]
  by (cases "eng_mode s") (simp_all add: refill_def nextKeystream_def fresh_def blocks_ok_def BlockSize_def)

lemma byte_run_append:
  "byte_run e s (xs @ ys) =
     (let (t, rs) = byte_run e s xs; (u, qs) = byte_run e t ys in (u, rs @ qs))"
  by (induction xs arbitrary: s) (simp_all add: Let_def split: prod.splits)

text \<open>While the current keystream lasts, the output is one exclusive or.\<close>

lemma byte_run_within:
  assumes "eng_used s + length b \<le> 16" and "b \<noteq> []" and "length (eng_keystream s) = 16"
  shows "byte_run e s b =
    (let K = eng_keystream s; u = eng_used s; r = xor_bytes b (drop u K)
     in (s\<lparr> eng_used := u + length b,
            eng_keystream := if eng_mode s = CFB
              then take u K @ (if eng_encrypt s then r else b) @ drop (u + length b) K else K \<rparr>, r))"
  using assms
proof (induction b arbitrary: s)
  case (Cons x b)
  define u K where "u = eng_used s" and "K = eng_keystream s"
  have u: "u < 16" "length K = 16" using Cons.prems by (simp_all add: u_def K_def)
  have dr: "drop u K = K ! u # drop (Suc u) K" using u by (simp add: Cons_nth_drop_Suc)
  define v where "v = (if eng_encrypt s then K ! u XOR x else x)"
  define K1 where "K1 = (if eng_mode s = CFB then K[u := v] else K)"
  have sb: "stream_byte s x = (s\<lparr> eng_used := Suc u, eng_keystream := K1 \<rparr>, K ! u XOR x)"
    by (simp add: stream_byte_def Let_def u_def K_def K1_def v_def)
  have K1: "length K1 = 16" "drop (Suc u) K1 = drop (Suc u) K"
    "drop (Suc u + length b) K1 = drop (Suc u + length b) K"
    using u by (simp_all add: K1_def)
  have tk: "take (Suc u) (K[u := w]) = take u K @ [w]" for w
    using u by (simp add: take_Suc_conv_app_nth)
  show ?case
  proof (cases "b = []")
    case True
    have "K[u := v] = take u K @ v # drop (Suc u) K" using u by (simp add: upd_conv_take_nth_drop)
    with True u show ?thesis
      by (simp add: sb K1_def Let_def u_def [symmetric] K_def [symmetric] dr xor.commute v_def)
  next
    case False
    let ?s1 = "s\<lparr> eng_used := Suc u, eng_keystream := K1 \<rparr>"
    have "byte_run e ?s1 b =
      (let r = xor_bytes b (drop (Suc u) K1)
       in (?s1\<lparr> eng_used := Suc u + length b,
            eng_keystream := if eng_mode s = CFB
              then take (Suc u) K1 @ (if eng_encrypt s then r else b) @ drop (Suc u + length b) K1 else K1 \<rparr>, r))"
      using Cons.IH [of ?s1] Cons.prems False K1 unfolding Let_def by (simp add: u_def)
    with u show ?thesis
      by (auto simp: sb Let_def u_def [symmetric] K_def [symmetric] dr xor.commute v_def K1 tk K1_def
          dest: sym)
  qed
qed simp

text \<open>
  After a batch the keystream buffer still holds an older block; it is dead, because the
  next byte starts with a fresh one.
\<close>

definition sim :: "engine \<Rightarrow> engine \<Rightarrow> bool" where
  "sim s t \<longleftrightarrow> s = t \<or>
     (eng_mode s = CTR \<or> eng_mode s = GCM) \<and> eng_used s = 16 \<and> (\<exists>k. t = s\<lparr> eng_keystream := k \<rparr>)"

lemma sim_refl [simp]: "sim s s"
  by (simp add: sim_def)

lemma sim_trans: "sim s t \<Longrightarrow> sim t u \<Longrightarrow> sim s u"
  by (auto simp: sim_def)

lemma byte_run_sim:
  assumes "sim s t" and "byte_run e s xs = (s', r)" and "byte_run e t xs = (t', q)"
  shows "sim s' t' \<and> r = q"
proof (cases xs)
  case Nil
  with assms show ?thesis by simp
next
  case (Cons x ys)
  have "s = t \<or> fresh e s = fresh e t \<and> eng_used s = 16 \<and> eng_used t = 16"
    using assms(1) by (auto simp: sim_def fresh_def)
  with assms(2,3) Cons show ?thesis by (auto split: prod.splits)
qed

text \<open>\<open>n\<close> whole blocks, with the keystream used up before and after.\<close>

abbreviation counter_inc :: "engine \<Rightarrow> bytes \<Rightarrow> bytes" where
  "counter_inc s \<equiv> if eng_mode s = GCM then increment32 else increment128"

lemma byte_run_block:
  assumes "cipher_law c e d" and "blocks_ok s" and "eng_mode s = CTR \<or> eng_mode s = GCM"
    and "eng_used s = 16" and "length b = 16"
  shows "byte_run e s b = (s\<lparr> eng_register := counter_inc s (eng_register s),
    eng_keystream := e (eng_register s) \<rparr>, xor_bytes b (e (eng_register s)))"
proof -
  obtain x y where b: "b = x # y" using assms(5) by (cases b) auto
  have f: "fresh e s = s\<lparr> eng_register := counter_inc s (eng_register s),
      eng_keystream := e (eng_register s), eng_used := 0 \<rparr>"
    using assms(3) by (auto simp: fresh_def)
  have e: "length (e (eng_register s)) = 16"
    using assms(2) cipher_lawD(1) [OF assms(1)] by (simp add: blocks_ok_def)
  have "byte_run e s b = byte_run e (fresh e s) b"
    using assms(4) f by (simp add: b)
  also have "\<dots> = (s\<lparr> eng_register := counter_inc s (eng_register s),
      eng_keystream := e (eng_register s) \<rparr>, xor_bytes b (e (eng_register s)))"
    using assms(3-5) e by (subst byte_run_within) (auto simp: f Let_def b)
  finally show ?thesis .
qed

lemma byte_run_batch:
  assumes "cipher_law c e d" and "blocks_ok s" and "eng_mode s = CTR \<or> eng_mode s = GCM"
    and "eng_used s = 16" and "length xs = n * 16"
    and "counter_batch (counter_inc s) n (eng_register s) = (counters, reg)"
  shows "\<exists>k. byte_run e s xs = (s\<lparr> eng_register := reg, eng_keystream := k \<rparr>,
    xor_bytes xs (concat (map e (chunks_of 16 counters)))) \<and> length k = 16"
  using assms(2-)
proof (induction n arbitrary: s xs counters)
  case 0
  then show ?case by (auto intro!: exI [of _ "eng_keystream s"] simp: blocks_ok_def)
next
  case (Suc n)
  let ?b = "take 16 xs" and ?ys = "drop 16 xs" and ?r = "eng_register s"
  let ?t = "s\<lparr> eng_register := counter_inc s ?r, eng_keystream := e ?r \<rparr>"
  have lr: "length ?r = 16" using Suc.prems(1) by (simp add: blocks_ok_def)
  have le: "length (e ?r) = 16" using cipher_lawD(1) [OF assms(1) lr] .
  obtain cs where cs: "counter_batch (counter_inc s) n (counter_inc s ?r) = (cs, reg)"
    and co: "counters = ?r @ cs" using Suc.prems(5) by (auto simp: Let_def split: prod.splits)
  have "blocks_ok ?t" using Suc.prems(1) le by (simp add: blocks_ok_def)
  with Suc.IH [of ?t ?ys cs] Suc.prems cs obtain k
    where k: "byte_run e ?t ?ys = (?t\<lparr> eng_register := reg, eng_keystream := k \<rparr>,
      xor_bytes ?ys (concat (map e (chunks_of 16 cs))))" "length k = 16"
    by (auto split: if_splits)
  have "byte_run e s (?b @ ?ys) =
      (s\<lparr> eng_register := reg, eng_keystream := k \<rparr>,
       xor_bytes ?b (e ?r) @ xor_bytes ?ys (concat (map e (chunks_of 16 cs))))"
    using byte_run_block [OF assms(1) Suc.prems(1-3), of ?b] Suc.prems(4) k(1)
    unfolding byte_run_append by simp
  moreover have "xor_bytes ?b (e ?r) @ xor_bytes ?ys (concat (map e (chunks_of 16 cs))) =
      xor_bytes (?b @ ?ys) (concat (map e (chunks_of 16 counters)))"
    using le lr Suc.prems(4) by (simp add: co chunks_of_block xor_bytes_append del: append_take_drop_id)
  ultimately show ?case using k(2) by auto
qed

text \<open>The loop of the code, batches included, computes what the byte-wise run does.\<close>

lemma stream_loop_byte_run:
  assumes "cipher_law c e d" and "blocks_ok s" and "cipher_wf c" and "stream_mode s"
    and "byte_run e s xs = (t, r)"
  shows "\<exists>s'. stream_loop c s xs = (True, s', r) \<and> sim s' t"
  using assms(2,4,5)
proof (induction "length xs" arbitrary: s xs t r rule: less_induct)
  case less
  show ?case
  proof (cases xs)
    case Nil
    with less.prems show ?thesis by (simp add: stream_loop.simps(1))
  next
    case (Cons y ys)
    show ?thesis
    proof (cases "batched s xs")
      case True
      define n where "n = min 64 (length xs div BlockSize)"
      obtain counters reg where b: "counter_batch (counter_inc s) n (eng_register s) = (counters, reg)"
        by fastforce
      have "length counters = n * length (eng_register s) \<and> length reg = length (eng_register s)"
        by (rule length_counter_batch [OF _ b]) simp
      then have l: "length counters = n * 16" "length reg = 16"
        using less.prems(1) by (simp_all add: blocks_ok_def)
      have n: "0 < n" "n * 16 \<le> length xs"
        using True by (auto simp: n_def BlockSize_def div_greater_zero_iff min_def less_eq_div_iff_mult_less_eq)
      let ?s = "s\<lparr> eng_register := reg \<rparr>"
      have m: "eng_mode s = CTR \<or> eng_mode s = GCM" "eng_used s = 16" using True by (auto simp: BlockSize_def)
      obtain k where k: "byte_run e s (take (n * 16) xs) = (s\<lparr> eng_register := reg, eng_keystream := k \<rparr>,
          xor_bytes (take (n * 16) xs) (concat (map e (chunks_of 16 counters))))"
        using byte_run_batch [OF assms(1) less.prems(1) m _ b, of "take (n * 16) xs"] n by auto
      obtain t1 r1 where r1: "byte_run e ?s (drop (n * 16) xs) = (t1, r1)" by fastforce
      obtain t2 r2 where r2: "byte_run e (s\<lparr> eng_register := reg, eng_keystream := k \<rparr>) (drop (n * 16) xs) = (t2, r2)"
        by fastforce
      have "sim ?s (s\<lparr> eng_register := reg, eng_keystream := k \<rparr>)"
        using m by (auto simp: sim_def)
      from byte_run_sim [OF this r1 r2] have q: "sim t1 t2" "r1 = r2" by auto
      have "byte_run e s (take (n * 16) xs @ drop (n * 16) xs) = (t, r)" using less.prems by simp
      then have tr: "t = t2" "r = xor_bytes (take (n * 16) xs) (concat (map e (chunks_of 16 counters))) @ r2"
        unfolding byte_run_append k using r2 by simp_all
      have "blocks_ok ?s" "stream_mode ?s" using less.prems l by (auto simp: blocks_ok_def)
      moreover have "length (drop (n * 16) xs) < length xs" using n by simp
      ultimately obtain s' where s': "stream_loop c ?s (drop (n * 16) xs) = (True, s', r1)" "sim s' t1"
        using less.hyps [OF _ _ _ r1] by blast
      have "bc_encrypt c counters = (True, concat (map e (chunks_of 16 counters)))"
        using cipher_lawD(4) [OF assms(1), of counters] l by simp
      then have "stream_loop c s xs = (True, s', r)"
        using stream_loop_batch [OF True b [unfolded n_def], of c] s' tr q
        by (simp add: n_def BlockSize_def)
      with s' tr q show ?thesis by (auto intro: sim_trans)
    next
      case False
      let ?f = "if eng_used s = 16 then fresh e s else s"
      have rf: "refill c s = (True, ?f)" using refill_law [OF assms(1)] less.prems by simp
      obtain s2 v where v: "stream_byte ?f y = (s2, v)" by fastforce
      obtain t' r' where r': "byte_run e s2 ys = (t', r')" by fastforce
      have tr: "t = t'" "r = v # r'" using less.prems(3) Cons v r' by auto
      have "safe_step c s s2"
        using safe_refill [OF rf] safe_stream_byte [OF v, of c] by (auto intro: safe_step_trans)
      then have "blocks_ok s2" "stream_mode s2"
        using less.prems(1,2) assms(3) by (auto simp: safe_step_def keeps_def)
      from less.hyps [OF _ this r'] Cons obtain s' where "stream_loop c s2 ys = (True, s', r')" "sim s' t'"
        by auto
      with stream_loop_byte [OF False [unfolded Cons] rf] v tr Cons show ?thesis by auto
    qed
  qed
qed

section \<open>The modes of SP 800-38A\<close>

text \<open>
  Block by block: the output is the input exclusive or the encrypted state, and the next
  state is the next counter (CTR, and the counter of GCM), the encrypted state (OFB) or
  the block of ciphertext (CFB).  The last block may be short.
\<close>

definition next_state :: "(bytes \<Rightarrow> bytes) \<Rightarrow> CipherMode \<Rightarrow> bool \<Rightarrow> bytes \<Rightarrow> bytes \<Rightarrow> bytes \<Rightarrow> bytes" where
  "next_state e mode encrypt v inp out = (case mode of
      CTR \<Rightarrow> increment128 v | GCM \<Rightarrow> increment32 v | OFB \<Rightarrow> e v | _ \<Rightarrow> if encrypt then out else inp)"

function stream_spec :: "(bytes \<Rightarrow> bytes) \<Rightarrow> CipherMode \<Rightarrow> bool \<Rightarrow> bytes \<Rightarrow> bytes \<Rightarrow> bytes" where
  "stream_spec e mode encrypt v m =
     (if m = [] then []
      else let out = xor_bytes (take 16 m) (e v)
           in out @ stream_spec e mode encrypt (next_state e mode encrypt v (take 16 m) out) (drop 16 m))"
  by pat_completeness auto
termination
  by (relation "measure (\<lambda>(e, mode, encrypt, v, m). length m)") auto

declare stream_spec.simps [simp del]

lemma stream_spec_Nil [simp]: "stream_spec e mode enc v [] = []"
  by (simp add: stream_spec.simps)

definition state_of :: "engine \<Rightarrow> bytes" where
  "state_of s = (if eng_mode s = CFB then eng_keystream s else eng_register s)"

lemma byte_run_spec:
  assumes "cipher_law c e d" and "blocks_ok s" and "stream_mode s" and "eng_used s = 16"
  shows "snd (byte_run e s m) = stream_spec e (eng_mode s) (eng_encrypt s) (state_of s) m"
  using assms(2-)
proof (induction "length m" arbitrary: s m rule: less_induct)
  case less
  show ?case
  proof (cases "m = []")
    case True
    then show ?thesis by simp
  next
    case False
    let ?b = "take 16 m" and ?v = "state_of s"
    have lv: "length (e ?v) = 16"
      using less.prems(1) cipher_lawD(1) [OF assms(1)] by (simp add: state_of_def blocks_ok_def)
    define out where "out = xor_bytes ?b (e ?v)"
    define t where "t = fst (byte_run e s ?b)"
    have f: "eng_keystream (fresh e s) = e ?v" "eng_used (fresh e s) = 0" "eng_mode (fresh e s) = eng_mode s"
      "eng_encrypt (fresh e s) = eng_encrypt s"
      using less.prems(2) by (cases "eng_mode s"; simp add: fresh_def state_of_def)+
    have "byte_run e s ?b = byte_run e (fresh e s) ?b"
      using False less.prems(3) f(2) by (cases m) simp_all
    also have "\<dots> = (t, out)"
      using byte_run_within [of "fresh e s" ?b e] False lv f calculation by (simp add: t_def out_def Let_def)
    finally have bt: "byte_run e s ?b = (t, out)" .
    show ?thesis
    proof (cases "length m < 16")
      case True
      then have "?b = m" "drop 16 m = []" by simp_all
      with bt False show ?thesis by (simp add: stream_spec.simps [of _ _ _ _ m] Let_def out_def)
    next
      case long: False
      then have lb: "length ?b = 16" "length out = 16" using lv by (simp_all add: out_def)
      have t: "t = (fresh e s)\<lparr> eng_used := 16, eng_keystream := if eng_mode s = CFB
          then (if eng_encrypt s then out else ?b) else e ?v \<rparr>"
        using byte_run_within [of "fresh e s" ?b e] False lv f lb
          \<open>byte_run e s ?b = byte_run e (fresh e s) ?b\<close>
        by (auto simp: t_def out_def Let_def)
      have "blocks_ok t" using less.prems(1,2) lv lb cipher_lawD(1) [OF assms(1)]
        by (cases "eng_mode s") (simp_all add: t fresh_def blocks_ok_def state_of_def)
      moreover have "state_of t = next_state e (eng_mode s) (eng_encrypt s) ?v ?b out"
        using less.prems(2) by (cases "eng_mode s") (simp_all add: t fresh_def state_of_def next_state_def)
      moreover have "eng_mode t = eng_mode s" "eng_encrypt t = eng_encrypt s" "eng_used t = 16"
        using f by (simp_all add: t)
      ultimately have "snd (byte_run e t (drop 16 m)) =
          stream_spec e (eng_mode s) (eng_encrypt s) (next_state e (eng_mode s) (eng_encrypt s) ?v ?b out) (drop 16 m)"
        using less.hyps [of "drop 16 m" t] less.prems(2) long by simp
      moreover have "snd (byte_run e s (?b @ drop 16 m)) = out @ snd (byte_run e t (drop 16 m))"
        unfolding byte_run_append bt by (simp split: prod.split)
      ultimately show ?thesis
        using False by (simp add: stream_spec.simps [of _ _ _ _ m] Let_def out_def)
    qed
  qed
qed

text \<open>Decryption inverts encryption: both run through the same states.\<close>

lemma stream_spec_inverse:
  assumes "\<And>b. length b = 16 \<Longrightarrow> length (e b) = 16" and "length v = 16"
  shows "stream_spec e mode False v (stream_spec e mode True v m) = m"
  using assms(2)
proof (induction "length m" arbitrary: v m rule: less_induct)
  case less
  show ?case
  proof (cases "m = []")
    case False
    let ?b = "take 16 m" and ?c = "xor_bytes (take 16 m) (e v)"
    let ?w = "next_state e mode True v ?b ?c"
    have l: "length (e v) = 16" using assms(1) less.prems .
    have c: "length ?c = length ?b" "xor_bytes ?c (e v) = ?b"
      using l by (simp_all add: xor_bytes_involutive)
    have s: "stream_spec e mode True v m = ?c @ stream_spec e mode True ?w (drop 16 m)"
      using False by (simp add: stream_spec.simps [of _ _ _ v m] Let_def)
    have ne: "?c @ x \<noteq> []" for x using False l by (cases "e v"; cases m) auto
    show ?thesis
    proof (cases "length m < 16")
      case True
      then have "drop 16 m = []" "?b = m" by simp_all
      with s c ne [of "[]"] True show ?thesis
        by (simp add: stream_spec.simps [of _ _ _ v "xor_bytes m (e v)"] Let_def)
    next
      case long: False
      then have w: "length ?w = 16" "next_state e mode False v ?c ?b = ?w" 
        using less.prems assms(1) l by (cases mode; simp add: next_state_def)+
      have "stream_spec e mode False ?w (stream_spec e mode True ?w (drop 16 m)) = drop 16 m"
        using less.hyps [of "drop 16 m" ?w] long w(1) by simp
      with s c w ne [of "[]"] long l show ?thesis
        by (simp add: stream_spec.simps [of _ _ _ v "?c @ _"] Let_def)
    qed
  qed simp
qed

section \<open>Whole messages\<close>

text \<open>One call of \<^verbatim>\<open>update\<close> the way the cipher context calls it, with a fresh output buffer.\<close>

definition engine_step :: "engine \<Rightarrow> bytes \<Rightarrow> (engine \<times> bytes) option" where
  "engine_step s x =
     (case update s (Buffer x) [] of (ok, s', out) \<Rightarrow> if ok then Some (s', out) else None)"

abbreviation small :: "bytes \<Rightarrow> bool" where
  "small x \<equiv> length x \<le> 2147483647"

lemma small_room: "small x \<Longrightarrow> \<not> room 0 < word_of_nat (length x)"
  by (simp add: room_def word_less_nat_alt unat_of_nat)

lemma engine_step_impl:
  assumes "eng_valid s" and "eng_cipher s = Some c" and "small x"
    and "updateImpl c s x [] = (True, s', out)"
  shows "engine_step s x = Some (s', out)"
  using assms small_room [OF assms(3)] by (simp add: engine_step_def update_def)

text \<open>A property of the state that every admissible step keeps holds after all chunks.\<close>

lemma run_filter_rep:
  assumes "\<And>s m out x. R s m out \<Longrightarrow> adm x \<Longrightarrow>
      \<exists>s' y. upd s x = Some (s', y) \<and> R s' (m @ x) (out @ y)"
    and "R s m out" and "\<forall>x \<in> set xs. adm x"
  shows "\<exists>s' y. run_filter upd s xs = Some (s', y) \<and> R s' (m @ concat xs) (out @ y)"
  using assms(2,3)
proof (induction xs arbitrary: s m out)
  case (Cons x xs)
  then obtain s' y where u: "upd s x = Some (s', y)" and r: "R s' (m @ x) (out @ y)"
    using assms(1) [of s m out x] by auto
  from Cons.IH [OF r] Cons.prems obtain s'' z
    where "run_filter upd s' xs = Some (s'', z)"
      and "R s'' ((m @ x) @ concat xs) ((out @ y) @ z)" by auto
  with u show ?case by auto
qed simp

text \<open>The state after the message \<open>m\<close> has been streamed from the state \<open>s0\<close>.\<close>

definition streamed :: "block_cipher \<Rightarrow> (bytes \<Rightarrow> bytes) \<Rightarrow> engine \<Rightarrow> engine \<Rightarrow> bytes \<Rightarrow> bytes \<Rightarrow> bool" where
  "streamed c e s0 s m out \<longleftrightarrow> keeps s0 s \<and> blocks_ok s \<and>
     (\<exists>t. byte_run e s0 m = (t, out) \<and> sim s t)"

lemma streamed_stream:
  assumes "cipher_law c e d" and "cipher_wf c" and "stream_mode s0" and "streamed c e s0 s m out"
  shows "\<exists>s' y. stream c s x w = (True, s', w @ y) \<and> streamed c e s0 s' (m @ x) (out @ y)"
proof -
  from assms(4) obtain t where k: "keeps s0 s" "blocks_ok s" and t: "byte_run e s0 m = (t, out)" "sim s t"
    by (auto simp: streamed_def)
  obtain s1 y where y: "byte_run e s x = (s1, y)" by fastforce
  obtain t1 z where z: "byte_run e t x = (t1, z)" by fastforce
  from byte_run_sim [OF t(2) y z] have q: "sim s1 t1" "y = z" by auto
  have "stream_mode s" using k(1) assms(3) by (auto simp: keeps_def)
  from stream_loop_byte_run [OF assms(1) k(2) assms(2) this y] obtain s'
    where s': "stream_loop c s x = (True, s', y)" "sim s' s1" by auto
  have "safe_step c s s'" by (rule safe_stream_loop [OF s'(1)])
  then have "keeps s0 s'" "blocks_ok s'" using k assms(2) by (auto simp: safe_step_def keeps_def)
  moreover have "byte_run e s0 (m @ x) = (t1, out @ y)" using t z q by (simp add: byte_run_append)
  ultimately have "streamed c e s0 s' (m @ x) (out @ y)"
    using sim_trans [OF s'(2) q(1)] by (auto simp: streamed_def)
  with s' show ?thesis by (auto simp: stream_def)
qed

lemma streamed_start: "blocks_ok s \<Longrightarrow> streamed c e s s [] []"
  by (simp add: streamed_def keeps_def)

lemma streamed_out:
  assumes "cipher_law c e d" and "blocks_ok s0" and "stream_mode s0" and "eng_used s0 = 16"
    and "streamed c e s0 s m out"
  shows "out = stream_spec e (eng_mode s0) (eng_encrypt s0) (state_of s0) m"
  using byte_run_spec [OF assms(1-4), of m] assms(5) by (auto simp: streamed_def)

text \<open>The engine of a pure stream mode right after construction.\<close>

lemma new_stream_engine:
  fixes c :: block_cipher and enc :: bool and tag :: bytes
  assumes "mode = CFB \<or> mode = OFB \<or> mode = CTR" and "length iv = 16"
  defines "s \<equiv> new_engine mode False enc (Some c) iv tag"
  shows "eng_valid s" and "eng_cipher s = Some c" and "eng_mode s = mode" and "eng_encrypt s = enc"
    and "state_of s = iv" and "eng_used s = 16" and "blocks_ok s"
  using assms
  by (auto simp: new_engine_def engine_blank_def state_of_def blocks_ok_def BlockSize_def)

lemma stream_run:
  assumes "cipher_law c e d" and "cipher_wf c" and "mode = CFB \<or> mode = OFB \<or> mode = CTR"
    and "length iv = 16" and "\<forall>x \<in> set chunks. length x \<le> 2147483647"
  shows "\<exists>s. run_filter engine_step (new_engine mode False encrypt (Some c) iv tag) chunks =
      Some (s, stream_spec e mode encrypt iv (concat chunks))
    \<and> (\<exists>s'. final s [] = (True, s', []))"
proof -
  define s0 where "s0 = new_engine mode False encrypt (Some c) iv tag"
  note new = new_stream_engine [OF assms(3,4), of encrypt c tag, folded s0_def]
  have sm: "stream_mode s0" using new(3) assms(3) by auto
  have "\<exists>s' y. engine_step s x = Some (s', y) \<and> streamed c e s0 s' (m @ x) (out @ y)"
    if r: "streamed c e s0 s m out" and x: "length x \<le> 2147483647" for s m out x
  proof -
    have k: "eng_valid s" "eng_cipher s = Some c" "eng_mode s = mode"
      using r new by (auto simp: streamed_def keeps_def)
    obtain s' y where u: "stream c s x [] = (True, s', y)" "streamed c e s0 s' (m @ x) (out @ y)"
      using streamed_stream [OF assms(1,2) sm r, of x "[]"] by auto
    have "updateImpl c s x [] = (True, s', y) \<or> x = [] \<and> updateImpl c s x [] = (True, s, []) "
      using u k assms(3) by (auto simp: updateImpl_def)
    then show ?thesis
      using engine_step_impl [OF k(1,2) x] u r by (metis append_Nil2)
  qed
  from run_filter_rep [of "streamed c e s0" small engine_step, OF this streamed_start [OF new(7)] assms(5)]
  obtain s y where s: "run_filter engine_step s0 chunks = Some (s, y)" "streamed c e s0 s (concat chunks) y"
    by auto
  have "y = stream_spec e mode encrypt iv (concat chunks)"
    using streamed_out [OF assms(1) new(7) sm new(6) s(2)] new by simp
  moreover have "\<exists>s'. final s [] = (True, s', [])"
    using s(2) new assms(3) by (auto simp: final_def finalImpl_def streamed_def keeps_def)
  ultimately show ?thesis using s(1) by (simp add: s0_def)
qed

text \<open>
  C18. Stream modes.  However the input is cut into chunks (of at most \<open>INT_MAX\<close> bytes), an
  engine in CFB, OFB or CTR mode accepts every chunk, its outputs put together are the
  mode of SP 800-38A on the whole message, and \<^verbatim>\<open>final\<close> succeeds and adds nothing.  The
  batching of up to 64 counters per cipher call and the partly used keystream between
  calls are not observable.
\<close>

theorem stream_modes_correct:
  assumes "cipher_law c e d" and "cipher_wf c" and "mode = CFB \<or> mode = OFB \<or> mode = CTR"
    and "length iv = 16" and "\<forall>x \<in> set chunks. length x \<le> 2147483647"
  shows "\<exists>s. run_filter engine_step (new_engine mode False encrypt (Some c) iv tag) chunks =
      Some (s, stream_spec e mode encrypt iv (concat chunks))
    \<and> (\<exists>s'. final s [] = (True, s', []))"
  by (rule stream_run [OF assms])

text \<open>The byte-inverting cipher of the witnesses satisfies the law.\<close>

lemma concat_map_chunks:
  "16 dvd length b \<Longrightarrow> concat (map (map f) (chunks_of 16 b)) = map f (b :: bytes)"
  by (simp add: concat_chunks_of_exact mod_eq_0_iff_dvd flip: map_concat)

lemma not_cipher_law: "cipher_law not_cipher (map (\<lambda>x. NOT x)) (map (\<lambda>x. NOT x))"
  by (simp add: cipher_law_def not_cipher_def o_def concat_map_chunks)

theorem stream_modes_correct_witness:
  "\<exists>s. run_filter engine_step (new_engine CTR False True (Some not_cipher) zero_block []) [[1, 2], [3]] =
      Some (s, stream_spec (map (\<lambda>x. NOT x)) CTR True zero_block [1, 2, 3])"
  using stream_modes_correct [OF not_cipher_law not_cipher_wf,
      of CTR zero_block "[[1, 2], [3]]" True "[]"] by auto

end
