(* ===== verification/ModeBlocks.thy ===== *)
theory ModeBlocks
  imports ModeStream
begin

text \<open>
  The block modes ECB and CBC of \<open>ModeEngine\<close>, with and without PKCS #7 padding, against
  the definitions of NIST SP 800-38A and RFC 5652 on whole messages.  The code keeps a
  partial block between calls, and the last whole block while decrypting padded data.
\<close>

section \<open>Reference definitions\<close>

fun crypt_blocks :: "(bytes \<Rightarrow> bytes) \<Rightarrow> (bytes \<Rightarrow> bytes) \<Rightarrow> CipherMode \<Rightarrow> bool \<Rightarrow> bytes \<Rightarrow>
    bytes list \<Rightarrow> bytes list" where
  "crypt_blocks e d mode enc v [] = []"
| "crypt_blocks e d mode enc v (b # bs) =
     (if mode = ECB then (if enc then e b else d b) # crypt_blocks e d mode enc v bs
      else if enc then e (xorBlock b v) # crypt_blocks e d mode enc (e (xorBlock b v)) bs
      else xorBlock (d b) v # crypt_blocks e d mode enc b bs)"

text \<open>The chaining value after the blocks.\<close>

fun chain :: "(bytes \<Rightarrow> bytes) \<Rightarrow> CipherMode \<Rightarrow> bool \<Rightarrow> bytes \<Rightarrow> bytes list \<Rightarrow> bytes" where
  "chain e mode enc v [] = v"
| "chain e mode enc v (b # bs) =
     chain e mode enc (if mode = ECB then v else if enc then e (xorBlock b v) else b) bs"

definition pkcs7_pad :: "bytes \<Rightarrow> bytes" where
  "pkcs7_pad m = (let p = 16 - length m mod 16 in m @ replicate p (word_of_nat p))"

definition pkcs7_unpad :: "bytes \<Rightarrow> bytes option" where
  "pkcs7_unpad m =
     (let p = unat (last m) in
      if m = [] \<or> length m mod 16 \<noteq> 0 \<or> p = 0 \<or> 16 < p \<or>
         drop (length m - p) m \<noteq> replicate p (last m)
      then None else Some (take (length m - p) m))"

definition block_ref :: "(bytes \<Rightarrow> bytes) \<Rightarrow> (bytes \<Rightarrow> bytes) \<Rightarrow> CipherMode \<Rightarrow> bool \<Rightarrow> bool \<Rightarrow> bytes \<Rightarrow>
    bytes \<Rightarrow> bytes option" where
  "block_ref e d mode pkcs7 enc v m =
     (let m' = (if enc \<and> pkcs7 then pkcs7_pad m else m);
          r = concat (crypt_blocks e d mode enc v (chunks_of 16 m'))
      in if length m' mod 16 \<noteq> 0 then None
         else if \<not> enc \<and> pkcs7 then pkcs7_unpad r else Some r)"

lemma crypt_append:
  "crypt_blocks e d mode enc v (as @ bs) =
   crypt_blocks e d mode enc v as @ crypt_blocks e d mode enc (chain e mode enc v as) bs"
  "chain e mode enc v (as @ bs) = chain e mode enc (chain e mode enc v as) bs"
  by (induction as arbitrary: v) auto

lemma chunks_ecb:
  "crypt_blocks e d ECB enc v bs = map (if enc then e else d) bs"
  "chain e ECB enc v bs = v"
  by (induction bs arbitrary: v) auto

lemma encryptCbc_law:
  assumes "cipher_law c e d" and "\<forall>b \<in> set bs. length b = 16"
  shows "encryptCbc (bc_encrypt c) bs v =
    (True, concat (crypt_blocks e d CBC True v bs), chain e CBC True v bs)"
  using assms(2)
  by (induction bs arbitrary: v) (simp_all add: encrypt_block [OF assms(1)])

lemma cbc_decrypt_law:
  "concat (map2 xorBlock (map d bs) (v # bs)) = concat (crypt_blocks e d CBC False v bs)"
  "chain e CBC False v bs = (if bs = [] then v else last bs)"
  by (induction bs arbitrary: v) auto

lemma concat_last_chunk:
  assumes "16 dvd length inp" and "inp \<noteq> []"
  shows "last (chunks_of 16 inp) = drop (length inp - 16) inp" and "chunks_of 16 inp \<noteq> []"
proof -
  let ?k = "length inp - 16"
  from assms have l: "16 \<le> length inp" by (simp add: dvd_imp_le)
  have "16 dvd ?k" using assms(1) l by (simp add: dvd_minus_self)
  then have "chunks_of 16 (take ?k inp @ drop ?k inp) = chunks_of 16 (take ?k inp) @ chunks_of 16 (drop ?k inp)"
    using l assms(1) by (intro chunks_of_append) (simp_all add: min_def mod_eq_0_iff_dvd)
  then have "chunks_of 16 inp = chunks_of 16 (take ?k inp) @ [drop ?k inp]"
    using l by (simp add: chunks_of_one)
  then show "last (chunks_of 16 inp) = drop ?k inp" "chunks_of 16 inp \<noteq> []" by simp_all
qed

lemma chunks_of_map_concat:
  assumes "\<And>b. length b = 16 \<Longrightarrow> length (f b) = 16" and "\<forall>b \<in> set bs. length b = 16"
  shows "chunks_of 16 (concat (map f bs)) = map f bs"
  using assms(2) by (induction bs) (simp_all add: chunks_of_block assms(1))

abbreviation block_mode :: "engine \<Rightarrow> bool" where
  "block_mode s \<equiv> eng_mode s = ECB \<or> eng_mode s = CBC"

lemma processBlocks_law:
  assumes "cipher_law c e d" and "blocks_ok s" and "block_mode s"
    and "16 dvd length inp" and "inp \<noteq> []"
  shows "processBlocks c s inp out =
    (True, s\<lparr> eng_register := chain e (eng_mode s) (eng_encrypt s) (eng_register s) (chunks_of 16 inp) \<rparr>,
     out @ concat (crypt_blocks e d (eng_mode s) (eng_encrypt s) (eng_register s) (chunks_of 16 inp)))"
proof -
  have ch: "\<forall>b \<in> set (chunks_of 16 inp). length b = 16" using chunks_of_length by blast
  have lr: "length (eng_register s) = 16" using assms(2) by (simp add: blocks_ok_def)
  note E = cipher_lawD(4) [OF assms(1,4)] and D = cipher_lawD(5) [OF assms(1,4)]
  show ?thesis
  proof (cases "eng_mode s = ECB")
    case True
    then show ?thesis
      using E D by (simp add: processBlocks_def chunks_ecb)
  next
    case False
    with assms(3) have cbc: "eng_mode s = CBC" by simp
    show ?thesis
    proof (cases "eng_encrypt s")
      case True
      with cbc show ?thesis
        using cipher_lawD(6) [OF assms(1,4) lr] encryptCbc_law [OF assms(1) ch]
        by (simp add: processBlocks_def)
    next
      case dec: False
      have "chunks_of 16 (concat (map d (chunks_of 16 inp))) = map d (chunks_of 16 inp)"
        using cipher_lawD(2) [OF assms(1)] ch by (rule chunks_of_map_concat)
      then show ?thesis
        using dec cbc D concat_last_chunk [OF assms(4,5)]
        by (simp add: processBlocks_def BlockSize_def cbc_decrypt_law(1) cbc_decrypt_law(2) [of e])
    qed
  qed
qed

section \<open>Updates\<close>

text \<open>
  What an update does to the pending bytes \<open>w\<close> with the new ones appended: the ready blocks
  are processed and the rest is kept.
\<close>

abbreviation holds :: "engine \<Rightarrow> bool" where
  "holds s \<equiv> \<not> eng_encrypt s \<and> eng_pkcs7 s"

definition absorb_blocks :: "(bytes \<Rightarrow> bytes) \<Rightarrow> (bytes \<Rightarrow> bytes) \<Rightarrow> engine \<Rightarrow> bytes \<Rightarrow> engine \<times> bytes" where
  "absorb_blocks e d s w =
     (let n = ready_blocks (holds s) (length w) * 16; bs = chunks_of 16 (take n w) in
      (s\<lparr> eng_register := chain e (eng_mode s) (eng_encrypt s) (eng_register s) bs,
          eng_pending := drop n w \<rparr>,
       concat (crypt_blocks e d (eng_mode s) (eng_encrypt s) (eng_register s) bs)))"

lemma update_blocks_law:
  assumes "cipher_law c e d" and "blocks_ok s" and "block_mode s" and "eng_pending s = []"
  shows "update_blocks c s inp out =
    (True, fst (absorb_blocks e d s inp), out @ snd (absorb_blocks e d s inp))"
proof -
  let ?n = "ready_blocks (holds s) (length inp) * 16"
  have n: "?n \<le> length inp" using ready_blocks_le [of "holds s" "length inp"] by (simp add: BlockSize_def)
  show ?thesis
  proof (cases "?n = 0")
    case True
    then show ?thesis
      using assms(4) by (simp add: update_blocks_def absorb_blocks_def Let_def BlockSize_def)
  next
    case False
    with n have "take ?n inp \<noteq> []" "16 dvd length (take ?n inp)" by auto
    note p = processBlocks_law [OF assms(1-3) this(2,1), of out]
    show ?thesis
      using False p assms(4)
      by (simp add: update_blocks_def absorb_blocks_def Let_def BlockSize_def)
  qed
qed

lemma ready_blocks_Suc:
  assumes "hold \<Longrightarrow> n \<noteq> 0"
  shows "ready_blocks hold (16 + n) = Suc (ready_blocks hold n)"
  using assms by (auto simp: ready_blocks_def Let_def BlockSize_def)

lemma ready_blocks_0:
  "n < 16 \<Longrightarrow> ready_blocks hold n = 0" "ready_blocks True 16 = 0"
  by (auto simp: ready_blocks_def Let_def BlockSize_def)

lemma update_pending_law:
  assumes "cipher_law c e d" and "blocks_ok s" and "block_mode s" and "pending_ok s"
  shows "update_pending c s inp out =
    (True, fst (absorb_blocks e d s (eng_pending s @ inp)), out @ snd (absorb_blocks e d s (eng_pending s @ inp)))"
proof (cases "eng_pending s = []")
  case True
  with update_blocks_law [OF assms(1-3) True] show ?thesis by (simp add: update_pending_def)
next
  case False
  let ?p = "eng_pending s"
  define tk where "tk = min (length inp) (16 - length ?p)"
  define b where "b = ?p @ take tk inp"
  define i where "i = drop tk inp"
  have w: "?p @ inp = b @ i" by (simp add: b_def i_def)
  have lb: "length b \<le> 16" "length b < 16 \<Longrightarrow> i = []"
    using assms(3,4) by (auto simp: b_def i_def tk_def pending_ok_def split: if_splits)
  have up: "update_pending c s inp out =
      (if length b < 16 \<or> holds s \<and> i = [] then (True, s\<lparr> eng_pending := b \<rparr>, out)
       else let (ok, s2, out') = processBlocks c (s\<lparr> eng_pending := b \<rparr>) b out in
         if \<not> ok then (False, s2, out') else update_blocks c (s2\<lparr> eng_pending := [] \<rparr>) i out')"
    unfolding update_pending_def Let_def if_not_P [OF False] b_def i_def tk_def BlockSize_def
    by simp
  show ?thesis
  proof (cases "length b < 16 \<or> holds s \<and> i = []")
    case True
    then have "ready_blocks (holds s) (length (b @ i)) = 0"
      using lb ready_blocks_0 by (cases "length b = 16") auto
    moreover have "i = []" using True lb by auto
    ultimately show ?thesis
      unfolding up w using True by (simp add: absorb_blocks_def Let_def)
  next
    case go: False
    with lb have b16: "length b = 16" by simp
    define r1 where "r1 = chain e (eng_mode s) (eng_encrypt s) (eng_register s) [b]"
    define y1 where "y1 = concat (crypt_blocks e d (eng_mode s) (eng_encrypt s) (eng_register s) [b])"
    define s2 where "s2 = s\<lparr> eng_register := r1, eng_pending := [] \<rparr>"
    have "length (eng_register s) = 16" using assms(2) by (simp add: blocks_ok_def)
    then have "length r1 = 16" using b16 cipher_lawD(1) [OF assms(1)] by (simp add: r1_def)
    then have ok2: "blocks_ok s2" using assms(2) by (simp add: blocks_ok_def s2_def)
    have pb: "processBlocks c (s\<lparr> eng_pending := b \<rparr>) b out =
        (True, s\<lparr> eng_pending := b, eng_register := r1 \<rparr>, out @ y1)"
    proof -
      have "b \<noteq> []" "blocks_ok (s\<lparr> eng_pending := b \<rparr>)" "16 dvd length b"
        using b16 assms(2) by (auto simp: blocks_ok_def)
      then show ?thesis
        using processBlocks_law [of c e d "s\<lparr> eng_pending := b \<rparr>" b out] assms(1,3)
        unfolding chunks_of_one [OF b16] r1_def y1_def by simp
    qed
    have u: "update_blocks c s2 i out' = (True, fst (absorb_blocks e d s2 i), out' @ snd (absorb_blocks e d s2 i))" for out'
      using assms(3) by (intro update_blocks_law [OF assms(1) ok2]) (auto simp: s2_def)
    define n where "n = ready_blocks (holds s) (length i) * 16"
    have rn: "ready_blocks (holds s) (length (b @ i)) * 16 = 16 + n"
      using ready_blocks_Suc [of "holds s" "length i"] go b16 by (auto simp: n_def)
    have ch: "chunks_of 16 (take (16 + n) (b @ i)) = b # chunks_of 16 (take n i)"
      using b16 by (simp add: chunks_of_block)
    have "chain e (eng_mode s) (eng_encrypt s) (eng_register s) (b # bs) = chain e (eng_mode s) (eng_encrypt s) r1 bs"
      "concat (crypt_blocks e d (eng_mode s) (eng_encrypt s) (eng_register s) (b # bs)) =
       y1 @ concat (crypt_blocks e d (eng_mode s) (eng_encrypt s) r1 bs)" for bs
      by (simp_all add: r1_def y1_def)
    then have ab: "absorb_blocks e d s (b @ i) = (fst (absorb_blocks e d s2 i), y1 @ snd (absorb_blocks e d s2 i))"
      unfolding absorb_blocks_def Let_def rn ch using b16 by (simp add: s2_def n_def)
    have s2: "s\<lparr> eng_pending := b, eng_register := r1 \<rparr>\<lparr> eng_pending := [] \<rparr> = s2"
      by (simp add: s2_def)
    show ?thesis
      unfolding up w if_not_P [OF go] pb ab using s2 u by simp
  qed
qed

text \<open>The state after the message \<open>m\<close>: the blocks done, and the pending rest.\<close>

definition blocked :: "(bytes \<Rightarrow> bytes) \<Rightarrow> (bytes \<Rightarrow> bytes) \<Rightarrow> engine \<Rightarrow> engine \<Rightarrow> bytes \<Rightarrow> bytes \<Rightarrow> bool" where
  "blocked e d s0 s m out \<longleftrightarrow>
     (\<exists>w. m = w @ eng_pending s \<and> 16 dvd length w
        \<and> out = concat (crypt_blocks e d (eng_mode s0) (eng_encrypt s0) (eng_register s0) (chunks_of 16 w))
        \<and> eng_register s = chain e (eng_mode s0) (eng_encrypt s0) (eng_register s0) (chunks_of 16 w))
     \<and> keeps s0 s \<and> blocks_ok s \<and> pending_ok s
     \<and> (holds s \<longrightarrow> m \<noteq> [] \<longrightarrow> eng_pending s \<noteq> [])"

lemma ready_blocks_hold_less: "0 < n \<Longrightarrow> ready_blocks True n * 16 < n"
proof -
  assume "0 < n"
  moreover have "n div 16 * 16 \<le> n" by simp
  moreover have "n div 16 * 16 \<noteq> n" if "n mod 16 \<noteq> 0" using that by (metis mod_mult_self2_is_0)
  moreover have "16 \<le> n" if "n mod 16 = 0" using that \<open>0 < n\<close> by (simp add: dvd_imp_le mod_eq_0_iff_dvd)
  ultimately show ?thesis by (auto simp: ready_blocks_def Let_def BlockSize_def algebra_simps)
qed

lemma blocked_update:
  assumes "cipher_law c e d" and "cipher_wf c" and "block_mode s0" and "blocked e d s0 s m out"
  shows "\<exists>s' y. update_pending c s x [] = (True, s', y) \<and> blocked e d s0 s' (m @ x) (out @ y)"
proof -
  from assms(4) obtain w where w: "m = w @ eng_pending s" "16 dvd length w"
      "out = concat (crypt_blocks e d (eng_mode s0) (eng_encrypt s0) (eng_register s0) (chunks_of 16 w))"
      "eng_register s = chain e (eng_mode s0) (eng_encrypt s0) (eng_register s0) (chunks_of 16 w)"
    and k: "keeps s0 s" "blocks_ok s" "pending_ok s" by (auto simp: blocked_def)
  have bm: "block_mode s" using k(1) assms(3) by (auto simp: keeps_def)
  define v where "v = eng_pending s @ x"
  define n where "n = ready_blocks (holds s) (length v) * 16"
  define s' y where "s' = fst (absorb_blocks e d s v)" and "y = snd (absorb_blocks e d s v)"
  have u: "update_pending c s x [] = (True, s', y)"
    using update_pending_law [OF assms(1) k(2) bm k(3), of x "[]"] by (simp add: s'_def y_def v_def)
  have "safe_step c s s'" by (rule safe_update_pending [OF u])
  then have k': "keeps s0 s'" "blocks_ok s'" "keeps s s'" using k assms(2) by (auto simp: safe_step_def keeps_def)
  have p': "pending_ok s'" by (rule pending_update_pending [OF u k(3) bm])
  have n: "n \<le> length v" using ready_blocks_le [of "holds s" "length v"] by (simp add: n_def BlockSize_def)
  have ch: "chunks_of 16 (w @ take n v) = chunks_of 16 w @ chunks_of 16 (take n v)"
    using w(2) by (intro chunks_of_append) (simp_all add: mod_eq_0_iff_dvd)
  have km: "eng_mode s = eng_mode s0" "eng_encrypt s = eng_encrypt s0" using k(1) by (simp_all add: keeps_def)
  have d: "eng_pending s' = drop n v" "y = concat (crypt_blocks e d (eng_mode s0) (eng_encrypt s0) (eng_register s) (chunks_of 16 (take n v)))"
    "eng_register s' = chain e (eng_mode s0) (eng_encrypt s0) (eng_register s) (chunks_of 16 (take n v))"
    by (simp_all add: s'_def y_def absorb_blocks_def Let_def n_def km)
  have "m @ x = (w @ take n v) @ eng_pending s'" 
  proof -
    have "m @ x = w @ v" by (simp add: w v_def)
    then show ?thesis by (simp add: d)
  qed
  moreover have "16 dvd length (w @ take n v)" 
  proof -
    have "length (take n v) = n" "16 dvd n" using n by (simp_all add: n_def)
    then show ?thesis using w(2) by (simp only: length_append dvd_add)
  qed
  moreover have "out @ y = concat (crypt_blocks e d (eng_mode s0) (eng_encrypt s0) (eng_register s0) (chunks_of 16 (w @ take n v)))"
    "eng_register s' = chain e (eng_mode s0) (eng_encrypt s0) (eng_register s0) (chunks_of 16 (w @ take n v))"
    by (simp_all only: ch crypt_append d w concat_append)
  moreover have "holds s' \<longrightarrow> m @ x \<noteq> [] \<longrightarrow> eng_pending s' \<noteq> []"
  proof (intro impI)
    assume h: "holds s'" and "m @ x \<noteq> []"
    then have "holds s" using k'(3) by (simp add: keeps_def)
    moreover have "v \<noteq> []" using \<open>m @ x \<noteq> []\<close> assms(4) calculation by (auto simp: blocked_def v_def)
    ultimately have "n < length v" using ready_blocks_hold_less [of "length v"] by (simp add: n_def)
    then show "eng_pending s' \<noteq> []" by (simp add: d)
  qed
  ultimately have "blocked e d s0 s' (m @ x) (out @ y)"
    using k' p' by (auto simp: blocked_def)
  with u show ?thesis by blast
qed

section \<open>Padding\<close>

lemma foldl_or_eq_0: "foldl (\<lambda>a i. a OR f i) z xs = (0 :: 'a::len word) \<longleftrightarrow> z = 0 \<and> (\<forall>i \<in> set xs. f i = 0)"
  by (induction xs arbitrary: z) (auto simp: or_eq_0_iff)

lemma ucast_u32_eq_0: "(ucast (b :: byte) :: u32) = 0 \<longleftrightarrow> b = 0"
proof -
  have "unat (ucast b :: u32) = unat b"
    using less_trans [OF byte_less [of b], of "2 ^ 32"] by (simp add: unsigned_ucast_eq take_bit_nat_eq_self)
  then show ?thesis by (metis unat_eq_0 unsigned_0)
qed

lemma byte_xor_eq_0: "(a :: byte) XOR b = 0 \<longleftrightarrow> a = b"
  by (metis xor.assoc xor.right_neutral xor_self_eq)

lemma padding_bad_iff:
  assumes "length block = 16"
  shows "padding_bad block = 0 \<longleftrightarrow>
    (let p = unat (last block) in p \<noteq> 0 \<and> p \<le> 16 \<and> drop (16 - p) block = replicate p (last block))"
proof -
  have l: "last block = block ! 15" using assms by (cases block rule: rev_cases) (auto simp: nth_append)
  define v where "v = block ! 15"
  have "padding_bad block = 0 \<longleftrightarrow> unat v \<noteq> 0 \<and> unat v \<le> 16 \<and> (\<forall>i < 16. i < unat v \<longrightarrow> block ! (15 - i) = v)"
    unfolding padding_bad_def Let_def foldl_or_eq_0
    by (auto simp: BlockSize_def v_def or_eq_0_iff ucast_u32_eq_0 byte_xor_eq_0 unat_eq_0 not_less
        split: if_splits)
  also have "\<dots> \<longleftrightarrow> unat v \<noteq> 0 \<and> unat v \<le> 16 \<and> drop (16 - unat v) block = replicate (unat v) v"
  proof (intro conj_cong refl iffI)
    assume p: "unat v \<le> 16" and a: "\<forall>i < 16. i < unat v \<longrightarrow> block ! (15 - i) = v"
    show "drop (16 - unat v) block = replicate (unat v) v"
    proof (rule nth_equalityI)
      show "length (drop (16 - unat v) block) = length (replicate (unat v) v)" using assms p by simp
      fix i assume "i < length (drop (16 - unat v) block)"
      then have i: "i < unat v" using assms p by simp
      have "block ! (15 - (unat v - 1 - i)) = v" using a [rule_format, of "unat v - 1 - i"] i p by linarith
      moreover have "15 - (unat v - 1 - i) = 16 - unat v + i" using i p by simp
      ultimately show "drop (16 - unat v) block ! i = replicate (unat v) v ! i"
        using i assms p by simp
    qed
  next
    assume p: "unat v \<le> 16" and a: "drop (16 - unat v) block = replicate (unat v) v"
    show "\<forall>i < 16. i < unat v \<longrightarrow> block ! (15 - i) = v"
    proof (intro allI impI)
      fix i assume i: "i < unat v"
      have "drop (16 - unat v) block ! (unat v - 1 - i) = v" using a i by simp
      moreover have "16 - unat v + (unat v - 1 - i) = 15 - i" using i p by simp
      ultimately show "block ! (15 - i) = v" using assms p by simp
    qed
  qed
  finally show ?thesis by (simp add: l v_def Let_def)
qed

text \<open>Only the last block matters for the padding.\<close>

lemma pkcs7_unpad_append:
  assumes "length b = 16" and "16 dvd length w"
  shows "pkcs7_unpad (w @ b) = (if padding_bad b = 0
    then Some (w @ take (16 - unat (last b)) b) else None)"
proof -
  have "b \<noteq> []" using assms(1) by auto
  then have l: "last (w @ b) = last b" by simp
  show ?thesis
  proof (cases "unat (last b) \<le> 16")
    case True
    have m: "length (w @ b) mod 16 = 0" using assms by simp
    have t: "drop (length (w @ b) - unat (last b)) (w @ b) = drop (16 - unat (last b)) b"
      "take (length (w @ b) - unat (last b)) (w @ b) = w @ take (16 - unat (last b)) b"
      using True assms(1) by simp_all
    show ?thesis
      unfolding pkcs7_unpad_def Let_def l t padding_bad_iff [OF assms(1)] using \<open>b \<noteq> []\<close> m True by simp
  next
    case False
    then show ?thesis
      unfolding pkcs7_unpad_def Let_def l padding_bad_iff [OF assms(1)] by simp
  qed
qed

lemma pkcs7_unpad_pad: "pkcs7_unpad (pkcs7_pad m) = Some m"
proof -
  define p where "p = 16 - length m mod 16"
  have p: "0 < p" "p \<le> 16" by (simp_all add: p_def)
  have u: "unat (word_of_nat p :: byte) = p" using p by (simp add: unat_of_nat)
  have "length m + p = (length m div 16 + 1) * 16"
  proof -
    define q r where "q = length m div 16" and "r = length m mod 16"
    then have "length m = q * 16 + r" "r < 16" by simp_all
    then show ?thesis by (simp add: p_def flip: q_def r_def)
  qed
  then have "(length m + p) mod 16 = 0" by (simp only: mod_mult_self2_is_0)
  moreover have "last (m @ replicate p (word_of_nat p :: byte)) = word_of_nat p" using p by simp
  ultimately show ?thesis
    unfolding pkcs7_pad_def pkcs7_unpad_def Let_def p_def [symmetric] using p by (simp add: u)
qed

section \<open>Whole messages\<close>

text \<open>All updates and \<^verbatim>\<open>final\<close>; \<open>None\<close> when one of the calls fails.\<close>

definition engine_run :: "engine \<Rightarrow> bytes list \<Rightarrow> bytes option" where
  "engine_run s chunks =
     (case run_filter engine_step s chunks of None \<Rightarrow> None
      | Some (s', out) \<Rightarrow>
          (case final s' [] of (ok, s'', out') \<Rightarrow> if ok then Some (out @ out') else None))"

lemma final_step:
  assumes "eng_valid s" and "eng_cipher s = Some c"
    and "finalImpl c (s\<lparr> eng_valid := False \<rparr>) [] = (ok, t, out)"
  shows "(case final s [] of (ok, s'', out') \<Rightarrow> if ok then Some (z @ out') else None) =
    (if ok then Some (z @ out) else None)"
  using assms by (simp add: final_def)

lemma crypt_snoc:
  assumes "16 dvd length w" and "length b = 16"
  shows "concat (crypt_blocks e d mode enc v (chunks_of 16 (w @ b))) =
    concat (crypt_blocks e d mode enc v (chunks_of 16 w)) @
    concat (crypt_blocks e d mode enc (chain e mode enc v (chunks_of 16 w)) [b])"
proof -
  have "chunks_of 16 (w @ b) = chunks_of 16 w @ [b]"
    using assms chunks_of_append [of 16 w b] by (simp add: chunks_of_one mod_eq_0_iff_dvd)
  then show ?thesis by (simp only: crypt_append concat_append)
qed

lemma length_crypt:
  assumes "cipher_law c e d" and "length v = 16" and "\<forall>b \<in> set bs. length b = 16"
  shows "length (concat (crypt_blocks e d mode enc v bs)) = 16 * length bs"
  using assms(2,3)
proof (induction bs arbitrary: v)
  case (Cons b bs)
  then show ?case using cipher_lawD(1,2) [OF assms(1)] by auto
qed simp

lemma final_encrypt_law:
  assumes "cipher_law c e d" and "blocks_ok s" and "block_mode s" and "length (eng_pending s) < 16"
  shows "case final_encrypt c s [] of (ok, t, out) \<Rightarrow>
    if eng_pkcs7 s then ok \<and> out = concat (crypt_blocks e d (eng_mode s) (eng_encrypt s) (eng_register s)
      [eng_pending s @ replicate (16 - length (eng_pending s)) (word_of_nat (16 - length (eng_pending s)))])
    else ok = (eng_pending s = []) \<and> out = []"
proof (cases "eng_pkcs7 s")
  case True
  define b where "b = eng_pending s @ replicate (16 - length (eng_pending s)) (word_of_nat (16 - length (eng_pending s)) :: byte)"
  have b: "length b = 16" using assms(4) by (simp add: b_def)
  then have "b \<noteq> []" by auto
  moreover have "blocks_ok (s\<lparr> eng_pending := b \<rparr>)" using assms(2) by (simp add: blocks_ok_def)
  ultimately have "processBlocks c (s\<lparr> eng_pending := b \<rparr>) b [] =
      (True, (s\<lparr> eng_pending := b \<rparr>)\<lparr> eng_register := chain e (eng_mode s) (eng_encrypt s) (eng_register s) [b] \<rparr>,
       concat (crypt_blocks e d (eng_mode s) (eng_encrypt s) (eng_register s) [b]))"
    using processBlocks_law [of c e d "s\<lparr> eng_pending := b \<rparr>" b "[]"] assms(1,3) b
    unfolding chunks_of_one [OF b] by simp
  then show ?thesis
    using True assms(4) b \<open>b \<noteq> []\<close>
    unfolding final_encrypt_def Let_def BlockSize_def mod_less [OF assms(4)] b_def [symmetric]
    by simp
next
  case False
  then show ?thesis
    using assms(4) by (auto simp: final_encrypt_def Let_def BlockSize_def)
qed

lemma final_padded_law:
  assumes "cipher_law c e d" and "blocks_ok s" and "block_mode s" and "\<not> eng_encrypt s"
  defines "r \<equiv> concat (crypt_blocks e d (eng_mode s) False (eng_register s) [eng_pending s])"
  shows "case final_padded c s [] of (ok, t, out) \<Rightarrow>
    ok = (length (eng_pending s) = 16 \<and> padding_bad r = 0) \<and>
    (ok \<longrightarrow> out = take (16 - unat (last r)) r)"
proof (cases "length (eng_pending s) = 16")
  case True
  then have "eng_pending s \<noteq> []" by auto
  then have p: "processBlocks c s (eng_pending s) [] =
      (True, s\<lparr> eng_register := chain e (eng_mode s) False (eng_register s) [eng_pending s] \<rparr>, r)"
    using processBlocks_law [OF assms(1-3), of "eng_pending s" "[]"] True assms(4)
    unfolding chunks_of_one [OF True] r_def by simp
  have lr: "length r = 16"
    using length_crypt [OF assms(1), of "eng_register s" "[eng_pending s]"] True assms(2)
    by (simp add: r_def blocks_ok_def)
  then have "last r = r ! 15" by (cases r rule: rev_cases) (auto simp: nth_append)
  with lr True show ?thesis
    by (simp add: final_padded_def p Let_def BlockSize_def)
next
  case False
  then show ?thesis by (simp add: final_padded_def BlockSize_def)
qed

lemma blocked_final:
  assumes "cipher_law c e d" and "block_mode s0" and "eng_valid s0" and "eng_cipher s0 = Some c"
    and "blocked e d s0 s m out" and "length (eng_register s0) = 16"
  shows "(case final s [] of (ok, s'', out') \<Rightarrow> if ok then Some (out @ out') else None) =
    block_ref e d (eng_mode s0) (eng_pkcs7 s0) (eng_encrypt s0) (eng_register s0) m"
proof -
  let ?p = "eng_pending s" and ?v = "eng_register s0" and ?s = "s\<lparr> eng_valid := False \<rparr>"
  let ?C = "\<lambda>bs. concat (crypt_blocks e d (eng_mode s0) (eng_encrypt s0) ?v bs)"
  from assms(5) obtain w where w: "m = w @ ?p" "16 dvd length w" "out = ?C (chunks_of 16 w)"
      "eng_register s = chain e (eng_mode s0) (eng_encrypt s0) ?v (chunks_of 16 w)"
    and k: "keeps s0 s" "blocks_ok s" "pending_ok s" "holds s \<longrightarrow> m \<noteq> [] \<longrightarrow> ?p \<noteq> []"
    unfolding blocked_def by (elim conjE exE) (rule that)
  have ks: "eng_mode s = eng_mode s0" "eng_pkcs7 s = eng_pkcs7 s0" "eng_encrypt s = eng_encrypt s0"
    "eng_valid s" "eng_cipher s = Some c" using k(1) assms(3,4) by (simp_all add: keeps_def)
  have bs: "blocks_ok ?s" "block_mode ?s" using k(2) ks assms(2) by (auto simp: blocks_ok_def)
  have pl: "length ?p \<le> 16" "\<not> holds s \<Longrightarrow> length ?p < 16"
    using k(3) ks(1) assms(2) by (auto simp: pending_ok_def split: if_splits)
  obtain q where q: "length w = 16 * q" using w(2) by (auto elim: dvdE)
  then have mm: "length m mod 16 = length ?p mod 16" by (simp add: w(1))
  obtain ok t y where f: "finalImpl c ?s [] = (ok, t, y)" by (rule prod_cases3)
  note fin = final_step [OF ks(4,5) f, of out]
  have snoc: "?C (chunks_of 16 (w @ b)) = out @ concat (crypt_blocks e d (eng_mode s0) (eng_encrypt s0) (eng_register s) [b])"
    if "length b = 16" for b
    unfolding w(3,4) by (rule crypt_snoc [OF w(2) that])
  show ?thesis
  proof (cases "eng_encrypt s0")
    case enc: True
    then have "finalImpl c ?s [] = final_encrypt c ?s []"
      using ks bs by (auto simp: finalImpl_def)
    with f have fe: "final_encrypt c ?s [] = (ok, t, y)" by simp
    have "length (eng_pending ?s) < 16" using pl(2) enc ks(3) by simp
    from final_encrypt_law [OF assms(1) bs this, unfolded fe prod.case]
    have r: "if eng_pkcs7 s0 then ok \<and> y = concat (crypt_blocks e d (eng_mode s0) True (eng_register s)
        [?p @ replicate (16 - length ?p) (word_of_nat (16 - length ?p))]) else ok = (?p = []) \<and> y = []"
      using enc ks by simp
    have p16: "length ?p < 16" using pl(2) enc ks(3) by simp
    then have pad: "pkcs7_pad m = w @ (?p @ replicate (16 - length ?p) (word_of_nat (16 - length ?p)))"
      unfolding pkcs7_pad_def Let_def mm by (simp add: w(1))
    have "length (?p @ replicate (16 - length ?p) (word_of_nat (16 - length ?p) :: byte)) = 16" using p16 by simp
    note snoc [OF this]
    moreover have "length (pkcs7_pad m) mod 16 = 0" unfolding pad using p16 q by simp
    ultimately show ?thesis
      unfolding fin block_ref_def Let_def using r enc p16 w(1,3) mm pad
      by (cases "eng_pkcs7 s0") auto
  next
    case dec: False
    show ?thesis
    proof (cases "eng_pkcs7 s0")
      case False
      then have "finalImpl c ?s [] = (?p = [], ?s, [])"
        using dec ks bs by (auto simp: finalImpl_def)
      with f have "ok = (?p = [])" "y = []" by auto
      moreover have "length ?p < 16" using pl(2) False ks by simp
      ultimately show ?thesis
        unfolding fin block_ref_def Let_def using dec False w(1,3) mm by auto
    next
      case True
      define r where "r = concat (crypt_blocks e d (eng_mode s) False (eng_register s) [?p])"
      have "finalImpl c ?s [] = final_padded c ?s []"
        using True dec ks bs by (auto simp: finalImpl_def)
      with f have fp: "final_padded c ?s [] = (ok, t, y)" by simp
      have "\<not> eng_encrypt ?s" using dec ks(3) by simp
      from final_padded_law [OF assms(1) bs this, unfolded fp prod.case]
      have oy: "ok = (length ?p = 16 \<and> padding_bad r = 0)" "ok \<Longrightarrow> y = take (16 - unat (last r)) r"
        by (simp_all add: r_def)
      show ?thesis
      proof (cases "length ?p = 16")
        case p16: True
        have lr: "length r = 16"
          using length_crypt [OF assms(1), of "eng_register s" "[?p]"] p16 k(2) by (simp add: r_def blocks_ok_def)
        have "\<forall>b \<in> set (chunks_of 16 w). length b = 16" using chunks_of_length by blast
        then have "16 dvd length out"
          using length_crypt [OF assms(1,6), of "chunks_of 16 w" "eng_mode s0" "eng_encrypt s0"] by (simp add: w(3))
        note up = pkcs7_unpad_append [OF lr this]
        have "?C (chunks_of 16 m) = out @ r" unfolding w(1) snoc [OF p16] by (simp add: r_def ks dec)
        then show ?thesis
          unfolding fin block_ref_def Let_def using dec True oy p16 mm up by auto
      next
        case p: False
        have "pkcs7_unpad [] = None" by (simp add: pkcs7_unpad_def)
        moreover have "m = []" if "length ?p mod 16 = 0"
          using that p pl(1) k(4) dec True ks by (cases "length ?p < 16") auto
        ultimately show ?thesis
          unfolding fin block_ref_def Let_def using dec True oy p mm by auto
      qed
    qed
  qed
qed

lemma new_block_engine:
  fixes c :: block_cipher and enc pkcs7 :: bool and tag :: bytes
  assumes "mode = ECB \<or> mode = CBC" and "mode = CBC \<Longrightarrow> length iv = 16"
  defines "s \<equiv> new_engine mode pkcs7 enc (Some c) iv tag"
  shows "eng_valid s" and "eng_cipher s = Some c" and "eng_mode s = mode" and "eng_encrypt s = enc"
    and "eng_pkcs7 s = pkcs7" and "eng_register s = (if mode = ECB then zero_block else iv)"
    and "blocks_ok s" and "pending_ok s" and "eng_pending s = []"
  using assms
  by (auto simp: new_engine_def engine_blank_def blocks_ok_def pending_ok_def BlockSize_def)

lemma engine_run_blocks:
  assumes "cipher_law c e d" and "cipher_wf c" and "mode = ECB \<or> mode = CBC"
    and "mode = CBC \<Longrightarrow> length iv = 16" and "\<forall>x \<in> set chunks. small x"
  shows "engine_run (new_engine mode pkcs7 encrypt (Some c) iv tag) chunks =
    block_ref e d mode pkcs7 encrypt (if mode = ECB then zero_block else iv) (concat chunks)"
proof -
  define s0 where "s0 = new_engine mode pkcs7 encrypt (Some c) iv tag"
  note new = new_block_engine [OF assms(3,4), of pkcs7 encrypt c tag, folded s0_def]
  have bm: "block_mode s0" using new(3) assms(3) by auto
  have step: "\<exists>s' y. engine_step s x = Some (s', y) \<and> blocked e d s0 s' (m @ x) (out @ y)"
    if r: "blocked e d s0 s m out" and x: "small x" for s m out x
  proof -
    have k: "eng_valid s" "eng_cipher s = Some c" "eng_mode s = mode"
      using r new by (auto simp: blocked_def keeps_def)
    obtain s' y where u: "update_pending c s x [] = (True, s', y)" "blocked e d s0 s' (m @ x) (out @ y)"
      using blocked_update [OF assms(1,2) bm r, of x] by auto
    have "updateImpl c s x [] = (True, s', y) \<or> x = [] \<and> updateImpl c s x [] = (True, s, [])"
      using u k assms(3) by (auto simp: updateImpl_def)
    then show ?thesis
      using engine_step_impl [OF k(1,2) x] u r by (metis append_Nil2)
  qed
  have start: "blocked e d s0 s0 [] []" using new by (simp add: blocked_def keeps_def)
  from run_filter_rep [of "blocked e d s0" small engine_step, OF step start assms(5)] obtain s y
    where s: "run_filter engine_step s0 chunks = Some (s, y)" "blocked e d s0 s (concat chunks) y"
    by auto
  have "length (eng_register s0) = 16" using new(7) by (simp add: blocks_ok_def)
  from blocked_final [OF assms(1) bm new(1,2) s(2) this] s(1) new show ?thesis
    by (simp add: engine_run_def s0_def [symmetric])
qed

lemma engine_run_stream:
  assumes "cipher_law c e d" and "cipher_wf c" and "mode = CFB \<or> mode = OFB \<or> mode = CTR"
    and "length iv = 16" and "\<forall>x \<in> set chunks. small x"
  shows "engine_run (new_engine mode False encrypt (Some c) iv tag) chunks =
    Some (stream_spec e mode encrypt iv (concat chunks))"
  using stream_run [OF assms, of encrypt tag] by (auto simp: engine_run_def)

text \<open>
  C19. Block modes.  However the input is cut into chunks, an engine in ECB or CBC mode
  computes the mode of SP 800-38A on the whole message, with PKCS #7 padding where asked:
  encryption without padding fails exactly on messages that are not whole blocks,
  decryption fails exactly when the ciphertext is not whole blocks or the padding of the
  last plaintext block is wrong, and otherwise the outputs of all calls together are the
  result.
\<close>

theorem block_modes_correct:
  assumes "cipher_law c e d" and "cipher_wf c" and "mode = ECB \<or> mode = CBC"
    and "mode = CBC \<Longrightarrow> length iv = 16" and "\<forall>x \<in> set chunks. length x \<le> 2147483647"
  shows "engine_run (new_engine mode pkcs7 encrypt (Some c) iv tag) chunks =
    block_ref e d mode pkcs7 encrypt (if mode = ECB then zero_block else iv) (concat chunks)"
  by (rule engine_run_blocks [OF assms])

theorem block_modes_correct_witness:
  "engine_run (new_engine CBC True True (Some not_cipher) zero_block []) [[1, 2], [], [3]] =
   block_ref (map (\<lambda>x. NOT x)) (map (\<lambda>x. NOT x)) CBC True True zero_block [1, 2, 3]"
  using block_modes_correct [OF not_cipher_law not_cipher_wf,
      of CBC zero_block "[[1, 2], [], [3]]" True True "[]"] by simp

lemma crypt_inverse:
  assumes "cipher_law c e d" and "length v = 16" and "\<forall>b \<in> set bs. length b = 16"
  shows "crypt_blocks e d mode False v (crypt_blocks e d mode True v bs) = bs"
    and "\<forall>b \<in> set (crypt_blocks e d mode True v bs). length b = 16"
proof -
  have "crypt_blocks e d mode False v (crypt_blocks e d mode True v bs) = bs
    \<and> (\<forall>b \<in> set (crypt_blocks e d mode True v bs). length b = 16)"
    using assms(2,3)
  proof (induction bs arbitrary: v)
    case (Cons b bs)
    then have l: "length b = 16" "\<forall>b \<in> set bs. length b = 16" by simp_all
    have x: "length (e (xorBlock b v)) = 16" "d (e (xorBlock b v)) = xorBlock b v"
      "length (e b) = 16" "d (e b) = b" "xorBlock (xorBlock b v) v = b"
      using cipher_lawD(1,3) [OF assms(1)] l(1) Cons.prems(1) by (simp_all add: xorBlock_involutive)
    show ?case using Cons.IH [OF Cons.prems(1) l(2)] Cons.IH [OF x(1) l(2)] x by (cases "mode = ECB") simp_all
  qed simp
  then show "crypt_blocks e d mode False v (crypt_blocks e d mode True v bs) = bs"
    and "\<forall>b \<in> set (crypt_blocks e d mode True v bs). length b = 16" by simp_all
qed

lemma chunks_of_concat: "\<forall>b \<in> set bs. length b = 16 \<Longrightarrow> chunks_of 16 (concat bs) = bs"
  by (induction bs) (simp_all add: chunks_of_block)

lemma block_ref_inverse:
  assumes "cipher_law c e d" and "length v = 16" and "pkcs7 \<or> 16 dvd length m"
  shows "\<exists>ct. block_ref e d mode pkcs7 True v m = Some ct \<and> block_ref e d mode pkcs7 False v ct = Some m"
proof -
  define m' where "m' = (if pkcs7 then pkcs7_pad m else m)"
  have l: "16 dvd length m'"
  proof (cases pkcs7)
    case True
    then have "pkcs7_unpad m' = Some m" by (simp add: m'_def pkcs7_unpad_pad)
    then show ?thesis by (auto simp: pkcs7_unpad_def Let_def split: if_splits)
  next
    case False
    with assms(3) show ?thesis by (simp add: m'_def)
  qed
  have ch: "\<forall>b \<in> set (chunks_of 16 m'). length b = 16" using chunks_of_length by blast
  note inv = crypt_inverse [OF assms(1,2) ch, of mode]
  define ct where "ct = concat (crypt_blocks e d mode True v (chunks_of 16 m'))"
  have "16 dvd length ct" using length_crypt [OF assms(1,2) ch] by (simp add: ct_def)
  moreover have "concat (crypt_blocks e d mode False v (chunks_of 16 ct)) = m'"
    using inv l by (simp add: ct_def chunks_of_concat concat_chunks_of_exact mod_eq_0_iff_dvd)
  moreover have "if pkcs7 then pkcs7_unpad m' = Some m else m' = m"
    by (simp add: m'_def pkcs7_unpad_pad)
  ultimately have "block_ref e d mode pkcs7 False v ct = Some m"
    by (auto simp: block_ref_def Let_def split: if_splits)
  moreover have "block_ref e d mode pkcs7 True v m = Some ct"
    using l by (simp add: block_ref_def Let_def ct_def flip: m'_def)
  ultimately show ?thesis by blast
qed

text \<open>
  C1. Round trip.  In the modes ECB, CBC, CFB, OFB and CTR, with or without padding,
  encrypting a message (of whole blocks for ECB and CBC without padding) in any chunks
  succeeds, and decrypting the ciphertext with the same IV, in any other chunks, gives
  the message back.
\<close>

theorem cipher_round_trip:
  assumes "cipher_law c e d" and "cipher_wf c" and "mode \<noteq> GCM" and "length iv = 16"
    and "pkcs7 \<Longrightarrow> mode = ECB \<or> mode = CBC"
    and "mode = ECB \<or> mode = CBC \<Longrightarrow> pkcs7 \<or> 16 dvd length (concat xs)"
    and "\<forall>x \<in> set xs. length x \<le> 2147483647"
  shows "\<exists>ct. engine_run (new_engine mode pkcs7 True (Some c) iv tag) xs = Some ct \<and>
    (\<forall>ys. concat ys = ct \<longrightarrow> (\<forall>y \<in> set ys. length y \<le> 2147483647) \<longrightarrow>
      engine_run (new_engine mode pkcs7 False (Some c) iv tag) ys = Some (concat xs))"
proof (cases "mode = ECB \<or> mode = CBC")
  case True
  let ?v = "if mode = ECB then zero_block else iv"
  have "length ?v = 16" using assms(4) by simp
  from block_ref_inverse [OF assms(1) this assms(6) [OF True], of mode] obtain ct
    where "block_ref e d mode pkcs7 True ?v (concat xs) = Some ct"
      and "block_ref e d mode pkcs7 False ?v ct = Some (concat xs)" by blast
  with engine_run_blocks [OF assms(1,2) True assms(4)] assms(7) show ?thesis by auto
next
  case False
  then have m: "mode = CFB \<or> mode = OFB \<or> mode = CTR" "\<not> pkcs7"
    using assms(3,5) by (cases mode, auto)+
  have "stream_spec e mode False iv (stream_spec e mode True iv (concat xs)) = concat xs"
    using stream_spec_inverse [OF cipher_lawD(1) [OF assms(1)] assms(4)] by simp
  with engine_run_stream [OF assms(1,2) m(1) assms(4)] assms(7) m(2) show ?thesis by auto
qed

theorem cipher_round_trip_witness:
  "\<exists>ct. engine_run (new_engine CBC True True (Some not_cipher) zero_block []) [[1, 2], [3]] = Some ct"
  using cipher_round_trip [OF not_cipher_law not_cipher_wf,
      of CBC zero_block True "[[1, 2], [3]]" "[]"] by auto

end
