(* ===== verification/ModeGcm.thy ===== *)
theory ModeGcm
  imports ModeBlocks
begin

text \<open>
  GCM of \<open>ModeEngine\<close> against NIST SP 800-38D without additional data: the hash is computed
  over the ciphertext as it arrives, a decryption releases nothing before the tag of the
  whole message has been compared.
\<close>

section \<open>Reference definitions\<close>

text \<open>GHASH of a list of blocks; the field multiplication is \<open>gfMultiply\<close>, which
  \<open>CipherPrims\<close> relates to the standard's.\<close>

definition ghash_blocks :: "bytes \<Rightarrow> bytes \<Rightarrow> bytes list \<Rightarrow> bytes" where
  "ghash_blocks h y bs = foldl (\<lambda>y b. gfMultiply (xorBlock y b) h) y bs"

definition zero_pad :: "bytes \<Rightarrow> bytes" where
  "zero_pad m = m @ replicate ((16 - length m mod 16) mod 16) 0"

definition len_block :: "nat \<Rightarrow> bytes" where
  "len_block n = replicate 8 0 @ storeBigEndian (word_of_nat n * 8)"

definition ghash_message :: "bytes \<Rightarrow> bytes \<Rightarrow> bytes" where
  "ghash_message h m = ghash_blocks h zero_block (chunks_of 16 (zero_pad m) @ [len_block (length m)])"

definition j0_spec :: "bytes \<Rightarrow> bytes \<Rightarrow> bytes" where
  "j0_spec h iv = (if length iv = 12 then iv @ [0, 0, 0, 1] else ghash_message h iv)"

definition tag_spec :: "(bytes \<Rightarrow> bytes) \<Rightarrow> bytes \<Rightarrow> bytes \<Rightarrow> bytes" where
  "tag_spec e iv ct = xorBlock (ghash_message (e zero_block) ct) (e (j0_spec (e zero_block) iv))"

definition gcm_stream :: "(bytes \<Rightarrow> bytes) \<Rightarrow> bytes \<Rightarrow> bytes \<Rightarrow> bytes" where
  "gcm_stream e iv m = stream_spec e GCM True (increment32 (j0_spec (e zero_block) iv)) m"

section \<open>The incremental hash\<close>

definition ghash_rep :: "bytes \<Rightarrow> engine \<Rightarrow> bytes \<Rightarrow> bool" where
  "ghash_rep h s m \<longleftrightarrow> eng_h s = h \<and> eng_ghash s = ghash_blocks h zero_block (chunks_of 16 m)
     \<and> eng_ghashFill s = length m mod 16 \<and> length (eng_ghashPartial s) = 16
     \<and> take (length m mod 16) (eng_ghashPartial s) = rest 16 m"

lemma chunks_rest: "chunks_of 16 (m @ t) = chunks_of 16 m @ chunks_of 16 (rest 16 m @ t)"
proof -
  have w: "length (whole 16 m) mod 16 = 0" by (simp add: length_whole)
  have "chunks_of 16 (whole 16 m @ rest 16 m @ t) = chunks_of 16 (whole 16 m) @ chunks_of 16 (rest 16 m @ t)"
    using w by (intro chunks_of_append) simp_all
  moreover have "chunks_of 16 (whole 16 m @ rest 16 m) = chunks_of 16 (whole 16 m)"
    using w chunks_of_append [of 16 "whole 16 m" "rest 16 m"] by simp
  ultimately show ?thesis using whole_rest [of 16 m] by (metis append_assoc)
qed

lemma rest_exact: "length m mod 16 = 0 \<Longrightarrow> rest 16 m = []"
  using length_rest [of 16 m] by (simp only: length_0_conv)

lemma ghash_blocks_append: "ghash_blocks h y (as @ bs) = ghash_blocks h (ghash_blocks h y as) bs"
  by (simp add: ghash_blocks_def)

lemma ghash_rep_round:
  assumes "ghash_rep h s m" and "length m mod 16 + length t \<le> 16"
  shows "ghash_rep h (ghash_round s t) (m @ t)"
proof -
  let ?b = "rest 16 m @ t"
  have lb: "length ?b = length m mod 16 + length t" by simp
  have r: "rest 16 (m @ t) = rest 16 ?b" using whole_rest_append(2) [of 16 m t] by simp
  have ml: "length (m @ t) mod 16 = length ?b mod 16" by (simp add: mod_simps)
  from assms(1) have s: "eng_h s = h" "eng_ghash s = ghash_blocks h zero_block (chunks_of 16 m)"
    "eng_ghashFill s = length m mod 16" "length (eng_ghashPartial s) = 16"
    "take (length m mod 16) (eng_ghashPartial s) = rest 16 m" by (simp_all add: ghash_rep_def)
  show ?thesis
  proof (cases "length ?b = 16")
    case True
    then have "drop (length m mod 16 + length t) (eng_ghashPartial s) = []" using s(4) by simp
    moreover have "chunks_of 16 (m @ t) = chunks_of 16 m @ [?b]"
      unfolding chunks_rest [of m t] using True by (simp add: chunks_of_one)
    moreover have "length (m @ t) mod 16 = 0" "rest 16 (m @ t) = []"
      unfolding ml r using True rest_exact [of ?b] by simp_all
    ultimately show ?thesis
      using True s lb
      by (simp add: ghash_rep_def ghash_round_def Let_def ghashBlock_def BlockSize_def
          ghash_blocks_append) (simp add: ghash_blocks_def)
  next
    case False
    then have lt: "length ?b < 16" using assms(2) by simp
    then have "chunks_of 16 (m @ t) = chunks_of 16 m"
      unfolding chunks_rest [of m t] by simp
    with lt s r ml show ?thesis
      by (simp add: ghash_rep_def ghash_round_def Let_def BlockSize_def rest_short)
  qed
qed

lemma ghash_rep_bytes: "ghash_rep h s m \<Longrightarrow> ghash_rep h (ghashBytes s xs) (m @ xs)"
proof (induction s xs arbitrary: m rule: ghashBytes.induct)
  case (1 s xs)
  show ?case
  proof (cases "xs = []")
    case True
    with 1 show ?thesis by (simp add: ghashBytes.simps)
  next
    case False
    have f: "eng_ghashFill s = length m mod 16" using "1.prems" by (simp add: ghash_rep_def)
    then have c: "\<not> (xs = [] \<or> BlockSize \<le> eng_ghashFill s)"
      using False by (simp add: BlockSize_def not_le)
    let ?tk = "min (length xs) (BlockSize - eng_ghashFill s)"
    have "ghash_rep h (ghash_round s (take ?tk xs)) (m @ take ?tk xs)"
      using "1.prems" f by (intro ghash_rep_round) (auto simp: BlockSize_def)
    from "1.IH" [OF c refl this] c show ?thesis
      by (simp add: ghashBytes.simps [of s xs] Let_def)
  qed
qed

lemma ghash_rep_flush:
  assumes "ghash_rep h s m"
  shows "eng_ghash (ghash_flush s) = ghash_blocks h zero_block (chunks_of 16 (zero_pad m))"
    and "eng_ghashFill (ghash_flush s) = 0" and "eng_h (ghash_flush s) = h"
proof -
  from assms have s: "eng_h s = h" "eng_ghash s = ghash_blocks h zero_block (chunks_of 16 m)"
    "eng_ghashFill s = length m mod 16" "take (length m mod 16) (eng_ghashPartial s) = rest 16 m"
    by (simp_all add: ghash_rep_def)
  define z where "z = replicate ((16 - length m mod 16) mod 16) (0 :: byte)"
  have ch: "chunks_of 16 (zero_pad m) = chunks_of 16 m @ chunks_of 16 (rest 16 m @ z)"
    unfolding zero_pad_def z_def by (rule chunks_rest)
  have "eng_ghash (ghash_flush s) = ghash_blocks h (eng_ghash s) (chunks_of 16 (rest 16 m @ z))"
  proof (cases "length m mod 16 = 0")
    case True
    then have "rest 16 m = []" "z = []" by (simp_all add: z_def rest_exact)
    with True s show ?thesis by (simp add: ghash_flush_def ghash_blocks_def)
  next
    case False
    then have z: "z = replicate (16 - length m mod 16) 0" by (simp add: z_def)
    have "length (rest 16 m @ z) = 16" by (simp add: z)
    from chunks_of_one [OF this] False s show ?thesis
      by (simp add: ghash_flush_def Let_def ghashBlock_def ghash_blocks_def z BlockSize_def)
  qed
  then show "eng_ghash (ghash_flush s) = ghash_blocks h zero_block (chunks_of 16 (zero_pad m))"
    by (simp add: ch s ghash_blocks_append)
  show "eng_ghashFill (ghash_flush s) = 0" "eng_h (ghash_flush s) = h"
    using s by (simp_all add: ghash_flush_def Let_def ghashBlock_def)
qed

lemma ghash_rep_message:
  assumes "ghash_rep h s m"
  shows "eng_ghash (ghashBlock (ghash_flush s) (len_block (length m))) = ghash_message h m"
  using ghash_rep_flush [OF assms]
  by (simp add: ghashBlock_def ghash_message_def ghash_blocks_append) (simp add: ghash_blocks_def)

section \<open>What the hash leaves alone\<close>

definition core :: "engine \<Rightarrow> engine" where
  "core s = s\<lparr> eng_ghash := [], eng_ghashPartial := [], eng_ghashFill := 0, eng_textBytes := 0 \<rparr>"

lemma core_simps [simp]:
  "core (ghashBlock s b) = core s" "core (ghash_round s t) = core s"
  "core (s\<lparr> eng_ghashFill := n \<rparr>) = core s" "core (s\<lparr> eng_textBytes := k \<rparr>) = core s"
  "core (s\<lparr> eng_ghashPartial := p \<rparr>) = core s" "core (s\<lparr> eng_ghash := p \<rparr>) = core s"
  by (simp_all add: core_def ghashBlock_def ghash_round_def Let_def)

lemma core_ghashBytes [simp]: "core (ghashBytes s xs) = core s"
proof (induction s xs rule: ghashBytes.induct)
  case (1 s xs)
  then show ?case
    by (cases "xs = [] \<or> BlockSize \<le> eng_ghashFill s") (simp_all add: ghashBytes.simps [of s xs] Let_def)
qed

lemma core_flush [simp]: "core (ghash_flush s) = core s"
  by (simp add: ghash_flush_def Let_def)

lemma core_sel [simp]:
  "eng_mode (core s) = eng_mode s" "eng_encrypt (core s) = eng_encrypt s" "eng_used (core s) = eng_used s"
  "eng_j0 (core s) = eng_j0 s" "eng_pending (core s) = eng_pending s" "eng_h (core s) = eng_h s"
  "eng_expectedTag (core s) = eng_expectedTag s" "eng_register (core s) = eng_register s"
  "eng_keystream (core s) = eng_keystream s" "eng_tagSize (core s) = eng_tagSize s"
  by (simp_all add: core_def)

lemma core_fields:
  assumes "core s = core t"
  shows "eng_j0 s = eng_j0 t" and "eng_pending s = eng_pending t" and "eng_tagSize s = eng_tagSize t"
    and "eng_expectedTag s = eng_expectedTag t"
  using arg_cong [OF assms, of eng_j0] arg_cong [OF assms, of eng_pending]
    arg_cong [OF assms, of eng_tagSize] arg_cong [OF assms, of eng_expectedTag] by simp_all

text \<open>The stream neither reads nor changes the members that \<open>core\<close> erases.\<close>

lemma fresh_core: "fresh e (core s) = core (fresh e s)"
  by (simp add: fresh_def core_def split: CipherMode.split)

lemma stream_byte_core: "stream_byte s x = (t, r) \<Longrightarrow> stream_byte (core s) x = (core t, r)"
  by (auto simp: stream_byte_def Let_def core_def)

lemma byte_run_core: "byte_run e s xs = (t, r) \<Longrightarrow> byte_run e (core s) xs = (core t, r)"
proof (induction xs arbitrary: s t r)
  case (Cons x xs)
  let ?f = "if eng_used s = 16 then fresh e s else s"
  obtain s1 v where v: "stream_byte ?f x = (s1, v)" by fastforce
  obtain t1 w where w: "byte_run e s1 xs = (t1, w)" by fastforce
  have "stream_byte (if eng_used s = 16 then fresh e (core s) else core s) x = (core s1, v)"
    using stream_byte_core [OF v] by (simp add: fresh_core split: if_splits)
  with v w Cons.IH [OF w] Cons.prems show ?case by auto
qed simp

lemma core_keystream: "core (s\<lparr> eng_keystream := k \<rparr>) = (core s)\<lparr> eng_keystream := k \<rparr>"
  by (simp add: core_def)

lemma sim_core: "sim s t \<Longrightarrow> sim (core s) (core t)"
  by (auto simp: sim_def core_keystream)

section \<open>Construction and tag\<close>

lemma ghash_rep_start:
  "eng_ghash s = zero_block \<Longrightarrow> eng_ghashFill s = 0 \<Longrightarrow> length (eng_ghashPartial s) = 16 \<Longrightarrow>
   eng_h s = h \<Longrightarrow> ghash_rep h s []"
  by (simp add: ghash_rep_def ghash_blocks_def)

lemma textBytes_ghashBytes: "eng_textBytes (ghashBytes s xs) = eng_textBytes s"
proof -
  have "eng_textBytes (ghash_round t b) = eng_textBytes t" for t b
    by (simp add: ghash_round_def Let_def ghashBlock_def)
  then show ?thesis
    by (induction s xs rule: ghashBytes.induct) (simp add: ghashBytes.simps Let_def)
qed

lemma gcm_j0_law:
  assumes "ghash_rep h s []" and "blocks_ok s"
  shows "eng_j0 (gcm_j0 s iv) = j0_spec h iv" and "ghash_rep h (gcm_j0 s iv) []"
    and "(core (gcm_j0 s iv))\<lparr> eng_j0 := [] \<rparr> = (core s)\<lparr> eng_j0 := [] \<rparr>"
    and "eng_textBytes (gcm_j0 s iv) = eng_textBytes s"
proof -
  define s1 where "s1 = ghashBytes s iv"
  define s2 where "s2 = ghashBlock (ghash_flush s1) (len_block (length iv))"
  have j: "gcm_j0 s iv = (if length iv = 12 then s\<lparr> eng_j0 := iv @ [0, 0, 0, 1] \<rparr>
      else s2\<lparr> eng_j0 := eng_ghash s2, eng_ghash := zero_block \<rparr>)"
    by (simp add: gcm_j0_def s1_def s2_def len_block_def Let_def)
  have r: "ghash_rep h s1 iv" using ghash_rep_bytes [OF assms(1), of iv] by (simp add: s1_def)
  have "blocks_ok s1" using safe_ghashBytes [of not_cipher s iv] assms(2) not_cipher_wf
    by (simp add: safe_step_def s1_def)
  then have "length (eng_ghashPartial s2) = 16"
    using safe_step_trans [OF safe_ghash_flush safe_ghashBlock, of not_cipher s1 "len_block (length iv)"] not_cipher_wf
    by (simp add: safe_step_def blocks_ok_def s2_def)
  moreover have "eng_ghashFill s2 = 0" "eng_h s2 = h" "eng_ghash s2 = ghash_message h iv"
    using ghash_rep_flush [OF r] ghash_rep_message [OF r] by (simp_all add: s2_def ghashBlock_def)
  moreover have "core s2 = core s" by (simp add: s2_def s1_def)
  ultimately show "eng_j0 (gcm_j0 s iv) = j0_spec h iv" and "ghash_rep h (gcm_j0 s iv) []"
    and "(core (gcm_j0 s iv))\<lparr> eng_j0 := [] \<rparr> = (core s)\<lparr> eng_j0 := [] \<rparr>"
    using assms(1) by (auto simp: j j0_spec_def ghash_rep_def ghash_blocks_def core_def)
  show "eng_textBytes (gcm_j0 s iv) = eng_textBytes s"
    by (simp add: j s2_def s1_def ghashBlock_def ghash_flush_def Let_def textBytes_ghashBytes)
qed

lemma gcmTag_law:
  assumes "cipher_law c e d" and "ghash_rep h s m" and "eng_textBytes s = word_of_nat (length m)"
    and "length (eng_j0 s) = 16"
  shows "\<exists>t. gcmTag c s = (True, t, xorBlock (ghash_message h m) (e (eng_j0 s))) \<and> core t = core s"
proof -
  let ?s1 = "ghash_flush s"
  let ?s2 = "ghashBlock ?s1 (len_block (length m))"
  have t: "eng_textBytes ?s1 = word_of_nat (length m)"
    using assms(3) by (simp add: ghash_flush_def Let_def ghashBlock_def)
  have c: "core ?s2 = core s" by simp
  have j: "eng_j0 ?s2 = eng_j0 s" using core_fields(1) [OF c] .
  show ?thesis
    using encrypt_block [OF assms(1,4)] ghash_rep_message [OF assms(2)] c
    by (simp add: gcmTag_def Let_def t j flip: len_block_def)
qed

lemma new_gcm_engine:
  fixes enc :: bool
  assumes "cipher_law c e d" and "cipher_wf c" and "iv \<noteq> []" and "tag \<noteq> []" and "length tag \<le> 16"
  defines "s \<equiv> new_engine GCM False enc (Some c) iv tag" and "h \<equiv> e zero_block"
  shows "eng_valid s" and "eng_cipher s = Some c" and "eng_mode s = GCM" and "eng_encrypt s = enc"
    and "eng_used s = 16" and "blocks_ok s" and "eng_j0 s = j0_spec h iv"
    and "eng_register s = increment32 (j0_spec h iv)" and "eng_pending s = []" and "eng_textBytes s = 0"
    and "ghash_rep h s []" and "eng_tagSize s = (if enc then length tag else 0)"
    and "eng_expectedTag s = (if enc then [] else tag)"
proof -
  let ?b = "(engine_blank GCM False enc (Some c))\<lparr> eng_h := h \<rparr>"
  have h: "bc_encrypt c zero_block = (True, h)" "length h = 16"
    using encrypt_block [OF assms(1)] cipher_lawD(1) [OF assms(1)] by (simp_all add: h_def)
  have b: "ghash_rep h ?b []" "blocks_ok ?b"
    using h(2) by (auto intro!: ghash_rep_start simp: engine_blank_def blocks_ok_def BlockSize_def)
  define j where "j = gcm_j0 ?b iv"
  note jl = gcm_j0_law [OF b, of iv, folded j_def] and js = safe_gcm_j0 [OF b(2) assms(2), of iv, folded j_def]
  have s: "s = (if eng_encrypt j then j\<lparr> eng_register := increment32 (eng_j0 j), eng_tagSize := length tag \<rparr>
      else j\<lparr> eng_register := increment32 (eng_j0 j), eng_expectedTag := tag \<rparr>)\<lparr> eng_valid := True \<rparr>"
    using assms(3-5) h(1) by (simp add: s_def new_engine_def gcm_setup_def Let_def j_def BlockSize_def)
  have c: "eng_pending j = []" "eng_used j = 16"
    using arg_cong [OF jl(3), of eng_pending] arg_cong [OF jl(3), of eng_used]
    by (simp_all add: engine_blank_def BlockSize_def)
  show "eng_valid s" "eng_cipher s = Some c" "eng_mode s = GCM" "eng_encrypt s = enc" "eng_used s = 16"
    "blocks_ok s" "eng_j0 s = j0_spec h iv" "eng_register s = increment32 (j0_spec h iv)"
    "eng_pending s = []" "eng_textBytes s = 0" "ghash_rep h s []"
    "eng_tagSize s = (if enc then length tag else 0)" "eng_expectedTag s = (if enc then [] else tag)"
    using jl js c unfolding s
    by (simp_all add: engine_blank_def blocks_ok_def ghash_rep_def)
qed

section \<open>Encryption\<close>

text \<open>The stream leaves the hash, the text length and the pending input alone.\<close>

definition aside :: "engine \<Rightarrow> bytes \<times> u64 \<times> bytes \<times> bytes \<times> nat" where
  "aside s = (eng_pending s, eng_textBytes s, eng_ghash s, eng_ghashPartial s, eng_ghashFill s)"

lemma byte_run_aside: "byte_run e s xs = (t, r) \<Longrightarrow> aside t = aside s \<and> length r = length xs"
proof (induction xs arbitrary: s t r)
  case (Cons x xs)
  let ?f = "if eng_used s = 16 then fresh e s else s"
  obtain s1 v where v: "stream_byte ?f x = (s1, v)" by fastforce
  obtain t1 w where w: "byte_run e s1 xs = (t1, w)" by fastforce
  have "aside ?f = aside s" by (simp add: aside_def fresh_def split: CipherMode.split)
  moreover have "aside s1 = aside ?f"
    using arg_cong [OF v, of fst] by (auto simp: aside_def stream_byte_def Let_def)
  ultimately show ?case using Cons.IH [OF w] v w Cons.prems by auto
qed simp

lemma sim_aside: "sim s t \<Longrightarrow> aside s = aside t"
  by (auto simp: sim_def aside_def)

text \<open>A bound on the whole message, kept by every prefix.\<close>

lemma run_filter_total:
  assumes "\<And>s m out x. R s m out \<Longrightarrow> adm x \<Longrightarrow> length (m @ x) \<le> B \<Longrightarrow>
      \<exists>s' y. upd s x = Some (s', y) \<and> R s' (m @ x) (out @ y)"
    and "R s m out" and "\<forall>x \<in> set xs. adm x" and "length (m @ concat xs) \<le> B"
  shows "\<exists>s' y. run_filter upd s xs = Some (s', y) \<and> R s' (m @ concat xs) (out @ y)"
  using assms(2-4)
proof (induction xs arbitrary: s m out)
  case (Cons x xs)
  have "length (m @ x) \<le> B" using Cons.prems(3) by simp
  then obtain s' y where u: "upd s x = Some (s', y)" and r: "R s' (m @ x) (out @ y)"
    using assms(1) [of s m out x] Cons.prems by auto
  from Cons.IH [OF r] Cons.prems obtain s'' z
    where "run_filter upd s' xs = Some (s'', z)"
      and "R s'' ((m @ x) @ concat xs) ((out @ y) @ z)" by auto
  with u show ?case by auto
qed simp

definition gcm_enc :: "(bytes \<Rightarrow> bytes) \<Rightarrow> engine \<Rightarrow> engine \<Rightarrow> bytes \<Rightarrow> bytes \<Rightarrow> bool" where
  "gcm_enc e s0 s m out \<longleftrightarrow> keeps s0 s \<and> blocks_ok s \<and> eng_pending s = []
     \<and> eng_textBytes s = word_of_nat (length m) \<and> ghash_rep (eng_h s0) s out
     \<and> (\<exists>t. byte_run e s0 m = (t, out) \<and> sim (core s) (core t))"

abbreviation gcm_limit :: nat where
  "gcm_limit \<equiv> 68719476704"

lemma MaxGcmBytes_value: "unat MaxGcmBytes = gcm_limit"
  by (simp add: MaxGcmBytes_def)

lemma unat_sub_of_nat: "n \<le> unat M \<Longrightarrow> unat (M - word_of_nat n) = unat M - n" for M :: u64
proof -
  assume n: "n \<le> unat M"
  then have "unat (word_of_nat n :: u64) = n"
    using unsigned_less [of M, where 'a = nat] by (simp add: unat_of_nat)
  with n show ?thesis by (simp add: unat_sub word_le_nat_alt)
qed

lemma unat_of_nat_u64: "n \<le> gcm_limit \<Longrightarrow> unat (word_of_nat n :: u64) = n"
  by (simp add: unat_of_nat)

lemma gcm_in_limit:
  assumes "length (m @ x) \<le> gcm_limit"
  shows "\<not> MaxGcmBytes - word_of_nat (length m) < word_of_nat (length x)"
  using assms unat_sub_of_nat [of "length m" MaxGcmBytes]
  by (simp add: word_less_nat_alt MaxGcmBytes_value unat_of_nat_u64)

lemma pending_in_limit:
  assumes "length (p @ x) \<le> 2147483647"
  shows "\<not> 2147483647 - word_of_nat (length p) < (word_of_nat (length x) :: u64)"
  using assms unat_sub_of_nat [of "length p" "2147483647"]
  by (simp add: word_less_nat_alt unat_of_nat_u64)

lemma gcm_enc_step:
  assumes "cipher_law c e d" and "cipher_wf c" and "eng_mode s0 = GCM" and "eng_encrypt s0"
    and "gcm_enc e s0 s m out" and "small x" and "length (m @ x) \<le> gcm_limit"
  shows "\<exists>s' y. update_gcm c s x [] = (True, s', y) \<and> gcm_enc e s0 s' (m @ x) (out @ y)"
proof -
  from assms(5) obtain t where k: "keeps s0 s" "blocks_ok s" "eng_pending s = []"
      "eng_textBytes s = word_of_nat (length m)" "ghash_rep (eng_h s0) s out"
    and t: "byte_run e s0 m = (t, out)" "sim (core s) (core t)" by (auto simp: gcm_enc_def)
  define s1 where "s1 = s\<lparr> eng_textBytes := word_of_nat (length (m @ x)) \<rparr>"
  have s1: "blocks_ok s1" "stream_mode s1" "keeps s0 s1" "core s1 = core s" "eng_pending s1 = []"
    using k assms(3) by (auto simp: s1_def blocks_ok_def keeps_def)
  obtain u y where u: "byte_run e s1 x = (u, y)" by fastforce
  obtain t1 z where z: "byte_run e t x = (t1, z)" by fastforce
  have q: "sim (core u) (core t1)" "y = z"
    using byte_run_sim [OF t(2), of e x "core u" y "core t1" z]
      byte_run_core [OF u] byte_run_core [OF z] s1(4) by auto
  obtain s2 where s2: "stream_loop c s1 x = (True, s2, y)" "sim s2 u"
    using stream_loop_byte_run [OF assms(1) s1(1) assms(2) s1(2) u] by auto
  have ss: "safe_step c s1 s2" by (rule safe_stream_loop [OF s2(1)])
  have as: "aside s2 = aside s1" "length y = length x"
    using byte_run_aside [OF u] sim_aside [OF s2(2)] by auto
  have k2: "keeps s0 s2" "blocks_ok s2"
    using ss s1 assms(2) by (auto simp: safe_step_def keeps_def)
  have g2: "ghash_rep (eng_h s0) s2 out" "eng_textBytes s2 = word_of_nat (length (m @ x))" "eng_pending s2 = []"
    using as(1) k(3,5) k2(1) by (simp_all add: aside_def s1_def ghash_rep_def keeps_def)
  define s3 where "s3 = ghashBytes s2 y"
  have st: "stream c s1 x [] = (True, s2, y)" by (simp add: stream_def s2(1))
  have en: "eng_encrypt s" using k(1) assms(4) by (simp add: keeps_def)
  have "update_gcm c s x [] = (True, s3, y)"
    using gcm_in_limit [OF assms(7)] pending_in_limit [of "[]" x] assms(6) en st as(2) k(3,4)
    unfolding update_gcm_def Let_def s1_def by (simp add: s3_def add.commute)
  moreover have "safe_step c s2 s3" by (simp add: s3_def safe_ghashBytes)
  moreover have "sim (core s3) (core t1)"
    using sim_trans [OF sim_core [OF s2(2)] q(1)] by (simp add: s3_def)
  moreover have "byte_run e s0 (m @ x) = (t1, out @ y)" using t z q by (simp add: byte_run_append)
  moreover have "ghash_rep (eng_h s0) s3 (out @ y)" using ghash_rep_bytes [OF g2(1)] by (simp add: s3_def)
  moreover have "eng_pending s3 = []" "eng_textBytes s3 = word_of_nat (length (m @ x))"
    using g2 core_fields(2) [of s3 s2] by (simp_all add: s3_def textBytes_ghashBytes)
  ultimately show ?thesis
    using k2 assms(2) by (auto simp: gcm_enc_def safe_step_def keeps_def)
qed

lemma j0_length:
  assumes "cipher_law c e d"
  shows "length (j0_spec (e zero_block) iv) = 16"
proof -
  have "length (ghash_blocks h y (bs @ [b])) = 16" for h y bs b
    by (simp add: ghash_blocks_def)
  then show ?thesis by (simp add: j0_spec_def ghash_message_def)
qed

lemma gcm_encrypt_run:
  assumes "cipher_law c e d" and "cipher_wf c" and "iv \<noteq> []" and "tag \<noteq> []" and "length tag \<le> 16"
    and "\<forall>x \<in> set chunks. small x" and "length (concat chunks) \<le> gcm_limit"
  shows "\<exists>s s'. run_filter engine_step (new_engine GCM False True (Some c) iv tag) chunks =
      Some (s, gcm_stream e iv (concat chunks))
    \<and> final s [] = (True, s', [])
    \<and> eng_tag s' = take (length tag) (tag_spec e iv (gcm_stream e iv (concat chunks)))"
proof -
  define s0 where "s0 = new_engine GCM False True (Some c) iv tag"
  define h where "h = e zero_block"
  note new = new_gcm_engine [OF assms(1-5), of True, folded s0_def h_def]
  have "gcm_enc e s0 s0 [] []"
    using new by (simp add: gcm_enc_def keeps_def ghash_rep_def)
  moreover have "\<exists>s' y. engine_step s x = Some (s', y) \<and> gcm_enc e s0 s' (m @ x) (out @ y)"
    if r: "gcm_enc e s0 s m out" and x: "small x" "length (m @ x) \<le> gcm_limit" for s m out x
  proof -
    have k: "eng_valid s" "eng_cipher s = Some c" "eng_mode s = GCM"
      using r new by (auto simp: gcm_enc_def keeps_def)
    have "eng_encrypt s0" using new(4) by simp
    from gcm_enc_step [OF assms(1,2) new(3) this r x] obtain s' y
      where u: "update_gcm c s x [] = (True, s', y)" "gcm_enc e s0 s' (m @ x) (out @ y)" by blast
    have "updateImpl c s x [] = (True, s', y) \<or> x = [] \<and> updateImpl c s x [] = (True, s, [])"
      using u k by (auto simp: updateImpl_def)
    then show ?thesis
      using engine_step_impl [OF k(1,2) x(1)] u r by (metis append_Nil2)
  qed
  ultimately obtain s y where s: "run_filter engine_step s0 chunks = Some (s, y)" "gcm_enc e s0 s (concat chunks) y"
    using run_filter_total [of "gcm_enc e s0" small gcm_limit engine_step s0 "[]" "[]" chunks] assms(6,7)
    by auto
  from s(2) obtain t where t: "byte_run e s0 (concat chunks) = (t, y)"
    and k: "keeps s0 s" "eng_textBytes s = word_of_nat (length (concat chunks))" "ghash_rep h s y"
    using new(11) by (auto simp: gcm_enc_def ghash_rep_def)
  have sm: "stream_mode s0" using new(3) by simp
  have y: "y = gcm_stream e iv (concat chunks)"
    using byte_run_spec [OF assms(1) new(6) sm new(5), of "concat chunks"] t new
    by (simp add: gcm_stream_def state_of_def h_def)
  let ?s = "s\<lparr> eng_valid := False \<rparr>"
  have g: "ghash_rep h ?s y" using k(3) by (simp add: ghash_rep_def)
  have j: "eng_j0 ?s = j0_spec h iv" using k(1) new(7) by (simp add: keeps_def)
  have tb: "eng_textBytes ?s = word_of_nat (length y)" using k(2) byte_run_aside [OF t] by simp
  have "length (eng_j0 ?s) = 16" unfolding j h_def using j0_length [OF assms(1)] .
  from gcmTag_law [OF assms(1) g tb this] obtain t' where
    t': "gcmTag c ?s = (True, t', tag_spec e iv y)" "core t' = core ?s"
    unfolding j tag_spec_def h_def by blast
  have sz: "eng_tagSize t' = length tag"
    using core_fields(3) [OF t'(2)] k(1) new(12) by (simp add: keeps_def)
  have "final s [] = (True, clearSecrets (t'\<lparr> eng_tag := take (length tag) (tag_spec e iv y) \<rparr>), [])"
    using k(1) new t'(1) sz by (simp add: final_def finalImpl_def final_gcm_def keeps_def)
  then show ?thesis using s(1) y by (auto simp: s0_def)
qed

section \<open>Decryption\<close>

lemma stream_spec_gcm: "stream_spec e GCM b v m = stream_spec e GCM True v m"
proof (induction "length m" arbitrary: v m rule: less_induct)
  case less
  then show ?case
    by (cases "m = []")
      (simp_all add: stream_spec.simps [of e GCM b v m] stream_spec.simps [of e GCM True v m] next_state_def Let_def)
qed

definition gcm_dec :: "engine \<Rightarrow> engine \<Rightarrow> bytes \<Rightarrow> bytes \<Rightarrow> bool" where
  "gcm_dec s0 s m out \<longleftrightarrow> out = [] \<and>
     s = s0\<lparr> eng_pending := m, eng_textBytes := word_of_nat (length m) \<rparr>"

lemma gcm_dec_step:
  assumes "eng_mode s0 = GCM" and "\<not> eng_encrypt s0" and "eng_valid s0" and "eng_cipher s0 = Some c"
    and "gcm_dec s0 s m out" and "small x" and "length (m @ x) \<le> 2147483647"
  shows "\<exists>s' y. engine_step s x = Some (s', y) \<and> gcm_dec s0 s' (m @ x) (out @ y)"
proof (cases "x = []")
  case True
  then show ?thesis
    using assms small_room [of "[]"] by (auto simp: gcm_dec_def engine_step_def update_def updateImpl_def)
next
  case False
  have "length (m @ x) \<le> gcm_limit" using assms(7) by linarith
  then have "update_gcm c s x [] =
      (True, s0\<lparr> eng_pending := m @ x, eng_textBytes := word_of_nat (length (m @ x)) \<rparr>, [])"
    using assms gcm_in_limit [of m x] pending_in_limit [OF assms(7)]
    by (simp add: update_gcm_def Let_def gcm_dec_def)
  then have "updateImpl c s x [] =
      (True, s0\<lparr> eng_pending := m @ x, eng_textBytes := word_of_nat (length (m @ x)) \<rparr>, [])"
    using False assms(1,5) by (simp add: updateImpl_def gcm_dec_def)
  from engine_step_impl [OF _ _ assms(6) this] assms(3-5) show ?thesis by (simp add: gcm_dec_def)
qed

lemma tag_difference:
  assumes "length ex \<le> length tg"
  shows "foldl (\<lambda>df i. df OR (tg ! i XOR ex ! i)) (0 :: byte) [0..<length ex] = 0 \<longleftrightarrow> take (length ex) tg = ex"
proof -
  have "foldl (\<lambda>df i. df OR (tg ! i XOR ex ! i)) (0 :: byte) [0..<length ex] = 0 \<longleftrightarrow> (\<forall>i < length ex. tg ! i = ex ! i)"
    unfolding foldl_or_eq_0 byte_xor_eq_0 by auto
  also have "\<dots> \<longleftrightarrow> take (length ex) tg = ex"
    using assms by (simp add: list_eq_iff_nth_eq [of "take (length ex) tg"])
  finally show ?thesis .
qed

lemma gcm_decrypt_run:
  assumes "cipher_law c e d" and "cipher_wf c" and "iv \<noteq> []" and "tag \<noteq> []" and "length tag \<le> 16"
    and "length (concat chunks) \<le> 2147483647"
  shows "\<exists>s s'. run_filter engine_step (new_engine GCM False False (Some c) iv tag) chunks = Some (s, [])
    \<and> final s [] = (if take (length tag) (tag_spec e iv (concat chunks)) = tag
         then (True, s', gcm_stream e iv (concat chunks)) else (False, s', []))"
proof -
  define s0 where "s0 = new_engine GCM False False (Some c) iv tag"
  define h where "h = e zero_block"
  define m where "m = concat chunks"
  note new = new_gcm_engine [OF assms(1-5), of False, folded s0_def h_def]
  have ne: "\<not> eng_encrypt s0" using new(4) by simp
  have "gcm_dec s0 s0 [] []" using new(9,10) by (simp add: gcm_dec_def)
  moreover have "\<forall>x \<in> set chunks. small x"
  proof
    fix x assume "x \<in> set chunks"
    then have "length x \<le> length (concat chunks)" by (auto simp: in_set_conv_decomp)
    with assms(6) show "small x" by simp
  qed
  ultimately have "\<exists>s y. run_filter engine_step s0 chunks = Some (s, y) \<and> gcm_dec s0 s ([] @ concat chunks) ([] @ y)"
    using assms(6)
    by (intro run_filter_total [where R = "gcm_dec s0" and upd = engine_step and adm = small and B = 2147483647, OF gcm_dec_step [OF new(3) ne new(1,2)]]) simp_all
  then obtain s where s: "run_filter engine_step s0 chunks = Some (s, [])" and
    sm: "s = s0\<lparr> eng_pending := m, eng_textBytes := word_of_nat (length m) \<rparr>"
    unfolding gcm_dec_def m_def by auto
  let ?s = "s\<lparr> eng_valid := False \<rparr>"
  define s1 where "s1 = ghashBytes ?s m"
  have c1: "core s1 = core ?s" by (simp add: s1_def)
  have "ghash_rep h ?s []" using new(11) by (simp add: sm ghash_rep_def)
  from ghash_rep_bytes [OF this, of m] have g: "ghash_rep h s1 m" by (simp add: s1_def)
  have tb: "eng_textBytes s1 = word_of_nat (length m)" by (simp add: s1_def textBytes_ghashBytes sm)
  have j: "eng_j0 s1 = j0_spec h iv" using core_fields(1) [OF c1] new(7) by (simp add: sm)
  have "length (eng_j0 s1) = 16" unfolding j h_def using j0_length [OF assms(1)] .
  from gcmTag_law [OF assms(1) g tb this] obtain t where
    t: "gcmTag c s1 = (True, t, tag_spec e iv m)" "core t = core s1"
    unfolding j tag_spec_def h_def by blast
  have ct: "core t = core ?s" using t(2) c1 by simp
  have et: "eng_expectedTag t = tag" "eng_pending t = m"
    using core_fields(2,4) [OF ct] new(13) by (simp_all add: sm)
  have "length (tag_spec e iv m) = 16" by (simp add: tag_spec_def)
  then have df: "foldl (\<lambda>df i. df OR (tag_spec e iv m ! i XOR eng_expectedTag t ! i)) (0 :: byte) [0..<length (eng_expectedTag t)] = 0
      \<longleftrightarrow> take (length tag) (tag_spec e iv m) = tag"
    using tag_difference [of tag "tag_spec e iv m"] assms(5) by (simp add: et)
  have "blocks_ok ?s" using new(6) by (simp add: sm blocks_ok_def)
  then have "safe_step c ?s t \<longrightarrow> blocks_ok t" using assms(2) by (simp add: safe_step_def)
  moreover have "safe_step c ?s t"
    using safe_step_trans [OF safe_ghashBytes [of c ?s m], of t] safe_gcmTag [OF t(1)] by (simp add: s1_def)
  ultimately have bt: "blocks_ok t" by simp
  have mt: "eng_mode t = GCM" "eng_encrypt t = False" "eng_used t = 16" "eng_register t = eng_register s0"
    using arg_cong [OF ct, of eng_mode] arg_cong [OF ct, of eng_encrypt] arg_cong [OF ct, of eng_used]
      arg_cong [OF ct, of eng_register] new(3-5) by (simp_all add: sm)
  obtain t1 r where r: "byte_run e t m = (t1, r)" by fastforce
  have "r = gcm_stream e iv m"
    using byte_run_spec [OF assms(1) bt _ mt(3), of m] r mt new(8)
    by (simp add: gcm_stream_def state_of_def h_def stream_spec_gcm [of _ False])
  moreover obtain t2 where "stream_loop c t m = (True, t2, r)"
    using stream_loop_byte_run [OF assms(1) bt assms(2) _ r] mt(1) by auto
  ultimately have st: "stream c t m [] = (True, t2, gcm_stream e iv m)" by (simp add: stream_def)
  have fg: "final_gcm c ?s [] = (if take (length tag) (tag_spec e iv m) = tag
      then (True, t2\<lparr> eng_pending := [] \<rparr>, gcm_stream e iv m) else (False, t\<lparr> eng_pending := [] \<rparr>, []))"
    using ne t(1) df st et(2) by (simp add: final_gcm_def sm s1_def)
  have "\<exists>s'. final s [] = (if take (length tag) (tag_spec e iv m) = tag
         then (True, s', gcm_stream e iv m) else (False, s', []))"
    using new(1-3) fg by (auto simp: final_def finalImpl_def sm)
  with s show ?thesis unfolding s0_def m_def by blast
qed

text \<open>
  C20. GCM encryption.  For any nonce that is not empty and any tag length from 1 to 16, up
  to the limit of \<open>2 ^ 36 - 32\<close> bytes and in any chunks, the outputs are the counter mode
  of SP 800-38D from the counter block the nonce determines, and the tag after \<^verbatim>\<open>final\<close> is
  the truncated tag of the standard over the ciphertext.
\<close>

theorem gcm_encrypt_correct:
  assumes "cipher_law c e d" and "cipher_wf c" and "iv \<noteq> []" and "tag \<noteq> []" and "length tag \<le> 16"
    and "\<forall>x \<in> set chunks. length x \<le> 2147483647" and "length (concat chunks) \<le> 68719476704"
  shows "\<exists>s s'. run_filter engine_step (new_engine GCM False True (Some c) iv tag) chunks =
      Some (s, gcm_stream e iv (concat chunks))
    \<and> final s [] = (True, s', [])
    \<and> eng_tag s' = take (length tag) (tag_spec e iv (gcm_stream e iv (concat chunks)))"
  by (rule gcm_encrypt_run [OF assms])

theorem gcm_encrypt_correct_witness:
  "\<exists>s s'. run_filter engine_step (new_engine GCM False True (Some not_cipher) [7] [0, 0]) [[1], [2, 3]] =
      Some (s, gcm_stream (map (\<lambda>x. NOT x)) [7] [1, 2, 3])
    \<and> final s [] = (True, s', [])
    \<and> eng_tag s' = take 2 (tag_spec (map (\<lambda>x. NOT x)) [7] (gcm_stream (map (\<lambda>x. NOT x)) [7] [1, 2, 3]))"
  using gcm_encrypt_correct [OF not_cipher_law not_cipher_wf, of "[7]" "[0, 0]" "[[1], [2, 3]]"]
  by (simp add: numeral_2_eq_2)

text \<open>
  C2. GCM decryption.  No update releases any byte; \<^verbatim>\<open>final\<close> succeeds exactly when the given
  tag is the (truncated) tag of the whole ciphertext, and only then the plaintext is
  released, in one piece; with any other tag there is no output at all.
\<close>

theorem gcm_decrypt_authenticates:
  assumes "cipher_law c e d" and "cipher_wf c" and "iv \<noteq> []" and "tag \<noteq> []" and "length tag \<le> 16"
    and "length (concat chunks) \<le> 2147483647"
  shows "\<exists>s s'. run_filter engine_step (new_engine GCM False False (Some c) iv tag) chunks = Some (s, [])
    \<and> final s [] = (if take (length tag) (tag_spec e iv (concat chunks)) = tag
         then (True, s', gcm_stream e iv (concat chunks)) else (False, s', []))"
  by (rule gcm_decrypt_run [OF assms])

theorem gcm_decrypt_authenticates_witness:
  "\<exists>s. run_filter engine_step (new_engine GCM False False (Some not_cipher) [7] [0, 0]) [[1], [2, 3]] = Some (s, [])"
  using gcm_decrypt_authenticates [OF not_cipher_law not_cipher_wf, of "[7]" "[0, 0]" "[[1], [2, 3]]"]
  by auto

end
