(* ===== verification/DerCodec.thy ===== *)
theory DerCodec
  imports CipherPrims
begin

text \<open>
  The DER reader and writer of the Windows provider's RSA keys (first part of
  \<^verbatim>\<open>src/plugins/qca-wincrypto/rsa_codec.cpp\<close>).  A \<open>View\<close> and the position of a \<open>Reader\<close> in
  it are the bytes that are left; a reading operation gives the value and the rest, or
  \<open>None\<close> where the code returns false (no caller uses a reader after a failed call
  without assigning it anew).

  The lemmas show that reader and writer are inverse: what the writer writes is read
  back, and the reader accepts nothing but what the writer writes, so every accepted
  element has exactly one encoding.
\<close>

section \<open>Reader\<close>

definition MaxDER :: nat where "MaxDER = 65536"

definition reader_tag :: "bytes \<Rightarrow> int" where
  "reader_tag v = (if v = [] then - 1 else int (unat (v ! 0)))"

definition get_size :: "bytes \<Rightarrow> (nat \<times> nat) option" where
  "get_size v =
     (let sz = unat (v ! 1) in
      if (v ! 1) AND 0x80 \<noteq> 0 then
        let count = sz AND 0x7f in
        if count = 0 \<or> 3 < count \<or> length v < 2 + count \<or> v ! 2 = 0 then None
        else
          let sz = foldl (\<lambda>sz i. push_bit 8 sz OR unat (v ! (2 + i))) 0 [0..<count]
          in if sz < 128 then None else Some (sz, 2 + count)
      else Some (sz, 2))"

definition get :: "byte \<Rightarrow> bytes \<Rightarrow> (bytes \<times> bytes) option" where
  "get tag v =
     (if length v < 2 \<or> v ! 0 \<noteq> tag then None
      else case get_size v of None \<Rightarrow> None
        | Some (sz, offset) \<Rightarrow>
            if length v - offset < sz then None
            else Some (take sz (drop offset v), drop (offset + sz) v))"

definition read_sequence :: "bytes \<Rightarrow> (bytes \<times> bytes) option" where
  "read_sequence v = get 0x30 v"

definition read_integer :: "bytes \<Rightarrow> (bytes \<times> bytes) option" where
  "read_integer inp =
     (case get 2 inp of None \<Rightarrow> None
      | Some (v, r) \<Rightarrow>
          if v = [] \<or> 2049 < length v \<or> (v ! 0) AND 0x80 \<noteq> 0 then None
          else if 1 < length v \<and> v ! 0 = 0 then
            (if (v ! 1) AND 0x80 = 0 then None else Some (tl v, r))
          else Some (v, r))"

definition read_number :: "bytes \<Rightarrow> (u32 \<times> bytes) option" where
  "read_number inp =
     (case read_integer inp of None \<Rightarrow> None
      | Some (value, r) \<Rightarrow>
          if 4 < length value then None
          else Some (foldl (\<lambda>out b. push_bit 8 out OR ucast b) 0 value, r))"

definition read_oid :: "bytes \<Rightarrow> bytes \<Rightarrow> bytes option" where
  "read_oid expected inp =
     (case get 6 inp of None \<Rightarrow> None
      | Some (v, r) \<Rightarrow> if length v = length expected \<and> v = expected then Some r else None)"

definition nullOrEmpty :: "bytes \<Rightarrow> bool" where
  "nullOrEmpty inp \<longleftrightarrow> inp = [] \<or>
     (case get 5 inp of None \<Rightarrow> False | Some (v, r) \<Rightarrow> v = [] \<and> r = [])"

section \<open>Writer\<close>

text \<open>The loop that counts the bytes of a length; the writer calls it below \<open>MaxDER\<close>.\<close>

function byte_count :: "nat \<Rightarrow> nat" where
  "byte_count n = (if n = 0 then 0 else Suc (byte_count (drop_bit 8 n)))"
  by pat_completeness auto
termination
  by (relation "measure id") (auto simp: drop_bit_eq_div)

declare byte_count.simps [simp del]

text \<open>The most significant byte first: \<open>char(value >> (8 * (count - 1 - i)))\<close>.\<close>

definition be_bytes :: "nat \<Rightarrow> nat \<Rightarrow> bytes" where
  "be_bytes count n = map (\<lambda>i. word_of_nat (drop_bit (8 * (count - 1 - i)) n)) [0..<count]"

definition der_header :: "byte \<Rightarrow> nat \<Rightarrow> bytes" where
  "der_header tag n =
     (if n < 128 then [tag, word_of_nat n]
      else [tag, word_of_nat (0x80 OR byte_count n)] @ be_bytes (byte_count n) n)"

definition tlv :: "byte \<Rightarrow> bytes \<Rightarrow> bytes" where
  "tlv tag value = (if MaxDER < length value then [] else der_header tag (length value) @ value)"

definition write_sequence :: "bytes \<Rightarrow> bytes" where
  "write_sequence value = tlv 0x30 value"

definition write_oid :: "bytes \<Rightarrow> bytes" where
  "write_oid v = tlv 6 v"

definition write_integer :: "bytes \<Rightarrow> bytes" where
  "write_integer value =
     (if value = [] then []
      else tlv 2 (if (value ! 0) AND 0x80 \<noteq> 0 then [0] @ value else value))"

definition number_count :: "u32 \<Rightarrow> nat" where
  "number_count value = 1 + byte_count (unat (drop_bit 8 value))"

definition write_number :: "u32 \<Rightarrow> bytes" where
  "write_number value = write_integer (be_bytes (number_count value) (unat value))"

section \<open>Lengths\<close>

lemma byte_high: "(b :: byte) AND 0x80 \<noteq> 0 \<longleftrightarrow> 128 \<le> unat b"
proof -
  have "b AND 0x80 \<noteq> 0 \<longleftrightarrow> bit b 7"
    using and_exp_eq_0_iff_not_bit [of b 7] by simp
  also have "\<dots> \<longleftrightarrow> bit (unat b) 7" by (simp add: bit_unsigned_iff)
  also have "\<dots> \<longleftrightarrow> odd (unat b div 128)" by (simp add: bit_iff_odd)
  also have "\<dots> \<longleftrightarrow> 128 \<le> unat b"
  proof -
    have "unat b div 128 < 2" by (rule less_mult_imp_div_less) simp
    then have "unat b div 128 = 0 \<or> unat b div 128 = 1" by linarith
    moreover have "unat b div 128 = 0 \<longleftrightarrow> unat b < 128" by (simp add: div_eq_0_iff)
    ultimately show ?thesis by auto
  qed
  finally show ?thesis .
qed

lemma byte_count_0 [simp]: "byte_count 0 = 0"
  by (simp add: byte_count.simps)

lemma byte_count_pos: "0 < n \<Longrightarrow> byte_count n = Suc (byte_count (n div 256))"
  by (subst byte_count.simps) (simp add: drop_bit_eq_div)

lemma byte_count_eq: "256 ^ k \<le> n \<Longrightarrow> n < 256 ^ Suc k \<Longrightarrow> byte_count n = Suc k"
proof (induction k arbitrary: n)
  case 0
  then show ?case by (simp add: byte_count_pos)
next
  case (Suc k)
  have n: "256 ^ k \<le> n div 256" "n div 256 < 256 ^ Suc k"
    using Suc.prems by (simp_all add: less_eq_div_iff_mult_less_eq less_mult_imp_div_less mult.commute)
  have "0 < n" using Suc.prems(1) by (metis gr0I le_zero_eq power_not_zero zero_neq_numeral)
  with Suc.IH [OF n] show ?case by (simp add: byte_count_pos)
qed

lemma length_be_bytes [simp]: "length (be_bytes k n) = k"
  by (simp add: be_bytes_def)

lemma be_bytes_Suc: "be_bytes (Suc k) n = be_bytes k (n div 256) @ [word_of_nat n]"
proof -
  have "map (\<lambda>i. word_of_nat (drop_bit (8 * (Suc k - 1 - i)) n)) [0..<k] =
      (map (\<lambda>i. word_of_nat (drop_bit (8 * (k - 1 - i)) (n div 256))) [0..<k] :: bytes)"
  proof (rule map_cong [OF refl])
    fix i assume "i \<in> set [0..<k]"
    then have "8 * (Suc k - 1 - i) = 8 * (k - 1 - i) + 8" by simp
    then show "word_of_nat (drop_bit (8 * (Suc k - 1 - i)) n) =
        (word_of_nat (drop_bit (8 * (k - 1 - i)) (n div 256)) :: byte)"
      by (simp only: drop_bit_eq_div power_add div_mult2_eq [symmetric]) (simp add: mult.commute)
  qed
  then show ?thesis by (simp add: be_bytes_def)
qed

lemma be_nat_be_bytes: "be_nat (be_bytes k n) = n mod 256 ^ k"
proof (induction k arbitrary: n)
  case 0
  then show ?case by (simp add: be_bytes_def)
next
  case (Suc k)
  then show ?case by (simp add: be_bytes_Suc unat_of_nat mod_mult2_eq)
qed

lemma be_bytes_be_nat: "be_bytes (length bs) (be_nat bs) = bs"
proof (induction bs rule: rev_induct)
  case (snoc b bs)
  have "be_nat (bs @ [b]) div 256 = be_nat bs"
    using byte_less [of b] by (simp del: byte_less)
  moreover have "(word_of_nat (be_nat (bs @ [b])) :: byte) = b"
    by (rule byte_eqI) (simp only: be_nat_snoc unat_of_nat, simp)
  ultimately show ?case by (simp add: be_bytes_Suc snoc del: be_nat_snoc)
qed (simp add: be_bytes_def)

lemma be_nat_lower: "bs \<noteq> [] \<Longrightarrow> bs ! 0 \<noteq> 0 \<Longrightarrow> 256 ^ (length bs - 1) \<le> be_nat bs"
proof -
  assume "bs \<noteq> []" "bs ! 0 \<noteq> 0"
  then obtain b cs where bs: "bs = [b] @ cs" and b: "b \<noteq> 0" by (cases bs) auto
  have "1 \<le> unat b" using b by (simp add: Suc_le_eq unat_gt_0)
  then have "256 ^ length cs \<le> unat b * 256 ^ length cs" by simp
  then have "256 ^ length cs \<le> unat b * 256 ^ length cs + be_nat cs" by (rule trans_le_add1)
  then show ?thesis
    unfolding bs be_nat_append by (simp add: be_nat_def [of "[b]"])
qed

lemma be_nat_fold: "foldl (\<lambda>n b. push_bit 8 n OR unat b) 0 bs = be_nat bs"
proof (induction bs rule: rev_induct)
  case (snoc b bs)
  then show ?case using nat_or_disjoint [of "unat b" 8 "be_nat bs"] by simp
qed simp

section \<open>One encoding for each element\<close>

lemma der_header_long:
  assumes "bs \<noteq> []" and "length bs \<le> 3" and "bs ! 0 \<noteq> 0" and "128 \<le> be_nat bs"
  shows "der_header tag (be_nat bs) = [tag, word_of_nat (128 + length bs)] @ bs"
proof -
  have "byte_count (be_nat bs) = Suc (length bs - 1)"
    using be_nat_lower [OF assms(1,3)] be_nat_less [of bs] assms(1)
    by (intro byte_count_eq) simp_all
  then have c: "byte_count (be_nat bs) = length bs" using assms(1) by simp
  have "(128 OR length bs) = 128 + length bs"
    using nat_or_disjoint [of "length bs" 7 1] assms(2) by simp
  then show ?thesis using assms(4) c be_bytes_be_nat [of bs] by (simp add: der_header_def)
qed

lemma get_size_long:
  assumes "length v \<ge> 2 + k" and "v ! 1 = word_of_nat (128 + k)" and "1 \<le> k" and "k \<le> 3"
  shows "get_size v = (if v ! 2 = 0 \<or> be_nat (take k (drop 2 v)) < 128 then None
    else Some (be_nat (take k (drop 2 v)), 2 + k))"
proof -
  have u: "unat (v ! 1) = 128 + k" unfolding assms(2) unat_of_nat using assms(4) by simp
  have h: "(v ! 1) AND 0x80 \<noteq> 0" unfolding byte_high u by simp
  have c: "unat (v ! 1) AND 0x7f = k" unfolding u nat_and_masks using assms(4) by simp
  have "map (\<lambda>i. v ! (2 + i)) [0..<k] = take k (drop 2 v)"
    using assms(1) by (intro nth_equalityI) simp_all
  then have "foldl (\<lambda>sz i. push_bit 8 sz OR unat (v ! (2 + i))) 0 [0..<k] = be_nat (take k (drop 2 v))"
    using be_nat_fold [of "take k (drop 2 v)"] by (simp add: foldl_map flip: \<open>_ = take k (drop 2 v)\<close>)
  then show ?thesis
    using h c assms by (simp add: get_size_def Let_def)
qed

lemma get_size_short: "unat (v ! 1) < 128 \<Longrightarrow> get_size v = Some (unat (v ! 1), 2)"
  using byte_high [of "v ! 1"] by (simp add: get_size_def Let_def)

text \<open>Reading back what the writer writes.\<close>

lemma be_nat_Cons: "be_nat (b # bs) = unat b * 256 ^ length bs + be_nat bs"
  using be_nat_append [of "[b]" bs] by (simp add: be_nat_def [of "[b]"])

lemma length_bytes_exist:
  assumes "0 < n" and "n < 256 ^ 3"
  shows "\<exists>bs. bs \<noteq> [] \<and> length bs \<le> 3 \<and> bs ! 0 \<noteq> 0 \<and> be_nat bs = n"
proof -
  obtain k where k: "k < 3" "256 ^ k \<le> n" "n < 256 ^ Suc k"
  proof -
    consider "n < 256" | "256 \<le> n" "n < 65536" | "65536 \<le> n" by linarith
    then show ?thesis using assms by cases (auto intro: that [of 0] that [of 1] that [of 2])
  qed
  let ?bs = "be_bytes (Suc k) n"
  have n: "be_nat ?bs = n" unfolding be_nat_be_bytes using k(3) by simp
  obtain b cs where c: "?bs = b # cs" "length cs = k"
    by (metis length_Suc_conv length_be_bytes)
  have "b \<noteq> 0"
  proof
    assume "b = 0"
    then have "n = be_nat cs" using n c by (simp add: be_nat_Cons)
    then show False using be_nat_less [of cs] c(2) k(2) by simp
  qed
  with n c k(1) show ?thesis by (intro exI [of _ ?bs]) simp
qed

lemma get_header:
  assumes "length x \<le> MaxDER"
  shows "get tag (der_header tag (length x) @ x @ r) = Some (x, r)"
proof (cases "length x < 128")
  case True
  then have "unat (word_of_nat (length x) :: byte) = length x" by (simp add: unat_of_nat)
  then show ?thesis
    using True get_size_short [of "tag # word_of_nat (length x) # x @ r"]
    by (simp add: der_header_def get_def)
next
  case False
  then have "0 < length x" "length x < 256 ^ 3" using assms by (auto simp: MaxDER_def)
  from length_bytes_exist [OF this] obtain bs
    where bs: "bs \<noteq> []" "length bs \<le> 3" "bs ! 0 \<noteq> 0" "be_nat bs = length x" by blast
  have d: "der_header tag (length x) = [tag, word_of_nat (128 + length bs)] @ bs"
    using der_header_long [OF bs(1-3)] bs(4) False by simp
  let ?v = "der_header tag (length x) @ x @ r"
  have "get_size ?v = Some (length x, 2 + length bs)"
    using bs False by (subst get_size_long [of "length bs"]) (auto simp: d nth_append Suc_le_eq)
  then show ?thesis by (simp add: get_def d)
qed

lemma get_tlv: "length x \<le> MaxDER \<Longrightarrow> get tag (tlv tag x @ r) = Some (x, r)"
  using get_header [of x tag r] by (simp add: tlv_def)

text \<open>The reader accepts nothing else.\<close>

lemma split_drop: "take n (drop m xs) @ drop (m + n) xs = drop m xs"
  by (metis add.commute append_take_drop_id drop_drop)

lemma get_canonical:
  assumes "get tag v = Some (x, r)"
  shows "v = der_header tag (length x) @ x @ r"
proof -
  have v: "2 \<le> length v" "v ! 0 = tag" using assms by (auto simp: get_def split: if_splits)
  obtain sz off where s: "get_size v = Some (sz, off)" "sz \<le> length v - off"
    "x = take sz (drop off v)" "r = drop (off + sz) v"
    using assms by (auto simp: get_def split: if_splits option.splits)
  have v2: "v = [tag, v ! 1] @ drop 2 v"
    using v by (cases v; cases "tl v") auto
  show ?thesis
  proof (cases "128 \<le> unat (v ! 1)")
    case False
    then have o: "sz = unat (v ! 1)" "off = 2" using s(1) get_size_short [of v] by auto
    then have l: "length x = unat (v ! 1)" using s by simp
    have "drop 2 v = x @ r" unfolding s(3,4) o by (rule split_drop [symmetric])
    moreover have "der_header tag (length x) = [tag, v ! 1]" using False l by (simp add: der_header_def)
    ultimately show ?thesis using v2 by simp
  next
    case True
    define k where "k = unat (v ! 1) - 128"
    have "unat (v ! 1) - 128 < 128" using byte_less [of "v ! 1"] by linarith
    then have "unat (v ! 1) AND 0x7f = k"
      unfolding nat_and_masks le_mod_geq [OF True] k_def by (rule mod_less)
    then have k: "k \<noteq> 0" "k \<le> 3" "2 + k \<le> length v"
      using s(1) True by (auto simp: get_size_def Let_def byte_high split: if_splits)
    have "v ! 1 = word_of_nat (128 + k)" using True by (simp add: k_def)
    note g = get_size_long [OF k(3) this _ k(2)]
    define bs where "bs = take k (drop 2 v)"
    have b: "v ! 2 \<noteq> 0" "128 \<le> be_nat bs" "sz = be_nat bs" "off = 2 + k"
      using s(1) g k(1) by (auto simp: bs_def split: if_splits)
    have lb: "length bs = k" "bs \<noteq> []" "bs ! 0 \<noteq> 0" using k b(1) by (auto simp: bs_def)
    have l: "length x = be_nat bs" using s(2,3) b by simp
    have "der_header tag (length x) = [tag, v ! 1] @ bs"
      using der_header_long [OF lb(2) _ lb(3) b(2)] lb(1) k(2) l \<open>v ! 1 = _\<close> by simp
    moreover have "drop 2 v = bs @ x @ r"
    proof -
      have "drop off v = x @ r" unfolding s(3,4) by (rule split_drop [symmetric])
      moreover have "drop 2 v = bs @ drop off v" unfolding b(4) bs_def by (rule split_drop [symmetric])
      ultimately show ?thesis by simp
    qed
    ultimately show ?thesis using v2 by simp
  qed
qed

lemma tlv_canonical: "get tag v = Some (x, r) \<Longrightarrow> length v \<le> MaxDER \<Longrightarrow> v = tlv tag x @ r"
  using get_canonical [of tag v x r] by (auto simp: tlv_def)

lemma get_length: "get tag v = Some (x, r) \<Longrightarrow> length x + length r < length v"
  using get_canonical [of tag v x r] by (auto simp: der_header_def)

section \<open>Integers\<close>

text \<open>The magnitudes that are encoded: no superfluous zero, and a bounded length.\<close>

definition magnitude :: "bytes \<Rightarrow> bool" where
  "magnitude x \<longleftrightarrow> x \<noteq> [] \<and> (length x = 1 \<or> x ! 0 \<noteq> 0) \<and>
     length x \<le> (if 128 \<le> unat (x ! 0) then 2048 else 2049)"

lemma read_write_integer:
  assumes "magnitude x"
  shows "read_integer (write_integer x @ r) = Some (x, r)"
proof -
  define y where "y = (if 128 \<le> unat (x ! 0) then [0] @ x else x)"
  have x: "x \<noteq> []" "length x = 1 \<or> x ! 0 \<noteq> 0" using assms by (simp_all add: magnitude_def)
  have y: "y \<noteq> []" "length y \<le> 2049" "\<not> 128 \<le> unat (y ! 0)"
    using assms by (auto simp: y_def magnitude_def)
  have "write_integer x = tlv 2 y" using x(1) by (simp add: write_integer_def byte_high y_def)
  moreover have "length y \<le> MaxDER" using y(2) by (simp add: MaxDER_def)
  ultimately have g: "get 2 (write_integer x @ r) = Some (y, r)" using get_tlv by simp
  show ?thesis
  proof (cases "128 \<le> unat (x ! 0)")
    case True
    then have "y = 0 # x" by (simp add: y_def)
    with g y True x(1) show ?thesis
      using byte_high [of "x ! 0"] by (simp add: read_integer_def)
  next
    case False
    then have "y = x" by (simp add: y_def)
    moreover have "(x ! 0) AND 0x80 = 0" using False byte_high [of "x ! 0"] by simp
    moreover have "\<not> (1 < length x \<and> x ! 0 = 0)" using x(2) by auto
    ultimately show ?thesis
      using g y by (auto simp: read_integer_def)
  qed
qed

lemma read_integer_canonical:
  assumes "read_integer v = Some (x, r)" and "length v \<le> MaxDER"
  shows "magnitude x \<and> v = write_integer x @ r"
proof -
  obtain y where g: "get 2 v = Some (y, r)" and y: "y \<noteq> []" "length y \<le> 2049" "\<not> 128 \<le> unat (y ! 0)"
    and x: "x = (if 1 < length y \<and> y ! 0 = 0 then tl y else y)"
    and h: "1 < length y \<Longrightarrow> y ! 0 = 0 \<Longrightarrow> 128 \<le> unat (y ! 1)"
    using assms(1) by (auto simp: read_integer_def byte_high not_le split: option.splits if_splits)
  have v: "v = tlv 2 y @ r" using tlv_canonical [OF g assms(2)] .
  show ?thesis
  proof (cases "1 < length y \<and> y ! 0 = 0")
    case True
    then obtain c where c: "y = 0 # c" "c \<noteq> []" by (cases y) auto
    with True x h have "x = c" "128 \<le> unat (c ! 0)" by auto
    moreover have "c ! 0 \<noteq> 0" using calculation(2) by auto
    ultimately show ?thesis
      using c y v by (simp add: magnitude_def write_integer_def byte_high)
  next
    case False
    with x have "x = y" by auto
    moreover have "length y = 1 \<or> y ! 0 \<noteq> 0" using False y(1) by (cases y) auto
    ultimately show ?thesis
      using y v by (auto simp: magnitude_def write_integer_def byte_high)
  qed
qed

text \<open>Small numbers.\<close>

lemma word_fold_be_nat: "foldl (\<lambda>v b. push_bit 8 v OR ucast b) (0 :: u32) bs = word_of_nat (be_nat bs)"
proof (induction bs rule: rev_induct)
  case (snoc b bs)
  have "be_nat (bs @ [b]) = push_bit 8 (be_nat bs) OR unat b"
    using nat_or_disjoint [of "unat b" 8 "be_nat bs"] by simp
  then show ?case using snoc by (simp add: of_nat_or_eq push_bit_of_nat del: be_nat_snoc)
qed simp

lemma number_bytes:
  fixes n :: u32
  defines "bs \<equiv> be_bytes (number_count n) (unat n)"
  shows "be_nat bs = unat n" and "length bs \<le> 4" and "magnitude bs"
proof -
  obtain k where k: "number_count n = Suc k" "k < 4" "unat n < 256 ^ Suc k" "0 < k \<Longrightarrow> 256 ^ k \<le> unat n"
  proof (cases "unat n < 256")
    case True
    then show ?thesis by (intro that [of 0]) (simp_all add: number_count_def unat_drop)
  next
    case False
    have "unat n < 256 ^ 4" using unsigned_less [of n, where 'a = nat] by simp
    then obtain k where k: "k < 4" "256 ^ k \<le> unat n" "unat n < 256 ^ Suc k"
    proof -
      consider "unat n < 256 ^ Suc 1" | "256 ^ 2 \<le> unat n" "unat n < 256 ^ Suc 2" | "256 ^ 3 \<le> unat n"
        by fastforce
      then show ?thesis
        using False \<open>unat n < 256 ^ 4\<close> by cases (auto intro: that [of 1] that [of 2] that [of 3])
    qed
    have "number_count n = byte_count (unat n)"
      using False byte_count_pos [of "unat n"] by (simp add: number_count_def unat_drop)
    with byte_count_eq [OF k(2,3)] k show ?thesis by (intro that [of k]) simp_all
  qed
  show n: "be_nat bs = unat n" unfolding bs_def be_nat_be_bytes k(1) using k(3) by simp
  show l: "length bs \<le> 4" using k(1,2) by (simp add: bs_def)
  obtain b cs where c: "bs = b # cs" "length cs = k"
    unfolding bs_def k(1) by (metis length_Suc_conv length_be_bytes)
  have "b \<noteq> 0" if "0 < k"
  proof
    assume "b = 0"
    then have "unat n = be_nat cs" using n c by (simp add: be_nat_Cons)
    then show False using be_nat_less [of cs] c(2) k(4) [OF that] by simp
  qed
  then show "magnitude bs" using c l by (auto simp: magnitude_def)
qed

lemma read_write_number: "read_number (write_number n @ r) = Some (n, r)"
  using number_bytes [of n] read_write_integer [OF number_bytes(3), of n r]
  by (simp add: read_number_def write_number_def word_fold_be_nat)

text \<open>
  Strict DER: an element that the reader accepts has exactly one encoding, the one the
  writer produces (no indefinite or overlong lengths, no superfluous zero bytes, no
  negative integers), and everything the writer produces is accepted and read back.  This
  holds for elements with any tag and for integers.
\<close>

theorem der_canonical:
  assumes "length v \<le> MaxDER"
  shows "(get tag v = Some (x, r) \<longleftrightarrow> length x \<le> MaxDER \<and> v = tlv tag x @ r) \<and>
    (read_integer v = Some (x, r) \<longleftrightarrow> magnitude x \<and> v = write_integer x @ r)"
proof (rule conjI)
  show "get tag v = Some (x, r) \<longleftrightarrow> length x \<le> MaxDER \<and> v = tlv tag x @ r"
    using tlv_canonical [OF _ assms, of tag x r] get_length [of tag v x r] get_tlv [of x tag r] assms
    by fastforce
  show "read_integer v = Some (x, r) \<longleftrightarrow> magnitude x \<and> v = write_integer x @ r"
    using read_integer_canonical [OF _ assms, of x r] read_write_integer [of x r] by blast
qed

theorem der_canonical_witness:
  "read_integer [2, 2, 0, 200, 7] = Some ([200], [7])"
  using der_canonical [of "[2, 2, 0, 200, 7]" 2 "[200]" "[7]"]
  by (simp add: MaxDER_def magnitude_def write_integer_def tlv_def der_header_def byte_high)

end
