(* ===== verification/RsaKeys.thy ===== *)
theory RsaKeys
  imports DerCodec
begin

text \<open>
  RSA keys in PKCS #1, SubjectPublicKeyInfo and PKCS #8 form, plain and protected with
  PBES2 (\<^verbatim>\<open>src/plugins/qca-wincrypto/rsa_codec.cpp\<close>).  The key derivation of a QCA provider,
  the random bytes and the block ciphers of the operating system are parameters (record
  \<open>crypto\<close>).  The parts a decoder has filled in when it fails are not part of its result.
\<close>

section \<open>Parts of a key\<close>

record rsa_parts =
  rp_n :: bytes
  rp_e :: bytes
  rp_d :: bytes
  rp_p :: bytes
  rp_q :: bytes
  rp_dp :: bytes
  rp_dq :: bytes
  rp_qi :: bytes

definition oid_rsa :: bytes where
  "oid_rsa = [0x2a, 0x86, 0x48, 0x86, 0xf7, 0x0d, 0x01, 0x01, 0x01]"

definition rsaAlgorithm :: "bytes \<Rightarrow> bytes option" where
  "rsaAlgorithm reader = do {
     (algorithm, r) \<leftarrow> read_sequence reader;
     a \<leftarrow> read_oid oid_rsa algorithm;
     if nullOrEmpty a then Some r else None }"

definition publicParts :: "bytes \<Rightarrow> (bytes \<times> bytes) option" where
  "publicParts key = do {
     (n, k1) \<leftarrow> read_integer key;
     (e, k2) \<leftarrow> read_integer k1;
     if k2 = [] then Some (n, e) else None }"

definition privateParts :: "bytes \<Rightarrow> rsa_parts option" where
  "privateParts key = do {
     (version, k0) \<leftarrow> read_number key;
     if version \<noteq> 0 then None else do {
       (n, k1) \<leftarrow> read_integer k0;
       (e, k2) \<leftarrow> read_integer k1;
       (d, k3) \<leftarrow> read_integer k2;
       (p, k4) \<leftarrow> read_integer k3;
       (q, k5) \<leftarrow> read_integer k4;
       (dp, k6) \<leftarrow> read_integer k5;
       (dq, k7) \<leftarrow> read_integer k6;
       (qi, k8) \<leftarrow> read_integer k7;
       if k8 = [] then Some \<lparr> rp_n = n, rp_e = e, rp_d = d, rp_p = p, rp_q = q,
                             rp_dp = dp, rp_dq = dq, rp_qi = qi \<rparr>
       else None } }"

text \<open>The outer sequence of a file, which must be the whole file.\<close>

definition whole_sequence :: "bytes \<Rightarrow> bytes option" where
  "whole_sequence der =
     (if der = [] \<or> MaxDER < length der then None
      else do { (outer, r) \<leftarrow> read_sequence der; if r = [] then Some outer else None })"

definition plainPrivate :: "bytes \<Rightarrow> rsa_parts option" where
  "plainPrivate der = do {
     outer \<leftarrow> whole_sequence der;
     (version, probe) \<leftarrow> read_number outer;
     if version \<noteq> 0 then None
     else if reader_tag probe = 2 then privateParts outer
     else do {
       p1 \<leftarrow> rsaAlgorithm probe;
       (octets, p2) \<leftarrow> get 4 p1;
       if p2 \<noteq> [] then None else do {
         (key, r) \<leftarrow> read_sequence octets;
         if r = [] then privateParts key else None } } }"

section \<open>Protection with a passphrase\<close>

record crypto =
  cr_supported :: "string \<Rightarrow> bool" \<comment> \<open>a provider for \<^verbatim>\<open>pbkdf2(hash)\<close>\<close>
  cr_pbkdf2 :: "string \<Rightarrow> bytes \<Rightarrow> bytes \<Rightarrow> nat \<Rightarrow> nat \<Rightarrow> bytes" \<comment> \<open>hash, passphrase, salt, key size, iterations\<close>
  cr_encrypt :: "bool \<Rightarrow> bytes \<Rightarrow> bytes \<Rightarrow> bytes \<Rightarrow> bytes option" \<comment> \<open>Triple DES or AES, key, iv, input\<close>
  cr_decrypt :: "bool \<Rightarrow> bytes \<Rightarrow> bytes \<Rightarrow> bytes \<Rightarrow> bytes option"

record protection =
  pr_tripleDES :: bool
  pr_keySize :: nat
  pr_hash :: string
  pr_iterations :: u32
  pr_salt :: bytes
  pr_iv :: bytes

definition ExportIterations :: u32 where "ExportIterations = 1300000"

definition MaxKdfWork :: nat where "MaxKdfWork = 10000000"

definition new_protection :: protection where
  "new_protection = \<lparr> pr_tripleDES = False, pr_keySize = 32, pr_hash = ''sha1'',
     pr_iterations = ExportIterations, pr_salt = [], pr_iv = [] \<rparr>"

definition pr_blockSize :: "protection \<Rightarrow> nat" where
  "pr_blockSize p = (if pr_tripleDES p then 8 else 16)"

datatype PBEAlgorithm = PBEDefault | PBES2_DES_SHA1 | PBES2_TripleDES_SHA1 | PBES2_AES128_SHA1
  | PBES2_AES192_SHA1 | PBES2_AES256_SHA1

fun protectionAlgorithm :: "PBEAlgorithm \<Rightarrow> protection \<Rightarrow> protection option" where
  "protectionAlgorithm PBEDefault p = Some (p\<lparr> pr_tripleDES := True, pr_keySize := 24 \<rparr>)"
| "protectionAlgorithm PBES2_TripleDES_SHA1 p = Some (p\<lparr> pr_tripleDES := True, pr_keySize := 24 \<rparr>)"
| "protectionAlgorithm PBES2_AES128_SHA1 p = Some (p\<lparr> pr_keySize := 16 \<rparr>)"
| "protectionAlgorithm PBES2_AES192_SHA1 p = Some (p\<lparr> pr_keySize := 24 \<rparr>)"
| "protectionAlgorithm PBES2_AES256_SHA1 p = Some (p\<lparr> pr_keySize := 32 \<rparr>)"
| "protectionAlgorithm PBES2_DES_SHA1 p = None"

text \<open>The empty array stands for a failure, as in the code.\<close>

definition cbc :: "crypto \<Rightarrow> bytes \<Rightarrow> bytes \<Rightarrow> protection \<Rightarrow> bool \<Rightarrow> bytes" where
  "cbc cr inp key p encrypt =
     (if inp = [] \<or> MaxDER < length inp \<or> length key \<noteq> pr_keySize p \<or> length (pr_iv p) \<noteq> pr_blockSize p
      then []
      else case (if encrypt then cr_encrypt cr else cr_decrypt cr) (pr_tripleDES p) key (pr_iv p) inp of
        None \<Rightarrow> []
      | Some output \<Rightarrow> if length inp + pr_blockSize p < length output then [] else output)"

definition derive :: "crypto \<Rightarrow> bytes \<Rightarrow> protection \<Rightarrow> bytes" where
  "derive cr passphrase p =
     (let hashSize = (if pr_hash p = ''sha1'' then 20 else if pr_hash p = ''sha256'' then 32
                      else if pr_hash p = ''sha384'' then 48 else 64)
      in if pr_iterations p = 0 \<or>
            MaxKdfWork < unat (pr_iterations p) * ((pr_keySize p + hashSize - 1) div hashSize) \<or>
            1024 * 1024 < length passphrase \<or> pr_salt p = [] \<or> 1024 < length (pr_salt p)
         then []
         else if \<not> cr_supported cr (''pbkdf2('' @ pr_hash p @ '')'') then []
         else cr_pbkdf2 cr (pr_hash p) passphrase (pr_salt p) (pr_keySize p) (unat (pr_iterations p)))"

definition oid_pbes2 :: bytes where
  "oid_pbes2 = [0x2a, 0x86, 0x48, 0x86, 0xf7, 0x0d, 0x01, 0x05, 0x0d]"

definition oid_pbkdf2 :: bytes where
  "oid_pbkdf2 = [0x2a, 0x86, 0x48, 0x86, 0xf7, 0x0d, 0x01, 0x05, 0x0c]"

definition prf_oids :: "(bytes \<times> string) list" where
  "prf_oids = [([0x2a, 0x86, 0x48, 0x86, 0xf7, 0x0d, 0x02, 0x07], ''sha1''),
     ([0x2a, 0x86, 0x48, 0x86, 0xf7, 0x0d, 0x02, 0x09], ''sha256''),
     ([0x2a, 0x86, 0x48, 0x86, 0xf7, 0x0d, 0x02, 0x0a], ''sha384''),
     ([0x2a, 0x86, 0x48, 0x86, 0xf7, 0x0d, 0x02, 0x0b], ''sha512'')]"

definition oid_3des :: bytes where
  "oid_3des = [0x2a, 0x86, 0x48, 0x86, 0xf7, 0x0d, 0x03, 0x07]"

definition oid_aes :: "byte \<Rightarrow> bytes" where
  "oid_aes b = [0x60, 0x86, 0x48, 0x01, 0x65, 0x03, 0x04, 0x01, b]"

definition cipher_oids :: "(bytes \<times> (bool \<times> nat)) list" where
  "cipher_oids = [(oid_3des, (True, 24)), (oid_aes 0x02, (False, 16)), (oid_aes 0x16, (False, 24)),
     (oid_aes 0x2a, (False, 32))]"

text \<open>The chain of \<^verbatim>\<open>else if\<close> over a copy of the reader: the first object identifier that fits.\<close>

fun first_oid :: "(bytes \<times> 'a) list \<Rightarrow> bytes \<Rightarrow> ('a \<times> bytes) option" where
  "first_oid [] r = None"
| "first_oid ((oid, a) # oids) r =
     (case read_oid oid r of Some r' \<Rightarrow> Some (a, r') | None \<Rightarrow> first_oid oids r)"

text \<open>The optional parts of the key derivation parameters: key length and hash.\<close>

definition read_prf :: "bytes \<Rightarrow> protection \<Rightarrow> protection option" where
  "read_prf kdfParams p =
     (if kdfParams = [] then Some p
      else do {
        (prf, r) \<leftarrow> read_sequence kdfParams;
        if r \<noteq> [] then None else do {
          (hash, choice) \<leftarrow> first_oid prf_oids prf;
          if nullOrEmpty choice then Some (p\<lparr> pr_hash := hash \<rparr>) else None } })"

definition read_declared :: "bytes \<Rightarrow> (u32 \<times> bytes) option" where
  "read_declared kdfParams =
     (if reader_tag kdfParams = 2 then do {
        (declaredSize, r) \<leftarrow> read_number kdfParams;
        if declaredSize = 0 then None else Some (declaredSize, r) }
      else Some (0, kdfParams))"

definition read_kdf :: "bytes \<Rightarrow> protection \<Rightarrow> (protection \<times> u32) option" where
  "read_kdf kdf p = do {
     k1 \<leftarrow> read_oid oid_pbkdf2 kdf;
     (kdfParams, k2) \<leftarrow> read_sequence k1;
     if k2 \<noteq> [] then None else do {
       (salt, q1) \<leftarrow> get 4 kdfParams;
       if length salt < 1 \<or> 1024 < length salt then None else do {
         (iterations, q2) \<leftarrow> read_number q1;
         if iterations = 0 then None else do {
           (declaredSize, q3) \<leftarrow> read_declared q2;
           p' \<leftarrow> read_prf q3 (p\<lparr> pr_iterations := iterations, pr_salt := salt \<rparr>);
           Some (p', declaredSize) } } } }"

definition read_cipher :: "bytes \<Rightarrow> protection \<Rightarrow> u32 \<Rightarrow> protection option" where
  "read_cipher cipher p declaredSize = do {
     ((des, keySize), choice) \<leftarrow> first_oid cipher_oids cipher;
     let p = p\<lparr> pr_tripleDES := pr_tripleDES p \<or> des, pr_keySize := keySize \<rparr> in
     if declaredSize \<noteq> 0 \<and> unat declaredSize \<noteq> keySize then None
     else do {
       (iv, c2) \<leftarrow> get 4 choice;
       if c2 = [] \<and> length iv = pr_blockSize p then Some (p\<lparr> pr_iv := iv \<rparr>) else None } }"

definition readProtection :: "bytes \<Rightarrow> protection \<Rightarrow> (protection \<times> bytes) option" where
  "readProtection outer p = do {
     (algorithm, o1) \<leftarrow> read_sequence outer;
     a1 \<leftarrow> read_oid oid_pbes2 algorithm;
     (params, a2) \<leftarrow> read_sequence a1;
     if a2 \<noteq> [] then None else do {
       (kdf, m1) \<leftarrow> read_sequence params;
       (p1, declaredSize) \<leftarrow> read_kdf kdf p;
       (cipher, m2) \<leftarrow> read_sequence m1;
       if m2 \<noteq> [] then None else do {
         p2 \<leftarrow> read_cipher cipher p1 declaredSize;
         (encrypted, o2) \<leftarrow> get 4 o1;
         if o2 = [] \<and> encrypted \<noteq> [] \<and> length encrypted mod pr_blockSize p2 = 0
         then Some (p2, encrypted) else None } } }"

section \<open>Decoding and encoding\<close>

definition decodePublicRSA :: "bytes \<Rightarrow> (bytes \<times> bytes) option" where
  "decodePublicRSA der = do {
     outer \<leftarrow> whole_sequence der;
     if reader_tag outer = 2 then publicParts outer
     else do {
       o1 \<leftarrow> rsaAlgorithm outer;
       (bits, o2) \<leftarrow> get 3 o1;
       if o2 \<noteq> [] \<or> length bits < 2 \<or> bits ! 0 \<noteq> 0 then None
       else do {
         (key, r) \<leftarrow> read_sequence (drop 1 bits);
         if r = [] then publicParts key else None } } }"

text \<open>\<^verbatim>\<open>ConvertGood\<close> is the right summand of a result.\<close>

datatype ConvertResult = ErrorDecode | ErrorPassphrase | ErrorFile

definition decodePrivateRSA :: "crypto \<Rightarrow> bytes \<Rightarrow> bytes \<Rightarrow> ConvertResult + rsa_parts" where
  "decodePrivateRSA cr der passphrase =
     (case plainPrivate der of Some parts \<Rightarrow> Inr parts
      | None \<Rightarrow>
        (case whole_sequence der of None \<Rightarrow> Inl ErrorDecode
         | Some outer \<Rightarrow>
           (case readProtection outer new_protection of None \<Rightarrow> Inl ErrorDecode
            | Some (p, encrypted) \<Rightarrow>
                let key = derive cr passphrase p in
                if key = [] then Inl ErrorDecode
                else
                  let plain = cbc cr encrypted key p False in
                  if plain = [] then Inl ErrorPassphrase
                  else (case plainPrivate plain of Some parts \<Rightarrow> Inr parts
                        | None \<Rightarrow> Inl ErrorPassphrase))))"

definition encodePublicRSA :: "bytes \<Rightarrow> bytes \<Rightarrow> bytes" where
  "encodePublicRSA n e =
     (let body = write_sequence (write_integer n @ write_integer e) in
      if n = [] \<or> e = [] \<or> body = [] then []
      else write_sequence (write_sequence (write_oid oid_rsa @ tlv 5 []) @ tlv 3 ([0] @ body)))"

definition cipher_oid :: "protection \<Rightarrow> bytes" where
  "cipher_oid p = (if pr_tripleDES p then oid_3des else if pr_keySize p = 16 then oid_aes 0x02
     else if pr_keySize p = 24 then oid_aes 0x16 else oid_aes 0x2a)"

text \<open>\<open>salt16\<close> and \<open>rnd\<close> are the random bytes drawn for the salt and, by length, for the IV.\<close>

definition protectPrivateRSA :: "crypto \<Rightarrow> bytes \<Rightarrow> (nat \<Rightarrow> bytes) \<Rightarrow> bytes \<Rightarrow> bytes \<Rightarrow> PBEAlgorithm \<Rightarrow> bytes" where
  "protectPrivateRSA cr salt16 rnd der passphrase algorithm =
     (if passphrase = [] then der
      else if der = [] \<or> MaxDER < length der then []
      else (case protectionAlgorithm algorithm new_protection of None \<Rightarrow> []
        | Some p0 \<Rightarrow>
            let p = p0\<lparr> pr_salt := salt16, pr_iv := rnd (pr_blockSize p0) \<rparr>;
                key = derive cr passphrase p
            in if key = [] then []
               else
                 let encrypted = cbc cr der key p True in
                 if encrypted = [] then []
                 else
                   let kdf = write_sequence (write_oid oid_pbkdf2 @
                         write_sequence (tlv 4 (pr_salt p) @ write_number (pr_iterations p)));
                       cipher = write_sequence (write_oid (cipher_oid p) @ tlv 4 (pr_iv p))
                   in write_sequence (write_sequence (write_oid oid_pbes2 @ write_sequence (kdf @ cipher)) @
                        tlv 4 encrypted)))"

section \<open>Round trips\<close>

lemma read_write_sequence: "length x \<le> MaxDER \<Longrightarrow> read_sequence (write_sequence x @ r) = Some (x, r)"
  by (simp add: read_sequence_def write_sequence_def get_tlv)

lemma read_write_oid: "length x \<le> MaxDER \<Longrightarrow> read_oid x (write_oid x @ r) = Some r"
  by (simp add: read_oid_def write_oid_def get_tlv)

lemma read_other_oid: "length x \<le> MaxDER \<Longrightarrow> x \<noteq> y \<Longrightarrow> read_oid y (write_oid x @ r) = None"
  by (simp add: read_oid_def write_oid_def get_tlv)

lemma length_header: "n \<le> MaxDER \<Longrightarrow> length (der_header tag n) \<le> 5"
proof (cases "n < 128")
  case True
  then show ?thesis by (simp add: der_header_def)
next
  case False
  assume "n \<le> MaxDER"
  with False have "0 < n" "n < 256 ^ 3" by (simp_all add: MaxDER_def)
  from length_bytes_exist [OF this] obtain bs where "bs \<noteq> []" "length bs \<le> 3" "bs ! 0 \<noteq> 0" "be_nat bs = n" by blast
  with der_header_long [of bs tag] False show ?thesis by simp
qed

lemma length_tlv: "length (tlv tag x) \<le> length x + 5"
  using length_header [of "length x" tag] by (simp add: tlv_def)

lemma length_write_integer: "magnitude x \<Longrightarrow> length (write_integer x) \<le> 2054"
  using length_tlv [of 2 "0 # x"] length_tlv [of 2 x]
  by (auto simp: magnitude_def write_integer_def byte_high split: if_splits)

lemma tlv_not_Nil: "length x \<le> MaxDER \<Longrightarrow> tlv tag x \<noteq> []"
  by (simp add: tlv_def der_header_def)

lemma reader_tag_tlv: "length x \<le> MaxDER \<Longrightarrow> reader_tag (tlv tag x @ r) = int (unat tag)"
  by (simp add: tlv_def der_header_def reader_tag_def)

lemma tlv_Cons: "length x \<le> MaxDER \<Longrightarrow> \<exists>ys. tlv tag x = tag # ys"
  by (simp add: tlv_def der_header_def)

lemma get_other_tag: "length x \<le> MaxDER \<Longrightarrow> tag \<noteq> tag' \<Longrightarrow> get tag' (tlv tag x @ r) = None"
  using tlv_Cons [of x tag] by (auto simp: get_def)

lemma publicParts_write:
  assumes "magnitude n" and "magnitude e"
  shows "publicParts (write_integer n @ write_integer e) = Some (n, e)"
  using read_write_integer [OF assms(1)] read_write_integer [OF assms(2), of "[]"]
  by (simp add: publicParts_def)

lemma publicParts_canonical:
  assumes "publicParts key = Some (n, e)" and "length key \<le> MaxDER"
  shows "magnitude n \<and> magnitude e \<and> key = write_integer n @ write_integer e"
proof -
  obtain k1 where k1: "read_integer key = Some (n, k1)" "read_integer k1 = Some (e, [])"
    using assms(1) by (auto simp: publicParts_def split: if_splits bind_splits)
  from read_integer_canonical [OF k1(1) assms(2)] have a: "magnitude n" "key = write_integer n @ k1" by auto
  with assms(2) have "length k1 \<le> MaxDER" by simp
  from read_integer_canonical [OF k1(2) this] a show ?thesis by simp
qed

lemma whole_sequence_write:
  assumes "length outer \<le> 60000"
  shows "whole_sequence (write_sequence outer) = Some outer"
proof -
  have "length (write_sequence outer) \<le> MaxDER" "length outer \<le> MaxDER"
    using assms length_tlv [of "0x30" outer] by (simp_all add: write_sequence_def MaxDER_def)
  moreover have "write_sequence outer \<noteq> []" using calculation(2) by (simp add: write_sequence_def tlv_not_Nil)
  ultimately show ?thesis
    using read_write_sequence [of outer "[]"] by (simp add: whole_sequence_def)
qed

lemma whole_sequence_canonical:
  assumes "whole_sequence der = Some outer"
  shows "der = write_sequence outer" and "length outer < MaxDER"
proof -
  have r: "length der \<le> MaxDER" "get 0x30 der = Some (outer, [])"
    using assms by (auto simp: whole_sequence_def read_sequence_def split: if_splits bind_splits)
  from tlv_canonical [OF r(2,1)] get_length [OF r(2)] r(1)
  show "der = write_sequence outer" "length outer < MaxDER" by (simp_all add: write_sequence_def)
qed

text \<open>The three encodings of a public key: PKCS #1, and SubjectPublicKeyInfo with the
  algorithm's parameters present (as written) or absent.\<close>

definition pkcs1_public :: "bytes \<Rightarrow> bytes \<Rightarrow> bytes" where
  "pkcs1_public n e = write_sequence (write_integer n @ write_integer e)"

definition spki :: "bytes \<Rightarrow> bytes \<Rightarrow> bytes \<Rightarrow> bytes" where
  "spki params n e =
     write_sequence (write_sequence (write_oid oid_rsa @ params) @ tlv 3 ([0] @ pkcs1_public n e))"

lemma encode_is_spki: "magnitude n \<Longrightarrow> magnitude e \<Longrightarrow> encodePublicRSA n e = spki (tlv 5 []) n e"
  using length_write_integer [of n] length_write_integer [of e]
    tlv_not_Nil [of "write_integer n @ write_integer e" "0x30"]
  by (simp add: encodePublicRSA_def spki_def pkcs1_public_def Let_def write_sequence_def MaxDER_def
      magnitude_def)

lemma length_public_body:
  assumes "magnitude n" and "magnitude e"
  shows "length (write_integer n @ write_integer e) \<le> 4108" and "length (pkcs1_public n e) \<le> 4113"
  using length_write_integer [OF assms(1)] length_write_integer [OF assms(2)]
    length_tlv [of "0x30" "write_integer n @ write_integer e"]
  by (simp_all add: pkcs1_public_def write_sequence_def)

lemma rsaAlgorithm_write:
  assumes "params = [] \<or> params = tlv 5 []"
  shows "rsaAlgorithm (write_sequence (write_oid oid_rsa @ params) @ r) = Some r"
proof -
  have "length (tlv 5 []) = 2" "length (write_oid oid_rsa) \<le> 14"
    using length_tlv [of 6 oid_rsa] by (simp_all add: tlv_def der_header_def write_oid_def oid_rsa_def)
  then have "length (write_oid oid_rsa @ params) \<le> MaxDER"
    using assms by (auto simp: MaxDER_def)
  moreover have "nullOrEmpty params"
    using assms get_tlv [of "[]" 5 "[]"] by (auto simp: nullOrEmpty_def)
  moreover have "length oid_rsa \<le> MaxDER" by (simp add: oid_rsa_def MaxDER_def)
  ultimately show ?thesis
    by (simp add: rsaAlgorithm_def read_write_sequence read_write_oid)
qed

lemma rsaAlgorithm_canonical:
  assumes "rsaAlgorithm v = Some r" and "length v \<le> MaxDER"
  shows "\<exists>params. (params = [] \<or> params = tlv 5 []) \<and> v = write_sequence (write_oid oid_rsa @ params) @ r"
proof -
  obtain alg a where g: "get 0x30 v = Some (alg, r)" "read_oid oid_rsa alg = Some a" "nullOrEmpty a"
    using assms(1) by (auto simp: rsaAlgorithm_def read_sequence_def split: if_splits bind_splits)
  have v: "v = tlv 0x30 alg @ r" using tlv_canonical [OF g(1) assms(2)] .
  have la: "length alg \<le> MaxDER" using get_length [OF g(1)] assms(2) by simp
  have "get 6 alg = Some (oid_rsa, a)" using g(2) by (auto simp: read_oid_def split: option.splits if_splits)
  from tlv_canonical [OF this la] get_length [OF this] la
  have alg: "alg = write_oid oid_rsa @ a" "length a \<le> MaxDER" by (simp_all add: write_oid_def)
  have "a = [] \<or> a = tlv 5 []"
    using g(3) tlv_canonical [of 5 a "[]" "[]"] alg(2)
    by (auto simp: nullOrEmpty_def split: option.splits)
  with v alg show ?thesis by (auto simp: write_sequence_def)
qed

text \<open>
  Public keys.  The decoder accepts exactly three encodings of a modulus and an
  exponent (each without superfluous zeros and below the length limit): PKCS #1 and
  SubjectPublicKeyInfo for rsaEncryption with the parameters absent or \<^verbatim>\<open>NULL\<close>; the encoder
  writes the last of them, so decoding inverts encoding and nothing else decodes.
\<close>

theorem public_key_encodings:
  "decodePublicRSA der = Some (n, e) \<longleftrightarrow>
     magnitude n \<and> magnitude e \<and> der \<in> {encodePublicRSA n e, pkcs1_public n e, spki [] n e}"
proof
  assume a: "decodePublicRSA der = Some (n, e)"
  then obtain outer where o: "whole_sequence der = Some outer"
    by (auto simp: decodePublicRSA_def split: bind_splits)
  note w = whole_sequence_canonical [OF o]
  show "magnitude n \<and> magnitude e \<and> der \<in> {encodePublicRSA n e, pkcs1_public n e, spki [] n e}"
  proof (cases "reader_tag outer = 2")
    case True
    then have "publicParts outer = Some (n, e)" using a o by (simp add: decodePublicRSA_def)
    from publicParts_canonical [OF this] w show ?thesis by (auto simp: pkcs1_public_def)
  next
    case False
    then obtain o1 bits key where p: "rsaAlgorithm outer = Some o1" "get 3 o1 = Some (bits, [])"
        "2 \<le> length bits" "bits ! 0 = 0" "get 0x30 (drop 1 bits) = Some (key, [])" "publicParts key = Some (n, e)"
      using a o by (auto simp: decodePublicRSA_def read_sequence_def not_less split: if_splits bind_splits)
    obtain params where pr: "params = [] \<or> params = tlv 5 []" "outer = write_sequence (write_oid oid_rsa @ params) @ o1"
      using rsaAlgorithm_canonical [OF p(1)] w(2) by auto
    have l1: "length o1 \<le> MaxDER" using w(2) pr(2) by simp
    have o1: "o1 = tlv 3 bits" "length bits \<le> MaxDER" using tlv_canonical [OF p(2) l1] get_length [OF p(2)] l1 by simp_all
    have b: "bits = [0] @ drop 1 bits" using p(3,4) by (cases bits) auto
    have "length key < length (drop 1 bits)" using get_length [OF p(5)] by simp
    then have lk: "length key \<le> MaxDER" using o1(2) by simp
    have "drop 1 bits = write_sequence key"
      using tlv_canonical [OF p(5)] o1(2) by (simp add: write_sequence_def)
    moreover from publicParts_canonical [OF p(6) lk]
    have ne: "magnitude n" "magnitude e" "key = write_integer n @ write_integer e" by auto
    ultimately have "der = spki params n e"
      using w(1) pr(2) o1(1) b by (simp add: spki_def pkcs1_public_def)
    with ne pr(1) show ?thesis by (auto simp: encode_is_spki)
  qed
next
  assume a: "magnitude n \<and> magnitude e \<and> der \<in> {encodePublicRSA n e, pkcs1_public n e, spki [] n e}"
  then have ne: "magnitude n" "magnitude e" by auto
  note len = length_public_body [OF ne]
  have p1: "decodePublicRSA (pkcs1_public n e) = Some (n, e)"
  proof -
    have "\<exists>ys. write_integer n = 2 # ys"
      using ne(1) tlv_Cons [of "0 # n" 2] tlv_Cons [of n 2] by (auto simp: write_integer_def magnitude_def MaxDER_def split: if_splits)
    then have "reader_tag (write_integer n @ write_integer e) = 2" by (auto simp: reader_tag_def)
    with whole_sequence_write [of "write_integer n @ write_integer e"] len publicParts_write [OF ne]
    show ?thesis by (simp add: decodePublicRSA_def pkcs1_public_def)
  qed
  have p2: "decodePublicRSA (spki params n e) = Some (n, e)" if pr: "params = [] \<or> params = tlv 5 []" for params
  proof -
    let ?alg = "write_sequence (write_oid oid_rsa @ params)" and ?bits = "[0] @ pkcs1_public n e"
    have "length (tlv 5 []) = 2" by (simp add: tlv_def der_header_def)
    then have la: "length (write_oid oid_rsa @ params) \<le> 16"
      using pr length_tlv [of 6 oid_rsa] by (auto simp: write_oid_def oid_rsa_def)
    then have l: "length (?alg @ tlv 3 ?bits) \<le> 60000"
      using len(2) length_tlv [of "0x30" "write_oid oid_rsa @ params"] length_tlv [of 3 ?bits]
      by (simp add: write_sequence_def)
    have t: "reader_tag (?alg @ tlv 3 ?bits) \<noteq> 2"
      using la reader_tag_tlv [of "write_oid oid_rsa @ params" "0x30"] by (simp add: write_sequence_def MaxDER_def)
    have "get 3 (tlv 3 ?bits) = Some (?bits, [])"
      using get_tlv [of ?bits 3 "[]"] len(2) by (simp add: MaxDER_def)
    moreover have "read_sequence (pkcs1_public n e) = Some (write_integer n @ write_integer e, [])"
      using read_write_sequence [of "write_integer n @ write_integer e" "[]"] len by (simp add: pkcs1_public_def MaxDER_def)
    moreover have "pkcs1_public n e \<noteq> []"
      using tlv_not_Nil [of "write_integer n @ write_integer e" "0x30"] len by (simp add: pkcs1_public_def write_sequence_def MaxDER_def)
    ultimately show ?thesis
      using whole_sequence_write [OF l] t rsaAlgorithm_write [OF pr] publicParts_write [OF ne]
      by (simp add: decodePublicRSA_def spki_def Suc_le_eq)
  qed
  show "decodePublicRSA der = Some (n, e)"
    using a p1 p2 encode_is_spki [OF ne] by auto
qed

section \<open>Protected private keys\<close>

text \<open>The documented behaviour of the ciphers: with the same key and IV, decryption inverts
  encryption, a ciphertext is not empty, consists of whole blocks and has at most one
  block of padding.\<close>

definition cipher_inverse :: "crypto \<Rightarrow> bool" where
  "cipher_inverse cr \<longleftrightarrow> (\<forall>des key iv x. x \<noteq> [] \<longrightarrow>
     (\<exists>y. cr_encrypt cr des key iv x = Some y \<and> y \<noteq> [] \<and> length y mod (if des then 8 else 16) = 0
        \<and> length y \<le> length x + (if des then 8 else 16) \<and> length x \<le> length y
        \<and> cr_decrypt cr des key iv y = Some x))"

lemma cbc_round_trip:
  assumes "cipher_inverse cr" and "x \<noteq> []" and "length x \<le> 60000"
    and "length key = pr_keySize p" and "length (pr_iv p) = pr_blockSize p"
  shows "cbc cr x key p True \<noteq> []" and "length (cbc cr x key p True) mod pr_blockSize p = 0"
    and "length (cbc cr x key p True) \<le> 60016" and "cbc cr (cbc cr x key p True) key p False = x"
proof -
  from assms(1) [unfolded cipher_inverse_def, rule_format, OF assms(2), of "pr_tripleDES p" key "pr_iv p", folded pr_blockSize_def]
  obtain y where y: "cr_encrypt cr (pr_tripleDES p) key (pr_iv p) x = Some y" "y \<noteq> []"
      "length y mod pr_blockSize p = 0" "length y \<le> length x + pr_blockSize p" "length x \<le> length y"
      "cr_decrypt cr (pr_tripleDES p) key (pr_iv p) y = Some x"
    by (elim exE conjE) (rule that)
  have b: "pr_blockSize p \<le> 16" by (simp add: pr_blockSize_def)
  have "cbc cr x key p True = y" using assms y by (simp add: cbc_def MaxDER_def)
  moreover have "cbc cr y key p False = x" using assms y b by (simp add: cbc_def MaxDER_def)
  ultimately show "cbc cr x key p True \<noteq> []" "length (cbc cr x key p True) mod pr_blockSize p = 0"
    "length (cbc cr x key p True) \<le> 60016" "cbc cr (cbc cr x key p True) key p False = x"
    using y assms(3) b by simp_all
qed

text \<open>The parameters as they are written.\<close>

definition kdf_block :: "protection \<Rightarrow> bytes" where
  "kdf_block p = write_oid oid_pbkdf2 @ write_sequence (tlv 4 (pr_salt p) @ write_number (pr_iterations p))"

definition cipher_block :: "protection \<Rightarrow> bytes" where
  "cipher_block p = write_oid (cipher_oid p) @ tlv 4 (pr_iv p)"

definition written_form :: "protection \<Rightarrow> bool" where
  "written_form p \<longleftrightarrow> pr_hash p = ''sha1'' \<and> pr_iterations p \<noteq> 0 \<and> pr_salt p \<noteq> [] \<and> length (pr_salt p) \<le> 1024
     \<and> length (pr_iv p) = pr_blockSize p
     \<and> (pr_tripleDES p \<and> pr_keySize p = 24 \<or> \<not> pr_tripleDES p \<and> pr_keySize p \<in> {16, 24, 32})"

lemma length_write_number: "length (write_number n) \<le> 10"
proof -
  let ?b = "be_bytes (number_count n) (unat n)"
  have "length ?b \<le> 4" using number_bytes(2) .
  then show ?thesis
    using length_tlv [of 2 "0 # ?b"] length_tlv [of 2 ?b] by (simp add: write_number_def write_integer_def)
qed

lemma read_kdf_block:
  assumes "written_form p" and "pr_hash q = ''sha1''"
  shows "read_kdf (kdf_block p) q = Some (q\<lparr> pr_iterations := pr_iterations p, pr_salt := pr_salt p \<rparr>, 0)"
    and "length (kdf_block p) \<le> 1100"
proof -
  let ?params = "tlv 4 (pr_salt p) @ write_number (pr_iterations p)"
  have s: "length (pr_salt p) \<le> 1024" "pr_salt p \<noteq> []" "pr_iterations p \<noteq> 0"
    using assms by (simp_all add: written_form_def)
  have lp: "length ?params \<le> 1040"
    using length_tlv [of 4 "pr_salt p"] length_write_number [of "pr_iterations p"] s by simp
  have lo: "length oid_pbkdf2 = 9" by (simp add: oid_pbkdf2_def)
  show "length (kdf_block p) \<le> 1100"
    using lp length_tlv [of 6 oid_pbkdf2] lo length_tlv [of "0x30" ?params]
    by (simp add: kdf_block_def write_oid_def write_sequence_def)
  have "read_oid oid_pbkdf2 (kdf_block p) = Some (write_sequence ?params)"
    using lo by (simp add: kdf_block_def read_write_oid MaxDER_def)
  moreover have "read_sequence (write_sequence ?params) = Some (?params, [])"
    using read_write_sequence [of ?params "[]"] lp by (simp add: MaxDER_def)
  moreover have "get 4 ?params = Some (pr_salt p, write_number (pr_iterations p))"
    using s by (simp add: get_tlv MaxDER_def)
  moreover have "read_number (write_number (pr_iterations p)) = Some (pr_iterations p, [])"
    using read_write_number [of "pr_iterations p" "[]"] by simp
  ultimately show "read_kdf (kdf_block p) q = Some (q\<lparr> pr_iterations := pr_iterations p, pr_salt := pr_salt p \<rparr>, 0)"
    using s by (simp add: read_kdf_def read_declared_def read_prf_def reader_tag_def Suc_le_eq)
qed

lemma read_cipher_block:
  assumes "written_form p"
  shows "\<not> pr_tripleDES q \<Longrightarrow> read_cipher (cipher_block p) q 0 =
      Some (q\<lparr> pr_tripleDES := pr_tripleDES p, pr_keySize := pr_keySize p, pr_iv := pr_iv p \<rparr>)"
    and "length (cipher_block p) \<le> 40"
proof -
  have l: "length (cipher_oid p) \<le> 9" by (simp add: cipher_oid_def oid_3des_def oid_aes_def)
  have li: "length (pr_iv p) = pr_blockSize p" "pr_blockSize p \<le> 16"
    using assms by (simp_all add: written_form_def pr_blockSize_def)
  show "length (cipher_block p) \<le> 40"
    using l li length_tlv [of 6 "cipher_oid p"] length_tlv [of 4 "pr_iv p"]
    by (simp add: cipher_block_def write_oid_def)
  have rd: "read_oid o' (cipher_block p) = (if o' = cipher_oid p then Some (tlv 4 (pr_iv p)) else None)" for o'
    using l read_write_oid [of "cipher_oid p" "tlv 4 (pr_iv p)"] read_other_oid [of "cipher_oid p" o' "tlv 4 (pr_iv p)"]
    by (simp add: cipher_block_def MaxDER_def)
  have g: "get 4 (tlv 4 (pr_iv p)) = Some (pr_iv p, [])"
    using get_tlv [of "pr_iv p" 4 "[]"] li by (simp add: MaxDER_def)
  have k: "pr_tripleDES p \<and> pr_keySize p = 24 \<or> \<not> pr_tripleDES p \<and> (pr_keySize p = 16 \<or> pr_keySize p = 24 \<or> pr_keySize p = 32)"
    using assms by (auto simp: written_form_def)
  have f: "first_oid cipher_oids (cipher_block p) = Some ((pr_tripleDES p, pr_keySize p), tlv 4 (pr_iv p))"
    using k by (auto simp: cipher_oids_def rd cipher_oid_def oid_3des_def oid_aes_def)
  show "read_cipher (cipher_block p) q 0 =
      Some (q\<lparr> pr_tripleDES := pr_tripleDES p, pr_keySize := pr_keySize p, pr_iv := pr_iv p \<rparr>)"
    if "\<not> pr_tripleDES q"
    using f g li(1) that by (simp add: read_cipher_def pr_blockSize_def Let_def)
qed

lemma readProtection_written:
  assumes "written_form p" and "enc \<noteq> []" and "length enc \<le> 60016" and "length enc mod pr_blockSize p = 0"
  defines "outer \<equiv> write_sequence (write_oid oid_pbes2 @ write_sequence (write_sequence (kdf_block p) @
      write_sequence (cipher_block p))) @ tlv 4 enc"
  shows "readProtection outer new_protection = Some (p, enc)" and "length outer \<le> 62000"
    and "reader_tag outer = 0x30"
proof -
  let ?kc = "write_sequence (kdf_block p) @ write_sequence (cipher_block p)"
  let ?alg = "write_oid oid_pbes2 @ write_sequence ?kc"
  have h: "pr_hash new_protection = ''sha1''" by (simp add: new_protection_def)
  note K = read_kdf_block [OF assms(1) h] and C = read_cipher_block [OF assms(1)]
  have lo: "length oid_pbes2 = 9" by (simp add: oid_pbes2_def)
  have lkc: "length ?kc \<le> 1150"
    using K(2) C(2) length_tlv [of "0x30" "kdf_block p"] length_tlv [of "0x30" "cipher_block p"]
    by (simp add: write_sequence_def)
  have lalg: "length ?alg \<le> 1180"
    using lkc lo length_tlv [of 6 oid_pbes2] length_tlv [of "0x30" ?kc] by (simp add: write_oid_def write_sequence_def)
  show "length outer \<le> 62000"
    using lalg assms(3) length_tlv [of "0x30" ?alg] length_tlv [of 4 enc] by (simp add: outer_def write_sequence_def)
  show "reader_tag outer = 0x30"
    using lalg reader_tag_tlv [of ?alg "0x30"] by (simp add: outer_def write_sequence_def MaxDER_def)
  have p: "new_protection\<lparr> pr_iterations := pr_iterations p, pr_salt := pr_salt p, pr_tripleDES := pr_tripleDES p,
      pr_keySize := pr_keySize p, pr_iv := pr_iv p \<rparr> = p"
    using assms(1) by (simp add: new_protection_def written_form_def)
  have "read_sequence outer = Some (?alg, tlv 4 enc)"
    using lalg by (simp add: outer_def read_write_sequence MaxDER_def)
  moreover have "read_oid oid_pbes2 ?alg = Some (write_sequence ?kc)"
    using lo by (simp add: read_write_oid MaxDER_def)
  moreover have "read_sequence (write_sequence ?kc) = Some (?kc, [])"
    using read_write_sequence [of ?kc "[]"] lkc by (simp add: MaxDER_def)
  moreover have "read_sequence ?kc = Some (kdf_block p, write_sequence (cipher_block p))"
    using K(2) by (simp add: read_write_sequence MaxDER_def)
  moreover have "read_sequence (write_sequence (cipher_block p)) = Some (cipher_block p, [])"
    using read_write_sequence [of "cipher_block p" "[]"] C(2) by (simp add: MaxDER_def)
  moreover have "get 4 (tlv 4 enc) = Some (enc, [])"
    using get_tlv [of enc 4 "[]"] assms(3) by (simp add: MaxDER_def)
  ultimately show "readProtection outer new_protection = Some (p, enc)"
    using K(1) C(1) [of "new_protection\<lparr> pr_iterations := pr_iterations p, pr_salt := pr_salt p \<rparr>"] p assms(2,4)
    by (simp add: readProtection_def new_protection_def)
qed

lemma read_number_other: "reader_tag v \<noteq> 2 \<Longrightarrow> read_number v = None"
proof -
  assume "reader_tag v \<noteq> 2"
  then have "v = [] \<or> v ! 0 \<noteq> 2" by (auto simp: reader_tag_def)
  then have "get 2 v = None" by (auto simp: get_def)
  then show ?thesis by (simp add: read_number_def read_integer_def)
qed

text \<open>
  C13. Protected keys.  Encrypting a private key (any plain encoding the decoder accepts, up
  to 60000 bytes) under a passphrase with one of the supported algorithms, and decoding
  the result with the same passphrase, gives the parts of the key back: the parameters
  written for the key derivation and the cipher are exactly those read back.
\<close>

theorem protected_key_round_trip:
  assumes "cipher_inverse cr" and "cr_supported cr ''pbkdf2(sha1)''"
    and "\<And>hash pw salt k i. length (cr_pbkdf2 cr hash pw salt k i) = k"
    and "length salt16 = 16" and "\<And>k. length (rnd k) = k"
    and "algorithm \<noteq> PBES2_DES_SHA1" and "passphrase \<noteq> []" and "length passphrase \<le> 1024 * 1024"
    and "plainPrivate der = Some parts" and "length der \<le> 60000"
  shows "decodePrivateRSA cr (protectPrivateRSA cr salt16 rnd der passphrase algorithm) passphrase = Inr parts"
proof -
  obtain p0 where p0: "protectionAlgorithm algorithm new_protection = Some p0"
    using assms(6) by (cases algorithm) auto
  define p where "p = p0\<lparr> pr_salt := salt16, pr_iv := rnd (pr_blockSize p0) \<rparr>"
  have f: "pr_hash p = ''sha1''" "pr_iterations p = ExportIterations" "pr_salt p = salt16"
    "pr_iv p = rnd (pr_blockSize p)" "pr_keySize p \<in> {16, 24, 32}" "written_form p"
    using p0 assms(4,5)
    by (cases algorithm; auto simp: p_def new_protection_def written_form_def pr_blockSize_def ExportIterations_def)+
  define key where "key = derive cr passphrase p"
  have e: "unat (pr_iterations p) = 1300000" by (simp add: f ExportIterations_def)
  have "key = cr_pbkdf2 cr ''sha1'' passphrase salt16 (pr_keySize p) 1300000"
    unfolding key_def derive_def Let_def using f e assms(2,4,8)
    by (auto simp: MaxKdfWork_def ExportIterations_def)
  then have key1: "length key = pr_keySize p" by (simp only: assms(3))
  then have "0 < length key" using f(5) by auto
  then have "key \<noteq> []" by auto
  with key1 have key: "length key = pr_keySize p" "key \<noteq> []" by simp_all
  have d: "der \<noteq> []" using assms(9) by (auto simp: plainPrivate_def whole_sequence_def split: bind_splits)
  define enc where "enc = cbc cr der key p True"
  have iv: "length (pr_iv p) = pr_blockSize p" using f(4) assms(5) by simp
  note c = cbc_round_trip [OF assms(1) d assms(10) key(1) iv, folded enc_def]
  define outer where "outer = write_sequence (write_oid oid_pbes2 @ write_sequence (write_sequence (kdf_block p) @
      write_sequence (cipher_block p))) @ tlv 4 enc"
  note r = readProtection_written [OF f(6) c(1,3,2), folded outer_def]
  have out: "protectPrivateRSA cr salt16 rnd der passphrase algorithm = write_sequence outer"
    using assms(7,10) d p0 key(2) c(1)
    by (simp add: protectPrivateRSA_def Let_def p_def [symmetric] key_def [symmetric] enc_def [symmetric]
        outer_def kdf_block_def cipher_block_def MaxDER_def)
  have l: "length (write_sequence outer) \<le> MaxDER" "length outer \<le> MaxDER"
    using r(2) length_tlv [of "0x30" outer] by (simp_all add: write_sequence_def MaxDER_def)
  have w: "whole_sequence (write_sequence outer) = Some outer"
    using l read_write_sequence [of outer "[]"] tlv_not_Nil [of outer "0x30"]
    by (simp add: whole_sequence_def write_sequence_def)
  have "plainPrivate (write_sequence outer) = None"
    using w r(3) by (simp add: plainPrivate_def read_number_other)
  then show ?thesis
    using w r(1) key(2) c(4) d assms(9) by (simp add: out decodePrivateRSA_def key_def [symmetric])
qed

text \<open>A stand-in for the ciphers in the witness: it only pads.\<close>

definition pad_crypto :: crypto where
  "pad_crypto = \<lparr> cr_supported = \<lambda>_. True, cr_pbkdf2 = \<lambda>_ _ _ k _. replicate k 0,
     cr_encrypt = \<lambda>des _ _ x. let b = (if des then 8 else 16); n = b - length x mod b
                                in Some (x @ replicate n (word_of_nat n)),
     cr_decrypt = \<lambda>_ _ _ y. Some (take (length y - unat (last y)) y) \<rparr>"

lemma pad_crypto_inverse: "cipher_inverse pad_crypto"
  unfolding cipher_inverse_def
proof (intro allI impI)
  fix des key iv and x :: bytes
  define b where "b = (if des then 8 else 16 :: nat)"
  define n where "n = b - length x mod b"
  have b: "0 < b" "b \<le> 16" by (simp_all add: b_def)
  then have "length x mod b < b" by simp
  then have n: "0 < n" "n \<le> b" by (simp_all add: n_def)
  have "length x + n = (length x div b + 1) * b"
  proof -
    define q r where "q = length x div b" and "r = length x mod b"
    then have "length x = q * b + r" "r < b" using b by simp_all
    then show ?thesis by (simp add: n_def flip: q_def r_def)
  qed
  then have "(length x + n) mod b = 0" by (simp only: mod_mult_self2_is_0)
  moreover have "unat (word_of_nat n :: byte) = n" using n b by (simp add: unat_of_nat)
  ultimately show "\<exists>y. cr_encrypt pad_crypto des key iv x = Some y \<and> y \<noteq> [] \<and> length y mod (if des then 8 else 16) = 0
      \<and> length y \<le> length x + (if des then 8 else 16) \<and> length x \<le> length y
      \<and> cr_decrypt pad_crypto des key iv y = Some x"
    using n unfolding pad_crypto_def Let_def crypto.select_convs b_def [symmetric] n_def [symmetric] by simp
qed

definition tiny_key :: bytes where
  "tiny_key = [0x30, 27, 2, 1, 0, 2, 1, 1, 2, 1, 1, 2, 1, 1, 2, 1, 1, 2, 1, 1, 2, 1, 1, 2, 1, 1, 2, 1, 1]"

definition tiny_parts :: rsa_parts where
  "tiny_parts = \<lparr> rp_n = [1], rp_e = [1], rp_d = [1], rp_p = [1], rp_q = [1], rp_dp = [1], rp_dq = [1], rp_qi = [1] \<rparr>"

lemma plainPrivate_tiny: "plainPrivate tiny_key = Some tiny_parts"
proof -
  have i: "read_integer (2 # 1 # 1 # r) = Some ([1], r)" for r
    by (simp add: read_integer_def get_def get_size_def Let_def)
  have n: "read_number (2 # 1 # 0 # r) = Some (0, r)" for r
    by (simp add: read_number_def read_integer_def get_def get_size_def Let_def)
  have "read_integer [2, 1, 1] = Some ([1], [])" using i [of "[]"] by simp
  moreover have "whole_sequence tiny_key = Some (drop 2 tiny_key)"
    by (simp add: tiny_key_def whole_sequence_def read_sequence_def get_def get_size_def Let_def MaxDER_def)
  ultimately show ?thesis
    by (simp add: plainPrivate_def privateParts_def tiny_key_def i n reader_tag_def tiny_parts_def)
qed

theorem protected_key_round_trip_witness:
  "decodePrivateRSA pad_crypto
     (protectPrivateRSA pad_crypto (replicate 16 7) (\<lambda>k. replicate k 9) tiny_key [112, 119] PBES2_AES256_SHA1)
     [112, 119] = Inr tiny_parts"
  by (rule protected_key_round_trip [OF pad_crypto_inverse])
    (simp_all add: plainPrivate_tiny, simp_all add: pad_crypto_def tiny_key_def)

end
