(* ===== verification/BigIntOps.thy ===== *)
theory BigIntOps
  imports DerCodec
begin

text \<open>
  \<^verbatim>\<open>QCA::BigInteger\<close> (\<^verbatim>\<open>src/src/qca_tools.cpp\<close>) and the sign-and-magnitude arithmetic below it
  (\<^verbatim>\<open>Botan::BigInt\<close>, \<^verbatim>\<open>src/src/botantools/botan\<close>).  A magnitude is a natural number; every
  decision about signs, zero and special cases is the code's.  That the registers of words
  and the word-array routines behind the operations compute this arithmetic is proved in
  \<open>BigReg\<close>.  \<open>bi_val\<close> is the integer a value stands for.
\<close>

section \<open>Sign and magnitude\<close>

record bigint =
  bi_neg :: bool
  bi_mag :: nat

definition bi_val :: "bigint \<Rightarrow> int" where
  "bi_val x = (if bi_neg x then - int (bi_mag x) else int (bi_mag x))"

text \<open>No negative zero.\<close>

definition bi_ok :: "bigint \<Rightarrow> bool" where
  "bi_ok x \<longleftrightarrow> (bi_mag x = 0 \<longrightarrow> \<not> bi_neg x)"

definition set_sign :: "bool \<Rightarrow> bigint \<Rightarrow> bigint" where
  "set_sign neg x = (if bi_mag x = 0 then x\<lparr> bi_neg := False \<rparr> else x\<lparr> bi_neg := neg \<rparr>)"

definition flip_sign :: "bigint \<Rightarrow> bigint" where
  "flip_sign x = set_sign (\<not> bi_neg x) x"

definition bi_nat :: "nat \<Rightarrow> bigint" where
  "bi_nat n = \<lparr> bi_neg = False, bi_mag = n \<rparr>"

definition bi_cmp :: "bigint \<Rightarrow> bigint \<Rightarrow> bool \<Rightarrow> int" where
  "bi_cmp x n check_signs =
     (let c = (if bi_mag x < bi_mag n then - 1 else if bi_mag x = bi_mag n then 0 else 1) in
      if check_signs then
        if \<not> bi_neg n \<and> bi_neg x then - 1
        else if bi_neg n \<and> \<not> bi_neg x then 1
        else if bi_neg n \<and> bi_neg x then - c
        else c
      else c)"

definition bi_add :: "bigint \<Rightarrow> bigint \<Rightarrow> bigint" where
  "bi_add x y =
     (if bi_neg x = bi_neg y then x\<lparr> bi_mag := bi_mag x + bi_mag y \<rparr>
      else if bi_mag x < bi_mag y then set_sign (bi_neg y) (x\<lparr> bi_mag := bi_mag y - bi_mag x \<rparr>)
      else if bi_mag x = bi_mag y then set_sign False (x\<lparr> bi_mag := 0 \<rparr>)
      else x\<lparr> bi_mag := bi_mag x - bi_mag y \<rparr>)"

definition bi_sub :: "bigint \<Rightarrow> bigint \<Rightarrow> bigint" where
  "bi_sub x y =
     (if bi_mag x < bi_mag y then
        set_sign (\<not> bi_neg y)
          (x\<lparr> bi_mag := if bi_neg x = bi_neg y then bi_mag y - bi_mag x else bi_mag x + bi_mag y \<rparr>)
      else if bi_mag x = bi_mag y then
        (if bi_neg x = bi_neg y then set_sign False (x\<lparr> bi_mag := 0 \<rparr>)
         else x\<lparr> bi_mag := push_bit 1 (bi_mag x) \<rparr>)
      else x\<lparr> bi_mag := if bi_neg x = bi_neg y then bi_mag x - bi_mag y else bi_mag x + bi_mag y \<rparr>)"

definition bi_mul :: "bigint \<Rightarrow> bigint \<Rightarrow> bigint" where
  "bi_mul x y =
     (let x1 = set_sign (bi_neg x \<noteq> bi_neg y) x in
      if bi_mag x = 0 \<or> bi_mag y = 0 then set_sign False (x1\<lparr> bi_mag := 0 \<rparr>)
      else x1\<lparr> bi_mag := bi_mag x * bi_mag y \<rparr>)"

definition power_of_2 :: "nat \<Rightarrow> bool" where
  "power_of_2 n = (if n = 0 \<or> n = 1 then False else n AND (n - 1) = 0)"

fun bit_length :: "nat \<Rightarrow> nat" where
  "bit_length n = (if n = 0 then 0 else Suc (bit_length (n div 2)))"

declare bit_length.simps [simp del]

definition bi_shr :: "bigint \<Rightarrow> nat \<Rightarrow> bigint" where
  "bi_shr x n =
     (if n = 0 then x
      else let x1 = x\<lparr> bi_mag := drop_bit n (bi_mag x) \<rparr> in
        if bi_mag x1 = 0 then set_sign False x1 else x1)"

definition bi_shl :: "bigint \<Rightarrow> nat \<Rightarrow> bigint" where
  "bi_shl x n = (if n = 0 then x else x\<lparr> bi_mag := push_bit n (bi_mag x) \<rparr>)"

section \<open>Values\<close>

lemmas bi_defs = bi_val_def bi_ok_def set_sign_def flip_sign_def bi_nat_def

lemma bi_nat_val [simp]: "bi_val (bi_nat n) = int n" "bi_ok (bi_nat n)" "bi_mag (bi_nat n) = n" "bi_neg (bi_nat n) = False"
  by (simp_all add: bi_defs)

lemma bi_add_val: "bi_ok x \<Longrightarrow> bi_ok y \<Longrightarrow> bi_val (bi_add x y) = bi_val x + bi_val y \<and> bi_ok (bi_add x y)"
  by (auto simp: bi_add_def bi_defs)

lemma bi_sub_val: "bi_ok x \<Longrightarrow> bi_ok y \<Longrightarrow> bi_val (bi_sub x y) = bi_val x - bi_val y \<and> bi_ok (bi_sub x y)"
  by (auto simp: bi_sub_def bi_defs push_bit_eq_mult)

lemma bi_mul_val: "bi_ok x \<Longrightarrow> bi_ok y \<Longrightarrow> bi_val (bi_mul x y) = bi_val x * bi_val y \<and> bi_ok (bi_mul x y)"
  by (auto simp: bi_mul_def bi_defs Let_def)

lemma bi_cmp_val: "bi_ok x \<Longrightarrow> bi_ok y \<Longrightarrow> bi_cmp x y True = sgn (bi_val x - bi_val y)"
  by (auto simp: bi_cmp_def bi_defs Let_def sgn_if)

lemma bi_val_inj: "bi_ok x \<Longrightarrow> bi_ok y \<Longrightarrow> bi_val x = bi_val y \<Longrightarrow> x = y"
  by (cases x; cases y) (auto simp: bi_defs split: if_splits)

lemma bi_val_0: "bi_ok x \<Longrightarrow> bi_mag x = 0 \<longleftrightarrow> bi_val x = 0"
  by (auto simp: bi_defs)

section \<open>Shifts and powers of two\<close>

lemma bit_length_0 [simp]: "bit_length 0 = 0"
  by (simp add: bit_length.simps)

lemma bit_length_pos: "0 < n \<Longrightarrow> bit_length n = Suc (bit_length (n div 2))"
  by (subst bit_length.simps) simp

lemma bit_length_bounds: "0 < n \<Longrightarrow> 2 ^ (bit_length n - 1) \<le> n \<and> n < 2 ^ bit_length n"
proof (induction n rule: less_induct)
  case (less n)
  show ?case
  proof (cases "n = 1")
    case True
    then show ?thesis by (simp add: bit_length_pos)
  next
    case False
    then have h: "0 < n div 2" "n div 2 < n" using less.prems by auto
    from less.IH [OF h(2,1)] have "2 ^ (bit_length (n div 2) - 1) \<le> n div 2" "n div 2 < 2 ^ bit_length (n div 2)" by auto
    moreover have "0 < bit_length (n div 2)" using h(1) by (simp add: bit_length_pos)
    ultimately show ?thesis
      using less.prems by (cases "bit_length (n div 2)") (auto simp: bit_length_pos [of n])
  qed
qed

lemma power_of_2_eq:
  assumes "power_of_2 n"
  shows "n = 2 ^ (bit_length n - 1)" and "2 \<le> n"
proof -
  define k where "k = bit_length n - 1"
  have n: "2 \<le> n" "n AND (n - 1) = 0" using assms by (auto simp: power_of_2_def split: if_splits)
  then show "2 \<le> n" by simp
  have "0 < bit_length n" using n by (simp add: bit_length_pos)
  then have k: "2 ^ k \<le> n" "n < 2 ^ Suc k" using bit_length_bounds [of n] n by (auto simp: k_def)
  have bit: "bit m k" if "2 ^ k \<le> m" "m < 2 ^ Suc k" for m :: nat
  proof -
    have "m div 2 ^ k = 1" using that by (intro div_nat_eqI) simp_all
    then show ?thesis by (simp add: bit_iff_odd)
  qed
  show "n = 2 ^ (bit_length n - 1)"
  proof (rule ccontr)
    assume "n \<noteq> 2 ^ (bit_length n - 1)"
    then have "2 ^ k \<le> n - 1" "n - 1 < 2 ^ Suc k" using k by (simp_all add: k_def)
    with bit [OF k] bit have "bit (n AND (n - 1)) k" by (simp add: bit_and_iff)
    with n(2) show False by simp
  qed
qed

lemma bi_shr_val: "bi_ok x \<Longrightarrow> bi_val (bi_shr x n) = sgn (bi_val x) * int (bi_mag x div 2 ^ n) \<and> bi_ok (bi_shr x n)"
  by (auto simp: bi_shr_def bi_defs Let_def drop_bit_eq_div sgn_if)


end
