(* ===== verification/MpWords.thy ===== *)
theory MpWords
  imports Prelude
begin

text \<open>
  The word-array arithmetic below \<^verbatim>\<open>BigInteger\<close>: \<^verbatim>\<open>mp_asm.h\<close>, \<^verbatim>\<open>mp_asmi.h\<close>, \<^verbatim>\<open>mp_asm.cpp\<close>,
  \<^verbatim>\<open>mp_mulop.cpp\<close>, \<^verbatim>\<open>mp_misc.cpp\<close> and \<^verbatim>\<open>mp_mul.cpp\<close> of \<^verbatim>\<open>src/src/botantools/botan\<close>, for the configured
  word of 32 bits.  An array is a list of words, least significant first; a size that
  exceeds the array it belongs to makes a routine return \<open>None\<close>.  \<open>mp_val\<close> is the number an
  array stands for: every routine computes the arithmetic operation it is named after,
  the loops unrolled in blocks of eight included.
\<close>

section \<open>Words\<close>

abbreviation WB :: nat where "WB \<equiv> 4294967296"

definition word_add :: "u32 \<Rightarrow> u32 \<Rightarrow> u32 \<Rightarrow> u32 \<times> u32" where
  "word_add x y carry =
     (let z = x + y;
          c1 = (if z < x then 1 else 0);
          z' = z + carry
      in (z', c1 OR (if z' < carry then 1 else 0)))"

definition word_sub :: "u32 \<Rightarrow> u32 \<Rightarrow> u32 \<Rightarrow> u32 \<times> u32" where
  "word_sub x y carry =
     (let t0 = x - y;
          c1 = (if t0 > x then 1 else 0);
          z = t0 - carry
      in (z, c1 OR (if z > t0 then 1 else 0)))"

definition word_madd2 :: "u32 \<Rightarrow> u32 \<Rightarrow> u32 \<Rightarrow> u32 \<times> u32" where
  "word_madd2 a b c =
     (let z = ucast a * ucast b + ucast c :: u64 in (ucast z, ucast (drop_bit 32 z)))"

definition word_madd3 :: "u32 \<Rightarrow> u32 \<Rightarrow> u32 \<Rightarrow> u32 \<Rightarrow> u32 \<times> u32" where
  "word_madd3 a b c d =
     (let z = ucast a * ucast b + ucast c + ucast d :: u64 in (ucast z, ucast (drop_bit 32 z)))"

text \<open>The accumulator of three words, least significant first, of the Comba multiplications.\<close>

type_synonym acc = "u32 \<times> u32 \<times> u32"

definition word3_muladd :: "acc \<Rightarrow> u32 \<Rightarrow> u32 \<Rightarrow> acc" where
  "word3_muladd w a b = (case w of (w0, w1, w2) \<Rightarrow>
     let (w0', b') = word_madd2 a b w0;
         w1' = w1 + b';
         w2' = w2 + (if w1' < b' then 1 else 0)
     in (w0', w1', w2'))"

section \<open>Loops with a carry\<close>

fun carry_chain :: "('a \<Rightarrow> u32 \<Rightarrow> u32 \<times> u32) \<Rightarrow> 'a list \<Rightarrow> u32 \<Rightarrow> u32 list \<times> u32" where
  "carry_chain f [] c = ([], c)"
| "carry_chain f (a # as) c =
     (let (z, c1) = f a c; (zs, c2) = carry_chain f as c1 in (z # zs, c2))"

text \<open>Eight steps written out, as the block routines have them.\<close>

definition word8 :: "('a \<Rightarrow> u32 \<Rightarrow> u32 \<times> u32) \<Rightarrow> 'a list \<Rightarrow> u32 \<Rightarrow> u32 list \<times> u32" where
  "word8 f a c0 =
     (let (z0, c1) = f (a ! 0) c0;
          (z1, c2) = f (a ! 1) c1;
          (z2, c3) = f (a ! 2) c2;
          (z3, c4) = f (a ! 3) c3;
          (z4, c5) = f (a ! 4) c4;
          (z5, c6) = f (a ! 5) c5;
          (z6, c7) = f (a ! 6) c6;
          (z7, c8) = f (a ! 7) c7
      in ([z0, z1, z2, z3, z4, z5, z6, z7], c8))"

definition add_step :: "u32 \<times> u32 \<Rightarrow> u32 \<Rightarrow> u32 \<times> u32" where
  "add_step p carry = word_add (fst p) (snd p) carry"

definition sub_step :: "u32 \<times> u32 \<Rightarrow> u32 \<Rightarrow> u32 \<times> u32" where
  "sub_step p carry = word_sub (fst p) (snd p) carry"

definition linmul_step :: "u32 \<Rightarrow> u32 \<Rightarrow> u32 \<Rightarrow> u32 \<times> u32" where
  "linmul_step y x carry = word_madd2 x y carry"

definition madd3_step :: "u32 \<Rightarrow> u32 \<times> u32 \<Rightarrow> u32 \<Rightarrow> u32 \<times> u32" where
  "madd3_step y p carry = word_madd3 (snd p) y (fst p) carry"

definition word8_add :: "(u32 \<times> u32) list \<Rightarrow> u32 \<Rightarrow> u32 list \<times> u32" where
  "word8_add = word8 add_step"

definition word8_sub :: "(u32 \<times> u32) list \<Rightarrow> u32 \<Rightarrow> u32 list \<times> u32" where
  "word8_sub = word8 sub_step"

definition word8_linmul :: "u32 \<Rightarrow> u32 list \<Rightarrow> u32 \<Rightarrow> u32 list \<times> u32" where
  "word8_linmul y = word8 (linmul_step y)"

definition word8_madd3 :: "u32 \<Rightarrow> (u32 \<times> u32) list \<Rightarrow> u32 \<Rightarrow> u32 list \<times> u32" where
  "word8_madd3 y = word8 (madd3_step y)"

text \<open>Whole blocks of eight first, then the remaining words one at a time.\<close>

function chain_blocks :: "('a list \<Rightarrow> u32 \<Rightarrow> u32 list \<times> u32) \<Rightarrow> ('a \<Rightarrow> u32 \<Rightarrow> u32 \<times> u32) \<Rightarrow>
    'a list \<Rightarrow> u32 \<Rightarrow> u32 list \<times> u32" where
  "chain_blocks g f as c =
     (if 8 \<le> length as
      then let (z, c1) = g (take 8 as) c; (zs, c2) = chain_blocks g f (drop 8 as) c1 in (z @ zs, c2)
      else carry_chain f as c)"
  by pat_completeness auto
termination by (relation "measure (\<lambda>(g, f, as, c). length as)") auto

declare chain_blocks.simps [simp del]

section \<open>Routines\<close>

fun increment_words :: "u32 list \<Rightarrow> u32 list \<times> u32" where
  "increment_words [] = ([], 1)"
| "increment_words (w # ws) =
     (if w + 1 \<noteq> 0 then ((w + 1) # ws, 0)
      else let (t, c) = increment_words ws in ((w + 1) # t, c))"

definition bigint_add2_nc :: "u32 list \<Rightarrow> nat \<Rightarrow> u32 list \<Rightarrow> nat \<Rightarrow> (u32 list \<times> u32) option" where
  "bigint_add2_nc x x_size y y_size = do {
     xs \<leftarrow> mem_slice x 0 x_size;
     ys \<leftarrow> mem_slice y 0 y_size;
     if x_size < y_size then None
     else
       let (z, carry) = chain_blocks word8_add add_step (zip xs ys) 0 in
       if carry = 0 then Some (z @ drop y_size x, 0)
       else
         let (t, c) = increment_words (drop y_size xs) in Some (z @ t @ drop x_size x, c) }"

fun add3_tail :: "u32 list \<Rightarrow> u32 \<Rightarrow> u32 list \<times> u32" where
  "add3_tail [] carry = ([], carry)"
| "add3_tail (x # xs) carry =
     (let x_j = x + carry;
          carry' = (if carry \<noteq> 0 \<and> x_j \<noteq> 0 then 0 else carry);
          (t, c) = add3_tail xs carry'
      in (x_j # t, c))"

text \<open>The three-operand routines return the words they store at the start of \<open>z\<close>.\<close>

definition add3_words :: "u32 list \<Rightarrow> nat \<Rightarrow> u32 list \<Rightarrow> nat \<Rightarrow> (u32 list \<times> u32) option" where
  "add3_words x x_size y y_size = do {
     xs \<leftarrow> mem_slice x 0 x_size;
     ys \<leftarrow> mem_slice y 0 y_size;
     let (z, carry) = chain_blocks word8_add add_step (zip xs ys) 0;
         (t, c) = add3_tail (drop y_size xs) carry
     in Some (z @ t, c) }"

definition bigint_add3_nc :: "u32 list \<Rightarrow> nat \<Rightarrow> u32 list \<Rightarrow> nat \<Rightarrow> (u32 list \<times> u32) option" where
  "bigint_add3_nc x x_size y y_size =
     (if x_size < y_size then add3_words y y_size x x_size else add3_words x x_size y y_size)"

definition bigint_add2 :: "u32 list \<Rightarrow> nat \<Rightarrow> u32 list \<Rightarrow> nat \<Rightarrow> u32 list option" where
  "bigint_add2 x x_size y y_size = do {
     (x', c) \<leftarrow> bigint_add2_nc x x_size y y_size;
     if c \<noteq> 0 then do { w \<leftarrow> peek x' x_size; poke x' x_size (w + 1) } else Some x' }"

definition bigint_add3 :: "u32 list \<Rightarrow> u32 list \<Rightarrow> nat \<Rightarrow> u32 list \<Rightarrow> nat \<Rightarrow> u32 list option" where
  "bigint_add3 z x x_size y y_size = do {
     (w, c) \<leftarrow> bigint_add3_nc x x_size y y_size;
     z' \<leftarrow> memcpy_at z 0 w;
     let top = (if x_size > y_size then x_size else y_size) in
     if c \<noteq> 0 then do { v \<leftarrow> peek z' top; poke z' top (v + 1) } else Some z' }"

fun decrement_words :: "u32 list \<Rightarrow> u32 list" where
  "decrement_words [] = []"
| "decrement_words (w # ws) =
     (if w - 1 \<noteq> - 1 then (w - 1) # ws else (w - 1) # decrement_words ws)"

definition bigint_sub2 :: "u32 list \<Rightarrow> nat \<Rightarrow> u32 list \<Rightarrow> nat \<Rightarrow> u32 list option" where
  "bigint_sub2 x x_size y y_size = do {
     xs \<leftarrow> mem_slice x 0 x_size;
     ys \<leftarrow> mem_slice y 0 y_size;
     if x_size < y_size then None
     else
       let (z, carry) = chain_blocks word8_sub sub_step (zip xs ys) 0 in
       if carry = 0 then Some (z @ drop y_size x)
       else Some (z @ decrement_words (drop y_size xs) @ drop x_size x) }"

fun sub3_tail :: "u32 list \<Rightarrow> u32 \<Rightarrow> u32 list" where
  "sub3_tail [] carry = []"
| "sub3_tail (x # xs) carry =
     (let x_j = x - carry;
          carry' = (if carry \<noteq> 0 \<and> x_j \<noteq> - 1 then 0 else carry)
      in x_j # sub3_tail xs carry')"

definition bigint_sub3 :: "u32 list \<Rightarrow> u32 list \<Rightarrow> nat \<Rightarrow> u32 list \<Rightarrow> nat \<Rightarrow> u32 list option" where
  "bigint_sub3 z x x_size y y_size = do {
     xs \<leftarrow> mem_slice x 0 x_size;
     ys \<leftarrow> mem_slice y 0 y_size;
     if x_size < y_size then None
     else
       let (w, carry) = chain_blocks word8_sub sub_step (zip xs ys) 0 in
       memcpy_at z 0 (w @ sub3_tail (drop y_size xs) carry) }"

text \<open>\<open>bigint_linmul2 x\<close> is \<open>bigint_linmul3 x x\<close>: it reads the words it overwrites in order.\<close>

definition bigint_linmul3 :: "u32 list \<Rightarrow> u32 list \<Rightarrow> nat \<Rightarrow> u32 \<Rightarrow> u32 list option" where
  "bigint_linmul3 z x x_size y = do {
     xs \<leftarrow> mem_slice x 0 x_size;
     let (w, carry) = chain_blocks (word8_linmul y) (linmul_step y) xs 0 in
     memcpy_at z 0 (w @ [carry]) }"

definition bigint_linmul2 :: "u32 list \<Rightarrow> nat \<Rightarrow> u32 \<Rightarrow> u32 list option" where
  "bigint_linmul2 x x_size y = do {
     xs \<leftarrow> mem_slice x 0 x_size;
     let (w, carry) = chain_blocks (word8_linmul y) (linmul_step y) xs 0 in
     memcpy_at x 0 (w @ [carry]) }"

text \<open>\<open>bigint_mul_add_words (z + off) x x_size y\<close>.\<close>

definition bigint_mul_add_words :: "u32 list \<Rightarrow> nat \<Rightarrow> u32 list \<Rightarrow> nat \<Rightarrow> u32 \<Rightarrow> (u32 list \<times> u32) option" where
  "bigint_mul_add_words z off x x_size y = do {
     xs \<leftarrow> mem_slice x 0 x_size;
     zs \<leftarrow> mem_slice z off x_size;
     let (w, carry) = chain_blocks (word8_madd3 y) (madd3_step y) (zip zs xs) 0 in
     do { z' \<leftarrow> memcpy_at z off w; Some (z', carry) } }"

fun simple_mul_loop :: "u32 list \<Rightarrow> nat \<Rightarrow> u32 list \<Rightarrow> u32 list \<Rightarrow> nat \<Rightarrow> u32 list option" where
  "simple_mul_loop z j [] y y_size = Some z"
| "simple_mul_loop z j (x # xs) y y_size = do {
     (z', carry) \<leftarrow> bigint_mul_add_words z j y y_size x;
     z'' \<leftarrow> poke z' (j + y_size) carry;
     simple_mul_loop z'' (Suc j) xs y y_size }"

definition bigint_simple_mul :: "u32 list \<Rightarrow> u32 list \<Rightarrow> nat \<Rightarrow> u32 list \<Rightarrow> nat \<Rightarrow> u32 list option" where
  "bigint_simple_mul z x x_size y y_size = do {
     z0 \<leftarrow> memcpy_at z 0 (replicate (x_size + y_size) 0);
     xs \<leftarrow> mem_slice x 0 x_size;
     simple_mul_loop z0 0 xs y y_size }"

text \<open>Comparison from the most significant word down.\<close>

fun cmp_equal :: "(u32 \<times> u32) list \<Rightarrow> int" where
  "cmp_equal [] = 0"
| "cmp_equal ((a, b) # ps) = (if a > b then 1 else if a < b then - 1 else cmp_equal ps)"

definition cmp_words :: "u32 list \<Rightarrow> nat \<Rightarrow> u32 list \<Rightarrow> nat \<Rightarrow> int option" where
  "cmp_words x x_size y y_size = do {
     xs \<leftarrow> mem_slice x 0 x_size;
     ys \<leftarrow> mem_slice y 0 y_size;
     if \<exists>w \<in> set (drop y_size xs). w \<noteq> 0 then Some 1
     else Some (cmp_equal (rev (zip xs ys))) }"

definition bigint_cmp :: "u32 list \<Rightarrow> nat \<Rightarrow> u32 list \<Rightarrow> nat \<Rightarrow> int option" where
  "bigint_cmp x x_size y y_size =
     (if x_size < y_size then map_option uminus (cmp_words y y_size x x_size)
      else cmp_words x x_size y y_size)"

section \<open>Values\<close>

fun mp_val :: "u32 list \<Rightarrow> nat" where
  "mp_val [] = 0"
| "mp_val (w # ws) = unat w + WB * mp_val ws"

lemma u32_less: "unat (w :: u32) < WB"
  using unsigned_less [of w] by simp

lemma word_add_val:
  assumes "unat carry \<le> 1" and "word_add x y carry = (z, c)"
  shows "unat z + WB * unat c = unat x + unat y + unat carry" and "unat c \<le> 1"
  using assms u32_less [of x] u32_less [of y]
  by (auto simp: word_add_def Let_def word_less_nat_alt unat_plus_if' split: if_splits)

lemma word_sub_val:
  assumes "unat carry \<le> 1" and "word_sub x y carry = (z, c)"
  shows "unat z + unat y + unat carry = unat x + WB * unat c" and "unat c \<le> 1"
  using assms u32_less [of x] u32_less [of y]
  by (auto simp: word_sub_def Let_def word_less_nat_alt unat_sub_if' split: if_splits)

lemma split_u64:
  "unat (ucast z :: u32) + WB * unat (ucast (drop_bit 32 z) :: u32) = unat (z :: u64)"
proof -
  have "unat (ucast z :: u32) = unat z mod WB" by (simp add: unsigned_ucast_eq take_bit_eq_mod)
  moreover have "unat (ucast (drop_bit 32 z) :: u32) = unat z div WB"
  proof -
    have "unat z < 2 ^ 64" using unsigned_less [of z] by simp
    then have "unat z div WB < WB" by (simp add: div_less_iff_less_mult)
    then show ?thesis
      unfolding unsigned_ucast_eq unsigned_drop_bit_eq by (simp add: take_bit_eq_mod drop_bit_eq_div)
  qed
  ultimately show ?thesis by simp
qed

lemma product_bound:
  assumes "a < WB" and "b < WB"
  shows "a * b + 2 * (WB - 1) < (18446744073709551616 :: nat)"
proof -
  have "a * b \<le> 4294967295 * 4294967295" using assms by (intro mult_mono) auto
  then show ?thesis by simp
qed

lemma unat_up [simp]: "unat (ucast (a :: u32) :: u64) = unat a"
  using u32_less [of a] by (simp add: unsigned_ucast_eq take_bit_nat_eq_self_iff)

lemma word_madd3_val:
  assumes "word_madd3 a b c e = (z, carry)"
  shows "unat z + WB * unat carry = unat a * unat b + unat c + unat e"
proof -
  have "unat a * unat b + 2 * (WB - 1) < 18446744073709551616" using product_bound u32_less by blast
  then have "unat a * unat b + unat c + unat e < 18446744073709551616"
    using u32_less [of c] u32_less [of e] by linarith
  then have "unat (ucast a * ucast b + ucast c + ucast e :: u64) = unat a * unat b + unat c + unat e"
    by (simp add: unat_word_ariths)
  then show ?thesis using assms split_u64 by (auto simp: word_madd3_def Let_def)
qed

lemma word_madd2_val:
  assumes "word_madd2 a b c = (z, carry)"
  shows "unat z + WB * unat carry = unat a * unat b + unat c"
  using word_madd3_val [of a b c 0 z carry] assms by (simp add: word_madd2_def word_madd3_def)

lemma mp_val_append: "mp_val (xs @ ys) = mp_val xs + WB ^ length xs * mp_val ys"
  by (induction xs) (simp_all add: algebra_simps)

lemma mp_val_less: "mp_val xs < WB ^ length xs"
proof (induction xs)
  case (Cons w xs)
  have "unat w + WB * mp_val xs < WB * (mp_val xs + 1)" using u32_less [of w] by simp
  also have "\<dots> \<le> WB * WB ^ length xs" using Cons by (intro mult_le_mono2) simp
  finally show ?case by simp
qed simp

lemma mp_val_zeros [simp]: "mp_val (replicate n 0) = 0"
  by (induction n) simp_all

lemma mp_val_0: "mp_val xs = 0 \<longleftrightarrow> (\<forall>w \<in> set xs. w = 0)"
  by (induction xs) (auto simp: unat_eq_0)

lemma mp_val_inj: "length xs = length ys \<Longrightarrow> mp_val xs = mp_val ys \<Longrightarrow> xs = ys"
proof (induction xs ys rule: list_induct2)
  case (Cons x xs y ys)
  have "(unat x + WB * mp_val xs) mod WB = unat x" "(unat y + WB * mp_val ys) mod WB = unat y"
    using u32_less by simp_all
  then have "unat x = unat y" using Cons.prems unfolding mp_val.simps by metis
  with Cons show ?case by (simp add: word_unat_eq_iff)
qed simp

section \<open>Chains\<close>

lemma carry_chain_append:
  "carry_chain f (as @ bs) c =
     (let (z, c1) = carry_chain f as c; (zs, c2) = carry_chain f bs c1 in (z @ zs, c2))"
  by (induction as arbitrary: c) (auto simp: Let_def split: prod.splits)

lemma word8_chain: "length as = 8 \<Longrightarrow> word8 f as c = carry_chain f as c"
proof -
  assume "length as = 8"
  then obtain a0 a1 a2 a3 a4 a5 a6 a7 where "as = [a0, a1, a2, a3, a4, a5, a6, a7]"
    by (auto simp: numeral_eq_Suc length_Suc_conv)
  then show ?thesis by (simp add: word8_def Let_def split: prod.splits)
qed

text \<open>Working in blocks of eight computes the plain loop.\<close>

lemma chain_blocks_chain: "chain_blocks (word8 f) f as c = carry_chain f as c"
proof (induction "word8 f" f as c rule: chain_blocks.induct)
  case (1 f as c)
  show ?case
  proof (cases "8 \<le> length as")
    case True
    obtain z c1 where z: "carry_chain f (take 8 as) c = (z, c1)" by fastforce
    have w: "word8 f (take 8 as) c = (z, c1)" using word8_chain [of "take 8 as" f c] True z by simp
    have "chain_blocks (word8 f) f (drop 8 as) c1 = carry_chain f (drop 8 as) c1"
      using 1 [OF True] w by simp
    moreover have "carry_chain f as c = carry_chain f (take 8 as @ drop 8 as) c" by simp
    ultimately show ?thesis
      using True w z by (simp add: chain_blocks.simps [of _ f as] carry_chain_append del: append_take_drop_id)
  qed (simp add: chain_blocks.simps)
qed

lemma carry_chain_ConsE:
  assumes "carry_chain f (a # as) c = (z, c')" and "f a c = (w, c1)"
  obtains z1 where "carry_chain f as c1 = (z1, c')" and "z = w # z1"
  using assms by (auto split: prod.splits)

lemma length_carry_chain: "carry_chain f as c = (z, c') \<Longrightarrow> length z = length as"
  by (induction as arbitrary: c z) (auto split: prod.splits)

lemma add_chain_val:
  assumes "carry_chain add_step ps c = (z, c')" and "unat c \<le> 1"
  shows "mp_val z + WB ^ length ps * unat c' = mp_val (map fst ps) + mp_val (map snd ps) + unat c \<and> unat c' \<le> 1"
  using assms
proof (induction ps arbitrary: c z)
  case (Cons p ps)
  obtain w c1 where w: "word_add (fst p) (snd p) c = (w, c1)" by fastforce
  obtain z1 where z1: "carry_chain add_step ps c1 = (z1, c')" "z = w # z1"
    using carry_chain_ConsE [OF Cons.prems(1)] w by (metis add_step_def)
  note W = word_add_val [OF Cons.prems(2) w]
  from Cons.IH [OF z1(1) W(2)] W(1) show ?case by (simp add: z1(2) algebra_simps)
qed simp

lemma sub_chain_val:
  assumes "carry_chain sub_step ps c = (z, c')" and "unat c \<le> 1"
  shows "mp_val z + mp_val (map snd ps) + unat c = mp_val (map fst ps) + WB ^ length ps * unat c' \<and> unat c' \<le> 1"
  using assms
proof (induction ps arbitrary: c z)
  case (Cons p ps)
  obtain w c1 where w: "word_sub (fst p) (snd p) c = (w, c1)" by fastforce
  obtain z1 where z1: "carry_chain sub_step ps c1 = (z1, c')" "z = w # z1"
    using carry_chain_ConsE [OF Cons.prems(1)] w by (metis sub_step_def)
  note W = word_sub_val [OF Cons.prems(2) w]
  from Cons.IH [OF z1(1) W(2)] W(1) show ?case by (simp add: z1(2) algebra_simps)
qed simp

lemma linmul_chain_val:
  assumes "carry_chain (linmul_step y) xs c = (z, c')"
  shows "mp_val z + WB ^ length xs * unat c' = mp_val xs * unat y + unat c"
  using assms
proof (induction xs arbitrary: c z)
  case (Cons x xs)
  obtain w c1 where w: "word_madd2 x y c = (w, c1)" by fastforce
  obtain z1 where z1: "carry_chain (linmul_step y) xs c1 = (z1, c')" "z = w # z1"
    using carry_chain_ConsE [OF Cons.prems] w by (metis linmul_step_def)
  from Cons.IH [OF z1(1)] word_madd2_val [OF w] show ?case by (simp add: z1(2) algebra_simps)
qed simp

lemma madd3_chain_val:
  assumes "carry_chain (madd3_step y) ps c = (z, c')"
  shows "mp_val z + WB ^ length ps * unat c' = mp_val (map fst ps) + mp_val (map snd ps) * unat y + unat c"
  using assms
proof (induction ps arbitrary: c z)
  case (Cons p ps)
  obtain w c1 where w: "word_madd3 (snd p) y (fst p) c = (w, c1)" by fastforce
  obtain z1 where z1: "carry_chain (madd3_step y) ps c1 = (z1, c')" "z = w # z1"
    using carry_chain_ConsE [OF Cons.prems] w by (metis madd3_step_def)
  from Cons.IH [OF z1(1)] word_madd3_val [OF w] show ?case by (simp add: z1(2) algebra_simps)
qed simp

lemmas word8_defs = word8_add_def word8_sub_def word8_linmul_def word8_madd3_def

section \<open>Correctness of the routines\<close>

lemma mp_val_split: "n \<le> length x \<Longrightarrow> mp_val x = mp_val (take n x) + WB ^ n * mp_val (drop n x)"
  using mp_val_append [of "take n x" "drop n x"] by (simp add: min_absorb2)

lemma zip_fst_snd:
  assumes "y_size \<le> length xs" and "length ys = y_size"
  shows "map fst (zip xs ys) = take y_size xs" and "map snd (zip xs ys) = ys" and "length (zip xs ys) = y_size"
  using assms by (simp_all add: map_fst_zip_take map_snd_zip_take min_absorb1)

lemma scaled_sum: "(a :: nat) + q * k = b + c \<Longrightarrow> P * a + (P * q) * k = P * b + P * c"
  by (metis distrib_left mult.assoc)

lemma unat_inc: "unat ((x :: u32) + 1) = (if x + 1 = 0 then 0 else unat x + 1)"
  and unat_inc_0: "(x :: u32) + 1 = 0 \<Longrightarrow> unat x = WB - 1"
proof -
  show "unat (x + 1) = (if x + 1 = 0 then 0 else unat x + 1)" using unatSuc [of x] by (simp add: add.commute)
  assume "x + 1 = 0"
  then have "x = - 1" by (metis add_eq_0_iff minus_minus)
  then show "unat x = WB - 1" by (simp add: unsigned_minus_1_eq_mask mask_eq_exp_minus_1)
qed

lemma carry_is_1: "unat (c :: u32) \<le> 1 \<Longrightarrow> c \<noteq> 0 \<Longrightarrow> c = 1"
  by (metis One_nat_def le_SucE le_zero_eq unat_1 unat_eq_0 word_unat_eq_iff)

lemma increment_words_val:
  "increment_words ws = (t, c) \<Longrightarrow>
     length t = length ws \<and> mp_val t + WB ^ length ws * unat c = mp_val ws + 1 \<and> unat c \<le> 1"
proof (induction ws arbitrary: t)
  case (Cons w ws)
  show ?case
  proof (cases "w + 1 = 0")
    case True
    then have "unat w = WB - 1" by (rule unat_inc_0)
    moreover obtain t1 where "increment_words ws = (t1, c)" "t = 0 # t1"
      using Cons.prems True by (auto split: prod.splits)
    ultimately show ?thesis using Cons.IH [of t1] by (simp add: algebra_simps)
  next
    case False
    then have "unat (w + 1) = unat w + 1" by (simp add: unat_inc)
    then show ?thesis using Cons.prems False by auto
  qed
qed auto

lemma add2_nc_val:
  assumes "y_size \<le> x_size" and "x_size \<le> length x" and "y_size \<le> length y"
  shows "\<exists>w c. bigint_add2_nc x x_size y y_size = Some (w @ drop x_size x, c) \<and> length w = x_size \<and>
    mp_val w + WB ^ x_size * unat c = mp_val (take x_size x) + mp_val (take y_size y) \<and> unat c \<le> 1"
proof -
  let ?xs = "take x_size x" and ?ys = "take y_size y"
  obtain z c where z: "carry_chain add_step (zip ?xs ?ys) 0 = (z, c)" by fastforce
  have zs: "map fst (zip ?xs ?ys) = take y_size ?xs" "map snd (zip ?xs ?ys) = ?ys" "length (zip ?xs ?ys) = y_size"
    using zip_fst_snd [of y_size ?xs ?ys] assms by simp_all
  have lz: "length z = y_size" using length_carry_chain [OF z] zs(3) by simp
  have v: "mp_val z + WB ^ y_size * unat c = mp_val (take y_size ?xs) + mp_val ?ys" "unat c \<le> 1"
    using add_chain_val [OF z] unfolding zs by simp_all
  have sp: "mp_val ?xs = mp_val (take y_size ?xs) + WB ^ y_size * mp_val (drop y_size ?xs)"
    using mp_val_split [of y_size ?xs] assms by simp
  have dr: "drop y_size x = drop y_size ?xs @ drop x_size x"
    using assms by (metis append_take_drop_id drop_append drop_drop le_add_diff_inverse length_take min_absorb2 diff_is_0_eq drop0)
  have m: "mem_slice x 0 x_size = Some ?xs" "mem_slice y 0 y_size = Some ?ys"
    using assms by (simp_all add: mem_slice_in)
  show ?thesis
  proof (cases "c = 0")
    case True
    then have "bigint_add2_nc x x_size y y_size = Some ((z @ drop y_size ?xs) @ drop x_size x, 0)"
      using m z assms dr by (simp add: bigint_add2_nc_def chain_blocks_chain word8_defs)
    moreover have "mp_val (z @ drop y_size ?xs) = mp_val ?xs + mp_val ?ys"
      using v sp lz True by (simp add: mp_val_append)
    ultimately show ?thesis using lz assms by (intro exI [of _ "z @ drop y_size ?xs"] exI [of _ 0]) simp
  next
    case False
    then have c1: "unat c = 1" using v(2) carry_is_1 [of c] by simp
    obtain t k where t: "increment_words (drop y_size ?xs) = (t, k)" by fastforce
    note T = increment_words_val [OF t]
    have "bigint_add2_nc x x_size y y_size = Some ((z @ t) @ drop x_size x, k)"
      using m z t assms False by (simp add: bigint_add2_nc_def chain_blocks_chain word8_defs)
    moreover have "mp_val (z @ t) + WB ^ x_size * unat k = mp_val ?xs + mp_val ?ys"
    proof -
      have e: "WB ^ x_size = WB ^ y_size * WB ^ (x_size - y_size)"
        using assms(1) by (simp flip: power_add)
      have "mp_val t + WB ^ (x_size - y_size) * unat k = mp_val (drop y_size ?xs) + 1"
        using T assms by simp
      then have "WB ^ y_size * mp_val t + WB ^ x_size * unat k = WB ^ y_size * mp_val (drop y_size ?xs) + WB ^ y_size"
        unfolding e using scaled_sum [of "mp_val t" _ "unat k" _ 1 "WB ^ y_size"] by simp
      then show ?thesis using v(1) sp lz c1 by (simp add: mp_val_append)
    qed
    ultimately show ?thesis using T lz assms by (intro exI [of _ "z @ t"] exI [of _ k]) simp
  qed
qed

lemma add2_val:
  assumes "y_size \<le> x_size" and "x_size < length x" and "y_size \<le> length y" and "x ! x_size = 0"
  shows "\<exists>w. bigint_add2 x x_size y y_size = Some (w @ drop (Suc x_size) x) \<and> length w = Suc x_size \<and>
    mp_val w = mp_val (take x_size x) + mp_val (take y_size y)"
proof -
  obtain w c where w: "bigint_add2_nc x x_size y y_size = Some (w @ drop x_size x, c)" "length w = x_size"
    "mp_val w + WB ^ x_size * unat c = mp_val (take x_size x) + mp_val (take y_size y)" "unat c \<le> 1"
    using add2_nc_val [OF assms(1) _ assms(3), of x] assms(2) by auto
  have dr: "drop x_size x = 0 # drop (Suc x_size) x" using assms(2,4) by (simp add: Cons_nth_drop_Suc flip: assms(4))
  show ?thesis
  proof (cases "c = 0")
    case True
    then show ?thesis using w dr by (intro exI [of _ "w @ [0]"]) (simp add: bigint_add2_def mp_val_append)
  next
    case False
    then have "c = 1" using w(4) carry_is_1 by simp
    then show ?thesis using w dr False
      by (intro exI [of _ "w @ [1]"]) (simp add: bigint_add2_def mp_val_append mem_simps nth_append list_update_append)
  qed
qed

lemma add3_tail_val:
  "add3_tail xs c = (t, c') \<Longrightarrow> unat c \<le> 1 \<Longrightarrow>
     length t = length xs \<and> mp_val t + WB ^ length xs * unat c' = mp_val xs + unat c \<and> unat c' \<le> 1"
proof (induction xs arbitrary: c t)
  case (Cons x xs)
  define k where "k = (if c \<noteq> 0 \<and> x + c \<noteq> 0 then 0 else c)"
  obtain t1 where t1: "add3_tail xs k = (t1, c')" "t = (x + c) # t1"
    using Cons.prems(1) by (auto simp: k_def Let_def split: prod.splits)
  have k1: "unat k \<le> 1" using Cons.prems(2) by (simp add: k_def)
  have "unat (x + c) + WB * unat k = unat x + unat c"
  proof (cases "c = 0")
    case False
    then have "c = 1" using Cons.prems(2) carry_is_1 by simp
    then show ?thesis using unat_inc_0 [of x] by (simp add: k_def unat_inc)
  qed (simp add: k_def)
  with Cons.IH [OF t1(1) k1] show ?case by (simp add: t1(2) algebra_simps)
qed auto

lemma add3_words_val:
  assumes "y_size \<le> x_size" and "x_size \<le> length x" and "y_size \<le> length y"
  shows "\<exists>w c. add3_words x x_size y y_size = Some (w, c) \<and> length w = x_size \<and>
    mp_val w + WB ^ x_size * unat c = mp_val (take x_size x) + mp_val (take y_size y) \<and> unat c \<le> 1"
proof -
  let ?xs = "take x_size x" and ?ys = "take y_size y"
  obtain z c where z: "carry_chain add_step (zip ?xs ?ys) 0 = (z, c)" by fastforce
  obtain t k where t: "add3_tail (drop y_size ?xs) c = (t, k)" by fastforce
  have zs: "map fst (zip ?xs ?ys) = take y_size ?xs" "map snd (zip ?xs ?ys) = ?ys" "length (zip ?xs ?ys) = y_size"
    using zip_fst_snd [of y_size ?xs ?ys] assms by simp_all
  have lz: "length z = y_size" using length_carry_chain [OF z] zs(3) by simp
  have v: "mp_val z + WB ^ y_size * unat c = mp_val (take y_size ?xs) + mp_val ?ys" "unat c \<le> 1"
    using add_chain_val [OF z] unfolding zs by simp_all
  have sp: "mp_val ?xs = mp_val (take y_size ?xs) + WB ^ y_size * mp_val (drop y_size ?xs)"
    using mp_val_split [of y_size ?xs] assms by simp
  note T = add3_tail_val [OF t v(2)]
  have "add3_words x x_size y y_size = Some (z @ t, k)"
    using assms z t by (simp add: add3_words_def mem_slice_in chain_blocks_chain word8_defs)
  moreover have "mp_val (z @ t) + WB ^ x_size * unat k = mp_val ?xs + mp_val ?ys"
  proof -
    have e: "WB ^ x_size = WB ^ y_size * WB ^ (x_size - y_size)" using assms(1) by (simp flip: power_add)
    have "mp_val t + WB ^ (x_size - y_size) * unat k = mp_val (drop y_size ?xs) + unat c" using T assms by simp
    then have "WB ^ y_size * mp_val t + WB ^ x_size * unat k = WB ^ y_size * mp_val (drop y_size ?xs) + WB ^ y_size * unat c"
      unfolding e by (rule scaled_sum)
    then show ?thesis using v(1) sp lz by (simp add: mp_val_append)
  qed
  ultimately show ?thesis using T lz assms by (intro exI [of _ "z @ t"] exI [of _ k]) simp
qed

lemma add3_nc_val:
  assumes "x_size \<le> length x" and "y_size \<le> length y"
  shows "\<exists>w c. bigint_add3_nc x x_size y y_size = Some (w, c) \<and> length w = max x_size y_size \<and>
    mp_val w + WB ^ max x_size y_size * unat c = mp_val (take x_size x) + mp_val (take y_size y) \<and> unat c \<le> 1"
  using add3_words_val [of x_size y_size y x] add3_words_val [of y_size x_size x y] assms
  by (cases "x_size < y_size") (simp_all add: bigint_add3_nc_def max_def add.commute)

lemma add3_val:
  assumes "x_size \<le> length x" and "y_size \<le> length y" and "max x_size y_size < length z" and "z ! max x_size y_size = 0"
  shows "\<exists>w. bigint_add3 z x x_size y y_size = Some (w @ drop (Suc (max x_size y_size)) z) \<and>
    length w = Suc (max x_size y_size) \<and> mp_val w = mp_val (take x_size x) + mp_val (take y_size y)"
proof -
  define m where "m = max x_size y_size"
  obtain w c where w: "bigint_add3_nc x x_size y y_size = Some (w, c)" "length w = m"
    "mp_val w + WB ^ m * unat c = mp_val (take x_size x) + mp_val (take y_size y)" "unat c \<le> 1"
    using add3_nc_val [OF assms(1,2)] by (auto simp: m_def)
  have dr: "drop m z = 0 # drop (Suc m) z" using assms(3,4) by (simp add: m_def Cons_nth_drop_Suc flip: assms(4))
  have cp: "memcpy_at z 0 w = Some (w @ 0 # drop (Suc m) z)"
    using assms(3) w(2) dr by (simp add: mem_simps flip: m_def)
  have top: "(if x_size > y_size then x_size else y_size) = m" by (auto simp: m_def)
  show ?thesis
  proof (cases "c = 0")
    case True
    then show ?thesis unfolding m_def [symmetric] using w cp
      by (intro exI [of _ "w @ [0]"]) (simp add: bigint_add3_def mp_val_append)
  next
    case False
    then have "c = 1" using w(4) carry_is_1 by simp
    then show ?thesis unfolding m_def [symmetric] using w cp False
      by (intro exI [of _ "w @ [1]"]) (simp add: bigint_add3_def top mp_val_append mem_simps nth_append list_update_append)
  qed
qed

lemma unat_max [simp]: "unat (- 1 :: u32) = WB - 1"
  by (simp add: unsigned_minus_1_eq_mask mask_eq_exp_minus_1)

lemma unat_dec: "unat ((x :: u32) - 1) = (if x = 0 then WB - 1 else unat x - 1)"
  by (simp add: unat_sub_if' unat_eq_0 Suc_le_eq unat_gt_0)

lemma dec_max: "(x :: u32) - 1 = - 1 \<longleftrightarrow> x = 0"
  by auto

lemma decrement_words_val:
  "0 < mp_val ws \<Longrightarrow> length (decrement_words ws) = length ws \<and> mp_val (decrement_words ws) + 1 = mp_val ws"
proof (induction ws)
  case (Cons w ws)
  show ?case
  proof (cases "w = 0")
    case True
    then show ?thesis using Cons by (auto simp: dec_max unat_dec algebra_simps)
  next
    case False
    then show ?thesis by (auto simp: dec_max unat_dec unat_eq_0 Suc_leI unat_gt_0 neq0_conv)
  qed
qed simp

lemma sub3_tail_val:
  "unat c \<le> 1 \<Longrightarrow> unat c \<le> mp_val xs \<Longrightarrow>
     length (sub3_tail xs c) = length xs \<and> mp_val (sub3_tail xs c) + unat c = mp_val xs"
proof (induction xs arbitrary: c)
  case (Cons x xs)
  show ?case
  proof (cases "c = 0")
    case True
    then show ?thesis using Cons.IH [of 0] by simp
  next
    case False
    then have c: "c = 1" using Cons.prems(1) carry_is_1 by simp
    show ?thesis
    proof (cases "x = 0")
      case True
      then have "unat (1 :: u32) \<le> mp_val xs" using Cons.prems(2) c by (cases "mp_val xs") simp_all
      with Cons.IH [of 1] True show ?thesis by (simp add: c dec_max unat_dec algebra_simps)
    next
      case False
      then show ?thesis using Cons.IH [of 0] by (simp add: c dec_max unat_dec unat_eq_0 Suc_leI unat_gt_0)
    qed
  qed
qed simp

lemma sub_words_val:
  assumes "y_size \<le> length xs" and "length ys = y_size" and "mp_val ys \<le> mp_val xs"
    and "carry_chain sub_step (zip xs ys) 0 = (z, c)"
  shows "length z = y_size" and "unat c \<le> 1" and "unat c \<le> mp_val (drop y_size xs)"
    and "mp_val z + WB ^ y_size * mp_val (drop y_size xs) = mp_val xs - mp_val ys + WB ^ y_size * unat c"
proof -
  note zs = zip_fst_snd [OF assms(1,2)]
  show lz: "length z = y_size" using length_carry_chain [OF assms(4)] zs(3) by simp
  have v: "mp_val z + mp_val ys = mp_val (take y_size xs) + WB ^ y_size * unat c" "unat c \<le> 1"
    using sub_chain_val [OF assms(4)] unfolding zs by simp_all
  then show "unat c \<le> 1" by simp
  have sp: "mp_val xs = mp_val (take y_size xs) + WB ^ y_size * mp_val (drop y_size xs)"
    using mp_val_split [OF assms(1)] .
  show "mp_val z + WB ^ y_size * mp_val (drop y_size xs) = mp_val xs - mp_val ys + WB ^ y_size * unat c"
    using v(1) sp assms(3) by linarith
  show "unat c \<le> mp_val (drop y_size xs)"
  proof (rule ccontr)
    assume "\<not> unat c \<le> mp_val (drop y_size xs)"
    then have "unat c = 1" "mp_val (drop y_size xs) = 0" using v(2) by simp_all
    then have "WB ^ y_size \<le> mp_val z" using v(1) sp assms(3) by simp
    then show False using mp_val_less [of z] lz by simp
  qed
qed

lemma sub2_val:
  assumes "y_size \<le> x_size" and "x_size \<le> length x" and "y_size \<le> length y"
    and "mp_val (take y_size y) \<le> mp_val (take x_size x)"
  shows "\<exists>w. bigint_sub2 x x_size y y_size = Some (w @ drop x_size x) \<and> length w = x_size \<and>
    mp_val w = mp_val (take x_size x) - mp_val (take y_size y)"
proof -
  let ?xs = "take x_size x" and ?ys = "take y_size y"
  obtain z c where z: "carry_chain sub_step (zip ?xs ?ys) 0 = (z, c)" by fastforce
  have "y_size \<le> length ?xs" "length ?ys = y_size" using assms by simp_all
  note S = sub_words_val [OF this assms(4) z]
  have dr: "drop y_size x = drop y_size ?xs @ drop x_size x"
    using assms by (metis append_take_drop_id drop_append drop_drop le_add_diff_inverse length_take min_absorb2 diff_is_0_eq drop0)
  have m: "mem_slice x 0 x_size = Some ?xs" "mem_slice y 0 y_size = Some ?ys"
    using assms by (simp_all add: mem_slice_in)
  define t where "t = (if c = 0 then drop y_size ?xs else decrement_words (drop y_size ?xs))"
  have t: "length t = x_size - y_size" "mp_val t + unat c = mp_val (drop y_size ?xs)"
    using decrement_words_val [of "drop y_size ?xs"] S(2,3) assms(1,2) carry_is_1 [of c] by (auto simp: t_def)
  have "bigint_sub2 x x_size y y_size = Some ((z @ t) @ drop x_size x)"
    using m z assms dr by (simp add: bigint_sub2_def chain_blocks_chain word8_defs t_def)
  moreover have "mp_val (z @ t) = mp_val ?xs - mp_val ?ys"
    using S(4) S(1) by (simp add: mp_val_append distrib_left flip: t(2))
  ultimately show ?thesis using S(1) t(1) assms by (intro exI [of _ "z @ t"]) simp
qed

lemma sub3_val:
  assumes "y_size \<le> x_size" and "x_size \<le> length x" and "y_size \<le> length y" and "x_size \<le> length z"
    and "mp_val (take y_size y) \<le> mp_val (take x_size x)"
  shows "\<exists>w. bigint_sub3 z x x_size y y_size = Some (w @ drop x_size z) \<and> length w = x_size \<and>
    mp_val w = mp_val (take x_size x) - mp_val (take y_size y)"
proof -
  let ?xs = "take x_size x" and ?ys = "take y_size y"
  obtain w c where w: "carry_chain sub_step (zip ?xs ?ys) 0 = (w, c)" by fastforce
  have "y_size \<le> length ?xs" "length ?ys = y_size" using assms by simp_all
  note S = sub_words_val [OF this assms(5) w]
  define t where "t = sub3_tail (drop y_size ?xs) c"
  have t: "length t = x_size - y_size" "mp_val t + unat c = mp_val (drop y_size ?xs)"
    using sub3_tail_val [OF S(2,3)] assms(1,2) by (simp_all add: t_def)
  have l: "length (w @ t) = x_size" using S(1) t(1) assms(1) by simp
  have "bigint_sub3 z x x_size y y_size = Some ((w @ t) @ drop x_size z)"
    using w assms l memcpy_at_in [of 0 "w @ t" z]
    by (simp add: bigint_sub3_def mem_slice_in chain_blocks_chain word8_defs t_def)
  moreover have "mp_val (w @ t) = mp_val ?xs - mp_val ?ys"
    using S(4) S(1) by (simp add: mp_val_append distrib_left flip: t(2))
  ultimately show ?thesis using l by blast
qed

lemma linmul3_val:
  assumes "x_size \<le> length x" and "x_size < length z"
  shows "\<exists>w. bigint_linmul3 z x x_size y = Some (w @ drop (Suc x_size) z) \<and> length w = Suc x_size \<and>
    mp_val w = mp_val (take x_size x) * unat y"
proof -
  obtain w c where w: "carry_chain (linmul_step y) (take x_size x) 0 = (w, c)" by fastforce
  have l: "length (w @ [c]) = Suc x_size" using length_carry_chain [OF w] assms by simp
  then have "bigint_linmul3 z x x_size y = Some ((w @ [c]) @ drop (Suc x_size) z)"
    using w assms memcpy_at_in [of 0 "w @ [c]" z]
    by (simp add: bigint_linmul3_def mem_slice_in chain_blocks_chain word8_defs)
  moreover have "mp_val (w @ [c]) = mp_val (take x_size x) * unat y"
    using linmul_chain_val [OF w] l assms by (simp add: mp_val_append)
  ultimately show ?thesis using l by blast
qed

lemma linmul2_eq: "bigint_linmul2 x x_size y = bigint_linmul3 x x x_size y"
  by (simp add: bigint_linmul2_def bigint_linmul3_def)

lemma mul_add_words_val:
  assumes "x_size \<le> length x" and "off + x_size \<le> length z"
  shows "\<exists>w c. bigint_mul_add_words z off x x_size y = Some (take off z @ w @ drop (off + x_size) z, c) \<and>
    length w = x_size \<and>
    mp_val w + WB ^ x_size * unat c = mp_val (take x_size (drop off z)) + mp_val (take x_size x) * unat y"
proof -
  let ?zs = "take x_size (drop off z)" and ?xs = "take x_size x"
  obtain w c where w: "carry_chain (madd3_step y) (zip ?zs ?xs) 0 = (w, c)" by fastforce
  have "x_size \<le> length ?zs" "length ?xs = x_size" "take x_size ?zs = ?zs" using assms by simp_all
  then have zs: "map fst (zip ?zs ?xs) = ?zs" "map snd (zip ?zs ?xs) = ?xs" "length (zip ?zs ?xs) = x_size"
    using zip_fst_snd [of x_size ?zs ?xs] by simp_all
  have l: "length w = x_size" using length_carry_chain [OF w] zs(3) by simp
  have "bigint_mul_add_words z off x x_size y = Some (take off z @ w @ drop (off + x_size) z, c)"
    using assms w l memcpy_at_in [of off w z]
    by (simp add: bigint_mul_add_words_def mem_slice_in chain_blocks_chain word8_defs)
  moreover have "mp_val w + WB ^ x_size * unat c = mp_val ?zs + mp_val ?xs * unat y"
    using madd3_chain_val [OF w] unfolding zs by simp
  ultimately show ?thesis using l by blast
qed

text \<open>The rows of the product written so far are \<open>pre\<close>; the words above them are still zero.\<close>

lemma simple_mul_loop_val:
  assumes "y_size \<le> length y" and "length pre = j" and "length hi = y_size" and "length xs \<le> n"
  shows "\<exists>w. simple_mul_loop (pre @ hi @ replicate n 0 @ rst) j xs y y_size =
      Some (w @ replicate (n - length xs) 0 @ rst) \<and>
    length w = j + y_size + length xs \<and>
    mp_val w = mp_val pre + WB ^ j * (mp_val hi + mp_val xs * mp_val (take y_size y))"
  using assms(2-)
proof (induction xs arbitrary: pre hi j n)
  case Nil
  then show ?case by (intro exI [of _ "pre @ hi"]) (simp add: mp_val_append)
next
  case (Cons x xs)
  let ?Y = "mp_val (take y_size y)"
  obtain n' where n: "n = Suc n'" using Cons.prems(3) by (cases n) simp_all
  let ?z = "pre @ hi @ replicate n 0 @ rst"
  obtain w c where w: "bigint_mul_add_words ?z j y y_size x = Some (take j ?z @ w @ drop (j + y_size) ?z, c)"
    "length w = y_size" "mp_val w + WB ^ y_size * unat c = mp_val (take y_size (drop j ?z)) + ?Y * unat x"
    using mul_add_words_val [OF assms(1), of j ?z x] Cons.prems by auto
  have z: "take j ?z @ w @ drop (j + y_size) ?z = pre @ w @ 0 # replicate n' 0 @ rst"
    "take y_size (drop j ?z) = hi" using Cons.prems by (simp_all add: n)
  have "length (w @ [c]) = Suc y_size" using w(2) by simp
  then obtain w0 ws where ws: "w @ [c] = w0 # ws" "length ws = y_size" unfolding length_Suc_conv by blast
  have st: "poke (pre @ w @ 0 # replicate n' 0 @ rst) (j + y_size) c = Some ((pre @ [w0]) @ ws @ replicate n' 0 @ rst)"
  proof -
    have "poke ((pre @ w) @ 0 # replicate n' 0 @ rst) (j + y_size) c = Some ((pre @ w) @ c # replicate n' 0 @ rst)"
      using poke_append [of "pre @ w" "j + y_size"] Cons.prems w(2) by simp
    also have "(pre @ w) @ c # replicate n' 0 @ rst = pre @ (w @ [c]) @ replicate n' 0 @ rst" by simp
    finally show ?thesis unfolding ws(1) by simp
  qed
  have "length (pre @ [w0]) = Suc j" "length xs \<le> n'" using Cons.prems n by simp_all
  from Cons.IH [OF this(1) ws(2) this(2)] obtain v where
    v: "simple_mul_loop ((pre @ [w0]) @ ws @ replicate n' 0 @ rst) (Suc j) xs y y_size =
        Some (v @ replicate (n' - length xs) 0 @ rst)"
    "length v = Suc j + y_size + length xs"
    "mp_val v = mp_val (pre @ [w0]) + WB ^ Suc j * (mp_val ws + mp_val xs * ?Y)" by blast
  have "unat w0 + WB * mp_val ws = mp_val hi + ?Y * unat x"
  proof -
    have "unat w0 + WB * mp_val ws = mp_val (w @ [c])" unfolding ws(1) by simp
    also have "\<dots> = mp_val hi + ?Y * unat x" using w(2,3) unfolding z(2) by (simp add: mp_val_append)
    finally show ?thesis .
  qed
  then have "WB ^ j * (unat w0 + WB * mp_val ws) = WB ^ j * (mp_val hi + ?Y * unat x)" by (rule arg_cong)
  then have "mp_val v = mp_val pre + WB ^ j * (mp_val hi + mp_val (x # xs) * ?Y)"
    unfolding v(3) by (simp add: mp_val_append Cons.prems(1) algebra_simps)
  then show ?case using w(1) z st v(1,2) by (intro exI [of _ v]) (simp add: n)
qed

lemma simple_mul_val:
  assumes "x_size \<le> length x" and "y_size \<le> length y" and "x_size + y_size \<le> length z"
  shows "\<exists>w. bigint_simple_mul z x x_size y y_size = Some (w @ drop (x_size + y_size) z) \<and>
    length w = x_size + y_size \<and> mp_val w = mp_val (take x_size x) * mp_val (take y_size y)"
proof -
  let ?r = "drop (x_size + y_size) z"
  have "memcpy_at z 0 (replicate (x_size + y_size) 0) = Some ([] @ replicate y_size 0 @ replicate x_size 0 @ ?r)"
    using memcpy_at_in [of 0 "replicate (x_size + y_size) 0" z] assms(3)
    by (simp add: replicate_add [symmetric] add.commute)
  with simple_mul_loop_val [OF assms(2), of "[]" 0 "replicate y_size 0" "take x_size x" x_size ?r] assms(1)
  show ?thesis by (auto simp: bigint_simple_mul_def mem_slice_in)
qed

lemma cmp_equal_val: "cmp_equal (rev ps) = sgn (int (mp_val (map fst ps)) - int (mp_val (map snd ps)))"
proof (induction ps rule: rev_induct)
  case (snoc p ps)
  obtain a b where p: "p = (a, b)" by fastforce
  let ?x = "mp_val (map fst ps)" and ?y = "mp_val (map snd ps)"
  define P where "P = WB ^ length ps"
  have xy: "?x < P" "?y < P" using mp_val_less [of "map fst ps"] mp_val_less [of "map snd ps"] by (simp_all add: P_def)
  have v: "mp_val (map fst (ps @ [p])) = ?x + P * unat a" "mp_val (map snd (ps @ [p])) = ?y + P * unat b"
    by (simp_all add: p mp_val_append P_def)
  have gt: "u + P * m < v + P * n" if "m < n" "u < P" for u v m n :: nat
  proof -
    have "P * Suc m \<le> P * n" using that(1) by (intro mult_le_mono2) simp
    then show ?thesis using that(2) by simp
  qed
  consider "unat b < unat a" | "unat a < unat b" | "a = b" by (metis linorder_cases word_unat_eq_iff)
  then show ?case
  proof cases
    case 1
    then have "mp_val (map snd (ps @ [p])) < mp_val (map fst (ps @ [p]))" unfolding v using gt xy(2) by blast
    then show ?thesis using 1 by (simp add: p word_less_nat_alt sgn_if)
  next
    case 2
    then have "mp_val (map fst (ps @ [p])) < mp_val (map snd (ps @ [p]))" unfolding v using gt xy(1) by blast
    then show ?thesis using 2 by (simp add: p word_less_nat_alt sgn_if)
  next
    case 3
    then show ?thesis using snoc unfolding v by (simp add: p)
  qed
qed simp

lemma cmp_words_val:
  assumes "y_size \<le> x_size" and "x_size \<le> length x" and "y_size \<le> length y"
  shows "cmp_words x x_size y y_size = Some (sgn (int (mp_val (take x_size x)) - int (mp_val (take y_size y))))"
proof -
  let ?xs = "take x_size x" and ?ys = "take y_size y"
  have zs: "map fst (zip ?xs ?ys) = take y_size ?xs" "map snd (zip ?xs ?ys) = ?ys"
    using zip_fst_snd [of y_size ?xs ?ys] assms by simp_all
  have sp: "mp_val ?xs = mp_val (take y_size ?xs) + WB ^ y_size * mp_val (drop y_size ?xs)"
    using mp_val_split [of y_size ?xs] assms by simp
  have ly: "mp_val ?ys < WB ^ y_size" using mp_val_less [of ?ys] assms by simp
  show ?thesis
  proof (cases "\<exists>w \<in> set (drop y_size ?xs). w \<noteq> 0")
    case True
    then have "mp_val (drop y_size ?xs) \<noteq> 0" using mp_val_0 by blast
    then have "1 \<le> mp_val (drop y_size ?xs)" by simp
    then have "WB ^ y_size * 1 \<le> WB ^ y_size * mp_val (drop y_size ?xs)" by (rule mult_le_mono2)
    then have "mp_val ?ys < mp_val ?xs" unfolding sp using ly by linarith
    then show ?thesis using True assms by (simp add: cmp_words_def mem_slice_in sgn_if)
  next
    case False
    then have "mp_val (drop y_size ?xs) = 0" using mp_val_0 by blast
    then have "mp_val ?xs = mp_val (take y_size ?xs)" using sp by simp
    then show ?thesis
      using False assms cmp_equal_val [of "zip ?xs ?ys"] unfolding zs by (simp add: cmp_words_def mem_slice_in)
  qed
qed

lemma cmp_val:
  assumes "x_size \<le> length x" and "y_size \<le> length y"
  shows "bigint_cmp x x_size y y_size = Some (sgn (int (mp_val (take x_size x)) - int (mp_val (take y_size y))))"
  using cmp_words_val [of x_size y_size y x] cmp_words_val [of y_size x_size x y] assms
  by (cases "x_size < y_size") (simp_all add: bigint_cmp_def sgn_if)

section \<open>Comba multiplication\<close>

text \<open>The products of one column in the order of the code, then the shift of the accumulator.\<close>

definition comba_column :: "u32 list \<Rightarrow> u32 list \<Rightarrow> nat \<Rightarrow> nat \<Rightarrow> acc \<Rightarrow> acc" where
  "comba_column x y n k w =
     foldl (\<lambda>w i. word3_muladd w (x ! i) (y ! (k - i))) w [Suc k - n..<min n (Suc k)]"

fun comba_columns :: "u32 list \<Rightarrow> u32 list \<Rightarrow> nat \<Rightarrow> nat list \<Rightarrow> acc \<Rightarrow> u32 list \<times> acc" where
  "comba_columns x y n [] w = ([], w)"
| "comba_columns x y n (k # ks) w =
     (let (w0, w1, w2) = comba_column x y n k w;
          (z, w') = comba_columns x y n ks (w1, w2, 0)
      in (w0 # z, w'))"

text \<open>The last column leaves its high word in \<open>w1\<close>, which after the shift is the first word.\<close>

definition comba_mul :: "nat \<Rightarrow> u32 list \<Rightarrow> u32 list \<Rightarrow> u32 list \<Rightarrow> u32 list option" where
  "comba_mul n z x y = do {
     xs \<leftarrow> mem_slice x 0 n;
     ys \<leftarrow> mem_slice y 0 n;
     let (w, (w1, w2, w3)) = comba_columns xs ys n [0..<2 * n - 1] (0, 0, 0) in
     memcpy_at z 0 (w @ [w1]) }"

definition bigint_comba_mul4 :: "u32 list \<Rightarrow> u32 list \<Rightarrow> u32 list \<Rightarrow> u32 list option" where
  "bigint_comba_mul4 = comba_mul 4"

definition bigint_comba_mul6 :: "u32 list \<Rightarrow> u32 list \<Rightarrow> u32 list \<Rightarrow> u32 list option" where
  "bigint_comba_mul6 = comba_mul 6"

definition bigint_comba_mul8 :: "u32 list \<Rightarrow> u32 list \<Rightarrow> u32 list \<Rightarrow> u32 list option" where
  "bigint_comba_mul8 = comba_mul 8"

fun acc_val :: "acc \<Rightarrow> nat" where
  "acc_val (w0, w1, w2) = unat w0 + WB * (unat w1 + WB * unat w2)"

lemma word3_muladd_val:
  assumes "acc_val w + unat a * unat b < WB ^ 3"
  shows "acc_val (word3_muladd w a b) = acc_val w + unat a * unat b"
proof -
  obtain w0 w1 w2 where w: "w = (w0, w1, w2)" by (cases w) auto
  obtain z c where m: "word_madd2 a b w0 = (z, c)" by fastforce
  define o' where "o' = (if w1 + c < c then 1 else 0 :: u32)"
  have v: "unat z + WB * unat c = unat a * unat b + unat w0" using word_madd2_val [OF m] .
  have c: "unat (w1 + c) + WB * unat o' = unat w1 + unat c"
    using u32_less [of w1] u32_less [of c] by (auto simp: o'_def word_less_nat_alt unat_plus_if' split: if_splits)
  have tot: "acc_val w + unat a * unat b = unat z + WB * (unat (w1 + c) + WB * (unat w2 + unat o'))"
    using v c by (simp add: w algebra_simps)
  have "unat w2 + unat o' < WB"
  proof (rule ccontr)
    assume "\<not> unat w2 + unat o' < WB"
    then have "WB * (WB * WB) \<le> WB * (WB * (unat w2 + unat o'))" by simp
    then show False using assms unfolding tot by (simp add: power3_eq_cube)
  qed
  then have "unat (w2 + o') = unat w2 + unat o'" by (simp add: unat_plus_if')
  then show ?thesis unfolding tot using m by (simp add: w word3_muladd_def Let_def o'_def)
qed

definition column :: "u32 list \<Rightarrow> u32 list \<Rightarrow> nat \<Rightarrow> nat \<Rightarrow> nat" where
  "column x y n k = (\<Sum>i = Suc k - n..<min n (Suc k). unat (x ! i) * unat (y ! (k - i)))"

lemma column_bound: "column x y n k \<le> n * ((WB - 1) * (WB - 1))"
proof -
  have "unat a * unat b \<le> (WB - 1) * (WB - 1)" for a b :: u32
    using u32_less [of a] u32_less [of b] by (intro mult_le_mono) auto
  then have "column x y n k \<le> card {Suc k - n..<min n (Suc k)} * ((WB - 1) * (WB - 1))"
    unfolding column_def using sum_bounded_above [of "{Suc k - n..<min n (Suc k)}"
        "\<lambda>i. unat (x ! i) * unat (y ! (k - i))" "(WB - 1) * (WB - 1)"] by (simp only: of_nat_id)
  also have "\<dots> \<le> n * ((WB - 1) * (WB - 1))" by (intro mult_le_mono1) simp
  finally show ?thesis .
qed

lemma muladds_val:
  "acc_val w + (\<Sum>i\<leftarrow>is. unat (a i) * unat (b i)) < WB ^ 3 \<Longrightarrow>
   acc_val (foldl (\<lambda>w i. word3_muladd w (a i) (b i)) w is) = acc_val w + (\<Sum>i\<leftarrow>is. unat (a i) * unat (b i))"
proof (induction "is" arbitrary: w)
  case (Cons i js)
  have "acc_val (word3_muladd w (a i) (b i)) = acc_val w + unat (a i) * unat (b i)"
    using Cons.prems by (intro word3_muladd_val) simp
  with Cons show ?case by simp
qed simp

lemma comba_column_val:
  assumes "n \<le> 8" and "acc_val w < WB ^ 2"
  shows "acc_val (comba_column x y n k w) = acc_val w + column x y n k"
    and "acc_val w + column x y n k < WB ^ 3"
proof -
  have "column x y n k \<le> 8 * ((WB - 1) * (WB - 1))"
    using column_bound [of x y n k] mult_le_mono1 [OF assms(1), of "(WB - 1) * (WB - 1)"] by (rule order.trans)
  then show b: "acc_val w + column x y n k < WB ^ 3" using assms(2) by simp
  have "(\<Sum>i\<leftarrow>[Suc k - n..<min n (Suc k)]. unat (x ! i) * unat (y ! (k - i))) = column x y n k"
    by (simp add: column_def sum_list_distinct_conv_sum_set del: upt_Suc)
  then show "acc_val (comba_column x y n k w) = acc_val w + column x y n k"
    using muladds_val [of w "\<lambda>i. x ! i" "\<lambda>i. y ! (k - i)"] b by (simp add: comba_column_def del: upt_Suc)
qed

fun horner :: "nat list \<Rightarrow> nat" where
  "horner [] = 0"
| "horner (c # cs) = c + WB * horner cs"

lemma horner_sum: "horner cs = (\<Sum>i<length cs. cs ! i * WB ^ i)"
  by (induction cs) (simp_all add: sum.lessThan_Suc_shift sum_distrib_left algebra_simps del: sum.lessThan_Suc)

lemma mp_val_horner: "mp_val xs = horner (map unat xs)"
  by (induction xs) simp_all

lemma comba_columns_val:
  assumes "comba_columns x y n ks w = (z, w')" and "n \<le> 8" and "acc_val w < WB ^ 2"
  shows "length z = length ks \<and> acc_val w' < WB ^ 2 \<and>
    mp_val z + WB ^ length ks * acc_val w' = acc_val w + horner (map (column x y n) ks)"
  using assms(1,3)
proof (induction ks arbitrary: w z)
  case (Cons k ks)
  obtain w0 w1 w2 where c: "comba_column x y n k w = (w0, w1, w2)" by (metis prod_cases3)
  obtain z1 where z1: "comba_columns x y n ks (w1, w2, 0) = (z1, w')" "z = w0 # z1"
    using Cons.prems(1) c by (auto split: prod.splits)
  have "acc_val (w1, w2, 0) < WB ^ 2"
  proof -
    have "unat w1 < WB" "unat w2 < WB" by (rule u32_less)+
    then show ?thesis by simp
  qed
  from Cons.IH [OF z1(1) this] comba_column_val(1) [OF assms(2) Cons.prems(2), of x y k]
  show ?case by (simp add: c z1(2) algebra_simps)
qed simp

lemma sum_columns:
  fixes a b :: "nat \<Rightarrow> nat"
  shows "(\<Sum>i<n. a i * W ^ i) * (\<Sum>j<n. b j * W ^ j) =
    (\<Sum>k<2 * n - 1. (\<Sum>i = Suc k - n..<min n (Suc k). a i * b (k - i)) * W ^ k)"
proof -
  have "(\<Sum>i<n. a i * W ^ i) * (\<Sum>j<n. b j * W ^ j) = (\<Sum>(i, j) \<in> {..<n} \<times> {..<n}. a i * b j * W ^ (i + j))"
    by (simp add: sum_product sum.cartesian_product power_add mult_ac)
  also have "\<dots> = (\<Sum>(k, i) \<in> (SIGMA k : {..<2 * n - 1}. {Suc k - n..<min n (Suc k)}). a i * b (k - i) * W ^ k)"
    by (rule sum.reindex_bij_witness [of _ "\<lambda>(k, i). (i, k - i)" "\<lambda>(i, j). (i + j, i)"]) auto
  also have "\<dots> = (\<Sum>k<2 * n - 1. \<Sum>i = Suc k - n..<min n (Suc k). a i * b (k - i) * W ^ k)"
    by (simp add: sum.Sigma)
  finally show ?thesis by (simp add: sum_distrib_right)
qed

lemma comba_mul_val:
  assumes "0 < n" and "n \<le> 8" and "n \<le> length x" and "n \<le> length y" and "2 * n \<le> length z"
  shows "\<exists>w. comba_mul n z x y = Some (w @ drop (2 * n) z) \<and> length w = 2 * n \<and>
    mp_val w = mp_val (take n x) * mp_val (take n y)"
proof -
  let ?xs = "take n x" and ?ys = "take n y" and ?ks = "[0..<2 * n - 1]"
  obtain w w1 w2 w3 where w: "comba_columns ?xs ?ys n ?ks (0, 0, 0) = (w, w1, w2, w3)" by (metis prod_cases4)
  have C: "length w = 2 * n - 1"
    "mp_val w + WB ^ (2 * n - 1) * acc_val (w1, w2, w3) = horner (map (column ?xs ?ys n) ?ks)"
    using comba_columns_val [OF w assms(2)] by simp_all
  have "mp_val ?xs * mp_val ?ys = horner (map (column ?xs ?ys n) ?ks)"
    using sum_columns [of "\<lambda>i. unat (?xs ! i)" WB n "\<lambda>j. unat (?ys ! j)"] assms(3,4)
    by (simp add: mp_val_horner horner_sum column_def)
  with C(2) have p: "mp_val w + WB ^ (2 * n - 1) * acc_val (w1, w2, w3) = mp_val ?xs * mp_val ?ys" by simp
  have "acc_val (w1, w2, w3) < WB"
  proof -
    have "mp_val ?xs * mp_val ?ys < WB ^ n * WB ^ n"
      using mp_val_less [of ?xs] mp_val_less [of ?ys] assms(3,4) by (intro mult_strict_mono) simp_all
    also have "WB ^ n * WB ^ n = WB ^ (2 * n - 1) * WB"
      using assms(1) by (simp flip: power_add power_Suc2)
    finally have "WB ^ (2 * n - 1) * acc_val (w1, w2, w3) < WB ^ (2 * n - 1) * WB" using p by linarith
    then show ?thesis by simp
  qed
  then have "acc_val (w1, w2, w3) = unat w1" by simp
  then have "mp_val (w @ [w1]) = mp_val ?xs * mp_val ?ys" using p C(1) by (simp add: mp_val_append)
  moreover have l: "length (w @ [w1]) = 2 * n" using C(1) assms(1) by simp
  moreover have "comba_mul n z x y = Some ((w @ [w1]) @ drop (2 * n) z)"
    using assms w l memcpy_at_in [of 0 "w @ [w1]" z] by (simp add: comba_mul_def mem_slice_in del: upt_Suc)
  ultimately show ?thesis by blast
qed

text \<open>
  Word-array multiplication.  The quadratic multiplication, working in blocks of eight
  words, and the unrolled Comba multiplications of four, six and eight words all store the
  product of the two numbers, and stay inside the arrays.
\<close>

theorem word_array_product:
  assumes "x_size \<le> length x" and "y_size \<le> length y" and "x_size + y_size = length z"
  shows "map_option mp_val (bigint_simple_mul z x x_size y y_size) =
      Some (mp_val (take x_size x) * mp_val (take y_size y)) \<and>
    (x_size = y_size \<longrightarrow>
      (x_size = 4 \<longrightarrow> bigint_comba_mul4 z x y = bigint_simple_mul z x x_size y y_size) \<and>
      (x_size = 6 \<longrightarrow> bigint_comba_mul6 z x y = bigint_simple_mul z x x_size y y_size) \<and>
      (x_size = 8 \<longrightarrow> bigint_comba_mul8 z x y = bigint_simple_mul z x x_size y y_size))"
proof -
  obtain w where w: "bigint_simple_mul z x x_size y y_size = Some w" "length w = x_size + y_size"
    "mp_val w = mp_val (take x_size x) * mp_val (take y_size y)"
    using simple_mul_val [OF assms(1,2), of z] assms(3) by auto
  have comba: "comba_mul x_size z x y = Some w" if eq: "x_size = y_size" and b: "0 < x_size" "x_size \<le> 8"
  proof -
    have "2 * x_size = length z" "x_size \<le> length y" using eq assms(2,3) by simp_all
    then obtain v where "comba_mul x_size z x y = Some v" "length v = 2 * x_size"
      "mp_val v = mp_val (take x_size x) * mp_val (take x_size y)"
      using comba_mul_val [OF b assms(1), of y z] by auto
    with w eq mp_val_inj [of v w] show ?thesis by simp
  qed
  show ?thesis
    using w comba by (auto simp: bigint_comba_mul4_def bigint_comba_mul6_def bigint_comba_mul8_def)
qed

theorem word_array_product_witness:
  "map_option mp_val (bigint_simple_mul (replicate 8 7) [1, 2, 0, 0] 4 [3, 4, 0, 0] 4) =
     Some (mp_val [1, 2, 0, 0] * mp_val [3, 4, 0, 0]) \<and>
   bigint_comba_mul4 (replicate 8 7) [1, 2, 0, 0] [3, 4, 0, 0] =
     bigint_simple_mul (replicate 8 7) [1, 2, 0, 0] 4 [3, 4, 0, 0] 4"
  using word_array_product [of 4 "[1, 2, 0, 0]" 4 "[3, 4, 0, 0]" "replicate 8 7"] by simp

end
