(* ===== verification/MpDiv.thy ===== *)
theory MpDiv
  imports MpWords
begin

text \<open>
  Division of two words by one and the test of a quotient digit (\<^verbatim>\<open>mp_misc.cpp\<close>), which
  \<^verbatim>\<open>divide\<close> uses to guess the digits of a quotient, and the word multiplication written with
  half words.
\<close>

section \<open>Definitions\<close>

definition MP_WORD_TOP_BIT :: u32 where "MP_WORD_TOP_BIT = 0x80000000"

definition divop_step :: "u32 \<Rightarrow> u32 \<Rightarrow> u32 \<times> u32 \<Rightarrow> nat \<Rightarrow> u32 \<times> u32" where
  "divop_step n0 dv s j = (case s of (high, quo) \<Rightarrow>
     let high_top_bit = high AND MP_WORD_TOP_BIT;
         high = push_bit 1 high OR (drop_bit (31 - j) n0 AND 1);
         quo = push_bit 1 quo
     in if high_top_bit \<noteq> 0 \<or> high \<ge> dv then (high - dv, quo OR 1) else (high, quo))"

definition bigint_divop :: "u32 \<Rightarrow> u32 \<Rightarrow> u32 \<Rightarrow> u32" where
  "bigint_divop n1 n0 dv = snd (foldl (divop_step n0 dv) (n1 mod dv, 0) [0..<32])"

definition bigint_modop :: "u32 \<Rightarrow> u32 \<Rightarrow> u32 \<Rightarrow> u32" where
  "bigint_modop n1 n0 dv = n0 - fst (word_madd2 (bigint_divop n1 n0 dv) dv 0)"

definition bigint_divcore :: "u32 \<Rightarrow> u32 \<Rightarrow> u32 \<Rightarrow> u32 \<Rightarrow> u32 \<Rightarrow> u32 \<Rightarrow> bool" where
  "bigint_divcore q y1 y2 x1 x2 x3 =
     (let (y2, y0) = word_madd2 q y2 0;
          (y1, y0) = word_madd2 q y1 y0
      in if y0 > x1 then True
         else if y0 < x1 then False
         else if y1 > x2 then True
         else if y1 < x2 then False
         else y2 > x3)"

definition bigint_wordmul :: "u32 \<Rightarrow> u32 \<Rightarrow> u32 \<times> u32" where
  "bigint_wordmul a b =
     (let a_hi = drop_bit 16 a; a_lo = a AND 0xffff;
          b_hi = drop_bit 16 b; b_lo = b AND 0xffff;
          x0 = a_hi * b_hi; x1 = a_lo * b_hi; x2 = a_hi * b_lo; x3 = a_lo * b_lo;
          x2 = x2 + drop_bit 16 x3;
          x2 = x2 + x1;
          x0 = (if x2 < x1 then x0 + push_bit 16 1 else x0)
      in (push_bit 16 (x2 AND 0xffff) + (x3 AND 0xffff), x0 + drop_bit 16 x2))"

section \<open>Two words divided by one\<close>

lemma unat_push_or:
  assumes "unat (c :: u32) < 2 ^ k" and "k \<le> 32"
  shows "unat (push_bit k w OR c) = unat w * 2 ^ k mod WB + unat c"
proof -
  have "push_bit k w AND c = 0"
  proof (rule bit_word_eqI)
    fix n
    have "\<not> bit c n" if "k \<le> n"
    proof -
      have "take_bit k (unat c) = unat c" using assms(1) by (simp add: take_bit_nat_eq_self)
      then have "\<not> bit (unat c) n" using that by (metis bit_take_bit_iff not_le)
      then show ?thesis by (simp add: bit_unsigned_iff bit_imp_le_length)
    qed
    then show "bit (push_bit k w AND c) n = bit (0 :: u32) n" by (auto simp: bit_simps)
  qed
  then have "push_bit k w OR c = push_bit k w + c" by (rule disjunctive_add_eq_or [symmetric])
  moreover have "unat (push_bit k w) = unat w * 2 ^ k mod WB" using unat_push [of k w] by simp
  moreover have "unat w * 2 ^ k mod WB + 2 ^ k \<le> WB"
  proof -
    define P where "P = (2 :: nat) ^ k"
    define Q where "Q = (2 :: nat) ^ (32 - k)"
    have "Q * P = 2 ^ 32" unfolding P_def Q_def using assms(2) by (metis le_add_diff_inverse2 power_add)
    then have e: "WB = Q * P" by simp
    have "unat w * P mod WB = (unat w mod Q) * P" unfolding e by (rule mult_mod_left [symmetric])
    moreover have "(unat w mod Q + 1) * P \<le> Q * P" by (intro mult_le_mono1) (simp add: Suc_leI Q_def)
    ultimately show ?thesis unfolding P_def [symmetric] e by (simp add: mult.commute)
  qed
  ultimately show ?thesis using assms(1) by (simp add: unat_plus_if')
qed

lemma unat_bit: "unat (drop_bit k n AND (1 :: u32)) = unat n div 2 ^ k mod 2"
  using unat_and_mask [of "drop_bit k n" 1] by (simp add: unat_drop mask_eq_exp_minus_1)

lemma top_bit_set: "high AND MP_WORD_TOP_BIT \<noteq> 0 \<longleftrightarrow> WB \<le> 2 * unat (high :: u32)"
proof -
  have "high AND MP_WORD_TOP_BIT \<noteq> 0 \<longleftrightarrow> bit high 31"
    using and_exp_eq_0_iff_not_bit [of high 31] by (simp add: MP_WORD_TOP_BIT_def)
  also have "\<dots> \<longleftrightarrow> odd (unat high div 2 ^ 31)" 
    using bit_unsigned_iff [of high 31, where ?'a = nat] by (simp add: bit_iff_odd [where ?'a = nat])
  also have "unat high div 2 ^ 31 < 2" using u32_less [of high] by (simp add: div_less_iff_less_mult)
  then have "odd (unat high div 2 ^ 31) \<longleftrightarrow> unat high div 2 ^ 31 = 1" by (auto simp: less_2_cases_iff)
  also have "\<dots> \<longleftrightarrow> WB \<le> 2 * unat high" 
  proof -
    have "unat high = 2147483648 * (unat high div 2147483648) + unat high mod 2147483648" by simp
    moreover have "unat high mod 2147483648 < 2147483648" by simp
    ultimately show ?thesis
      using \<open>unat high div 2 ^ 31 < 2\<close> by (auto simp: less_2_cases_iff)
  qed
  finally show ?thesis .
qed

lemma divop_step_val:
  assumes "unat high < unat dv" and "j < 32" and "unat q < 2 ^ j" and "divop_step n0 dv (high, q) j = (high', q')"
  shows "unat high' < unat dv" and "unat q' < 2 ^ Suc j"
    and "unat q' * unat dv + unat high' = 2 * (unat q * unat dv + unat high) + unat n0 div 2 ^ (31 - j) mod 2"
proof -
  define h where "h = push_bit 1 high OR (drop_bit (31 - j) n0 AND 1)"
  define bt where "bt = unat n0 div 2 ^ (31 - j) mod 2"
  have bt: "unat (drop_bit (31 - j) n0 AND 1 :: u32) = bt" "bt < 2" by (simp_all add: bt_def unat_bit)
  have h: "unat h = unat high * 2 mod WB + bt" unfolding h_def
    using unat_push_or [of "drop_bit (31 - j) n0 AND 1" 1 high] bt by simp
  have q2: "unat q * 2 < WB"
  proof -
    have "unat q * 2 < 2 ^ Suc j" using assms(3) by simp
    also have "(2 :: nat) ^ Suc j \<le> 2 ^ 32" using assms(2) by (intro power_increasing) simp_all
    finally show ?thesis by simp
  qed
  then have q: "unat (push_bit 1 q) = unat q * 2" using unat_push [of 1 q] by simp
  have q1: "unat (push_bit 1 q OR 1) = unat q * 2 + 1" using unat_push_or [of 1 1 q] q2 by simp
  have dv: "unat dv < WB" by (rule u32_less)
  let ?c = "high AND MP_WORD_TOP_BIT \<noteq> 0 \<or> h \<ge> dv"
  have c: "?c \<longleftrightarrow> unat dv \<le> 2 * unat high + bt"
  proof (cases "WB \<le> 2 * unat high")
    case True
    then show ?thesis using top_bit_set [of high] dv by simp
  next
    case False
    then show ?thesis using top_bit_set [of high] h by (simp add: word_le_nat_alt mult.commute)
  qed
  have res: "(high', q') = (if ?c then (h - dv, push_bit 1 q OR 1) else (h, push_bit 1 q))"
    using assms(4) unfolding divop_step_def Let_def h_def by (simp split del: if_split)
  show "unat high' < unat dv" "unat q' < 2 ^ Suc j"
    "unat q' * unat dv + unat high' = 2 * (unat q * unat dv + unat high) + unat n0 div 2 ^ (31 - j) mod 2"
  proof -
    have *: "unat high' < unat dv \<and> unat q' < 2 ^ Suc j \<and>
      unat q' * unat dv + unat high' = 2 * (unat q * unat dv + unat high) + bt"
    proof (cases ?c)
      case True
      then have hq: "high' = h - dv" "q' = push_bit 1 q OR 1" using res by simp_all
      have le: "unat dv \<le> 2 * unat high + bt" using True c by simp
      have "unat (h - dv) = 2 * unat high + bt - unat dv"
      proof (cases "WB \<le> 2 * unat high")
        case True
        then have "unat high * 2 mod WB = unat high * 2 - WB"
          using u32_less [of high] by (simp add: mod_if)
        moreover have "2 * unat high + bt - WB < unat dv" using assms(1) bt(2) dv True by linarith
        ultimately show ?thesis using h True by (simp add: unat_sub_if' mult.commute)
      next
        case False
        then show ?thesis using h le by (simp add: unat_sub_if' mult.commute)
      qed
      then have "unat high' + unat dv = 2 * unat high + bt" using hq(1) le by simp
      moreover have "unat q' = unat q * 2 + 1" using q1 hq(2) by simp
      ultimately show ?thesis using assms(1,3) bt(2) by (simp add: algebra_simps)
    next
      case False
      then have hq: "high' = h" "q' = push_bit 1 q" using res by simp_all
      have "2 * unat high + bt < unat dv" using False c by simp
      then have "unat h = 2 * unat high + bt" using h dv by simp
      with hq q False c assms(3) show ?thesis by (simp add: algebra_simps)
    qed
    then show "unat high' < unat dv" "unat q' < 2 ^ Suc j"
      "unat q' * unat dv + unat high' = 2 * (unat q * unat dv + unat high) + unat n0 div 2 ^ (31 - j) mod 2"
      by (simp_all add: bt_def)
  qed
qed

lemma divop_val:
  assumes "n1 < dv"
  shows "unat (bigint_divop n1 n0 dv) = (unat n1 * WB + unat n0) div unat dv"
proof -
  have lt: "unat n1 < unat dv" using assms by (simp add: word_less_nat_alt)
  have n1: "n1 mod dv = n1" using assms by (simp add: word_mod_less_divisor mod_word_less)
  have inv: "case foldl (divop_step n0 dv) (n1, 0) [0..<k] of (high, q) \<Rightarrow>
      unat high < unat dv \<and> unat q < 2 ^ k \<and> unat q * unat dv + unat high = unat n1 * 2 ^ k + unat n0 div 2 ^ (32 - k)"
    if "k \<le> 32" for k
    using that
  proof (induction k)
    case 0
    have "unat n0 div 2 ^ 32 = 0" using u32_less [of n0] by simp
    then show ?case using lt by simp
  next
    case (Suc k)
    obtain high q where hq: "foldl (divop_step n0 dv) (n1, 0) [0..<k] = (high, q)" by fastforce
    obtain high' q' where st: "divop_step n0 dv (high, q) k = (high', q')" by fastforce
    have I: "unat high < unat dv" "unat q < 2 ^ k"
      "unat q * unat dv + unat high = unat n1 * 2 ^ k + unat n0 div 2 ^ (32 - k)"
      using Suc.IH Suc.prems hq by auto
    have "k < 32" using Suc.prems by simp
    note S = divop_step_val [OF I(1) this I(2) st]
    have "32 - k = Suc (31 - k)" "32 - Suc k = 31 - k" using Suc.prems by simp_all
    moreover have "unat n0 div (2 ^ (31 - k) * 2) = unat n0 div 2 ^ (31 - k) div 2" by (rule div_mult2_eq)
    ultimately have "2 * (unat n0 div 2 ^ (32 - k)) + unat n0 div 2 ^ (31 - k) mod 2 = unat n0 div 2 ^ (32 - Suc k)"
      by (simp add: mult.commute [of 2])
    with S(3) I(3) have "unat q' * unat dv + unat high' = unat n1 * 2 ^ Suc k + unat n0 div 2 ^ (32 - Suc k)"
      by (simp add: algebra_simps)
    with S(1,2) show ?case by (simp add: hq st)
  qed
  obtain high q where f: "foldl (divop_step n0 dv) (n1, 0) [0..<32] = (high, q)" by fastforce
  have "unat high < unat dv" "unat q * unat dv + unat high = unat n1 * WB + unat n0"
    using inv [of 32] f by simp_all
  then have "(unat n1 * WB + unat n0) div unat dv = unat q" by (metis add.commute div_mult_self3 div_less add_0_right less_nat_zero_code)
  then show ?thesis using f n1 by (simp add: bigint_divop_def)
qed

text \<open>The test of a digit compares it times two words of the divisor with three words of the dividend.\<close>

lemma divcore_val:
  "bigint_divcore q y1 y2 x1 x2 x3 \<longleftrightarrow>
     (unat x1 * WB + unat x2) * WB + unat x3 < unat q * (unat y1 * WB + unat y2)"
proof -
  obtain z2 c where z2: "word_madd2 q y2 0 = (z2, c)" by fastforce
  obtain z1 z0 where z1: "word_madd2 q y1 c = (z1, z0)" by fastforce
  have v: "unat z2 + WB * unat c = unat q * unat y2" "unat z1 + WB * unat z0 = unat q * unat y1 + unat c"
    using word_madd2_val [OF z2] word_madd2_val [OF z1] by simp_all
  have p: "unat q * (unat y1 * WB + unat y2) = (unat z0 * WB + unat z1) * WB + unat z2"
    using v by (simp add: algebra_simps)
  have lx: "a * WB + b < c * WB + d \<longleftrightarrow> a < c \<or> a = c \<and> b < d"
    and eq: "a * WB + b = c * WB + d \<longleftrightarrow> a = c \<and> b = d" if "b < WB" "d < WB" for a b c d :: nat
    using that by (cases a c rule: linorder_cases; auto)+
  have "(unat x1 * WB + unat x2) * WB + unat x3 < (unat z0 * WB + unat z1) * WB + unat z2 \<longleftrightarrow>
      unat x1 < unat z0 \<or> unat x1 = unat z0 \<and> (unat x2 < unat z1 \<or> unat x2 = unat z1 \<and> unat x3 < unat z2)"
    using lx [of "unat x3" "unat z2" "unat x1 * WB + unat x2" "unat z0 * WB + unat z1"]
      lx [of "unat x2" "unat z1" "unat x1" "unat z0"] eq [of "unat x2" "unat z1" "unat x1" "unat z0"]
      u32_less [of x3] u32_less [of z2] u32_less [of x2] u32_less [of z1] by blast
  then show ?thesis unfolding p bigint_divcore_def z2 by (simp add: z1 Let_def word_less_nat_alt)
qed

end
