(* ===== verification/BigDivide.thy ===== *)
theory BigDivide
  imports BigIntOps MpDiv
begin

text \<open>
  Division of big integers (\<^verbatim>\<open>divide.cpp\<close> and the operators \<^verbatim>\<open>/=\<close> and \<^verbatim>\<open>%\<close> of \<^verbatim>\<open>big_ops2.cpp\<close> and
  \<^verbatim>\<open>big_ops3.cpp\<close>): schoolbook division with quotient digits guessed from the leading words,
  lowered until three words of the dividend cover them, and corrected once if the
  subtraction went below zero.  Loops whose end depends on the data are partial functions;
  \<open>divide_abs\<close> shows that every division by a nonzero number returns.  A division or modulus
  that throws makes \<^verbatim>\<open>BigInteger\<close> abort the process: \<open>None\<close>.
\<close>

section \<open>Definitions\<close>

fun sig_words :: "nat \<Rightarrow> nat" where
  "sig_words m = (if m = 0 then 0 else Suc (sig_words (m div WB)))"

declare sig_words.simps [simp del]

definition word_at :: "bigint \<Rightarrow> nat \<Rightarrow> u32" where
  "word_at x n = of_nat (bi_mag x div WB ^ n)"

text \<open>\<^verbatim>\<open>word_at(j - k)\<close>: an index below zero wraps to one beyond every register, where the word is 0.\<close>

definition word_before :: "bigint \<Rightarrow> nat \<Rightarrow> nat \<Rightarrow> u32" where
  "word_before x j k = (if j < k then 0 else word_at x (j - k))"

definition sign_fixup :: "bigint \<Rightarrow> bigint \<Rightarrow> bigint \<Rightarrow> bigint \<Rightarrow> bigint \<times> bigint" where
  "sign_fixup x y q r =
     (let (q1, r1) =
        (if bi_neg x then
           let q' = flip_sign q in
           if bi_mag r \<noteq> 0 then (bi_sub q' (bi_nat 1), bi_sub (set_sign False y) r) else (q', r)
         else (q, r))
      in (if bi_neg y then flip_sign q1 else q1, r1))"

partial_function (option) norm_shifts :: "u32 \<Rightarrow> nat \<Rightarrow> nat option" where
  "norm_shifts y_top shifts =
     (if y_top < MP_WORD_TOP_BIT then norm_shifts (push_bit 1 y_top) (Suc shifts) else Some shifts)"

partial_function (option) subtract_loop :: "bigint \<Rightarrow> bigint \<Rightarrow> bigint \<Rightarrow> (bigint \<times> bigint) option" where
  "subtract_loop y r q =
     (if bi_cmp r y True > 0 then subtract_loop y (bi_sub r y) (bi_add q (bi_nat 1)) else Some (q, r))"

partial_function (option) top_loop :: "bigint \<Rightarrow> bigint \<Rightarrow> u32 \<Rightarrow> (u32 \<times> bigint) option" where
  "top_loop temp r q =
     (if bi_cmp r temp True \<ge> 0 then top_loop temp (bi_sub r temp) (q + 1) else Some (q, r))"

function lower_digit :: "u32 \<Rightarrow> u32 \<Rightarrow> u32 \<Rightarrow> u32 \<Rightarrow> u32 \<Rightarrow> u32 \<Rightarrow> u32" where
  "lower_digit y1 y2 x1 x2 x3 q =
     (if bigint_divcore q y1 y2 x1 x2 x3 then lower_digit y1 y2 x1 x2 x3 (q - 1) else q)"
  by pat_completeness auto
termination
proof (relation "measure (\<lambda>(y1, y2, x1, x2, x3, q). unat q)")
  fix y1 y2 x1 x2 x3 q :: u32
  assume "bigint_divcore q y1 y2 x1 x2 x3"
  then have "q \<noteq> 0" by (auto simp: divcore_val)
  then show "((y1, y2, x1, x2, x3, q - 1), y1, y2, x1, x2, x3, q) \<in> measure (\<lambda>(y1, y2, x1, x2, x3, q). unat q)"
    by (simp add: unat_dec unat_gt_0)
qed simp

declare lower_digit.simps [simp del]

text \<open>One round of the main loop: the digit \<^verbatim>\<open>q[j - t - 1]\<close> and the remaining dividend.\<close>

definition divide_digit :: "bigint \<Rightarrow> nat \<Rightarrow> nat \<Rightarrow> bigint \<Rightarrow> u32 \<times> bigint" where
  "divide_digit y t j r =
     (let x_j0 = word_at r j;
          x_j1 = word_at r (j - 1);
          y_t = word_at y t;
          q0 = (if x_j0 = y_t then - 1 else bigint_divop x_j0 x_j1 y_t);
          q1 = lower_digit y_t (word_before y t 1) x_j0 x_j1 (word_before r j 2) q0;
          r1 = bi_sub r (bi_shl (bi_mul (bi_nat (unat q1)) y) (32 * (j - t - 1)))
      in if bi_neg r1 then (q1 - 1, bi_add r1 (bi_shl y (32 * (j - t - 1)))) else (q1, r1))"

text \<open>The digits for \<open>j = t + k, \<dots>, t + 1\<close>, least significant first.\<close>

fun divide_loop :: "bigint \<Rightarrow> nat \<Rightarrow> nat \<Rightarrow> bigint \<Rightarrow> u32 list \<times> bigint" where
  "divide_loop y t 0 r = ([], r)"
| "divide_loop y t (Suc k) r =
     (let (q, r1) = divide_digit y t (t + Suc k) r;
          (qs, r2) = divide_loop y t k r1
      in (qs @ [q], r2))"

text \<open>The quotient and remainder of normalised numbers of \<open>n + 1\<close> and \<open>t + 1\<close> words.\<close>

definition divide_normalised :: "bigint \<Rightarrow> bigint \<Rightarrow> nat \<Rightarrow> nat \<Rightarrow> (bigint \<times> bigint) option" where
  "divide_normalised r y n t =
     (if n \<le> t then subtract_loop y r (bi_nat 0)
      else do {
        (q_top, r) \<leftarrow> top_loop (bi_shl y (32 * (n - t))) r 0;
        let (qs, r) = divide_loop y t (n - t) r in
        Some (bi_nat (mp_val (qs @ [q_top])), r) })"

definition divide_words :: "bigint \<Rightarrow> bigint \<Rightarrow> (bigint \<times> bigint) option" where
  "divide_words r y = do {
     let y_words = sig_words (bi_mag y);
     shifts \<leftarrow> norm_shifts (word_at y (y_words - 1)) 0;
     let y = bi_shl y shifts;
     let r = bi_shl r shifts;
     let n = sig_words (bi_mag r) - 1;
     let t = y_words - 1;
     (q, r) \<leftarrow> divide_normalised r y n t;
     Some (q, bi_shr r shifts) }"

definition bi_divide :: "bigint \<Rightarrow> bigint \<Rightarrow> (bigint \<times> bigint) option" where
  "bi_divide x y_arg =
     (if bi_mag y_arg = 0 then None
      else
        let y = set_sign False y_arg;
            r = set_sign False x;
            c = bi_cmp r y True
        in do {
          (q, r) \<leftarrow>
            (if c < 0 then Some (bi_nat 0, r)
             else if c = 0 then Some (bi_nat 1, bi_nat 0)
             else divide_words r y);
          Some (sign_fixup x y_arg q r) })"

text \<open>A divisor of one 32-bit word that is a power of two is a shift of the magnitude.\<close>

definition bi_div :: "bigint \<Rightarrow> bigint \<Rightarrow> bigint option" where
  "bi_div x y =
     (if bi_mag y \<noteq> 0 \<and> bi_mag y < 2 ^ 32 \<and> power_of_2 (bi_mag y)
      then Some (bi_shr x (bit_length (bi_mag y) - 1))
      else map_option fst (bi_divide x y))"

definition bi_mod :: "bigint \<Rightarrow> bigint \<Rightarrow> bigint option" where
  "bi_mod n md =
     (if bi_mag md = 0 \<or> bi_neg md then None
      else if \<not> bi_neg n \<and> bi_cmp n md True < 0 then Some n
      else map_option snd (bi_divide n md))"

section \<open>Arithmetic on numbers that are not negative\<close>

lemma bi_nat_ops [simp]:
  "Y \<le> R \<Longrightarrow> bi_sub (bi_nat R) (bi_nat Y) = bi_nat (R - Y)"
  "bi_mul (bi_nat R) (bi_nat Y) = bi_nat (R * Y)"
  "bi_add (bi_nat R) (bi_nat Y) = bi_nat (R + Y)"
  "bi_shl (bi_nat R) n = bi_nat (R * 2 ^ n)"
  "bi_shr (bi_nat R) n = bi_nat (R div 2 ^ n)"
  "bi_cmp (bi_nat R) (bi_nat Y) True = (if R < Y then - 1 else if R = Y then 0 else 1)"
  by (auto simp: bi_sub_def bi_mul_def bi_add_def bi_shl_def bi_shr_def bi_cmp_def bi_nat_def set_sign_def
      push_bit_eq_mult drop_bit_eq_div Let_def)

lemma bi_below_zero:
  assumes "R < P" and "P \<le> R + S"
  shows "bi_neg (bi_sub (bi_nat R) (bi_nat P))"
    and "bi_add (bi_sub (bi_nat R) (bi_nat P)) (bi_nat S) = bi_nat (R + S - P)"
  using assms by (auto simp: bi_sub_def bi_add_def bi_nat_def set_sign_def)

lemma unat_word_at: "unat (word_at x n) = bi_mag x div WB ^ n mod WB"
  by (simp add: word_at_def unat_of_nat)

section \<open>The guessed digit\<close>

lemma lower_digit_val:
  assumes "0 < unat y1 * WB + unat y2"
  shows "unat (lower_digit y1 y2 x1 x2 x3 q) =
    min (unat q) (((unat x1 * WB + unat x2) * WB + unat x3) div (unat y1 * WB + unat y2))"
  using assms
proof (induction y1 y2 x1 x2 x3 q rule: lower_digit.induct)
  case (1 y1 y2 x1 x2 x3 q)
  let ?X = "(unat x1 * WB + unat x2) * WB + unat x3" and ?Y = "unat y1 * WB + unat y2"
  show ?case
  proof (cases "bigint_divcore q y1 y2 x1 x2 x3")
    case True
    then have lt: "?X < unat q * ?Y" by (simp add: divcore_val)
    then have q: "q \<noteq> 0" by auto
    have "?X div ?Y < unat q" using lt by (simp add: less_mult_imp_div_less)
    moreover have "unat (q - 1) = unat q - 1" using q by (simp add: unat_dec)
    ultimately show ?thesis using "1.IH" [OF True "1.prems"] True by (simp add: lower_digit.simps [of _ _ _ _ _ q])
  next
    case False
    then have "unat q * ?Y \<le> ?X" by (simp add: divcore_val not_less)
    then show ?thesis
      using False "1.prems" by (simp add: lower_digit.simps [of _ _ _ _ _ q] min_def less_eq_div_iff_mult_less_eq)
  qed
qed

lemma div_bounds: "0 < (u :: nat) \<Longrightarrow> a div u * u \<le> a" "0 < (u :: nat) \<Longrightarrow> a < (a div u + 1) * u"
  using dividend_less_times_div [of u a] by (simp_all add: mult.commute)

text \<open>Dividing by the leading words instead of the whole divisor overshoots by at most one.\<close>

lemma estimate:
  fixes R S U B :: nat
  assumes "0 < U" and "0 < S" and "R < S * B" and "B \<le> S div U" and "0 < B"
  defines "h \<equiv> R div U div (S div U)"
  shows "R div S \<le> h" and "min h (B - 1) \<le> R div S + 1"
proof -
  define X Y q where "X = R div U" and "Y = S div U" and "q = R div S"
  have Y: "0 < Y" "B \<le> Y" using assms(4,5) by (simp_all add: Y_def)
  have s: "Y * U \<le> S" "S < (Y + 1) * U" using div_bounds [OF assms(1)] by (simp_all add: Y_def)
  have r: "X * U \<le> R" "R < (X + 1) * U" using div_bounds [OF assms(1)] by (simp_all add: X_def)
  have q: "q * S \<le> R" "R < (q + 1) * S" using div_bounds [OF assms(2)] by (simp_all add: q_def)
  have "q * Y * U \<le> q * S" using s(1) by simp
  then have "(q * Y) * U < (X + 1) * U" using q(1) r(2) by linarith
  then have "q * Y < X + 1" using assms(1) by (simp only: mult_less_cancel2)
  then have "q * Y \<le> X" by simp
  then show "R div S \<le> h" using Y(1) by (simp add: h_def less_eq_div_iff_mult_less_eq flip: X_def Y_def q_def)
  show "min h (B - 1) \<le> R div S + 1"
  proof (rule ccontr)
    assume a: "\<not> min h (B - 1) \<le> R div S + 1"
    define m where "m = min h (B - 1)"
    have m: "q + 2 \<le> m" "m < B" "m \<le> h" using a assms(5) unfolding m_def q_def by linarith+
    have "m * Y \<le> X" using m(3) Y(1) by (simp add: h_def less_eq_div_iff_mult_less_eq flip: X_def Y_def)
    then have "m * Y * U \<le> X * U" by (intro mult_le_mono1)
    then have "m * Y * U \<le> R" using r(1) by linarith
    also have "R < (q + 1) * S" by (rule q)
    also have "\<dots> \<le> (m - 1) * S" using m(1) by (intro mult_le_mono1) simp
    also have "\<dots> \<le> (m - 1) * ((Y + 1) * U)" using s(2) by (intro mult_le_mono2) simp
    also have "\<dots> = ((m - 1) * (Y + 1)) * U" by (simp only: mult.assoc)
    finally have "m * Y < (m - 1) * (Y + 1)" by (simp only: mult_less_cancel2)
    moreover have "(m - 1) * (Y + 1) + (Y + 1) = m * Y + m" using m(1) by (cases m) simp_all
    ultimately show False using m(2) Y(2) by linarith
  qed
qed

lemma words_of:
  assumes "R < WB ^ Suc j"
  shows "R div WB ^ j < WB" and "0 < j \<Longrightarrow> R div WB ^ j * WB + R div WB ^ (j - 1) mod WB = R div WB ^ (j - 1)"
proof -
  show "R div WB ^ j < WB" using assms by (simp add: div_less_iff_less_mult)
  assume "0 < j"
  then obtain i where j: "j = Suc i" by (cases j) simp_all
  have "R div WB ^ j = R div WB ^ i div WB" by (simp add: j div_mult2_eq mult.commute [of WB])
  then show "R div WB ^ j * WB + R div WB ^ (j - 1) mod WB = R div WB ^ (j - 1)" by (simp add: j)
qed

text \<open>The leading words of divisor and dividend, as the code reads them.\<close>

lemma leading_words:
  assumes "WB ^ Suc t \<le> 2 * Y" and "Y < WB ^ Suc t" and "R < Y * WB ^ Suc k"
  defines "j \<equiv> t + Suc k"
    and "y \<equiv> bi_nat Y" and "r \<equiv> bi_nat R"
  defines "y1 \<equiv> unat (word_at y t)" and "y2 \<equiv> unat (word_before y t 1)"
    and "x1 \<equiv> unat (word_at r j)" and "x2 \<equiv> unat (word_at r (j - 1))" and "x3 \<equiv> unat (word_before r j 2)"
  shows "WB \<le> 2 * y1" and "x1 \<le> y1"
    and "\<exists>U c. 0 < U \<and> 0 < c \<and> (x1 * WB + x2) * WB + x3 = c * R div U \<and> y1 * WB + y2 = c * (Y * WB ^ k) div U"
proof -
  have yt: "y1 = Y div WB ^ t" using words_of(1) [OF assms(2)] by (simp add: y1_def y_def unat_word_at)
  have "WB ^ t * WB \<le> 2 * Y" using assms(1) by (simp add: mult.commute)
  then have "WB ^ t * (WB div 2) \<le> Y" by simp
  then have "WB div 2 \<le> y1" unfolding yt by (simp add: less_eq_div_iff_mult_less_eq mult.commute)
  then show "WB \<le> 2 * y1" by simp
  have e: "WB ^ Suc t * WB ^ Suc k = WB ^ Suc j" by (simp add: j_def power_add)
  have "Y * WB ^ Suc k < WB ^ Suc t * WB ^ Suc k" using assms(2) by (intro mult_strict_right_mono) simp_all
  then have R: "R < WB ^ Suc j" using assms(3) e by linarith
  have xj: "x1 = R div WB ^ j" using words_of(1) [OF R] by (simp add: x1_def r_def unat_word_at)
  have x12: "x1 * WB + x2 = R div WB ^ (j - 1)"
    using words_of(2) [OF R] unfolding xj by (simp add: x2_def r_def unat_word_at j_def)
  have "Y < (y1 + 1) * WB ^ t" unfolding yt by (simp add: dividend_less_times_div mult.commute)
  then have "Y * WB ^ Suc k \<le> (y1 + 1) * WB ^ t * WB ^ Suc k" by (intro mult_le_mono1) simp
  moreover have "(y1 + 1) * WB ^ t * WB ^ Suc k = (y1 + 1) * WB ^ j" by (simp add: j_def power_add algebra_simps)
  ultimately have "R < (y1 + 1) * WB ^ j" using assms(3) by linarith
  then have "x1 < y1 + 1" unfolding xj by (simp add: less_mult_imp_div_less)
  then show "x1 \<le> y1" by simp
  show "\<exists>U c. 0 < U \<and> 0 < c \<and> (x1 * WB + x2) * WB + x3 = c * R div U \<and> y1 * WB + y2 = c * (Y * WB ^ k) div U"
  proof (cases "j = 1")
    case True
    then have "t = 0" "k = 0" by (simp_all add: j_def)
    then show ?thesis
      using x12 yt True by (intro exI [of _ 1] exI [of _ WB])
        (simp add: x3_def y2_def word_before_def mult.commute)
  next
    case False
    then have j2: "2 \<le> j" by (cases "t + k") (simp_all add: j_def)
    have R': "R div WB < WB ^ Suc (j - 1)" using R j2 by (simp add: div_less_iff_less_mult mult.commute)
    have x3: "x3 = R div WB ^ (j - 2) mod WB" using j2 by (simp add: x3_def word_before_def r_def unat_word_at)
    obtain i where i: "j = Suc (Suc i)" using j2 by (metis add_2_eq_Suc le_Suc_ex)
    have X: "(x1 * WB + x2) * WB + x3 = R div WB ^ i"
    proof -
      have "R div WB ^ Suc i = R div WB ^ i div WB" by (simp add: div_mult2_eq mult.commute [of WB])
      then show ?thesis using x12 x3 by (simp add: i)
    qed
    have Y: "y1 * WB + y2 = Y * WB ^ k div WB ^ i"
    proof (cases t)
      case 0
      then have "k = Suc i" using i by (simp add: j_def)
      then show ?thesis using 0 yt by (simp add: y2_def word_before_def)
    next
      case (Suc s)
      have "WB ^ i = WB ^ s * WB ^ k" using i Suc by (simp add: j_def flip: power_add)
      then have "Y * WB ^ k div WB ^ i = Y div WB ^ s" by simp
      moreover have "y1 * WB + y2 = Y div WB ^ s"
        using words_of(2) [OF assms(2)] Suc yt by (simp add: y2_def y_def word_before_def unat_word_at)
      ultimately show ?thesis by simp
    qed
    show ?thesis using X Y by (intro exI [of _ "WB ^ i"] exI [of _ 1]) simp
  qed
qed

lemma initial_digit:
  fixes x1 x2 x3 y1 y2 :: u32
  assumes "x1 \<le> y1" and "WB \<le> 2 * unat y1"
  defines "X \<equiv> (unat x1 * WB + unat x2) * WB + unat x3" and "Y \<equiv> unat y1 * WB + unat y2"
    and "q \<equiv> (if x1 = y1 then - 1 else bigint_divop x1 x2 y1)"
  shows "min (unat q) (X div Y) = min (X div Y) (WB - 1)"
proof (cases "x1 = y1")
  case False
  then have lt: "x1 < y1" using assms(1) by simp
  define h where "h = X div Y"
  have "unat y1 * WB \<le> Y" by (simp add: Y_def)
  then have "h * (unat y1 * WB) \<le> h * Y" by (rule mult_le_mono2)
  also have "h * Y \<le> X" by (simp add: h_def)
  also have "X < (unat x1 * WB + unat x2 + 1) * WB" using u32_less [of x3] by (simp add: X_def)
  finally have "h * unat y1 < unat x1 * WB + unat x2 + 1" by simp
  then have "h * unat y1 \<le> unat x1 * WB + unat x2" by simp
  then have "h \<le> unat q"
    using False assms(2) by (simp add: q_def divop_val [OF lt] less_eq_div_iff_mult_less_eq)
  moreover have "unat q \<le> WB - 1" using u32_less [of q] by linarith
  ultimately show ?thesis by (simp add: h_def)
qed (simp add: q_def min.commute)

lemma divide_digit_val:
  assumes "WB ^ Suc t \<le> 2 * Y" and "Y < WB ^ Suc t" and "R < Y * WB ^ Suc k"
  defines "S \<equiv> Y * WB ^ k"
  shows "divide_digit (bi_nat Y) t (t + Suc k) (bi_nat R) = (of_nat (R div S), bi_nat (R mod S))"
    and "R div S < WB"
proof -
  let ?y = "bi_nat Y" and ?r = "bi_nat R"
  define j where "j = t + Suc k"
  define x1 x2 x3 y1 y2 where "x1 = word_at ?r j" and "x2 = word_at ?r (j - 1)" and "x3 = word_before ?r j 2"
    and "y1 = word_at ?y t" and "y2 = word_before ?y t 1"
  note L = leading_words [OF assms(1-3), folded j_def, folded x1_def x2_def x3_def y1_def y2_def]
  obtain U c where U: "0 < U" "0 < c" "(unat x1 * WB + unat x2) * WB + unat x3 = c * R div U"
    "unat y1 * WB + unat y2 = c * S div U" using L(3) unfolding S_def by blast
  have "0 < Y" using assms(1) by (cases Y) simp_all
  then have Spos: "0 < S" "0 < c * S" using U(2) by (simp_all add: S_def)
  have RS: "R < S * WB" using assms(3) by (simp add: S_def mult_ac)
  then show qlt: "R div S < WB" by (simp add: less_mult_imp_div_less mult.commute)
  have cRS: "c * R < c * S * WB" using RS U(2) by (simp add: mult.assoc)
  have big: "WB \<le> c * S div U" unfolding U(4) [symmetric] using L(1) by simp
  have dv: "c * R div (c * S) = R div S" using U(2) by simp
  note E = estimate [OF U(1) Spos(2) cRS big, unfolded dv]
  define q0 where "q0 = (if x1 = y1 then - 1 else bigint_divop x1 x2 y1)"
  define q1 where "q1 = lower_digit y1 y2 x1 x2 x3 q0"
  have "0 < unat y1 * WB + unat y2" using L(1) by simp
  then have "unat q1 = min (unat q0) (c * R div U div (c * S div U))"
    unfolding q1_def using lower_digit_val [of y1 y2 x1 x2 x3 q0] U(3,4) by simp
  also have "\<dots> = min (c * R div U div (c * S div U)) (WB - 1)"
    using initial_digit [of x1 y1 x2 x3 y2] L(1,2) unfolding q0_def U(3,4) by (simp add: word_le_nat_alt)
  finally have q1: "R div S \<le> unat q1" "unat q1 \<le> R div S + 1" using E qlt by simp_all
  have k: "j - t - 1 = k" by (simp add: j_def)
  have e: "(2 :: nat) ^ (32 * k) = WB ^ k" by (simp add: power_mult)
  define r1 where "r1 = bi_sub ?r (bi_nat (unat q1 * S))"
  have dd: "divide_digit ?y t j ?r = (if bi_neg r1 then (q1 - 1, bi_add r1 (bi_nat S)) else (q1, r1))"
    unfolding divide_digit_def Let_def x1_def [symmetric] x2_def [symmetric] x3_def [symmetric] y1_def [symmetric]
      y2_def [symmetric] k
    by (simp add: q0_def q1_def r1_def S_def e mult.assoc)
  have qr: "R = R div S * S + R mod S" "R mod S < S" using Spos by simp_all
  show "divide_digit ?y t (t + Suc k) ?r = (of_nat (R div S), bi_nat (R mod S))"
  proof (cases "unat q1 = R div S")
    case True
    then have "unat q1 * S \<le> R" using div_bounds(1) [OF Spos(1), of R] by simp
    then have "r1 = bi_nat (R mod S)" using True qr(1) by (simp add: r1_def minus_div_mult_eq_mod)
    moreover have "of_nat (R div S) = q1" by (simp flip: True)
    ultimately show ?thesis using dd by (simp add: j_def)
  next
    case False
    then have q: "unat q1 = R div S + 1" using q1 by simp
    then have P: "unat q1 * S = R - R mod S + S" by (simp add: minus_mod_eq_div_mult)
    have "R < unat q1 * S" "unat q1 * S \<le> R + S" unfolding P using qr by linarith+
    note Z = bi_below_zero [OF this]
    have "R + S - unat q1 * S = R mod S" unfolding P using qr by simp
    then have "bi_neg r1" "bi_add r1 (bi_nat S) = bi_nat (R mod S)" using Z by (simp_all add: r1_def)
    moreover have "of_nat (R div S) = q1 - 1"
    proof -
      have "of_nat (R div S + 1) = q1" by (simp only: q [symmetric] of_nat_unat ucast_id)
      then show ?thesis by (auto simp flip: \<open>of_nat (R div S + 1) = q1\<close>)
    qed
    ultimately show ?thesis using dd by (simp add: j_def)
  qed
qed

lemma div_split:
  assumes "0 < (Y :: nat)"
  shows "R div Y = R mod (Y * W) div Y + W * (R div (Y * W))"
proof -
  have "Y * W * (R div (Y * W)) = (W * (R div (Y * W))) * Y" by simp
  then have "R = R mod (Y * W) + (W * (R div (Y * W))) * Y" using mod_mult_div_eq [of R "Y * W"] by linarith
  then show ?thesis using assms by (metis div_mult_self1 add.commute less_nat_zero_code)
qed

lemma divide_loop_val:
  assumes "WB ^ Suc t \<le> 2 * Y" and "Y < WB ^ Suc t" and "R < Y * WB ^ k"
  shows "\<exists>qs. divide_loop (bi_nat Y) t k (bi_nat R) = (qs, bi_nat (R mod Y)) \<and> length qs = k \<and> mp_val qs = R div Y"
  using assms(3)
proof (induction k arbitrary: R)
  case (Suc k)
  define S where "S = Y * WB ^ k"
  note D = divide_digit_val [OF assms(1,2) Suc.prems, folded S_def]
  have "0 < Y" using assms(1) by (cases Y) simp_all
  then have "R mod S < Y * WB ^ k" by (simp add: S_def)
  from Suc.IH [OF this] obtain qs where qs: "divide_loop (bi_nat Y) t k (bi_nat (R mod S)) = (qs, bi_nat (R mod S mod Y))"
    "length qs = k" "mp_val qs = R mod S div Y" by blast
  have "R mod S mod Y = R mod Y" by (simp add: S_def mod_mod_cancel)
  moreover have "mp_val (qs @ [of_nat (R div S)]) = R div Y"
  proof -
    have "unat (of_nat (R div S) :: u32) = R div S" using D(2) by (simp add: unat_of_nat)
    moreover have "R div Y = R mod S div Y + WB ^ k * (R div S)" unfolding S_def by (rule div_split [OF \<open>0 < Y\<close>])
    ultimately show ?thesis using qs by (simp add: mp_val_append)
  qed
  ultimately show ?case using D(1) qs by simp
qed simp

section \<open>Loops\<close>

lemma norm_shifts_val:
  assumes "w \<noteq> 0"
  shows "\<exists>s. norm_shifts w k = Some (k + s) \<and> unat w * 2 ^ s < WB \<and> WB \<le> 2 * (unat w * 2 ^ s)"
  using assms
proof (induction "WB - unat w" arbitrary: w k rule: less_induct)
  case less
  have w0: "0 < unat w" using less.prems by (simp add: unat_gt_0)
  show ?case
  proof (cases "w < MP_WORD_TOP_BIT")
    case False
    then have "WB \<le> 2 * unat w" by (simp add: MP_WORD_TOP_BIT_def word_less_nat_alt)
    then show ?thesis
      using False u32_less [of w] by (intro exI [of _ 0]) (subst norm_shifts.simps, simp)
  next
    case True
    then have lt: "2 * unat w < WB" by (simp add: MP_WORD_TOP_BIT_def word_less_nat_alt)
    then have p: "unat (push_bit 1 w) = 2 * unat w" using unat_push [of 1 w] by simp
    then have nz: "push_bit 1 w \<noteq> 0" using w0 by (metis less_numeral_extra(3) mult_is_0 unat_0 zero_neq_numeral)
    have "WB - unat (push_bit 1 w) < WB - unat w" using p lt w0 by simp
    from less.hyps [OF this nz, of "Suc k"] obtain s where
      "norm_shifts (push_bit 1 w) (Suc k) = Some (Suc k + s)" "2 * unat w * 2 ^ s < WB"
      "WB \<le> 2 * (2 * unat w * 2 ^ s)" unfolding p by blast
    then show ?thesis using True by (intro exI [of _ "Suc s"]) (subst norm_shifts.simps, simp add: mult_ac)
  qed
qed

lemma subtract_loop_val:
  assumes "0 < Y"
  shows "\<exists>q r. subtract_loop (bi_nat Y) (bi_nat R) (bi_nat Q) = Some (bi_nat (Q + q), bi_nat r) \<and>
    R = q * Y + r \<and> r \<le> Y \<and> (0 < R \<longrightarrow> 0 < r)"
proof (induction R arbitrary: Q rule: less_induct)
  case (less R)
  show ?case
  proof (cases "Y < R")
    case False
    then show ?thesis by (intro exI [of _ 0] exI [of _ R]) (subst subtract_loop.simps, simp)
  next
    case True
    then have "R - Y < R" using assms by simp
    from less.IH [OF this, of "Q + 1"] obtain q r where
      qr: "subtract_loop (bi_nat Y) (bi_nat (R - Y)) (bi_nat (Q + 1)) = Some (bi_nat (Q + 1 + q), bi_nat r)"
      "R - Y = q * Y + r" "r \<le> Y" "0 < R - Y \<longrightarrow> 0 < r" by (elim exE conjE) (rule that)
    have "subtract_loop (bi_nat Y) (bi_nat R) (bi_nat Q) = Some (bi_nat (Q + Suc q), bi_nat r)"
      using True qr(1) by (subst subtract_loop.simps) simp
    moreover have "R = Suc q * Y + r" using qr(2) True by simp
    moreover have "0 < r" using qr(4) True by simp
    ultimately show ?thesis using qr(3) by blast
  qed
qed

lemma top_loop_val:
  assumes "0 < P"
  shows "top_loop (bi_nat P) (bi_nat R) q = Some (q + of_nat (R div P), bi_nat (R mod P))"
proof (induction R arbitrary: q rule: less_induct)
  case (less R)
  show ?case
  proof (cases "P \<le> R")
    case False
    then show ?thesis by (subst top_loop.simps) simp
  next
    case True
    then have "R - P < R" using assms by simp
    from less.IH [OF this] True assms show ?thesis
      by (subst top_loop.simps) (simp add: le_div_geq le_mod_geq)
  qed
qed

lemma sig_words_0 [simp]: "sig_words 0 = 0"
  by (simp add: sig_words.simps)

lemma sig_words_bounds: "0 < m \<Longrightarrow> 0 < sig_words m \<and> WB ^ (sig_words m - 1) \<le> m \<and> m < WB ^ sig_words m"
proof (induction m rule: less_induct)
  case (less m)
  show ?case
  proof (cases "m < WB")
    case True
    then show ?thesis using less.prems by (simp add: sig_words.simps [of m])
  next
    case False
    then have h: "0 < m div WB" "m div WB < m" using less.prems by (simp_all add: div_greater_zero_iff)
    from less.IH [OF h(2,1)] have I: "0 < sig_words (m div WB)" "WB ^ (sig_words (m div WB) - 1) \<le> m div WB"
      "m div WB < WB ^ sig_words (m div WB)" by auto
    have s: "sig_words m = Suc (sig_words (m div WB))" using less.prems by (simp add: sig_words.simps [of m])
    have "WB ^ (sig_words m - 1) = WB ^ (sig_words (m div WB) - 1) * WB" using I(1) by (simp add: s flip: power_Suc2)
    also have "\<dots> \<le> m" using I(2) by (simp add: less_eq_div_iff_mult_less_eq)
    finally have "WB ^ (sig_words m - 1) \<le> m" .
    moreover have "m < WB ^ sig_words m" using I(3) by (simp add: s div_less_iff_less_mult mult.commute)
    ultimately show ?thesis by (simp add: s)
  qed
qed

lemma normalised:
  fixes w s t Y :: nat
  assumes "w * WB ^ t \<le> Y" and "Y < (w + 1) * WB ^ t" and "w * 2 ^ s < WB" and "WB \<le> 2 * (w * 2 ^ s)"
  shows "WB ^ Suc t \<le> 2 * (Y * 2 ^ s)" and "Y * 2 ^ s < WB ^ Suc t"
proof -
  have "WB * WB ^ t \<le> 2 * (w * 2 ^ s) * WB ^ t" using assms(4) by (rule mult_le_mono1)
  also have "\<dots> = 2 * (w * WB ^ t * 2 ^ s)" by (simp add: mult_ac)
  also have "\<dots> \<le> 2 * (Y * 2 ^ s)" using assms(1) by (intro mult_le_mono2 mult_le_mono1)
  finally show "WB ^ Suc t \<le> 2 * (Y * 2 ^ s)" by simp
  have "0 < w" using assms(4) by (cases w) simp_all
  then have "2 ^ s \<le> w * 2 ^ s" by simp
  then have "(2 :: nat) ^ s < WB" using assms(3) by linarith
  then have "(2 :: nat) ^ s < 2 ^ 32" by simp
  then have "s < 32" by (rule power_less_imp_less_exp [rotated]) simp
  then have e: "WB = 2 ^ (32 - s) * 2 ^ s" by (simp flip: power_add)
  then have "w < 2 ^ (32 - s)" using assms(3) by (metis mult_less_cancel2)
  then have "(w + 1) * 2 ^ s \<le> WB" unfolding e by (intro mult_le_mono1) simp
  then have "(w + 1) * 2 ^ s * WB ^ t \<le> WB * WB ^ t" by (rule mult_le_mono1)
  moreover have "Y * 2 ^ s < (w + 1) * WB ^ t * 2 ^ s" using assms(2) by (intro mult_strict_right_mono) simp_all
  moreover have "(w + 1) * 2 ^ s * WB ^ t = (w + 1) * WB ^ t * 2 ^ s" by (simp only: mult_ac)
  moreover have "WB ^ Suc t = WB * WB ^ t" by simp
  ultimately show "Y * 2 ^ s < WB ^ Suc t" by linarith
qed

lemma divide_words_val:
  assumes "0 < Y" and "Y < R"
  shows "divide_words (bi_nat R) (bi_nat Y) = Some (bi_nat (R div Y), bi_nat (R mod Y))"
proof -
  define t where "t = sig_words Y - 1"
  define w where "w = word_at (bi_nat Y) t"
  note SY = sig_words_bounds [OF assms(1)]
  have yw: "sig_words Y = Suc t" using SY by (simp add: t_def)
  have Yb: "WB ^ t \<le> Y" "Y < WB ^ Suc t" using SY unfolding t_def by simp_all
  have wv: "unat w = Y div WB ^ t" using words_of(1) [OF Yb(2)] by (simp add: w_def unat_word_at)
  have "0 < Y div WB ^ t" using Yb(1) by (simp add: div_greater_zero_iff)
  then have "w \<noteq> 0" using wv by auto
  from norm_shifts_val [OF this, of 0] obtain s where s: "norm_shifts w 0 = Some s" "unat w * 2 ^ s < WB"
    "WB \<le> 2 * (unat w * 2 ^ s)" by auto
  define Y' R' where "Y' = Y * 2 ^ s" and "R' = R * 2 ^ s"
  have N: "WB ^ Suc t \<le> 2 * Y'" "Y' < WB ^ Suc t"
    unfolding Y'_def using normalised [OF _ _ s(2,3)] div_bounds [of "WB ^ t" Y] by (simp_all add: wv)
  have pos: "0 < Y'" "Y' < R'" "0 < R'" using assms by (simp_all add: Y'_def R'_def)
  have res: "R' div Y' = R div Y" "R' mod Y' div 2 ^ s = R mod Y"
    by (simp_all add: R'_def Y'_def mult_mod_left [symmetric])
  define n where "n = sig_words R' - 1"
  note SR = sig_words_bounds [OF pos(3)]
  have Rb: "R' < WB ^ Suc n" using SR by (simp add: n_def)
  have inner: "divide_normalised (bi_nat R') (bi_nat Y') n t = Some (bi_nat (R div Y), bi_nat (R' mod Y'))"
  proof (cases "n \<le> t")
    case True
    have "WB ^ Suc n \<le> WB ^ Suc t" using True by (intro power_increasing) simp_all
    then have lt: "R' < 2 * Y'" using Rb N(1) by linarith
    obtain q r where qr: "subtract_loop (bi_nat Y') (bi_nat R') (bi_nat 0) = Some (bi_nat q, bi_nat r)"
      "R' = q * Y' + r" "r \<le> Y'" using subtract_loop_val [OF pos(1), of R' 0] by auto
    have "r < Y'"
    proof (rule ccontr)
      assume "\<not> r < Y'"
      then have "R' = (q + 1) * Y'" using qr(2,3) by simp
      then have "q = 0" using lt by (cases q) simp_all
      then show False using \<open>R' = (q + 1) * Y'\<close> pos(2) by simp
    qed
    then have "R' div Y' = q" "R' mod Y' = r" using qr(2) by simp_all
    then show ?thesis using True qr(1) res(1) by (simp add: divide_normalised_def)
  next
    case False
    define W where "W = WB ^ (n - t)"
    have e: "(2 :: nat) ^ (32 * (n - t)) = W" by (simp add: W_def power_mult)
    have "WB ^ Suc n = WB ^ Suc t * W" using False by (simp add: W_def flip: power_add)
    moreover have "WB ^ Suc t * W \<le> 2 * Y' * W" using N(1) by (rule mult_le_mono1)
    moreover have "2 * Y' * W = 2 * (Y' * W)" by simp
    ultimately have "R' < 2 * (Y' * W)" using Rb by linarith
    then have "R' div (Y' * W) < 2" by (simp add: less_mult_imp_div_less)
    then have tq: "unat (of_nat (R' div (Y' * W)) :: u32) = R' div (Y' * W)" by (simp add: unat_of_nat)
    have YW: "0 < Y' * W" using pos(1) by (simp add: W_def)
    then have "R' mod (Y' * W) < Y' * WB ^ (n - t)" by (simp add: W_def)
    from divide_loop_val [OF N this] obtain qs where qs:
      "divide_loop (bi_nat Y') t (n - t) (bi_nat (R' mod (Y' * W))) = (qs, bi_nat (R' mod (Y' * W) mod Y'))"
      "length qs = n - t" "mp_val qs = R' mod (Y' * W) div Y'" by blast
    have "mp_val (qs @ [of_nat (R' div (Y' * W))]) = R' div Y'"
      unfolding div_split [OF pos(1), of R' W] using qs(2,3) tq by (simp add: mp_val_append W_def)
    then show ?thesis using False top_loop_val [OF YW, of R' 0] qs(1) res(1) by (simp add: divide_normalised_def e mod_mod_cancel)
  qed
  show ?thesis
    using s(1) inner res(2) unfolding divide_words_def Let_def bi_nat_val yw diff_Suc_1 w_def [symmetric]
    by (simp add: n_def flip: Y'_def R'_def)
qed

text \<open>Every division by a nonzero number returns the quotient and remainder of the magnitudes, with signs corrected.\<close>

lemma divide_abs:
  assumes "bi_mag y \<noteq> 0"
  shows "bi_divide x y = Some (sign_fixup x y (bi_nat (bi_mag x div bi_mag y)) (bi_nat (bi_mag x mod bi_mag y)))"
proof -
  have a: "set_sign False z = bi_nat (bi_mag z)" for z by (simp add: set_sign_def bi_nat_def)
  show ?thesis
    using assms divide_words_val [of "bi_mag y" "bi_mag x"]
    by (cases "bi_mag x" "bi_mag y" rule: linorder_cases) (simp_all add: bi_divide_def a Let_def)
qed

section \<open>Quotients and remainders of integers\<close>

text \<open>Division by a positive number rounds down, and the remainder is never negative.\<close>

lemma divide_val:
  assumes "bi_ok x" and "bi_ok y" and "0 < bi_val y"
  shows "\<exists>q r. bi_divide x y = Some (q, r) \<and> bi_val q = bi_val x div bi_val y \<and>
    bi_val r = bi_val x mod bi_val y \<and> bi_ok q \<and> bi_ok r"
proof -
  define a b where "a = bi_mag x" and "b = bi_mag y"
  have y: "\<not> bi_neg y" "0 < b" "bi_val y = int b" using assms by (auto simp: bi_defs b_def split: if_splits)
  let ?q = "bi_nat (a div b)" and ?r = "bi_nat (a mod b)"
  have d: "bi_divide x y = Some (sign_fixup x y ?q ?r)" using y divide_abs [of y x] by (simp add: a_def b_def)
  show ?thesis
  proof (cases "bi_neg x")
    case False
    then have "bi_val x = int a" by (simp add: bi_val_def a_def)
    then show ?thesis
      using False y d by (simp add: sign_fixup_def zdiv_int zmod_int)
  next
    case True
    then have xv: "bi_val x = - int a" by (simp add: bi_val_def a_def)
    have q': "bi_val (flip_sign ?q) = - int (a div b)" "bi_ok (flip_sign ?q)"
      by (auto simp: bi_defs)
    show ?thesis
    proof (cases "a mod b = 0")
      case exact: True
      then have "int a = int b * int (a div b)" by (metis add.right_neutral mult_div_mod_eq of_nat_mult)
      then have "- int a div int b = - int (a div b)" "- int a mod int b = 0"
        using y(2) by (simp_all add: zmod_zminus1_eq_if flip: zmod_int)
          (metis mult_minus_right nonzero_mult_div_cancel_left of_nat_eq_0_iff not_less0)
      then show ?thesis
        using True exact y d q' xv by (simp add: sign_fixup_def)
    next
      case rem: False
      have s: "bi_val (bi_sub (flip_sign ?q) (bi_nat 1)) = - int (a div b) - 1" "bi_ok (bi_sub (flip_sign ?q) (bi_nat 1))"
        using bi_sub_val [OF q'(2), of "bi_nat 1"] q'(1) by simp_all
      have ys: "set_sign False y = y" using y by (simp add: set_sign_def)
      have t: "bi_val (bi_sub y ?r) = int b - int (a mod b)" "bi_ok (bi_sub y ?r)"
        using bi_sub_val [OF assms(2), of ?r] y(3) by simp_all
      have "int a mod int b \<noteq> 0" using rem by (simp flip: zmod_int)
      then have "- int a div int b = - int (a div b) - 1" "- int a mod int b = int b - int (a mod b)"
        using y(2) by (simp_all add: zdiv_zminus1_eq_if zmod_zminus1_eq_if zdiv_int zmod_int)
      then show ?thesis
        using True rem y d s t xv ys by (simp add: sign_fixup_def)
    qed
  qed
qed

lemma bi_mod_val:
  assumes "bi_ok x" and "bi_ok y" and "0 < bi_val y"
  shows "\<exists>r. bi_mod x y = Some r \<and> bi_val r = bi_val x mod bi_val y \<and> bi_ok r"
proof -
  have y: "bi_mag y \<noteq> 0" "\<not> bi_neg y" using assms by (auto simp: bi_defs split: if_splits)
  show ?thesis
  proof (cases "\<not> bi_neg x \<and> bi_cmp x y True < 0")
    case True
    then have "0 \<le> bi_val x" "bi_val x < bi_val y"
      using bi_cmp_val [OF assms(1,2)] by (auto simp: bi_val_def sgn_if split: if_splits)
    then show ?thesis using True y assms(1) by (simp add: bi_mod_def)
  next
    case False
    with divide_val [OF assms] y show ?thesis by (auto simp: bi_mod_def)
  qed
qed

lemma bi_div_power:
  assumes "bi_ok x" and "power_of_2 (bi_mag y)" and "bi_mag y < 2 ^ 32"
  shows "\<exists>q. bi_div x y = Some q \<and> bi_ok q \<and> bi_val q = sgn (bi_val x) * (\<bar>bi_val x\<bar> div int (bi_mag y))"
proof -
  have m: "bi_mag y = 2 ^ (bit_length (bi_mag y) - 1)" "2 \<le> bi_mag y" using power_of_2_eq [OF assms(2)] by auto
  have "bi_div x y = Some (bi_shr x (bit_length (bi_mag y) - 1))" using assms m(2) by (simp add: bi_div_def)
  moreover have "\<bar>bi_val x\<bar> div int (bi_mag y) = int (bi_mag x div 2 ^ (bit_length (bi_mag y) - 1))"
    unfolding m(1) [symmetric] by (simp add: bi_val_def zdiv_int)
  ultimately show ?thesis using bi_shr_val [OF assms(1), of "bit_length (bi_mag y) - 1"] by simp
qed

lemma bi_div_val:
  assumes "bi_ok x" and "bi_ok y" and "0 < bi_val y" and "0 \<le> bi_val x"
  shows "\<exists>q. bi_div x y = Some q \<and> bi_val q = bi_val x div bi_val y \<and> bi_ok q"
proof (cases "bi_mag y < 2 ^ 32 \<and> power_of_2 (bi_mag y)")
  case True
  have "bi_val y = int (bi_mag y)" using assms(3) by (auto simp: bi_val_def split: if_splits)
  with bi_div_power [OF assms(1), of y] True assms(4) show ?thesis
    by (cases "bi_val x = 0") auto
next
  case False
  with divide_val [OF assms(1-3)] show ?thesis by (auto simp: bi_div_def)
qed

text \<open>
  Rounding of \<^verbatim>\<open>BigInteger\<close> division.  A divisor below \<open>2 ^ 32\<close> whose magnitude is a power
  of two is divided by shifting the magnitude: the quotient is rounded towards zero and
  the divisor's sign is ignored; every other positive divisor rounds down.  So
  \<open>6 / -2\<close> is \<open>3\<close>, and \<open>-3 / 2\<close> is \<open>-1\<close> while \<open>-4 / 3\<close> is \<open>-2\<close>.
\<close>

theorem division_rounding:
  assumes "bi_ok x" and "bi_ok y"
  shows "(bi_mag y < 2 ^ 32 \<and> power_of_2 (bi_mag y) \<longrightarrow>
      map_option bi_val (bi_div x y) = Some (sgn (bi_val x) * (\<bar>bi_val x\<bar> div \<bar>bi_val y\<bar>)))
    \<and> (\<not> (bi_mag y < 2 ^ 32 \<and> power_of_2 (bi_mag y)) \<and> 0 < bi_val y \<longrightarrow>
      map_option bi_val (bi_div x y) = Some (bi_val x div bi_val y))
    \<and> (bi_val y = 0 \<longrightarrow> bi_div x y = None)"
proof (intro conjI impI)
  assume "bi_mag y < 2 ^ 32 \<and> power_of_2 (bi_mag y)"
  moreover have "int (bi_mag y) = \<bar>bi_val y\<bar>" by (simp add: bi_val_def)
  ultimately show "map_option bi_val (bi_div x y) = Some (sgn (bi_val x) * (\<bar>bi_val x\<bar> div \<bar>bi_val y\<bar>))"
    using bi_div_power [OF assms(1), of y] by auto
next
  assume a: "\<not> (bi_mag y < 2 ^ 32 \<and> power_of_2 (bi_mag y)) \<and> 0 < bi_val y"
  with divide_val [OF assms] show "map_option bi_val (bi_div x y) = Some (bi_val x div bi_val y)"
    by (auto simp: bi_div_def)
next
  assume "bi_val y = 0"
  then have "bi_mag y = 0" using bi_val_0 [OF assms(2)] by simp
  then show "bi_div x y = None" by (simp add: bi_div_def bi_divide_def)
qed

theorem division_rounding_witness:
  "map_option bi_val (bi_div \<lparr> bi_neg = False, bi_mag = 6 \<rparr> \<lparr> bi_neg = True, bi_mag = 2 \<rparr>) = Some 3"
  using division_rounding [of "\<lparr> bi_neg = False, bi_mag = 6 \<rparr>" "\<lparr> bi_neg = True, bi_mag = 2 \<rparr>"]
  by (simp add: bi_ok_def bi_val_def power_of_2_def)

lemma flip_sign_val: "bi_ok x \<Longrightarrow> bi_val (flip_sign x) = - bi_val x \<and> bi_ok (flip_sign x)"
  by (auto simp: bi_defs)

text \<open>
  C22. Division of big integers.  For every dividend and every nonzero divisor of any sign, the
  word-by-word division returns (each of its loops ends), and quotient and remainder satisfy
  the equation of Euclidean division with a remainder that is never negative and smaller
  than the divisor; a zero divisor throws.
\<close>

theorem divide_correct:
  assumes "bi_ok x" and "bi_ok y"
  shows "(bi_val y = 0 \<longrightarrow> bi_divide x y = None) \<and>
    (bi_val y \<noteq> 0 \<longrightarrow> (\<exists>q r. bi_divide x y = Some (q, r) \<and>
      bi_val x = bi_val q * bi_val y + bi_val r \<and> 0 \<le> bi_val r \<and> bi_val r < \<bar>bi_val y\<bar>))"
proof (intro conjI impI)
  show "bi_divide x y = None" if "bi_val y = 0" using that bi_val_0 [OF assms(2)] by (simp add: bi_divide_def)
  assume "bi_val y \<noteq> 0"
  then have b: "bi_mag y \<noteq> 0" using bi_val_0 [OF assms(2)] by simp
  define q r where "q = bi_mag x div bi_mag y" and "r = bi_mag x mod bi_mag y"
  have m: "int (bi_mag x) = int q * int (bi_mag y) + int r" "r < bi_mag y"
    using b by (simp_all add: q_def r_def flip: of_nat_mult of_nat_add)
  have d: "bi_divide x y = Some (sign_fixup x y (bi_nat q) (bi_nat r))" using divide_abs [OF b] by (simp add: q_def r_def)
  have ay: "\<bar>bi_val y\<bar> = int (bi_mag y)" by (simp add: bi_val_def)
  let ?q' = "flip_sign (bi_nat q)"
  have q': "bi_val ?q' = - int q" "bi_ok ?q'" using flip_sign_val [of "bi_nat q"] by simp_all
  have s: "bi_val (bi_sub ?q' (bi_nat 1)) = - int q - 1" "bi_ok (bi_sub ?q' (bi_nat 1))"
    using bi_sub_val [OF q'(2), of "bi_nat 1"] q'(1) by simp_all
  have y': "bi_ok (set_sign False y)" "bi_val (set_sign False y) = int (bi_mag y)" by (auto simp: bi_defs)
  have t: "bi_val (bi_sub (set_sign False y) (bi_nat r)) = int (bi_mag y) - int r"
    using bi_sub_val [OF y'(1), of "bi_nat r"] y'(2) by simp
  define q1 r1 where "q1 = (if bi_neg x then if r \<noteq> 0 then bi_sub ?q' (bi_nat 1) else ?q' else bi_nat q)"
    and "r1 = (if bi_neg x \<and> r \<noteq> 0 then bi_sub (set_sign False y) (bi_nat r) else bi_nat r)"
  have q1: "bi_ok q1" "bi_val q1 = (if bi_neg x then if r \<noteq> 0 then - int q - 1 else - int q else int q)"
    using s q' by (simp_all add: q1_def)
  have r1: "bi_val r1 = (if bi_neg x \<and> r \<noteq> 0 then int (bi_mag y) - int r else int r)" using t by (simp add: r1_def)
  have res: "bi_divide x y = Some (if bi_neg y then flip_sign q1 else q1, r1)"
    by (simp add: d sign_fixup_def q1_def r1_def)
  have qv: "bi_val (if bi_neg y then flip_sign q1 else q1) * bi_val y = bi_val q1 * int (bi_mag y)"
    using flip_sign_val [OF q1(1)] by (simp add: bi_val_def [of y])
  have "bi_val x = bi_val q1 * int (bi_mag y) + bi_val r1"
    unfolding q1 r1 bi_val_def [of x] m(1) by (simp add: algebra_simps)
  then show "\<exists>q r. bi_divide x y = Some (q, r) \<and> bi_val x = bi_val q * bi_val y + bi_val r \<and> 0 \<le> bi_val r \<and> bi_val r < \<bar>bi_val y\<bar>"
    using res qv r1 m(2) ay by auto
qed

theorem divide_correct_witness:
  "\<exists>q r. bi_divide \<lparr> bi_neg = True, bi_mag = 2 ^ 70 + 5 \<rparr> (bi_nat (2 ^ 33 + 1)) = Some (q, r) \<and>
    - (2 ^ 70 + 5) = bi_val q * (2 ^ 33 + 1) + bi_val r \<and> 0 \<le> bi_val r \<and> bi_val r < 2 ^ 33 + 1"
  using divide_correct [of "\<lparr> bi_neg = True, bi_mag = 2 ^ 70 + 5 \<rparr>" "bi_nat (2 ^ 33 + 1)"]
  by (simp add: bi_ok_def bi_val_def)

end
