(* ===== verification/BigMod.thy ===== *)
theory BigMod
  imports BigDivide "HOL-Library.Monad_Syntax"
begin

text \<open>
  Modular arithmetic on \<^verbatim>\<open>BigInteger\<close> (\<^verbatim>\<open>src/src/qca_bigint.cpp\<close>): binary exponentiation and
  the extended Euclidean algorithm.  \<open>None\<close> is the abort of a division by zero or, for the
  loop of \<^verbatim>\<open>modInverse\<close>, not returning; the theorems show that neither happens.
\<close>

section \<open>Definitions\<close>

abbreviation zero :: bigint where "zero \<equiv> bi_nat 0"
abbreviation one :: bigint where "one \<equiv> bi_nat 1"
abbreviation two :: bigint where "two \<equiv> bi_nat 2"

text \<open>\<^verbatim>\<open>BigInteger::compare\<close>; the relational operators test its sign.\<close>

definition compare :: "bigint \<Rightarrow> bigint \<Rightarrow> int" where
  "compare x n = bi_cmp x n True"

definition positiveMod :: "bigint \<Rightarrow> bigint \<Rightarrow> bigint option" where
  "positiveMod v modulus =
     (if compare modulus zero \<le> 0 then Some zero
      else do {
        result \<leftarrow> bi_mod v modulus;
        if compare result zero < 0 then Some (bi_add result modulus) else Some result })"

text \<open>The loop of \<^verbatim>\<open>modPow\<close>.\<close>

function modPow_loop :: "bigint \<Rightarrow> bigint \<Rightarrow> bigint \<Rightarrow> bigint \<Rightarrow> bigint option" where
  "modPow_loop modulus pw factor result =
     (if \<not> 0 < compare pw zero then Some result
      else do {
        b \<leftarrow> bi_mod pw two;
        result' \<leftarrow> (if compare b zero \<noteq> 0 then bi_mod (bi_mul result factor) modulus else Some result);
        pw' \<leftarrow> bi_div pw two;
        factor' \<leftarrow> (if compare pw' zero \<noteq> 0 then bi_mod (bi_mul factor factor) modulus else Some factor);
        modPow_loop modulus pw' factor' result' })"
  by pat_completeness auto
termination
proof (relation "measure (\<lambda>(m, p, f, r). bi_mag p)")
  show "wf (measure (\<lambda>(m :: bigint, p, f :: bigint, r :: bigint). bi_mag p))" by simp
  fix modulus pw factor result b result' pw' factor' :: bigint
  assume "\<not> \<not> 0 < compare pw zero" and d: "bi_div pw two = Some pw'"
  then have "0 < bi_mag pw" by (auto simp: compare_def bi_cmp_def Let_def split: if_splits)
  moreover have "bi_mag pw' = bi_mag pw div 2"
    using d by (auto simp: bi_div_def power_of_2_def bi_shr_def bit_length_pos set_sign_def Let_def drop_bit_eq_div)
  ultimately show "((modulus, pw', factor', result'), modulus, pw, factor, result)
      \<in> measure (\<lambda>(m, p, f, r). bi_mag p)" by simp
qed

declare modPow_loop.simps [simp del]

definition modPow :: "bigint \<Rightarrow> bigint \<Rightarrow> bigint \<Rightarrow> bigint option" where
  "modPow base exponent modulus =
     (if compare modulus zero \<le> 0 \<or> compare exponent zero < 0 then Some zero
      else do {
        result \<leftarrow> bi_mod one modulus;
        factor \<leftarrow> positiveMod base modulus;
        modPow_loop modulus exponent factor result })"

text \<open>The loop of \<^verbatim>\<open>modInverse\<close>; the result is the last \<open>t\<close> and \<open>r\<close>.\<close>

partial_function (option) modInverse_loop :: "bigint \<Rightarrow> bigint \<Rightarrow> bigint \<Rightarrow> bigint \<Rightarrow> (bigint \<times> bigint) option" where
  "modInverse_loop t newT r newR =
     (if compare newR zero = 0 then Some (t, r)
      else do {
        quotient \<leftarrow> bi_div r newR;
        modInverse_loop newT (bi_sub t (bi_mul quotient newT)) newR (bi_sub r (bi_mul quotient newR)) })"

definition modInverse :: "bool \<Rightarrow> bigint \<Rightarrow> bigint \<Rightarrow> bigint option option" where
  "modInverse null_pointer v modulus =
     (if null_pointer \<or> compare modulus one \<le> 0 then Some None
      else do {
        newR \<leftarrow> positiveMod v modulus;
        (t, r) \<leftarrow> modInverse_loop zero one modulus newR;
        if compare r one \<noteq> 0 then Some None
        else do { inverse \<leftarrow> positiveMod t modulus; Some (Some inverse) } })"

section \<open>Values\<close>

lemma compare_val: "bi_ok x \<Longrightarrow> bi_ok y \<Longrightarrow> compare x y = sgn (bi_val x - bi_val y)"
  by (simp add: compare_def bi_cmp_val)

lemma positiveMod_val:
  assumes "bi_ok x" and "bi_ok m" and "0 < bi_val m"
  shows "\<exists>r. positiveMod x m = Some r \<and> bi_val r = bi_val x mod bi_val m \<and> bi_ok r"
proof -
  obtain r where r: "bi_mod x m = Some r" "bi_val r = bi_val x mod bi_val m" "bi_ok r"
    using bi_mod_val [OF assms] by blast
  moreover have "0 \<le> bi_val r" using r(2) assms(3) by simp
  moreover have "\<not> compare m zero \<le> 0" using assms by (simp add: compare_val)
  ultimately show ?thesis by (simp add: positiveMod_def compare_val)
qed

lemma modPow_loop_val:
  assumes "bi_ok m" and "0 < bi_val m" and "bi_ok p" and "0 \<le> bi_val p" and "bi_ok f" and "bi_ok r"
    and "bi_val r mod bi_val m = bi_val r"
  shows "\<exists>x. modPow_loop m p f r = Some x \<and> bi_ok x \<and>
    bi_val x = (bi_val r * bi_val f ^ nat (bi_val p)) mod bi_val m"
  using assms(3-)
proof (induction "nat (bi_val p)" arbitrary: p f r rule: less_induct)
  case less
  show ?case
  proof (cases "bi_val p = 0")
    case True
    then show ?thesis
      using less.prems by (simp add: modPow_loop.simps [of m p f r] compare_val)
  next
    case False
    with less.prems have p: "0 < bi_val p" by simp
    obtain b where b: "bi_mod p two = Some b" "bi_val b = bi_val p mod 2" "bi_ok b"
      using bi_mod_val [of p two] less.prems by auto
    have rf: "bi_ok (bi_mul r f)" "bi_val (bi_mul r f) = bi_val r * bi_val f"
      using bi_mul_val less.prems by blast+
    have ff: "bi_ok (bi_mul f f)" "bi_val (bi_mul f f) = bi_val f * bi_val f"
      using bi_mul_val less.prems by blast+
    let ?rm = "if compare b zero \<noteq> 0 then bi_mod (bi_mul r f) m else Some r"
    obtain r' where r': "?rm = Some r'" "bi_ok r'" "bi_val r' mod bi_val m = bi_val r'"
      "bi_val r' = (if odd (bi_val p) then bi_val r * bi_val f mod bi_val m else bi_val r)"
    proof (cases "odd (bi_val p)")
      case True
      then have "bi_val p mod 2 = 1" by presburger
      then have c: "compare b zero \<noteq> 0" using b(2,3) by (simp add: compare_val)
      from bi_mod_val [OF rf(1) assms(1,2)] obtain x where "bi_mod (bi_mul r f) m = Some x"
        "bi_val x = bi_val r * bi_val f mod bi_val m" "bi_ok x" by (auto simp: rf(2))
      with c True show ?thesis by (intro that [of x]) simp_all
    next
      case even: False
      then have "compare b zero = 0" using b by (simp add: compare_val even_iff_mod_2_eq_zero)
      with even less.prems show ?thesis by (intro that [of r]) simp_all
    qed
    obtain p' where p': "bi_div p two = Some p'" "bi_val p' = bi_val p div 2" "bi_ok p'"
      using bi_div_val [of p two] less.prems by auto
    let ?fm = "if compare p' zero \<noteq> 0 then bi_mod (bi_mul f f) m else Some f"
    obtain f' where f': "?fm = Some f'" "bi_ok f'"
      "bi_val p' \<noteq> 0 \<Longrightarrow> bi_val f' = bi_val f * bi_val f mod bi_val m"
    proof (cases "bi_val p' = 0")
      case True
      then show ?thesis using p'(3) less.prems by (intro that [of f]) (simp_all add: compare_val)
    next
      case False
      then have "compare p' zero \<noteq> 0" using p'(3) by (simp add: compare_val sgn_if)
      with bi_mod_val [OF ff(1) assms(1,2)] ff(2) False show ?thesis by (auto intro: that)
    qed
    have lt: "nat (bi_val p') < nat (bi_val p)" "0 \<le> bi_val p'" using p p'(2) by auto
    obtain x where x: "modPow_loop m p' f' r' = Some x" "bi_ok x"
      "bi_val x = (bi_val r' * bi_val f' ^ nat (bi_val p')) mod bi_val m"
      using less.hyps [OF lt(1) p'(3) lt(2) f'(2) r'(2,3)] by blast
    have "0 < compare p zero" using p less.prems by (simp add: compare_val)
    then have eq: "modPow_loop m p f r = modPow_loop m p' f' r'"
      using b(1) r'(1) p'(1) f'(1) by (simp add: modPow_loop.simps [of m p f r])
    define n where "n = nat (bi_val p)"
    have n: "nat (bi_val p') = n div 2" using p'(2) by (simp add: n_def nat_div_distrib)
    have od: "odd (bi_val p) = odd n" using less.prems(2) by (simp add: n_def even_nat_iff)
    have "(bi_val r' * bi_val f' ^ (n div 2)) mod bi_val m = (bi_val r' * (bi_val f * bi_val f) ^ (n div 2)) mod bi_val m"
    proof (cases "n div 2 = 0")
      case False
      then have "bi_val p' \<noteq> 0" using n by auto
      then show ?thesis by (metis f'(3) mod_mult_right_eq power_mod)
    qed simp
    also have "\<dots> = (bi_val r * bi_val f ^ n) mod bi_val m"
    proof -
      have "n = n mod 2 + 2 * (n div 2)" by simp
      then have "bi_val f ^ n = bi_val f ^ (n mod 2) * (bi_val f * bi_val f) ^ (n div 2)"
        by (metis power_add power_mult power2_eq_square)
      note pw = this
      show ?thesis
      proof (cases "odd n")
        case True
        then have "n mod 2 = 1" and "bi_val r' = bi_val r * bi_val f mod bi_val m"
          using od r'(4) by (simp_all add: odd_iff_mod_2_eq_one)
        then show ?thesis by (simp add: pw mod_mult_left_eq mult.assoc)
      next
        case False
        then have "n mod 2 = 0" and "bi_val r' = bi_val r" using od r'(4) by simp_all
        then show ?thesis by (simp add: pw)
      qed
    qed
    finally show ?thesis using eq x n by (simp add: n_def)
  qed
qed

text \<open>
  C23. Modular exponentiation.  \<^verbatim>\<open>modPow\<close> always returns: zero for a modulus that is not
  positive or a negative exponent, and otherwise the power reduced modulo the modulus,
  also for a negative base.
\<close>

theorem modPow_correct:
  assumes "bi_ok base" and "bi_ok exponent" and "bi_ok modulus"
  shows "map_option bi_val (modPow base exponent modulus) =
    Some (if bi_val modulus \<le> 0 \<or> bi_val exponent < 0 then 0
          else bi_val base ^ nat (bi_val exponent) mod bi_val modulus)"
proof (cases "bi_val modulus \<le> 0 \<or> bi_val exponent < 0")
  case True
  then show ?thesis using assms by (auto simp: modPow_def compare_val sgn_if)
next
  case False
  then have m: "0 < bi_val modulus" and e: "0 \<le> bi_val exponent" by simp_all
  obtain r where r: "bi_mod one modulus = Some r" "bi_val r = 1 mod bi_val modulus" "bi_ok r"
    using bi_mod_val [OF _ assms(3) m, of one] by auto
  obtain f where f: "positiveMod base modulus = Some f" "bi_val f = bi_val base mod bi_val modulus" "bi_ok f"
    using positiveMod_val [OF assms(1,3) m] by blast
  have "bi_val r mod bi_val modulus = bi_val r" by (simp add: r(2))
  from modPow_loop_val [OF assms(3) m assms(2) e f(3) r(3) this] obtain x
    where x: "modPow_loop modulus exponent f r = Some x"
      "bi_val x = (bi_val r * bi_val f ^ nat (bi_val exponent)) mod bi_val modulus" by blast
  have "\<not> (compare modulus zero \<le> 0 \<or> compare exponent zero < 0)"
    using assms m e by (simp add: compare_val)
  then have "modPow base exponent modulus = Some x" using r(1) f(1) x(1) by (simp add: modPow_def)
  moreover have "bi_val x = bi_val base ^ nat (bi_val exponent) mod bi_val modulus"
    unfolding x(2) r(2) f(2) by (simp add: mod_mult_left_eq power_mod)
  ultimately show ?thesis using False by simp
qed

theorem modPow_correct_witness:
  "map_option bi_val (modPow (bi_nat 4) (bi_nat 13) (bi_nat 497)) = Some 445"
  using modPow_correct [of "bi_nat 4" "bi_nat 13" "bi_nat 497"] by simp

section \<open>Inverses\<close>

text \<open>The invariant of the Euclidean loop, on the integers the values stand for.\<close>

lemma modInverse_loop_val:
  assumes "bi_ok t" and "bi_ok t'" and "bi_ok r" and "bi_ok r'"
    and "0 < bi_val r" and "0 \<le> bi_val r'"
    and "(bi_val t * v - bi_val r) mod m = 0" and "(bi_val t' * v - bi_val r') mod m = 0"
  shows "\<exists>s g. modInverse_loop t t' r r' = Some (s, g) \<and> bi_ok s \<and> bi_ok g
    \<and> bi_val g = gcd (bi_val r) (bi_val r') \<and> (bi_val s * v - bi_val g) mod m = 0"
  using assms
proof (induction "nat (bi_val r')" arbitrary: t t' r r' rule: less_induct)
  case less
  show ?case
  proof (cases "bi_val r' = 0")
    case True
    then show ?thesis
      using less.prems by (subst modInverse_loop.simps) (simp add: compare_val)
  next
    case False
    with less.prems have pos: "0 < bi_val r'" by simp
    obtain q where q: "bi_div r r' = Some q" "bi_val q = bi_val r div bi_val r'" "bi_ok q"
      using bi_div_val [OF less.prems(3,4) pos] less.prems(5) by auto
    define t2 r2 where "t2 = bi_sub t (bi_mul q t')" and "r2 = bi_sub r (bi_mul q r')"
    have t2: "bi_ok t2" "bi_val t2 = bi_val t - bi_val q * bi_val t'"
      using bi_sub_val [OF less.prems(1)] bi_mul_val [OF q(3) less.prems(2)] by (simp_all add: t2_def)
    have r2: "bi_ok r2" "bi_val r2 = bi_val r - bi_val q * bi_val r'"
      using bi_sub_val [OF less.prems(3)] bi_mul_val [OF q(3) less.prems(4)] by (simp_all add: r2_def)
    have rm: "bi_val r2 = bi_val r mod bi_val r'" by (simp add: r2(2) q(2) minus_div_mult_eq_mod)
    have "bi_val t2 * v - bi_val r2 =
        (bi_val t * v - bi_val r) - bi_val q * (bi_val t' * v - bi_val r')"
      by (simp add: t2(2) r2(2) algebra_simps)
    then have c: "(bi_val t2 * v - bi_val r2) mod m = 0"
      using less.prems(7,8) by (simp add: mod_eq_0_iff_dvd)
    have lt: "nat (bi_val r2) < nat (bi_val r')" "0 \<le> bi_val r2" using pos by (simp_all add: rm)
    from less.hyps [OF lt(1) less.prems(2) t2(1) less.prems(4) r2(1) pos lt(2) less.prems(8) c]
    obtain s g where sg: "modInverse_loop t' t2 r' r2 = Some (s, g)" "bi_ok s" "bi_ok g"
      "bi_val g = gcd (bi_val r') (bi_val r2)" "(bi_val s * v - bi_val g) mod m = 0" by (elim exE conjE) (rule that)
    have "compare r' zero \<noteq> 0" using pos less.prems(4) by (simp add: compare_val)
    then have "modInverse_loop t t' r r' = Some (s, g)"
      using q(1) sg(1) by (subst modInverse_loop.simps) (simp add: t2_def r2_def)
    moreover have "gcd (bi_val r') (bi_val r2) = gcd (bi_val r) (bi_val r')"
      unfolding rm by (metis gcd.commute gcd_red_int)
    ultimately show ?thesis using sg by auto
  qed
qed

text \<open>
  C17. Modular inverses.  \<^verbatim>\<open>modInverse\<close> always returns.  It reports failure exactly when the
  pointer is null, the modulus is at most one or the value is not coprime to it; otherwise
  it stores the number below the modulus whose product with the value is one.
\<close>

theorem modInverse_correct:
  assumes "bi_ok v" and "bi_ok modulus"
  shows "\<exists>res. modInverse null_pointer v modulus = Some res \<and>
    (case res of
       None \<Rightarrow> null_pointer \<or> bi_val modulus \<le> 1 \<or> \<not> coprime (bi_val v) (bi_val modulus)
     | Some i \<Rightarrow> \<not> null_pointer \<and> 1 < bi_val modulus \<and> coprime (bi_val v) (bi_val modulus)
         \<and> 0 \<le> bi_val i \<and> bi_val i < bi_val modulus \<and> (bi_val v * bi_val i) mod bi_val modulus = 1)"
proof (cases "null_pointer \<or> bi_val modulus \<le> 1")
  case True
  then show ?thesis using assms by (auto simp: modInverse_def compare_val sgn_if)
next
  case False
  then have m: "0 < bi_val modulus" "1 < bi_val modulus" "\<not> null_pointer" by simp_all
  obtain r' where r': "positiveMod v modulus = Some r'" "bi_val r' = bi_val v mod bi_val modulus" "bi_ok r'"
    using positiveMod_val [OF assms m(1)] by blast
  have inv: "(bi_val zero * bi_val v - bi_val modulus) mod bi_val modulus = 0"
    "(bi_val one * bi_val v - bi_val r') mod bi_val modulus = 0"
    by (simp_all add: r'(2) mod_eq_0_iff_dvd)
  have nn: "0 \<le> bi_val r'" using m(1) by (simp add: r'(2))
  have ok: "bi_ok zero" "bi_ok one" by (rule bi_nat_val(2))+
  from modInverse_loop_val [OF ok assms(2) r'(3) m(1) nn inv]
  obtain s g where sg: "modInverse_loop zero one modulus r' = Some (s, g)" "bi_ok s" "bi_ok g"
    "bi_val g = gcd (bi_val modulus) (bi_val r')" "(bi_val s * bi_val v - bi_val g) mod bi_val modulus = 0"
    by (elim exE conjE) (rule that)
  have g: "bi_val g = gcd (bi_val v) (bi_val modulus)"
    unfolding sg(4) r'(2) by (metis gcd.commute gcd_red_int)
  have c: "\<not> compare modulus one \<le> 0" using assms m by (simp add: compare_val)
  show ?thesis
  proof (cases "bi_val g = 1")
    case False
    then have "compare g one \<noteq> 0" using sg(3) by (simp add: compare_val sgn_if)
    with c m(3) r'(1) sg(1) False g show ?thesis by (simp add: modInverse_def coprime_iff_gcd_eq_1)
  next
    case True
    then have "compare g one = 0" using sg(3) by (simp add: compare_val)
    moreover obtain i where i: "positiveMod s modulus = Some i" "bi_val i = bi_val s mod bi_val modulus"
      using positiveMod_val [OF sg(2) assms(2) m(1)] by blast
    moreover have "(bi_val v * bi_val i) mod bi_val modulus = 1"
    proof -
      have "(bi_val s * bi_val v) mod bi_val modulus = 1 mod bi_val modulus"
        using sg(5) True by (simp add: mod_eq_dvd_iff mod_eq_0_iff_dvd)
      then show ?thesis using m(2) by (simp add: i(2) mod_mult_right_eq mult.commute)
    qed
    ultimately show ?thesis
      using c m r'(1) sg(1) True g by (simp add: modInverse_def coprime_iff_gcd_eq_1)
  qed
qed

theorem modInverse_correct_witness:
  "\<exists>res. modInverse False (bi_nat 3) (bi_nat 11) = Some res \<and>
    (case res of None \<Rightarrow> \<not> coprime (3 :: int) 11
     | Some i \<Rightarrow> (3 * bi_val i) mod 11 = 1)"
  using modInverse_correct [of "bi_nat 3" "bi_nat 11" False] by (auto split: option.splits)

end
