(* ===== verification/MpMul.thy ===== *)
theory MpMul
  imports MpWords
begin

text \<open>
  The multiplication dispatcher of \<^verbatim>\<open>mp_mul.cpp\<close>: Karatsuba multiplication with its workspace,
  the choice of its size, and the small cases.  Pointers into an array are slices of it;
  the definitions show which words each call reads and overwrites.
\<close>

section \<open>Karatsuba\<close>

definition KARATSUBA_MUL_LOWER_SIZE :: nat where "KARATSUBA_MUL_LOWER_SIZE = 12"

text \<open>The difference of two halves stored in \<open>z\<close>; \<open>c\<close> is their comparison.\<close>

definition store_difference :: "u32 list \<Rightarrow> int \<Rightarrow> u32 list \<Rightarrow> u32 list \<Rightarrow> nat \<Rightarrow> u32 list option" where
  "store_difference z c a b n = (if c > 0 then bigint_sub3 z a n b n else bigint_sub3 z b n a n)"

text \<open>
  The last part of \<^verbatim>\<open>karatsuba_mul\<close>: \<open>z\<close> holds the products of the halves, \<open>w\<close> the product of
  the differences; the sum of the halves goes to the second half of the workspace.
\<close>

definition karatsuba_combine :: "nat \<Rightarrow> int \<Rightarrow> int \<Rightarrow> u32 list \<Rightarrow> u32 list \<Rightarrow> (u32 list \<times> u32 list) option" where
  "karatsuba_combine N cmp0 cmp1 z w = do {
     let N2 = N div 2;
     (s, carry1) \<leftarrow> bigint_add3_nc (take N z) N (drop N z) N;
     (z1, carry2) \<leftarrow> bigint_add2_nc (drop N2 z) N s N;
     (z2, ignored) \<leftarrow> bigint_add2_nc (drop N z1) N2 [carry1 + carry2] 1;
     let z3 = take N z1 @ z2;
     z4 \<leftarrow> (if cmp0 = cmp1 \<or> cmp0 = 0 \<or> cmp1 = 0 then bigint_add2 z3 (2 * N - N2) w N
            else bigint_sub2 z3 (2 * N - N2) w N);
     Some (take N2 z @ z4, s) }"

function karatsuba_mul :: "nat \<Rightarrow> u32 list \<Rightarrow> u32 list \<Rightarrow> u32 list \<Rightarrow> u32 list \<Rightarrow> (u32 list \<times> u32 list) option" where
  "karatsuba_mul N z x y workspace =
     (if N = 6 then do { z' \<leftarrow> bigint_comba_mul6 z x y; Some (z', workspace) }
      else if N = 8 then do { z' \<leftarrow> bigint_comba_mul8 z x y; Some (z', workspace) }
      else if N < KARATSUBA_MUL_LOWER_SIZE \<or> N mod 2 \<noteq> 0
      then do { z' \<leftarrow> bigint_simple_mul z x N y N; Some (z', workspace) }
      else do {
        let N2 = N div 2;
        cmp0 \<leftarrow> bigint_cmp x N2 (drop N2 x) N2;
        cmp1 \<leftarrow> bigint_cmp (drop N2 y) N2 y N2;
        ws \<leftarrow> memcpy_at workspace 0 (replicate (2 * N) 0);
        (zs, w) \<leftarrow>
          (if cmp0 \<noteq> 0 \<and> cmp1 \<noteq> 0 then do {
             z0 \<leftarrow> store_difference (take N z) cmp0 x (drop N2 x) N2;
             z1 \<leftarrow> store_difference (drop N z) cmp1 (drop N2 y) y N2;
             (w0, w1) \<leftarrow> karatsuba_mul N2 (take N ws) z0 z1 (drop N ws);
             Some (z0 @ z1, w0 @ w1) }
           else Some (z, ws));
        (z0, w1) \<leftarrow> karatsuba_mul N2 (take N zs) x y (drop N w);
        (z1, w2) \<leftarrow> karatsuba_mul N2 (drop N zs) (drop N2 x) (drop N2 y) w1;
        (z', s) \<leftarrow> karatsuba_combine N cmp0 cmp1 (z0 @ z1) (take N w);
        Some (z', take N w @ s) })"
  by pat_completeness auto
termination by (relation "measure (\<lambda>(N, z, x, y, w). N)") (auto simp: KARATSUBA_MUL_LOWER_SIZE_def)

declare karatsuba_mul.simps [simp del]

section \<open>Correctness of Karatsuba\<close>

lemma mp_val_halves: "length z = m + n \<Longrightarrow> mp_val z = mp_val (take m z) + WB ^ m * mp_val (drop m z)"
  by (rule mp_val_split) simp

text \<open>The sum of the halves added at the middle: no carry leaves the array.\<close>

lemma add_middle_val:
  assumes "N = 2 * N2" and "length z = 2 * N" and "0 < N2"
    and "mp_val (drop N2 z) + mp_val (take N z) + mp_val (drop N z) < WB ^ (N + N2)"
  shows "\<exists>s c1 z1 c2 z2 c3. bigint_add3_nc (take N z) N (drop N z) N = Some (s, c1) \<and>
    bigint_add2_nc (drop N2 z) N s N = Some (z1, c2) \<and>
    bigint_add2_nc (drop N z1) N2 [c1 + c2] 1 = Some (z2, c3) \<and>
    length s = N \<and> length (take N z1 @ z2) = N + N2 \<and>
    mp_val (take N z1 @ z2) = mp_val (drop N2 z) + mp_val (take N z) + mp_val (drop N z)"
proof -
  let ?H = "drop N2 z" and ?P0 = "mp_val (take N z)" and ?P1 = "mp_val (drop N z)"
  have lH: "length ?H = N + N2" using assms(1,2) by simp
  obtain s c1 where s: "bigint_add3_nc (take N z) N (drop N z) N = Some (s, c1)" "length s = N"
    "mp_val s + WB ^ N * unat c1 = ?P0 + ?P1" "unat c1 \<le> 1"
    using add3_nc_val [of N "take N z" N "drop N z"] assms(2) by auto
  obtain w1 c2 where w1: "bigint_add2_nc ?H N s N = Some (w1 @ drop N ?H, c2)" "length w1 = N"
    "mp_val w1 + WB ^ N * unat c2 = mp_val (take N ?H) + mp_val s" "unat c2 \<le> 1"
    using add2_nc_val [of N N ?H s] lH s(2) by auto
  define cc where "cc = c1 + c2"
  have cc: "unat cc = unat c1 + unat c2" using s(4) w1(4) by (simp add: cc_def unat_plus_if')
  define T where "T = drop N ?H"
  have lT: "length T = N2" using lH by (simp add: T_def)
  obtain w2 c3 where w2: "bigint_add2_nc T N2 [cc] 1 = Some (w2 @ drop N2 T, c3)" "length w2 = N2"
    "mp_val w2 + WB ^ N2 * unat c3 = mp_val (take N2 T) + mp_val (take 1 [cc])"
    using add2_nc_val [of 1 N2 T "[cc]"] lT assms(3) by auto
  have w2': "mp_val w2 + WB ^ N2 * unat c3 = mp_val T + unat cc" "drop N2 T = []" using w2(3) lT by simp_all
  have H: "mp_val ?H = mp_val (take N ?H) + WB ^ N * mp_val T"
    unfolding T_def using mp_val_split [of N ?H] lH by simp
  have e: "WB ^ (N + N2) = WB ^ N * WB ^ N2" by (rule power_add)
  have "WB ^ N * mp_val w2 + (WB ^ N * WB ^ N2) * unat c3 = WB ^ N * mp_val T + WB ^ N * unat cc"
    by (rule scaled_sum [OF w2'(1)])
  then have v: "mp_val (w1 @ w2) + WB ^ (N + N2) * unat c3 = mp_val ?H + ?P0 + ?P1"
    unfolding e using w1(2,3) s(3) H cc by (simp add: mp_val_append distrib_left)
  have "unat c3 = 0"
  proof (rule ccontr)
    assume "unat c3 \<noteq> 0"
    then have "WB ^ (N + N2) * 1 \<le> WB ^ (N + N2) * unat c3" by (intro mult_le_mono2) simp
    then show False using v assms(4) by linarith
  qed
  then have v': "mp_val (w1 @ w2) = mp_val ?H + ?P0 + ?P1" using v by simp
  show ?thesis
  proof (intro exI conjI)
    show "bigint_add3_nc (take N z) N (drop N z) N = Some (s, c1)" by (rule s)
    show "bigint_add2_nc ?H N s N = Some (w1 @ T, c2)" using w1(1) by (simp add: T_def)
    show "bigint_add2_nc (drop N (w1 @ T)) N2 [c1 + c2] 1 = Some (w2, c3)"
      using w2(1) w2'(2) w1(2) by (simp add: cc_def)
    show "mp_val (take N (w1 @ T) @ w2) = mp_val ?H + ?P0 + ?P1" using v' w1(2) by simp
  qed (use s(2) w1(2) w2(2) in simp_all)
qed

lemma combine_val:
  fixes N N2 :: nat and cmp0 cmp1 :: int
  defines "pls \<equiv> cmp0 = cmp1 \<or> cmp0 = 0 \<or> cmp1 = 0"
  assumes "N = 2 * N2" and "length z = 2 * N" and "length w = N" and "0 < N2"
    and "mp_val z + WB ^ N2 * (mp_val (take N z) + mp_val (drop N z)) < WB ^ (2 * N)"
    and "pls \<Longrightarrow> mp_val z + WB ^ N2 * (mp_val (take N z) + mp_val (drop N z) + mp_val w) < WB ^ (2 * N)"
    and "\<not> pls \<Longrightarrow> mp_val w \<le> mp_val (take N z) + mp_val (drop N z)"
  shows "\<exists>z' s. karatsuba_combine N cmp0 cmp1 z w = Some (z', s) \<and> length z' = 2 * N \<and> length s = N \<and>
    mp_val z' = mp_val z + WB ^ N2 * (if pls then mp_val (take N z) + mp_val (drop N z) + mp_val w
      else mp_val (take N z) + mp_val (drop N z) - mp_val w)"
proof -
  let ?H = "drop N2 z" and ?P = "mp_val (take N z) + mp_val (drop N z)"
  define b where "b = WB ^ N2"
  have bpos: "0 < b" by (simp add: b_def)
  have e: "WB ^ (2 * N) = b * WB ^ (N + N2)" using assms(2) by (simp add: b_def flip: power_add)
  have z: "mp_val z = mp_val (take N2 z) + b * mp_val ?H" unfolding b_def using assms(2,3) by (intro mp_val_split) simp
  have lt: "t < WB ^ (N + N2)" if "mp_val (take N2 z) + b * t < WB ^ (2 * N)" for t
  proof -
    have "b * t < b * WB ^ (N + N2)" using that unfolding e by linarith
    then show ?thesis using bpos by simp
  qed
  have "mp_val (take N2 z) + b * (mp_val ?H + ?P) < WB ^ (2 * N)"
    using assms(6) z by (simp add: b_def distrib_left)
  then have "mp_val ?H + mp_val (take N z) + mp_val (drop N z) < WB ^ (N + N2)"
    using lt by (simp add: add.assoc)
  from add_middle_val [OF assms(2,3,5) this] obtain s c1 z1 c2 z2 c3 where
    st: "bigint_add3_nc (take N z) N (drop N z) N = Some (s, c1)" "bigint_add2_nc ?H N s N = Some (z1, c2)"
      "bigint_add2_nc (drop N z1) N2 [c1 + c2] 1 = Some (z2, c3)" "length s = N"
    and l3: "length (take N z1 @ z2) = N + N2" and v3: "mp_val (take N z1 @ z2) = mp_val ?H + mp_val (take N z) + mp_val (drop N z)"
    by (elim exE conjE) (rule that)
  define z3 where "z3 = take N z1 @ z2"
  have l3': "length z3 = N + N2" and v3': "mp_val z3 = mp_val ?H + ?P" using l3 v3 by (simp_all add: z3_def)
  have n: "2 * N - N2 = N + N2" "N div 2 = N2" using assms(2) by simp_all
  have "\<exists>z4. (if pls then bigint_add2 z3 (N + N2) w N else bigint_sub2 z3 (N + N2) w N) = Some z4 \<and>
      length z4 = N + N2 \<and> mp_val z4 = (if pls then mp_val z3 + mp_val w else mp_val z3 - mp_val w)"
  proof (cases pls)
    case True
    obtain v c where v: "bigint_add2_nc z3 (N + N2) w N = Some (v @ drop (N + N2) z3, c)" "length v = N + N2"
      "mp_val v + WB ^ (N + N2) * unat c = mp_val (take (N + N2) z3) + mp_val (take N w)"
      using add2_nc_val [of N "N + N2" z3 w] l3' assms(4) by auto
    have "mp_val (take N2 z) + b * (mp_val z3 + mp_val w) < WB ^ (2 * N)"
      using assms(7) [OF True] z by (simp add: v3' b_def distrib_left)
    then have lt': "mp_val z3 + mp_val w < WB ^ (N + N2)" by (rule lt)
    have v': "mp_val v + WB ^ (N + N2) * unat c = mp_val z3 + mp_val w" using v(3) l3' assms(4) by simp
    have "unat c = 0"
    proof (rule ccontr)
      assume "unat c \<noteq> 0"
      then have "WB ^ (N + N2) * 1 \<le> WB ^ (N + N2) * unat c" by (intro mult_le_mono2) simp
      then show False using v' lt' by linarith
    qed
    then show ?thesis using True v(1,2) v' l3' by (simp add: bigint_add2_def unat_eq_0)
  next
    case False
    then show ?thesis using sub2_val [of N "N + N2" z3 w] assms(8) l3' assms(4) v3' by auto
  qed
  then obtain z4 where z4: "(if pls then bigint_add2 z3 (N + N2) w N else bigint_sub2 z3 (N + N2) w N) = Some z4"
    "length z4 = N + N2" "mp_val z4 = (if pls then mp_val z3 + mp_val w else mp_val z3 - mp_val w)" by blast
  have "karatsuba_combine N cmp0 cmp1 z w = Some (take N2 z @ z4, s)"
    using st z4(1) [unfolded z3_def pls_def]
    unfolding karatsuba_combine_def Let_def n by (simp split del: if_split)
  moreover have "mp_val (take N2 z @ z4) = mp_val z + b * (if pls then ?P + mp_val w else ?P - mp_val w)"
  proof -
    have "mp_val z4 = mp_val ?H + (if pls then ?P + mp_val w else ?P - mp_val w)"
      using z4(3) v3' assms(8) by (cases pls) simp_all
    moreover have "mp_val (take N2 z @ z4) = mp_val (take N2 z) + b * mp_val z4"
      using assms(2,3) by (simp add: mp_val_append b_def min_absorb2)
    ultimately show ?thesis by (simp add: z distrib_left)
  qed
  moreover have "length (take N2 z @ z4) = 2 * N" using z4(2) assms(2,3) by simp
  ultimately show ?thesis using st(4) unfolding b_def by blast
qed

lemma middle_products:
  fixes X0 X1 Y0 Y1 :: nat
  defines "D \<equiv> nat \<bar>int X0 - int X1\<bar> * nat \<bar>int Y1 - int Y0\<bar>"
    and "c0 \<equiv> sgn (int X0 - int X1)" and "c1 \<equiv> sgn (int Y1 - int Y0)"
  shows "(if c0 = c1 \<or> c0 = 0 \<or> c1 = 0 then X0 * Y0 + X1 * Y1 + D else X0 * Y0 + X1 * Y1 - D) =
      X0 * Y1 + X1 * Y0"
    and "\<not> (c0 = c1 \<or> c0 = 0 \<or> c1 = 0) \<Longrightarrow> D \<le> X0 * Y0 + X1 * Y1"
proof -
  have D: "int D = \<bar>(int X0 - int X1) * (int Y1 - int Y0)\<bar>" by (simp add: D_def abs_mult)
  have m: "int X0 * int Y1 + int X1 * int Y0 =
      int X0 * int Y0 + int X1 * int Y1 + (int X0 - int X1) * (int Y1 - int Y0)"
    by (simp add: algebra_simps)
  have p: "int D = (int X0 - int X1) * (int Y1 - int Y0)" if "c0 = c1 \<or> c0 = 0 \<or> c1 = 0"
    using that unfolding D c0_def c1_def
    by (auto simp: sgn_if mult_nonneg_nonneg mult_nonpos_nonpos split: if_splits)
  have n: "int D = - ((int X0 - int X1) * (int Y1 - int Y0))" if "\<not> (c0 = c1 \<or> c0 = 0 \<or> c1 = 0)"
    using that unfolding D c0_def c1_def
    by (auto simp: sgn_if mult_nonneg_nonpos mult_nonpos_nonneg split: if_splits)
  show le: "D \<le> X0 * Y0 + X1 * Y1" if "\<not> (c0 = c1 \<or> c0 = 0 \<or> c1 = 0)"
  proof -
    have "0 \<le> int X0 * int Y1 + int X1 * int Y0" by simp
    then have "int D \<le> int (X0 * Y0 + X1 * Y1)" unfolding n [OF that] of_nat_add of_nat_mult using m by linarith
    then show ?thesis by (simp only: of_nat_le_iff)
  qed
  show "(if c0 = c1 \<or> c0 = 0 \<or> c1 = 0 then X0 * Y0 + X1 * Y1 + D else X0 * Y0 + X1 * Y1 - D) =
      X0 * Y1 + X1 * Y0"
  proof (cases "c0 = c1 \<or> c0 = 0 \<or> c1 = 0")
    case True
    then have "int (X0 * Y0 + X1 * Y1 + D) = int (X0 * Y1 + X1 * Y0)" using p m by simp
    then show ?thesis using True by (simp only: of_nat_eq_iff if_True)
  next
    case False
    then have "int (X0 * Y0 + X1 * Y1) = int (X0 * Y1 + X1 * Y0 + D)" using n m by simp
    then have "X0 * Y0 + X1 * Y1 = X0 * Y1 + X1 * Y0 + D" by (simp only: of_nat_eq_iff)
    then show ?thesis using False by simp
  qed
qed

lemma halves_bound:
  fixes p0 p1 b x0 x1 y0 y1 :: nat
  assumes "x0 < b" and "x1 < b" and "y0 < b" and "y1 < b"
  shows "x0 * y0 + (b * b) * (x1 * y1) + b * (x0 * y0 + x1 * y1) < (b * b) * (b * b)"
proof -
  obtain m where b: "b = Suc m" using assms(1) by (cases b) simp_all
  have "x0 * y0 \<le> m * m" "x1 * y1 \<le> m * m" using assms by (simp_all add: b mult_le_mono)
  then have "(b + 1) * (x0 * y0) + (b * b + b) * (x1 * y1) \<le> (b + 1) * (m * m) + (b * b + b) * (m * m)"
    by (intro add_mono mult_le_mono2)
  also have "\<dots> < (b * b) * (b * b)" by (simp add: b algebra_simps)
  finally show ?thesis by (simp add: algebra_simps)
qed

lemma store_difference_val:
  assumes "n \<le> length a" and "n \<le> length b" and "n \<le> length z"
    and "c = sgn (int (mp_val (take n a)) - int (mp_val (take n b)))"
  shows "\<exists>w. store_difference z c a b n = Some (w @ drop n z) \<and> length w = n \<and>
    mp_val w = nat \<bar>int (mp_val (take n a)) - int (mp_val (take n b))\<bar>"
proof (cases "mp_val (take n b) < mp_val (take n a)")
  case True
  then have "c > 0" using assms(4) by simp
  with sub3_val [of n n a b z] True assms show ?thesis
    by (auto simp: store_difference_def nat_diff_distrib)
next
  case False
  then have "\<not> c > 0" using assms(4) by (simp add: sgn_if)
  with sub3_val [of n n b a z] False assms show ?thesis
    by (auto simp: store_difference_def nat_diff_distrib)
qed

lemma karatsuba_val:
  assumes "0 < N" and "length z = 2 * N" and "N \<le> length x" and "N \<le> length y" and "length ws = 2 * N"
  shows "\<exists>z' ws'. karatsuba_mul N z x y ws = Some (z', ws') \<and> length z' = 2 * N \<and> length ws' = 2 * N \<and>
    mp_val z' = mp_val (take N x) * mp_val (take N y)"
  using assms
proof (induction N arbitrary: z x y ws rule: less_induct)
  case (less N)
  note P = less.prems
  show ?case
  proof (cases "N = 6 \<or> N = 8 \<or> N < KARATSUBA_MUL_LOWER_SIZE \<or> N mod 2 \<noteq> 0")
    case True
    have six: "\<exists>w. bigint_comba_mul6 z x y = Some w \<and> length w = 2 * N \<and> mp_val w = mp_val (take N x) * mp_val (take N y)" if "N = 6"
      using comba_mul_val [of 6 x y z] P that by (auto simp: bigint_comba_mul6_def)
    have eight: "\<exists>w. bigint_comba_mul8 z x y = Some w \<and> length w = 2 * N \<and> mp_val w = mp_val (take N x) * mp_val (take N y)" if "N = 8"
      using comba_mul_val [of 8 x y z] P that by (auto simp: bigint_comba_mul8_def)
    have sm: "\<exists>w. bigint_simple_mul z x N y N = Some w \<and> length w = 2 * N \<and> mp_val w = mp_val (take N x) * mp_val (take N y)"
      using simple_mul_val [of N x N y z] P by (auto simp: mult_2)
    consider "N = 6" | "N = 8" | "N \<noteq> 6" "N \<noteq> 8" "N < KARATSUBA_MUL_LOWER_SIZE \<or> N mod 2 \<noteq> 0" using True by blast
    then show ?thesis
    proof cases
      case 1
      then show ?thesis using six P(5) by (subst karatsuba_mul.simps) auto
    next
      case 2
      then show ?thesis using eight P(5) by (subst karatsuba_mul.simps) auto
    next
      case 3
      then show ?thesis using sm P(5) by (subst karatsuba_mul.simps) auto
    qed
  next
    case big: False
    define N2 where "N2 = N div 2"
    have N: "N = 2 * N2" "6 \<le> N2" "N2 < N" using big by (auto simp: N2_def KARATSUBA_MUL_LOWER_SIZE_def)
    let ?X0 = "mp_val (take N2 x)" and ?X1 = "mp_val (take N2 (drop N2 x))"
    let ?Y0 = "mp_val (take N2 y)" and ?Y1 = "mp_val (take N2 (drop N2 y))"
    define c0 c1 where "c0 = sgn (int ?X0 - int ?X1)" and "c1 = sgn (int ?Y1 - int ?Y0)"
    have len: "N2 \<le> length x" "N2 \<le> length (drop N2 x)" "N2 \<le> length y" "N2 \<le> length (drop N2 y)"
      using P(3,4) N(1) by simp_all
    have cmp: "bigint_cmp x N2 (drop N2 x) N2 = Some c0" "bigint_cmp (drop N2 y) N2 y N2 = Some c1"
      using cmp_val [OF len(1,2)] cmp_val [OF len(4,3)] by (simp_all add: c0_def c1_def)
    have clr: "memcpy_at ws 0 (replicate (2 * N) 0) = Some (replicate (2 * N) 0)"
      using P(5) by (intro memcpy_at_whole) simp
    let ?ws0 = "replicate (2 * N) (0 :: u32)"
    define D where "D = nat \<bar>int ?X0 - int ?X1\<bar> * nat \<bar>int ?Y1 - int ?Y0\<bar>"
    let ?first = "if c0 \<noteq> 0 \<and> c1 \<noteq> 0 then do {
             z0 \<leftarrow> store_difference (take N z) c0 x (drop N2 x) N2;
             z1 \<leftarrow> store_difference (drop N z) c1 (drop N2 y) y N2;
             (w0, w1) \<leftarrow> karatsuba_mul N2 (take N ?ws0) z0 z1 (drop N ?ws0);
             Some (z0 @ z1, w0 @ w1) }
           else Some (z, ?ws0)"
    obtain zs w where first: "?first = Some (zs, w)" "length zs = 2 * N" "length w = 2 * N" "mp_val (take N w) = D"
    proof (cases "c0 \<noteq> 0 \<and> c1 \<noteq> 0")
      case True
      obtain d0 where d0: "store_difference (take N z) c0 x (drop N2 x) N2 = Some (d0 @ drop N2 (take N z))"
        "length d0 = N2" "mp_val d0 = nat \<bar>int ?X0 - int ?X1\<bar>"
        using store_difference_val [OF len(1,2), of "take N z" c0] P(2) N by (auto simp: c0_def)
      obtain d1 where d1: "store_difference (drop N z) c1 (drop N2 y) y N2 = Some (d1 @ drop N2 (drop N z))"
        "length d1 = N2" "mp_val d1 = nat \<bar>int ?Y1 - int ?Y0\<bar>"
        using store_difference_val [OF len(4,3), of "drop N z" c1] P(2) N by (auto simp: c1_def)
      let ?z0 = "d0 @ drop N2 (take N z)" and ?z1 = "d1 @ drop N2 (drop N z)"
      have h: "0 < N2" "length (take N ?ws0) = 2 * N2" "N2 \<le> length ?z0" "N2 \<le> length ?z1" "length (drop N ?ws0) = 2 * N2"
        using N d0(2) d1(2) by simp_all
      obtain w0 w1 where w: "karatsuba_mul N2 (take N ?ws0) ?z0 ?z1 (drop N ?ws0) = Some (w0, w1)"
        "length w0 = 2 * N2" "length w1 = 2 * N2" "mp_val w0 = mp_val (take N2 ?z0) * mp_val (take N2 ?z1)"
        using less.IH [OF N(3) h] by (elim exE conjE) (rule that)
      show ?thesis
      proof (rule that)
        show "?first = Some (?z0 @ ?z1, w0 @ w1)" using True d0(1) d1(1) w(1) by simp
        show "length (?z0 @ ?z1) = 2 * N" using d0(2) d1(2) P(2) N by simp
        show "length (w0 @ w1) = 2 * N" using w(2,3) N(1) by simp
        show "mp_val (take N (w0 @ w1)) = D"
          using w(2,4) d0(2,3) d1(2,3) N(1) by (simp add: D_def)
      qed
    next
      case False
      then have "D = 0" by (auto simp: D_def c0_def c1_def sgn_if split: if_splits)
      with False show ?thesis by (intro that [of z ?ws0]) (use P(2) in auto)
    qed
    have h0: "0 < N2" "length (take N zs) = 2 * N2" "length (drop N w) = 2 * N2" "length (drop N zs) = 2 * N2"
      using N first(2,3) by simp_all
    obtain z0 w1 where z0: "karatsuba_mul N2 (take N zs) x y (drop N w) = Some (z0, w1)"
      "length z0 = 2 * N2" "length w1 = 2 * N2" "mp_val z0 = ?X0 * ?Y0"
      using less.IH [OF N(3) h0(1,2) len(1,3) h0(3)] by (elim exE conjE) (rule that)
    obtain z1 w2 where z1: "karatsuba_mul N2 (drop N zs) (drop N2 x) (drop N2 y) w1 = Some (z1, w2)"
      "length z1 = 2 * N2" "mp_val z1 = ?X1 * ?Y1"
      using less.IH [OF N(3) h0(1,4) len(2,4) z0(3)] by (elim exE conjE) (rule that)
    define b where "b = WB ^ N2"
    have bN: "WB ^ N = b * b" "WB ^ (2 * N) = (b * b) * (b * b)"
      using N(1) by (simp_all add: b_def flip: power_add)
    have bd: "?X0 < b" "?X1 < b" "?Y0 < b" "?Y1 < b"
      using mp_val_less [of "take N2 x"] mp_val_less [of "take N2 (drop N2 x)"] mp_val_less [of "take N2 y"]
        mp_val_less [of "take N2 (drop N2 y)"] len by (simp_all add: b_def min_absorb2)
    let ?z = "z0 @ z1"
    have Z: "mp_val ?z = ?X0 * ?Y0 + (b * b) * (?X1 * ?Y1)"
      using z0(2,4) z1(3) N(1) bN(1) by (simp add: mp_val_append)
    have half: "take N ?z = z0" "drop N ?z = z1" using z0(2) N(1) by simp_all
    have mid: "(if c0 = c1 \<or> c0 = 0 \<or> c1 = 0 then ?X0 * ?Y0 + ?X1 * ?Y1 + D else ?X0 * ?Y0 + ?X1 * ?Y1 - D) = ?X0 * ?Y1 + ?X1 * ?Y0"
      and dle: "\<not> (c0 = c1 \<or> c0 = 0 \<or> c1 = 0) \<Longrightarrow> D \<le> ?X0 * ?Y0 + ?X1 * ?Y1"
      unfolding c0_def c1_def D_def by (rule middle_products)+
    have xs: "mp_val (take N x) = ?X0 + b * ?X1" "mp_val (take N y) = ?Y0 + b * ?Y1"
      using mp_val_split [of N2 "take N x"] mp_val_split [of N2 "take N y"] P(3,4) N(1)
      by (simp_all add: b_def drop_take min_absorb1)
    have prod: "mp_val (take N x) * mp_val (take N y) = ?X0 * ?Y0 + (b * b) * (?X1 * ?Y1) + b * (?X0 * ?Y1 + ?X1 * ?Y0)"
      unfolding xs by (simp add: algebra_simps)
    have plt: "mp_val (take N x) * mp_val (take N y) < (b * b) * (b * b)"
      using mp_val_less [of "take N x"] mp_val_less [of "take N y"] P(3,4) bd(1) bN(1) by (intro mult_strict_mono) simp_all
    have "\<exists>z' s. karatsuba_combine N c0 c1 ?z (take N w) = Some (z', s) \<and> length z' = 2 * N \<and> length s = N \<and>
        mp_val z' = mp_val ?z + WB ^ N2 * (if c0 = c1 \<or> c0 = 0 \<or> c1 = 0
          then mp_val (take N ?z) + mp_val (drop N ?z) + mp_val (take N w)
          else mp_val (take N ?z) + mp_val (drop N ?z) - mp_val (take N w))"
    proof (rule combine_val)
      show "N = 2 * N2" by (rule N)
      show "length ?z = 2 * N" "length (take N w) = N" "0 < N2" using z0(2) z1(2) N first(3) by simp_all
      show "mp_val ?z + WB ^ N2 * (mp_val (take N ?z) + mp_val (drop N ?z)) < WB ^ (2 * N)"
        unfolding half Z z0(4) z1(3) bN(2) b_def [symmetric] using halves_bound [OF bd] by simp
      show "mp_val ?z + WB ^ N2 * (mp_val (take N ?z) + mp_val (drop N ?z) + mp_val (take N w)) < WB ^ (2 * N)"
        if "c0 = c1 \<or> c0 = 0 \<or> c1 = 0"
        using mid plt prod that unfolding half Z z0(4) z1(3) first(4) bN(2) b_def [symmetric] by simp
      show "mp_val (take N w) \<le> mp_val (take N ?z) + mp_val (drop N ?z)"
        if "\<not> (c0 = c1 \<or> c0 = 0 \<or> c1 = 0)"
        using dle [OF that] unfolding half z0(4) z1(3) first(4) .
    qed
    then obtain z' s where c: "karatsuba_combine N c0 c1 ?z (take N w) = Some (z', s)" "length z' = 2 * N" "length s = N"
      "mp_val z' = mp_val ?z + b * (?X0 * ?Y1 + ?X1 * ?Y0)"
      unfolding half z0(4) z1(3) first(4) mid b_def [symmetric] by (elim exE conjE) (rule that)
    have "karatsuba_mul N z x y ws = Some (z', take N w @ s)"
      using big cmp clr first(1) z0(1) z1(1) c(1)
      by (subst karatsuba_mul.simps) (simp add: N2_def [symmetric] Let_def)
    then show ?thesis using c first(3) Z prod by simp
  qed
qed

section \<open>The dispatcher\<close>

function karatsuba_search :: "nat \<Rightarrow> nat \<Rightarrow> nat \<Rightarrow> nat \<Rightarrow> nat \<Rightarrow> nat \<Rightarrow> nat \<Rightarrow> nat" where
  "karatsuba_search z_size x_size x_sw y_size y_sw limit j =
     (if limit < j then 0
      else if j mod 2 \<noteq> 0 then karatsuba_search z_size x_size x_sw y_size y_sw limit (Suc j)
      else if 2 * j > z_size then 0
      else if x_sw \<le> j \<and> j \<le> x_size \<and> y_sw \<le> j \<and> j \<le> y_size then
        (if j mod 4 = 2 \<and> j + 2 \<le> x_size \<and> j + 2 \<le> y_size \<and> 2 * (j + 2) \<le> z_size then j + 2 else j)
      else karatsuba_search z_size x_size x_sw y_size y_sw limit (Suc j))"
  by pat_completeness auto
termination by (relation "measure (\<lambda>(a, b, c, d, e, l, j). Suc l - j)") auto

declare karatsuba_search.simps [simp del]

definition karatsuba_size :: "nat \<Rightarrow> nat \<Rightarrow> nat \<Rightarrow> nat \<Rightarrow> nat \<Rightarrow> nat" where
  "karatsuba_size z_size x_size x_sw y_size y_sw =
     (if x_sw > x_size \<or> x_sw > y_size \<or> y_sw > x_size \<or> y_sw > y_size then 0
      else if x_size = x_sw \<and> x_size mod 2 \<noteq> 0 \<or> y_size = y_sw \<and> y_size mod 2 \<noteq> 0 then 0
      else
        let start = (if x_sw > y_sw then x_sw else y_sw);
            limit = (if x_size < y_size then x_size else y_size)
        in if start = limit then (if start mod 2 \<noteq> 0 then 0 else start)
           else karatsuba_search z_size x_size x_sw y_size y_sw limit start)"

definition handle_small_mul :: "u32 list \<Rightarrow> nat \<Rightarrow> u32 list \<Rightarrow> nat \<Rightarrow> nat \<Rightarrow> u32 list \<Rightarrow> nat \<Rightarrow> nat \<Rightarrow> u32 list option" where
  "handle_small_mul z z_size x x_size x_sw y y_size y_sw =
     (if x_sw = 1 then do { w \<leftarrow> peek x 0; bigint_linmul3 z y y_sw w }
      else if y_sw = 1 then do { w \<leftarrow> peek y 0; bigint_linmul3 z x x_sw w }
      else if x_sw \<le> 4 \<and> x_size \<ge> 4 \<and> y_sw \<le> 4 \<and> y_size \<ge> 4 \<and> z_size \<ge> 8 then bigint_comba_mul4 z x y
      else if x_sw \<le> 6 \<and> x_size \<ge> 6 \<and> y_sw \<le> 6 \<and> y_size \<ge> 6 \<and> z_size \<ge> 12 then bigint_comba_mul6 z x y
      else if x_sw \<le> 8 \<and> x_size \<ge> 8 \<and> y_sw \<le> 8 \<and> y_size \<ge> 8 \<and> z_size \<ge> 16 then bigint_comba_mul8 z x y
      else bigint_simple_mul z x x_sw y y_sw)"

definition bigint_mul :: "u32 list \<Rightarrow> nat \<Rightarrow> u32 list \<Rightarrow> u32 list \<Rightarrow> nat \<Rightarrow> nat \<Rightarrow> u32 list \<Rightarrow> nat \<Rightarrow> nat \<Rightarrow> u32 list option" where
  "bigint_mul z z_size workspace x x_size x_sw y y_size y_sw =
     (if x_size \<le> 8 \<or> y_size \<le> 8 then handle_small_mul z z_size x x_size x_sw y y_size y_sw
      else
        let N = karatsuba_size z_size x_size x_sw y_size y_sw in
        if N \<noteq> 0 then do {
          zs \<leftarrow> mem_slice z 0 (2 * N);
          w0 \<leftarrow> mem_slice workspace 0 (2 * N);
          w1 \<leftarrow> memcpy_at w0 0 (replicate (2 * N) 0);
          (z', w') \<leftarrow> karatsuba_mul N zs x y w1;
          memcpy_at z 0 z' }
        else bigint_simple_mul z x x_sw y y_sw)"

lemma karatsuba_search_ok:
  "karatsuba_search z_size x_size x_sw y_size y_sw limit j = N \<Longrightarrow> N \<noteq> 0 \<Longrightarrow>
     x_sw \<le> N \<and> N \<le> x_size \<and> y_sw \<le> N \<and> N \<le> y_size \<and> 2 * N \<le> z_size"
proof (induction z_size x_size x_sw y_size y_sw limit j rule: karatsuba_search.induct)
  case (1 z_size x_size x_sw y_size y_sw limit j)
  show ?case
    using "1.prems" "1.IH" by (subst (asm) karatsuba_search.simps) (auto split: if_splits)
qed

text \<open>The chosen size covers both numbers and fits the three arrays.\<close>

lemma karatsuba_size_ok:
  assumes "karatsuba_size z_size x_size x_sw y_size y_sw = N" and "N \<noteq> 0" and "x_size + y_size \<le> z_size"
  shows "x_sw \<le> N \<and> N \<le> x_size \<and> y_sw \<le> N \<and> N \<le> y_size \<and> 2 * N \<le> z_size"
proof (cases "(if x_sw > y_sw then x_sw else y_sw) = (if x_size < y_size then x_size else y_size)")
  case True
  then show ?thesis using assms by (auto simp: karatsuba_size_def Let_def split: if_splits)
next
  case False
  have "karatsuba_search z_size x_size x_sw y_size y_sw (if x_size < y_size then x_size else y_size)
      (if x_sw > y_sw then x_sw else y_sw) = N"
    using False assms(1,2) unfolding karatsuba_size_def Let_def by (simp split: if_split_asm)
  from karatsuba_search_ok [OF this assms(2)] show ?thesis .
qed

lemma take_zeros: "mp_val (drop m x) = 0 \<Longrightarrow> m \<le> n \<Longrightarrow> mp_val (take n x) = mp_val (take m x)"
proof -
  assume z: "mp_val (drop m x) = 0" and "m \<le> n"
  then have "take n x = take m x @ take (n - m) (drop m x)" by (metis le_add_diff_inverse take_add)
  moreover have "mp_val (take (n - m) (drop m x)) = 0" using z by (auto simp: mp_val_0 dest: in_set_takeD)
  ultimately show ?thesis by (simp add: mp_val_append)
qed

lemma mp_val_take_zeros: "mp_val (drop m x) = 0 \<Longrightarrow> mp_val (take m x) = mp_val x"
  using take_zeros [of m x "max m (length x)"] by simp

text \<open>What a multiplication stores: \<open>w\<close> at the start of \<open>z\<close>, at least \<open>n\<close> words.\<close>

definition stores :: "u32 list option \<Rightarrow> u32 list \<Rightarrow> nat \<Rightarrow> nat \<Rightarrow> bool" where
  "stores r z n v \<longleftrightarrow> (\<exists>w. r = Some (w @ drop (length w) z) \<and> n \<le> length w \<and> length w \<le> length z \<and> mp_val w = v)"

lemma storesI: "r = Some (w @ drop m z) \<Longrightarrow> length w = m \<Longrightarrow> n \<le> m \<Longrightarrow> m \<le> length z \<Longrightarrow> mp_val w = v \<Longrightarrow> stores r z n v"
  by (auto simp: stores_def)

lemma comba_stores:
  assumes "0 < n" and "n \<le> 8" and "x_sw \<le> n" and "y_sw \<le> n" and "n \<le> length x" and "n \<le> length y"
    and "2 * n \<le> length z" and "mp_val (drop x_sw x) = 0" and "mp_val (drop y_sw y) = 0"
  shows "stores (comba_mul n z x y) z (x_sw + y_sw) (mp_val x * mp_val y)"
proof -
  obtain w where "comba_mul n z x y = Some (w @ drop (2 * n) z)" "length w = 2 * n"
    "mp_val w = mp_val (take n x) * mp_val (take n y)"
    using comba_mul_val [OF assms(1,2,5,6,7)] by blast
  with take_zeros [OF assms(8,3)] take_zeros [OF assms(9,4)] mp_val_take_zeros [OF assms(8)]
    mp_val_take_zeros [OF assms(9)] assms show ?thesis
    by (intro storesI) simp_all
qed

lemma simple_stores:
  assumes "x_sw \<le> length x" and "y_sw \<le> length y" and "x_sw + y_sw \<le> length z"
    and "mp_val (drop x_sw x) = 0" and "mp_val (drop y_sw y) = 0"
  shows "stores (bigint_simple_mul z x x_sw y y_sw) z (x_sw + y_sw) (mp_val x * mp_val y)"
  using simple_mul_val [OF assms(1-3)] mp_val_take_zeros [OF assms(4)] mp_val_take_zeros [OF assms(5)] assms(3)
  by (auto intro: storesI)

lemma linmul_stores:
  assumes "n \<le> length x" and "n < length z" and "mp_val (drop n x) = 0"
  shows "stores (bigint_linmul3 z x n w) z (Suc n) (mp_val x * unat w)"
  using linmul3_val [OF assms(1,2), of w] mp_val_take_zeros [OF assms(3)] assms(2) by (auto intro: storesI)

lemma one_word: "0 < length x \<Longrightarrow> mp_val (drop 1 x) = 0 \<Longrightarrow> mp_val x = unat (x ! 0)"
  by (cases x) simp_all

lemma small_mul_val:
  assumes "x_sw \<le> length x" and "y_sw \<le> length y" and "0 < x_sw" and "0 < y_sw" and "length x + length y \<le> length z"
    and "mp_val (drop x_sw x) = 0" and "mp_val (drop y_sw y) = 0"
  shows "stores (handle_small_mul z (length z) x (length x) x_sw y (length y) y_sw) z (x_sw + y_sw) (mp_val x * mp_val y)"
proof -
  have pk: "peek x 0 = Some (x ! 0)" "peek y 0 = Some (y ! 0)" using assms(1-4) by (auto simp: peek_def)
  have s: "x_sw + y_sw \<le> length z" using assms by simp
  have x1: "stores (bigint_linmul3 z y y_sw (x ! 0)) z (x_sw + y_sw) (mp_val x * mp_val y)" if "x_sw = 1"
    using linmul_stores [OF assms(2) _ assms(7), of z "x ! 0"] one_word [of x] assms that by (cases x) (simp_all add: mult.commute)
  have y1: "stores (bigint_linmul3 z x x_sw (y ! 0)) z (x_sw + y_sw) (mp_val x * mp_val y)" if "y_sw = 1"
    using linmul_stores [OF assms(1) _ assms(6), of z "y ! 0"] one_word [of y] assms that by (cases y) simp_all
  note c = comba_stores [OF _ _ _ _ _ _ _ assms(6,7)]
  show ?thesis
    unfolding handle_small_mul_def bigint_comba_mul4_def bigint_comba_mul6_def bigint_comba_mul8_def
    using x1 y1 pk c simple_stores [OF assms(1,2) s assms(6,7)] by simp
qed

lemma mul_stores:
  assumes "x_sw \<le> length x" and "y_sw \<le> length y" and "0 < x_sw" and "0 < y_sw"
    and "mp_val (drop x_sw x) = 0" and "mp_val (drop y_sw y) = 0"
    and "length x + length y \<le> length z" and "length workspace = length z"
  shows "stores (bigint_mul z (length z) workspace x (length x) x_sw y (length y) y_sw) z (x_sw + y_sw) (mp_val x * mp_val y)"
proof -
  define N where "N = karatsuba_size (length z) (length x) x_sw (length y) y_sw"
  let ?r = "bigint_mul z (length z) workspace x (length x) x_sw y (length y) y_sw"
  show "stores ?r z (x_sw + y_sw) (mp_val x * mp_val y)"
  proof (cases "length x \<le> 8 \<or> length y \<le> 8")
    case True
    then show ?thesis using small_mul_val [OF assms(1-4,7,5,6)] unfolding bigint_mul_def by simp
  next
    case small: False
    show ?thesis
    proof (cases "N = 0")
      case True
      have "x_sw + y_sw \<le> length z" using assms by simp
      from simple_stores [OF assms(1,2) this assms(5,6)] True small show ?thesis
        unfolding bigint_mul_def by (simp add: N_def [symmetric])
    next
      case False
      have k: "x_sw \<le> N" "N \<le> length x" "y_sw \<le> N" "N \<le> length y" "2 * N \<le> length z"
        using karatsuba_size_ok [OF N_def [symmetric] False assms(7)] by auto
      have sl: "mem_slice z 0 (2 * N) = Some (take (2 * N) z)"
        "mem_slice workspace 0 (2 * N) = Some (take (2 * N) workspace)"
        using k(5) assms(8) by (simp_all add: mem_slice_in)
      have cl: "memcpy_at (take (2 * N) workspace) 0 (replicate (2 * N) 0) = Some (replicate (2 * N) 0)"
        using k(5) assms(8) by (intro memcpy_at_whole) simp
      have "0 < N" "length (take (2 * N) z) = 2 * N" using False k(5) by simp_all
      from karatsuba_val [OF this k(2,4) length_replicate [of "2 * N" 0]] obtain z' w' where
        kz: "karatsuba_mul N (take (2 * N) z) x y (replicate (2 * N) 0) = Some (z', w')" "length z' = 2 * N"
        "mp_val z' = mp_val (take N x) * mp_val (take N y)" by (elim exE conjE) (rule that)
      have "?r = Some (z' @ drop (2 * N) z)"
        using small False sl cl kz(1,2) k(5) unfolding bigint_mul_def Let_def N_def [symmetric]
        by (simp add: memcpy_at_in)
      moreover have "mp_val z' = mp_val x * mp_val y"
        using kz(3) take_zeros [OF assms(5) k(1)] take_zeros [OF assms(6) k(3)]
          mp_val_take_zeros [OF assms(5)] mp_val_take_zeros [OF assms(6)] by simp
      ultimately show ?thesis using kz(2) k by (intro storesI) auto
    qed
  qed
qed

text \<open>
  C21. Multiplication of word arrays.  Whatever path the dispatcher takes (one word, the
  unrolled Comba products, the quadratic loop, or Karatsuba multiplication with its choice
  of a size and its shared workspace), it stores the product of the two numbers at the
  start of the result, leaves the rest of the result alone and stays inside every array.
\<close>

theorem bigint_mul_correct:
  assumes "x_sw \<le> length x" and "y_sw \<le> length y" and "0 < x_sw" and "0 < y_sw"
    and "mp_val (drop x_sw x) = 0" and "mp_val (drop y_sw y) = 0"
    and "length x + length y \<le> length z" and "length workspace = length z"
  shows "\<exists>w. bigint_mul z (length z) workspace x (length x) x_sw y (length y) y_sw = Some (w @ drop (length w) z) \<and>
    x_sw + y_sw \<le> length w \<and> length w \<le> length z \<and> mp_val w = mp_val x * mp_val y"
  using mul_stores [OF assms] by (simp add: stores_def)

theorem bigint_mul_correct_witness:
  "\<exists>w. bigint_mul (replicate 24 0) 24 (replicate 24 0) (replicate 12 5) 12 12 (replicate 12 7) 12 12 =
      Some (w @ drop (length w) (replicate 24 0)) \<and>
    24 \<le> length w \<and> length w \<le> 24 \<and> mp_val w = mp_val (replicate 12 5) * mp_val (replicate 12 7)"
  using bigint_mul_correct [of 12 "replicate 12 5" 12 "replicate 12 7" "replicate 24 0" "replicate 24 0"] by simp

end
