(* ===== verification/MpShift.thy ===== *)
theory MpShift
  imports MpDiv
begin

text \<open>
  Shifts of word arrays (\<^verbatim>\<open>mp_shift.cpp\<close>): whole words are moved, then the remaining bits are
  carried from word to word, upwards for left shifts and downwards for right shifts.
\<close>

section \<open>Definitions\<close>

definition shl_step :: "nat \<Rightarrow> u32 \<Rightarrow> u32 \<Rightarrow> u32 \<times> u32" where
  "shl_step n temp carry = (push_bit n temp OR carry, drop_bit (32 - n) temp)"

definition shr_step :: "nat \<Rightarrow> u32 \<Rightarrow> u32 \<Rightarrow> u32 \<times> u32" where
  "shr_step n temp carry = (drop_bit n temp OR carry, push_bit (32 - n) temp)"

text \<open>The bit loop of the left shifts, on the \<open>x_size + 1\<close> words from \<open>word_shift\<close> on.\<close>

definition shift_bits_up :: "u32 list \<Rightarrow> nat \<Rightarrow> nat \<Rightarrow> nat \<Rightarrow> u32 list option" where
  "shift_bits_up x x_size word_shift bit_shift =
     (if bit_shift = 0 then Some x
      else do {
        ws \<leftarrow> mem_slice x word_shift (Suc x_size);
        memcpy_at x word_shift (fst (carry_chain (shl_step bit_shift) ws 0)) })"

definition bigint_shl1 :: "u32 list \<Rightarrow> nat \<Rightarrow> nat \<Rightarrow> nat \<Rightarrow> u32 list option" where
  "bigint_shl1 x x_size word_shift bit_shift = do {
     x1 \<leftarrow> (if word_shift = 0 then Some x
            else do {
              xs \<leftarrow> mem_slice x 0 x_size;
              x' \<leftarrow> memcpy_at x word_shift xs;
              memcpy_at x' 0 (replicate word_shift 0) });
     shift_bits_up x1 x_size word_shift bit_shift }"

definition bigint_shl2 :: "u32 list \<Rightarrow> u32 list \<Rightarrow> nat \<Rightarrow> nat \<Rightarrow> nat \<Rightarrow> u32 list option" where
  "bigint_shl2 y x x_size word_shift bit_shift = do {
     xs \<leftarrow> mem_slice x 0 x_size;
     y1 \<leftarrow> memcpy_at y word_shift xs;
     shift_bits_up y1 x_size word_shift bit_shift }"

text \<open>The bit loop of the right shifts, from the most significant of the \<open>n\<close> words down.\<close>

definition shift_bits_down :: "u32 list \<Rightarrow> nat \<Rightarrow> nat \<Rightarrow> u32 list option" where
  "shift_bits_down x n bit_shift =
     (if bit_shift = 0 then Some x
      else do {
        ws \<leftarrow> mem_slice x 0 n;
        memcpy_at x 0 (rev (fst (carry_chain (shr_step bit_shift) (rev ws) 0))) })"

definition bigint_shr1 :: "u32 list \<Rightarrow> nat \<Rightarrow> nat \<Rightarrow> nat \<Rightarrow> u32 list option" where
  "bigint_shr1 x x_size word_shift bit_shift =
     (if x_size < word_shift then memcpy_at x 0 (replicate x_size 0)
      else do {
        x1 \<leftarrow> (if word_shift = 0 then Some x
               else do {
                 xs \<leftarrow> mem_slice x word_shift (x_size - word_shift);
                 memcpy_at x 0 (xs @ replicate word_shift 0) });
        shift_bits_down x1 (x_size - word_shift) bit_shift })"

definition bigint_shr2 :: "u32 list \<Rightarrow> u32 list \<Rightarrow> nat \<Rightarrow> nat \<Rightarrow> nat \<Rightarrow> u32 list option" where
  "bigint_shr2 y x x_size word_shift bit_shift =
     (if x_size < word_shift then Some y
      else do {
        xs \<leftarrow> mem_slice x word_shift (x_size - word_shift);
        y1 \<leftarrow> memcpy_at y 0 xs;
        shift_bits_down y1 (x_size - word_shift) bit_shift })"

section \<open>Carried bits\<close>

lemma shl_step_val:
  assumes "n \<le> 32" and "unat c < 2 ^ n" and "shl_step n w c = (z, c')"
  shows "unat z + WB * unat c' = unat w * 2 ^ n + unat c" and "unat c' < 2 ^ n"
proof -
  have zc: "z = push_bit n w OR c" "c' = drop_bit (32 - n) w" using assms(3) by (simp_all add: shl_step_def)
  define P Q where "P = (2 :: nat) ^ n" and "Q = (2 :: nat) ^ (32 - n)"
  have "Q * P = 2 ^ 32" unfolding P_def Q_def using assms(1) by (metis le_add_diff_inverse2 power_add)
  then have e: "WB = Q * P" by simp
  have z: "unat z = unat w * P mod WB + unat c" using unat_push_or [OF assms(2,1)] zc(1) by (simp add: P_def)
  have c: "unat c' = unat w div Q" using zc(2) by (simp add: unat_drop Q_def)
  have "unat w * P mod (Q * P) = unat w mod Q * P" by (rule mult_mod_left [symmetric])
  then have "unat w * P mod WB + WB * (unat w div Q) = unat w mod Q * P + Q * (unat w div Q) * P"
    unfolding e by (simp only: mult_ac)
  also have "\<dots> = unat w * P" by (simp only: distrib_right [symmetric] mod_mult_div_eq)
  finally have "unat w * P mod WB + WB * (unat w div Q) = unat w * P" .
  then show "unat z + WB * unat c' = unat w * 2 ^ n + unat c" using z c by (simp add: P_def)
  have "unat w < P * Q" using u32_less [of w] e by (simp add: mult.commute)
  then show "unat c' < 2 ^ n" unfolding c P_def [symmetric] by (simp add: less_mult_imp_div_less)
qed

lemma shl_chain_val:
  assumes "carry_chain (shl_step n) ws c = (z, c')" and "n \<le> 32" and "unat c < 2 ^ n"
  shows "mp_val z + WB ^ length ws * unat c' = mp_val ws * 2 ^ n + unat c"
  using assms(1,3)
proof (induction ws arbitrary: c z)
  case (Cons w ws)
  obtain v c1 where v: "shl_step n w c = (v, c1)" by fastforce
  obtain z1 where z1: "carry_chain (shl_step n) ws c1 = (z1, c')" "z = v # z1"
    using carry_chain_ConsE [OF Cons.prems(1) v] by blast
  note V = shl_step_val [OF assms(2) Cons.prems(2) v]
  from Cons.IH [OF z1(1) V(2)] V(1) show ?case by (simp add: z1(2) algebra_simps)
qed simp

lemma shr_step_val:
  assumes "0 < n" and "n \<le> 32" and "r < 2 ^ n" and "unat c = r * 2 ^ (32 - n)" and "shr_step n w c = (z, c')"
  shows "unat z = (r * WB + unat w) div 2 ^ n" and "unat c' = (r * WB + unat w) mod 2 ^ n * 2 ^ (32 - n)"
proof -
  have zc: "z = drop_bit n w OR c" "c' = push_bit (32 - n) w" using assms(5) by (simp_all add: shr_step_def)
  define P Q where "P = (2 :: nat) ^ n" and "Q = (2 :: nat) ^ (32 - n)"
  have "P * Q = 2 ^ 32" unfolding P_def Q_def using assms(2) by (metis le_add_diff_inverse power_add)
  then have e: "WB = P * Q" by simp
  have Pp: "0 < P" "0 < Q" by (simp_all add: P_def Q_def)
  have dw: "unat (drop_bit n w) = unat w div P" by (simp add: unat_drop P_def)
  have dl: "unat w div P < Q" using u32_less [of w] e by (simp add: less_mult_imp_div_less mult.commute)
  have "unat (of_nat r :: u32) = r"
  proof -
    have "r < WB" using assms(2,3) power_increasing [of n 32 "2 :: nat"] by simp
    then show ?thesis by (simp add: unat_of_nat)
  qed
  have "r * Q < WB" unfolding e using assms(3) Pp by (simp add: P_def)
  then have cr: "c = push_bit (32 - n) (of_nat r)"
    using assms(4) unat_push [of "32 - n" "of_nat r :: u32"] \<open>unat (of_nat r :: u32) = r\<close>
    by (simp add: word_unat_eq_iff Q_def)
  have "unat z = r * Q mod WB + unat w div P"
    using unat_push_or [of "drop_bit n w" "32 - n" "of_nat r"] dw dl \<open>unat (of_nat r :: u32) = r\<close>
    unfolding zc(1) cr by (simp add: or.commute Q_def)
  then have "unat z = r * Q + unat w div P" using \<open>r * Q < WB\<close> by simp
  moreover have "r * WB + unat w = (r * Q) * P + unat w" by (simp add: e)
  moreover have "((r * Q) * P + unat w) div P = r * Q + unat w div P" using Pp by (intro div_mult_self3) simp
  ultimately show "unat z = (r * WB + unat w) div 2 ^ n" unfolding P_def [symmetric] by (simp only:)
  have "unat c' = unat w * Q mod WB" using unat_push [of "32 - n" w] zc(2) by (simp add: Q_def)
  also have "\<dots> = unat w mod P * Q" unfolding e by (rule mult_mod_left [symmetric])
  also have "unat w mod P = (r * WB + unat w) mod P" by (simp add: e mult.left_commute [of r])
  finally show "unat c' = (r * WB + unat w) mod 2 ^ n * 2 ^ (32 - n)" by (simp add: P_def Q_def)
qed

lemma shr_chain_val:
  assumes "carry_chain (shr_step n) ws c = (z, c')" and "0 < n" and "n \<le> 32" and "r < 2 ^ n"
    and "unat c = r * 2 ^ (32 - n)"
  shows "mp_val (rev z) = (r * WB ^ length ws + mp_val (rev ws)) div 2 ^ n"
  using assms(1,4,5)
proof (induction ws arbitrary: c z r)
  case (Cons w ws)
  obtain v c1 where v: "shr_step n w c = (v, c1)" by fastforce
  obtain z1 where z1: "carry_chain (shr_step n) ws c1 = (z1, c')" "z = v # z1"
    using carry_chain_ConsE [OF Cons.prems(1) v] by blast
  define t where "t = r * WB + unat w"
  have V: "unat v = t div 2 ^ n" "unat c1 = t mod 2 ^ n * 2 ^ (32 - n)"
    using shr_step_val [OF assms(2,3) Cons.prems(2,3) v] by (simp_all add: t_def)
  have I: "mp_val (rev z1) = (t mod 2 ^ n * WB ^ length ws + mp_val (rev ws)) div 2 ^ n"
    using Cons.IH [OF z1(1) _ V(2)] by simp
  have l: "length z1 = length ws" using length_carry_chain [OF z1(1)] .
  have "r * WB ^ length (w # ws) + mp_val (rev (w # ws)) = t * WB ^ length ws + mp_val (rev ws)"
    by (simp add: t_def mp_val_append algebra_simps)
  also have "\<dots> = (t mod 2 ^ n * WB ^ length ws + mp_val (rev ws)) + (t div 2 ^ n * WB ^ length ws) * 2 ^ n"
  proof -
    have "t * WB ^ length ws = (t mod 2 ^ n + 2 ^ n * (t div 2 ^ n)) * WB ^ length ws" by (simp only: mod_mult_div_eq)
    also have "\<dots> = t mod 2 ^ n * WB ^ length ws + (t div 2 ^ n * WB ^ length ws) * 2 ^ n"
      by (simp only: distrib_right mult_ac)
    finally show ?thesis by simp
  qed
  finally have e: "r * WB ^ length (w # ws) + mp_val (rev (w # ws)) =
    (t mod 2 ^ n * WB ^ length ws + mp_val (rev ws)) + (t div 2 ^ n * WB ^ length ws) * 2 ^ n" .
  show ?case unfolding e using I l V(1) by (simp add: z1(2) mp_val_append mult.commute)
qed simp

section \<open>Correctness of the shifts\<close>

lemma mp_val_zeros_Cons: "mp_val (replicate n 0 @ xs) = WB ^ n * mp_val xs"
  by (simp add: mp_val_append)

text \<open>Shifting up: the words from \<open>word_shift\<close> on hold \<open>ws\<close>, whose value leaves room for the bits.\<close>

lemma shift_bits_up_val:
  assumes "bit_shift < 32" and "bit_shift \<noteq> 0 \<Longrightarrow> word_shift + Suc x_size \<le> length x"
    and "bit_shift \<noteq> 0 \<Longrightarrow> mp_val (take (Suc x_size) (drop word_shift x)) * 2 ^ bit_shift < WB ^ Suc x_size"
  shows "\<exists>x'. shift_bits_up x x_size word_shift bit_shift = Some x' \<and> length x' = length x \<and>
    take word_shift x' = take word_shift x \<and> mp_val (drop word_shift x') =
      (if bit_shift = 0 then mp_val (drop word_shift x)
       else mp_val (take (Suc x_size) (drop word_shift x)) * 2 ^ bit_shift +
         WB ^ Suc x_size * mp_val (drop (word_shift + Suc x_size) x))"
proof (cases "bit_shift = 0")
  case False
  let ?ws = "take (Suc x_size) (drop word_shift x)"
  obtain z c where z: "carry_chain (shl_step bit_shift) ?ws 0 = (z, c)" by fastforce
  have len: "length ?ws = Suc x_size" "length z = Suc x_size"
    using length_carry_chain [OF z] assms(2) [OF False] by simp_all
  have v: "mp_val z + WB ^ Suc x_size * unat c = mp_val ?ws * 2 ^ bit_shift"
    using shl_chain_val [OF z] assms(1) len(1) by simp
  have "unat c = 0"
  proof (rule ccontr)
    assume "unat c \<noteq> 0"
    then have "WB ^ Suc x_size * 1 \<le> WB ^ Suc x_size * unat c" by (intro mult_le_mono2) simp
    then show False using v assms(3) [OF False] by linarith
  qed
  then have z': "mp_val z = mp_val ?ws * 2 ^ bit_shift" using v by simp
  have "shift_bits_up x x_size word_shift bit_shift =
      Some (take word_shift x @ z @ drop (word_shift + Suc x_size) x)"
    using False assms(2) z len by (simp add: shift_bits_up_def mem_slice_in memcpy_at_in)
  then show ?thesis using False assms(2) len z' by (simp add: mp_val_append)
qed (use assms in \<open>simp add: shift_bits_up_def\<close>)

lemma words_bits: "mp_val xs < WB ^ n \<Longrightarrow> bit_shift < 32 \<Longrightarrow> mp_val xs * 2 ^ bit_shift < WB ^ Suc n"
proof -
  assume a: "mp_val xs < WB ^ n" and "bit_shift < 32"
  then have "(2 :: nat) ^ bit_shift \<le> 2 ^ 32" by (intro power_increasing) simp_all
  then have "mp_val xs * 2 ^ bit_shift \<le> mp_val xs * WB" by (intro mult_le_mono2) simp
  also have "\<dots> < WB ^ n * WB" using a by (intro mult_strict_right_mono) simp_all
  finally show ?thesis by (simp add: mult.commute)
qed

lemma shl_val:
  assumes "length x1 = l" and "take word_shift x1 = replicate word_shift 0" and "drop word_shift x1 = xs @ rst"
    and "mp_val rst = 0" and "length xs = x_size" and "bit_shift < 32"
    and "word_shift + x_size + (if bit_shift = 0 then 0 else 1) \<le> l"
  shows "\<exists>x'. shift_bits_up x1 x_size word_shift bit_shift = Some x' \<and> length x' = l \<and>
    mp_val x' = mp_val xs * 2 ^ (32 * word_shift + bit_shift)"
proof -
  have lim: "word_shift + Suc x_size \<le> length x1" if "bit_shift \<noteq> 0" using that assms(1,7) by simp
  have r0: "mp_val (take 1 rst) = 0" "mp_val (drop 1 rst) = 0"
    using assms(4) by (auto simp: mp_val_0 dest: in_set_takeD in_set_dropD)
  have t: "take (Suc x_size) (drop word_shift x1) = xs @ take 1 rst" using assms(3,5) by simp
  have tv: "mp_val (take (Suc x_size) (drop word_shift x1)) = mp_val xs" using r0 by (simp add: t mp_val_append)
  have d: "drop (word_shift + Suc x_size) x1 = drop 1 rst"
    using assms(3,5) by (metis One_nat_def add.commute add_diff_cancel_left' diff_is_0_eq' drop0 drop_append drop_drop le_add1 plus_1_eq_Suc self_append_conv2 drop_all)
  have lt: "mp_val xs * 2 ^ bit_shift < WB ^ Suc x_size"
    using words_bits [of xs x_size bit_shift] mp_val_less [of xs] assms(5,6) by simp
  obtain x' where x': "shift_bits_up x1 x_size word_shift bit_shift = Some x'" "length x' = length x1"
    "take word_shift x' = take word_shift x1"
    "mp_val (drop word_shift x') = (if bit_shift = 0 then mp_val (drop word_shift x1)
       else mp_val xs * 2 ^ bit_shift + WB ^ Suc x_size * mp_val (drop 1 rst))"
    using shift_bits_up_val [OF assms(6) lim, unfolded tv d] lt by blast
  have "mp_val (drop word_shift x') = mp_val xs * 2 ^ bit_shift"
    using x'(4) r0 assms(3,4) by (auto simp: mp_val_append)
  moreover have "mp_val x' = WB ^ word_shift * mp_val (drop word_shift x')"
    using mp_val_split [of word_shift x'] x'(2,3) assms(1,2,7) by simp
  moreover have "WB ^ word_shift = 2 ^ (32 * word_shift)" by (simp add: power_mult)
  ultimately show ?thesis using x'(1,2) assms(1) by (intro exI [of _ x']) (simp add: power_add mult_ac)
qed

lemma drop_zeros: "mp_val (drop m x) = 0 \<Longrightarrow> m \<le> n \<Longrightarrow> mp_val (drop n x) = 0"
  by (metis drop_drop in_set_dropD le_add_diff_inverse2 mp_val_0)

lemma take_value: "mp_val (drop m x) = 0 \<Longrightarrow> m \<le> length x \<Longrightarrow> mp_val (take m x) = mp_val x"
  using mp_val_split [of m x] by simp

lemma shl1_val:
  assumes "x_size \<le> length x" and "mp_val (drop x_size x) = 0" and "bit_shift < 32"
    and "word_shift + x_size + (if bit_shift = 0 then 0 else 1) \<le> length x"
  shows "\<exists>x'. bigint_shl1 x x_size word_shift bit_shift = Some x' \<and> length x' = length x \<and>
    mp_val x' = mp_val x * 2 ^ (32 * word_shift + bit_shift)"
proof -
  let ?xs = "take x_size x" and ?r = "drop (word_shift + x_size) x"
  define x1 where "x1 = replicate word_shift 0 @ ?xs @ ?r"
  have z: "mp_val ?r = 0" by (rule drop_zeros [OF assms(2)]) simp
  have v: "mp_val ?xs = mp_val x" by (rule take_value [OF assms(2,1)])
  have l: "length x1 = length x" using assms(4) by (simp add: x1_def)
  have x1: "(if word_shift = 0 then Some x else do {
              xs \<leftarrow> mem_slice x 0 x_size;
              x' \<leftarrow> memcpy_at x word_shift xs;
              memcpy_at x' 0 (replicate word_shift 0) }) = Some x1"
    using assms(1,4) by (simp add: x1_def mem_slice_in memcpy_at_in)
  obtain x' where "shift_bits_up x1 x_size word_shift bit_shift = Some x'" "length x' = length x"
    "mp_val x' = mp_val ?xs * 2 ^ (32 * word_shift + bit_shift)"
    using shl_val [OF l _ _ z _ assms(3,4), of ?xs] assms(1) by (auto simp: x1_def)
  with v x1 show ?thesis by (simp add: bigint_shl1_def)
qed

lemma shl2_val:
  assumes "x_size \<le> length x" and "mp_val (drop x_size x) = 0" and "bit_shift < 32"
    and "word_shift + x_size + (if bit_shift = 0 then 0 else 1) \<le> n"
  shows "\<exists>y. bigint_shl2 (replicate n 0) x x_size word_shift bit_shift = Some y \<and> length y = n \<and>
    mp_val y = mp_val x * 2 ^ (32 * word_shift + bit_shift)"
proof -
  let ?xs = "take x_size x"
  define y1 where "y1 = replicate word_shift 0 @ ?xs @ replicate (n - (word_shift + x_size)) 0"
  have l: "length y1 = n" using assms(1,4) by (simp add: y1_def)
  have "memcpy_at (replicate n 0) word_shift ?xs = Some y1"
    using assms(1,4) by (simp add: y1_def memcpy_at_in min_absorb1)
  moreover obtain y where "shift_bits_up y1 x_size word_shift bit_shift = Some y" "length y = n"
    "mp_val y = mp_val ?xs * 2 ^ (32 * word_shift + bit_shift)"
    using shl_val [OF l _ _ _ _ assms(3,4), of ?xs "replicate (n - (word_shift + x_size)) 0"] assms(1)
    by (auto simp: y1_def)
  moreover have "mp_val ?xs = mp_val x" by (rule take_value [OF assms(2,1)])
  ultimately show ?thesis using assms(1) by (simp add: bigint_shl2_def mem_slice_in)
qed

lemma shift_bits_down_val:
  assumes "bit_shift < 32" and "n \<le> length x" and "mp_val (drop n x) = 0"
  shows "\<exists>x'. shift_bits_down x n bit_shift = Some x' \<and> length x' = length x \<and> mp_val x' = mp_val x div 2 ^ bit_shift"
proof (cases "bit_shift = 0")
  case False
  obtain z c where z: "carry_chain (shr_step bit_shift) (rev (take n x)) 0 = (z, c)" by fastforce
  have l: "length z = n" using length_carry_chain [OF z] assms(2) by simp
  have "mp_val (rev z) = mp_val (take n x) div 2 ^ bit_shift"
    using shr_chain_val [OF z, of 0] False assms(1) by simp
  moreover have "mp_val (take n x) = mp_val x" by (rule take_value [OF assms(3,2)])
  moreover have "shift_bits_down x n bit_shift = Some (rev z @ drop n x)"
    using False assms(2) z l by (simp add: shift_bits_down_def mem_slice_in memcpy_at_in)
  ultimately show ?thesis using l assms(2,3) by (simp add: mp_val_append)
qed (simp add: shift_bits_down_def)

lemma dropped_words:
  assumes "x_size \<le> length x" and "mp_val (drop x_size x) = 0" and "word_shift \<le> x_size"
  shows "mp_val (take (x_size - word_shift) (drop word_shift x)) = mp_val x div WB ^ word_shift"
proof -
  let ?xs = "take (x_size - word_shift) (drop word_shift x)"
  have "mp_val (take x_size x) = mp_val (take word_shift x) + WB ^ word_shift * mp_val ?xs"
    using mp_val_split [of word_shift "take x_size x"] assms(1,3) by (simp add: drop_take min_absorb1)
  moreover have "mp_val (take word_shift x) < WB ^ word_shift"
    using mp_val_less [of "take word_shift x"] assms(1,3) by simp
  ultimately show ?thesis
    using take_value [OF assms(2,1)] by (metis add.commute div_mult_self2 div_less add_0_right power_not_zero zero_neq_numeral)
qed

lemma shr1_val:
  assumes "x_size \<le> length x" and "mp_val (drop x_size x) = 0" and "bit_shift < 32"
  shows "\<exists>x'. bigint_shr1 x x_size word_shift bit_shift = Some x' \<and> length x' = length x \<and>
    mp_val x' = mp_val x div 2 ^ (32 * word_shift + bit_shift)"
proof -
  have e: "(2 :: nat) ^ (32 * word_shift + bit_shift) = WB ^ word_shift * 2 ^ bit_shift"
    by (simp add: power_add power_mult)
  have lt: "mp_val x < WB ^ x_size"
    using mp_val_less [of "take x_size x"] take_value [OF assms(2,1)] assms(1) by simp
  show ?thesis
  proof (cases "x_size < word_shift")
    case True
    then have "WB ^ x_size \<le> WB ^ word_shift" by (intro power_increasing) simp_all
    then have "mp_val x div WB ^ word_shift = 0" by (rule div_less [OF order.strict_trans2 [OF lt]])
    then show ?thesis using True assms(1,2) unfolding e
      by (simp add: bigint_shr1_def memcpy_at_in div_mult2_eq mp_val_append)
  next
    case False
    let ?xs = "take (x_size - word_shift) (drop word_shift x)"
    define x1 where "x1 = ?xs @ replicate word_shift 0 @ drop x_size x"
    have l: "length x1 = length x" using assms(1) False by (simp add: x1_def)
    have m: "(if word_shift = 0 then Some x else do {
                 xs \<leftarrow> mem_slice x word_shift (x_size - word_shift);
                 memcpy_at x 0 (xs @ replicate word_shift 0) }) = Some x1"
    proof (cases "word_shift = 0")
      case nz: False
      have "memcpy_at x 0 (?xs @ replicate word_shift 0) = Some x1"
        using memcpy_at_in [of 0 "?xs @ replicate word_shift 0" x] assms(1) False by (simp add: x1_def)
      then show ?thesis using nz assms(1) False by (simp add: mem_slice_in)
    qed (simp add: x1_def)
    have xs: "mp_val ?xs = mp_val x div WB ^ word_shift" by (rule dropped_words [OF assms(1,2)]) (use False in simp)
    have "drop (x_size - word_shift) x1 = replicate word_shift 0 @ drop x_size x"
      using assms(1) False by (simp add: x1_def)
    then have "mp_val (drop (x_size - word_shift) x1) = 0" using assms(2) by (simp add: mp_val_append)
    then obtain x' where "shift_bits_down x1 (x_size - word_shift) bit_shift = Some x'" "length x' = length x1"
      "mp_val x' = mp_val x1 div 2 ^ bit_shift"
      using shift_bits_down_val [OF assms(3), of "x_size - word_shift" x1] l assms(1)
        diff_le_self [of x_size word_shift] by (metis order.trans)
    moreover have "mp_val x1 = mp_val x div WB ^ word_shift" using assms(2) by (simp add: x1_def mp_val_append xs)
    ultimately show ?thesis using False m l unfolding e by (simp add: bigint_shr1_def div_mult2_eq)
  qed
qed

lemma shr2_val:
  assumes "x_size \<le> length x" and "mp_val (drop x_size x) = 0" and "bit_shift < 32" and "word_shift \<le> x_size"
    and "x_size - word_shift \<le> n"
  shows "\<exists>y. bigint_shr2 (replicate n 0) x x_size word_shift bit_shift = Some y \<and>
    mp_val y = mp_val x div 2 ^ (32 * word_shift + bit_shift)"
proof -
  let ?m = "x_size - word_shift"
  let ?xs = "take ?m (drop word_shift x)"
  define y1 where "y1 = ?xs @ replicate (n - ?m) (0 :: u32)"
  have l: "length ?xs = ?m" "?m \<le> length y1" using assms(1,4,5) by (simp_all add: y1_def)
  have c: "mem_slice x word_shift ?m = Some ?xs" "memcpy_at (replicate n 0) 0 ?xs = Some y1"
    using assms l by (simp_all add: y1_def mem_slice_in memcpy_at_in)
  have "mp_val (drop ?m y1) = 0" using l(1) by (simp add: y1_def)
  from shift_bits_down_val [OF assms(3) l(2) this] obtain y where
    "shift_bits_down y1 ?m bit_shift = Some y" "mp_val y = mp_val y1 div 2 ^ bit_shift" by auto
  moreover have "mp_val y1 = mp_val x div WB ^ word_shift"
    using dropped_words [OF assms(1,2,4)] by (simp add: y1_def mp_val_append)
  moreover have "(2 :: nat) ^ (32 * word_shift + bit_shift) = WB ^ word_shift * 2 ^ bit_shift"
    by (simp add: power_add power_mult)
  ultimately show ?thesis using assms(4) c by (simp add: bigint_shr2_def div_mult2_eq)
qed

end
