(* ===== verification/BigReg.thy ===== *)
theory BigReg
  imports BigDivide MpMul MpShift
begin

text \<open>
  \<^verbatim>\<open>Botan::BigInt\<close> as it is stored: a sign and a register of words that may be longer than the
  number (\<^verbatim>\<open>big_base.cpp\<close>, \<^verbatim>\<open>big_ops2.cpp\<close>).  The compound operators grow the register, pick a
  word-array routine by the number of significant words and adjust the sign.  Each of them
  implements the operation of \<open>BigIntOps\<close> on the number (\<open>bi_abs\<close>), without leaving a register.
  The two operands are different objects.  A fresh allocation is zero.
\<close>

section \<open>Registers\<close>

record big_reg =
  br_neg :: bool
  br_reg :: "u32 list"

definition bi_abs :: "big_reg \<Rightarrow> bigint" where
  "bi_abs x = \<lparr> bi_neg = br_neg x, bi_mag = mp_val (br_reg x) \<rparr>"

function skip_four :: "u32 list \<Rightarrow> nat \<Rightarrow> nat" where
  "skip_four x top_set =
     (if 4 \<le> top_set \<and> x ! (top_set - 1) OR x ! (top_set - 2) OR x ! (top_set - 3) OR x ! (top_set - 4) = 0
      then skip_four x (top_set - 4) else top_set)"
  by pat_completeness auto
termination by (relation "measure snd") auto

declare skip_four.simps [simp del]

fun skip_one :: "u32 list \<Rightarrow> nat \<Rightarrow> nat" where
  "skip_one x 0 = 0"
| "skip_one x (Suc n) = (if x ! n = 0 then skip_one x n else Suc n)"

definition reg_sig_words :: "u32 list \<Rightarrow> nat" where
  "reg_sig_words x = skip_one x (skip_four x (length x))"

definition reg_word_at :: "u32 list \<Rightarrow> nat \<Rightarrow> u32" where
  "reg_word_at x n = (if n < length x then x ! n else 0)"

definition grow_to :: "nat \<Rightarrow> u32 list \<Rightarrow> u32 list" where
  "grow_to n x = (if length x < n then x @ replicate (round_up n 8 - length x) 0 else x)"

definition is_zero :: "u32 list \<Rightarrow> bool" where
  "is_zero x = list_all (\<lambda>w. w = 0) x"

definition reg_set_sign :: "bool \<Rightarrow> big_reg \<Rightarrow> big_reg" where
  "reg_set_sign neg x = (if is_zero (br_reg x) then x\<lparr> br_neg := False \<rparr> else x\<lparr> br_neg := neg \<rparr>)"

definition reg_clear :: "u32 list \<Rightarrow> u32 list" where
  "reg_clear x = replicate (length x) 0"

section \<open>Operators\<close>

definition reg_cmp :: "big_reg \<Rightarrow> big_reg \<Rightarrow> bool \<Rightarrow> int option" where
  "reg_cmp x n check_signs = do {
     c \<leftarrow> bigint_cmp (br_reg x) (reg_sig_words (br_reg x)) (br_reg n) (reg_sig_words (br_reg n));
     Some (if check_signs then
             if \<not> br_neg n \<and> br_neg x then - 1
             else if br_neg n \<and> \<not> br_neg x then 1
             else if br_neg n \<and> br_neg x then - c
             else c
           else c) }"

definition reg_add :: "big_reg \<Rightarrow> big_reg \<Rightarrow> big_reg option" where
  "reg_add x y = do {
     let x_sw = reg_sig_words (br_reg x);
     let y_sw = reg_sig_words (br_reg y);
     let reg_size = max x_sw y_sw + 1;
     let x = x\<lparr> br_reg := grow_to reg_size (br_reg x) \<rparr>;
     if br_neg x = br_neg y then do {
       r \<leftarrow> bigint_add2 (br_reg x) (reg_size - 1) (br_reg y) y_sw;
       Some (x\<lparr> br_reg := r \<rparr>) }
     else do {
       relative_size \<leftarrow> bigint_cmp (br_reg x) x_sw (br_reg y) y_sw;
       if relative_size < 0 then do {
         z \<leftarrow> bigint_sub3 (replicate (reg_size - 1) 0) (br_reg y) (reg_size - 1) (br_reg x) x_sw;
         r \<leftarrow> memcpy_at (br_reg x) 0 z;
         Some (reg_set_sign (br_neg y) (x\<lparr> br_reg := r \<rparr>)) }
       else if relative_size = 0 then Some (reg_set_sign False (x\<lparr> br_reg := reg_clear (br_reg x) \<rparr>))
       else do {
         r \<leftarrow> bigint_sub2 (br_reg x) x_sw (br_reg y) y_sw;
         Some (x\<lparr> br_reg := r \<rparr>) } } }"

definition reg_sub :: "big_reg \<Rightarrow> big_reg \<Rightarrow> big_reg option" where
  "reg_sub x y = do {
     let x_sw = reg_sig_words (br_reg x);
     let y_sw = reg_sig_words (br_reg y);
     relative_size \<leftarrow> bigint_cmp (br_reg x) x_sw (br_reg y) y_sw;
     let reg_size = max x_sw y_sw + 1;
     let x = x\<lparr> br_reg := grow_to reg_size (br_reg x) \<rparr>;
     if relative_size < 0 then do {
       r \<leftarrow> (if br_neg x = br_neg y then do {
               z \<leftarrow> bigint_sub3 (replicate (reg_size - 1) 0) (br_reg y) (reg_size - 1) (br_reg x) x_sw;
               memcpy_at (br_reg x) 0 z }
             else bigint_add2 (br_reg x) (reg_size - 1) (br_reg y) y_sw);
       Some (reg_set_sign (\<not> br_neg y) (x\<lparr> br_reg := r \<rparr>)) }
     else if relative_size = 0 then
       (if br_neg x = br_neg y then Some (reg_set_sign False (x\<lparr> br_reg := reg_clear (br_reg x) \<rparr>))
        else do { r \<leftarrow> bigint_shl1 (br_reg x) x_sw 0 1; Some (x\<lparr> br_reg := r \<rparr>) })
     else do {
       r \<leftarrow> (if br_neg x = br_neg y then bigint_sub2 (br_reg x) x_sw (br_reg y) y_sw
             else bigint_add2 (br_reg x) (reg_size - 1) (br_reg y) y_sw);
       Some (x\<lparr> br_reg := r \<rparr>) } }"

definition reg_mul :: "big_reg \<Rightarrow> big_reg \<Rightarrow> big_reg option" where
  "reg_mul x y = do {
     let x_sw = reg_sig_words (br_reg x);
     let y_sw = reg_sig_words (br_reg y);
     let x = reg_set_sign (br_neg x \<noteq> br_neg y) x;
     if x_sw = 0 \<or> y_sw = 0 then Some (reg_set_sign False (x\<lparr> br_reg := reg_clear (br_reg x) \<rparr>))
     else do {
       r \<leftarrow>
         (if x_sw = 1 then
            let reg = grow_to (y_sw + 2) (br_reg x) in bigint_linmul3 reg (br_reg y) y_sw (reg_word_at reg 0)
          else if y_sw = 1 then
            bigint_linmul2 (grow_to (x_sw + 2) (br_reg x)) x_sw (reg_word_at (br_reg y) 0)
          else
            let reg = grow_to (length (br_reg x) + length (br_reg y)) (br_reg x) in do {
              z \<leftarrow> mem_slice reg 0 x_sw;
              bigint_mul reg (length reg) (replicate (length reg) 0) z (length z) x_sw
                (br_reg y) (length (br_reg y)) y_sw });
       Some (x\<lparr> br_reg := r \<rparr>) } }"

definition reg_shl :: "big_reg \<Rightarrow> nat \<Rightarrow> big_reg option" where
  "reg_shl x shift =
     (if shift = 0 then Some x
      else do {
        let shift_words = shift div 32;
        let shift_bits = shift mod 32;
        let words = reg_sig_words (br_reg x);
        r \<leftarrow> bigint_shl1 (grow_to (words + shift_words + (if shift_bits = 0 then 0 else 1)) (br_reg x))
               words shift_words shift_bits;
        Some (x\<lparr> br_reg := r \<rparr>) })"

definition reg_shr :: "big_reg \<Rightarrow> nat \<Rightarrow> big_reg option" where
  "reg_shr x shift =
     (if shift = 0 then Some x
      else do {
        r \<leftarrow> bigint_shr1 (br_reg x) (reg_sig_words (br_reg x)) (shift div 32) (shift mod 32);
        let x = x\<lparr> br_reg := r \<rparr>;
        Some (if is_zero (br_reg x) then reg_set_sign False x else x) })"

section \<open>Significant words\<close>

lemma skip_four_spec:
  "n \<le> length x \<Longrightarrow> skip_four x n \<le> n \<and> (\<forall>i. skip_four x n \<le> i \<longrightarrow> i < n \<longrightarrow> x ! i = 0)"
proof (induction x n rule: skip_four.induct)
  case (1 x n)
  let ?c = "4 \<le> n \<and> x ! (n - 1) OR x ! (n - 2) OR x ! (n - 3) OR x ! (n - 4) = 0"
  have e: "skip_four x n = (if ?c then skip_four x (n - 4) else n)" by (rule skip_four.simps)
  show ?case
  proof (cases ?c)
    case True
    then have z: "x ! (n - 1) = 0" "x ! (n - 2) = 0" "x ! (n - 3) = 0" "x ! (n - 4) = 0"
      by (simp_all add: or_eq_0_iff)
    have I: "skip_four x (n - 4) \<le> n - 4" "\<And>i. skip_four x (n - 4) \<le> i \<Longrightarrow> i < n - 4 \<Longrightarrow> x ! i = 0"
      using "1.IH" [OF True] "1.prems" by auto
    have "x ! i = 0" if "skip_four x (n - 4) \<le> i" "i < n" for i
    proof (cases "i < n - 4")
      case False
      then have "i = n - 1 \<or> i = n - 2 \<or> i = n - 3 \<or> i = n - 4" using that(2) True by linarith
      then show ?thesis using z by auto
    qed (use I that in blast)
    moreover have "skip_four x n = skip_four x (n - 4)" by (rule trans [OF e if_P [OF True]])
    ultimately show ?thesis using I(1) by simp
  next
    case False
    then have "skip_four x n = n" by (intro trans [OF e if_not_P])
    then show ?thesis by simp
  qed
qed

lemma skip_one_spec:
  "skip_one x n \<le> n \<and> (\<forall>i. skip_one x n \<le> i \<longrightarrow> i < n \<longrightarrow> x ! i = 0) \<and> (0 < skip_one x n \<longrightarrow> x ! (skip_one x n - 1) \<noteq> 0)"
  by (induction n) (auto simp: less_Suc_eq)

lemma sig_spec:
  shows "reg_sig_words x \<le> length x" and "mp_val (drop (reg_sig_words x) x) = 0"
    and "0 < reg_sig_words x \<Longrightarrow> x ! (reg_sig_words x - 1) \<noteq> 0"
proof -
  let ?n = "skip_four x (length x)"
  note F = skip_four_spec [OF order.refl, of x] and O = skip_one_spec [of x ?n]
  show le: "reg_sig_words x \<le> length x" using F O unfolding reg_sig_words_def by linarith
  show "0 < reg_sig_words x \<Longrightarrow> x ! (reg_sig_words x - 1) \<noteq> 0" using O by (simp add: reg_sig_words_def)
  have "x ! i = 0" if "reg_sig_words x \<le> i" "i < length x" for i
    using that F O unfolding reg_sig_words_def by (metis not_less)
  then have "\<forall>w \<in> set (drop (reg_sig_words x) x). w = 0"
    using le by (auto simp: in_set_conv_nth)
  then show "mp_val (drop (reg_sig_words x) x) = 0" by (simp add: mp_val_0)
qed

lemma bi_abs_simps [simp]: "bi_neg (bi_abs x) = br_neg x" "bi_mag (bi_abs x) = mp_val (br_reg x)"
  by (simp_all add: bi_abs_def)

lemma sig_take: "mp_val (take (reg_sig_words x) x) = mp_val x"
  by (rule take_value [OF sig_spec(2,1)])

lemma sig_0: "reg_sig_words x = 0 \<longleftrightarrow> mp_val x = 0"
proof
  assume "reg_sig_words x = 0"
  then show "mp_val x = 0" using sig_spec(2) [of x] by simp
next
  assume z: "mp_val x = 0"
  show "reg_sig_words x = 0"
  proof (rule ccontr)
    assume "reg_sig_words x \<noteq> 0"
    then have "x ! (reg_sig_words x - 1) \<noteq> 0" "reg_sig_words x - 1 < length x"
      using sig_spec(1,3) [of x] by (simp_all add: Suc_diff_Suc less_eq_Suc_le)
    then show False using z by (auto simp: mp_val_0 dest: nth_mem)
  qed
qed

lemma sig_lower: "0 < reg_sig_words x \<Longrightarrow> WB ^ (reg_sig_words x - 1) \<le> mp_val x"
proof -
  assume p: "0 < reg_sig_words x"
  define n where "n = reg_sig_words x - 1"
  have n: "n < length x" "x ! n \<noteq> 0" using sig_spec(1,3) [of x] p by (simp_all add: n_def)
  have v: "mp_val x = mp_val (take n x) + WB ^ n * mp_val (x ! n # drop (Suc n) x)"
    using mp_val_split [of n x] n(1) by (simp add: Cons_nth_drop_Suc)
  have "1 \<le> mp_val (x ! n # drop (Suc n) x)" using n(2) by (simp add: Suc_le_eq unat_gt_0)
  from mult_le_mono2 [OF this] have "WB ^ n * 1 \<le> WB ^ n * mp_val (x ! n # drop (Suc n) x)" .
  with v have "WB ^ n \<le> mp_val x" by linarith
  then show ?thesis unfolding n_def .
qed

lemma sig_upper: "mp_val x < WB ^ reg_sig_words x"
  using mp_val_less [of "take (reg_sig_words x) x"] sig_take [of x] sig_spec(1) [of x] by simp

lemma sig_mono: "mp_val x \<le> mp_val y \<Longrightarrow> reg_sig_words x \<le> reg_sig_words y"
proof (rule ccontr)
  assume le: "mp_val x \<le> mp_val y" and "\<not> reg_sig_words x \<le> reg_sig_words y"
  then have "reg_sig_words y \<le> reg_sig_words x - 1" "0 < reg_sig_words x" by simp_all
  then have "WB ^ reg_sig_words y \<le> WB ^ (reg_sig_words x - 1)" by (intro power_increasing) simp_all
  then show False using sig_lower [OF \<open>0 < reg_sig_words x\<close>] sig_upper [of y] le by linarith
qed

lemmas round_up_8 = round_up_ge [of _ 8]

lemma grow_to_props:
  shows "mp_val (grow_to n x) = mp_val x" and "n \<le> length (grow_to n x)" and "length x \<le> length (grow_to n x)"
    and "m \<le> length x \<Longrightarrow> take m (grow_to n x) = take m x"
    and "mp_val (drop m x) = 0 \<Longrightarrow> mp_val (drop m (grow_to n x)) = 0"
proof -
  have r: "n \<le> round_up n 8" by (rule round_up_8)
  show "mp_val (grow_to n x) = mp_val x" "n \<le> length (grow_to n x)" "length x \<le> length (grow_to n x)"
    "m \<le> length x \<Longrightarrow> take m (grow_to n x) = take m x"
    "mp_val (drop m x) = 0 \<Longrightarrow> mp_val (drop m (grow_to n x)) = 0"
    using r by (simp_all add: grow_to_def mp_val_append)
qed

lemma is_zero_val: "is_zero x \<longleftrightarrow> mp_val x = 0"
  by (simp add: is_zero_def mp_val_0 list_all_iff)

lemma abs_set_sign: "bi_abs (reg_set_sign neg x) = set_sign neg (bi_abs x)"
  by (simp add: reg_set_sign_def set_sign_def is_zero_val bi_abs_def)

lemma abs_update: "mp_val r = v \<Longrightarrow> bi_abs (x\<lparr> br_reg := r \<rparr>) = (bi_abs x)\<lparr> bi_mag := v \<rparr>"
  by (simp add: bi_abs_def)

lemma mp_val_clear [simp]: "mp_val (reg_clear x) = 0"
  by (simp add: reg_clear_def)

lemma reg_cmp_val:
  "\<exists>c. bigint_cmp x (reg_sig_words x) y (reg_sig_words y) = Some c \<and>
     c = (if mp_val x < mp_val y then - 1 else if mp_val x = mp_val y then 0 else 1)"
  using cmp_val [OF sig_spec(1) [of x] sig_spec(1) [of y]] by (auto simp: sig_take sgn_if)

section \<open>The operators implement the arithmetic\<close>

lemma grown_cmp:
  "bigint_cmp (grow_to n x) (reg_sig_words x) y (reg_sig_words y) =
     Some (if mp_val x < mp_val y then - 1 else if mp_val x = mp_val y then 0 else 1)"
proof -
  have "reg_sig_words x \<le> length (grow_to n x)" using grow_to_props(3) [of x n] sig_spec(1) [of x] by simp
  from cmp_val [OF this sig_spec(1) [of y]] show ?thesis
    using grow_to_props(4) [OF sig_spec(1), of x n] by (simp add: sig_take sgn_if)
qed

text \<open>The three ways to combine the registers, on a grown first operand.\<close>

lemma grown_add:
  fixes x y :: "u32 list"
  defines "n \<equiv> max (reg_sig_words x) (reg_sig_words y)"
  shows "\<exists>r. bigint_add2 (grow_to (n + 1) x) n y (reg_sig_words y) = Some r \<and> mp_val r = mp_val x + mp_val y"
proof -
  let ?g = "grow_to (n + 1) x"
  have l: "n < length ?g" using grow_to_props(2) [of "n + 1" x] by simp
  have z: "mp_val (drop (reg_sig_words x) ?g) = 0" by (rule grow_to_props(5) [OF sig_spec(2)])
  have zn: "mp_val (drop n ?g) = 0" by (rule drop_zeros [OF z]) (simp add: n_def)
  then have g0: "?g ! n = 0" "mp_val (drop (Suc n) ?g) = 0"
    using l by (simp_all add: Cons_nth_drop_Suc [symmetric] unat_eq_0)
  have t: "mp_val (take n ?g) = mp_val x" using take_value [OF zn] l grow_to_props(1) [of "n + 1" x] by simp
  obtain w where "bigint_add2 ?g n y (reg_sig_words y) = Some (w @ drop (Suc n) ?g)"
    "mp_val w = mp_val (take n ?g) + mp_val (take (reg_sig_words y) y)"
    using add2_val [of "reg_sig_words y" n ?g y] l g0 sig_spec(1) [of y] by (auto simp: n_def)
  then show ?thesis using t g0 by (simp add: mp_val_append sig_take)
qed

lemma grown_sub:
  assumes "mp_val y < mp_val x"
  shows "\<exists>r. bigint_sub2 (grow_to n x) (reg_sig_words x) y (reg_sig_words y) = Some r \<and> mp_val r = mp_val x - mp_val y"
proof -
  let ?g = "grow_to n x"
  have le: "reg_sig_words y \<le> reg_sig_words x" using sig_mono assms by simp
  have l: "reg_sig_words x \<le> length ?g" using grow_to_props(3) [of x n] sig_spec(1) [of x] by simp
  have t: "mp_val (take (reg_sig_words x) ?g) = mp_val x"
    using grow_to_props(4) [OF sig_spec(1), of x n] by (simp add: sig_take)
  have "mp_val (drop (reg_sig_words x) ?g) = 0" by (rule grow_to_props(5) [OF sig_spec(2)])
  then show ?thesis using sub2_val [OF le l sig_spec(1)] t assms by (auto simp: sig_take mp_val_append)
qed

lemma grown_sub_reversed:
  fixes x y :: "u32 list"
  defines "n \<equiv> max (reg_sig_words x) (reg_sig_words y)"
  assumes "mp_val x < mp_val y"
  shows "\<exists>z r. bigint_sub3 (replicate n 0) y n (grow_to (n + 1) x) (reg_sig_words x) = Some z \<and>
    memcpy_at (grow_to (n + 1) x) 0 z = Some r \<and> mp_val r = mp_val y - mp_val x"
proof -
  let ?g = "grow_to (n + 1) x"
  have n: "n = reg_sig_words y" using sig_mono [of x y] assms(2) by (simp add: n_def)
  have l: "reg_sig_words x \<le> length ?g" using grow_to_props(3) [of x "n + 1"] sig_spec(1) [of x] by simp
  have t: "mp_val (take (reg_sig_words x) ?g) = mp_val x"
    using grow_to_props(4) [OF sig_spec(1), of x "n + 1"] by (simp add: sig_take)
  have xy: "reg_sig_words x \<le> n" by (simp add: n_def)
  have yl: "n \<le> length y" and ty: "mp_val (take n y) = mp_val y" using n sig_spec(1) [of y] sig_take [of y] by simp_all
  obtain w where w: "bigint_sub3 (replicate n 0) y n ?g (reg_sig_words x) = Some w" "length w = n"
    "mp_val w = mp_val y - mp_val x"
    using sub3_val [OF xy yl l, of "replicate n 0"] t ty assms(2) by auto
  have lg: "n \<le> length ?g" using grow_to_props(2) [of "n + 1" x] by simp
  have "mp_val (drop n ?g) = 0" by (rule drop_zeros [OF grow_to_props(5) [OF sig_spec(2)] xy])
  moreover have "memcpy_at ?g 0 w = Some (w @ drop n ?g)" using memcpy_at_in [of 0 w ?g] w(2) lg by simp
  ultimately show ?thesis using w by (auto simp: mp_val_append)
qed

lemma reg_add_val: "\<exists>r. reg_add x y = Some r \<and> bi_abs r = bi_add (bi_abs x) (bi_abs y)"
proof (cases "br_neg x = br_neg y")
  case True
  then show ?thesis
    using grown_add [of "br_reg x" "br_reg y"] by (auto simp: reg_add_def Let_def bi_add_def abs_update)
next
  case False
  note s = grown_sub_reversed [of "br_reg x" "br_reg y"] grown_sub [of "br_reg y" "br_reg x" "max (reg_sig_words (br_reg x)) (reg_sig_words (br_reg y)) + 1"]
  show ?thesis
    using False s by (auto simp: reg_add_def Let_def bi_add_def abs_update abs_set_sign grown_cmp)
qed

lemma reg_double:
  "\<exists>r. bigint_shl1 (grow_to (reg_sig_words x + 1) x) (reg_sig_words x) 0 1 = Some r \<and> mp_val r = push_bit 1 (mp_val x)"
proof -
  let ?g = "grow_to (reg_sig_words x + 1) x"
  have "reg_sig_words x + 1 \<le> length ?g" by (rule grow_to_props(2))
  moreover have "mp_val (drop (reg_sig_words x) ?g) = 0" by (rule grow_to_props(5) [OF sig_spec(2)])
  ultimately show ?thesis
    using shl1_val [of "reg_sig_words x" ?g 1 0] grow_to_props(1) [of "reg_sig_words x + 1" x]
    by (auto simp: push_bit_eq_mult)
qed

lemma sig_eq: "mp_val x = mp_val y \<Longrightarrow> reg_sig_words x = reg_sig_words y"
  using sig_mono [of x y] sig_mono [of y x] by simp

lemma same_cmp: "bigint_cmp x (reg_sig_words x) y (reg_sig_words y) =
     Some (if mp_val x < mp_val y then - 1 else if mp_val x = mp_val y then 0 else 1)"
  using reg_cmp_val [of x y] by auto

lemma reg_sub_val: "\<exists>r. reg_sub x y = Some r \<and> bi_abs r = bi_sub (bi_abs x) (bi_abs y)"
proof -
  note s = grown_sub_reversed [of "br_reg x" "br_reg y"] grown_sub [of "br_reg y" "br_reg x" "max (reg_sig_words (br_reg x)) (reg_sig_words (br_reg y)) + 1"]
    grown_add [of "br_reg x" "br_reg y"]
  consider (less) "mp_val (br_reg x) < mp_val (br_reg y)" | (same) "mp_val (br_reg x) = mp_val (br_reg y)"
    | (more) "mp_val (br_reg y) < mp_val (br_reg x)" by linarith
  then show ?thesis
  proof cases
    case less
    then show ?thesis using s(1,3)
      by (auto simp: reg_sub_def Let_def bi_sub_def abs_update abs_set_sign same_cmp)
  next
    case same
    then show ?thesis using reg_double [of "br_reg x"] sig_eq [OF same] same_cmp [of "br_reg x" "br_reg y"]
      by (auto simp: reg_sub_def Let_def bi_sub_def abs_update abs_set_sign)
  next
    case more
    then show ?thesis using s(2,3)
      by (auto simp: reg_sub_def Let_def bi_sub_def abs_update abs_set_sign same_cmp)
  qed
qed

lemma stores_zeros:
  assumes "stores (Some r) z n v" and "m \<le> n" and "mp_val (drop m z) = 0"
  shows "mp_val r = v"
proof -
  obtain w where w: "r = w @ drop (length w) z" "n \<le> length w" "mp_val w = v"
    using assms(1) by (auto simp: stores_def)
  have "mp_val (drop (length w) z) = 0" by (rule drop_zeros [OF assms(3)]) (use w(2) assms(2) in simp)
  then show ?thesis using w by (simp add: mp_val_append)
qed

lemma stores_SomeE: "stores r z n v \<Longrightarrow> (\<And>q. r = Some q \<Longrightarrow> stores (Some q) z n v \<Longrightarrow> P) \<Longrightarrow> P"
  by (auto simp: stores_def)

lemma reg_shl_val: "\<exists>r. reg_shl x n = Some r \<and> bi_abs r = bi_shl (bi_abs x) n"
proof -
  let ?x = "br_reg x"
  let ?m = "reg_sig_words ?x + n div 32 + (if n mod 32 = 0 then 0 else 1)"
  let ?g = "grow_to ?m ?x"
  have l: "?m \<le> length ?g" by (rule grow_to_props(2))
  have z: "mp_val (drop (reg_sig_words ?x) ?g) = 0" by (rule grow_to_props(5) [OF sig_spec(2)])
  have "reg_sig_words ?x \<le> length ?g" "n div 32 + reg_sig_words ?x + (if n mod 32 = 0 then 0 else 1) \<le> length ?g"
    using l by linarith+
  from shl1_val [OF this(1) z _ this(2)] obtain r where
    "bigint_shl1 ?g (reg_sig_words ?x) (n div 32) (n mod 32) = Some r" "mp_val r = mp_val ?g * 2 ^ (32 * (n div 32) + n mod 32)"
    by auto
  then show ?thesis
    by (simp add: reg_shl_def Let_def bi_shl_def abs_update push_bit_eq_mult grow_to_props(1) mult_div_mod_eq)
qed

lemma reg_shr_val: "\<exists>r. reg_shr x n = Some r \<and> bi_abs r = bi_shr (bi_abs x) n"
proof -
  let ?x = "br_reg x"
  obtain r where "bigint_shr1 ?x (reg_sig_words ?x) (n div 32) (n mod 32) = Some r"
    "mp_val r = mp_val ?x div 2 ^ (32 * (n div 32) + n mod 32)"
    using shr1_val [OF sig_spec(1,2) [of ?x], of "n mod 32" "n div 32"] by auto
  then show ?thesis
    by (simp add: reg_shr_def Let_def bi_shr_def abs_update abs_set_sign drop_bit_eq_div is_zero_val mult_div_mod_eq)
qed

text \<open>The magnitude that \<^verbatim>\<open>operator*=\<close> stores, by the number of significant words.\<close>

lemma one_sig_word: "reg_sig_words x = 1 \<Longrightarrow> mp_val x = unat (reg_word_at x 0)"
  using one_word [of x] sig_spec(1,2) [of x] by (simp add: reg_word_at_def)

lemma word_at_grow: "reg_word_at (grow_to n x) i = reg_word_at x i"
  by (auto simp: reg_word_at_def grow_to_def nth_append)

lemma linmul_grown:
  fixes x y :: "u32 list"
  defines "z \<equiv> grow_to (reg_sig_words y + 2) x"
  assumes "reg_sig_words x \<le> reg_sig_words y + 1"
  shows "\<exists>r. bigint_linmul3 z y (reg_sig_words y) w = Some r \<and> mp_val r = mp_val y * unat w"
proof -
  have "reg_sig_words y < length z" using grow_to_props(2) [of "reg_sig_words y + 2" x] by (simp add: z_def)
  from linmul_stores [OF sig_spec(1) this sig_spec(2), of w] obtain r where
    "bigint_linmul3 z y (reg_sig_words y) w = Some r" "stores (Some r) z (Suc (reg_sig_words y)) (mp_val y * unat w)"
    by (rule stores_SomeE)
  moreover have "mp_val (drop (reg_sig_words x) z) = 0" unfolding z_def by (rule grow_to_props(5) [OF sig_spec(2)])
  ultimately show ?thesis using stores_zeros [of r z _ _ "reg_sig_words x"] assms(2) by auto
qed

lemma linmul2_grown:
  "\<exists>r. bigint_linmul2 (grow_to (reg_sig_words x + 2) x) (reg_sig_words x) w = Some r \<and> mp_val r = mp_val x * unat w"
proof -
  let ?g = "grow_to (reg_sig_words x + 2) x"
  have l: "reg_sig_words x < length ?g" using grow_to_props(2) [of "reg_sig_words x + 2" x] by simp
  have z: "mp_val (drop (reg_sig_words x) ?g) = 0" by (rule grow_to_props(5) [OF sig_spec(2)])
  from linmul_stores [OF less_imp_le [OF l] l z, of w] obtain r where
    "bigint_linmul2 ?g (reg_sig_words x) w = Some r" "stores (Some r) ?g (Suc (reg_sig_words x)) (mp_val ?g * unat w)"
    unfolding linmul2_eq by (rule stores_SomeE)
  then show ?thesis using stores_zeros [OF _ _ z] grow_to_props(1) [of "reg_sig_words x + 2" x] by auto
qed

lemma mul_grown:
  fixes x y :: "u32 list"
  defines "z \<equiv> grow_to (length x + length y) x"
  assumes "0 < reg_sig_words x" and "0 < reg_sig_words y"
  shows "\<exists>s r. mem_slice z 0 (reg_sig_words x) = Some s \<and>
    bigint_mul z (length z) (replicate (length z) 0) s (length s) (reg_sig_words x) y (length y) (reg_sig_words y) = Some r \<and>
    mp_val r = mp_val x * mp_val y"
proof -
  let ?s = "take (reg_sig_words x) x"
  have l: "length x \<le> length z" "length x + length y \<le> length z"
    unfolding z_def by (rule grow_to_props(3), rule grow_to_props(2))
  have s: "mem_slice z 0 (reg_sig_words x) = Some ?s"
    using l(1) sig_spec(1) [of x] grow_to_props(4) [OF sig_spec(1), of x "length x + length y"]
    by (simp add: mem_slice_in z_def)
  have "length ?s = reg_sig_words x" using sig_spec(1) [of x] by simp
  then have p: "reg_sig_words x \<le> length ?s" "mp_val (drop (reg_sig_words x) ?s) = 0" "length ?s + length y \<le> length z"
    "length (replicate (length z) (0 :: u32)) = length z"
    using l(2) sig_spec(1) [of x] by simp_all
  from mul_stores [OF p(1) sig_spec(1) assms(2,3) p(2) sig_spec(2) p(3,4)] obtain r where
    r: "bigint_mul z (length z) (replicate (length z) 0) ?s (length ?s) (reg_sig_words x) y (length y) (reg_sig_words y) = Some r"
    "stores (Some r) z (reg_sig_words x + reg_sig_words y) (mp_val ?s * mp_val y)" by (rule stores_SomeE)
  have "mp_val (drop (reg_sig_words x) z) = 0" unfolding z_def by (rule grow_to_props(5) [OF sig_spec(2)])
  from stores_zeros [OF r(2) _ this] s r(1) show ?thesis by (auto simp: sig_take)
qed

lemma reg_mul_val: "\<exists>r. reg_mul x y = Some r \<and> bi_abs r = bi_mul (bi_abs x) (bi_abs y)"
proof -
  let ?x = "br_reg x" and ?y = "br_reg y"
  have same: "br_reg (reg_set_sign b x) = ?x" for b by (simp add: reg_set_sign_def)
  consider (zero) "reg_sig_words ?x = 0 \<or> reg_sig_words ?y = 0"
    | (one) "reg_sig_words ?x = 1" "0 < reg_sig_words ?y"
    | (two) "1 < reg_sig_words ?x" "reg_sig_words ?y = 1"
    | (more) "1 < reg_sig_words ?x" "1 < reg_sig_words ?y" by linarith
  then show ?thesis
  proof cases
    case zero
    then show ?thesis
      using sig_0 [of ?x] sig_0 [of ?y]
      by (auto simp: reg_mul_def bi_mul_def Let_def abs_set_sign abs_update)
  next
    case one
    then have "0 < mp_val ?x" "0 < mp_val ?y" using sig_0 [of ?x] sig_0 [of ?y] by simp_all
    moreover obtain r where "bigint_linmul3 (grow_to (reg_sig_words ?y + 2) ?x) ?y (reg_sig_words ?y) (reg_word_at ?x 0) = Some r"
      "mp_val r = mp_val ?y * unat (reg_word_at ?x 0)" using linmul_grown [of ?x ?y "reg_word_at ?x 0"] one by auto
    ultimately show ?thesis using one one_sig_word [of ?x]
      by (simp add: reg_mul_def bi_mul_def Let_def same word_at_grow abs_set_sign abs_update mult.commute)
  next
    case two
    then have "0 < mp_val ?x" "0 < mp_val ?y" using sig_0 [of ?x] sig_0 [of ?y] by simp_all
    then show ?thesis using two one_sig_word [of ?y] linmul2_grown [of ?x "reg_word_at ?y 0"]
      by (auto simp: reg_mul_def bi_mul_def Let_def same abs_set_sign abs_update)
  next
    case more
    then have "0 < mp_val ?x" "0 < mp_val ?y" using sig_0 [of ?x] sig_0 [of ?y] by simp_all
    then show ?thesis using more mul_grown [of ?x ?y]
      by (auto simp: reg_mul_def bi_mul_def Let_def same abs_set_sign abs_update)
  qed
qed

lemma reg_cmp_abs: "reg_cmp x n check_signs = Some (bi_cmp (bi_abs x) (bi_abs n) check_signs)"
  by (simp add: reg_cmp_def same_cmp bi_cmp_def Let_def)

end
