(* ===== verification/BigOps.thy ===== *)
theory BigOps
  imports BigReg
begin

text \<open>
  The binary operators of \<^verbatim>\<open>big_ops3.cpp\<close>, which allocate their result, and the number of bits of
  a register (\<^verbatim>\<open>BigInt::bits\<close>).  They implement the same arithmetic as the compound operators of
  \<open>BigReg\<close>, except for the subtraction of a number and its negation, whose sign is lost.
\<close>

section \<open>Operators\<close>

text \<open>\<^verbatim>\<open>BigInt(Sign, u32bit)\<close>.\<close>

definition new_reg :: "bool \<Rightarrow> nat \<Rightarrow> big_reg" where
  "new_reg neg n = \<lparr> br_neg = neg, br_reg = replicate (round_up n 8) 0 \<rparr>"

fun top_bits_loop :: "u32 \<Rightarrow> u32 \<Rightarrow> nat \<Rightarrow> nat" where
  "top_bits_loop top_word probe 0 = 0"
| "top_bits_loop top_word probe (Suc n) =
     (if top_word AND probe = 0 then top_bits_loop top_word (drop_bit 1 probe) n else Suc n)"

definition reg_bits :: "u32 list \<Rightarrow> nat" where
  "reg_bits x =
     (if reg_sig_words x = 0 then 0
      else
        let full_words = reg_sig_words x - 1;
            top_bits = top_bits_loop (reg_word_at x full_words) MP_WORD_TOP_BIT 32
        in full_words * 32 + top_bits)"

definition reg_plus :: "big_reg \<Rightarrow> big_reg \<Rightarrow> big_reg option" where
  "reg_plus x y = do {
     let x_sw = reg_sig_words (br_reg x);
     let y_sw = reg_sig_words (br_reg y);
     let z = new_reg (br_neg x) (max x_sw y_sw + 1);
     if br_neg x = br_neg y then do {
       r \<leftarrow> bigint_add3 (br_reg z) (br_reg x) x_sw (br_reg y) y_sw;
       Some (z\<lparr> br_reg := r \<rparr>) }
     else do {
       relative_size \<leftarrow> bigint_cmp (br_reg x) x_sw (br_reg y) y_sw;
       if relative_size < 0 then do {
         r \<leftarrow> bigint_sub3 (br_reg z) (br_reg y) y_sw (br_reg x) x_sw;
         Some (reg_set_sign (br_neg y) (z\<lparr> br_reg := r \<rparr>)) }
       else if relative_size = 0 then Some (reg_set_sign False z)
       else do {
         r \<leftarrow> bigint_sub3 (br_reg z) (br_reg x) x_sw (br_reg y) y_sw;
         Some (z\<lparr> br_reg := r \<rparr>) } } }"

definition reg_minus :: "big_reg \<Rightarrow> big_reg \<Rightarrow> big_reg option" where
  "reg_minus x y = do {
     let x_sw = reg_sig_words (br_reg x);
     let y_sw = reg_sig_words (br_reg y);
     relative_size \<leftarrow> bigint_cmp (br_reg x) x_sw (br_reg y) y_sw;
     let z = new_reg False (max x_sw y_sw + 1);
     if relative_size < 0 then do {
       r \<leftarrow> (if br_neg x = br_neg y then bigint_sub3 (br_reg z) (br_reg y) y_sw (br_reg x) x_sw
             else bigint_add3 (br_reg z) (br_reg x) x_sw (br_reg y) y_sw);
       Some (reg_set_sign (\<not> br_neg y) (z\<lparr> br_reg := r \<rparr>)) }
     else if relative_size = 0 then
       (if br_neg x \<noteq> br_neg y then do {
          r \<leftarrow> bigint_shl2 (br_reg z) (br_reg x) x_sw 0 1;
          Some (z\<lparr> br_reg := r \<rparr>) }
        else Some z)
     else do {
       r \<leftarrow> (if br_neg x = br_neg y then bigint_sub3 (br_reg z) (br_reg x) x_sw (br_reg y) y_sw
             else bigint_add3 (br_reg z) (br_reg x) x_sw (br_reg y) y_sw);
       Some (reg_set_sign (br_neg x) (z\<lparr> br_reg := r \<rparr>)) } }"

definition reg_times :: "big_reg \<Rightarrow> big_reg \<Rightarrow> big_reg option" where
  "reg_times x y = do {
     let x_sw = reg_sig_words (br_reg x);
     let y_sw = reg_sig_words (br_reg y);
     let z = new_reg False (length (br_reg x) + length (br_reg y));
     r \<leftarrow>
       (if x_sw = 1 \<and> y_sw \<noteq> 0 then bigint_linmul3 (br_reg z) (br_reg y) y_sw (reg_word_at (br_reg x) 0)
        else if y_sw = 1 \<and> x_sw \<noteq> 0 then bigint_linmul3 (br_reg z) (br_reg x) x_sw (reg_word_at (br_reg y) 0)
        else if x_sw \<noteq> 0 \<and> y_sw \<noteq> 0 then
          bigint_mul (br_reg z) (length (br_reg z)) (replicate (length (br_reg z)) 0)
            (br_reg x) (length (br_reg x)) x_sw (br_reg y) (length (br_reg y)) y_sw
        else Some (br_reg z));
     let z = z\<lparr> br_reg := r \<rparr>;
     Some (if x_sw \<noteq> 0 \<and> y_sw \<noteq> 0 \<and> br_neg x \<noteq> br_neg y then reg_set_sign (\<not> br_neg z) z else z) }"

definition reg_shifted_left :: "big_reg \<Rightarrow> nat \<Rightarrow> big_reg option" where
  "reg_shifted_left x shift =
     (if shift = 0 then Some x
      else do {
        let shift_words = shift div 32;
        let shift_bits = shift mod 32;
        let x_sw = reg_sig_words (br_reg x);
        let y = new_reg (br_neg x) (x_sw + shift_words + (if shift_bits = 0 then 0 else 1));
        r \<leftarrow> bigint_shl2 (br_reg y) (br_reg x) x_sw shift_words shift_bits;
        Some (y\<lparr> br_reg := r \<rparr>) })"

definition reg_shifted_right :: "big_reg \<Rightarrow> nat \<Rightarrow> big_reg option" where
  "reg_shifted_right x shift =
     (if shift = 0 then Some x
      else if reg_bits (br_reg x) \<le> shift then Some \<lparr> br_neg = False, br_reg = [] \<rparr>
      else do {
        let shift_words = shift div 32;
        let x_sw = reg_sig_words (br_reg x);
        let y = new_reg (br_neg x) (x_sw - shift_words);
        r \<leftarrow> bigint_shr2 (br_reg y) (br_reg x) x_sw shift_words (shift mod 32);
        Some (y\<lparr> br_reg := r \<rparr>) })"

text \<open>\<^verbatim>\<open>operator%(const BigInt &, word)\<close>: the words from the most significant one down.\<close>

fun mod_word_loop :: "u32 list \<Rightarrow> u32 \<Rightarrow> nat \<Rightarrow> u32 \<Rightarrow> u32" where
  "mod_word_loop x m 0 remainder = remainder"
| "mod_word_loop x m (Suc j) remainder = mod_word_loop x m j (bigint_modop remainder (reg_word_at x j) m)"

definition reg_mod_word :: "big_reg \<Rightarrow> u32 \<Rightarrow> u32 option" where
  "reg_mod_word n m =
     (if m = 0 then None
      else if power_of_2 (unat m) then Some (reg_word_at (br_reg n) 0 AND (m - 1))
      else
        let remainder = mod_word_loop (br_reg n) m (reg_sig_words (br_reg n)) 0 in
        Some (if remainder \<noteq> 0 \<and> br_neg n then m - remainder else remainder))"

section \<open>Bits\<close>

lemma unat_exp: "unat ((2 :: u32) ^ n) = 2 ^ n" if "n < 32"
proof -
  have "(2 :: nat) ^ n < 2 ^ 32" using that by (intro power_strict_increasing) simp_all
  then have "unat (of_nat (2 ^ n) :: u32) = 2 ^ n" using that by (simp add: unsigned_of_nat take_bit_nat_eq_self del: of_nat_power)
  then show ?thesis by simp
qed

lemma unat_and_bit: "(w :: u32) AND 2 ^ n = 0 \<longleftrightarrow> \<not> bit (unat w) n" if "n < 32"
proof -
  have "w AND 2 ^ n = (if bit w n then 2 ^ n else 0)"
    by (rule bit_word_eqI) (auto simp: bit_and_iff bit_exp_iff)
  moreover have "(2 :: u32) ^ n \<noteq> 0" using unat_exp [OF that] by (metis power_not_zero unat_0 zero_neq_numeral)
  ultimately show ?thesis by (simp add: bit_unsigned_iff)
qed

lemma bit_length_unique: "2 ^ n \<le> v \<Longrightarrow> v < 2 ^ Suc n \<Longrightarrow> bit_length v = Suc n"
proof -
  assume v: "(2 :: nat) ^ n \<le> v" "v < 2 ^ Suc n"
  then have "0 < v" using zero_less_power [of "2 :: nat" n] by linarith
  from bit_length_bounds [OF this] have b: "2 ^ (bit_length v - 1) \<le> v" "v < 2 ^ bit_length v" by auto
  have "(2 :: nat) ^ n < 2 ^ bit_length v" "(2 :: nat) ^ (bit_length v - 1) < 2 ^ Suc n"
    using v b by linarith+
  then have "n < bit_length v" "bit_length v - 1 < Suc n" by (simp_all only: power_strict_increasing_iff one_less_numeral_iff semiring_norm)
  then show ?thesis by simp
qed

lemma bit_top: "bit v n \<longleftrightarrow> 2 ^ n \<le> v" if "v < 2 ^ Suc n" for v :: nat
proof (cases "2 ^ n \<le> v")
  case True
  then have "v div 2 ^ n = 1" using that by (intro div_nat_eqI) simp_all
  then show ?thesis using True by (simp add: bit_iff_odd)
next
  case False
  then show ?thesis by (simp add: bit_iff_odd)
qed

lemma top_bits_loop_val:
  "n \<le> 32 \<Longrightarrow> unat w < 2 ^ n \<Longrightarrow> top_bits_loop w (2 ^ (n - 1)) n = bit_length (unat w)"
proof (induction n)
  case (Suc n)
  have b: "bit (unat w) n \<longleftrightarrow> 2 ^ n \<le> unat w"
    by (rule bit_top [OF Suc.prems(2)])
  show ?case
  proof (cases "bit (unat w) n")
    case True
    then show ?thesis using bit_length_unique [of n "unat w"] Suc.prems b unat_and_bit [of n w] by simp
  next
    case False
    have "drop_bit 1 ((2 :: u32) ^ n) = 2 ^ (n - 1)" if "0 < n"
      using that Suc.prems(1) by (intro word_unat_eq_iff [THEN iffD2]) (use unat_exp [of n] unat_exp [of "n - 1"] in \<open>cases n; simp add: unat_drop\<close>)
    then show ?thesis using False Suc b unat_and_bit [of n w] by (cases n) (simp_all add: Suc_le_eq unat_gt_0)
  qed
qed simp

lemma reg_bits_val: "reg_bits x = bit_length (mp_val x)"
proof (cases "reg_sig_words x = 0")
  case True
  then show ?thesis using sig_0 [of x] by (simp add: reg_bits_def)
next
  case False
  define n where "n = reg_sig_words x - 1"
  have n: "reg_sig_words x = Suc n" "n < length x" "x ! n \<noteq> 0"
    using sig_spec(1,3) [of x] False by (simp_all add: n_def)
  define k where "k = bit_length (unat (x ! n)) - 1"
  have k: "bit_length (unat (x ! n)) = Suc k" using n(3) bit_length_pos [of "unat (x ! n)"] by (simp add: k_def unat_gt_0)
  have kb: "2 ^ k \<le> unat (x ! n)" "unat (x ! n) < 2 ^ Suc k"
    using bit_length_bounds [of "unat (x ! n)"] n(3) k by (simp_all add: unat_gt_0)
  have "mp_val x = mp_val (take (Suc n) x)" using sig_take [of x] n(1) by simp
  also have "\<dots> = mp_val (take n x) + WB ^ n * unat (x ! n)"
    using n(2) by (simp add: take_Suc_conv_app_nth mp_val_append min_absorb2)
  finally have v: "mp_val x = mp_val (take n x) + WB ^ n * unat (x ! n)" .
  have lt: "mp_val (take n x) < WB ^ n" using mp_val_less [of "take n x"] n(2) by simp
  have e: "(2 :: nat) ^ (32 * n + m) = WB ^ n * 2 ^ m" for m by (simp add: power_add power_mult)
  have "WB ^ n * 2 ^ k \<le> WB ^ n * unat (x ! n)" using kb(1) by (rule mult_le_mono2)
  moreover have "WB ^ n * Suc (unat (x ! n)) \<le> WB ^ n * 2 ^ Suc k" using kb(2) by (intro mult_le_mono2) simp
  ultimately have "WB ^ n * 2 ^ k \<le> mp_val x" "mp_val x < WB ^ n * 2 ^ Suc k"
    using lt unfolding v mult_Suc_right by linarith+
  then have "bit_length (mp_val x) = Suc (32 * n + k)"
    by (intro bit_length_unique) (simp_all only: e add_Suc_right [symmetric])
  moreover have "top_bits_loop (x ! n) MP_WORD_TOP_BIT 32 = Suc k"
    using top_bits_loop_val [of 32 "x ! n"] k u32_less [of "x ! n"] by (simp add: MP_WORD_TOP_BIT_def)
  ultimately show ?thesis using n by (simp add: reg_bits_def Let_def reg_word_at_def)
qed

section \<open>The operators implement the arithmetic\<close>

lemma new_reg_simps [simp]: "br_neg (new_reg b n) = b" "br_reg (new_reg b n) = replicate (round_up n 8) 0"
  by (simp_all add: new_reg_def)

lemma abs_fresh: "mp_val r = v \<Longrightarrow> bi_abs ((new_reg b n)\<lparr> br_reg := r \<rparr>) = \<lparr> bi_neg = b, bi_mag = v \<rparr>"
  by (simp add: bi_abs_def)

lemma fresh_add:
  fixes x y :: "u32 list"
  defines "n \<equiv> max (reg_sig_words x) (reg_sig_words y)"
  shows "\<exists>r. bigint_add3 (replicate (round_up (n + 1) 8) 0) x (reg_sig_words x) y (reg_sig_words y) = Some r \<and>
    mp_val r = mp_val x + mp_val y"
proof -
  have l: "n < round_up (n + 1) 8" using round_up_8 [of "n + 1"] by simp
  let ?z = "replicate (round_up (n + 1) 8) (0 :: u32)"
  have "?z ! n = 0" "n < length ?z" using l by simp_all
  with add3_val [OF sig_spec(1) sig_spec(1), of x y ?z] obtain w where
    "bigint_add3 ?z x (reg_sig_words x) y (reg_sig_words y) = Some (w @ drop (Suc n) ?z)" "mp_val w = mp_val x + mp_val y"
    unfolding n_def sig_take by blast
  then show ?thesis by (simp add: mp_val_append)
qed

lemma fresh_sub:
  assumes "mp_val x < mp_val y" and "reg_sig_words y \<le> n"
  shows "\<exists>r. bigint_sub3 (replicate (round_up n 8) 0) y (reg_sig_words y) x (reg_sig_words x) = Some r \<and>
    mp_val r = mp_val y - mp_val x"
proof -
  have le: "reg_sig_words x \<le> reg_sig_words y" by (rule sig_mono) (use assms in simp)
  have l: "reg_sig_words y \<le> length (replicate (round_up n 8) (0 :: u32))" using round_up_8 [of n] assms(2) by simp
  show ?thesis using sub3_val [OF le sig_spec(1) sig_spec(1) l] assms(1) by (auto simp: sig_take mp_val_append)
qed

lemma fresh_double:
  "\<exists>r. bigint_shl2 (replicate (round_up (reg_sig_words x + 1) 8) 0) x (reg_sig_words x) 0 1 = Some r \<and>
     mp_val r = push_bit 1 (mp_val x)"
  using shl2_val [OF sig_spec(1,2), of 1 0 x "round_up (reg_sig_words x + 1) 8"] round_up_8 [of "reg_sig_words x + 1"]
  by (auto simp: push_bit_eq_mult)

lemma reg_plus_val: "\<exists>r. reg_plus x y = Some r \<and> bi_abs r = bi_add (bi_abs x) (bi_abs y)"
proof -
  let ?n = "max (reg_sig_words (br_reg x)) (reg_sig_words (br_reg y)) + 1"
  have le: "reg_sig_words (br_reg y) \<le> ?n" "reg_sig_words (br_reg x) \<le> ?n" by simp_all
  note s = fresh_add [of "br_reg x" "br_reg y"] fresh_sub [OF _ le(1), of "br_reg x"] fresh_sub [OF _ le(2), of "br_reg y"]
  consider (same) "br_neg x = br_neg y" | (less) "br_neg x \<noteq> br_neg y" "mp_val (br_reg x) < mp_val (br_reg y)"
    | (eq) "br_neg x \<noteq> br_neg y" "mp_val (br_reg x) = mp_val (br_reg y)"
    | (more) "br_neg x \<noteq> br_neg y" "mp_val (br_reg y) < mp_val (br_reg x)" by linarith
  then show ?thesis
  proof cases
    case same
    then show ?thesis using s(1) by (auto simp: reg_plus_def Let_def bi_add_def bi_abs_def)
  next
    case less
    then show ?thesis using s(2)
      by (auto simp: reg_plus_def Let_def bi_add_def bi_abs_def same_cmp reg_set_sign_def is_zero_val set_sign_def)
  next
    case eq
    then show ?thesis
      by (auto simp: reg_plus_def Let_def bi_add_def bi_abs_def same_cmp reg_set_sign_def is_zero_val set_sign_def)
  next
    case more
    then show ?thesis using s(3)
      by (auto simp: reg_plus_def Let_def bi_add_def bi_abs_def same_cmp)
  qed
qed

text \<open>Subtraction of numbers that are not each other's negation.\<close>

lemma reg_minus_val:
  assumes "br_neg x = br_neg y \<or> mp_val (br_reg x) \<noteq> mp_val (br_reg y)" and "bi_ok (bi_abs x)"
  shows "\<exists>r. reg_minus x y = Some r \<and> bi_abs r = bi_sub (bi_abs x) (bi_abs y)"
proof -
  let ?n = "max (reg_sig_words (br_reg x)) (reg_sig_words (br_reg y)) + 1"
  have le: "reg_sig_words (br_reg y) \<le> ?n" "reg_sig_words (br_reg x) \<le> ?n" by simp_all
  note s = fresh_add [of "br_reg x" "br_reg y"] fresh_sub [OF _ le(1), of "br_reg x"] fresh_sub [OF _ le(2), of "br_reg y"]
  consider (less) "mp_val (br_reg x) < mp_val (br_reg y)"
    | (eq) "mp_val (br_reg x) = mp_val (br_reg y)"
    | (more) "mp_val (br_reg y) < mp_val (br_reg x)" by linarith
  then show ?thesis
  proof cases
    case less
    then show ?thesis using s(1,2)
      by (auto simp: reg_minus_def Let_def bi_sub_def bi_abs_def same_cmp reg_set_sign_def is_zero_val set_sign_def)
  next
    case eq
    then show ?thesis using assms
      by (auto simp: reg_minus_def Let_def bi_sub_def bi_abs_def same_cmp set_sign_def)
  next
    case more
    then show ?thesis using s(1,3)
      by (auto simp: reg_minus_def Let_def bi_sub_def bi_abs_def same_cmp reg_set_sign_def is_zero_val)
  qed
qed

lemma reg_minus_negation:
  assumes "br_neg x \<noteq> br_neg y" and "mp_val (br_reg x) = mp_val (br_reg y)"
  shows "\<exists>r. reg_minus x y = Some r \<and> bi_abs r = bi_nat (2 * mp_val (br_reg x))"
  using fresh_double [of "br_reg x"] same_cmp [of "br_reg x" "br_reg y"] sig_eq [OF assms(2)] assms
  by (auto simp: reg_minus_def Let_def bi_abs_def bi_nat_def)

lemma fresh_stores: "stores r (replicate n 0) m v \<Longrightarrow> \<exists>q. r = Some q \<and> mp_val q = v"
  by (auto simp: stores_def mp_val_append)

lemma reg_times_val: "\<exists>r. reg_times x y = Some r \<and> bi_abs r = bi_mul (bi_abs x) (bi_abs y)"
proof -
  let ?x = "br_reg x" and ?y = "br_reg y"
  let ?n = "round_up (length ?x + length ?y) 8"
  let ?z = "replicate ?n (0 :: u32)"
  have n: "length ?x + length ?y \<le> ?n" by (rule round_up_8)
  have lx: "reg_sig_words ?x \<le> length ?x" and ly: "reg_sig_words ?y \<le> length ?y" by (rule sig_spec(1))+
  consider (zero) "reg_sig_words ?x = 0 \<or> reg_sig_words ?y = 0"
    | (one) "reg_sig_words ?x = 1" "0 < reg_sig_words ?y"
    | (two) "1 < reg_sig_words ?x" "reg_sig_words ?y = 1"
    | (more) "1 < reg_sig_words ?x" "1 < reg_sig_words ?y" by linarith
  then show ?thesis
  proof cases
    case zero
    then show ?thesis using sig_0 [of ?x] sig_0 [of ?y]
      by (auto simp: reg_times_def bi_mul_def Let_def bi_abs_def set_sign_def)
  next
    case one
    then have "0 < mp_val ?x" "0 < mp_val ?y" using sig_0 [of ?x] sig_0 [of ?y] by simp_all
    moreover obtain r where "bigint_linmul3 ?z ?y (reg_sig_words ?y) (reg_word_at ?x 0) = Some r"
      "mp_val r = mp_val ?y * unat (reg_word_at ?x 0)"
      using fresh_stores [OF linmul_stores [OF sig_spec(1) _ sig_spec(2), of ?y ?z "reg_word_at ?x 0"]] n lx ly one
      by auto
    ultimately show ?thesis using one one_sig_word [of ?x]
      by (simp add: reg_times_def bi_mul_def Let_def bi_abs_def reg_set_sign_def set_sign_def is_zero_val mult.commute)
  next
    case two
    then have "0 < mp_val ?x" "0 < mp_val ?y" using sig_0 [of ?x] sig_0 [of ?y] by simp_all
    moreover obtain r where "bigint_linmul3 ?z ?x (reg_sig_words ?x) (reg_word_at ?y 0) = Some r"
      "mp_val r = mp_val ?x * unat (reg_word_at ?y 0)"
      using fresh_stores [OF linmul_stores [OF sig_spec(1) _ sig_spec(2), of ?x ?z "reg_word_at ?y 0"]] n lx ly two
      by auto
    ultimately show ?thesis using two one_sig_word [of ?y]
      by (simp add: reg_times_def bi_mul_def Let_def bi_abs_def reg_set_sign_def set_sign_def is_zero_val)
  next
    case more
    then have "0 < mp_val ?x" "0 < mp_val ?y" using sig_0 [of ?x] sig_0 [of ?y] by simp_all
    moreover obtain r where "bigint_mul ?z ?n (replicate ?n 0) ?x (length ?x) (reg_sig_words ?x) ?y (length ?y) (reg_sig_words ?y) = Some r"
      "mp_val r = mp_val ?x * mp_val ?y"
      using fresh_stores [OF mul_stores [OF lx ly _ _ sig_spec(2) sig_spec(2), of ?z "replicate ?n 0"]] n more by auto
    ultimately show ?thesis using more
      by (simp add: reg_times_def bi_mul_def Let_def bi_abs_def reg_set_sign_def set_sign_def is_zero_val)
  qed
qed

lemma reg_shifted_left_val: "\<exists>r. reg_shifted_left x n = Some r \<and> bi_abs r = bi_shl (bi_abs x) n"
proof -
  let ?x = "br_reg x"
  let ?m = "reg_sig_words ?x + n div 32 + (if n mod 32 = 0 then 0 else 1)"
  have "n div 32 + reg_sig_words ?x + (if n mod 32 = 0 then 0 else 1) \<le> round_up ?m 8"
    using round_up_8 [of ?m] by linarith
  from shl2_val [OF sig_spec(1,2) _ this] obtain r where
    "bigint_shl2 (replicate (round_up ?m 8) 0) ?x (reg_sig_words ?x) (n div 32) (n mod 32) = Some r"
    "mp_val r = mp_val ?x * 2 ^ (32 * (n div 32) + n mod 32)" by auto
  then show ?thesis
    by (simp add: reg_shifted_left_def Let_def bi_shl_def bi_abs_def push_bit_eq_mult mult_div_mod_eq)
qed

lemma reg_shifted_right_val:
  "\<exists>r. reg_shifted_right x n = Some r \<and> bi_abs r = bi_shr (bi_abs x) n"
proof (cases "n = 0 \<or> bit_length (mp_val (br_reg x)) \<le> n")
  case True
  have "mp_val (br_reg x) div 2 ^ n = 0" if "bit_length (mp_val (br_reg x)) \<le> n"
  proof (cases "mp_val (br_reg x) = 0")
    case False
    then have "mp_val (br_reg x) < 2 ^ bit_length (mp_val (br_reg x))" using bit_length_bounds by simp
    also have "\<dots> \<le> 2 ^ n" using that by (intro power_increasing) simp_all
    finally show ?thesis by simp
  qed simp
  then show ?thesis using True
    by (auto simp: reg_shifted_right_def reg_bits_val bi_shr_def Let_def bi_abs_def set_sign_def drop_bit_eq_div)
next
  case False
  let ?x = "br_reg x"
  let ?v = "mp_val ?x"
  have "0 < ?v" using False by (cases "?v = 0") simp_all
  then have "2 ^ n \<le> ?v"
    using bit_length_bounds [of ?v] False power_increasing [of n "bit_length ?v - 1" "2 :: nat"] by linarith
  then have nz: "?v div 2 ^ n \<noteq> 0" by (simp add: div_eq_0_iff)
  have "(2 :: nat) ^ n < WB ^ reg_sig_words ?x" using \<open>2 ^ n \<le> ?v\<close> sig_upper [of ?x] by linarith
  also have "\<dots> = 2 ^ (32 * reg_sig_words ?x)" by (simp add: power_mult)
  finally have "n < 32 * reg_sig_words ?x" by (simp only: power_strict_increasing_iff one_less_numeral_iff semiring_norm)
  then have w: "n div 32 \<le> reg_sig_words ?x" by linarith
  from shr2_val [OF sig_spec(1,2) _ this round_up_8, of "n mod 32"] obtain r where
    "bigint_shr2 (replicate (round_up (reg_sig_words ?x - n div 32) 8) 0) ?x (reg_sig_words ?x) (n div 32) (n mod 32) = Some r"
    "mp_val r = ?v div 2 ^ (32 * (n div 32) + n mod 32)" by auto
  then show ?thesis using False nz
    by (simp add: reg_shifted_right_def reg_bits_val Let_def bi_shr_def bi_abs_def drop_bit_eq_div mult_div_mod_eq)
qed

section \<open>Remainders by a word\<close>

lemma modop_val:
  assumes "n1 < m"
  shows "unat (bigint_modop n1 n0 m) = (unat n1 * WB + unat n0) mod unat m"
proof -
  let ?q = "bigint_divop n1 n0 m" and ?v = "unat n1 * WB + unat n0"
  obtain z c where z: "word_madd2 ?q m 0 = (z, c)" by fastforce
  have q: "unat ?q * unat m + ?v mod unat m = ?v" using divop_val [OF assms, of n0] by simp
  have zc: "unat z + WB * unat c = unat ?q * unat m" using word_madd2_val [OF z] by simp
  have "0 < unat m" using assms by (simp add: word_less_nat_alt)
  then have mr: "?v mod unat m < WB" using u32_less [of m] mod_less_divisor [of "unat m" ?v] by linarith
  have "unat n0 + WB * unat n1 = unat z + ?v mod unat m + WB * unat c" using q zc by simp
  from arg_cong [OF this, of "\<lambda>v. v mod WB"] have "unat n0 mod WB = (unat z + ?v mod unat m) mod WB"
    by (simp only: mod_mult_self2)
  then have "of_nat (unat n0) = (of_nat (unat z + ?v mod unat m) :: u32)"
    by (simp only: word_of_nat_eq_iff take_bit_eq_mod) simp
  then have "n0 = of_nat (?v mod unat m) + z" by (simp add: of_nat_unat ucast_id add.commute)
  then have "n0 - z = of_nat (?v mod unat m)" by (simp only: diff_eq_eq)
  then show ?thesis using mr z by (simp add: bigint_modop_def unsigned_of_nat take_bit_nat_eq_self)
qed

lemma mod_digit: "(a mod m * b + c) mod m = (a * b + c) mod m" for a b c m :: nat
  by (metis mod_add_left_eq mod_mult_left_eq)

lemma mod_word_loop_val:
  assumes "remainder < m" and "k \<le> length x"
  shows "unat (mod_word_loop x m k remainder) = (unat remainder * WB ^ k + mp_val (take k x)) mod unat m"
  using assms
proof (induction k arbitrary: remainder)
  case 0
  then show ?case by (simp add: word_less_nat_alt)
next
  case (Suc k)
  let ?r = "bigint_modop remainder (x ! k) m"
  have r: "unat ?r = (unat remainder * WB + unat (x ! k)) mod unat m" by (rule modop_val [OF Suc.prems(1)])
  have "0 < unat m" using Suc.prems(1) by (simp add: word_less_nat_alt)
  then have "?r < m" using r by (simp add: word_less_nat_alt)
  from Suc.IH [OF this] Suc.prems(2)
  have "unat (mod_word_loop x m (Suc k) remainder) = (unat ?r * WB ^ k + mp_val (take k x)) mod unat m"
    by (simp add: reg_word_at_def)
  also have "\<dots> = ((unat remainder * WB + unat (x ! k)) * WB ^ k + mp_val (take k x)) mod unat m"
    unfolding r by (rule mod_digit)
  also have "(unat remainder * WB + unat (x ! k)) * WB ^ k + mp_val (take k x) =
      unat remainder * WB ^ Suc k + mp_val (take (Suc k) x)"
    using Suc.prems(2) by (simp add: take_Suc_conv_app_nth mp_val_append min_absorb2 algebra_simps)
  finally show ?case .
qed

lemma reg_mod_word_val:
  assumes "\<not> power_of_2 (unat m)" and "m \<noteq> 0"
  shows "\<exists>r. reg_mod_word n m = Some r \<and> int (unat r) = bi_val (bi_abs n) mod int (unat m)"
proof -
  let ?v = "mp_val (br_reg n)"
  define r where "r = mod_word_loop (br_reg n) m (reg_sig_words (br_reg n)) 0"
  have m: "0 < unat m" using assms(2) by (simp add: unat_gt_0)
  then have "(0 :: u32) < m" by (simp add: word_less_nat_alt)
  from mod_word_loop_val [OF this sig_spec(1)] have r: "unat r = ?v mod unat m" by (simp add: r_def sig_take)
  then have lt: "unat r < unat m" using m by simp
  have i: "int (unat r) = int ?v mod int (unat m)" by (simp add: r zmod_int)
  show ?thesis
  proof (cases "r \<noteq> 0 \<and> br_neg n")
    case True
    have "int (unat (m - r)) = int (unat m) - int (unat r)"
      using lt by (simp add: unat_sub_if' )
    also have "\<dots> = - int ?v mod int (unat m)" using True i uint_0_iff [of r] by (simp add: zmod_zminus1_eq_if)
    finally show ?thesis using True assms r_def by (simp add: reg_mod_word_def Let_def bi_val_def)
  next
    case False
    then show ?thesis using i assms r_def by (auto simp: reg_mod_word_def Let_def bi_val_def zmod_zminus1_eq_if)
  qed
qed

section \<open>Properties\<close>

text \<open>
  C24. Arithmetic on registers.  Given registers of any length with any number of leading zero
  words, the compound operators \<^verbatim>\<open>+=\<close>, \<^verbatim>\<open>-=\<close>, \<^verbatim>\<open>*=\<close> (by a number other than the one that is assigned
  to), \<^verbatim>\<open><<=\<close> and \<^verbatim>\<open>>>=\<close>, the comparison \<^verbatim>\<open>cmp\<close>, and the binary operators \<^verbatim>\<open>+\<close>, \<^verbatim>\<open>*\<close>, \<^verbatim>\<open><<\<close> and \<^verbatim>\<open>>>\<close> of
  \<^verbatim>\<open>Botan::BigInt\<close> stay inside the registers and compute sign and magnitude of the abstract
  operation.  The binary operator \<^verbatim>\<open>-\<close>, when its first operand is not a negative zero, stays inside
  them too and does so unless the operands have different signs and the same magnitude; then it computes the double of the magnitude, always
  positive.  Division and remainder (\<^verbatim>\<open>/\<close>, \<^verbatim>\<open>%\<close>) are not among these operators.
\<close>

theorem registers_refine:
  "(\<exists>r. reg_add x y = Some r \<and> bi_abs r = bi_add (bi_abs x) (bi_abs y)) \<and>
   (\<exists>r. reg_sub x y = Some r \<and> bi_abs r = bi_sub (bi_abs x) (bi_abs y)) \<and>
   (\<exists>r. reg_mul x y = Some r \<and> bi_abs r = bi_mul (bi_abs x) (bi_abs y)) \<and>
   (\<exists>r. reg_shl x n = Some r \<and> bi_abs r = bi_shl (bi_abs x) n) \<and>
   (\<exists>r. reg_shr x n = Some r \<and> bi_abs r = bi_shr (bi_abs x) n) \<and>
   reg_cmp x y signs = Some (bi_cmp (bi_abs x) (bi_abs y) signs) \<and>
   (\<exists>r. reg_plus x y = Some r \<and> bi_abs r = bi_add (bi_abs x) (bi_abs y)) \<and>
   (\<exists>r. reg_times x y = Some r \<and> bi_abs r = bi_mul (bi_abs x) (bi_abs y)) \<and>
   (\<exists>r. reg_shifted_left x n = Some r \<and> bi_abs r = bi_shl (bi_abs x) n) \<and>
   (\<exists>r. reg_shifted_right x n = Some r \<and> bi_abs r = bi_shr (bi_abs x) n) \<and>
   (bi_ok (bi_abs x) \<longrightarrow> (\<exists>r. reg_minus x y = Some r \<and>
      bi_abs r = (if br_neg x = br_neg y \<or> mp_val (br_reg x) \<noteq> mp_val (br_reg y) then bi_sub (bi_abs x) (bi_abs y)
                  else bi_nat (2 * mp_val (br_reg x)))))"
proof -
  have "\<exists>r. reg_minus x y = Some r \<and>
      bi_abs r = (if br_neg x = br_neg y \<or> mp_val (br_reg x) \<noteq> mp_val (br_reg y) then bi_sub (bi_abs x) (bi_abs y)
                  else bi_nat (2 * mp_val (br_reg x)))" if "bi_ok (bi_abs x)"
    using reg_minus_val [of x y] reg_minus_negation [of x y] that by auto
  then show ?thesis
    by (intro conjI impI reg_add_val reg_sub_val reg_mul_val reg_shl_val reg_shr_val reg_cmp_abs reg_plus_val
        reg_times_val reg_shifted_left_val reg_shifted_right_val)
qed

theorem registers_refine_witness:
  "bi_ok (bi_abs \<lparr> br_neg = True, br_reg = [5, 0] \<rparr>) \<and>
   (\<exists>r. reg_minus \<lparr> br_neg = True, br_reg = [5, 0] \<rparr> \<lparr> br_neg = False, br_reg = [5] \<rparr> = Some r \<and> bi_abs r = bi_nat 10)"
  using registers_refine [of "\<lparr> br_neg = True, br_reg = [5, 0] \<rparr>" "\<lparr> br_neg = False, br_reg = [5] \<rparr>"]
  by (simp add: bi_abs_def bi_ok_def)

text \<open>
  The binary subtraction.  \<^verbatim>\<open>operator-(x, y)\<close> computes the difference unless the operands are
  negations of each other; then the sign of the result is never set, and a negative number
  minus its negation is the positive double of its magnitude.
\<close>

theorem binary_subtraction:
  assumes "bi_ok (bi_abs x)" and "bi_ok (bi_abs y)"
  shows "\<exists>r. reg_minus x y = Some r \<and>
    bi_val (bi_abs r) =
      (if bi_val (bi_abs x) = - bi_val (bi_abs y) then \<bar>bi_val (bi_abs x) - bi_val (bi_abs y)\<bar>
       else bi_val (bi_abs x) - bi_val (bi_abs y))"
proof (cases "br_neg x = br_neg y \<or> mp_val (br_reg x) \<noteq> mp_val (br_reg y)")
  case True
  then have "bi_val (bi_abs x) = - bi_val (bi_abs y) \<longrightarrow> bi_val (bi_abs x) - bi_val (bi_abs y) = 0"
    using assms by (auto simp: bi_defs split: if_splits)
  then show ?thesis using reg_minus_val [OF True assms(1)] bi_sub_val [OF assms] by auto
next
  case False
  then obtain r where "reg_minus x y = Some r" "bi_abs r = bi_nat (2 * mp_val (br_reg x))"
    using reg_minus_negation [of x y] by auto
  then show ?thesis using False
    by (intro exI [of _ r]) (auto simp: bi_val_def [of "bi_abs x"] bi_val_def [of "bi_abs y"])
qed

theorem binary_subtraction_witness:
  "\<exists>r. reg_minus \<lparr> br_neg = True, br_reg = [5, 0] \<rparr> \<lparr> br_neg = False, br_reg = [5] \<rparr> = Some r \<and> bi_val (bi_abs r) = 10"
  using binary_subtraction [of "\<lparr> br_neg = True, br_reg = [5, 0] \<rparr>" "\<lparr> br_neg = False, br_reg = [5] \<rparr>"]
  by (simp add: bi_abs_def bi_ok_def bi_val_def)

end
