(* ===== verification/BigArray.thy ===== *)
theory BigArray
  imports BigOps DerCodec
begin

text \<open>
  The binary form of a \<^verbatim>\<open>BigInteger\<close>: \<^verbatim>\<open>BigInteger::toArray\<close> and \<^verbatim>\<open>fromArray\<close> of \<^verbatim>\<open>src/src/qca_tools.cpp\<close>
  with the byte access, \<^verbatim>\<open>binary_encode\<close> and \<^verbatim>\<open>binary_decode\<close> of \<^verbatim>\<open>Botan::BigInt\<close>, on registers.
  The array is the big-endian two's complement of the number, with a byte added where the
  magnitude would set the sign bit.
\<close>

section \<open>Bytes of a register\<close>

definition get_byte :: "nat \<Rightarrow> u32 \<Rightarrow> byte" where
  "get_byte byte_num w = ucast (drop_bit (8 * (3 - byte_num mod 4)) w)"

definition byte_at :: "u32 list \<Rightarrow> nat \<Rightarrow> byte" where
  "byte_at x n = (if length x \<le> n div 4 then 0 else get_byte (4 - n mod 4 - 1) (x ! (n div 4)))"

definition get_bit :: "u32 list \<Rightarrow> nat \<Rightarrow> bool" where
  "get_bit x n = bit (reg_word_at x (n div 32)) (n mod 32)"

definition num_bytes :: "u32 list \<Rightarrow> nat" where
  "num_bytes x = (reg_bits x + 7) div 8"

text \<open>\<^verbatim>\<open>binary_encode(output + off)\<close>.\<close>

definition binary_encode :: "bytes \<Rightarrow> nat \<Rightarrow> u32 list \<Rightarrow> bytes option" where
  "binary_encode output off x = memcpy_at output off (rev (map (byte_at x) [0..<num_bytes x]))"

definition join_bytes :: "bytes \<Rightarrow> u32" where
  "join_bytes bs = foldl (\<lambda>w b. push_bit 8 w OR ucast b) 0 bs"

definition binary_decode :: "bytes \<Rightarrow> u32 list" where
  "binary_decode buf =
     (let n = length buf div 4 in
      map (\<lambda>j. join_bytes (take 4 (drop (length buf - 4 * j - 4) buf))) [0..<n]
      @ join_bytes (take (length buf mod 4) buf) # replicate (round_up (n + 1) 8 - (n + 1)) 0)"

section \<open>Arrays\<close>

text \<open>The loop of \<^verbatim>\<open>negate_binary\<close>, from the last byte to the first.\<close>

fun negate_loop :: "bytes \<Rightarrow> bool \<Rightarrow> bytes" where
  "negate_loop [] finished = []"
| "negate_loop (b # bs) finished =
     (let c = NOT b in
      if finished then c # negate_loop bs True
      else if c < 0xff then (c + 1) # negate_loop bs True
      else 0 # negate_loop bs False)"

definition negate_binary :: "bytes \<Rightarrow> bytes" where
  "negate_binary a = rev (negate_loop (rev a) False)"

definition toArray :: "big_reg \<Rightarrow> bytes option" where
  "toArray n =
     (let x = br_reg n; size0 = num_bytes x in
      if size0 = 0 then Some [0]
      else do {
        let (a, offset) =
          (if get_bit x (size0 * 8 - 1) then (replicate (size0 + 1) 0, 1) else (replicate size0 0, 0));
        a \<leftarrow> binary_encode a offset x;
        Some (if br_neg n then negate_binary a else a) })"

definition fromArray :: "bytes \<Rightarrow> big_reg" where
  "fromArray a =
     (if a = [] then \<lparr> br_neg = False, br_reg = [] \<rparr>
      else
        let neg = (hd a AND 0x80 \<noteq> 0);
            a = (if neg then negate_binary a else a)
        in reg_set_sign neg \<lparr> br_neg = False, br_reg = binary_decode a \<rparr>)"

section \<open>Two's complement\<close>

definition tc_val :: "bytes \<Rightarrow> int" where
  "tc_val a = int (be_nat a) - (if a \<noteq> [] \<and> 128 \<le> unat (hd a) then 256 ^ length a else 0)"

lemma unat_not: "unat (NOT b) = 255 - unat (b :: byte)"
proof -
  have "NOT b = - 1 - b" by (simp add: not_eq_complement)
  moreover have "unat (- 1 - b) = unat (- 1 :: byte) - unat b" by (rule unat_sub) simp
  moreover have "unat (- 1 :: byte) = 255" by (simp add: unsigned_minus_1_eq_mask mask_eq_exp_minus_1)
  ultimately show ?thesis by simp
qed

lemma negate_arith:
  fixes n u P :: nat
  assumes "n < P" and "u < 256"
  shows "(P - Suc n) * 256 + (255 - u) = 256 * P - Suc (n * 256 + u)"
    and "(P - Suc n) * 256 + (256 - u) = 256 * P - (n * 256 + u)"
    and "(P - n) * 256 = 256 * P - n * 256"
proof -
  obtain k where "P = Suc (n + k)" using less_imp_Suc_add [OF assms(1)] by blast
  then show "(P - Suc n) * 256 + (255 - u) = 256 * P - Suc (n * 256 + u)"
    "(P - Suc n) * 256 + (256 - u) = 256 * P - (n * 256 + u)" "(P - n) * 256 = 256 * P - n * 256"
    using assms(2) by simp_all
qed

text \<open>The value of a byte list, least significant byte first.\<close>

lemma negate_loop_val:
  "length (negate_loop bs f) = length bs \<and>
   be_nat (rev (negate_loop bs f)) =
     (if f then 256 ^ length bs - 1 - be_nat (rev bs)
      else if be_nat (rev bs) = 0 then 0 else 256 ^ length bs - be_nat (rev bs))"
proof (induction bs arbitrary: f)
  case (Cons b bs)
  define P where "P = (256 :: nat) ^ length bs"
  have lt: "be_nat (rev bs) < P" using be_nat_less [of "rev bs"] by (simp add: P_def)
  have b: "unat b < 256" by (rule byte_less)
  have lo: "NOT b < 0xff \<longleftrightarrow> unat b \<noteq> 0" using b by (simp add: word_less_nat_alt unat_not) linarith
  have inc: "unat (NOT b + 1) = 256 - unat b" if "unat b \<noteq> 0"
  proof -
    have "unat (NOT b + 1) = Suc (255 - unat b)" using that b unat_not [of b] by (simp add: unat_word_ariths)
    then show ?thesis using that b by linarith
  qed
  note ar = negate_arith [OF lt b]
  show ?case
    using Cons.IH [of True] Cons.IH [of False] lt b lo inc ar
    by (auto simp: Let_def unat_not P_def [symmetric])
qed simp

lemma negate_binary_val:
  "length (negate_binary a) = length a"
  "be_nat (negate_binary a) = (if be_nat a = 0 then 0 else 256 ^ length a - be_nat a)"
  using negate_loop_val [of "rev a" False] by (simp_all add: negate_binary_def)

section \<open>Bytes and words\<close>

lemma be_nat_hd: "a \<noteq> [] \<Longrightarrow> unat (hd a) = be_nat a div 256 ^ (length a - 1)"
proof -
  assume "a \<noteq> []"
  then obtain b bs where a: "a = [b] @ bs" by (cases a) simp_all
  have "be_nat a = unat b * 256 ^ length bs + be_nat bs" unfolding a be_nat_append by (simp add: be_nat_def)
  then show ?thesis using be_nat_less [of bs] a by simp
qed

lemma sign_bit: "(b :: byte) AND 0x80 \<noteq> 0 \<longleftrightarrow> 128 \<le> unat b"
proof -
  have "b AND 0x80 = (if bit b 7 then 0x80 else 0)"
    using and_exp_eq_0_iff_not_bit [of b 7] by (auto intro!: bit_word_eqI simp: bit_and_iff bit_exp_iff [of 7, simplified])
  then have "b AND 0x80 \<noteq> 0 \<longleftrightarrow> bit (unat b) 7" by (simp add: bit_unsigned_iff)
  also have "\<dots> \<longleftrightarrow> 2 ^ 7 \<le> unat b" by (rule bit_top) (use byte_less [of b] in simp)
  finally show ?thesis by simp
qed

lemma digit_below: "W = p * (m * q) \<Longrightarrow> 0 < p \<Longrightarrow> (a + W * v) div p mod m = a div p mod (m :: nat)"
proof -
  assume "W = p * (m * q)" and p: "0 < p"
  then have "a + W * v = a + p * (m * (q * v))" by simp
  then show ?thesis using p by (simp only: div_mult_self2) (simp add: mod_mult_self2)
qed

lemma word_of_val: "q < length x \<Longrightarrow> mp_val x div WB ^ q = unat (x ! q) + WB * mp_val (drop (Suc q) x)"
proof -
  assume q: "q < length x"
  then have "mp_val x = mp_val (take q x) + WB ^ q * (unat (x ! q) + WB * mp_val (drop (Suc q) x))"
    using mp_val_split [of q x] by (simp add: Cons_nth_drop_Suc [symmetric])
  moreover have "mp_val (take q x) < WB ^ q" using mp_val_less [of "take q x"] q by simp
  ultimately show ?thesis by simp
qed

lemma byte_at_val: "unat (byte_at x n) = mp_val x div 256 ^ n mod 256"
proof (cases "n div 4 < length x")
  case True
  define q where "q = n div 4"
  define k where "k = n mod 4"
  have k: "k < 4" "n = 4 * q + k" by (simp_all add: q_def k_def)
  have "unat (get_byte (4 - k - 1) w) = unat w div 256 ^ k mod 256" for w
  proof -
    have "3 - (4 - k - 1) mod 4 = k" using k(1) by simp
    then show ?thesis by (simp add: get_byte_def unsigned_ucast_eq take_bit_eq_mod unat_drop power_mult)
  qed
  moreover have "mp_val x div 256 ^ n mod 256 = unat (x ! q) div 256 ^ k mod 256"
  proof -
    have e: "(256 :: nat) ^ n = WB ^ q * 256 ^ k" by (simp add: k(2) power_add power_mult)
    have "mp_val x div WB ^ q = unat (x ! q) + WB * mp_val (drop (Suc q) x)"
      by (rule word_of_val) (use True in \<open>simp add: q_def\<close>)
    moreover have "(unat (x ! q) + WB * v) div 256 ^ k mod 256 = unat (x ! q) div 256 ^ k mod 256" for v
    proof (rule digit_below)
      have "(256 :: nat) ^ k * (256 * 256 ^ (3 - k)) = 256 ^ (k + Suc (3 - k))" by (simp add: power_add)
      also have "k + Suc (3 - k) = 4" using k(1) by simp
      finally show "WB = 256 ^ k * (256 * 256 ^ (3 - k))" by simp
    qed simp
    ultimately show ?thesis unfolding e by (simp add: div_mult2_eq)
  qed
  ultimately show ?thesis using True by (simp add: byte_at_def q_def k_def)
next
  case False
  have "mp_val x < WB ^ length x" by (rule mp_val_less)
  also have "\<dots> = 256 ^ (4 * length x)" by (simp add: power_mult)
  also have "\<dots> \<le> 256 ^ n" using False by (intro power_increasing) simp_all
  finally show ?thesis using False by (simp add: byte_at_def)
qed

lemma be_nat_bytes: "be_nat (rev (map (byte_at x) [0..<n])) = mp_val x mod 256 ^ n"
proof (induction n)
  case (Suc n)
  have "be_nat (rev (map (byte_at x) [0..<Suc n])) = be_nat ([byte_at x n] @ rev (map (byte_at x) [0..<n]))" by simp
  also have "\<dots> = unat (byte_at x n) * 256 ^ n + mp_val x mod 256 ^ n"
    unfolding be_nat_append Suc by (simp add: be_nat_def)
  also have "\<dots> = mp_val x mod 256 ^ Suc n"
    using mod_mult2_eq [of "mp_val x" "256 ^ n" 256] by (simp add: byte_at_val mult.commute)
  finally show ?case .
qed simp

lemma num_bytes_bounds:
  shows "mp_val x < 256 ^ num_bytes x" and "0 < num_bytes x \<longleftrightarrow> 0 < mp_val x"
    and "0 < mp_val x \<Longrightarrow> 256 ^ (num_bytes x - 1) \<le> mp_val x"
proof -
  let ?v = "mp_val x" and ?b = "bit_length (mp_val x)"
  have nb: "num_bytes x = (?b + 7) div 8" by (simp add: num_bytes_def reg_bits_val)
  have le: "?b \<le> 8 * num_bytes x" unfolding nb by presburger
  have pw: "(256 :: nat) ^ k = 2 ^ (8 * k)" for k by (simp add: power_mult)
  show "?v < 256 ^ num_bytes x"
  proof (cases "?v = 0")
    case False
    then have "?v < 2 ^ ?b" using bit_length_bounds by simp
    also have "\<dots> \<le> 2 ^ (8 * num_bytes x)" using le by (intro power_increasing) simp_all
    finally show ?thesis by (simp only: pw)
  qed simp
  show "0 < num_bytes x \<longleftrightarrow> 0 < ?v" by (cases "?v = 0") (simp_all add: nb bit_length_pos)
  show "256 ^ (num_bytes x - 1) \<le> ?v" if "0 < ?v"
  proof -
    have "8 * (num_bytes x - 1) \<le> ?b - 1" unfolding nb by presburger
    then have "(2 :: nat) ^ (8 * (num_bytes x - 1)) \<le> 2 ^ (?b - 1)" by (intro power_increasing) simp_all
    also have "\<dots> \<le> ?v" using bit_length_bounds [OF that] by simp
    finally show ?thesis by (simp only: pw)
  qed
qed

lemma get_bit_val: "get_bit x n = bit (mp_val x) n"
proof -
  define q k where "q = n div 32" and "k = n mod 32"
  have k: "k < 32" "n = 32 * q + k" by (simp_all add: q_def k_def)
  have e: "(2 :: nat) ^ n = WB ^ q * 2 ^ k" by (simp add: k(2) power_add power_mult)
  have "mp_val x div 2 ^ n mod 2 = unat (reg_word_at x q) div 2 ^ k mod 2"
  proof (cases "q < length x")
    case True
    have "(unat (x ! q) + WB * v) div 2 ^ k mod 2 = unat (x ! q) div 2 ^ k mod 2" for v
    proof (rule digit_below)
      have "(2 :: nat) ^ k * (2 * 2 ^ (31 - k)) = 2 ^ (k + Suc (31 - k))" by (simp add: power_add)
      also have "k + Suc (31 - k) = 32" using k(1) by simp
      finally show "WB = 2 ^ k * (2 * 2 ^ (31 - k))" by simp
    qed simp
    then show ?thesis using word_of_val [OF True] True unfolding e by (simp add: div_mult2_eq reg_word_at_def)
  next
    case False
    have "mp_val x < WB ^ length x" by (rule mp_val_less)
    also have "\<dots> \<le> WB ^ q" using False by (intro power_increasing) simp_all
    finally have "mp_val x div WB ^ q = 0" by (rule div_less)
    then show ?thesis using False unfolding e by (simp add: div_mult2_eq reg_word_at_def)
  qed
  then have "bit (mp_val x) n = bit (unat (reg_word_at x q)) k" by (simp only: bit_iff_odd odd_iff_mod_2_eq_one)
  then show ?thesis using k(1) by (simp add: get_bit_def q_def k_def bit_unsigned_iff)
qed

lemma join_bytes_val: "length bs \<le> 4 \<Longrightarrow> unat (join_bytes bs) = be_nat bs"
proof -
  assume "length bs \<le> 4"
  then have "(256 :: nat) ^ length bs \<le> 256 ^ 4" by (intro power_increasing) simp_all
  then have "be_nat bs < 2 ^ 32" using be_nat_less [of bs] by simp
  then show ?thesis by (simp add: join_bytes_def word_fold_be_nat unsigned_of_nat take_bit_nat_eq_self)
qed

lemma decode_words:
  "4 * n \<le> length buf \<Longrightarrow>
   mp_val (map (\<lambda>j. join_bytes (take 4 (drop (length buf - 4 * j - 4) buf))) [0..<n]) = be_nat (drop (length buf - 4 * n) buf)"
proof (induction n)
  case (Suc n)
  let ?f = "\<lambda>j. join_bytes (take 4 (drop (length buf - 4 * j - 4) buf))"
  let ?hi = "take 4 (drop (length buf - 4 * n - 4) buf)" and ?lo = "drop (length buf - 4 * n) buf"
  have "mp_val (map ?f [0..<Suc n]) = mp_val (map ?f [0..<n]) + WB ^ n * unat (?f n)" by (simp add: mp_val_append)
  also have "\<dots> = be_nat ?lo + WB ^ n * be_nat ?hi" using Suc by (simp add: join_bytes_val)
  also have "\<dots> = be_nat (?hi @ ?lo)"
    using Suc.prems by (simp add: be_nat_append power_mult)
  also have "?hi @ ?lo = drop (length buf - 4 * Suc n) buf"
    using append_take_drop_id [of 4 "drop (length buf - 4 * n - 4) buf"] Suc.prems by (simp add: algebra_simps)
  finally show ?case .
qed simp

lemma binary_decode_val: "mp_val (binary_decode buf) = be_nat buf"
proof -
  let ?n = "length buf div 4"
  have r: "length buf - 4 * ?n = length buf mod 4" by presburger
  have "mp_val (binary_decode buf) = be_nat (drop (length buf mod 4) buf) + WB ^ ?n * be_nat (take (length buf mod 4) buf)"
    using decode_words [of ?n buf] r by (simp add: binary_decode_def Let_def mp_val_append join_bytes_val)
  also have "\<dots> = be_nat (take (length buf mod 4) buf @ drop (length buf mod 4) buf)"
    unfolding be_nat_append length_drop by (simp add: power_mult flip: r)
  finally show ?thesis by simp
qed

section \<open>Round trips\<close>

text \<open>The bytes before the sign is applied: the magnitude, with its sign bit clear.\<close>

lemma toArray_magnitude:
  "\<exists>m. toArray n = Some (if br_neg n then negate_binary m else m) \<and> m \<noteq> [] \<and> be_nat m = mp_val (br_reg n) \<and>
     2 * be_nat m < 256 ^ length m"
proof (cases "mp_val (br_reg n) = 0")
  case True
  then have "num_bytes (br_reg n) = 0" using num_bytes_bounds(2) [of "br_reg n"] by simp
  moreover have "negate_binary [0] = [0]" by (simp add: negate_binary_def)
  ultimately show ?thesis using True by (intro exI [of _ "[0]"]) (simp add: toArray_def be_nat_def)
next
  case False
  let ?x = "br_reg n" and ?v = "mp_val (br_reg n)"
  define k where "k = num_bytes ?x"
  have k: "0 < k" "?v < 256 ^ k" using False num_bytes_bounds(1,2) [of ?x] by (simp_all add: k_def)
  let ?bs = "rev (map (byte_at ?x) [0..<k])"
  have bs: "be_nat ?bs = ?v" "length ?bs = k" using be_nat_bytes [of ?x k] k(2) by simp_all
  show ?thesis
  proof (cases "bit ?v (8 * k - 1)")
    case True
    have "binary_encode (replicate (k + 1) 0) 1 ?x = Some (0 # ?bs)"
      by (simp add: binary_encode_def memcpy_at_in k_def [symmetric])
    moreover have "be_nat (0 # ?bs) = ?v" using be_nat_append [of "[0]" ?bs] bs(1) by (simp add: be_nat_def)
    moreover have "get_bit ?x (k * 8 - 1)" using True by (simp add: get_bit_val mult.commute)
    ultimately show ?thesis using k
      by (intro exI [of _ "0 # ?bs"]) (simp add: toArray_def Let_def k_def [symmetric])
  next
    case False
    have enc: "binary_encode (replicate k 0) 0 ?x = Some ?bs"
      by (simp add: binary_encode_def memcpy_at_whole k_def [symmetric])
    have bit: "\<not> get_bit ?x (k * 8 - 1)" using False by (simp add: get_bit_val mult.commute)
    have p: "(256 :: nat) ^ k = 2 ^ Suc (8 * k - 1)" using k(1) by (simp add: power_mult flip: power_Suc)
    have "\<not> 2 ^ (8 * k - 1) \<le> ?v" using bit_top [of ?v "8 * k - 1"] False k(2) p by metis
    then have "2 * ?v < 256 ^ k" unfolding p by simp
    then show ?thesis using enc bit bs k(1)
      by (intro exI [of _ ?bs]) (simp add: toArray_def Let_def k_def [symmetric])
  qed
qed

lemma hd_sign: "a \<noteq> [] \<Longrightarrow> 128 \<le> unat (hd a) \<longleftrightarrow> 256 ^ length a \<le> 2 * be_nat a"
proof -
  assume a: "a \<noteq> []"
  define P where "P = (256 :: nat) ^ (length a - 1)"
  have "0 < P" by (simp add: P_def)
  then have "128 \<le> be_nat a div P \<longleftrightarrow> 128 * P \<le> be_nat a" by (rule less_eq_div_iff_mult_less_eq)
  moreover have "(256 :: nat) ^ length a = 256 * P" using a by (cases "length a") (simp_all add: P_def)
  ultimately show ?thesis using be_nat_hd [OF a, folded P_def] by simp
qed

lemma fromArray_val: "bi_val (bi_abs (fromArray a)) = tc_val a \<and> bi_ok (bi_abs (fromArray a))"
proof (cases "a = []")
  case True
  then show ?thesis by (simp add: fromArray_def tc_val_def bi_abs_def bi_val_def bi_ok_def)
next
  case False
  have lt: "be_nat a < 256 ^ length a" by (rule be_nat_less)
  show ?thesis
  proof (cases "128 \<le> unat (hd a)")
    case True
    then have "256 ^ length a \<le> 2 * be_nat a" using hd_sign [OF False] by simp
    then have "be_nat a \<noteq> 0" using lt by linarith
    then have v: "mp_val (binary_decode (negate_binary a)) = 256 ^ length a - be_nat a"
      by (simp add: binary_decode_val negate_binary_val)
    then have "bi_abs (fromArray a) = \<lparr> bi_neg = True, bi_mag = 256 ^ length a - be_nat a \<rparr>"
      using True False lt sign_bit [of "hd a"] by (simp add: fromArray_def reg_set_sign_def is_zero_val bi_abs_def)
    then show ?thesis using True False lt by (simp add: bi_val_def bi_ok_def tc_val_def of_nat_diff)
  next
    case pos: False
    then have "bi_abs (fromArray a) = \<lparr> bi_neg = False, bi_mag = be_nat a \<rparr>"
      using False sign_bit [of "hd a"] by (simp add: fromArray_def reg_set_sign_def is_zero_val bi_abs_def binary_decode_val)
    then show ?thesis using pos by (simp add: bi_val_def bi_ok_def tc_val_def)
  qed
qed

lemma toArray_val:
  assumes "bi_ok (bi_abs n)"
  shows "\<exists>a. toArray n = Some a \<and> tc_val a = bi_val (bi_abs n)"
proof -
  obtain m where m: "toArray n = Some (if br_neg n then negate_binary m else m)" "m \<noteq> []" "be_nat m = mp_val (br_reg n)"
    "2 * be_nat m < 256 ^ length m" using toArray_magnitude by blast
  show ?thesis
  proof (cases "br_neg n")
    case True
    let ?a = "negate_binary m"
    have p: "0 < be_nat m" using assms True m(3) by (auto simp: bi_ok_def)
    have l: "length ?a = length m" "be_nat ?a = 256 ^ length m - be_nat m" using p by (simp_all add: negate_binary_val)
    then have "?a \<noteq> []" using m(2) by auto
    moreover have "256 ^ length m \<le> 2 * be_nat ?a" using l(2) m(4) by linarith
    ultimately have "128 \<le> unat (hd ?a)" using hd_sign [of ?a] l(1) by simp
    then have "tc_val ?a = - int (be_nat m)" using \<open>?a \<noteq> []\<close> l m(4) by (simp add: tc_val_def of_nat_diff)
    then show ?thesis using True m by (simp add: bi_val_def)
  next
    case False
    then show ?thesis using m hd_sign [of m] by (simp add: tc_val_def bi_val_def)
  qed
qed

text \<open>
  C25. The array form of big integers.  \<^verbatim>\<open>BigInteger::toArray\<close> stays inside the array it allocates and
  writes the two's complement of the number, sign byte included where it is needed;
  \<^verbatim>\<open>fromArray\<close> reads every byte array, of any length, as a two's complement number and never
  yields a negative zero; so it gives back the number that was written.
\<close>

theorem big_array_round_trip:
  assumes "bi_ok (bi_abs n)"
  shows "(\<exists>a. toArray n = Some a \<and> tc_val a = bi_val (bi_abs n) \<and> bi_abs (fromArray a) = bi_abs n) \<and>
    bi_val (bi_abs (fromArray b)) = tc_val b \<and> bi_ok (bi_abs (fromArray b))"
  using toArray_val [OF assms] fromArray_val [of b] fromArray_val bi_val_inj assms by metis

theorem big_array_round_trip_witness:
  "(\<exists>a. toArray \<lparr> br_neg = True, br_reg = [300, 0] \<rparr> = Some a \<and> tc_val a = - 300 \<and>
      bi_abs (fromArray a) = \<lparr> bi_neg = True, bi_mag = 300 \<rparr>) \<and>
   bi_val (bi_abs (fromArray [0x80])) = - 128"
  using big_array_round_trip [of "\<lparr> br_neg = True, br_reg = [300, 0] \<rparr>" "[0x80]"]
  by (simp add: bi_abs_def [of "\<lparr> br_neg = True, br_reg = [300, 0] \<rparr>"] bi_ok_def bi_val_def [of "\<lparr> bi_neg = True, bi_mag = 300 \<rparr>"] tc_val_def [of "[0x80]"] be_nat_def)

end
