(* ===== verification/BigText.thy ===== *)
theory BigText
  imports BigArray
begin

text \<open>
  The text form of a \<^verbatim>\<open>BigInteger\<close>: \<^verbatim>\<open>BigInteger::toString\<close> and \<^verbatim>\<open>fromString\<close> of
  \<^verbatim>\<open>src/src/qca_tools.cpp\<close> with the decimal encoder and decoder of \<^verbatim>\<open>big_code.cpp\<close>.  The buffer for
  the digits is sized by a floating-point estimate; it is large enough for numbers of up to
  36000 bits.  Hexadecimal text is converted by Qt's \<^verbatim>\<open>QByteArray::fromHex\<close>, a parameter.
\<close>

section \<open>An interface of integers\<close>

text \<open>What a client of big integers relies on: signed values, closed under the operations.\<close>

locale integer_arith =
  fixes val :: "'a \<Rightarrow> int" and ok :: "'a \<Rightarrow> bool" and num :: "nat \<Rightarrow> 'a"
    and add :: "'a \<Rightarrow> 'a \<Rightarrow> 'a" and mul :: "'a \<Rightarrow> 'a \<Rightarrow> 'a"
  assumes num: "val (num n) = int n \<and> ok (num n)"
    and add: "ok x \<Longrightarrow> ok y \<Longrightarrow> val (add x y) = val x + val y \<and> ok (add x y)"
    and mul: "ok x \<Longrightarrow> ok y \<Longrightarrow> val (mul x y) = val x * val y \<and> ok (mul x y)"
    and inj: "ok x \<Longrightarrow> ok y \<Longrightarrow> val x = val y \<Longrightarrow> x = y"
begin

text \<open>Reading digits in radix \<open>b\<close>, most significant first.\<close>

lemma horner:
  "foldl (\<lambda>r n. add (mul r (num b)) (num n)) (num v) ds = num (foldl (\<lambda>v n. v * b + n) v ds)"
proof (induction ds arbitrary: v)
  case (Cons n ds)
  have "add (mul (num v) (num b)) (num n) = num (v * b + n)"
    using num add mul by (intro inj) auto
  then show ?case using Cons by simp
qed simp

end

interpretation bi: integer_arith bi_val bi_ok bi_nat bi_add bi_mul
  by unfold_locales (auto simp: bi_add_val bi_mul_val intro: bi_val_inj)

section \<open>Digits\<close>

definition digit2char :: "byte \<Rightarrow> byte option" where
  "digit2char b = (if b \<le> 9 then Some (b + 0x30) else None)"

definition char2digit :: "byte \<Rightarrow> byte option" where
  "char2digit c = (if 0x30 \<le> c \<and> c \<le> 0x39 then Some (c - 0x30) else None)"

text \<open>
  \<^verbatim>\<open>encoded_size(Decimal)\<close>.  The product of \<^verbatim>\<open>bits()\<close> and the constant is computed in double
  precision; for up to \<open>2 ^ 18\<close> bits the rounding error is below the distance of the exact
  product from the next integer, so that truncation gives the quotient below.
\<close>

definition decimal_size :: "nat \<Rightarrow> nat" where
  "decimal_size b = (b * 30102999566) div 100000000000 + 1"

text \<open>
  The loop of \<^verbatim>\<open>BigInt::encode\<close> for decimal output: \<open>k\<close> places are left before the digits in
  \<open>out\<close>.  When the number is used up the digits move to the front and zero bytes follow.
\<close>

fun decimal_loop :: "nat \<Rightarrow> bigint \<Rightarrow> bytes \<Rightarrow> bytes option" where
  "decimal_loop 0 copy out = Some out"
| "decimal_loop (Suc k) copy out = do {
     (q, remainder) \<leftarrow> bi_divide copy (bi_nat 10);
     c \<leftarrow> digit2char (ucast (word_at remainder 0));
     if bi_mag q = 0 then Some (c # out @ replicate k 0) else decimal_loop k q (c # out) }"

definition encode_decimal :: "bigint \<Rightarrow> bytes option" where
  "encode_decimal n = decimal_loop (decimal_size (bit_length (bi_mag n))) (set_sign False n) []"

fun decode_decimal :: "bytes \<Rightarrow> bigint \<Rightarrow> bigint option" where
  "decode_decimal [] r = Some r"
| "decode_decimal (c # buf) r = do {
     x \<leftarrow> char2digit c;
     if 10 \<le> x then None else decode_decimal buf (bi_add (bi_mul r (bi_nat 10)) (bi_nat (unat x))) }"

definition toString :: "bigint \<Rightarrow> qstring" where
  "toString n =
     (case encode_decimal n of
        None \<Rightarrow> []
      | Some cs \<Rightarrow> filter (\<lambda>u. u \<noteq> 0) ((if bi_neg n then [0x2d] else []) @ fromLatin1 cs))"

text \<open>The result, and the number afterwards.\<close>

definition fromString :: "(bytes \<Rightarrow> bytes) \<Rightarrow> qstring \<Rightarrow> bigint \<Rightarrow> bool \<times> bigint" where
  "fromString fromHex s n =
     (if s = [] then (False, n)
      else
        let cs = toLatin1 s;
            neg = (hd s = 0x2d);
            dat = (if neg then tl cs else cs)
        in
        if dat = [] then (False, n)
        else if 1 < length dat \<and> (dat ! 1 = 0x78 \<or> dat ! 1 = 0x58) then
          let h = drop 2 dat in
          if h = [] \<or> odd (length h) then (False, n)
          else
            let hexDecoded = fromHex h in
            if length hexDecoded \<noteq> length h div 2 then (False, n)
            else (True, set_sign neg (bi_abs \<lparr> br_neg = False, br_reg = binary_decode hexDecoded \<rparr>))
        else
          case decode_decimal dat (bi_nat 0) of
            None \<Rightarrow> (False, n)
          | Some r \<Rightarrow> (True, set_sign neg r))"

section \<open>Room for the digits\<close>

lemma power_step:
  fixes m m' :: nat
  assumes "2 ^ n \<le> m * 10 ^ e" and "n' = 2 * n + i" and "e' = 2 * e + k" and "m * m * 2 ^ i \<le> m' * 10 ^ k"
  shows "2 ^ n' \<le> m' * 10 ^ e'"
proof -
  have "(2 :: nat) ^ n' = 2 ^ n * 2 ^ n * 2 ^ i" by (simp add: assms(2) power_add mult_2)
  also have "\<dots> \<le> (m * 10 ^ e) * (m * 10 ^ e) * 2 ^ i" using assms(1) by (intro mult_mono) simp_all
  also have "\<dots> = (m * m * 2 ^ i) * 10 ^ (2 * e)" by (simp add: power_mult power2_eq_square power_mult_distrib mult_ac power_even_eq)
  also have "\<dots> \<le> (m' * 10 ^ k) * 10 ^ (2 * e)" using assms(4) by (rule mult_le_mono1)
  also have "\<dots> = m' * 10 ^ e'" by (simp add: assms(3) power_add mult_ac)
  finally show ?thesis .
qed

lemma power_10_steps: "(2 :: nat) ^ 13301 \<le> 9999362817038278 * 10 ^ 3988"
proof -
  have s0: "(2 :: nat) ^ 25 \<le> 33554432 * 10 ^ 0" by simp
  have s1: "(2 :: nat) ^ 51 \<le> 2251799813685248 * 10 ^ 0" by (rule power_step [OF s0, where i = 1 and k = 0]) simp_all
  have s2: "(2 :: nat) ^ 103 \<le> 1014120480182584 * 10 ^ 16" by (rule power_step [OF s1, where i = 1 and k = 16]) simp_all
  have s3: "(2 :: nat) ^ 207 \<le> 2056880696651510 * 10 ^ 47" by (rule power_step [OF s2, where i = 1 and k = 15]) simp_all
  have s4: "(2 :: nat) ^ 415 \<le> 8461516400515203 * 10 ^ 109" by (rule power_step [OF s3, where i = 1 and k = 15]) simp_all
  have s5: "(2 :: nat) ^ 831 \<le> 1431945195923756 * 10 ^ 235" by (rule power_step [OF s4, where i = 1 and k = 17]) simp_all
  have s6: "(2 :: nat) ^ 1662 \<le> 2050467044129124 * 10 ^ 485" by (rule power_step [OF s5, where i = 0 and k = 15]) simp_all
  have s7: "(2 :: nat) ^ 3325 \<le> 8408830198119254 * 10 ^ 985" by (rule power_step [OF s6, where i = 1 and k = 15]) simp_all
  have s8: "(2 :: nat) ^ 6650 \<le> 7070842530080230 * 10 ^ 1986" by (rule power_step [OF s7, where i = 0 and k = 16]) simp_all
  show "(2 :: nat) ^ 13301 \<le> 9999362817038278 * 10 ^ 3988" by (rule power_step [OF s8, where i = 1 and k = 16]) simp_all
qed

lemma digits_suffice:
  assumes "4004 * b \<le> 13301 * s"
  shows "(2 :: nat) ^ b \<le> 10 ^ s"
proof -
  define N M K where "N = (13301 :: nat)" and "M = (4004 :: nat)" and "K = (3988 :: nat)"
  have "(2 :: nat) ^ N \<le> 9999362817038278 * 10 ^ K" unfolding N_def K_def by (rule power_10_steps)
  also have "\<dots> \<le> 10 ^ 16 * 10 ^ K" by (rule mult_le_mono1) simp
  also have "\<dots> = 10 ^ (16 + K)" by (simp only: power_add)
  also have "16 + K = M" by (simp add: M_def K_def)
  finally have base: "(2 :: nat) ^ N \<le> 10 ^ M" .
  have "((2 :: nat) ^ b) ^ N = (2 ^ N) ^ b" by (metis mult.commute power_mult)
  also have "\<dots> \<le> (10 ^ M) ^ b" by (rule power_mono [OF base]) simp
  also have "\<dots> = 10 ^ (M * b)" by (simp only: power_mult)
  also have "\<dots> \<le> 10 ^ (N * s)" using assms unfolding N_def M_def by (intro power_increasing) simp_all
  also have "\<dots> = (10 ^ s) ^ N" by (metis mult.commute power_mult)
  finally have "((2 :: nat) ^ b) ^ N \<le> (10 ^ s) ^ N" .
  moreover have "0 < N" by (simp add: N_def)
  ultimately show ?thesis using power_mono_iff [of "2 ^ b :: nat" "10 ^ s" N] by simp
qed

lemma decimal_size_suffices: "b \<le> 36000 \<Longrightarrow> 2 ^ b \<le> (10 :: nat) ^ decimal_size b"
proof (rule digits_suffice)
  assume "b \<le> 36000"
  define f where "f = (b * 30102999566) div 100000000000"
  have "b * 30102999566 < 100000000000 * (f + 1)" unfolding f_def by (simp add: div_less_iff_less_mult [symmetric] mult.commute less_Suc_eq_le)
  then show "4004 * b \<le> 13301 * decimal_size b"
    using \<open>b \<le> 36000\<close> unfolding decimal_size_def f_def [symmetric] by linarith
qed

section \<open>Round trip\<close>

definition is_decimal :: "bytes \<Rightarrow> bool" where
  "is_decimal cs \<longleftrightarrow> list_all (\<lambda>c. 48 \<le> unat c \<and> unat c \<le> 57) cs"

definition dec_val :: "bytes \<Rightarrow> nat" where
  "dec_val cs = foldl (\<lambda>v c. v * 10 + (unat c - 48)) 0 cs"

text \<open>No superfluous leading zero.\<close>

definition canonical_decimal :: "bytes \<Rightarrow> bool" where
  "canonical_decimal cs \<longleftrightarrow> cs \<noteq> [] \<and> is_decimal cs \<and> (hd cs = 0x30 \<longrightarrow> cs = [0x30])"

lemma divide_by_10: "bi_divide (bi_nat v) (bi_nat 10) = Some (bi_nat (v div 10), bi_nat (v mod 10))"
  by (simp add: divide_abs sign_fixup_def)

lemma digit_byte:
  assumes "u < 10"
  shows "digit2char (ucast (word_at (bi_nat u) 0)) = Some (of_nat (48 + u)) \<and> unat (of_nat (48 + u) :: byte) = 48 + u"
proof -
  have w: "word_at (bi_nat u) 0 = of_nat u" by (simp add: word_at_def)
  have u: "unat (of_nat u :: byte) = u" "unat (of_nat (48 + u) :: byte) = 48 + u"
    using assms by (simp_all add: unsigned_of_nat take_bit_nat_eq_self del: of_nat_add)
  then have "(of_nat u :: byte) \<le> 9" using assms by (simp add: word_le_nat_alt)
  moreover have "ucast (of_nat u :: u32) = (of_nat u :: byte)"
    by (simp add: word_unat_eq_iff unsigned_ucast_eq unsigned_of_nat take_bit_take_bit)
  ultimately show ?thesis using u(2) by (simp add: w digit2char_def add.commute)
qed

lemma decimal_loop_val:
  "v < 10 ^ k \<Longrightarrow> 0 < k \<Longrightarrow>
   \<exists>ds. decimal_loop k (bi_nat v) out = Some (ds @ out @ replicate (k - length ds) 0) \<and> canonical_decimal ds \<and>
     dec_val ds = v \<and> (0 < v \<longrightarrow> hd ds \<noteq> 0x30)"
proof (induction k arbitrary: v out)
  case (Suc k)
  define c :: byte where "c = of_nat (48 + v mod 10)"
  have c: "digit2char (ucast (word_at (bi_nat (v mod 10)) 0)) = Some c" "unat c = 48 + v mod 10"
    using digit_byte [of "v mod 10"] by (simp_all add: c_def)
  have c0: "c = 0x30 \<longleftrightarrow> v mod 10 = 0" using c(2) by (auto simp: word_unat_eq_iff)
  show ?case
  proof (cases "v div 10 = 0")
    case True
    then have "v mod 10 = v" by simp
    then show ?thesis using c c0 True
      by (intro exI [of _ "[c]"]) (auto simp: divide_by_10 canonical_decimal_def is_decimal_def dec_val_def)
  next
    case False
    have "0 < k" using Suc.prems(1) False by (cases k) simp_all
    have "v div 10 < 10 ^ k" using Suc.prems(1) by (simp add: div_less_iff_less_mult mult.commute)
    from Suc.IH [OF this \<open>0 < k\<close>, of "c # out"] obtain ds where
      ds: "decimal_loop k (bi_nat (v div 10)) (c # out) = Some (ds @ (c # out) @ replicate (k - length ds) 0)"
      "canonical_decimal ds" "dec_val ds = v div 10" "hd ds \<noteq> 0x30" using False by auto
    then show ?thesis using False c
      by (intro exI [of _ "ds @ [c]"])
        (auto simp: divide_by_10 canonical_decimal_def is_decimal_def dec_val_def)
  qed
qed simp

lemma decode_decimal_fold:
  "is_decimal cs \<Longrightarrow> decode_decimal cs r =
     Some (foldl (\<lambda>r n. bi_add (bi_mul r (bi_nat 10)) (bi_nat n)) r (map (\<lambda>c. unat c - 48) cs))"
proof (induction cs arbitrary: r)
  case (Cons c cs)
  then have b: "48 \<le> unat c" "unat c \<le> 57" by (simp_all add: is_decimal_def)
  then have "0x30 \<le> c" "c \<le> 0x39" by (simp_all add: word_le_nat_alt)
  moreover from this(1) have u: "unat (c - 0x30) = unat c - 48" by (simp add: unat_sub)
  moreover have "\<not> 10 \<le> c - 0x30" using u b by (simp add: word_le_nat_alt)
  ultimately show ?case using Cons by (simp add: char2digit_def is_decimal_def)
qed simp

lemma decode_decimal_val: "is_decimal cs \<Longrightarrow> decode_decimal cs (bi_nat 0) = Some (bi_nat (dec_val cs))"
  using bi.horner [of 10 0 "map (\<lambda>c. unat c - 48) cs"] by (simp add: decode_decimal_fold dec_val_def foldl_map)

lemma toString_digits:
  assumes "bit_length (bi_mag n) \<le> 36000"
  shows "\<exists>ds. toString n = (if bi_neg n then [0x2d] else []) @ fromLatin1 ds \<and> canonical_decimal ds \<and> dec_val ds = bi_mag n"
proof -
  let ?v = "bi_mag n"
  let ?k = "decimal_size (bit_length ?v)"
  have "?v < 2 ^ bit_length ?v" using bit_length_bounds [of ?v] by (cases "?v = 0") simp_all
  also have "\<dots> \<le> 10 ^ ?k" by (rule decimal_size_suffices [OF assms])
  finally have lt: "?v < 10 ^ ?k" .
  have "0 < ?k" by (simp add: decimal_size_def)
  from decimal_loop_val [OF lt this, of "[]"] obtain ds where
    ds: "decimal_loop ?k (bi_nat ?v) [] = Some (ds @ replicate (?k - length ds) 0)" "canonical_decimal ds" "dec_val ds = ?v"
    by auto
  have "set_sign False n = bi_nat ?v" by (simp add: set_sign_def bi_nat_def)
  then have e: "encode_decimal n = Some (ds @ replicate (?k - length ds) 0)" using ds(1) by (simp add: encode_decimal_def)
  have "filter (\<lambda>u. u \<noteq> 0) (fromLatin1 ds) = fromLatin1 ds"
  proof (rule filter_True)
    show "\<forall>u \<in> set (fromLatin1 ds). u \<noteq> 0"
      using ds(2) by (auto simp: fromLatin1_def canonical_decimal_def is_decimal_def list_all_iff word_unat_eq_iff unat_ucast_up)
  qed
  then show ?thesis using e ds by (auto simp: toString_def fromLatin1_def)
qed

lemma digit_no_marker:
  assumes "is_decimal ds" and "i < length ds"
  shows "ds ! i \<noteq> 0x78" and "ds ! i \<noteq> 0x58" and "ds ! i \<noteq> 0x2d"
proof -
  have "48 \<le> unat (ds ! i)" "unat (ds ! i) \<le> 57" using assms by (simp_all add: is_decimal_def list_all_length)
  then show "ds ! i \<noteq> 0x78" "ds ! i \<noteq> 0x58" "ds ! i \<noteq> 0x2d" by auto
qed

lemma fromString_digits:
  assumes "is_decimal ds" and "ds \<noteq> []"
  shows "fromString fromHex ((if neg then [0x2d] else []) @ fromLatin1 ds) m = (True, set_sign neg (bi_nat (dec_val ds)))"
proof -
  have nohex: "\<not> (1 < length ds \<and> (ds ! 1 = 0x78 \<or> ds ! 1 = 0x58))" using digit_no_marker(1,2) [OF assms(1)] by blast
  have hd: "hd (fromLatin1 ds) \<noteq> 0x2d"
  proof -
    have "hd ds \<noteq> 0x2d" using digit_no_marker(3) [OF assms(1), of 0] assms(2) by (simp add: hd_conv_nth)
    then show ?thesis using assms(2) by (cases ds) (auto simp: fromLatin1_def word_unat_eq_iff unat_ucast_up)
  qed
  have m: "toLatin1 (0x2d # s) = 0x2d # toLatin1 s" for s by (simp add: toLatin1_def)
  show ?thesis using nohex hd assms decode_decimal_val [OF assms(1)] by (simp add: fromString_def Let_def m)
qed

text \<open>
  C26. Decimal text of big integers.  For every number of up to 36000 bits, \<^verbatim>\<open>toString\<close> yields
  the canonical decimal text (a minus sign exactly for negative numbers, no superfluous
  zeros): the buffer that \<^verbatim>\<open>encoded_size\<close> provides holds all digits.  \<^verbatim>\<open>fromString\<close> accepts that
  text and gives the number back, whatever Qt's hexadecimal conversion does.
\<close>

theorem big_text_round_trip:
  assumes "bi_ok n" and "bit_length (bi_mag n) \<le> 36000"
  shows "fromString fromHex (toString n) m = (True, n) \<and>
    (\<exists>ds. toString n = (if bi_neg n then [0x2d] else []) @ fromLatin1 ds \<and> canonical_decimal ds \<and> dec_val ds = bi_mag n)"
proof -
  obtain ds where ds: "toString n = (if bi_neg n then [0x2d] else []) @ fromLatin1 ds" "canonical_decimal ds"
    "dec_val ds = bi_mag n" using toString_digits [OF assms(2)] by auto
  moreover have "set_sign (bi_neg n) (bi_nat (bi_mag n)) = n"
    using assms(1) by (cases n) (auto simp: set_sign_def bi_nat_def bi_ok_def)
  ultimately show ?thesis using fromString_digits [of ds fromHex "bi_neg n" m]
    by (auto simp: canonical_decimal_def)
qed

theorem big_text_round_trip_witness:
  "fromString (\<lambda>h. []) (toString \<lparr> bi_neg = True, bi_mag = 4711 \<rparr>) (bi_nat 0) = (True, \<lparr> bi_neg = True, bi_mag = 4711 \<rparr>)"
  using big_text_round_trip [of "\<lparr> bi_neg = True, bi_mag = 4711 \<rparr>" "\<lambda>h. []" "bi_nat 0"]
  by (simp add: bi_ok_def bit_length.simps)

end
