(* ===== verification/MemPool.thy ===== *)
theory MemPool
  imports Prelude
begin

text \<open>
  The allocator of locked memory behind every secure array: \<^verbatim>\<open>Pooling_Allocator\<close> of
  \<^verbatim>\<open>src/src/botantools/botan/mem_pool.cpp\<close> as \<^verbatim>\<open>Locking_Allocator\<close> of \<^verbatim>\<open>defalloc.cpp\<close> sets it up.  Memory
  comes from the operating system in large pieces (\<open>alloc_block\<close>, a parameter: the answer of
  \<^verbatim>\<open>malloc\<close>) that are wiped when they come and when they go (\<open>do_malloc\<close>, \<open>do_free\<close>) and divided
  into pool blocks of 64 units of 64 bytes; a 64-bit map of each pool block records the units
  in use.

  An address is a natural number, \<open>0\<close> the null pointer; the contents of memory are a function of
  the address.  \<open>None\<close> stands for undefined behaviour (a dereferenced end iterator); exceptions
  are values.
\<close>

section \<open>Pool blocks\<close>

definition BITMAP_SIZE :: nat where "BITMAP_SIZE = 64"
definition BLOCK_SIZE :: nat where "BLOCK_SIZE = 64"

record memory_block =
  mb_bitmap :: u64
  mb_buffer :: nat

definition Memory_Block :: "nat \<Rightarrow> memory_block" where
  "Memory_Block buf = \<lparr> mb_bitmap = 0, mb_buffer = buf \<rparr>"

definition buffer_end :: "memory_block \<Rightarrow> nat" where
  "buffer_end b = mb_buffer b + BLOCK_SIZE * BITMAP_SIZE"

definition block_less :: "memory_block \<Rightarrow> memory_block \<Rightarrow> bool" where
  "block_less b other =
     (if mb_buffer b < mb_buffer other \<and> mb_buffer other < buffer_end b then False
      else mb_buffer b < mb_buffer other)"

definition contains :: "memory_block \<Rightarrow> nat \<Rightarrow> nat \<Rightarrow> bool" where
  "contains b ptr len \<longleftrightarrow> mb_buffer b \<le> ptr \<and> ptr + len * BLOCK_SIZE \<le> buffer_end b"

text \<open>The loop of \<^verbatim>\<open>Memory_Block::alloc\<close>: the mask and the offset at which it stops.\<close>

partial_function (option) alloc_search :: "u64 \<Rightarrow> u64 \<Rightarrow> nat \<Rightarrow> (u64 \<times> nat) option" where
  "alloc_search bitmap m offset =
     (if bitmap AND m = 0 then Some (m, offset)
      else if bitmap AND push_bit 1 m = 0 then Some (push_bit 1 m, Suc offset)
      else if drop_bit 63 (push_bit 1 m) \<noteq> 0 then Some (push_bit 1 m, Suc offset)
      else alloc_search bitmap (push_bit 1 m) (Suc offset))"

definition mb_alloc :: "nat \<Rightarrow> memory_block \<Rightarrow> (nat option \<times> memory_block) option" where
  "mb_alloc n b =
     (if n = 0 \<or> BITMAP_SIZE < n then Some (None, b)
      else if n = BITMAP_SIZE then
        (if mb_bitmap b \<noteq> 0 then Some (None, b)
         else Some (Some (mb_buffer b), b\<lparr> mb_bitmap := NOT (mb_bitmap b) \<rparr>))
      else do {
        (m, offset) \<leftarrow> alloc_search (mb_bitmap b) (push_bit n 1 - 1) 0;
        if mb_bitmap b AND m \<noteq> 0 then Some (None, b)
        else Some (Some (mb_buffer b + offset * BLOCK_SIZE), b\<lparr> mb_bitmap := mb_bitmap b OR m \<rparr>) })"

definition mb_free :: "nat \<Rightarrow> nat \<Rightarrow> memory_block \<Rightarrow> memory_block" where
  "mb_free ptr n b =
     (let offset = (ptr - mb_buffer b) div BLOCK_SIZE in
      if offset = 0 \<and> n = BITMAP_SIZE then b\<lparr> mb_bitmap := NOT (mb_bitmap b) \<rparr>
      else b\<lparr> mb_bitmap := foldl (\<lambda>bm j. bm AND NOT (push_bit (j + offset) 1)) (mb_bitmap b) [0..<n] \<rparr>)"

section \<open>The pool\<close>

datatype pool_error = Memory_Exhaustion | Invalid_State

record pool =
  pl_blocks :: "memory_block list"
  pl_last_used :: nat
  pl_allocated :: "(nat \<times> nat) list"
  pl_memory :: "nat \<Rightarrow> byte"

definition clear_mem :: "nat \<Rightarrow> nat \<Rightarrow> (nat \<Rightarrow> byte) \<Rightarrow> (nat \<Rightarrow> byte)" where
  "clear_mem ptr n mem = (\<lambda>a. if ptr \<le> a \<and> a < ptr + n then 0 else mem a)"

text \<open>
  \<^verbatim>\<open>Locking_Allocator::alloc_block\<close> and \<^verbatim>\<open>dealloc_block\<close>: the memory is wiped after \<^verbatim>\<open>malloc\<close>
  and before \<^verbatim>\<open>free\<close>; locking the pages has no effect on their contents.
\<close>

definition do_malloc :: "(nat \<Rightarrow> nat option) \<Rightarrow> nat \<Rightarrow> (nat \<Rightarrow> byte) \<Rightarrow> (nat \<times> (nat \<Rightarrow> byte)) option" where
  "do_malloc alloc_block n mem =
     (case alloc_block n of None \<Rightarrow> None | Some ptr \<Rightarrow> Some (ptr, clear_mem ptr n mem))"

definition do_free :: "nat \<Rightarrow> nat \<Rightarrow> (nat \<Rightarrow> byte) \<Rightarrow> (nat \<Rightarrow> byte)" where
  "do_free ptr n mem = (if ptr = 0 then mem else clear_mem ptr n mem)"

text \<open>\<^verbatim>\<open>std::lower_bound\<close> on a sorted vector.\<close>

definition lower_bound :: "memory_block list \<Rightarrow> memory_block \<Rightarrow> nat" where
  "lower_bound bs b = length (takeWhile (\<lambda>c. block_less c b) bs)"

definition Pooling_Allocator :: "(nat \<Rightarrow> byte) \<Rightarrow> pool" where
  "Pooling_Allocator mem = \<lparr> pl_blocks = [], pl_last_used = 0, pl_allocated = [], pl_memory = mem \<rparr>"

text \<open>The loop of \<^verbatim>\<open>allocate_blocks\<close> over the positions from \<^verbatim>\<open>last_used\<close> on, around the end.\<close>

fun try_blocks :: "nat \<Rightarrow> pool \<Rightarrow> nat list \<Rightarrow> (nat option \<times> pool) option" where
  "try_blocks n s [] = Some (None, s)"
| "try_blocks n s (i # is) = do {
     (mem, b) \<leftarrow> mb_alloc n (pl_blocks s ! i);
     case mem of
       Some p \<Rightarrow> Some (Some p, s\<lparr> pl_blocks := (pl_blocks s)[i := b], pl_last_used := i \<rparr>)
     | None \<Rightarrow> try_blocks n s is }"

definition allocate_blocks :: "nat \<Rightarrow> pool \<Rightarrow> (nat option \<times> pool) option" where
  "allocate_blocks n s =
     (if pl_blocks s = [] then Some (None, s)
      else if length (pl_blocks s) \<le> pl_last_used s then None
      else try_blocks n s ([pl_last_used s..<length (pl_blocks s)] @ [0..<pl_last_used s]))"

text \<open>The size of the pieces, from the argument of the constructor and the library's setting.\<close>

definition choose_pref_size :: "nat \<Rightarrow> nat \<Rightarrow> nat" where
  "choose_pref_size provided prealloc = (if provided \<noteq> 0 then provided else if prealloc \<noteq> 0 then prealloc else 16 * 1024)"

text \<open>\<^verbatim>\<open>Locking_Allocator\<close>, \<^verbatim>\<open>Malloc_Allocator\<close> and the memory-mapped allocator ask for pieces of 64 kilobytes.\<close>

definition locking_pref_size :: "nat \<Rightarrow> nat" where
  "locking_pref_size prealloc = choose_pref_size (64 * 1024) prealloc"

definition in_blocks :: "nat \<Rightarrow> nat" where
  "in_blocks in_bytes = round_up in_bytes BLOCK_SIZE div (BLOCK_SIZE * BITMAP_SIZE)"

definition get_more_core :: "(nat \<Rightarrow> nat option) \<Rightarrow> nat \<Rightarrow> pool \<Rightarrow> pool option" where
  "get_more_core alloc_block in_bytes s =
     (let to_allocate = in_blocks in_bytes * (BLOCK_SIZE * BITMAP_SIZE) in
      case do_malloc alloc_block to_allocate (pl_memory s) of
        None \<Rightarrow> None
      | Some (ptr, mem) \<Rightarrow>
          let new = map (\<lambda>j. Memory_Block (ptr + j * (BLOCK_SIZE * BITMAP_SIZE))) [0..<in_blocks in_bytes];
              sorted = sort_key mb_buffer (pl_blocks s @ new)
          in Some (s\<lparr> pl_allocated := pl_allocated s @ [(ptr, to_allocate)], pl_blocks := sorted,
                      pl_last_used := lower_bound sorted (Memory_Block ptr), pl_memory := mem \<rparr>))"

definition allocate :: "(nat \<Rightarrow> nat option) \<Rightarrow> nat \<Rightarrow> nat \<Rightarrow> pool \<Rightarrow> ((pool_error + nat) \<times> pool) option" where
  "allocate alloc_block PREF_SIZE n s =
     (if n \<le> BITMAP_SIZE * BLOCK_SIZE then do {
        let block_no = round_up n BLOCK_SIZE div BLOCK_SIZE;
        (mem, s) \<leftarrow> allocate_blocks block_no s;
        case mem of
          Some p \<Rightarrow> Some (Inr p, s)
        | None \<Rightarrow>
            (case get_more_core alloc_block PREF_SIZE s of
               None \<Rightarrow> Some (Inl Memory_Exhaustion, s)
             | Some s \<Rightarrow> do {
                 (mem, s) \<leftarrow> allocate_blocks block_no s;
                 Some (case mem of Some p \<Rightarrow> Inr p | None \<Rightarrow> Inl Memory_Exhaustion, s) }) }
      else
        Some (case do_malloc alloc_block n (pl_memory s) of
                Some (p, mem) \<Rightarrow> (Inr p, s\<lparr> pl_memory := mem \<rparr>)
              | None \<Rightarrow> (Inl Memory_Exhaustion, s)))"

definition deallocate :: "nat \<Rightarrow> nat \<Rightarrow> pool \<Rightarrow> (pool_error + unit) \<times> pool" where
  "deallocate ptr n s =
     (if ptr = 0 \<or> n = 0 then (Inr (), s)
      else if BITMAP_SIZE * BLOCK_SIZE < n then
        (Inr (), s\<lparr> pl_memory := do_free ptr n (pl_memory s) \<rparr>)
      else
        let block_no = round_up n BLOCK_SIZE div BLOCK_SIZE;
            i = lower_bound (pl_blocks s) (Memory_Block ptr)
        in
        if i = length (pl_blocks s) \<or> \<not> contains (pl_blocks s ! i) ptr block_no then (Inl Invalid_State, s)
        else (Inr (), s\<lparr> pl_blocks := (pl_blocks s)[i := mb_free ptr block_no (pl_blocks s ! i)],
                         pl_memory := clear_mem ptr (block_no * BLOCK_SIZE) (pl_memory s) \<rparr>))"

text \<open>\<^verbatim>\<open>destroy\<close> hands the pieces back to the operating system: they are its first result.\<close>

definition destroy :: "pool \<Rightarrow> (nat \<times> nat) list \<times> pool" where
  "destroy s =
     (pl_allocated s,
      s\<lparr> pl_blocks := [], pl_allocated := [],
         pl_memory := foldl (\<lambda>mem (ptr, n). do_free ptr n mem) (pl_memory s) (pl_allocated s) \<rparr>)"

section \<open>Units and masks\<close>

text \<open>The units that a request of \<open>n\<close> bytes takes, and the bytes it reserves.\<close>

definition units :: "nat \<Rightarrow> nat" where
  "units n = round_up n BLOCK_SIZE div BLOCK_SIZE"

definition span :: "nat \<Rightarrow> nat" where
  "span n = (if n \<le> BITMAP_SIZE * BLOCK_SIZE then units n * BLOCK_SIZE else n)"

lemmas pool_sizes = BITMAP_SIZE_def BLOCK_SIZE_def

lemma units_bounds: "0 < n \<Longrightarrow> n \<le> 4096 \<Longrightarrow> 0 < units n \<and> units n \<le> 64 \<and> n \<le> 64 * units n"
proof -
  assume n: "0 < n" "n \<le> 4096"
  define q r where "q = n div 64" and "r = n mod 64"
  have e: "n = 64 * q + r" and r: "r < 64" by (simp_all add: q_def r_def)
  have u: "units n = (if r = 0 then q else q + 1)"
    using n r unfolding units_def round_up_def BLOCK_SIZE_def r_def [symmetric]
    by (auto simp: e div_add1_eq)
  show ?thesis using u e n r by (cases "r = 0") auto
qed

lemma bit_run: "bit (push_bit offset (mask n) :: u64) j \<longleftrightarrow> offset \<le> j \<and> j < offset + n \<and> j < 64"
  by (auto simp: bit_push_bit_iff bit_mask_iff possible_bit_word)

lemma run_free: "bm AND push_bit offset (mask n) = 0 \<longleftrightarrow> (\<forall>j. offset \<le> j \<and> j < offset + n \<and> j < 64 \<longrightarrow> \<not> bit (bm :: u64) j)"
  by (auto simp: bit_eq_iff bit_and_iff bit_run possible_bit_word dest: bit_imp_possible_bit)

lemma top_bit_63: "drop_bit 63 (m :: u64) \<noteq> 0 \<longleftrightarrow> bit m 63"
proof
  assume "drop_bit 63 m \<noteq> 0"
  then obtain j where "bit m (63 + j)" by (auto simp: bit_eq_iff bit_drop_bit_eq)
  moreover from this have "63 + j < 64" using bit_imp_le_length by fastforce
  ultimately show "bit m 63" by simp
next
  assume "bit m 63"
  then have "bit (drop_bit 63 m) 0" by (simp add: bit_drop_bit_eq)
  then show "drop_bit 63 m \<noteq> 0" by auto
qed

lemma alloc_search_run:
  assumes "0 < n" and "offset + n < 64"
  shows "\<exists>k. alloc_search bm (push_bit offset (mask n)) offset = Some (push_bit k (mask n), k) \<and> k + n \<le> 64 \<and>
    (bm AND push_bit k (mask n) \<noteq> 0 \<longrightarrow> (\<forall>i. offset \<le> i \<and> i + n \<le> 64 \<longrightarrow> bm AND push_bit i (mask n) \<noteq> 0))"
  using assms
proof (induction "64 - offset" arbitrary: offset rule: less_induct)
  case less
  let ?m = "push_bit offset (mask n) :: u64" and ?m' = "push_bit (Suc offset) (mask n) :: u64"
  have sh: "push_bit 1 ?m = ?m'" by (simp add: push_bit_push_bit)
  note unfold = alloc_search.simps [of bm ?m offset, unfolded sh]
  have top: "drop_bit 63 ?m' \<noteq> 0 \<longleftrightarrow> Suc offset + n = 64"
    unfolding top_bit_63 bit_run using less.prems by linarith
  consider (here) "bm AND ?m = 0" | (step) "bm AND ?m \<noteq> 0" "bm AND ?m' = 0"
    | (stop) "bm AND ?m \<noteq> 0" "bm AND ?m' \<noteq> 0" "Suc offset + n = 64"
    | (on) "bm AND ?m \<noteq> 0" "bm AND ?m' \<noteq> 0" "Suc offset + n < 64"
    using less.prems by linarith
  then show ?case
  proof cases
    case here
    then show ?thesis using unfold less.prems by (intro exI [of _ offset]) simp
  next
    case step
    then show ?thesis using unfold less.prems by (intro exI [of _ "Suc offset"]) simp
  next
    case stop
    have "bm AND push_bit i (mask n) \<noteq> 0" if "offset \<le> i" "i + n \<le> 64" for i
    proof -
      have "i = offset \<or> i = Suc offset" using stop(3) that by linarith
      then show ?thesis using stop(1,2) by blast
    qed
    then show ?thesis using stop top unfold by (intro exI [of _ "Suc offset"]) simp
  next
    case on
    have dec: "64 - Suc offset < 64 - offset" using less.prems by linarith
    obtain k where k: "alloc_search bm ?m' (Suc offset) = Some (push_bit k (mask n), k)" "k + n \<le> 64"
      "bm AND push_bit k (mask n) \<noteq> 0 \<longrightarrow> (\<forall>i. Suc offset \<le> i \<and> i + n \<le> 64 \<longrightarrow> bm AND push_bit i (mask n) \<noteq> 0)"
      using less.hyps [OF dec less.prems(1) on(3)] by blast
    have "bm AND push_bit i (mask n) \<noteq> 0" if "bm AND push_bit k (mask n) \<noteq> 0" "offset \<le> i" "i + n \<le> 64" for i
      using that on(1) k(3) by (cases "i = offset") (simp_all add: less_eq_Suc_le)
    then show ?thesis using on top unfold k(1,2) by (intro exI [of _ k]) simp
  qed
qed

text \<open>What allocating in one pool block does.\<close>

lemma mb_alloc_val:
  assumes "0 < n" and "n \<le> 64"
  shows "\<exists>mem b'. mb_alloc n b = Some (mem, b') \<and> mb_buffer b' = mb_buffer b \<and>
    (case mem of
       None \<Rightarrow> b' = b \<and> (\<forall>i. i + n \<le> 64 \<longrightarrow> (\<exists>j. i \<le> j \<and> j < i + n \<and> bit (mb_bitmap b) j))
     | Some p \<Rightarrow> \<exists>k. p = mb_buffer b + k * 64 \<and> k + n \<le> 64 \<and>
         (\<forall>j. bit (mb_bitmap b') j \<longleftrightarrow> bit (mb_bitmap b) j \<or> (k \<le> j \<and> j < k + n)) \<and>
         (\<forall>j. k \<le> j \<and> j < k + n \<longrightarrow> \<not> bit (mb_bitmap b) j))"
proof (cases "n = 64")
  case True
  show ?thesis
  proof (cases "mb_bitmap b = 0")
    case zero: True
    have "bit (- 1 :: u64) j \<longleftrightarrow> j < 64" for j by (simp add: possible_bit_word)
    then show ?thesis using True zero
      by (intro exI [of _ "Some (mb_buffer b)"] exI [of _ "b\<lparr> mb_bitmap := NOT (mb_bitmap b) \<rparr>"])
        (auto simp: mb_alloc_def pool_sizes)
  next
    case False
    then obtain j where "bit (mb_bitmap b) j" by (auto simp: bit_eq_iff)
    moreover from this have "j < 64" using bit_imp_le_length by fastforce
    ultimately show ?thesis using True False by (auto simp: mb_alloc_def pool_sizes)
  qed
next
  case False
  let ?bm = "mb_bitmap b"
  have m: "push_bit n 1 - 1 = (push_bit 0 (mask n) :: u64)" by (simp add: mask_eq_exp_minus_1 push_bit_eq_mult)
  obtain k where k: "alloc_search ?bm (push_bit n 1 - 1) 0 = Some (push_bit k (mask n), k)" "k + n \<le> 64"
    "?bm AND push_bit k (mask n) \<noteq> 0 \<longrightarrow> (\<forall>i. i + n \<le> 64 \<longrightarrow> ?bm AND push_bit i (mask n) \<noteq> 0)"
    using alloc_search_run [of n 0 ?bm] assms False unfolding m by auto
  have e: "mb_alloc n b = (if ?bm AND push_bit k (mask n) \<noteq> 0 then Some (None, b)
      else Some (Some (mb_buffer b + k * 64), b\<lparr> mb_bitmap := ?bm OR push_bit k (mask n) \<rparr>))"
    using assms False k(1) by (simp add: mb_alloc_def pool_sizes)
  show ?thesis
  proof (cases "?bm AND push_bit k (mask n) = 0")
    case True
    then have "\<not> bit ?bm j" if "k \<le> j" "j < k + n" for j using that k(2) unfolding run_free by simp
    then show ?thesis using True k(2) e by (auto simp: bit_or_iff bit_run)
  next
    case busy: False
    have "\<exists>j. i \<le> j \<and> j < i + n \<and> bit ?bm j" if "i + n \<le> 64" for i
      using k(3) busy that unfolding run_free by blast
    then show ?thesis using busy e by auto
  qed
qed

lemma mb_free_val:
  assumes "ptr = mb_buffer b + k * 64" and "k + n \<le> 64" and "\<And>j. k \<le> j \<Longrightarrow> j < k + n \<Longrightarrow> bit (mb_bitmap b) j"
  shows "mb_buffer (mb_free ptr n b) = mb_buffer b \<and>
    (\<forall>j. bit (mb_bitmap (mb_free ptr n b)) j \<longleftrightarrow> bit (mb_bitmap b) j \<and> \<not> (k \<le> j \<and> j < k + n))"
proof -
  have off: "(ptr - mb_buffer b) div 64 = k" using assms(1) by simp
  have clr: "bit (foldl (\<lambda>bm j. bm AND NOT (push_bit (j + k) 1)) bm [0..<i]) j \<longleftrightarrow> bit bm j \<and> \<not> (k \<le> j \<and> j < k + i)"
    for bm :: u64 and i j
  proof (induction i)
    case (Suc i)
    have "bit (push_bit (i + k) 1 :: u64) j \<longleftrightarrow> j = i + k \<and> j < 64"
      by (auto simp: bit_exp_iff possible_bit_word)
    then show ?case using Suc bit_imp_le_length [of bm j]
      by (auto simp: bit_and_iff bit_not_iff possible_bit_word)
  qed simp
  show ?thesis
  proof (cases "k = 0 \<and> n = 64")
    case True
    then have "bit (NOT (mb_bitmap b)) j \<longleftrightarrow> bit (mb_bitmap b) j \<and> \<not> (k \<le> j \<and> j < k + n)" for j
      using assms(3) [of j] bit_imp_le_length [of "mb_bitmap b" j] by (auto simp: bit_not_iff possible_bit_word)
    then show ?thesis using True off by (simp add: mb_free_def pool_sizes)
  next
    case False
    then show ?thesis using off clr by (auto simp: mb_free_def pool_sizes)
  qed
qed

section \<open>Invariant\<close>

text \<open>
  A request is a pair of the address it was given and its size in bytes; \<open>live\<close> is the set of
  requests not yet returned.  Requests above 4096 bytes go to the operating system.
\<close>

definition small :: "nat \<times> nat \<Rightarrow> bool" where "small x \<longleftrightarrow> snd x \<le> 4096"

definition apart :: "nat \<Rightarrow> nat \<Rightarrow> nat \<Rightarrow> nat \<Rightarrow> bool" where
  "apart p n q m \<longleftrightarrow> p + n \<le> q \<or> q + m \<le> p"

definition covers :: "nat \<times> nat \<Rightarrow> nat \<Rightarrow> bool" where
  "covers x a \<longleftrightarrow> small x \<and> fst x \<le> a \<and> a < fst x + 64 * units (snd x)"

definition held :: "pool \<Rightarrow> (nat \<times> nat) set \<Rightarrow> (nat \<times> nat) set" where
  "held s live = set (pl_allocated s) \<union> {x \<in> live. \<not> small x}"

definition map_ok :: "(nat \<times> nat) set \<Rightarrow> memory_block \<Rightarrow> bool" where
  "map_ok live b \<longleftrightarrow> (\<forall>j < 64. bit (mb_bitmap b) j \<longleftrightarrow> (\<exists>x \<in> live. covers x (mb_buffer b + j * 64)))"

definition buffers :: "pool \<Rightarrow> nat list" where
  "buffers s = map mb_buffer (pl_blocks s)"

text \<open>Every small request lies in one pool block, at a whole number of units.\<close>

definition placed :: "nat list \<Rightarrow> nat \<times> nat \<Rightarrow> bool" where
  "placed bufs x \<longleftrightarrow> (\<exists>a \<in> set bufs. \<exists>k. fst x = a + k * 64 \<and> k + units (snd x) \<le> 64)"

definition pool_inv :: "pool \<Rightarrow> (nat \<times> nat) set \<Rightarrow> bool" where
  "pool_inv s live \<longleftrightarrow>
     sorted_wrt (\<lambda>a c. a + 4096 \<le> c) (buffers s) \<and>
     (\<forall>a \<in> set (buffers s). \<exists>x \<in> set (pl_allocated s). 0 < fst x \<and> fst x \<le> a \<and> a + 4096 \<le> fst x + snd x) \<and>
     (pl_blocks s = [] \<or> pl_last_used s < length (pl_blocks s)) \<and>
     (\<forall>x \<in> held s live. \<forall>y \<in> held s live. x \<noteq> y \<longrightarrow> apart (fst x) (snd x) (fst y) (snd y)) \<and>
     (\<forall>x \<in> live. 0 < fst x \<and> 0 < snd x) \<and>
     (\<forall>x \<in> live. small x \<longrightarrow> placed (buffers s) x) \<and>
     (\<forall>x \<in> live. \<forall>y \<in> live. small x \<and> small y \<and> x \<noteq> y \<longrightarrow>
        apart (fst x) (64 * units (snd x)) (fst y) (64 * units (snd y))) \<and>
     (\<forall>b \<in> set (pl_blocks s). map_ok live b) \<and>
     (\<forall>x \<in> live. \<not> small x \<longrightarrow> x \<notin> set (pl_allocated s))"

lemma pool_invD:
  assumes "pool_inv s live"
  shows "sorted_wrt (\<lambda>a c. a + 4096 \<le> c) (buffers s)"
    and "a \<in> set (buffers s) \<Longrightarrow> \<exists>x \<in> set (pl_allocated s). 0 < fst x \<and> fst x \<le> a \<and> a + 4096 \<le> fst x + snd x"
    and "pl_blocks s = [] \<or> pl_last_used s < length (pl_blocks s)"
    and "x \<in> held s live \<Longrightarrow> y \<in> held s live \<Longrightarrow> x \<noteq> y \<Longrightarrow> apart (fst x) (snd x) (fst y) (snd y)"
    and "x \<in> live \<Longrightarrow> 0 < fst x \<and> 0 < snd x"
    and "x \<in> live \<Longrightarrow> small x \<Longrightarrow> placed (buffers s) x"
    and "x \<in> live \<Longrightarrow> y \<in> live \<Longrightarrow> small x \<Longrightarrow> small y \<Longrightarrow> x \<noteq> y \<Longrightarrow>
      apart (fst x) (64 * units (snd x)) (fst y) (64 * units (snd y))"
    and "b \<in> set (pl_blocks s) \<Longrightarrow> map_ok live b"
    and "x \<in> live \<Longrightarrow> \<not> small x \<Longrightarrow> x \<notin> set (pl_allocated s)"
  using assms unfolding pool_inv_def by blast+

lemma pool_inv_memory: "pool_inv (s\<lparr> pl_memory := mem \<rparr>) live = pool_inv s live"
  by (simp add: pool_inv_def buffers_def held_def)

lemma buffers_apart:
  assumes "sorted_wrt (\<lambda>a c. a + 4096 \<le> c) bufs" and "a \<in> set bufs" and "c \<in> set bufs" and "a \<noteq> c"
  shows "a + 4096 \<le> c \<or> c + 4096 \<le> (a :: nat)"
proof -
  obtain i j where ij: "i < length bufs" "j < length bufs" "bufs ! i = a" "bufs ! j = c"
    using assms(2,3) by (metis in_set_conv_nth)
  then have "i < j \<or> j < i" using assms(4) by (metis linorder_neqE_nat)
  then show ?thesis using sorted_wrt_nth_less [OF assms(1)] ij by blast
qed

text \<open>A placed request covers no unit of another pool block.\<close>

lemma placed_elsewhere:
  assumes "sorted_wrt (\<lambda>a c. a + 4096 \<le> c) bufs" and "a \<in> set bufs" and "c \<in> set bufs" and "a \<noteq> c"
    and "k + u \<le> 64" and "j < 64"
  shows "\<not> (a + k * 64 \<le> (c :: nat) + j * 64 \<and> c + j * 64 < a + k * 64 + 64 * u)"
  using buffers_apart [OF assms(1-4)] assms(5,6) by linarith

lemma taken_live:
  assumes inv: "pool_inv s live" and n: "0 < n" "n \<le> 4096" and i: "i < length (pl_blocks s)"
    and b': "mb_buffer b' = mb_buffer (pl_blocks s ! i)"
    and p: "p = mb_buffer (pl_blocks s ! i) + k * 64" "k + units n \<le> 64"
    and bits: "\<And>j. bit (mb_bitmap b') j \<longleftrightarrow> bit (mb_bitmap (pl_blocks s ! i)) j \<or> (k \<le> j \<and> j < k + units n)"
    and free: "\<And>j. k \<le> j \<Longrightarrow> j < k + units n \<Longrightarrow> \<not> bit (mb_bitmap (pl_blocks s ! i)) j"
  shows "pool_inv (s\<lparr> pl_blocks := (pl_blocks s)[i := b'], pl_last_used := i \<rparr>) (insert (p, n) live) \<and> (p, n) \<notin> live"
proof -
  let ?s = "s\<lparr> pl_blocks := (pl_blocks s)[i := b'], pl_last_used := i \<rparr>" and ?b = "pl_blocks s ! i"
  let ?a = "mb_buffer ?b"
  note I = pool_invD [OF inv]
  have bufs: "buffers ?s = buffers s" using b' i by (simp add: buffers_def map_update list_update_same_conv)
  have a: "?a \<in> set (buffers s)" using i by (simp add: buffers_def)
  have u: "0 < units n" "units n \<le> 64" using units_bounds [OF n] by auto
  have cov: "covers (p, n) c \<longleftrightarrow> p \<le> c \<and> c < p + 64 * units n" for c using n by (simp add: covers_def small_def)
  have uncov: "\<not> covers x (?a + j * 64)" if "x \<in> live" "k \<le> j" "j < k + units n" for x j
    using I(8) [OF nth_mem [OF i]] free [OF that(2,3)] that p(2) by (auto simp: map_ok_def)
  have new: "apart p (64 * units n) (fst y) (64 * units (snd y))" if y: "y \<in> live" "small y" for y
  proof -
    obtain c k2 where c: "c \<in> set (buffers s)" "fst y = c + k2 * 64" "k2 + units (snd y) \<le> 64"
      using I(6) [OF y] by (auto simp: placed_def)
    have uy: "0 < units (snd y)" using units_bounds [of "snd y"] I(5) [OF y(1)] y(2) by (simp add: small_def)
    show ?thesis
    proof (cases "c = ?a")
      case True
      have "\<not> (k \<le> k2 \<and> k2 < k + units n)" using uncov [OF y(1), of k2] True c uy y(2) by (auto simp: covers_def)
      moreover have "\<not> (k2 \<le> k \<and> k < k2 + units (snd y))"
        using uncov [OF y(1), of k] True c u(1) y(2) by (auto simp: covers_def)
      ultimately have "k + units n \<le> k2 \<or> k2 + units (snd y) \<le> k" by linarith
      then show ?thesis using True c(2) p(1) by (auto simp: apart_def)
    next
      case False
      then show ?thesis using buffers_apart [OF I(1) a c(1)] c(2,3) p by (auto simp: apart_def)
    qed
  qed
  have mok: "map_ok (insert (p, n) live) c" if "c \<in> set ((pl_blocks s)[i := b'])" for c
  proof -
    from that obtain i' where i': "i' < length (pl_blocks s)" "c = (pl_blocks s)[i := b'] ! i'"
      by (metis in_set_conv_nth length_list_update)
    show ?thesis
    proof (cases "i' = i")
      case True
      have "map_ok live ?b" using I(8) i by simp
      then show ?thesis using True i' i bits b' p(1) cov by (auto simp: map_ok_def)
    next
      case False
      then have c: "c = pl_blocks s ! i'" using i' by simp
      have ne: "mb_buffer c \<noteq> ?a"
        using sorted_wrt_nth_less [OF I(1), of i i'] sorted_wrt_nth_less [OF I(1), of i' i] False i i'(1) c
        by (auto simp: buffers_def linorder_neq_iff)
      have "mb_buffer c \<in> set (buffers s)" using i'(1) c by (simp add: buffers_def)
      then have "\<not> covers (p, n) (mb_buffer c + j * 64)" if "j < 64" for j
        using placed_elsewhere [OF I(1) a _ ne [symmetric] p(2) that] cov p(1) by simp
      then show ?thesis using I(8) [of c] i'(1) c by (auto simp: map_ok_def)
    qed
  qed
  have "placed (buffers s) (p, n)" using a p by (auto simp: placed_def)
  moreover have "0 < p" using I(2) [OF a] p(1) by auto
  moreover have "held ?s (insert (p, n) live) = held s live" using n by (auto simp: held_def small_def)
  moreover have "apart (fst y) (64 * units (snd y)) p (64 * units n)" if "y \<in> live" "small y" for y
    using new [OF that] by (auto simp: apart_def)
  ultimately have "pool_inv ?s (insert (p, n) live)" using I(1-7,9) new mok bufs i n
    unfolding pool_inv_def by (auto simp: small_def)
  moreover have "(p, n) \<notin> live" using new [of "(p, n)"] n u by (auto simp: small_def apart_def)
  ultimately show ?thesis ..
qed

section \<open>Allocation\<close>

lemma try_blocks_val:
  assumes inv: "pool_inv s live" and n: "0 < n" "n \<le> 4096"
  shows "\<forall>i \<in> set is. i < length (pl_blocks s) \<Longrightarrow>
    \<exists>mem s'. try_blocks (units n) s is = Some (mem, s') \<and>
      (case mem of
         None \<Rightarrow> s' = s \<and> (\<forall>i \<in> set is. mb_bitmap (pl_blocks s ! i) \<noteq> 0)
       | Some p \<Rightarrow> pool_inv s' (insert (p, n) live) \<and> (p, n) \<notin> live)"
proof (induction "is")
  case (Cons i "is")
  let ?b = "pl_blocks s ! i"
  have u: "0 < units n" "units n \<le> 64" using units_bounds [OF n] by auto
  obtain mem b' where b: "mb_alloc (units n) ?b = Some (mem, b')" "mb_buffer b' = mb_buffer ?b" and
    c: "case mem of
       None \<Rightarrow> b' = ?b \<and> (\<forall>i. i + units n \<le> 64 \<longrightarrow> (\<exists>j. i \<le> j \<and> j < i + units n \<and> bit (mb_bitmap ?b) j))
     | Some p \<Rightarrow> \<exists>k. p = mb_buffer ?b + k * 64 \<and> k + units n \<le> 64 \<and>
         (\<forall>j. bit (mb_bitmap b') j \<longleftrightarrow> bit (mb_bitmap ?b) j \<or> (k \<le> j \<and> j < k + units n)) \<and>
         (\<forall>j. k \<le> j \<and> j < k + units n \<longrightarrow> \<not> bit (mb_bitmap ?b) j)"
    using mb_alloc_val [OF u, of ?b] by blast
  show ?case
  proof (cases mem)
    case None
    then have "\<forall>i. i + units n \<le> 64 \<longrightarrow> (\<exists>j. i \<le> j \<and> j < i + units n \<and> bit (mb_bitmap ?b) j)" using c by simp
    from spec [OF this, of 0] u(2) have "mb_bitmap ?b \<noteq> 0" by auto
    moreover obtain mem1 s1 where "try_blocks (units n) s is = Some (mem1, s1)"
      "case mem1 of
         None \<Rightarrow> s1 = s \<and> (\<forall>i \<in> set is. mb_bitmap (pl_blocks s ! i) \<noteq> 0)
       | Some p \<Rightarrow> pool_inv s1 (insert (p, n) live) \<and> (p, n) \<notin> live"
      using Cons.IH Cons.prems by (elim exE conjE meta_impE) (auto intro: that)
    ultimately show ?thesis using None b by (cases mem1) simp_all
  next
    case (Some p)
    then obtain k where k: "p = mb_buffer ?b + k * 64" "k + units n \<le> 64"
      "\<And>j. bit (mb_bitmap b') j \<longleftrightarrow> bit (mb_bitmap ?b) j \<or> (k \<le> j \<and> j < k + units n)"
      "\<And>j. k \<le> j \<Longrightarrow> j < k + units n \<Longrightarrow> \<not> bit (mb_bitmap ?b) j" using c by auto
    have "i < length (pl_blocks s)" using Cons.prems by simp
    from taken_live [OF inv n this b(2) k] Some b show ?thesis by simp
  qed
qed simp

lemma allocate_blocks_val:
  assumes inv: "pool_inv s live" and n: "0 < n" "n \<le> 4096"
  shows "\<exists>mem s'. allocate_blocks (units n) s = Some (mem, s') \<and>
      (case mem of
         None \<Rightarrow> s' = s \<and> (\<forall>b \<in> set (pl_blocks s). mb_bitmap b \<noteq> 0)
       | Some p \<Rightarrow> pool_inv s' (insert (p, n) live) \<and> (p, n) \<notin> live)"
proof (cases "pl_blocks s = []")
  case False
  let ?is = "[pl_last_used s..<length (pl_blocks s)] @ [0..<pl_last_used s]"
  have l: "pl_last_used s < length (pl_blocks s)" using pool_invD(3) [OF inv] False by blast
  then have is1: "set ?is = {..<length (pl_blocks s)}" by auto
  then have "\<forall>i \<in> set ?is. i < length (pl_blocks s)" by blast
  from try_blocks_val [OF inv n this] obtain mem s' where r: "try_blocks (units n) s ?is = Some (mem, s')"
    "case mem of
         None \<Rightarrow> s' = s \<and> (\<forall>i \<in> set ?is. mb_bitmap (pl_blocks s ! i) \<noteq> 0)
       | Some p \<Rightarrow> pool_inv s' (insert (p, n) live) \<and> (p, n) \<notin> live" by blast
  have "allocate_blocks (units n) s = Some (mem, s')" using r(1) l False by (simp add: allocate_blocks_def)
  moreover have "\<forall>b \<in> set (pl_blocks s). mb_bitmap b \<noteq> 0" if "\<forall>i \<in> set ?is. mb_bitmap (pl_blocks s ! i) \<noteq> 0"
    using that unfolding is1 by (metis in_set_conv_nth lessThan_iff)
  ultimately show ?thesis using r(2) by (auto split: option.splits)
qed (simp add: allocate_blocks_def)

text \<open>The operating system returns memory that is in no piece it has given out already.\<close>

definition os_fresh :: "(nat \<Rightarrow> nat option) \<Rightarrow> pool \<Rightarrow> (nat \<times> nat) set \<Rightarrow> bool" where
  "os_fresh alloc_block s live \<longleftrightarrow>
     (\<forall>n p. alloc_block n = Some p \<longrightarrow> 0 < p \<and> (\<forall>x \<in> held s live. apart p n (fst x) (snd x)))"

lemma sorted_gaps:
  "sorted xs \<Longrightarrow> distinct xs \<Longrightarrow> (\<And>a c. a \<in> set xs \<Longrightarrow> c \<in> set xs \<Longrightarrow> a < c \<Longrightarrow> a + 4096 \<le> c) \<Longrightarrow>
   sorted_wrt (\<lambda>a c. a + 4096 \<le> c) (xs :: nat list)"
proof (induction xs)
  case (Cons x xs)
  have "x < y" if "y \<in> set xs" for y using Cons.prems(1,2) that by (auto simp: order.order_iff_strict)
  then show ?case using Cons by simp
qed simp

lemma distinct_sorted_wrt_gap: "sorted_wrt (\<lambda>a c. a + 4096 \<le> c) xs \<Longrightarrow> distinct (xs :: nat list)"
  by (induction xs) auto

lemma sorted_buffers:
  assumes "distinct (map mb_buffer bs)" and "\<And>a c. a \<in> mb_buffer ` set bs \<Longrightarrow> c \<in> mb_buffer ` set bs \<Longrightarrow> a < c \<Longrightarrow> a + 4096 \<le> c"
  shows "sorted_wrt (\<lambda>a c. a + 4096 \<le> c) (map mb_buffer (sort_key mb_buffer bs))"
proof (rule sorted_gaps)
  show "distinct (map mb_buffer (sort_key mb_buffer bs))" using assms(1) by (simp add: distinct_map)
  show "a + 4096 \<le> c" if "a \<in> set (map mb_buffer (sort_key mb_buffer bs))" "c \<in> set (map mb_buffer (sort_key mb_buffer bs))" "a < c" for a c
    using assms(2) [of a c] that by simp
qed simp

lemma length_takeWhile_short: "x \<in> set xs \<Longrightarrow> \<not> P x \<Longrightarrow> length (takeWhile P xs) < length xs"
  by (induction xs) auto

lemma in_blocks_pos: "4096 \<le> pref \<Longrightarrow> 0 < in_blocks pref"
proof -
  assume "4096 \<le> pref"
  moreover have "pref \<le> round_up pref 64" by (rule round_up_ge)
  ultimately show ?thesis by (simp add: in_blocks_def pool_sizes div_greater_zero_iff)
qed

lemma more_core_inv:
  assumes inv: "pool_inv s live" and os: "os_fresh alloc_block s live" and pref: "4096 \<le> pref"
    and more: "get_more_core alloc_block pref s = Some s'"
  shows "pool_inv s' live \<and> (\<exists>b \<in> set (pl_blocks s'). mb_bitmap b = 0)"
proof -
  note I = pool_invD [OF inv]
  define N where "N = in_blocks pref"
  have N: "0 < N" using in_blocks_pos [OF pref] by (simp add: N_def)
  obtain ptr where ptr: "alloc_block (N * 4096) = Some ptr"
    using more by (auto simp: get_more_core_def do_malloc_def Let_def N_def pool_sizes split: option.splits)
  let ?new = "map (\<lambda>j. Memory_Block (ptr + j * 4096)) [0..<N]"
  let ?bs = "sort_key mb_buffer (pl_blocks s @ ?new)"
  have s': "s' = s\<lparr> pl_allocated := pl_allocated s @ [(ptr, N * 4096)], pl_blocks := ?bs,
      pl_last_used := lower_bound ?bs (Memory_Block ptr), pl_memory := clear_mem ptr (N * 4096) (pl_memory s) \<rparr>"
    using more ptr by (simp add: get_more_core_def do_malloc_def Let_def N_def pool_sizes)
  have fresh: "0 < ptr" "\<And>x. x \<in> held s live \<Longrightarrow> apart ptr (N * 4096) (fst x) (snd x)"
    using os ptr unfolding os_fresh_def by blast+
  have old: "a + 4096 \<le> ptr \<or> ptr + N * 4096 \<le> a" if a: "a \<in> set (buffers s)" for a
  proof -
    obtain x where x: "x \<in> set (pl_allocated s)" "fst x \<le> a" "a + 4096 \<le> fst x + snd x" using I(2) [OF a] by blast
    then have "apart ptr (N * 4096) (fst x) (snd x)" using fresh(2) by (simp add: held_def)
    then show ?thesis using x unfolding apart_def by linarith
  qed
  have bufs: "set (buffers s') = set (buffers s) \<union> (\<lambda>j. ptr + j * 4096) ` {..<N}"
    by (simp add: s' buffers_def Memory_Block_def image_Un image_image lessThan_atLeast0)
  have gaps: "a + 4096 \<le> c" if "a \<in> set (buffers s')" "c \<in> set (buffers s')" "a < c" for a c
  proof -
    have oldold: ?thesis if "a \<in> set (buffers s)" "c \<in> set (buffers s)"
      using buffers_apart [OF I(1) that] \<open>a < c\<close> by linarith
    have new: "ptr \<le> ptr + j * 4096 \<and> ptr + j * 4096 + 4096 \<le> ptr + N * 4096" if "j < N" for j using that by simp
    have newnew: "ptr + i * 4096 + 4096 \<le> ptr + j * 4096" if "ptr + i * 4096 < ptr + j * 4096" for i j using that by simp
    show ?thesis
      using that oldold newnew new old [of a] old [of c] unfolding bufs by (auto; fastforce)
  qed
  have dist: "distinct (map mb_buffer (pl_blocks s @ ?new))"
  proof -
    have "distinct (buffers s)" using I(1) by (rule distinct_sorted_wrt_gap)
    moreover have "distinct (map mb_buffer ?new)" by (simp add: distinct_map inj_on_def Memory_Block_def)
    moreover have "set (buffers s) \<inter> mb_buffer ` set ?new = {}"
      using old by (force simp: Memory_Block_def)
    ultimately show ?thesis by (simp add: buffers_def image_image)
  qed
  have sorted: "sorted_wrt (\<lambda>a c. a + 4096 \<le> c) (buffers s')"
    using sorted_buffers [OF dist] gaps by (simp add: s' buffers_def)
  have mem: "Memory_Block ptr \<in> set ?bs" unfolding set_sort set_append set_map
    using N by (intro UnI2 image_eqI [of _ _ 0]) simp_all
  have last: "lower_bound ?bs (Memory_Block ptr) < length ?bs"
  proof -
    have "\<not> block_less (Memory_Block ptr) (Memory_Block ptr)" by (simp add: block_less_def)
    then show ?thesis unfolding lower_bound_def using mem by (intro length_takeWhile_short)
  qed
  have heldeq: "held s' live = insert (ptr, N * 4096) (held s live)" by (auto simp: s' held_def)
  have mapok: "map_ok live b" if b_in: "b \<in> set ?bs" for b
  proof (cases "b \<in> set (pl_blocks s)")
    case False
    then obtain j where b: "b = Memory_Block (ptr + j * 4096)" "j < N" using b_in by auto
    have "\<not> covers x (ptr + j * 4096 + i * 64)" if x: "x \<in> live" and i: "i < 64" for x i
    proof
      assume c: "covers x (ptr + j * 4096 + i * 64)"
      then obtain a k where a: "a \<in> set (buffers s)" "fst x = a + k * 64" "k + units (snd x) \<le> 64"
        using I(6) [OF x] by (auto simp: covers_def placed_def)
      have "Suc j * 4096 \<le> N * 4096" using b(2) by (intro mult_le_mono1) simp
      then have "ptr + j * 4096 + i * 64 < ptr + N * 4096" using i by simp
      then show False using old [OF a(1)] a c by (auto simp: covers_def)
    qed
    then show ?thesis by (auto simp: map_ok_def b Memory_Block_def)
  qed (rule I(8))
  have contained: "\<exists>x \<in> set (pl_allocated s'). 0 < fst x \<and> fst x \<le> a \<and> a + 4096 \<le> fst x + snd x" if "a \<in> set (buffers s')" for a
    using that I(2) fresh(1) unfolding bufs by (auto simp: s')
  have apart: "apart (fst x) (snd x) (fst y) (snd y)" if "x \<in> held s' live" "y \<in> held s' live" "x \<noteq> y" for x y
    using that I(4) [of x y] fresh(2) [of x] fresh(2) [of y] unfolding heldeq by (auto simp: apart_def)
  have pl: "placed (buffers s') x" if "x \<in> live" "small x" for x
    using I(6) [OF that] unfolding placed_def bufs by blast
  have large: "x \<notin> set (pl_allocated s')" if x: "x \<in> live" "\<not> small x" for x
  proof -
    have "apart ptr (N * 4096) (fst x) (snd x)" using fresh(2) x by (simp add: held_def)
    then show ?thesis using I(9) [OF x] N by (auto simp: s' apart_def)
  qed
  have "pool_inv s' live"
    unfolding pool_inv_def using sorted contained last apart pl mapok I(5,7) large by (simp add: s')
  moreover have "\<exists>b \<in> set (pl_blocks s'). mb_bitmap b = 0"
    using mem by (intro bexI [of _ "Memory_Block ptr"]) (simp_all add: s' Memory_Block_def)
  ultimately show ?thesis ..
qed

lemma allocate_val:
  assumes inv: "pool_inv s live" and os: "os_fresh alloc_block s live" and pref: "4096 \<le> pref" and n: "0 < n"
  shows "\<exists>r s'. allocate alloc_block pref n s = Some (r, s') \<and>
    (case r of
       Inr p \<Rightarrow> pool_inv s' (insert (p, n) live) \<and> (p, n) \<notin> live
     | Inl e \<Rightarrow> pool_inv s' live \<and> (if n \<le> 4096 then get_more_core alloc_block pref s = None else alloc_block n = None))"
proof (cases "n \<le> 4096")
  case True
  have u: "round_up n 64 div 64 = units n" by (simp add: units_def pool_sizes)
  obtain mem s1 where r: "allocate_blocks (units n) s = Some (mem, s1)"
    "case mem of
         None \<Rightarrow> s1 = s \<and> (\<forall>b \<in> set (pl_blocks s). mb_bitmap b \<noteq> 0)
       | Some p \<Rightarrow> pool_inv s1 (insert (p, n) live) \<and> (p, n) \<notin> live"
    using allocate_blocks_val [OF inv n True] by blast
  show ?thesis
  proof (cases mem)
    case (Some p)
    then show ?thesis using r True by (simp add: allocate_def Let_def u pool_sizes)
  next
    case None
    show ?thesis
    proof (cases "get_more_core alloc_block pref s")
      case fail: None
      then show ?thesis using None r True inv by (simp add: allocate_def Let_def u pool_sizes)
    next
      case (Some s2)
      note I2 = more_core_inv [OF inv os pref Some]
      then have inv2: "pool_inv s2 live" ..
      obtain mem3 s3 where r3: "allocate_blocks (units n) s2 = Some (mem3, s3)"
        "case mem3 of
             None \<Rightarrow> s3 = s2 \<and> (\<forall>b \<in> set (pl_blocks s2). mb_bitmap b \<noteq> 0)
           | Some p \<Rightarrow> pool_inv s3 (insert (p, n) live) \<and> (p, n) \<notin> live"
        using allocate_blocks_val [OF inv2 n True] by blast
      then obtain p where "mem3 = Some p" using I2 by (cases mem3) auto
      then show ?thesis using None Some r r3 True by (simp add: allocate_def Let_def u pool_sizes)
    qed
  qed
next
  case False
  show ?thesis
  proof (cases "alloc_block n")
    case None
    then show ?thesis using False inv by (simp add: allocate_def do_malloc_def pool_sizes)
  next
    case (Some p)
    note I = pool_invD [OF inv]
    have f: "0 < p" "\<And>x. x \<in> held s live \<Longrightarrow> apart p n (fst x) (snd x)" using os Some unfolding os_fresh_def by blast+
    have ns: "\<not> small (p, n)" using False by (simp add: small_def)
    have h: "held s (insert (p, n) live) = insert (p, n) (held s live)" using ns by (auto simp: held_def)
    have nc: "\<not> covers (p, n) a" for a using ns by (simp add: covers_def)
    have "map_ok (insert (p, n) live) b" if "b \<in> set (pl_blocks s)" for b using I(8) [OF that] nc by (auto simp: map_ok_def)
    moreover have "apart (fst x) (snd x) p n" if "x \<in> held s live" for x using f(2) [OF that] by (auto simp: apart_def)
    moreover have "(p, n) \<notin> set (pl_allocated s)" using f(2) [of "(p, n)"] n by (auto simp: held_def apart_def)
    ultimately have "pool_inv s (insert (p, n) live)"
      unfolding pool_inv_def h using I f ns n by auto
    moreover have "(p, n) \<notin> live" using f(2) [of "(p, n)"] ns n by (auto simp: held_def apart_def)
    ultimately show ?thesis using False Some
      by (simp add: allocate_def do_malloc_def pool_sizes pool_inv_memory)
  qed
qed

lemma allocate_succeeds:
  assumes "pool_inv s live" and "os_fresh alloc_block s live" and "4096 \<le> pref" and "0 < n"
    and "\<And>size. alloc_block size \<noteq> None"
  shows "\<exists>p s'. allocate alloc_block pref n s = Some (Inr p, s')"
proof -
  obtain r s' where r: "allocate alloc_block pref n s = Some (r, s')"
    "case r of
       Inr p \<Rightarrow> pool_inv s' (insert (p, n) live) \<and> (p, n) \<notin> live
     | Inl e \<Rightarrow> pool_inv s' live \<and> (if n \<le> 4096 then get_more_core alloc_block pref s = None else alloc_block n = None)"
    using allocate_val [OF assms(1-4)] by blast
  have "get_more_core alloc_block pref s \<noteq> None"
    using assms(5) by (auto simp: get_more_core_def do_malloc_def Let_def split: option.splits)
  then show ?thesis using r assms(5) [of n] by (cases r) (simp_all split: if_splits)
qed

section \<open>Release\<close>

lemma lower_bound_at:
  assumes "sorted_wrt (\<lambda>a c. a + 4096 \<le> c) (map mb_buffer bs)" and "i < length bs"
    and "mb_buffer (bs ! i) \<le> ptr" and "ptr < mb_buffer (bs ! i) + 4096"
  shows "lower_bound bs (Memory_Block ptr) = i"
proof -
  have "takeWhile (\<lambda>c. block_less c (Memory_Block ptr)) bs = take i bs"
  proof (rule takeWhile_eq_take_P_nth)
    fix j assume j: "j < i" "j < length bs"
    have "mb_buffer (bs ! j) + 4096 \<le> mb_buffer (bs ! i)"
      using sorted_wrt_nth_less [OF assms(1) j(1)] assms(2) j by simp
    then show "block_less (bs ! j) (Memory_Block ptr)"
      using assms(3) by (simp add: block_less_def buffer_end_def Memory_Block_def pool_sizes)
  next
    show "\<not> block_less (bs ! i) (Memory_Block ptr)"
      using assms(3,4) by (simp add: block_less_def buffer_end_def Memory_Block_def pool_sizes)
  qed
  then show ?thesis using assms(2) by (simp add: lower_bound_def)
qed

lemma deallocate_val:
  assumes inv: "pool_inv s live" and x: "(p, n) \<in> live"
  shows "\<exists>s'. deallocate p n s = (Inr (), s') \<and> pool_inv s' (live - {(p, n)}) \<and>
    (\<forall>a. p \<le> a \<and> a < p + n \<longrightarrow> pl_memory s' a = 0)"
proof -
  note I = pool_invD [OF inv]
  have pos: "0 < p" "0 < n" using I(5) [OF x] by auto
  have sub: "held s' (live - {(p, n)}) \<subseteq> held s live" if "pl_allocated s' = pl_allocated s" for s' :: pool
    using that by (auto simp: held_def)
  show ?thesis
  proof (cases "n \<le> 4096")
    case False
    have nc: "\<not> covers (p, n) a" for a using False by (simp add: covers_def small_def)
    have "map_ok (live - {(p, n)}) b" if "b \<in> set (pl_blocks s)" for b
      using I(8) [OF that] nc unfolding map_ok_def by blast
    then have "pool_inv s (live - {(p, n)})"
      using I(1-3) I(4) [OF subsetD [OF sub [OF refl]] subsetD [OF sub [OF refl]]] I(5-7,9)
      unfolding pool_inv_def by simp
    then show ?thesis using False pos
      by (simp add: deallocate_def do_free_def clear_mem_def pool_sizes pool_inv_memory)
  next
    case True
    have u: "round_up n 64 div 64 = units n" by (simp add: units_def pool_sizes)
    have un: "0 < units n" "units n \<le> 64" "n \<le> 64 * units n" using units_bounds [OF pos(2) True] by auto
    have sm: "small (p, n)" using True by (simp add: small_def)
    obtain a k where a: "a \<in> set (buffers s)" "p = a + k * 64" "k + units n \<le> 64"
      using I(6) [OF x sm] by (auto simp: placed_def)
    then obtain i where i: "i < length (pl_blocks s)" "mb_buffer (pl_blocks s ! i) = a"
      by (auto simp: buffers_def in_set_conv_nth)
    let ?b = "pl_blocks s ! i"
    have lb: "lower_bound (pl_blocks s) (Memory_Block p) = i"
      by (rule lower_bound_at) (use I(1) i a un in \<open>auto simp: buffers_def\<close>)
    have cov: "covers (p, n) c \<longleftrightarrow> p \<le> c \<and> c < p + 64 * units n" for c using True by (simp add: covers_def small_def)
    have set_bits: "bit (mb_bitmap ?b) j" if "k \<le> j" "j < k + units n" for j
      using I(8) [OF nth_mem [OF i(1)]] x cov [of "a + j * 64"] that a(2,3) i(2) by (auto simp: map_ok_def)
    define b' where "b' = mb_free p (units n) ?b"
    have b': "mb_buffer b' = a" "\<And>j. bit (mb_bitmap b') j \<longleftrightarrow> bit (mb_bitmap ?b) j \<and> \<not> (k \<le> j \<and> j < k + units n)"
      using mb_free_val [of p ?b k "units n"] a(2,3) set_bits i(2) by (auto simp: b'_def)
    define s' where "s' = s\<lparr> pl_blocks := (pl_blocks s)[i := b'], pl_memory := clear_mem p (units n * 64) (pl_memory s) \<rparr>"
    have "contains ?b p (units n)" using a(2,3) i(2) by (simp add: contains_def buffer_end_def pool_sizes)
    then have dealloc: "deallocate p n s = (Inr (), s')"
      using True pos lb i(1) by (simp add: deallocate_def pool_sizes Let_def u s'_def b'_def)
    have wiped: "pl_memory s' c = 0" if "p \<le> c" "c < p + n" for c
      using that un(3) by (simp add: s'_def clear_mem_def)
    have bufs: "buffers s' = buffers s" using b'(1) i by (simp add: s'_def buffers_def map_update list_update_same_conv)
    have others: "\<not> covers (p, n) c" if "y \<in> live" "y \<noteq> (p, n)" "covers y c" for y c
    proof
      assume "covers (p, n) c"
      moreover have "apart (fst y) (64 * units (snd y)) p (64 * units n)"
        using I(7) [OF that(1) x _ sm that(2)] that(3) by (simp add: covers_def)
      ultimately show False using that(3) unfolding covers_def apart_def by auto
    qed
    have used: "(\<exists>y \<in> live - {(p, n)}. covers y c) \<longleftrightarrow> (\<exists>y \<in> live. covers y c) \<and> \<not> covers (p, n) c" for c
      using others x by blast
    have mok: "map_ok (live - {(p, n)}) c" if "c \<in> set (pl_blocks s')" for c
    proof -
      from that obtain i' where i': "i' < length (pl_blocks s)" "c = (pl_blocks s)[i := b'] ! i'"
        unfolding s'_def by (auto simp: in_set_conv_nth)
      show ?thesis
      proof (cases "i' = i")
        case eq: True
        have "map_ok live ?b" using I(8) i by simp
        then show ?thesis using eq i i' b' a(2) unfolding map_ok_def used cov by auto
      next
        case False
        then have c: "c = pl_blocks s ! i'" using i' by simp
        have ne: "a \<noteq> mb_buffer c"
          using sorted_wrt_nth_less [OF I(1), of i i'] sorted_wrt_nth_less [OF I(1), of i' i] False i i'(1) c
          by (auto simp: buffers_def linorder_neq_iff)
        have "mb_buffer c \<in> set (buffers s)" using i'(1) c by (simp add: buffers_def)
        then have "\<not> covers (p, n) (mb_buffer c + j * 64)" if "j < 64" for j
          using placed_elsewhere [OF I(1) a(1) _ ne a(3) that] cov a(2) by simp
        then show ?thesis using I(8) [of c] i'(1) c unfolding map_ok_def used by auto
      qed
    qed
    have eq: "pl_allocated s' = pl_allocated s" by (simp add: s'_def)
    note le = subsetD [OF sub [OF eq]]
    have "pl_blocks s' = [] \<or> pl_last_used s' < length (pl_blocks s')" using I(3) by (auto simp: s'_def)
    then have "pool_inv s' (live - {(p, n)})"
      using I(1,2) I(4) [OF le le] I(5-7,9) mok unfolding pool_inv_def bufs eq by simp
    then show ?thesis using dealloc wiped by blast
  qed
qed

section \<open>Reachable states\<close>

text \<open>
  Any sequence of requests and releases, with arbitrary use of the memory in between, from a
  new allocator whose pieces have \<open>pref\<close> bytes.
\<close>

inductive pool_reach :: "nat \<Rightarrow> pool \<Rightarrow> (nat \<times> nat) set \<Rightarrow> bool" for pref :: nat where
  start: "pool_reach pref (Pooling_Allocator mem) {}"
| request: "pool_reach pref s live \<Longrightarrow> 0 < n \<Longrightarrow> os_fresh alloc_block s live \<Longrightarrow>
    allocate alloc_block pref n s = Some (Inr p, s') \<Longrightarrow> pool_reach pref s' (insert (p, n) live)"
| refuse: "pool_reach pref s live \<Longrightarrow> 0 < n \<Longrightarrow> os_fresh alloc_block s live \<Longrightarrow>
    allocate alloc_block pref n s = Some (Inl e, s') \<Longrightarrow> pool_reach pref s' live"
| release: "pool_reach pref s live \<Longrightarrow> (p, n) \<in> live \<Longrightarrow> deallocate p n s = (r, s') \<Longrightarrow>
    pool_reach pref s' (live - {(p, n)})"
| shut_down: "pool_reach pref s live \<Longrightarrow> destroy s = (pieces, s') \<Longrightarrow>
    pool_reach pref s' {x \<in> live. \<not> small x}"
| use_memory: "pool_reach pref s live \<Longrightarrow> pool_reach pref (s\<lparr> pl_memory := mem \<rparr>) live"

lemma pool_inv_destroy: "pool_inv s live \<Longrightarrow> pool_inv (snd (destroy s)) {x \<in> live. \<not> small x}"
  by (simp add: pool_inv_def destroy_def buffers_def held_def)

lemma pool_reach_inv: "pool_reach pref s live \<Longrightarrow> 4096 \<le> pref \<Longrightarrow> pool_inv s live"
proof (induction rule: pool_reach.induct)
  case (start mem)
  then show ?case by (simp add: pool_inv_def Pooling_Allocator_def buffers_def held_def)
next
  case (request s live n alloc_block p s')
  then show ?case using allocate_val [of s live alloc_block pref n] by auto
next
  case (refuse s live n alloc_block e s')
  then show ?case using allocate_val [of s live alloc_block pref n] by auto
next
  case (release s live p n r s')
  then show ?case using deallocate_val [of s live p n] by auto
next
  case (shut_down s live pieces s')
  then show ?case using pool_inv_destroy [of s live] by simp
next
  case (use_memory s live mem)
  then show ?case by (simp add: pool_inv_memory)
qed

lemma locking_pref_size_simp [simp]: "locking_pref_size prealloc = 65536"
  by (simp add: locking_pref_size_def choose_pref_size_def)

lemma live_span: "pool_inv s live \<Longrightarrow> z \<in> live \<Longrightarrow> small z \<Longrightarrow> snd z \<le> 64 * units (snd z)"
  using units_bounds [of "snd z"] pool_invD(5) [of s live z] by (simp add: small_def)

lemma live_in_piece:
  assumes inv: "pool_inv s live" and z: "z \<in> live" "small z"
  shows "\<exists>q \<in> set (pl_allocated s). fst q \<le> fst z \<and> fst z + 64 * units (snd z) \<le> fst q + snd q"
proof -
  note I = pool_invD [OF inv]
  obtain a k where a: "a \<in> set (buffers s)" "fst z = a + k * 64" "k + units (snd z) \<le> 64"
    using I(6) [OF z] by (auto simp: placed_def)
  obtain q where "q \<in> set (pl_allocated s)" "fst q \<le> a" "a + 4096 \<le> fst q + snd q" using I(2) [OF a(1)] by blast
  then show ?thesis using a by (intro bexI [of _ q]) auto
qed

lemma live_in_piece_bytes:
  assumes "pool_inv s live" and "z \<in> live" "small z"
  shows "\<exists>q \<in> set (pl_allocated s). fst q \<le> fst z \<and> fst z + snd z \<le> fst q + snd q"
  using live_in_piece [OF assms] live_span [OF assms] by (meson add_left_mono order.trans)

lemma span_small: "small x \<Longrightarrow> span (snd x) = 64 * units (snd x)"
  by (simp add: span_def small_def pool_sizes)

lemma span_large: "\<not> small x \<Longrightarrow> span (snd x) = snd x"
  by (simp add: span_def small_def pool_sizes)

lemma live_apart_span:
  assumes inv: "pool_inv s live" and x: "x \<in> live" and y: "y \<in> live" and ne: "x \<noteq> y"
  shows "apart (fst x) (span (snd x)) (fst y) (span (snd y))"
proof -
  note I = pool_invD [OF inv]
  have mixed: "apart (fst z) (span (snd z)) (fst w) (span (snd w))" if z: "z \<in> live" "small z" and w: "w \<in> live" "\<not> small w" for z w
  proof -
    obtain q where q: "q \<in> set (pl_allocated s)" "fst q \<le> fst z" "fst z + span (snd z) \<le> fst q + snd q"
      using live_in_piece [OF inv z] span_small [OF z(2)] by auto
    moreover have "q \<in> held s live" "w \<in> held s live" "q \<noteq> w" using w q(1) I(9) [OF w] by (auto simp: held_def)
    ultimately have "apart (fst q) (snd q) (fst w) (snd w)" using I(4) by blast
    then show ?thesis using q span_large [OF w(2)] by (auto simp: apart_def)
  qed
  consider "small x" "small y" | "small x" "\<not> small y" | "\<not> small x" "small y" | "\<not> small x" "\<not> small y" by blast
  then show ?thesis
  proof cases
    case 1
    then show ?thesis using I(7) [OF x y 1 ne] by (simp add: span_small)
  next
    case 2
    then show ?thesis using mixed [of x y] x y by blast
  next
    case 3
    then show ?thesis using mixed [of y x] x y by (auto simp: apart_def)
  next
    case 4
    then show ?thesis using I(4) [of x y] x y ne by (auto simp: held_def span_large)
  qed
qed

lemma live_apart:
  assumes inv: "pool_inv s live" and x: "x \<in> live" and y: "y \<in> live" and ne: "x \<noteq> y"
  shows "apart (fst x) (snd x) (fst y) (snd y)"
proof -
  have "snd z \<le> span (snd z)" if "z \<in> live" for z
    using live_span [OF inv that] by (cases "small z") (simp_all add: span_small span_large)
  from this [OF x] this [OF y] live_apart_span [OF assms] show ?thesis by (auto simp: apart_def)
qed

subsection \<open>What the operations leave alone\<close>

lemma clear_mem_frame: "a < p \<or> p + n \<le> a \<Longrightarrow> clear_mem p n mem a = mem a"
  by (auto simp: clear_mem_def)

lemma try_blocks_memory: "try_blocks n s is = Some (r, s') \<Longrightarrow> pl_memory s' = pl_memory s"
  by (induction "is") (auto split: option.splits bind_splits)

text \<open>A request wipes at most one piece, which the operating system has just handed out.\<close>

lemma allocate_memory:
  assumes "allocate alloc_block pref n s = Some (r, s')"
  shows "pl_memory s' = pl_memory s \<or>
    (\<exists>size ptr. alloc_block size = Some ptr \<and> pl_memory s' = clear_mem ptr size (pl_memory s))"
proof -
  have ab: "allocate_blocks k t = Some (m, t') \<Longrightarrow> pl_memory t' = pl_memory t" for k t m t'
    by (auto simp: allocate_blocks_def split: if_splits dest: try_blocks_memory)
  have mc: "get_more_core alloc_block pref t = Some t' \<Longrightarrow>
      \<exists>size ptr. alloc_block size = Some ptr \<and> pl_memory t' = clear_mem ptr size (pl_memory t)" for t t'
    by (fastforce simp: get_more_core_def do_malloc_def Let_def split: option.splits)
  show ?thesis using assms
    by (auto simp: allocate_def do_malloc_def Let_def split: if_splits option.splits bind_splits dest!: ab mc) blast+
qed

lemma live_apart_fresh:
  assumes inv: "pool_inv s live" and os: "os_fresh alloc_block s live" and p: "alloc_block sz = Some p"
    and x: "x \<in> live"
  shows "apart p sz (fst x) (span (snd x))"
proof (cases "small x")
  case True
  obtain q where q: "q \<in> set (pl_allocated s)" "fst q \<le> fst x" "fst x + span (snd x) \<le> fst q + snd q"
    using live_in_piece [OF inv x True] span_small [OF True] by auto
  then have "apart p sz (fst q) (snd q)" using os p unfolding os_fresh_def held_def by blast
  then show ?thesis using q by (auto simp: apart_def)
next
  case False
  then have "x \<in> held s live" using x by (simp add: held_def)
  then show ?thesis using os p span_large [OF False] unfolding os_fresh_def by auto
qed

lemma allocate_frame:
  assumes "pool_inv s live" and "os_fresh alloc_block s live"
    and "allocate alloc_block pref n s = Some (r, s')" and "x \<in> live"
    and "fst x \<le> a" and "a < fst x + span (snd x)"
  shows "pl_memory s' a = pl_memory s a"
  using allocate_memory [OF assms(3)] live_apart_fresh [OF assms(1,2) _ assms(4)] assms(5,6)
  by (fastforce simp: apart_def intro!: clear_mem_frame)

lemma deallocate_memory:
  "deallocate p n s = (r, s') \<Longrightarrow> 0 < n \<Longrightarrow> a < p \<or> p + span n \<le> a \<Longrightarrow> pl_memory s' a = pl_memory s a"
  by (auto simp: deallocate_def do_free_def Let_def clear_mem_def span_def units_def split: if_splits)

lemma live_le_span: "pool_inv s live \<Longrightarrow> x \<in> live \<Longrightarrow> snd x \<le> span (snd x)"
  using live_span [of s live x] by (cases "small x") (simp_all add: span_small span_large)

lemma deallocate_frame:
  assumes inv: "pool_inv s live" and x: "x \<in> live" and y: "y \<in> live" "y \<noteq> x"
    and de: "deallocate (fst x) (snd x) s = (r, s')" and a: "fst y \<le> a" "a < fst y + snd y"
  shows "pl_memory s' a = pl_memory s a"
proof (rule deallocate_memory [OF de])
  show "0 < snd x" using pool_invD(5) [OF inv x] by simp
  have "apart (fst y) (span (snd y)) (fst x) (span (snd x))" by (rule live_apart_span [OF inv y(1) x y(2)])
  then show "a < fst x \<or> fst x + span (snd x) \<le> a"
    using a live_le_span [OF inv y(1)] by (auto simp: apart_def)
qed

section \<open>Properties\<close>

text \<open>
  C4. The allocator of locked memory.  After any sequence of requests, refusals, releases, uses
  of the memory and shut-downs (which drop the pool with every request in it): the memory of two
  requests in use never overlaps; memory given out for a request of up to 4096 bytes lies in a
  piece that the pool obtained from the operating system, and memory for a larger request, a
  piece of its own, is apart from all of these; every request in use, of any size, can be
  released, which fills its memory with zeros and leaves the memory of every other request as
  it is; and no further request has undefined behaviour or changes the memory of a request in
  use.  The operating system is assumed to return memory that is in no piece it has given out
  already.
\<close>

theorem pool_safe:
  assumes "pref = locking_pref_size prealloc" and "pool_reach pref s live"
  shows "(\<forall>x \<in> live. \<forall>y \<in> live. x \<noteq> y \<longrightarrow> apart (fst x) (snd x) (fst y) (snd y)) \<and>
    (\<forall>(p, n) \<in> live. if n \<le> 4096 then \<exists>x \<in> set (pl_allocated s). fst x \<le> p \<and> p + n \<le> fst x + snd x
       else \<forall>x \<in> set (pl_allocated s). apart p n (fst x) (snd x)) \<and>
    (\<forall>(p, n) \<in> live. \<exists>s'. deallocate p n s = (Inr (), s') \<and>
       (\<forall>a. p \<le> a \<and> a < p + n \<longrightarrow> pl_memory s' a = 0) \<and>
       (\<forall>(q, k) \<in> live - {(p, n)}. \<forall>a. q \<le> a \<and> a < q + k \<longrightarrow> pl_memory s' a = pl_memory s a)) \<and>
    (\<forall>n alloc_block. 0 < n \<and> os_fresh alloc_block s live \<longrightarrow>
       (\<exists>r s'. allocate alloc_block pref n s = Some (r, s') \<and>
          (\<forall>(q, k) \<in> live. \<forall>a. q \<le> a \<and> a < q + k \<longrightarrow> pl_memory s' a = pl_memory s a)))"
proof (intro conjI ballI allI impI)
  have pref: "4096 \<le> pref" using assms(1) by simp
  note inv = pool_reach_inv [OF assms(2) pref]
  show "apart (fst x) (snd x) (fst y) (snd y)" if "x \<in> live" "y \<in> live" "x \<noteq> y" for x y
    by (rule live_apart [OF inv that])
  show "case x of (p, n) \<Rightarrow> if n \<le> 4096 then \<exists>x \<in> set (pl_allocated s). fst x \<le> p \<and> p + n \<le> fst x + snd x
       else \<forall>x \<in> set (pl_allocated s). apart p n (fst x) (snd x)" if x: "x \<in> live" for x
  proof (cases "small x")
    case True
    then show ?thesis using live_in_piece_bytes [OF inv x True] by (cases x) (simp add: small_def)
  next
    case False
    have "apart (fst x) (snd x) (fst y) (snd y)" if "y \<in> set (pl_allocated s)" for y
      using pool_invD(4) [OF inv, of x y] pool_invD(9) [OF inv x False] that x False by (auto simp: held_def)
    then show ?thesis using False by (cases x) (simp add: small_def)
  qed
  show "case x of (p, n) \<Rightarrow> \<exists>s'. deallocate p n s = (Inr (), s') \<and>
       (\<forall>a. p \<le> a \<and> a < p + n \<longrightarrow> pl_memory s' a = 0) \<and>
       (\<forall>(q, k) \<in> live - {(p, n)}. \<forall>a. q \<le> a \<and> a < q + k \<longrightarrow> pl_memory s' a = pl_memory s a)" if x: "x \<in> live" for x
  proof -
    obtain s' where de: "deallocate (fst x) (snd x) s = (Inr (), s')"
      "\<forall>a. fst x \<le> a \<and> a < fst x + snd x \<longrightarrow> pl_memory s' a = 0"
      using deallocate_val [OF inv, of "fst x" "snd x"] x by auto
    moreover have "\<forall>y \<in> live - {x}. \<forall>a. fst y \<le> a \<and> a < fst y + snd y \<longrightarrow> pl_memory s' a = pl_memory s a"
      using deallocate_frame [OF inv x _ _ de(1)] by blast
    ultimately show ?thesis by (cases x) (simp add: split_beta)
  qed
  show "\<exists>r s'. allocate alloc_block pref n s = Some (r, s') \<and>
      (\<forall>(q, k) \<in> live. \<forall>a. q \<le> a \<and> a < q + k \<longrightarrow> pl_memory s' a = pl_memory s a)"
    if os: "0 < n \<and> os_fresh alloc_block s live" for n alloc_block
  proof -
    obtain r s' where al: "allocate alloc_block pref n s = Some (r, s')"
      using allocate_val [OF inv _ pref, of alloc_block n] os by auto
    have "pl_memory s' a = pl_memory s a" if "x \<in> live" "fst x \<le> a" "a < fst x + snd x" for x a
      using allocate_frame [OF inv _ al that(1,2)] live_le_span [OF inv that(1)] that(3) os by simp
    then show ?thesis using al by (auto simp: split_beta)
  qed
qed

text \<open>A concrete operating system that serves one piece at address 4096.\<close>

lemma first_request:
  "\<exists>p s. allocate (\<lambda>_. Some 4096) 65536 100 (Pooling_Allocator (\<lambda>_. 0)) = Some (Inr p, s) \<and> pool_reach 65536 s {(p, 100)}"
proof -
  let ?os = "\<lambda>_ :: nat. Some 4096 :: nat option" and ?s0 = "Pooling_Allocator (\<lambda>_. 0)"
  have st: "pool_reach 65536 ?s0 {}" by (rule start)
  have inv: "pool_inv ?s0 {}" by (rule pool_reach_inv [OF st]) simp
  have os: "os_fresh ?os ?s0 {}" by (simp add: os_fresh_def held_def Pooling_Allocator_def)
  obtain p s where "allocate ?os 65536 100 ?s0 = Some (Inr p, s)"
    using allocate_succeeds [OF inv os, of 65536 100] by auto
  then show ?thesis using request [OF st _ os, of 100 p s] by auto
qed

theorem pool_safe_witness:
  "\<exists>p s s'. pool_reach 65536 s {(p, 100)} \<and> deallocate p 100 s = (Inr (), s') \<and>
     (\<forall>a. p \<le> a \<and> a < p + 100 \<longrightarrow> pl_memory s' a = 0)"
proof -
  obtain p s where r: "pool_reach 65536 s {(p, 100)}" using first_request by blast
  have "65536 = locking_pref_size 0" by simp
  from pool_safe [OF this r] r show ?thesis by auto
qed

text \<open>
  C29. Exhaustion.  A request fails only when the operating system refuses memory: a request of
  up to 4096 bytes for which no pool block has room obtains a new piece, and then succeeds.
\<close>

theorem pool_live:
  assumes "pref = locking_pref_size prealloc" and "pool_reach pref s live" and "0 < n"
    and "os_fresh alloc_block s live" and "\<And>size. alloc_block size \<noteq> None"
  shows "\<exists>p s'. allocate alloc_block pref n s = Some (Inr p, s') \<and> pool_reach pref s' (insert (p, n) live)"
proof -
  have pref: "4096 \<le> pref" using assms(1) by simp
  note inv = pool_reach_inv [OF assms(2) pref]
  obtain p s' where "allocate alloc_block pref n s = Some (Inr p, s')"
    using allocate_succeeds [OF inv assms(4) pref assms(3,5)] by blast
  then show ?thesis using request [OF assms(2-4)] by blast
qed

theorem pool_live_witness:
  "\<exists>p s'. allocate (\<lambda>_. Some 4096) 65536 5000 (Pooling_Allocator (\<lambda>_. 0)) = Some (Inr p, s') \<and>
     pool_reach 65536 s' (insert (p, 5000) {})"
  by (rule pool_live [of _ 0]) (simp_all add: start os_fresh_def held_def Pooling_Allocator_def [symmetric], simp add: Pooling_Allocator_def)

end
