(* ===== verification/SecureHeap.thy ===== *)
theory SecureHeap
  imports MemPool
begin

text \<open>
  The C interface to the allocator of locked memory (\<^verbatim>\<open>qca_secure_alloc\<close>, \<^verbatim>\<open>qca_secure_free\<close> and
  \<^verbatim>\<open>qca_secure_realloc\<close> of \<^verbatim>\<open>src/src/qca_tools.cpp\<close>): the size of each piece of memory is kept in
  the four bytes in front of it, in the byte order of a little-endian host.  An exception of
  the allocator aborts the process (\<open>Inl\<close>).
\<close>

section \<open>The interface\<close>

definition store_int :: "nat \<Rightarrow> nat \<Rightarrow> (nat \<Rightarrow> byte) \<Rightarrow> (nat \<Rightarrow> byte)" where
  "store_int c v mem = (\<lambda>a. if c \<le> a \<and> a < c + 4 then of_nat (v div 256 ^ (a - c)) else mem a)"

definition load_int :: "nat \<Rightarrow> (nat \<Rightarrow> byte) \<Rightarrow> nat" where
  "load_int c mem = unat (mem c) + 256 * unat (mem (c + 1)) + 256 ^ 2 * unat (mem (c + 2)) + 256 ^ 3 * unat (mem (c + 3))"

definition memmove :: "nat \<Rightarrow> nat \<Rightarrow> nat \<Rightarrow> (nat \<Rightarrow> byte) \<Rightarrow> (nat \<Rightarrow> byte)" where
  "memmove dst src n mem = (\<lambda>a. if dst \<le> a \<and> a < dst + n then mem (src + (a - dst)) else mem a)"

definition qca_secure_alloc :: "(nat \<Rightarrow> nat option) \<Rightarrow> nat \<Rightarrow> nat \<Rightarrow> pool \<Rightarrow> ((pool_error + nat) \<times> pool) option" where
  "qca_secure_alloc alloc_block pref bytes s = do {
     (r, s) \<leftarrow> allocate alloc_block pref (bytes + 4) s;
     Some (case r of
             Inl e \<Rightarrow> (Inl e, s)
           | Inr c \<Rightarrow> (Inr (c + 4), s\<lparr> pl_memory := store_int c (bytes + 4) (pl_memory s) \<rparr>)) }"

definition qca_secure_free :: "nat \<Rightarrow> pool \<Rightarrow> (pool_error + unit) \<times> pool" where
  "qca_secure_free p s = (let c = p - 4 in deallocate c (load_int c (pl_memory s)) s)"

definition qca_secure_realloc :: "(nat \<Rightarrow> nat option) \<Rightarrow> nat \<Rightarrow> nat \<Rightarrow> nat \<Rightarrow> pool \<Rightarrow> ((pool_error + nat) \<times> pool) option" where
  "qca_secure_realloc alloc_block pref p bytes s =
     (if p = 0 then qca_secure_alloc alloc_block pref bytes s
      else do {
        let oldsize = load_int (p - 4) (pl_memory s) - 4;
        (r, s) \<leftarrow> qca_secure_alloc alloc_block pref bytes s;
        case r of
          Inl e \<Rightarrow> Some (Inl e, s)
        | Inr new_p \<Rightarrow>
            let s = s\<lparr> pl_memory := memmove new_p p (min oldsize bytes) (pl_memory s) \<rparr>;
                (r, s) = qca_secure_free p s
            in Some (case r of Inl e \<Rightarrow> Inl e | Inr _ \<Rightarrow> Inr new_p, s) })"

section \<open>The size in front\<close>

lemma load_store: "v < 2 ^ 32 \<Longrightarrow> load_int c (store_int c v mem) = v"
proof -
  assume v: "v < 2 ^ 32"
  define q1 q2 q3 where "q1 = v div 256" and "q2 = q1 div 256" and "q3 = q2 div 256"
  have q: "v = 256 * q1 + v mod 256" "q1 = 256 * q2 + q1 mod 256" "q2 = 256 * q3 + q2 mod 256"
    by (simp_all add: q1_def q2_def q3_def)
  have d: "v div 256 ^ 1 = q1" "v div 256 ^ 2 = q2" "v div 256 ^ 3 = q3"
    by (simp_all add: q1_def q2_def q3_def div_mult2_eq [symmetric])
  have "q3 < 256" using v by (simp add: d(3) [symmetric] div_less_iff_less_mult)
  then have "q3 mod 256 = q3" by simp
  moreover have u: "unat (of_nat w :: byte) = w mod 256" for w by (simp add: unsigned_of_nat take_bit_eq_mod)
  ultimately show ?thesis
    unfolding load_int_def store_int_def using q d by (simp add: u)
qed

lemma load_int_frame: "(\<And>a. c \<le> a \<Longrightarrow> a < c + 4 \<Longrightarrow> mem' a = mem a) \<Longrightarrow> load_int c mem' = load_int c mem"
  by (simp add: load_int_def)

section \<open>Reallocation\<close>

lemma store_int_frame: "a < c \<or> c + 4 \<le> a \<Longrightarrow> store_int c v mem a = mem a"
  by (auto simp: store_int_def)

lemma memmove_frame: "a < dst \<or> dst + n \<le> a \<Longrightarrow> memmove dst src n mem a = mem a"
  by (auto simp: memmove_def)

text \<open>The new piece, its header and its contents, before the old piece is returned.\<close>

lemma fresh_piece:
  assumes "mem' = memmove (c + 4) (old + 4) k (store_int c (m + 4) mem)" and "k \<le> m" and "m + 4 < 2 ^ 32"
    and "apart old (k + 4) c (m + 4)"
  shows "load_int c mem' = m + 4"
    and "i < k \<Longrightarrow> mem' (c + 4 + i) = mem (old + 4 + i)"
    and "a < c \<or> c + m + 4 \<le> a \<Longrightarrow> mem' a = mem a"
proof -
  have "load_int c mem' = load_int c (store_int c (m + 4) mem)"
    unfolding assms(1) by (rule load_int_frame) (simp add: memmove_frame)
  then show "load_int c mem' = m + 4" using load_store [OF assms(3)] by simp
  show "mem' (c + 4 + i) = mem (old + 4 + i)" if "i < k"
    using that assms(2,4) by (auto simp: assms(1) memmove_def store_int_def apart_def)
  show "mem' a = mem a" if "a < c \<or> c + m + 4 \<le> a"
    using that assms(2) by (auto simp: assms(1) memmove_def store_int_def)
qed

text \<open>The memory after the old piece, with the bytes reserved for it, has been returned.\<close>

lemma realloc_memory:
  assumes mem2: "mem2 = memmove (c' + 4) (c + 4) (min n m) (store_int c' (m + 4) mem)" and m: "m + 4 < 2 ^ 32"
    and ap: "apart c old c' new" and le: "n + 4 \<le> old" "m + 4 \<le> new"
    and frame: "\<And>a. a < c \<or> c + old \<le> a \<Longrightarrow> mem' a = mem2 a"
  shows "load_int c' mem' = m + 4" and "i < min n m \<Longrightarrow> mem' (c' + 4 + i) = mem (c + 4 + i)"
    and "a < c \<or> c + old \<le> a \<Longrightarrow> a < c' \<or> c' + new \<le> a \<Longrightarrow> mem' a = mem a"
proof -
  have "apart c (min n m + 4) c' (m + 4)" using ap le by (auto simp: apart_def)
  note piece = fresh_piece [OF mem2 _ m this, simplified]
  have inside: "mem' a = mem2 a" if "c' \<le> a" "a < c' + m + 4" for a
    by (rule frame) (use that ap le in \<open>auto simp: apart_def\<close>)
  have "load_int c' mem' = load_int c' mem2" by (rule load_int_frame) (rule inside; simp)
  then show "load_int c' mem' = m + 4" using piece(1) by simp
  show "mem' (c' + 4 + i) = mem (c + 4 + i)" if "i < min n m" using inside [of "c' + 4 + i"] piece(2) [of i] that by simp
  show "mem' a = mem a" if "a < c \<or> c + old \<le> a" "a < c' \<or> c' + new \<le> a"
    using frame [OF that(1)] piece(3) [of a] that(2) le(2) by auto
qed

lemma span_ge: "n + 4 \<le> span (n + 4)"
  using units_bounds [of "n + 4"] by (auto simp: span_def pool_sizes)

lemma request_new:
  assumes "pool_inv s live" and "4096 \<le> pref" and "os_fresh alloc_block s live" and "0 < n"
    and "allocate alloc_block pref n s = Some (Inr p, s')"
  shows "pool_inv s' (insert (p, n) live) \<and> (p, n) \<notin> live"
  using allocate_val [OF assms(1,3,2,4)] assms(5) by auto

lemma realloc_unfold:
  assumes "allocate alloc_block pref (m + 4) s = Some (Inr c', s1)" and "load_int c (pl_memory s) = n + 4"
    and "s2 = s1\<lparr> pl_memory := memmove (c' + 4) (c + 4) (min n m) (store_int c' (m + 4) (pl_memory s1)) \<rparr>"
    and "load_int c (pl_memory s2) = n + 4" and "deallocate c (n + 4) s2 = (Inr (), s')"
  shows "qca_secure_realloc alloc_block pref (c + 4) m s = Some (Inr (c' + 4), s')"
  using assms by (simp add: qca_secure_realloc_def qca_secure_alloc_def qca_secure_free_def Let_def)

text \<open>
  C5. Reallocation of locked memory.  In every reachable state of the allocator, with the
  size in front of a piece of memory intact and an operating system that does not refuse,
  \<^verbatim>\<open>qca_secure_realloc\<close> returns a new piece with its own size in front and the common prefix of
  the contents; the old piece, size and contents, is filled with zeros and returned, the state
  stays reachable without it, and the memory of every other request is unchanged.
\<close>

theorem secure_realloc_keeps:
  assumes "pref = locking_pref_size prealloc" and "pool_reach pref s live" and "(c, n + 4) \<in> live"
    and "load_int c (pl_memory s) = n + 4" and "m + 4 < 2 ^ 31" and "os_fresh alloc_block s live"
    and "\<And>size. alloc_block size \<noteq> None"
  shows "\<exists>p s'. qca_secure_realloc alloc_block pref (c + 4) m s = Some (Inr p, s') \<and>
    pool_reach pref s' (insert (p - 4, m + 4) (live - {(c, n + 4)})) \<and>
    load_int (p - 4) (pl_memory s') = m + 4 \<and>
    (\<forall>i < min n m. pl_memory s' (p + i) = pl_memory s (c + 4 + i)) \<and>
    (\<forall>a. c \<le> a \<and> a < c + (n + 4) \<longrightarrow> pl_memory s' a = 0) \<and>
    (\<forall>(q, k) \<in> live - {(c, n + 4)}. \<forall>a. q \<le> a \<and> a < q + k \<longrightarrow> pl_memory s' a = pl_memory s a)"
proof -
  let ?old = "(c, n + 4)"
  have pref: "4096 \<le> pref" using assms(1) by simp
  note inv = pool_reach_inv [OF assms(2) pref]
  obtain c' s1 where al: "allocate alloc_block pref (m + 4) s = Some (Inr c', s1)"
    using allocate_succeeds [OF inv assms(6) pref _ assms(7), of "m + 4"] by auto
  let ?new = "(c', m + 4)"
  have reach1: "pool_reach pref s1 (insert ?new live)" using request [OF assms(2) _ assms(6) al] by simp
  have new: "pool_inv s1 (insert ?new live)" "?new \<notin> live" using request_new [OF inv pref assms(6) _ al] by simp_all
  have mem1: "pl_memory s1 a = pl_memory s a" if "x \<in> live" "fst x \<le> a" "a < fst x + snd x" for x a
    using allocate_frame [OF inv assms(6) al that(1,2)] live_le_span [OF inv that(1)] that(3) by simp
  have ap: "apart c (span (n + 4)) c' (span (m + 4))"
    using live_apart_span [OF new(1), of ?old ?new] assms(3) new(2) by auto
  define mem2 where "mem2 = memmove (c' + 4) (c + 4) (min n m) (store_int c' (m + 4) (pl_memory s1))"
  define s2 where "s2 = s1\<lparr> pl_memory := mem2 \<rparr>"
  have m: "m + 4 < 2 ^ 32" using assms(5) by simp
  have "apart c (min n m + 4) c' (m + 4)" using ap span_ge [of n] span_ge [of m] by (auto simp: apart_def)
  then have "load_int c mem2 = load_int c (pl_memory s1)"
    by (intro load_int_frame fresh_piece(3) [OF mem2_def _ m])
      (use ap span_ge [of n] span_ge [of m] in \<open>auto simp: apart_def\<close>)
  also have "\<dots> = load_int c (pl_memory s)"
    by (rule load_int_frame) (use mem1 [OF assms(3)] in simp)
  finally have hdr: "load_int c mem2 = n + 4" using assms(4) by simp
  have reach2: "pool_reach pref s2 (insert ?new live)" unfolding s2_def by (rule use_memory [OF reach1])
  obtain s' where de: "deallocate c (n + 4) s2 = (Inr (), s')"
    and wiped: "\<forall>a. c \<le> a \<and> a < c + (n + 4) \<longrightarrow> pl_memory s' a = 0"
    using deallocate_val [OF pool_reach_inv [OF reach2 pref], of c "n + 4"] assms(3) by auto
  have "pool_reach pref s' (insert ?new live - {?old})" by (rule release [OF reach2 _ de]) (use assms(3) in simp)
  moreover have "insert ?new live - {?old} = insert ?new (live - {?old})" using new(2) assms(3) by auto
  moreover have "qca_secure_realloc alloc_block pref (c + 4) m s = Some (Inr (c' + 4), s')"
    by (rule realloc_unfold [OF al assms(4) _ _ de]) (simp_all add: s2_def mem2_def hdr [unfolded mem2_def])
  moreover have frame: "pl_memory s' a = mem2 a" if "a < c \<or> c + span (n + 4) \<le> a" for a
    using deallocate_memory [OF de _ that] by (simp add: s2_def)
  note M = realloc_memory [OF mem2_def m ap span_ge span_ge frame]
  have "\<forall>x \<in> live - {?old}. \<forall>a. fst x \<le> a \<and> a < fst x + snd x \<longrightarrow> pl_memory s' a = pl_memory s a"
  proof (intro ballI allI impI)
    fix x a assume "x \<in> live - {?old}" and a: "fst x \<le> a \<and> a < fst x + snd x"
    then have x: "x \<in> live" "x \<noteq> ?old" by blast+
    have le: "snd x \<le> span (snd x)" using units_bounds [of "snd x"] pool_invD(5) [OF inv x(1)] by (auto simp: span_def pool_sizes)
    have "x \<noteq> ?new" using x(1) new(2) by blast
    then have "apart (fst x) (span (snd x)) c (span (n + 4))" "apart (fst x) (span (snd x)) c' (span (m + 4))"
      using live_apart_span [OF new(1), of x ?old] live_apart_span [OF new(1), of x ?new] x assms(3) by auto
    then have "pl_memory s' a = pl_memory s1 a" using a le by (intro M(3)) (auto simp: apart_def)
    then show "pl_memory s' a = pl_memory s a" using mem1 [OF x(1)] a by simp
  qed
  moreover have "pl_memory s' (c' + 4 + i) = pl_memory s (c + 4 + i)" if "i < min n m" for i
    using M(2) [of i] mem1 [OF assms(3), of "c + 4 + i"] that by auto
  ultimately show ?thesis using M(1) wiped
    by (intro exI [of _ "c' + 4"] exI [of _ s']) (simp add: split_beta)
qed

lemma os_exists: "finite live \<Longrightarrow> \<exists>P. os_fresh (\<lambda>_. Some P) s live"
proof -
  assume "finite live"
  then have fin: "finite (held s live)" by (simp add: held_def)
  let ?P = "Suc (\<Sum>x \<in> held s live. fst x + snd x)"
  have "fst x + snd x \<le> ?P" if "x \<in> held s live" for x
    using member_le_sum [OF that, of "\<lambda>x. fst x + snd x"] fin by simp
  then have "os_fresh (\<lambda>_. Some ?P) s live" by (auto simp: os_fresh_def apart_def)
  then show ?thesis ..
qed

theorem secure_realloc_keeps_witness:
  "\<exists>os c s p s'. pool_reach 65536 s {(c, 100)} \<and> qca_secure_realloc os 65536 (c + 4) 200 s = Some (Inr p, s') \<and>
     load_int (p - 4) (pl_memory s') = 204 \<and> (\<forall>i < 96. pl_memory s' (p + i) = pl_memory s (c + 4 + i)) \<and>
     (\<forall>a. c \<le> a \<and> a < c + 100 \<longrightarrow> pl_memory s' a = 0)"
proof -
  obtain c s0 where r0: "pool_reach 65536 s0 {(c, 100)}" using first_request by blast
  define s where "s = s0\<lparr> pl_memory := store_int c 100 (pl_memory s0) \<rparr>"
  have r: "pool_reach 65536 s {(c, 100)}" unfolding s_def by (rule use_memory [OF r0])
  have h: "load_int c (pl_memory s) = 100" by (simp add: s_def load_store)
  obtain P where os: "os_fresh (\<lambda>_. Some P) s {(c, 100)}" using os_exists [of "{(c, 100)}"] by auto
  have "65536 = locking_pref_size 0" by simp
  from secure_realloc_keeps [OF this r, of c 96 200 "\<lambda>_. Some P"] h os obtain p s' where
    "qca_secure_realloc (\<lambda>_. Some P) 65536 (c + 4) 200 s = Some (Inr p, s')" "load_int (p - 4) (pl_memory s') = 204"
    "\<forall>i < 96. pl_memory s' (p + i) = pl_memory s (c + 4 + i)"
    "\<forall>a. c \<le> a \<and> a < c + 100 \<longrightarrow> pl_memory s' a = 0" by auto
  with r show ?thesis by blast
qed

end
