(* ===== verification/LineConverter.thy ===== *)
theory LineConverter
  imports Prelude
begin

text \<open>
  The conversion of line endings between gpg and the application
  (\<^verbatim>\<open>src/plugins/qca-gnupg/lineconverter.cpp\<close>), on Windows (\<open>win\<close>) and elsewhere.  An access to a byte
  array at or behind its end gives \<open>None\<close>.
\<close>

datatype lc_mode = Read | Write
datatype lc_state = Normal | Partial

record line_converter =
  lc_mode :: lc_mode
  lc_state :: lc_state
  lc_prebytes :: int
  lc_list :: "int list"

abbreviation CR :: byte where "CR \<equiv> 0x0d"
abbreviation LF :: byte where "LF \<equiv> 0x0a"

section \<open>Operations\<close>

definition lc_setup :: "lc_mode \<Rightarrow> line_converter" where
  "lc_setup m = \<lparr> lc_mode = m, lc_state = Normal, lc_prebytes = 0, lc_list = [] \<rparr>"

text \<open>\<^verbatim>\<open>QByteArray::indexOf\<close> from a position on.\<close>

fun index_from :: "byte \<Rightarrow> bytes \<Rightarrow> nat \<Rightarrow> nat option" where
  "index_from c [] n = None"
| "index_from c (x # xs) 0 = (if x = c then Some 0 else map_option Suc (index_from c xs 0))"
| "index_from c (x # xs) (Suc n) = map_option Suc (index_from c xs n)"

text \<open>The loop of \<^verbatim>\<open>update\<close> for reading; \<open>size\<close> is the size of the argument.\<close>

lemma index_from_bounds: "index_from c xs n = Some k \<Longrightarrow> n \<le> k \<and> k < length xs"
  by (induction c xs n arbitrary: k rule: index_from.induct) (auto split: if_splits)

function read_loop :: "nat \<Rightarrow> bytes \<Rightarrow> lc_state \<Rightarrow> nat \<Rightarrow> (bytes \<times> lc_state) option" where
  "read_loop sz out st n =
     (case index_from CR out n of
        None \<Rightarrow> Some (out, st)
      | Some k \<Rightarrow>
          if k + 1 < sz then
            (case peek out (k + 1) of
               None \<Rightarrow> None
             | Some c \<Rightarrow> read_loop sz (if c = LF then take k out @ drop (k + 1) out else out) st (k + 1))
          else Some (out, Partial))"
  by pat_completeness auto
termination
  by (relation "measure (\<lambda>(sz, out, st, n). length out - n)")
    (auto dest!: index_from_bounds simp: peek_def split: if_splits)

declare read_loop.simps [simp del]

definition update_read :: "bytes \<Rightarrow> line_converter \<Rightarrow> (bytes \<times> line_converter) option" where
  "update_read buf s = do {
     (out, st) \<leftarrow> read_loop (length buf) (if lc_state s = Normal then buf else CR # buf) (lc_state s) 0;
     Some (out, s\<lparr> lc_state := st \<rparr>) }"

text \<open>The loop of \<^verbatim>\<open>update\<close> for writing on Windows: positions \<open>at\<close> and \<open>prev\<close>.\<close>

function write_loop :: "bytes \<Rightarrow> nat \<Rightarrow> nat \<Rightarrow> bytes \<Rightarrow> line_converter \<Rightarrow> bytes \<times> line_converter" where
  "write_loop buf prev at out s =
     (case index_from LF buf at of
        None \<Rightarrow>
          (out @ drop at buf, s\<lparr> lc_prebytes := lc_prebytes s + int (length buf) - int prev \<rparr>)
      | Some n \<Rightarrow>
          write_loop buf n (n + 1) (out @ take (n - at) (drop at buf) @ [CR, LF])
            (s\<lparr> lc_list := lc_list s @ [lc_prebytes s + int n + 1 - int prev], lc_prebytes := 0 \<rparr>))"
  by pat_completeness auto
termination
  by (relation "measure (\<lambda>(buf, prev, at, out, s). length buf - at)") (auto dest!: index_from_bounds)

declare write_loop.simps [simp del]

definition update :: "bool \<Rightarrow> bytes \<Rightarrow> line_converter \<Rightarrow> (bytes \<times> line_converter) option" where
  "update win buf s =
     (case lc_mode s of
        Read \<Rightarrow> update_read buf s
      | Write \<Rightarrow> Some (if win then write_loop buf 0 0 [] s else (buf, s)))"

definition final :: "line_converter \<Rightarrow> bytes" where
  "final s = (case lc_mode s of Read \<Rightarrow> (if lc_state s = Partial then [LF] else []) | Write \<Rightarrow> [])"

definition process :: "bool \<Rightarrow> bytes \<Rightarrow> line_converter \<Rightarrow> (bytes \<times> line_converter) option" where
  "process win buf s = do { (out, s) \<leftarrow> update win buf s; Some (out @ final s, s) }"

text \<open>\<^verbatim>\<open>writtenToActual\<close>; \<open>bytes\<close> is the argument, \<open>n\<close> the number of converted line ends.\<close>

fun actual_loop :: "int \<Rightarrow> int list \<Rightarrow> int \<Rightarrow> int \<Rightarrow> int \<Rightarrow> int \<times> int list \<times> int" where
  "actual_loop bytes xs prebytes n counter =
     (if counter \<le> 0 then (bytes - n, xs, prebytes)
      else case xs of
        x # ys \<Rightarrow>
          if x \<le> bytes then actual_loop bytes ys prebytes (n + 1) (counter - x)
          else if prebytes < 0 then (bytes + prebytes - n, (x - counter) # ys, 0)
          else (bytes - n, (x - counter) # ys, prebytes)
      | [] \<Rightarrow>
          let pb = prebytes - counter in
          if pb < 0 then (bytes + pb - n, [], 0) else (bytes - n, [], pb))"

definition writtenToActual :: "bool \<Rightarrow> int \<Rightarrow> line_converter \<Rightarrow> int \<times> line_converter" where
  "writtenToActual win bytes s =
     (if win then
        let (r, xs, pb) = actual_loop bytes (lc_list s) (lc_prebytes s) 0 bytes
        in (r, s\<lparr> lc_list := xs, lc_prebytes := pb \<rparr>)
      else (bytes, s))"

section \<open>Line endings\<close>

fun to_unix :: "bytes \<Rightarrow> bytes" where
  "to_unix [] = []"
| "to_unix (x # xs) = (if x = CR \<and> xs \<noteq> [] \<and> hd xs = LF then to_unix xs else x # to_unix xs)"

definition to_dos :: "bytes \<Rightarrow> bytes" where
  "to_dos xs = concat (map (\<lambda>x. if x = LF then [CR, LF] else [x]) xs)"

lemma to_unix_plain: "CR \<notin> set xs \<Longrightarrow> to_unix (xs @ ys) = xs @ to_unix ys"
  by (induction xs) auto

lemma to_unix_self: "CR \<notin> set xs \<Longrightarrow> to_unix xs = xs"
  using to_unix_plain [of xs "[]"] by simp

lemma to_unix_to_dos: "CR \<notin> set xs \<Longrightarrow> to_unix (to_dos xs) = xs"
  by (induction xs) (auto simp: to_dos_def)

lemma last_to_dos: "xs \<noteq> [] \<Longrightarrow> last (to_dos xs) = last xs \<and> to_dos xs \<noteq> []"
  by (induction xs) (auto simp: to_dos_def)

lemma index_from_None: "index_from c xs 0 = None \<longleftrightarrow> c \<notin> set xs"
  by (induction xs) auto

lemma index_from_Some: "index_from c xs 0 = Some k \<Longrightarrow> \<exists>a b. xs = a @ c # b \<and> length a = k \<and> c \<notin> set a"
proof (induction xs arbitrary: k)
  case (Cons x xs)
  show ?case
  proof (cases "x = c")
    case True
    then show ?thesis using Cons.prems by (intro exI [of _ "[]"] exI [of _ xs]) simp
  next
    case False
    then obtain j where "index_from c xs 0 = Some j" "k = Suc j" using Cons.prems by auto
    then obtain a b where "xs = a @ c # b" "length a = j" "c \<notin> set a" using Cons.IH by blast
    then show ?thesis using False \<open>k = Suc j\<close> by (intro exI [of _ "x # a"] exI [of _ b]) simp
  qed
qed simp

lemma index_from_skip: "index_from c (pre @ xs) (length pre) = map_option ((+) (length pre)) (index_from c xs 0)"
  by (induction pre) (auto simp: option.map_comp o_def option.map_ident)

lemma read_loop_val:
  "tail = [] \<or> last tail \<noteq> CR \<Longrightarrow> length (pre @ tail) \<le> sz \<Longrightarrow>
   read_loop sz (pre @ tail) st (length pre) = Some (pre @ to_unix tail, st)"
proof (induction "length tail" arbitrary: pre tail rule: less_induct)
  case less
  show ?case
  proof (cases "index_from CR tail 0")
    case None
    then have "index_from CR (pre @ tail) (length pre) = None" "to_unix tail = tail"
      using index_from_None [of CR tail] by (simp_all add: index_from_skip to_unix_self)
    then show ?thesis by (subst read_loop.simps) simp
  next
    case (Some k)
    obtain a b where ab: "tail = a @ CR # b" "length a = k" "CR \<notin> set a" using index_from_Some [OF Some] by blast
    then obtain c b' where b: "b = c # b'" using less.prems(1) by (cases b) auto
    have ix: "index_from CR (pre @ tail) (length pre) = Some (length pre + k)" using Some by (simp add: index_from_skip)
    have pk: "peek (pre @ tail) (length pre + k + 1) = Some c"
      using ab b by (simp add: peek_def nth_append)
    have le: "length pre + k + 1 < sz" using less.prems(2) ab b by simp
    let ?out = "if c = LF then pre @ a @ LF # b' else pre @ a @ CR # c # b'"
    have "read_loop sz (pre @ tail) st (length pre) = read_loop sz ?out st (length pre + k + 1)"
      using ix pk le ab b by (subst read_loop.simps) simp
    also have "\<dots> = Some (pre @ to_unix tail, st)"
    proof (cases "c = LF")
      case True
      then show ?thesis
        using less.hyps [of b' "pre @ a @ [LF]"] less.prems ab b by (auto simp: to_unix_plain split: if_splits)
    next
      case False
      then show ?thesis
        using less.hyps [of b "pre @ a @ [CR]"] less.prems ab b by (auto simp: to_unix_plain split: if_splits)
    qed
    finally show ?thesis .
  qed
qed

lemma write_loop_val: "n \<le> length buf \<Longrightarrow> fst (write_loop buf prev n out s) = out @ to_dos (drop n buf)"
proof (induction "length buf - n" arbitrary: n prev out s rule: less_induct)
  case less
  have sk: "index_from LF buf n = map_option ((+) n) (index_from LF (drop n buf) 0)"
    using index_from_skip [of LF "take n buf" "drop n buf"] less.prems by simp
  have plain: "to_dos xs = xs" if "LF \<notin> set xs" for xs using that by (induction xs) (auto simp: to_dos_def)
  show ?case
  proof (cases "index_from LF (drop n buf) 0")
    case None
    then have "index_from LF buf n = None" "to_dos (drop n buf) = drop n buf"
      using sk index_from_None [of LF "drop n buf"] by (simp_all add: plain)
    then show ?thesis by (subst write_loop.simps) simp
  next
    case (Some k)
    obtain a b where ab: "drop n buf = a @ LF # b" "length a = k" "LF \<notin> set a" using index_from_Some [OF Some] by blast
    have l: "n + k + 1 \<le> length buf" using arg_cong [OF ab(1), of length] ab(2) by simp
    have d: "drop (n + k + 1) buf = b" using arg_cong [OF ab(1), of "drop (k + 1)"] ab(2) by (simp add: add.commute)
    have "fst (write_loop buf prev n out s) = (out @ a @ [CR, LF]) @ to_dos (drop (n + k + 1) buf)"
      using less.hyps [of "n + k + 1"] l Some sk ab by (subst write_loop.simps) simp
    then show ?thesis using ab d plain [OF ab(3)] by (simp add: to_dos_def)
  qed
qed

lemma write_loop_mode: "lc_mode (snd (write_loop buf prev n out s)) = lc_mode s"
proof (induction buf prev n out s rule: write_loop.induct)
  case (1 buf prev n out s)
  then show ?case by (cases "index_from LF buf n") (simp_all add: write_loop.simps [of buf prev n])
qed

text \<open>
  Conversion of line endings in one piece.  Reading turns every carriage return before a
  line feed into nothing and leaves everything else alone, for every text that does not end
  in a carriage return; writing on Windows puts a carriage return before every line feed,
  and elsewhere changes nothing; text without carriage returns survives writing and reading.
\<close>

theorem line_converter_one_shot:
  assumes "buf = [] \<or> last buf \<noteq> CR"
  shows "process win buf (lc_setup Read) = Some (to_unix buf, lc_setup Read) \<and>
    map_option fst (process True buf (lc_setup Write)) = Some (to_dos buf) \<and>
    process False buf (lc_setup Write) = Some (buf, lc_setup Write) \<and>
    (CR \<notin> set buf \<longrightarrow> process win (to_dos buf) (lc_setup Read) = Some (buf, lc_setup Read))"
proof -
  have r: "process win xs (lc_setup Read) = Some (to_unix xs, lc_setup Read)" if "xs = [] \<or> last xs \<noteq> CR" for xs
    using read_loop_val [of xs "[]" "length xs" Normal] that
    by (simp add: process_def update_def update_read_def final_def lc_setup_def)
  have "to_dos buf = [] \<or> last (to_dos buf) \<noteq> CR" using assms last_to_dos [of buf] by (cases "buf = []") (auto simp: to_dos_def)
  note r2 = r [OF this]
  have w: "map_option fst (process True buf (lc_setup Write)) = Some (to_dos buf)"
    using write_loop_val [of 0 buf 0 "[]" "lc_setup Write"] write_loop_mode [of buf 0 0 "[]" "lc_setup Write"]
    by (simp add: process_def update_def final_def lc_setup_def split_beta)
  show ?thesis using r [OF assms] r2 w to_unix_to_dos [of buf]
    by (simp add: process_def [of False] update_def [of False] final_def lc_setup_def)
qed

theorem line_converter_one_shot_witness:
  "process True [0x61, CR, LF, 0x62, CR, 0x63] (lc_setup Read) = Some ([0x61, LF, 0x62, CR, 0x63], lc_setup Read)"
  using line_converter_one_shot [of "[0x61, CR, LF, 0x62, CR, 0x63]" True] by simp

text \<open>
  Line endings split between two chunks.  When a chunk ends in a carriage return the
  state becomes partial and is never reset: the carriage return is delivered at once, so that
  a line feed at the start of the next chunk leaves the pair unconverted, every later chunk
  is delivered with a carriage return that was not in the text, and the end adds a line feed.
  When a pair was converted earlier in the same chunk, the array is read at an index that is
  not valid any more (\<open>None\<close>): the bound is the size of the argument, not of the shortened array.
\<close>

theorem line_converter_split:
  assumes "CR \<notin> set a" and "CR \<notin> set b" and "b \<noteq> []" and "CR \<notin> set c" and "c \<noteq> []" and "hd c \<noteq> LF"
  shows "(\<exists>s1 s2 s3. update win (a @ [CR]) (lc_setup Read) = Some (a @ [CR], s1) \<and>
      update win (LF # b) s1 = Some (LF # b, s2) \<and> update win c s2 = Some (CR # c, s3) \<and> final s3 = [LF] \<and>
      to_unix (a @ [CR] @ (LF # b) @ c) = a @ (LF # b) @ c) \<and>
    update win (CR # LF # a @ [CR]) (lc_setup Read) = None"
proof -
  let ?s = "(lc_setup Read)\<lparr> lc_state := Partial \<rparr>"
  have none: "index_from CR xs 0 = None" if "CR \<notin> set xs" for xs using that by (simp add: index_from_None)
  have "index_from CR (a @ [CR]) 0 = Some (length a)"
    using assms(1) by (induction a) auto
  then have 1: "update win (a @ [CR]) (lc_setup Read) = Some (a @ [CR], ?s)"
    by (simp add: update_def update_read_def lc_setup_def read_loop.simps)
  have 2: "update win (LF # b) ?s = Some (LF # b, ?s)"
    using assms(2,3) none [of b]
    by (simp add: update_def update_read_def lc_setup_def read_loop.simps [of _ "CR # LF # b"]
        read_loop.simps [of _ "LF # b"] peek_def)
  have 3: "update win c ?s = Some (CR # c, ?s)"
    using assms(4-6) none [of c]
    by (cases c) (auto simp: update_def update_read_def lc_setup_def read_loop.simps [of _ "CR # _"] peek_def)
  have "to_unix (a @ [CR] @ (LF # b) @ c) = a @ (LF # b) @ c" "final ?s = [LF]"
    using assms to_unix_plain [of a] to_unix_self [of "LF # b @ c"] by (simp_all add: final_def lc_setup_def)
  moreover have "update win (CR # LF # a @ [CR]) (lc_setup Read) = None"
    using \<open>index_from CR (a @ [CR]) 0 = Some (length a)\<close>
    by (simp add: update_def update_read_def lc_setup_def read_loop.simps [of _ "CR # LF # a @ [CR]"]
        read_loop.simps [of _ "LF # a @ [CR]"] peek_def)
  ultimately show ?thesis using 1 2 3 by blast
qed

theorem line_converter_split_witness:
  "(\<exists>s1 s2 s3. update False ([0x61] @ [CR]) (lc_setup Read) = Some ([0x61] @ [CR], s1) \<and>
     update False (LF # [0x62]) s1 = Some (LF # [0x62], s2) \<and> update False [0x63] s2 = Some (CR # [0x63], s3) \<and>
     final s3 = [LF] \<and> to_unix ([0x61] @ [CR] @ (LF # [0x62]) @ [0x63]) = [0x61] @ (LF # [0x62]) @ [0x63]) \<and>
   update False (CR # LF # [0x61] @ [CR]) (lc_setup Read) = None"
  by (rule line_converter_split) simp_all

end
