(* ===== verification/CertInfo.thy ===== *)
theory CertInfo
  imports QStrings "HOL-Library.List_Lexorder" "HOL-Library.Multiset"
begin

text \<open>
  The names in a certificate (\<^verbatim>\<open>src/src/qca_cert.cpp\<close>): the types of information and of
  constraints with their identifiers and their order, the ordered list and the multi-map of
  information and the conversions between them, distinguished-name text, and the friendly names
  that \<^verbatim>\<open>makeFriendlyNames\<close> gives to a list of certificates.

  \<^verbatim>\<open>QMultiMap\<close> is the list of its items: sorted by key, the most recently inserted value of a key
  first, keys compared by \<^verbatim>\<open>operator<\<close> alone, as Qt documents it.  \<^verbatim>\<open>QString\<close>s are compared by their
  UTF-16 code units, which is the lexicographic order of lists.
\<close>

section \<open>Types of information\<close>

datatype info_known =
  CommonName | Email | EmailLegacy | Organization | OrganizationalUnit | Locality
    | IncorporationLocality | State | IncorporationState | Country | IncorporationCountry
    | URI | DNS | IPAddress | XMPP

fun knownToId :: "info_known \<Rightarrow> qstring" where
  "knownToId CommonName = qlatin ''2.5.4.3''"
| "knownToId Email = qlatin ''GeneralName.rfc822Name''"
| "knownToId EmailLegacy = qlatin ''1.2.840.113549.1.9.1''"
| "knownToId Organization = qlatin ''2.5.4.10''"
| "knownToId OrganizationalUnit = qlatin ''2.5.4.11''"
| "knownToId Locality = qlatin ''2.5.4.7''"
| "knownToId IncorporationLocality = qlatin ''1.3.6.1.4.1.311.60.2.1.1''"
| "knownToId State = qlatin ''2.5.4.8''"
| "knownToId IncorporationState = qlatin ''1.3.6.1.4.1.311.60.2.1.2''"
| "knownToId Country = qlatin ''2.5.4.6''"
| "knownToId IncorporationCountry = qlatin ''1.3.6.1.4.1.311.60.2.1.3''"
| "knownToId URI = qlatin ''GeneralName.uniformResourceIdentifier''"
| "knownToId DNS = qlatin ''GeneralName.dNSName''"
| "knownToId IPAddress = qlatin ''GeneralName.iPAddress''"
| "knownToId XMPP = qlatin ''1.3.6.1.5.5.7.8.5''"

definition idToKnown :: "qstring \<Rightarrow> info_known option" where
  "idToKnown s =
     (if s = qlatin ''2.5.4.3'' then Some CommonName
      else if s = qlatin ''GeneralName.rfc822Name'' then Some Email
      else if s = qlatin ''1.2.840.113549.1.9.1'' then Some EmailLegacy
      else if s = qlatin ''2.5.4.10'' then Some Organization
      else if s = qlatin ''2.5.4.11'' then Some OrganizationalUnit
      else if s = qlatin ''2.5.4.7'' then Some Locality
      else if s = qlatin ''1.3.6.1.4.1.311.60.2.1.1'' then Some IncorporationLocality
      else if s = qlatin ''2.5.4.8'' then Some State
      else if s = qlatin ''1.3.6.1.4.1.311.60.2.1.2'' then Some IncorporationState
      else if s = qlatin ''2.5.4.6'' then Some Country
      else if s = qlatin ''1.3.6.1.4.1.311.60.2.1.3'' then Some IncorporationCountry
      else if s = qlatin ''GeneralName.uniformResourceIdentifier'' then Some URI
      else if s = qlatin ''GeneralName.dNSName'' then Some DNS
      else if s = qlatin ''GeneralName.iPAddress'' then Some IPAddress
      else if s = qlatin ''1.3.6.1.5.5.7.8.5'' then Some XMPP
      else None)"

fun known_num :: "info_known \<Rightarrow> nat" where
  "known_num CommonName = 0"
| "known_num Email = 1"
| "known_num EmailLegacy = 2"
| "known_num Organization = 3"
| "known_num OrganizationalUnit = 4"
| "known_num Locality = 5"
| "known_num IncorporationLocality = 6"
| "known_num State = 7"
| "known_num IncorporationState = 8"
| "known_num Country = 9"
| "known_num IncorporationCountry = 10"
| "known_num URI = 11"
| "known_num DNS = 12"
| "known_num IPAddress = 13"
| "known_num XMPP = 14"

datatype info_section = DN | AlternativeName

definition knownToSection :: "info_known \<Rightarrow> info_section" where
  "knownToSection k =
     (if k \<in> {CommonName, EmailLegacy, Organization, OrganizationalUnit, Locality, IncorporationLocality,
              State, IncorporationState, Country, IncorporationCountry}
      then DN else AlternativeName)"

definition knownToShortName :: "info_known option \<Rightarrow> qstring option" where
  "knownToShortName k =
     (if k = Some CommonName then Some (qlatin ''CN'')
      else if k = Some Locality then Some (qlatin ''L'')
      else if k = Some State then Some (qlatin ''ST'')
      else if k = Some Organization then Some (qlatin ''O'')
      else if k = Some OrganizationalUnit then Some (qlatin ''OU'')
      else if k = Some Country then Some (qlatin ''C'')
      else if k = Some EmailLegacy then Some (qlatin ''emailAddress'')
      else None)"

record info_type =
  it_section :: info_section
  it_known :: "info_known option"
  it_id :: qstring

definition info_type_known :: "info_known \<Rightarrow> info_type" where
  "info_type_known k = \<lparr> it_section = knownToSection k, it_known = Some k, it_id = knownToId k \<rparr>"

definition info_type_id :: "qstring \<Rightarrow> info_section \<Rightarrow> info_type" where
  "info_type_id s sect = \<lparr> it_section = sect, it_known = idToKnown s, it_id = s \<rparr>"

definition info_less :: "info_type \<Rightarrow> info_type \<Rightarrow> bool" where
  "info_less a b =
     (case it_known a of
        Some j \<Rightarrow> (case it_known b of None \<Rightarrow> True | Some k \<Rightarrow> known_num j < known_num k)
      | None \<Rightarrow> (case it_known b of Some _ \<Rightarrow> False | None \<Rightarrow> it_id a < it_id b))"

definition info_eq :: "info_type \<Rightarrow> info_type \<Rightarrow> bool" where
  "info_eq a b \<longleftrightarrow>
     (case (it_known a, it_known b) of
        (Some j, Some k) \<Rightarrow> j = k
      | _ \<Rightarrow> it_id a = it_id b) \<and> it_section a = it_section b"

section \<open>Types of constraints\<close>

datatype constraint_known =
  DigitalSignature | NonRepudiation | KeyEncipherment | DataEncipherment | KeyAgreement
    | KeyCertificateSign | CRLSign | EncipherOnly | DecipherOnly | ServerAuth | ClientAuth
    | CodeSigning | EmailProtection | IPSecEndSystem | IPSecTunnel | IPSecUser
    | TimeStamping | OCSPSigning

fun constraintKnownToId :: "constraint_known \<Rightarrow> qstring" where
  "constraintKnownToId DigitalSignature = qlatin ''KeyUsage.digitalSignature''"
| "constraintKnownToId NonRepudiation = qlatin ''KeyUsage.nonRepudiation''"
| "constraintKnownToId KeyEncipherment = qlatin ''KeyUsage.keyEncipherment''"
| "constraintKnownToId DataEncipherment = qlatin ''KeyUsage.dataEncipherment''"
| "constraintKnownToId KeyAgreement = qlatin ''KeyUsage.keyAgreement''"
| "constraintKnownToId KeyCertificateSign = qlatin ''KeyUsage.keyCertSign''"
| "constraintKnownToId CRLSign = qlatin ''KeyUsage.crlSign''"
| "constraintKnownToId EncipherOnly = qlatin ''KeyUsage.encipherOnly''"
| "constraintKnownToId DecipherOnly = qlatin ''KeyUsage.decipherOnly''"
| "constraintKnownToId ServerAuth = qlatin ''1.3.6.1.5.5.7.3.1''"
| "constraintKnownToId ClientAuth = qlatin ''1.3.6.1.5.5.7.3.2''"
| "constraintKnownToId CodeSigning = qlatin ''1.3.6.1.5.5.7.3.3''"
| "constraintKnownToId EmailProtection = qlatin ''1.3.6.1.5.5.7.3.4''"
| "constraintKnownToId IPSecEndSystem = qlatin ''1.3.6.1.5.5.7.3.5''"
| "constraintKnownToId IPSecTunnel = qlatin ''1.3.6.1.5.5.7.3.6''"
| "constraintKnownToId IPSecUser = qlatin ''1.3.6.1.5.5.7.3.7''"
| "constraintKnownToId TimeStamping = qlatin ''1.3.6.1.5.5.7.3.8''"
| "constraintKnownToId OCSPSigning = qlatin ''1.3.6.1.5.5.7.3.9''"

definition constraintIdToKnown :: "qstring \<Rightarrow> constraint_known option" where
  "constraintIdToKnown s =
     (if s = qlatin ''KeyUsage.digitalSignature'' then Some DigitalSignature
      else if s = qlatin ''KeyUsage.nonRepudiation'' then Some NonRepudiation
      else if s = qlatin ''KeyUsage.keyEncipherment'' then Some KeyEncipherment
      else if s = qlatin ''KeyUsage.dataEncipherment'' then Some DataEncipherment
      else if s = qlatin ''KeyUsage.keyAgreement'' then Some KeyAgreement
      else if s = qlatin ''KeyUsage.keyCertSign'' then Some KeyCertificateSign
      else if s = qlatin ''KeyUsage.crlSign'' then Some CRLSign
      else if s = qlatin ''KeyUsage.encipherOnly'' then Some EncipherOnly
      else if s = qlatin ''KeyUsage.decipherOnly'' then Some DecipherOnly
      else if s = qlatin ''1.3.6.1.5.5.7.3.1'' then Some ServerAuth
      else if s = qlatin ''1.3.6.1.5.5.7.3.2'' then Some ClientAuth
      else if s = qlatin ''1.3.6.1.5.5.7.3.3'' then Some CodeSigning
      else if s = qlatin ''1.3.6.1.5.5.7.3.4'' then Some EmailProtection
      else if s = qlatin ''1.3.6.1.5.5.7.3.5'' then Some IPSecEndSystem
      else if s = qlatin ''1.3.6.1.5.5.7.3.6'' then Some IPSecTunnel
      else if s = qlatin ''1.3.6.1.5.5.7.3.7'' then Some IPSecUser
      else if s = qlatin ''1.3.6.1.5.5.7.3.8'' then Some TimeStamping
      else if s = qlatin ''1.3.6.1.5.5.7.3.9'' then Some OCSPSigning
      else None)"

fun constraint_num :: "constraint_known \<Rightarrow> nat" where
  "constraint_num DigitalSignature = 0"
| "constraint_num NonRepudiation = 1"
| "constraint_num KeyEncipherment = 2"
| "constraint_num DataEncipherment = 3"
| "constraint_num KeyAgreement = 4"
| "constraint_num KeyCertificateSign = 5"
| "constraint_num CRLSign = 6"
| "constraint_num EncipherOnly = 7"
| "constraint_num DecipherOnly = 8"
| "constraint_num ServerAuth = 9"
| "constraint_num ClientAuth = 10"
| "constraint_num CodeSigning = 11"
| "constraint_num EmailProtection = 12"
| "constraint_num IPSecEndSystem = 13"
| "constraint_num IPSecTunnel = 14"
| "constraint_num IPSecUser = 15"
| "constraint_num TimeStamping = 16"
| "constraint_num OCSPSigning = 17"

datatype constraint_section = KeyUsage | ExtendedKeyUsage

definition constraintKnownToSection :: "constraint_known \<Rightarrow> constraint_section" where
  "constraintKnownToSection k =
     (if k \<in> {DigitalSignature, NonRepudiation, KeyEncipherment, DataEncipherment, KeyAgreement,
              KeyCertificateSign, CRLSign, EncipherOnly, DecipherOnly}
      then KeyUsage else ExtendedKeyUsage)"

record constraint_type =
  cn_section :: constraint_section
  cn_known :: "constraint_known option"
  cn_id :: qstring

definition constraint_type_known :: "constraint_known \<Rightarrow> constraint_type" where
  "constraint_type_known k =
     \<lparr> cn_section = constraintKnownToSection k, cn_known = Some k, cn_id = constraintKnownToId k \<rparr>"

definition constraint_type_id :: "qstring \<Rightarrow> constraint_section \<Rightarrow> constraint_type" where
  "constraint_type_id s sect = \<lparr> cn_section = sect, cn_known = constraintIdToKnown s, cn_id = s \<rparr>"

definition constraint_less :: "constraint_type \<Rightarrow> constraint_type \<Rightarrow> bool" where
  "constraint_less a b =
     (case cn_known a of
        Some j \<Rightarrow> (case cn_known b of None \<Rightarrow> True | Some k \<Rightarrow> constraint_num j < constraint_num k)
      | None \<Rightarrow> (case cn_known b of Some _ \<Rightarrow> False | None \<Rightarrow> cn_id a < cn_id b))"

definition constraint_eq :: "constraint_type \<Rightarrow> constraint_type \<Rightarrow> bool" where
  "constraint_eq a b \<longleftrightarrow>
     (case (cn_known a, cn_known b) of
        (Some j, Some k) \<Rightarrow> j = k
      | _ \<Rightarrow> cn_id a = cn_id b) \<and> cn_section a = cn_section b"

section \<open>The multi-map of information\<close>

type_synonym info_pair = "info_type \<times> qstring"

definition same_key :: "info_type \<Rightarrow> info_type \<Rightarrow> bool" where
  "same_key a b \<longleftrightarrow> \<not> info_less a b \<and> \<not> info_less b a"

definition mm_insert :: "info_type \<Rightarrow> qstring \<Rightarrow> info_pair list \<Rightarrow> info_pair list" where
  "mm_insert k v m =
     takeWhile (\<lambda>p. info_less (fst p) k) m @ (k, v) # dropWhile (\<lambda>p. info_less (fst p) k) m"

definition mm_values :: "info_type \<Rightarrow> info_pair list \<Rightarrow> qstring list" where
  "mm_values k m = map snd (filter (\<lambda>p. same_key (fst p) k) m)"

definition mm_value :: "info_type \<Rightarrow> info_pair list \<Rightarrow> qstring" where
  "mm_value k m = (case mm_values k m of [] \<Rightarrow> [] | v # _ \<Rightarrow> v)"

definition mm_remove :: "info_type \<Rightarrow> info_pair list \<Rightarrow> info_pair list" where
  "mm_remove k m = filter (\<lambda>p. \<not> same_key (fst p) k) m"

definition orderedToMap :: "info_pair list \<Rightarrow> info_pair list" where
  "orderedToMap info =
     (let out = foldl (\<lambda>out i. if it_known (fst i) \<noteq> Some EmailLegacy then mm_insert (fst i) (snd i) out else out) [] info
      in foldl (\<lambda>out i.
           if it_known (fst i) = Some EmailLegacy \<and> snd i \<notin> set (mm_values (info_type_known Email) out)
           then mm_insert (info_type_known Email) (snd i) out else out) out info)"

fun moveMapValues :: "info_pair list \<times> info_pair list \<Rightarrow> info_type \<Rightarrow> info_pair list \<times> info_pair list" where
  "moveMapValues (from, to) type = (mm_remove type from, to @ map (Pair type) (rev (mm_values type from)))"

text \<open>The loop that drops repeated types, and \<^verbatim>\<open>mapToOrdered\<close>; the first result is what is left in the map.\<close>

fun dedup :: "info_type list \<Rightarrow> info_type list \<Rightarrow> info_type list" where
  "dedup types [] = types"
| "dedup types (t # ts) = dedup (if \<exists>u \<in> set types. info_eq u t then types else types @ [t]) ts"

definition specific_order :: "info_known list" where
  "specific_order = [CommonName, Country, Locality, State, Organization, OrganizationalUnit, Email, URI, DNS, IPAddress, XMPP]"

definition mapToOrdered_loop :: "info_pair list \<Rightarrow> info_pair list \<times> info_pair list" where
  "mapToOrdered_loop info =
     (let (inp, out) = foldl moveMapValues (info, []) (map info_type_known specific_order)
      in foldl moveMapValues (inp, out) (dedup [] (map fst inp)))"

definition mapToOrdered :: "info_pair list \<Rightarrow> info_pair list" where
  "mapToOrdered info = snd (mapToOrdered_loop info)"

section \<open>Distinguished names\<close>

text \<open>The identifier of a type that has no short name is not empty: its first character is read and
  classified by \<^verbatim>\<open>QChar::isDigit\<close>, a parameter.\<close>

definition dnLabel :: "(16 word \<Rightarrow> bool) \<Rightarrow> info_type \<Rightarrow> qstring option" where
  "dnLabel isDigit type =
     (case knownToShortName (it_known type) of
        Some str \<Rightarrow> Some str
      | None \<Rightarrow> (case it_id type of
          [] \<Rightarrow> None
        | c # _ \<Rightarrow> Some ((if isDigit c then qlatin ''OID.'' else qlatin ''qca.'') @ it_id type)))"

fun dn_parts :: "(16 word \<Rightarrow> bool) \<Rightarrow> info_pair list \<Rightarrow> qstring list option" where
  "dn_parts isDigit [] = Some []"
| "dn_parts isDigit (i # is) =
     (if it_section (fst i) \<noteq> DN then dn_parts isDigit is
      else do { label \<leftarrow> dnLabel isDigit (fst i); parts \<leftarrow> dn_parts isDigit is; Some ((label @ qlatin ''='' @ snd i) # parts) })"

definition orderedToDNString :: "(16 word \<Rightarrow> bool) \<Rightarrow> info_pair list \<Rightarrow> qstring option" where
  "orderedToDNString isDigit inp = map_option (qjoin (qlatin '', '')) (dn_parts isDigit inp)"

definition orderedDNOnly :: "info_pair list \<Rightarrow> info_pair list" where
  "orderedDNOnly inp = filter (\<lambda>i. it_section (fst i) = DN) inp"

section \<open>Friendly names\<close>

record certificate =
  ct_subject :: "info_pair list"
  ct_issuer :: "info_pair list"
  ct_constraints :: "constraint_type list"

definition subjectInfo :: "certificate \<Rightarrow> info_pair list" where
  "subjectInfo c = orderedToMap (ct_subject c)"

definition issuerInfo :: "certificate \<Rightarrow> info_pair list" where
  "issuerInfo c = orderedToMap (ct_issuer c)"

definition baseCertName :: "info_pair list \<Rightarrow> qstring" where
  "baseCertName info =
     (let str = mm_value (info_type_known CommonName) info in
      if str \<noteq> [] then str
      else let str = mm_value (info_type_known Organization) info in
           if str \<noteq> [] then str else qlatin ''Unnamed'')"

definition findSameName :: "qstring \<Rightarrow> qstring list \<Rightarrow> nat list" where
  "findSameName name list = filter (\<lambda>n. list ! n = name) [0..<length list]"

text \<open>One value that the other certificate has, too, is removed; then the search starts again with the next certificate.\<close>

fun remove_shared :: "qstring list \<Rightarrow> qstring list \<Rightarrow> qstring list" where
  "remove_shared other_vals [] = []"
| "remove_shared other_vals (v # vs) = (if v \<in> set other_vals then vs else v # remove_shared other_vals vs)"

fun unique_values :: "info_type \<Rightarrow> certificate list \<Rightarrow> nat \<Rightarrow> nat list \<Rightarrow> qstring list \<Rightarrow> qstring list" where
  "unique_values type certs self [] vals = vals"
| "unique_values type certs self (n # ns) vals =
     (if n = self then unique_values type certs self ns vals
      else let vals = remove_shared (mm_values type (subjectInfo (certs ! n))) vals in
           if vals = [] then [] else unique_values type certs self ns vals)"

definition uniqueSubjectValue :: "info_type \<Rightarrow> nat list \<Rightarrow> certificate list \<Rightarrow> nat \<Rightarrow> qstring" where
  "uniqueSubjectValue type items certs i =
     (let vals = mm_values type (subjectInfo (certs ! (items ! i))) in
      if vals = [] then []
      else case unique_values type certs (items ! i) items vals of [] \<Rightarrow> [] | v # _ \<Rightarrow> v)"

definition uniqueIssuerName :: "nat list \<Rightarrow> certificate list \<Rightarrow> nat \<Rightarrow> qstring" where
  "uniqueIssuerName items certs i =
     (let val = baseCertName (issuerInfo (certs ! (items ! i))) in
      if \<exists>n \<in> set items. n \<noteq> items ! i \<and> baseCertName (issuerInfo (certs ! n)) = val then [] else val)"

definition constraintToString :: "constraint_type \<Rightarrow> qstring" where
  "constraintToString type = (case cn_known type of
       Some DigitalSignature \<Rightarrow> qlatin ''DigitalSignature''
     | Some NonRepudiation \<Rightarrow> qlatin ''NonRepudiation''
     | Some KeyEncipherment \<Rightarrow> qlatin ''KeyEncipherment''
     | Some DataEncipherment \<Rightarrow> qlatin ''DataEncipherment''
     | Some KeyAgreement \<Rightarrow> qlatin ''KeyAgreement''
     | Some KeyCertificateSign \<Rightarrow> qlatin ''KeyCertificateSign''
     | Some CRLSign \<Rightarrow> qlatin ''CRLSign''
     | Some EncipherOnly \<Rightarrow> qlatin ''EncipherOnly''
     | Some DecipherOnly \<Rightarrow> qlatin ''DecipherOnly''
     | Some ServerAuth \<Rightarrow> qlatin ''ServerAuth''
     | Some ClientAuth \<Rightarrow> qlatin ''ClientAuth''
     | Some CodeSigning \<Rightarrow> qlatin ''CodeSigning''
     | Some EmailProtection \<Rightarrow> qlatin ''EmailProtection''
     | Some IPSecEndSystem \<Rightarrow> qlatin ''IPSecEndSystem''
     | Some IPSecTunnel \<Rightarrow> qlatin ''IPSecTunnel''
     | Some IPSecUser \<Rightarrow> qlatin ''IPSecUser''
     | Some TimeStamping \<Rightarrow> qlatin ''TimeStamping''
     | Some OCSPSigning \<Rightarrow> qlatin ''OCSPSigning''
     | None \<Rightarrow> [])"

definition has_constraint :: "constraint_type \<Rightarrow> certificate \<Rightarrow> bool" where
  "has_constraint type c \<longleftrightarrow> (\<exists>t \<in> set (ct_constraints c). constraint_eq t type)"

definition uniqueConstraintValue :: "constraint_type \<Rightarrow> nat list \<Rightarrow> certificate list \<Rightarrow> nat \<Rightarrow> qstring" where
  "uniqueConstraintValue type items certs i =
     (if has_constraint type (certs ! (items ! i)) \<and>
         \<not> (\<exists>n \<in> set items. n \<noteq> items ! i \<and> has_constraint type (certs ! n))
      then constraintToString type else [])"

text \<open>The usages that \<^verbatim>\<open>makeUniqueName\<close> tries, in its order.\<close>

fun unique_usage :: "constraint_known list \<Rightarrow> nat list \<Rightarrow> certificate list \<Rightarrow> nat \<Rightarrow> qstring" where
  "unique_usage [] items certs i = []"
| "unique_usage (k # ks) items certs i =
     (let str = uniqueConstraintValue (constraint_type_known k) items certs i in
      if str \<noteq> [] then str else unique_usage ks items certs i)"

definition makeUniqueName ::
    "(16 word \<Rightarrow> bool) \<Rightarrow> nat list \<Rightarrow> qstring list \<Rightarrow> certificate list \<Rightarrow> nat \<Rightarrow> qstring option" where
  "makeUniqueName isDigit items list certs i =
     (let name = list ! (items ! i);
          org = uniqueSubjectValue (info_type_known Organization) items certs i;
          unit = uniqueSubjectValue (info_type_known OrganizationalUnit) items certs i;
          email = uniqueSubjectValue (info_type_known Email) items certs i;
          xmpp = uniqueSubjectValue (info_type_known XMPP) items certs i;
          issuer = uniqueIssuerName items certs i;
          usage = unique_usage [DigitalSignature, ClientAuth, EmailProtection, DataEncipherment, EncipherOnly, DecipherOnly] items certs i
      in if org \<noteq> [] then Some (name @ qlatin '' of '' @ org)
         else if unit \<noteq> [] then Some (name @ qlatin '' of '' @ unit)
         else if email \<noteq> [] then Some (name @ qlatin '' <'' @ email @ qlatin ''>'')
         else if xmpp \<noteq> [] then Some (name @ qlatin '' <xmpp:'' @ xmpp @ qlatin ''>'')
         else if issuer \<noteq> [] then Some (name @ qlatin '' by '' @ issuer)
         else if usage \<noteq> [] then Some (name @ qlatin '' for '' @ usage)
         else orderedToDNString isDigit (ct_subject (certs ! (items ! i))))"

fun collect_collisions :: "qstring list \<Rightarrow> qstring list \<Rightarrow> nat list list \<Rightarrow> nat list list" where
  "collect_collisions names [] coll = coll"
| "collect_collisions names (name # ns) coll =
     (let items = findSameName name names in
      if 1 < length items \<and> \<not> (\<exists>other \<in> set coll. \<exists>n \<in> set items. n \<in> set other)
      then collect_collisions names ns (coll @ [items])
      else collect_collisions names ns coll)"

fun rename_items ::
    "(16 word \<Rightarrow> bool) \<Rightarrow> nat list \<Rightarrow> certificate list \<Rightarrow> nat list \<Rightarrow> qstring list \<Rightarrow> qstring list option" where
  "rename_items isDigit items certs [] names = Some names"
| "rename_items isDigit items certs (n # ns) names = do {
     name \<leftarrow> makeUniqueName isDigit items names certs n;
     rename_items isDigit items certs ns (names[items ! n := name]) }"

fun rename_all :: "(16 word \<Rightarrow> bool) \<Rightarrow> certificate list \<Rightarrow> nat list list \<Rightarrow> qstring list \<Rightarrow> qstring list option" where
  "rename_all isDigit certs [] names = Some names"
| "rename_all isDigit certs (items # coll) names = do {
     names \<leftarrow> rename_items isDigit items certs [0..<length items] names;
     rename_all isDigit certs coll names }"

definition makeFriendlyNames :: "(16 word \<Rightarrow> bool) \<Rightarrow> certificate list \<Rightarrow> qstring list option" where
  "makeFriendlyNames isDigit list =
     (let names = map (\<lambda>c. baseCertName (subjectInfo c)) list in
      rename_all isDigit list (collect_collisions names names []) names)"

section \<open>Order of the types\<close>

lemma qlatin_inject: "qlatin s = qlatin t \<longleftrightarrow> s = t"
proof -
  have "inj (\<lambda>c :: char. of_nat (of_char c) :: 16 word)"
  proof (rule injI)
    fix c d :: char
    assume "(of_nat (of_char c) :: 16 word) = of_nat (of_char d)"
    then have "unat (of_nat (of_char c) :: 16 word) = unat (of_nat (of_char d) :: 16 word)" by simp
    moreover have "(of_char x :: nat) < 65536" for x using nat_of_char_less_256 [of x] by linarith
    then have "unat (of_nat (of_char x) :: 16 word) = of_char x" for x by (simp add: unat_of_nat)
    ultimately show "c = d" by (simp add: of_char_eq_iff)
  qed
  then show ?thesis by (simp add: qlatin_def inj_map_eq_map)
qed

lemma idToKnown_knownToId: "idToKnown (knownToId k) = Some k"
  by (cases k) (simp_all add: idToKnown_def qlatin_inject)

lemma knownToId_idToKnown: "idToKnown s = Some k \<Longrightarrow> s = knownToId k"
  by (auto simp: idToKnown_def split: if_splits)

lemma constraintIdToKnown_knownToId: "constraintIdToKnown (constraintKnownToId k) = Some k"
  by (cases k) (simp_all add: constraintIdToKnown_def qlatin_inject)

lemma constraintKnownToId_idToKnown: "constraintIdToKnown s = Some k \<Longrightarrow> s = constraintKnownToId k"
  by (auto simp: constraintIdToKnown_def split: if_splits)

text \<open>The types that the constructors build.\<close>

definition info_wf :: "info_type \<Rightarrow> bool" where
  "info_wf t \<longleftrightarrow> it_known t = idToKnown (it_id t)"

lemma info_wf_known: "info_wf (info_type_known k)"
  by (simp add: info_wf_def info_type_known_def idToKnown_knownToId)

lemma info_wf_id: "info_wf (info_type_id s sect)"
  by (simp add: info_wf_def info_type_id_def)

definition info_key :: "info_type \<Rightarrow> qstring" where
  "info_key t = (case it_known t of Some k \<Rightarrow> [0, of_nat (known_num k)] | None \<Rightarrow> 1 # it_id t)"

lemma known_num_less: "known_num k < 15"
  by (cases k) simp_all

lemma known_num_inject: "known_num j = known_num k \<longleftrightarrow> j = k"
  by (cases j; cases k; simp)

lemma small_word_less: "m < 15 \<Longrightarrow> n < 15 \<Longrightarrow> (of_nat m :: 16 word) < of_nat n \<longleftrightarrow> m < n"
  by (simp add: word_less_nat_alt unat_of_nat)

lemma info_less_key: "info_less a b \<longleftrightarrow> info_key a < info_key b"
  by (auto simp: info_less_def info_key_def small_word_less known_num_less split: option.splits)

lemma same_key_iff: "same_key a b \<longleftrightarrow> info_key a = info_key b"
  by (auto simp: same_key_def info_less_key)

lemma small_word_eq: "m < 15 \<Longrightarrow> n < 15 \<Longrightarrow> (of_nat m :: 16 word) = of_nat n \<longleftrightarrow> m = n"
  using small_word_less [of m n] small_word_less [of n m] by (metis linorder_neq_iff)

lemma info_key_known: "info_key a = info_key (info_type_known k) \<longleftrightarrow> it_known a = Some k"
  by (auto simp: info_key_def info_type_known_def small_word_eq known_num_less known_num_inject split: option.splits)

section \<open>Multi-maps\<close>

definition pair_key :: "info_pair \<Rightarrow> qstring" where
  "pair_key p = info_key (fst p)"

text \<open>A multi-map: sorted by key, and equal keys are equal types.\<close>

definition mm_ok :: "info_pair list \<Rightarrow> bool" where
  "mm_ok m \<longleftrightarrow> sorted (map pair_key m) \<and>
     (\<forall>p \<in> set m. \<forall>q \<in> set m. same_key (fst p) (fst q) \<longrightarrow> fst p = fst q)"

lemma mm_insert_key: "mm_insert k v m = takeWhile (\<lambda>p. pair_key p < info_key k) m @ (k, v) # dropWhile (\<lambda>p. pair_key p < info_key k) m"
  by (simp add: mm_insert_def info_less_key pair_key_def)

lemma mm_values_key: "mm_values k m = map snd (filter (\<lambda>p. pair_key p = info_key k) m)"
  by (simp add: mm_values_def same_key_iff pair_key_def)

lemma mm_remove_key: "mm_remove k m = filter (\<lambda>p. pair_key p \<noteq> info_key k) m"
  by (simp add: mm_remove_def same_key_iff pair_key_def)

lemma mm_insert_sorted: "sorted (map pair_key m) \<Longrightarrow> sorted (map pair_key (mm_insert k v m))"
  by (induction m) (auto simp: mm_insert_key pair_key_def dest: set_takeWhileD set_dropWhileD)

lemma mm_insert_filter:
  assumes "sorted (map pair_key m)"
  shows "filter (\<lambda>p. pair_key p = x) (mm_insert k v m) =
    (if x = info_key k then [(k, v)] else []) @ filter (\<lambda>p. pair_key p = x) m"
  using assms by (induction m) (auto simp: mm_insert_key pair_key_def)

lemma insert_all:
  assumes "sorted (map pair_key m)"
  shows "sorted (map pair_key (foldl (\<lambda>out i. mm_insert (fst i) (snd i) out) m xs)) \<and>
    filter (\<lambda>p. pair_key p = x) (foldl (\<lambda>out i. mm_insert (fst i) (snd i) out) m xs) =
    rev (filter (\<lambda>p. pair_key p = x) xs) @ filter (\<lambda>p. pair_key p = x) m"
  using assms
proof (induction xs arbitrary: m)
  case (Cons i xs)
  have "filter (\<lambda>p. pair_key p = x) (mm_insert (fst i) (snd i) m) =
    (if pair_key i = x then [i] else []) @ filter (\<lambda>p. pair_key p = x) m"
    using mm_insert_filter [OF Cons.prems, of x "fst i" "snd i"] by (auto simp: pair_key_def [of i])
  then show ?case
    using Cons.IH [OF mm_insert_sorted [OF Cons.prems, of "fst i" "snd i"]] by simp
qed simp

text \<open>A sorted list is determined by its items of each key.\<close>

lemma sorted_filter_eqI:
  assumes "sorted (map f xs)" and "sorted (map f ys)" and eq: "\<And>x. filter (\<lambda>p. f p = x) xs = filter (\<lambda>p. f p = x) ys"
  shows "xs = ys"
proof -
  have "count (mset xs) z = count (mset ys) z" for z
    using arg_cong [OF eq [of "f z"], of "\<lambda>l. count (mset l) z"] by (simp add: mset_filter)
  then have "mset ys = mset xs" by (simp add: multiset_eq_iff)
  moreover have "filter (\<lambda>x. f k = f x) ys = filter (\<lambda>x. f k = f x) xs" for k
    using eq [of "f k"] by (simp add: eq_commute)
  ultimately have "sort_key f xs = ys" using assms(2) by (intro properties_for_sort_key) auto
  then show ?thesis by (simp add: sort_key_id_if_sorted assms(1))
qed

section \<open>From the map to the list\<close>

lemma move_all:
  assumes "distinct (map info_key ts)"
  shows "foldl moveMapValues (m, out) ts =
    (filter (\<lambda>p. pair_key p \<notin> info_key ` set ts) m, out @ concat (map (\<lambda>t. map (Pair t) (rev (mm_values t m))) ts))"
  using assms
proof (induction ts arbitrary: m out)
  case (Cons t ts)
  have "mm_values u (mm_remove t m) = mm_values u m" if "u \<in> set ts" for u
    using that Cons.prems by (auto simp: mm_values_key mm_remove_key image_iff intro!: arg_cong [of _ _ "map snd"] filter_cong)
  then have "concat (map (\<lambda>u. map (Pair u) (rev (mm_values u (mm_remove t m)))) ts) =
      concat (map (\<lambda>u. map (Pair u) (rev (mm_values u m))) ts)"
    by (intro arg_cong [of _ _ concat]) simp
  moreover have "filter (\<lambda>p. pair_key p \<notin> info_key ` set ts) (mm_remove t m) = filter (\<lambda>p. pair_key p \<notin> info_key ` set (t # ts)) m"
    unfolding mm_remove_key filter_filter by (rule filter_cong) auto
  ultimately show ?case using Cons by simp
qed simp

lemma info_eq_key: "info_wf t \<Longrightarrow> info_wf u \<Longrightarrow> info_eq t u \<Longrightarrow> info_key t = info_key u"
  by (auto simp: info_wf_def info_eq_def info_key_def split: option.splits)

lemma info_eq_refl: "info_eq t t"
  by (simp add: info_eq_def split: option.splits)

lemma dedup_val:
  assumes "\<forall>t \<in> set ts \<union> set us. \<forall>u \<in> set ts \<union> set us. info_key t = info_key u \<longrightarrow> t = u"
    and "\<forall>t \<in> set ts \<union> set us. info_wf t" and "distinct (map info_key us)"
  shows "distinct (map info_key (dedup us ts)) \<and> set (dedup us ts) = set us \<union> set ts"
  using assms
proof (induction us ts rule: dedup.induct)
  case (2 us t ts)
  have eq: "(\<exists>u \<in> set us. info_eq u t) \<longleftrightarrow> t \<in> set us"
    using 2(2,3) info_eq_key info_eq_refl by (metis Un_iff list.set_intros(1))
  have new: "info_key t \<notin> info_key ` set us" if "t \<notin> set us"
    using 2(2) that by (metis Un_iff image_iff list.set_intros(1))
  show ?case
  proof (cases "t \<in> set us")
    case True
    then have "dedup us (t # ts) = dedup us ts" using eq by simp
    moreover have "distinct (map info_key (dedup us ts)) \<and> set (dedup us ts) = set us \<union> set ts"
      using 2(1) 2(2,3,4) True eq by simp
    ultimately show ?thesis using True by auto
  next
    case False
    then have "dedup us (t # ts) = dedup (us @ [t]) ts" using eq by simp
    moreover have "distinct (map info_key (dedup (us @ [t]) ts)) \<and> set (dedup (us @ [t]) ts) = set (us @ [t]) \<union> set ts"
      using 2(1) 2(2,3,4) False eq new by simp
    ultimately show ?thesis by auto
  qed
qed simp

lemma mm_block:
  assumes "\<And>p. p \<in> set m \<Longrightarrow> pair_key p = info_key t \<Longrightarrow> fst p = t"
  shows "map (Pair t) (rev (mm_values t m)) = rev (filter (\<lambda>p. pair_key p = info_key t) m)"
proof -
  have "map (Pair t) (map snd (filter (\<lambda>p. pair_key p = info_key t) m)) = filter (\<lambda>p. pair_key p = info_key t) m"
    unfolding map_map
  proof (rule map_idI)
    fix p assume "p \<in> set (filter (\<lambda>p. pair_key p = info_key t) m)"
    then have "fst p = t" using assms by simp
    then show "(Pair t \<circ> snd) p = p" by (cases p) simp
  qed
  then show ?thesis by (simp add: mm_values_key flip: rev_map)
qed

text \<open>The blocks of \<^verbatim>\<open>mapToOrdered\<close> hold the items of each key in the order in which they came.\<close>

lemma blocks_filter:
  assumes "distinct (map info_key ts)" and "\<And>p t. p \<in> set m \<Longrightarrow> t \<in> set ts \<Longrightarrow> pair_key p = info_key t \<Longrightarrow> fst p = t"
  shows "filter (\<lambda>p. pair_key p = x) (concat (map (\<lambda>t. map (Pair t) (rev (mm_values t m))) ts)) =
    (if x \<in> info_key ` set ts then rev (filter (\<lambda>p. pair_key p = x) m) else [])"
  using assms
proof (induction ts)
  case (Cons t ts)
  have "filter (\<lambda>p. pair_key p = x) (map (Pair t) (rev (mm_values t m))) =
      (if x = info_key t then rev (filter (\<lambda>p. pair_key p = x) m) else [])"
    by (simp add: mm_block Cons.prems filter_empty_conv flip: rev_filter)
  then show ?case using Cons by auto
qed simp

lemma mapToOrdered_val:
  assumes ok: "mm_ok m" and wf: "\<forall>p \<in> set m. info_wf (fst p)"
    and std: "\<And>p k. p \<in> set m \<Longrightarrow> it_known (fst p) = Some k \<Longrightarrow> fst p = info_type_known k"
  shows "fst (mapToOrdered_loop m) = [] \<and>
    filter (\<lambda>p. pair_key p = x) (mapToOrdered m) = rev (filter (\<lambda>p. pair_key p = x) m)"
proof -
  define ks where "ks = map info_type_known specific_order"
  have d1: "distinct (map info_key ks)"
    by (simp add: ks_def specific_order_def info_key_def info_type_known_def)
  define m1 where "m1 = filter (\<lambda>p. pair_key p \<notin> info_key ` set ks) m"
  define ts where "ts = dedup [] (map fst m1)"
  have sub: "set m1 \<subseteq> set m" by (auto simp: m1_def)
  have d2: "distinct (map info_key ts) \<and> set ts = fst ` set m1"
  proof -
    have "\<forall>t \<in> fst ` set m1. \<forall>u \<in> fst ` set m1. info_key t = info_key u \<longrightarrow> t = u"
      using ok sub unfolding mm_ok_def same_key_iff by blast
    moreover have "\<forall>t \<in> fst ` set m1. info_wf t" using wf sub by blast
    ultimately show ?thesis using dedup_val [of "map fst m1" "[]"] by (simp add: ts_def)
  qed
  have c1: "fst p = t" if "p \<in> set m" "t \<in> set ks" "pair_key p = info_key t" for p t
    using that std [of p] by (auto simp: ks_def pair_key_def info_key_known)
  have c2: "fst p = t" if p: "p \<in> set m1" and t: "t \<in> set ts" and key: "pair_key p = info_key t" for p t
  proof -
    obtain q where "q \<in> set m1" "t = fst q" using t d2 by auto
    then show ?thesis using p key ok sub by (auto simp: mm_ok_def same_key_iff pair_key_def)
  qed
  have loop: "mapToOrdered_loop m = ([], concat (map (\<lambda>t. map (Pair t) (rev (mm_values t m))) ks) @
      concat (map (\<lambda>t. map (Pair t) (rev (mm_values t m1))) ts))"
  proof -
    have "filter (\<lambda>p. pair_key p \<notin> info_key ` set ts) m1 = []"
      using d2 by (auto simp: filter_empty_conv pair_key_def)
    then show ?thesis
      unfolding mapToOrdered_loop_def ks_def [symmetric] move_all [OF d1] m1_def [symmetric] prod.case append_Nil
        ts_def [symmetric]
      using move_all [OF conjunct1 [OF d2]] by (simp flip: ts_def)
  qed
  have m1x: "filter (\<lambda>p. pair_key p = x) m1 = (if x \<in> info_key ` set ks then [] else filter (\<lambda>p. pair_key p = x) m)"
    by (auto simp: m1_def filter_empty_conv intro: filter_cong)
  have none: "filter (\<lambda>p. pair_key p = x) m1 = []" if "x \<notin> info_key ` set ts"
    using that d2 by (auto simp: filter_empty_conv pair_key_def)
  have b1: "filter (\<lambda>p. pair_key p = x) (concat (map (\<lambda>t. map (Pair t) (rev (mm_values t m))) ks)) =
      (if x \<in> info_key ` set ks then rev (filter (\<lambda>p. pair_key p = x) m) else [])"
    by (rule blocks_filter [OF d1]) (rule c1)
  have b2: "filter (\<lambda>p. pair_key p = x) (concat (map (\<lambda>t. map (Pair t) (rev (mm_values t m1))) ts)) =
      (if x \<in> info_key ` set ts then rev (filter (\<lambda>p. pair_key p = x) m1) else [])"
    by (rule blocks_filter [OF conjunct1 [OF d2]]) (rule c2)
  have "filter (\<lambda>p. pair_key p = x) (mapToOrdered m) =
      (if x \<in> info_key ` set ks then rev (filter (\<lambda>p. pair_key p = x) m) else []) @ rev (filter (\<lambda>p. pair_key p = x) m1)"
    unfolding mapToOrdered_def loop snd_conv filter_append b1 b2 using none by (cases "x \<in> info_key ` set ts") (simp_all only: if_True if_False rev.simps not_False_eq_True simp_thms)
  also have "\<dots> = rev (filter (\<lambda>p. pair_key p = x) m)"
    unfolding m1x by (cases "x \<in> info_key ` set ks") (simp_all only: if_True if_False rev.simps append_Nil append_Nil2)
  finally show ?thesis by (simp add: loop)
qed

section \<open>Collisions of names\<close>

lemma findSameName_set: "n \<in> set (findSameName name names) \<longleftrightarrow> n < length names \<and> names ! n = name"
  by (auto simp: findSameName_def)

lemma findSameName_distinct: "distinct (findSameName name names)"
  by (simp add: findSameName_def)

text \<open>The collisions: the classes of more than one item, each once.\<close>

definition clash_classes :: "qstring list \<Rightarrow> nat list list \<Rightarrow> bool" where
  "clash_classes names coll \<longleftrightarrow>
     distinct coll \<and> (\<forall>items \<in> set coll. 1 < length items \<and> (\<exists>name. items = findSameName name names))"

lemma classes_overlap:
  assumes "clash_classes names coll" and "1 < length (findSameName name names)"
  shows "(\<exists>other \<in> set coll. \<exists>n \<in> set (findSameName name names). n \<in> set other) \<longleftrightarrow> findSameName name names \<in> set coll"
proof
  assume "\<exists>other \<in> set coll. \<exists>n \<in> set (findSameName name names). n \<in> set other"
  then obtain other n where o: "other \<in> set coll" "n \<in> set (findSameName name names)" "n \<in> set other" by blast
  then obtain name' where "other = findSameName name' names" using assms(1) by (auto simp: clash_classes_def)
  then show "findSameName name names \<in> set coll" using o by (auto simp: findSameName_set)
next
  assume "findSameName name names \<in> set coll"
  moreover obtain n where "n \<in> set (findSameName name names)" using assms(2) by (cases "findSameName name names") auto
  ultimately show "\<exists>other \<in> set coll. \<exists>n \<in> set (findSameName name names). n \<in> set other" by blast
qed

lemma collect_collisions_val:
  assumes "clash_classes names coll"
  shows "clash_classes names (collect_collisions names ns coll) \<and>
    set (collect_collisions names ns coll) = set coll \<union> {findSameName x names | x. x \<in> set ns \<and> 1 < length (findSameName x names)}"
  using assms
proof (induction names ns coll rule: collect_collisions.induct)
  case (2 names name ns coll)
  let ?items = "findSameName name names"
  show ?case
  proof (cases "1 < length ?items \<and> ?items \<notin> set coll")
    case True
    then have c: "clash_classes names (coll @ [?items])" using 2(3) by (auto simp: clash_classes_def)
    have "collect_collisions names (name # ns) coll = collect_collisions names ns (coll @ [?items])"
      using True classes_overlap [OF 2(3), of name] by (simp add: Let_def)
    then show ?thesis using 2(1) [OF refl _ c] True classes_overlap [OF 2(3), of name] by auto
  next
    case False
    have "collect_collisions names (name # ns) coll = collect_collisions names ns coll"
      using False classes_overlap [OF 2(3), of name] by (auto simp: Let_def)
    then show ?thesis using 2(2) [OF refl _ 2(3)] False classes_overlap [OF 2(3), of name] by auto
  qed
qed auto

text \<open>Renaming reads the old name of the item it renames and nothing else of the list.\<close>

lemma makeUniqueName_cong:
  "names ! (items ! i) = base ! (items ! i) \<Longrightarrow> makeUniqueName isDigit items names certs i = makeUniqueName isDigit items base certs i"
  by (simp add: makeUniqueName_def)

lemma rename_items_val:
  assumes "rename_items isDigit items certs ks names = Some names'" and "distinct ks" and "set ks \<subseteq> {..<length items}"
    and "distinct items" and "\<forall>k \<in> set ks. names ! (items ! k) = base ! (items ! k)" and "\<forall>i \<in> set items. i < length names"
  shows "length names' = length names \<and> (\<forall>k \<in> set ks. Some (names' ! (items ! k)) = makeUniqueName isDigit items base certs k) \<and>
    (\<forall>j. j \<notin> (!) items ` set ks \<longrightarrow> names' ! j = names ! j)"
  using assms
proof (induction isDigit items certs ks names rule: rename_items.induct)
  case (2 isDigit items certs k ks names)
  from 2(2) obtain name where nm: "makeUniqueName isDigit items names certs k = Some name"
    and r: "rename_items isDigit items certs ks (names[items ! k := name]) = Some names'"
    by (auto split: bind_splits)
  have ne: "items ! j \<noteq> items ! k" if "j \<in> set ks" for j using that 2(3-5) by (auto simp: nth_eq_iff_index_eq)
  have "\<forall>j \<in> set ks. names[items ! k := name] ! (items ! j) = base ! (items ! j)"
    using 2(6) ne by (metis list.set_intros(2) nth_list_update_neq)
  note IH = 2(1) [OF nm r _ _ 2(5) this]
  have v: "length names' = length names" "\<forall>j \<in> set ks. Some (names' ! (items ! j)) = makeUniqueName isDigit items base certs j"
    "\<forall>j. j \<notin> (!) items ` set ks \<longrightarrow> names' ! j = names[items ! k := name] ! j"
    using IH 2(3,4,7) by auto
  have "items ! k \<notin> (!) items ` set ks" using ne by (metis imageE)
  moreover have "items ! k < length names" using 2(4,7) by simp
  ultimately have "Some (names' ! (items ! k)) = makeUniqueName isDigit items base certs k"
    using v(3) nm 2(6) makeUniqueName_cong [of names items k base] by simp
  then show ?case using v by auto
qed simp

lemma rename_all_val:
  assumes "rename_all isDigit certs coll names = Some names'" and "clash_classes base coll"
    and "length names = length base" and "\<forall>items \<in> set coll. \<forall>i \<in> set items. names ! i = base ! i"
  shows "length names' = length base \<and>
    (\<forall>items \<in> set coll. \<forall>k < length items. Some (names' ! (items ! k)) = makeUniqueName isDigit items base certs k) \<and>
    (\<forall>j. (\<forall>items \<in> set coll. j \<notin> set items) \<longrightarrow> names' ! j = names ! j)"
  using assms
proof (induction isDigit certs coll names rule: rename_all.induct)
  case (2 isDigit certs items coll names)
  from 2(2) obtain n1 where r1: "rename_items isDigit items certs [0..<length items] names = Some n1"
    and r2: "rename_all isDigit certs coll n1 = Some names'" by (auto split: bind_splits)
  obtain name where nm: "items = findSameName name base" using 2(3) by (auto simp: clash_classes_def)
  have dis: "i \<notin> set items" if oth: "other \<in> set coll" "i \<in> set other" for other i
  proof
    assume "i \<in> set items"
    moreover obtain name' where "other = findSameName name' base" using 2(3) oth unfolding clash_classes_def by (meson list.set_intros(2))
    ultimately have "other = items" using oth nm by (auto simp: findSameName_set)
    then show False using 2(3) oth by (auto simp: clash_classes_def)
  qed
  have img: "(!) items ` set [0..<length items] = set items" by (auto simp: in_set_conv_nth)
  have v1: "length n1 = length names"
    "\<forall>k < length items. Some (n1 ! (items ! k)) = makeUniqueName isDigit items base certs k"
    "\<forall>j. j \<notin> set items \<longrightarrow> n1 ! j = names ! j"
  proof -
    have "distinct [0..<length items]" "set [0..<length items] \<subseteq> {..<length items}" by auto
    moreover have "distinct items" using nm by (simp add: findSameName_distinct)
    moreover have "\<forall>k \<in> set [0..<length items]. names ! (items ! k) = base ! (items ! k)" using 2(5) by simp
    moreover have "\<forall>i \<in> set items. i < length names" using 2(4) nm by (simp add: findSameName_set)
    ultimately have "length n1 = length names \<and>
        (\<forall>k \<in> set [0..<length items]. Some (n1 ! (items ! k)) = makeUniqueName isDigit items base certs k) \<and>
        (\<forall>j. j \<notin> (!) items ` set [0..<length items] \<longrightarrow> n1 ! j = names ! j)"
      by (rule rename_items_val [OF r1])
    then show "length n1 = length names"
      "\<forall>k < length items. Some (n1 ! (items ! k)) = makeUniqueName isDigit items base certs k"
      "\<forall>j. j \<notin> set items \<longrightarrow> n1 ! j = names ! j"
      unfolding img by simp_all
  qed
  have "clash_classes base coll" using 2(3) by (simp add: clash_classes_def)
  moreover have "\<forall>other \<in> set coll. \<forall>i \<in> set other. n1 ! i = base ! i" using v1(3) 2(5) dis by simp
  ultimately have IH: "length names' = length base \<and>
    (\<forall>items \<in> set coll. \<forall>k < length items. Some (names' ! (items ! k)) = makeUniqueName isDigit items base certs k) \<and>
    (\<forall>j. (\<forall>items \<in> set coll. j \<notin> set items) \<longrightarrow> names' ! j = n1 ! j)"
    using 2(1) [OF r1 r2] v1(1) 2(4) by simp
  have "names' ! (items ! k) = n1 ! (items ! k)" if "k < length items" for k
    using IH dis that by (meson nth_mem)
  then show ?case using IH v1 by auto
qed simp

section \<open>Properties\<close>

text \<open>
  C31. Certificate information survives the conversion from the multi-map to the ordered list and
  back: every item comes back with its type, and the values of each type in their order; the
  list is complete (nothing is left in the map).  The types are those the constructors build,
  in the section of their kind, and there is no legacy email address, which the conversion to
  a map merges into the email addresses.
\<close>

theorem info_map_round_trip:
  assumes ok: "mm_ok m" and wf: "\<forall>p \<in> set m. info_wf (fst p)"
    and std: "\<forall>p \<in> set m. \<forall>k. it_known (fst p) = Some k \<longrightarrow> k \<noteq> EmailLegacy \<and> fst p = info_type_known k"
  shows "fst (mapToOrdered_loop m) = [] \<and> orderedToMap (mapToOrdered m) = m"
proof
  note val = mapToOrdered_val [OF ok wf]
  have std': "fst p = info_type_known k" if "p \<in> set m" "it_known (fst p) = Some k" for p k using std that by blast
  show "fst (mapToOrdered_loop m) = []" using val [OF std', of "[]"] by blast
  have sub: "set (mapToOrdered m) \<subseteq> set m"
  proof
    fix p assume "p \<in> set (mapToOrdered m)"
    then have "p \<in> set (filter (\<lambda>q. pair_key q = pair_key p) (mapToOrdered m))" by simp
    then show "p \<in> set m" using val [OF std', of "pair_key p"] by auto
  qed
  then have no: "\<forall>p \<in> set (mapToOrdered m). it_known (fst p) \<noteq> Some EmailLegacy" using std by blast
  let ?ins = "foldl (\<lambda>out i. mm_insert (fst i) (snd i) out) []"
  have "foldl (\<lambda>out i. if it_known (fst i) \<noteq> Some EmailLegacy then mm_insert (fst i) (snd i) out else out) [] (mapToOrdered m) =
      ?ins (mapToOrdered m)"
    by (rule foldl_cong) (use no in auto)
  moreover have "foldl (\<lambda>out i. if it_known (fst i) = Some EmailLegacy \<and> snd i \<notin> set (mm_values (info_type_known Email) out)
      then mm_insert (info_type_known Email) (snd i) out else out) out xs = out"
    if "\<forall>p \<in> set xs. it_known (fst p) \<noteq> Some EmailLegacy" for out xs
    using that by (induction xs) auto
  ultimately have "orderedToMap (mapToOrdered m) = ?ins (mapToOrdered m)" using no by (simp add: orderedToMap_def)
  also have "\<dots> = m"
  proof (rule sorted_filter_eqI)
    show "sorted (map pair_key (?ins (mapToOrdered m)))" using insert_all [of "[]"] by simp
    show "sorted (map pair_key m)" using ok by (simp add: mm_ok_def)
    show "filter (\<lambda>p. pair_key p = x) (?ins (mapToOrdered m)) = filter (\<lambda>p. pair_key p = x) m" for x
      using insert_all [of "[]" "mapToOrdered m" x] val [OF std', of x] by simp
  qed
  finally show "orderedToMap (mapToOrdered m) = m" .
qed

theorem info_map_round_trip_witness:
  "let m = [(info_type_known CommonName, qlatin ''a''), (info_type_known Email, qlatin ''c''), (info_type_known Email, qlatin ''b''),
            (info_type_id (qlatin ''1.2.3'') DN, qlatin ''x'')]
   in fst (mapToOrdered_loop m) = [] \<and> orderedToMap (mapToOrdered m) = m"
proof -
  let ?m = "[(info_type_known CommonName, qlatin ''a''), (info_type_known Email, qlatin ''c''), (info_type_known Email, qlatin ''b''),
            (info_type_id (qlatin ''1.2.3'') DN, qlatin ''x'')]"
  have id: "idToKnown (qlatin ''1.2.3'') = None" by (simp add: idToKnown_def qlatin_inject)
  have "mm_ok ?m"
    by (auto simp: mm_ok_def pair_key_def same_key_iff info_key_def info_type_known_def info_type_id_def id)
  moreover have "\<forall>p \<in> set ?m. info_wf (fst p)" by (simp add: info_wf_known info_wf_id)
  moreover have "\<forall>p \<in> set ?m. \<forall>k. it_known (fst p) = Some k \<longrightarrow> k \<noteq> EmailLegacy \<and> fst p = info_type_known k"
    by (auto simp: info_type_known_def info_type_id_def id)
  ultimately show ?thesis unfolding Let_def by (rule info_map_round_trip)
qed

text \<open>
  Friendly names.  A certificate whose common name (or organisation) no other certificate of
  the list shares keeps that name; every other one gets the name that \<^verbatim>\<open>makeUniqueName\<close> derives
  from the base names and from its group.  The derived names need not differ: of the values
  that two certificates share, only one is ruled out, so that two certificates that agree on
  their name and on two organisations get the same friendly name whatever else differs.
\<close>

theorem friendly_names:
  assumes "makeFriendlyNames isDigit certs = Some names" and "base = map (\<lambda>c. baseCertName (subjectInfo c)) certs"
    and "baseCertName (subjectInfo c) = n" and "baseCertName (subjectInfo d) = n"
    and "mm_values (info_type_known Organization) (subjectInfo c) = [x, y]"
    and "mm_values (info_type_known Organization) (subjectInfo d) = [x, y]" and "y \<noteq> []"
  shows "length names = length certs \<and>
    (\<forall>i < length certs. let items = findSameName (base ! i) base in
       if items = [i] then names ! i = base ! i
       else \<exists>k < length items. items ! k = i \<and> Some (names ! i) = makeUniqueName isDigit items base certs k) \<and>
    makeFriendlyNames isDigit [c, d] = Some [n @ qlatin '' of '' @ y, n @ qlatin '' of '' @ y]"
proof (intro conjI allI impI)
  have empty: "clash_classes base []" by (simp add: clash_classes_def)
  note coll = collect_collisions_val [OF empty, of base]
  have ren: "rename_all isDigit certs (collect_collisions base base []) base = Some names"
    using assms(1,2) by (simp add: makeFriendlyNames_def Let_def)
  note val = rename_all_val [OF ren conjunct1 [OF coll] refl]
  have v: "length names = length base"
    "\<And>items k. items \<in> set (collect_collisions base base []) \<Longrightarrow> k < length items \<Longrightarrow>
       Some (names ! (items ! k)) = makeUniqueName isDigit items base certs k"
    "\<And>j. (\<forall>items \<in> set (collect_collisions base base []). j \<notin> set items) \<Longrightarrow> names ! j = base ! j"
    using val by blast+
  show "length names = length certs" using v(1) assms(2) by simp
  fix i assume i: "i < length certs"
  let ?items = "findSameName (base ! i) base"
  have mem: "i \<in> set ?items" using i assms(2) by (simp add: findSameName_set)
  show "let items = ?items in if items = [i] then names ! i = base ! i
       else \<exists>k < length items. items ! k = i \<and> Some (names ! i) = makeUniqueName isDigit items base certs k"
  proof (cases "1 < length ?items")
    case True
    then have "?items \<in> set (collect_collisions base base [])" using coll i assms(2) by auto
    moreover obtain k where "k < length ?items" "?items ! k = i" using mem by (metis in_set_conv_nth)
    ultimately show ?thesis using v(2) [of ?items k] True by (auto simp: Let_def)
  next
    case False
    then have one: "?items = [i]" using mem by (cases ?items) (auto simp: not_less le_Suc_eq)
    have "j \<notin> set items" if "items \<in> set (collect_collisions base base [])" "j = i" for items j
      using that coll one False by (auto simp: findSameName_set)
    then show ?thesis using v(3) [of i] one by (simp add: Let_def)
  qed
next
  have same: "findSameName n [n, n] = [0, 1]" by (simp add: findSameName_def upt_rec)
  have "collect_collisions [n, n] [n, n] [] = [[0, 1]]" by (simp add: same Let_def)
  moreover have "uniqueSubjectValue (info_type_known Organization) [0, 1] [c, d] i = y" if "i < 2" for i
    using that assms(5,6) by (cases i) (auto simp: uniqueSubjectValue_def Let_def)
  ultimately show "makeFriendlyNames isDigit [c, d] = Some [n @ qlatin '' of '' @ y, n @ qlatin '' of '' @ y]"
    using assms(3,4,7) by (simp add: makeFriendlyNames_def makeUniqueName_def Let_def upt_rec)
qed

theorem friendly_names_witness:
  "let c = \<lparr> ct_subject = [(info_type_known CommonName, qlatin ''n''), (info_type_known Organization, qlatin ''y''),
              (info_type_known Organization, qlatin ''x'')], ct_issuer = [], ct_constraints = [] \<rparr>
   in makeFriendlyNames (\<lambda>_. False) [c] = Some [qlatin ''n''] \<and>
      makeFriendlyNames (\<lambda>_. False) [c, c] = Some [qlatin ''n of y'', qlatin ''n of y'']"
proof -
  let ?c = "\<lparr> ct_subject = [(info_type_known CommonName, qlatin ''n''), (info_type_known Organization, qlatin ''y''),
              (info_type_known Organization, qlatin ''x'')], ct_issuer = [], ct_constraints = [] \<rparr>"
  have m: "subjectInfo ?c = [(info_type_known CommonName, qlatin ''n''), (info_type_known Organization, qlatin ''x''),
              (info_type_known Organization, qlatin ''y'')]"
    by (simp add: subjectInfo_def orderedToMap_def mm_insert_def info_less_def info_type_known_def)
  have v: "mm_values (info_type_known Organization) (subjectInfo ?c) = [qlatin ''x'', qlatin ''y'']"
    "baseCertName (subjectInfo ?c) = qlatin ''n''"
    unfolding m by (simp_all add: mm_values_key mm_value_def baseCertName_def pair_key_def info_key_def info_type_known_def qlatin_def)
  have one: "makeFriendlyNames (\<lambda>_. False) [?c] = Some [qlatin ''n'']"
    by (simp add: makeFriendlyNames_def findSameName_def v)
  have "makeFriendlyNames (\<lambda>_. False) [?c, ?c] = Some [qlatin ''n'' @ qlatin '' of '' @ qlatin ''y'', qlatin ''n'' @ qlatin '' of '' @ qlatin ''y'']"
    using friendly_names [OF one refl v(2) v(2) v(1) v(1)] by (simp add: qlatin_def)
  then show ?thesis using one by (simp add: Let_def qlatin_def)
qed

end
