(* ===== verification/HostNames.thy ===== *)
theory HostNames
  imports CertInfo
begin

text \<open>
  Which host a certificate is for (\<^verbatim>\<open>src/src/qca_cert.cpp\<close>): the reader of textual IP addresses,
  the comparison of domain names with wildcards and \<^verbatim>\<open>Certificate::matchesHostName\<close>.

  Qt's text functions are parameters, collected in \<open>qt_text\<close>: \<^verbatim>\<open>QString::trimmed\<close>, \<^verbatim>\<open>toLower\<close>,
  \<^verbatim>\<open>QUrl::toAce\<close>, \<^verbatim>\<open>QString::toInt\<close> with its base, and the match of a wildcard expression.  Of the
  last the properties assume what Qt documents for a pattern of letters, digits, hyphens and
  asterisks: an asterisk stands for any characters (but a slash), everything else for itself.

  The buffer of an address is a list, and a store outside it gives \<open>None\<close>; the empty list is the
  result of a text that is no address.
\<close>

section \<open>Model\<close>

record qt_text =
  qt_trimmed :: "qstring \<Rightarrow> qstring"
  qt_toLower :: "qstring \<Rightarrow> qstring"
  qt_toAce :: "qstring \<Rightarrow> qstring"
  qt_toInt :: "nat \<Rightarrow> qstring \<Rightarrow> int option"
  qt_wildcard :: "qstring \<Rightarrow> qstring \<Rightarrow> bool"

subsection \<open>Addresses\<close>

fun ipv4_loop :: "qt_text \<Rightarrow> qstring list \<Rightarrow> nat \<Rightarrow> bytes \<Rightarrow> bytes option" where
  "ipv4_loop q [] n out = Some out"
| "ipv4_loop q (p # ps) n out =
     (case qt_toInt q 10 p of
        None \<Rightarrow> Some []
      | Some x \<Rightarrow>
          if x < 0 \<or> 0xff < x then Some []
          else do { out \<leftarrow> poke out n (of_int x); ipv4_loop q ps (n + 1) out })"

definition ipaddr_v4 :: "qt_text \<Rightarrow> qstring \<Rightarrow> bytes option" where
  "ipaddr_v4 q str =
     (let parts = qsplit 0x2e str in
      if length parts \<noteq> 4 then Some [] else ipv4_loop q parts 0 (replicate 4 0))"

text \<open>\<^verbatim>\<open>ipv6[--at] = v\<close>.\<close>

definition store_down :: "byte \<Rightarrow> nat \<times> bytes \<Rightarrow> (nat \<times> bytes) option" where
  "store_down v st =
     (case st of (at, buf) \<Rightarrow>
        if at = 0 then None else map_option (Pair (at - 1)) (poke buf (at - 1) v))"

text \<open>The zeros of an omission; \<open>Some None\<close> is the early return of the empty array.\<close>

fun fill_zeros :: "nat \<Rightarrow> nat \<times> bytes \<Rightarrow> (nat \<times> bytes) option option" where
  "fill_zeros 0 st = Some (Some st)"
| "fill_zeros (Suc i) st =
     (if fst st = 0 then Some None
      else do { st \<leftarrow> store_down 0 st; st \<leftarrow> store_down 0 st; fill_zeros i st })"

text \<open>
  The loop over the parts, from the last one down: \<open>Suc n\<close> is before part \<open>n\<close>.  A part holds no
  colon, so for one with a dot the recursive call reads a dotted address.
\<close>

fun ipv6_loop :: "qt_text \<Rightarrow> qstring list \<Rightarrow> nat \<Rightarrow> nat \<Rightarrow> nat \<times> bytes \<Rightarrow> bytes option" where
  "ipv6_loop q parts 0 fill st = Some (snd st)"
| "ipv6_loop q parts (Suc n) fill st =
     (if fst st = 0 then Some []
      else if parts ! n = [] then
        (if n = length parts - 1 then
           (if parts ! (n - 1) \<noteq> [] then Some []
            else do { st \<leftarrow> store_down 0 st; st \<leftarrow> store_down 0 st; ipv6_loop q parts n fill st })
         else if n = 0 then
           (if parts ! (n + 1) \<noteq> [] then Some []
            else do { st \<leftarrow> store_down 0 st; st \<leftarrow> store_down 0 st; ipv6_loop q parts n fill st })
         else do {
           r \<leftarrow> fill_zeros fill st;
           case r of None \<Rightarrow> Some [] | Some st \<Rightarrow> ipv6_loop q parts n fill st })
      else if 0x2e \<notin> set (parts ! n) then
        (case qt_toInt q 16 (parts ! n) of
           None \<Rightarrow> Some []
         | Some x \<Rightarrow>
             if x < 0 \<or> 0xffff < x then Some []
             else do {
               st \<leftarrow> store_down (of_int (x AND 0xff)) st;
               st \<leftarrow> store_down (of_int (drop_bit 8 x AND 0xff)) st;
               ipv6_loop q parts n fill st })
      else if n \<noteq> length parts - 1 then Some []
      else do {
        buf \<leftarrow> ipaddr_v4 q (parts ! n);
        if buf = [] then Some []
        else do {
          b3 \<leftarrow> peek buf 3; st \<leftarrow> store_down b3 st;
          b2 \<leftarrow> peek buf 2; st \<leftarrow> store_down b2 st;
          b1 \<leftarrow> peek buf 1; st \<leftarrow> store_down b1 st;
          b0 \<leftarrow> peek buf 0; st \<leftarrow> store_down b0 st;
          ipv6_loop q parts n (fill - 1) st } })"

definition ipaddr_str2bin :: "qt_text \<Rightarrow> qstring \<Rightarrow> bytes option" where
  "ipaddr_str2bin q str =
     (if 0x3a \<in> set str then
        (let parts = qsplit 0x3a str in
         if length parts < 3 \<or> 8 < length parts then Some []
         else ipv6_loop q parts (length parts) (9 - length parts) (16, replicate 16 0))
      else if 0x2e \<in> set str then ipaddr_v4 q str
      else Some [])"

subsection \<open>Names\<close>

definition strip_dot :: "qstring \<Rightarrow> qstring" where
  "strip_dot name = (if name \<noteq> [] \<and> last name = 0x2e then butlast name else name)"

text \<open>The characters that the expression \<^verbatim>\<open>[^a-z0-9\.\*\-]\<close> does not match.\<close>

definition name_char :: "16 word \<Rightarrow> bool" where
  "name_char c \<longleftrightarrow> (0x61 \<le> c \<and> c \<le> 0x7a) \<or> (0x30 \<le> c \<and> c \<le> 0x39) \<or> c = 0x2e \<or> c = 0x2a \<or> c = 0x2d"

definition cert_match_domain :: "qt_text \<Rightarrow> qstring \<Rightarrow> qstring \<Rightarrow> bool" where
  "cert_match_domain q certname acedomain =
     (let name = strip_dot (qt_trimmed q certname) in
      if name = [] then False
      else let name = qt_toLower q name in
      if \<exists>c \<in> set name. \<not> name_char c then False
      else let parts_name = qsplit 0x2e name in
      if parts_name = [] then False
      else if 0x2a \<in> set (parts_name ! (length parts_name - 1)) then False
      else if 2 \<le> length parts_name \<and> 0x2a \<in> set (parts_name ! (length parts_name - 2)) then False
      else let parts_compare = qsplit 0x2e acedomain in
      if parts_compare = [] then False
      else if [] \<in> set parts_name then False
      else if [] \<in> set parts_compare then False
      else if length parts_name \<noteq> length parts_compare then False
      else \<forall>n \<in> {..<length parts_name}. qt_wildcard q (parts_name ! n) (parts_compare ! n))"

definition unbracket :: "qstring \<Rightarrow> qstring" where
  "unbracket name = (if 2 \<le> length name \<and> hd name = 0x5b \<and> last name = 0x5d then butlast (tl name) else name)"

definition cert_match_ipaddress :: "qt_text \<Rightarrow> qstring \<Rightarrow> bytes \<Rightarrow> bool option" where
  "cert_match_ipaddress q certname ipaddress =
     (let name = unbracket (qt_trimmed q certname) in
      if name = [] then Some False
      else do {
        addr \<leftarrow> ipaddr_str2bin q name;
        Some (if addr = [] then False else addr = ipaddress) })"

fun match_addresses :: "qt_text \<Rightarrow> bytes \<Rightarrow> info_pair list \<Rightarrow> bool option" where
  "match_addresses q ipaddr [] = Some False"
| "match_addresses q ipaddr (p # ps) =
     (if info_eq (fst p) (info_type_known IPAddress) \<or> info_eq (fst p) (info_type_known DNS) \<or>
         info_eq (fst p) (info_type_known CommonName)
      then do { m \<leftarrow> cert_match_ipaddress q (snd p) ipaddr; if m then Some True else match_addresses q ipaddr ps }
      else match_addresses q ipaddr ps)"

definition matchesHostName :: "qt_text \<Rightarrow> info_pair list \<Rightarrow> qstring \<Rightarrow> bool option" where
  "matchesHostName q subject host = do {
     ipaddr \<leftarrow> ipaddr_str2bin q host;
     if ipaddr \<noteq> [] then match_addresses q ipaddr subject
     else
       let name = qt_toAce q (qt_toLower q host) in
       if 0x2a \<in> set name then Some False
       else let name = strip_dot name in
       if name = [] then Some False
       else Some (\<exists>p \<in> set subject.
         (info_eq (fst p) (info_type_known DNS) \<or> info_eq (fst p) (info_type_known CommonName)) \<and>
         cert_match_domain q (snd p) name) }"

section \<open>Wildcards\<close>

fun glob :: "qstring \<Rightarrow> qstring \<Rightarrow> bool" where
  "glob [] s = (s = [])"
| "glob (p # ps) [] = (p = 0x2a \<and> glob ps [])"
| "glob (p # ps) (c # s) =
     (if p = 0x2a then glob ps (c # s) \<or> glob (p # ps) s else c = p \<and> glob ps s)"

definition text_ok :: "qt_text \<Rightarrow> bool" where
  "text_ok q \<longleftrightarrow>
     (\<forall>p s. (\<forall>c \<in> set p. name_char c \<and> c \<noteq> 0x2e) \<and> 0x2f \<notin> set s \<longrightarrow> qt_wildcard q p s = glob p s)"

lemma glob_plain: "0x2a \<notin> set p \<Longrightarrow> glob p s \<longleftrightarrow> p = s"
  by (induction p s rule: glob.induct) auto

text \<open>
  The rule of RFC 2818 as the code applies it: equally many labels, none empty, an asterisk
  within one label only, and the last two labels equal.
\<close>

definition host_rule :: "qstring \<Rightarrow> qstring \<Rightarrow> bool" where
  "host_rule pat name \<longleftrightarrow>
     (let ps = qsplit 0x2e pat; hs = qsplit 0x2e name in
      (\<forall>c \<in> set pat. name_char c) \<and> [] \<notin> set hs \<and> length ps = length hs \<and>
      (\<forall>i < length ps. ps ! i \<noteq> [] \<and> glob (ps ! i) (hs ! i)) \<and>
      (\<forall>i < length ps. length ps - 2 \<le> i \<longrightarrow> ps ! i = hs ! i))"

lemma wildcard_labels:
  assumes "text_ok q" and "\<forall>c \<in> set pat. name_char c" and "0x2f \<notin> set name"
    and "p \<in> set (qsplit 0x2e pat)" and "h \<in> set (qsplit 0x2e name)"
  shows "qt_wildcard q p h = glob p h"
proof -
  have "\<forall>c \<in> set p. name_char c \<and> c \<noteq> 0x2e"
    using assms(2) qsplit_chars [OF assms(4)] qsplit_no_sep [of "0x2e" pat] assms(4) by blast
  moreover have "0x2f \<notin> set h" using assms(3) qsplit_chars [OF assms(5)] by blast
  ultimately show ?thesis using assms(1) by (simp add: text_ok_def)
qed

lemma cert_match_domain_val:
  assumes "text_ok q" and "0x2f \<notin> set name" and star: "0x2a \<notin> set name"
  shows "cert_match_domain q v name \<longleftrightarrow>
    strip_dot (qt_trimmed q v) \<noteq> [] \<and> host_rule (qt_toLower q (strip_dot (qt_trimmed q v))) name"
proof -
  define pat where "pat = qt_toLower q (strip_dot (qt_trimmed q v))"
  define ps where "ps = qsplit 0x2e pat"
  define hs where "hs = qsplit 0x2e name"
  have ne: "ps \<noteq> []" "hs \<noteq> []" by (simp_all add: ps_def hs_def)
  have hstar: "0x2a \<notin> set h" if "h \<in> set hs" for h using that star qsplit_chars by (fastforce simp: hs_def)
  have wild: "qt_wildcard q (ps ! i) (hs ! i) = glob (ps ! i) (hs ! i)"
    if "\<forall>c \<in> set pat. name_char c" "length ps = length hs" "i < length ps" for i
    using wildcard_labels [OF assms(1) that(1) assms(2)] that by (simp add: ps_def hs_def)
  have lit: "0x2a \<notin> set (ps ! i) \<longleftrightarrow> ps ! i = hs ! i" if "length ps = length hs" "i < length ps" "glob (ps ! i) (hs ! i)" for i
  proof -
    have "hs ! i \<in> set hs" using that by simp
    then show ?thesis using glob_plain [of "ps ! i" "hs ! i"] hstar that(3) by metis
  qed
  have two: "(\<forall>i < length ps. length ps - 2 \<le> i \<longrightarrow> P i) \<longleftrightarrow>
      P (length ps - 1) \<and> (2 \<le> length ps \<longrightarrow> P (length ps - 2))" for P
  proof -
    have "i = length ps - 1 \<or> i = length ps - 2 \<and> 2 \<le> length ps" if "i < length ps" "length ps - 2 \<le> i" for i
      using that by linarith
    moreover have "length ps - 1 < length ps" using ne by simp
    ultimately show ?thesis by (auto simp: diff_le_mono2)
  qed
  have c: "cert_match_domain q v name \<longleftrightarrow> strip_dot (qt_trimmed q v) \<noteq> [] \<and> (\<forall>c \<in> set pat. name_char c) \<and>
      (0x2a \<notin> set (ps ! (length ps - 1)) \<and> (2 \<le> length ps \<longrightarrow> 0x2a \<notin> set (ps ! (length ps - 2)))) \<and>
      [] \<notin> set ps \<and> [] \<notin> set hs \<and> length ps = length hs \<and> (\<forall>i \<in> {..<length ps}. qt_wildcard q (ps ! i) (hs ! i))"
  proof -
    have "(\<exists>c \<in> set pat. \<not> name_char c) \<longleftrightarrow> \<not> (\<forall>c \<in> set pat. name_char c)" by blast
    then show ?thesis
      unfolding cert_match_domain_def Let_def pat_def [symmetric] ps_def [symmetric] hs_def [symmetric] using ne by argo
  qed
  have r: "host_rule pat name \<longleftrightarrow> (\<forall>c \<in> set pat. name_char c) \<and> [] \<notin> set hs \<and> length ps = length hs \<and>
      (\<forall>i < length ps. ps ! i \<noteq> [] \<and> glob (ps ! i) (hs ! i)) \<and> (\<forall>i < length ps. length ps - 2 \<le> i \<longrightarrow> ps ! i = hs ! i)"
    unfolding host_rule_def Let_def ps_def hs_def ..
  have e: "[] \<notin> set ps \<longleftrightarrow> (\<forall>i < length ps. ps ! i \<noteq> [])" by (metis in_set_conv_nth)
  have w: "(\<forall>i \<in> {..<length ps}. qt_wildcard q (ps ! i) (hs ! i)) \<longleftrightarrow> (\<forall>i < length ps. glob (ps ! i) (hs ! i))"
    if "\<forall>c \<in> set pat. name_char c" "length ps = length hs"
    using wild [OF that] by blast
  show ?thesis unfolding pat_def [symmetric] c r two [symmetric, of "\<lambda>i. 0x2a \<notin> set (ps ! i)"] e using lit w by blast
qed

lemma host_rule_plain:
  assumes "0x2a \<notin> set pat"
  shows "host_rule pat name \<longleftrightarrow> pat = name \<and> (\<forall>c \<in> set pat. name_char c) \<and> [] \<notin> set (qsplit 0x2e pat)"
proof -
  have "0x2a \<notin> set (qsplit 0x2e pat ! i)" if "i < length (qsplit 0x2e pat)" for i
    using assms qsplit_chars [of "qsplit 0x2e pat ! i" "0x2e" pat] that by auto
  then have g: "glob (qsplit 0x2e pat ! i) s \<longleftrightarrow> qsplit 0x2e pat ! i = s" if "i < length (qsplit 0x2e pat)" for i s
    using that glob_plain by blast
  have inj: "qsplit 0x2e pat = qsplit 0x2e name \<longleftrightarrow> pat = name" by (metis qjoin_qsplit)
  let ?ps = "qsplit 0x2e pat" and ?hs = "qsplit 0x2e name"
  have "(\<forall>i < length ?ps. ?ps ! i \<noteq> [] \<and> glob (?ps ! i) (?hs ! i)) \<longleftrightarrow>
      (\<forall>i < length ?ps. ?ps ! i \<noteq> []) \<and> (\<forall>i < length ?ps. ?ps ! i = ?hs ! i)"
    using g by metis
  moreover note list_eq_iff_nth_eq [of ?ps ?hs]
  moreover have "(\<forall>i < length ?ps. ?ps ! i \<noteq> []) \<longleftrightarrow> [] \<notin> set ?ps" by (metis in_set_conv_nth)
  moreover have "\<forall>i < length ?ps. length ?ps - 2 \<le> i \<longrightarrow> ?ps ! i = ?hs ! i" if "?ps = ?hs"
    unfolding that by blast
  moreover have "[] \<notin> set ?hs \<longleftrightarrow> [] \<notin> set ?ps" if "?ps = ?hs" unfolding that ..
  ultimately show ?thesis unfolding host_rule_def Let_def inj [symmetric] by argo
qed

text \<open>An instance of Qt's functions for the examples: single digits are numbers.\<close>

definition plain_text :: qt_text where
  "plain_text = \<lparr> qt_trimmed = id, qt_toLower = id, qt_toAce = id,
     qt_toInt = (\<lambda>base s. case s of [c] \<Rightarrow> if 0x30 \<le> c \<and> c \<le> 0x39 then Some (uint c - 0x30) else None | _ \<Rightarrow> None),
     qt_wildcard = glob \<rparr>"

lemma plain_text_ok: "text_ok plain_text"
  by (simp add: text_ok_def plain_text_def)

section \<open>Properties of names\<close>

text \<open>
  C9. Domain names.  For a host that is no IP address, the certificate is accepted exactly when
  the host name in its ASCII form has no asterisk, is not empty and follows from a DNS name or
  a common name of the certificate by the rule: the same number of labels, an asterisk stands
  for characters of one label only, and the last two labels are literally those of the host.
  A certificate name without an asterisk covers that name only.
\<close>

theorem host_name_match:
  assumes "text_ok q" and "ipaddr_str2bin q host = Some []" and "ace = qt_toAce q (qt_toLower q host)" and "0x2f \<notin> set ace"
  shows "matchesHostName q subject host = Some (0x2a \<notin> set ace \<and> strip_dot ace \<noteq> [] \<and>
      (\<exists>p \<in> set subject. (info_eq (fst p) (info_type_known DNS) \<or> info_eq (fst p) (info_type_known CommonName)) \<and>
         strip_dot (qt_trimmed q (snd p)) \<noteq> [] \<and> host_rule (qt_toLower q (strip_dot (qt_trimmed q (snd p)))) (strip_dot ace))) \<and>
    (\<forall>pat. 0x2a \<notin> set pat \<longrightarrow> (host_rule pat (strip_dot ace) \<longleftrightarrow>
       pat = strip_dot ace \<and> (\<forall>c \<in> set pat. name_char c) \<and> [] \<notin> set (qsplit 0x2e pat)))"
proof -
  have sub: "set (strip_dot ace) \<subseteq> set ace" by (auto simp: strip_dot_def dest: in_set_butlastD)
  then have "cert_match_domain q v (strip_dot ace) \<longleftrightarrow> strip_dot (qt_trimmed q v) \<noteq> [] \<and>
      host_rule (qt_toLower q (strip_dot (qt_trimmed q v))) (strip_dot ace)" if "0x2a \<notin> set ace" for v
    using that assms(4) by (intro cert_match_domain_val [OF assms(1)]) auto
  then show ?thesis
    using assms(2,3) by (simp add: matchesHostName_def Let_def host_rule_plain)
qed

theorem host_name_match_witness:
  "matchesHostName plain_text [(info_type_known DNS, qlatin ''*.a.de'')] (qlatin ''www.a.de'') = Some True"
proof -
  have 0: "ipaddr_str2bin plain_text (qlatin ''www.a.de'') = Some []"
    by (simp add: ipaddr_str2bin_def ipaddr_v4_def qlatin_def)
  have "host_rule (qlatin ''*.a.de'') (qlatin ''www.a.de'')"
    by (simp add: host_rule_def qlatin_def name_char_def All_less_Suc numeral_3_eq_3)
  then show ?thesis
    using host_name_match [OF plain_text_ok 0 refl, of "[(info_type_known DNS, qlatin ''*.a.de'')]"]
    by (simp add: plain_text_def qlatin_def strip_dot_def info_eq_def info_type_known_def)
qed

section \<open>The readers of addresses stay inside their buffers\<close>

lemma store_down_ok: "0 < fst st \<Longrightarrow> fst st \<le> length (snd st) \<Longrightarrow>
    \<exists>st'. store_down v st = Some st' \<and> fst st' = fst st - 1 \<and> length (snd st') = length (snd st)"
  by (auto simp: store_down_def poke_def split: prod.splits)

lemma store_two:
  assumes "even (fst st)" and "fst st \<noteq> 0" and "fst st \<le> length (snd st)"
  obtains st' st'' where "store_down v st = Some st'" "store_down w st' = Some st''" "even (fst st'')"
    "fst st'' < fst st" "length (snd st'') = length (snd st)"
proof -
  have 0: "2 \<le> fst st" using assms(1,2) by (cases "fst st") (auto elim: oddE evenE)
  obtain st' where 1: "store_down v st = Some st'" "fst st' = fst st - 1" "length (snd st') = length (snd st)"
    using store_down_ok [of st v] assms(2,3) by auto
  have "0 < fst st'" "fst st' \<le> length (snd st')" using 0 1 assms(3) by linarith+
  then obtain st'' where 2: "store_down w st' = Some st''" "fst st'' = fst st' - 1" "length (snd st'') = length (snd st')"
    using store_down_ok [of st' w] by blast
  then have "fst st'' = fst st - 2" using 1 by simp
  then show ?thesis using 0 1 2 assms(1) by (intro that [of st' st'']) simp_all
qed

lemma fill_zeros_ok:
  assumes "even (fst st)" and "fst st \<le> length (snd st)"
  shows "\<exists>r. fill_zeros i st = Some r \<and>
    (\<forall>st'. r = Some st' \<longrightarrow> even (fst st') \<and> fst st' \<le> fst st \<and> length (snd st') = length (snd st))"
  using assms
proof (induction i st rule: fill_zeros.induct)
  case (2 i st)
  show ?case
  proof (cases "fst st = 0")
    case False
    obtain st' st'' where s: "store_down 0 st = Some st'" "store_down 0 st' = Some st''" "even (fst st'')"
      "fst st'' < fst st" "length (snd st'') = length (snd st)"
      using store_two [OF 2(2) False 2(3)] by blast
    have "fst st'' \<le> length (snd st'')" using s(4,5) 2(3) by linarith
    from 2(1) [OF False s(1,2,3) this] show ?thesis using s False by fastforce
  qed simp
qed auto

lemma ipv4_loop_ok: "n + length ps = length out \<Longrightarrow> \<exists>b. ipv4_loop q ps n out = Some b \<and> (b = [] \<or> length b = length out)"
proof (induction ps arbitrary: n out)
  case (Cons p ps)
  then have "\<exists>b. ipv4_loop q ps (n + 1) (out[n := v]) = Some b \<and> (b = [] \<or> length b = length out)" for v
    using Cons.IH [of "n + 1" "out[n := v]"] by simp
  then show ?case using Cons.prems by (auto simp: poke_def split: option.splits)
qed simp

lemma ipaddr_v4_ok: "\<exists>b. ipaddr_v4 q str = Some b \<and> (b = [] \<or> length b = 4)"
  using ipv4_loop_ok [of 0 "qsplit 0x2e str" "replicate 4 0"] by (auto simp: ipaddr_v4_def Let_def)

lemma store_four:
  assumes "length buf = 4" and "fst st = 16" and "length (snd st) = 16"
  obtains s1 s2 s3 s4 where "store_down (buf ! 3) st = Some s1" "store_down (buf ! 2) s1 = Some s2"
    "store_down (buf ! 1) s2 = Some s3" "store_down (buf ! 0) s3 = Some s4" "fst s4 = 12" "length (snd s4) = 16"
proof -
  obtain s1 where 1: "store_down (buf ! 3) st = Some s1" "fst s1 = 15" "length (snd s1) = 16"
    using store_down_ok [of st "buf ! 3"] assms by auto
  obtain s2 where 2: "store_down (buf ! 2) s1 = Some s2" "fst s2 = 14" "length (snd s2) = 16"
    using store_down_ok [of s1 "buf ! 2"] 1 by auto
  obtain s3 where 3: "store_down (buf ! 1) s2 = Some s3" "fst s3 = 13" "length (snd s3) = 16"
    using store_down_ok [of s2 "buf ! 1"] 2 by auto
  obtain s4 where "store_down (buf ! 0) s3 = Some s4" "fst s4 = 12" "length (snd s4) = 16"
    using store_down_ok [of s3 "buf ! 0"] 3 by auto
  then show ?thesis using 1 2 3 that by blast
qed

lemma ipv6_loop_ok:
  assumes "even (fst st)" and "fst st \<le> 16" and "length (snd st) = 16" and "n \<le> length parts"
    and "n = length parts \<longrightarrow> fst st = 16"
  shows "\<exists>b. ipv6_loop q parts n fill st = Some b \<and> (b = [] \<or> length b = 16)"
  using assms
proof (induction n arbitrary: fill st)
  case (Suc n)
  let ?ok = "\<lambda>r. \<exists>b. r = Some b \<and> (b = [] \<or> length b = 16)"
  have n: "n \<le> length parts" "n \<noteq> length parts" using Suc.prems(4) by auto
  have IH: "?ok (ipv6_loop q parts n fill' st')" if "even (fst st')" "fst st' \<le> 16" "length (snd st') = 16" for fill' st'
    using Suc.IH [of st' fill'] that n by blast
  have two: "?ok (do { st \<leftarrow> store_down v st; st \<leftarrow> store_down w st; ipv6_loop q parts n fill st })" if nz: "fst st \<noteq> 0" for v w
  proof -
    have "fst st \<le> length (snd st)" using Suc.prems(2,3) by simp
    then obtain s1 s2 where "store_down v st = Some s1" "store_down w s1 = Some s2" "even (fst s2)" "fst s2 < fst st"
      "length (snd s2) = length (snd st)"
      by (rule store_two [OF Suc.prems(1) nz])
    then show ?thesis using IH [of s2 fill] Suc.prems(2,3) by simp
  qed
  have zeros: "?ok (do { r \<leftarrow> fill_zeros fill st; case r of None \<Rightarrow> Some [] | Some st \<Rightarrow> ipv6_loop q parts n fill st })"
  proof -
    obtain r where "fill_zeros fill st = Some r"
      "\<forall>st'. r = Some st' \<longrightarrow> even (fst st') \<and> fst st' \<le> fst st \<and> length (snd st') = length (snd st)"
      using fill_zeros_ok [of st fill] Suc.prems(1-3) by auto
    then show ?thesis using IH Suc.prems(2,3) by (cases r) auto
  qed
  have four: "?ok (do { buf \<leftarrow> ipaddr_v4 q (parts ! n); if buf = [] then Some [] else do {
      b3 \<leftarrow> peek buf 3; st \<leftarrow> store_down b3 st; b2 \<leftarrow> peek buf 2; st \<leftarrow> store_down b2 st;
      b1 \<leftarrow> peek buf 1; st \<leftarrow> store_down b1 st; b0 \<leftarrow> peek buf 0; st \<leftarrow> store_down b0 st;
      ipv6_loop q parts n (fill - 1) st } })" if "n = length parts - 1"
  proof -
    obtain buf where b: "ipaddr_v4 q (parts ! n) = Some buf" "buf = [] \<or> length buf = 4" using ipaddr_v4_ok by blast
    have "fst st = 16" using that Suc.prems(4,5) by auto
    then show ?thesis
      using b IH Suc.prems(3) store_four [of buf st]
      by (cases "buf = []") (auto simp: peek_def elim!: store_four [of buf st])
  qed
  have ifI: "?ok (if c then a else b)" if "c \<Longrightarrow> ?ok a" "\<not> c \<Longrightarrow> ?ok b" for c a b
    using that by (cases c) simp_all
  have caseI: "?ok (case r of None \<Rightarrow> Some [] | Some x \<Rightarrow> g x)" if "\<And>x. ?ok (g x)" for r :: "int option" and g
    using that by (cases r) simp_all
  have none: "?ok (Some [])" by simp
  show ?case unfolding ipv6_loop.simps
    by (rule none ifI caseI two zeros four | assumption | simp only: not_not)+
qed simp

lemma ipaddr_ok: "\<exists>b. ipaddr_str2bin q str = Some b \<and> length b \<in> {0, 4, 16}"
  using ipv6_loop_ok [of "(16, replicate 16 0)" "length (qsplit 0x3a str)" "qsplit 0x3a str" q "9 - length (qsplit 0x3a str)"]
    ipaddr_v4_ok [of q str]
  by (auto simp: ipaddr_str2bin_def Let_def)

lemma match_addresses_val:
  assumes "a \<noteq> []"
  shows "match_addresses q a subject = Some (\<exists>p \<in> set subject.
    (info_eq (fst p) (info_type_known IPAddress) \<or> info_eq (fst p) (info_type_known DNS) \<or>
     info_eq (fst p) (info_type_known CommonName)) \<and> ipaddr_str2bin q (unbracket (qt_trimmed q (snd p))) = Some a)"
proof (induction subject)
  case (Cons p ps)
  have "cert_match_ipaddress q (snd p) a = Some (ipaddr_str2bin q (unbracket (qt_trimmed q (snd p))) = Some a)"
    using ipaddr_ok [of q "unbracket (qt_trimmed q (snd p))"] assms
    by (auto simp: cert_match_ipaddress_def Let_def ipaddr_str2bin_def)
  then show ?case using Cons by simp
qed simp

section \<open>Textual addresses\<close>

definition group_ok :: "qt_text \<Rightarrow> qstring \<Rightarrow> int \<Rightarrow> bool" where
  "group_ok q t x \<longleftrightarrow> t \<noteq> [] \<and> 0x3a \<notin> set t \<and> 0x2e \<notin> set t \<and> qt_toInt q 16 t = Some x \<and> 0 \<le> x \<and> x \<le> 0xffff"

definition group_bytes :: "(qstring \<times> int) list \<Rightarrow> bytes" where
  "group_bytes gs = concat (map (\<lambda>g. [of_int (drop_bit 8 (snd g) AND 0xff), of_int (snd g AND 0xff)]) gs)"

lemma store_zeros: "store_down v (Suc n, replicate (Suc n) 0 @ tail) = Some (n, replicate n 0 @ v # tail)"
proof -
  have "replicate (Suc n) (0 :: byte) @ tail = replicate n 0 @ 0 # tail" by (simp add: replicate_app_Cons_same)
  then show ?thesis by (simp only: store_down_def prod.case) (simp add: poke_append)
qed

lemma store_zeros2:
  assumes "2 \<le> at"
  shows "store_down v (at, replicate at 0 @ tail) \<bind> (\<lambda>st. store_down w st \<bind> g) =
    g (at - 2, replicate (at - 2) 0 @ w # v # tail)"
proof -
  obtain k where "at = Suc (Suc k)" using assms by (metis add_2_eq_Suc le_Suc_ex)
  moreover from this have "at - 2 = k" by simp
  ultimately show ?thesis by (simp only: store_zeros Option.bind.simps)
qed

lemma fill_zeros_val:
  "2 * i \<le> at \<Longrightarrow> fill_zeros i (at, replicate at 0 @ tail) = Some (Some (at - 2 * i, replicate (at - 2 * i) 0 @ replicate (2 * i) 0 @ tail))"
proof (induction i arbitrary: at tail)
  case (Suc i)
  then have "2 \<le> at" by simp
  then have "fill_zeros (Suc i) (at, replicate at 0 @ tail) = fill_zeros i (at - 2, replicate (at - 2) 0 @ [0, 0] @ tail)"
    using store_zeros2 [of at 0 tail 0 "fill_zeros i"] by simp
  also have "\<dots> = Some (Some (at - 2 - 2 * i, replicate (at - 2 - 2 * i) 0 @ replicate (2 * i) 0 @ [0, 0] @ tail))"
    using Suc.prems by (intro Suc.IH) simp
  finally show ?case by (simp add: replicate_app_Cons_same)
qed simp

lemma ipv6_group:
  assumes "parts ! n = t" and "group_ok q t x" and "2 \<le> at"
  shows "ipv6_loop q parts (Suc n) fill (at, replicate at 0 @ tail) =
    ipv6_loop q parts n fill (at - 2, replicate (at - 2) 0 @ group_bytes [(t, x)] @ tail)"
  using assms store_zeros2 [OF assms(3)] by (simp add: group_ok_def group_bytes_def)

lemma ipv6_groups:
  assumes "parts = pre @ map fst gs @ post" and "\<forall>(t, x) \<in> set gs. group_ok q t x" and "2 * length gs \<le> at"
  shows "ipv6_loop q parts (length pre + length gs) fill (at, replicate at 0 @ tail) =
    ipv6_loop q parts (length pre) fill (at - 2 * length gs, replicate (at - 2 * length gs) 0 @ group_bytes gs @ tail)"
  using assms
proof (induction gs arbitrary: at tail post rule: rev_induct)
  case (snoc g gs)
  obtain t x where g: "g = (t, x)" by (cases g)
  have "parts ! (length pre + length gs) = t" using snoc.prems(1) g by (simp add: nth_append)
  moreover have "group_ok q t x" "2 \<le> at" using snoc.prems(2,3) g by auto
  ultimately have "ipv6_loop q parts (Suc (length pre + length gs)) fill (at, replicate at 0 @ tail) =
      ipv6_loop q parts (length pre + length gs) fill (at - 2, replicate (at - 2) 0 @ group_bytes [g] @ tail)"
    unfolding g by (rule ipv6_group)
  also have "\<dots> = ipv6_loop q parts (length pre) fill
      (at - 2 - 2 * length gs, replicate (at - 2 - 2 * length gs) 0 @ group_bytes gs @ group_bytes [g] @ tail)"
    using snoc.prems by (intro snoc.IH [of "[t] @ post"]) (auto simp: g)
  finally show ?case by (simp add: group_bytes_def)
qed (simp add: group_bytes_def)

lemma ipv6_omission:
  assumes "parts ! n = []" and "0 < n" and "n < length parts - 1" and "2 * fill \<le> at" and "0 < at"
  shows "ipv6_loop q parts (Suc n) fill (at, replicate at 0 @ tail) =
    ipv6_loop q parts n fill (at - 2 * fill, replicate (at - 2 * fill) 0 @ replicate (2 * fill) 0 @ tail)"
  using assms by (simp add: fill_zeros_val)

lemma ipv6_last:
  assumes "parts ! n = []" and "n = length parts - 1" and "parts ! (n - 1) = []" and "2 \<le> at"
  shows "ipv6_loop q parts (Suc n) fill (at, replicate at 0 @ tail) =
    ipv6_loop q parts n fill (at - 2, replicate (at - 2) 0 @ [0, 0] @ tail)"
  using assms store_zeros2 [OF assms(4)] by simp

lemma ipv6_first:
  assumes "parts ! 0 = []" and "2 \<le> length parts" and "parts ! 1 = []" and "2 \<le> at"
  shows "ipv6_loop q parts (Suc 0) fill (at, replicate at 0 @ tail) = Some (replicate (at - 2) 0 @ [0, 0] @ tail)"
  using assms store_zeros2 [OF assms(4), of 0 tail 0 "ipv6_loop q parts 0 fill"] by simp

lemma ipaddr_colons:
  assumes "str = qjoin [0x3a] parts" and "\<forall>p \<in> set parts. 0x3a \<notin> set p" and "3 \<le> length parts" and "length parts \<le> 8"
  shows "ipaddr_str2bin q str = ipv6_loop q parts (length parts) (9 - length parts) (16, replicate 16 0 @ [])"
proof -
  have "parts \<noteq> []" using assms(3) by auto
  then have "qsplit 0x3a str = parts" using assms(1,2) qsplit_qjoin by blast
  moreover have "0x3a \<in> set str"
  proof (rule ccontr)
    assume "0x3a \<notin> set str"
    then have "qsplit 0x3a str = [str]" by (rule qsplit_plain)
    then show False using \<open>qsplit 0x3a str = parts\<close> assms(3) by simp
  qed
  ultimately show ?thesis using assms(3,4) by (simp add: ipaddr_str2bin_def)
qed

lemma qjoin_append: "xs \<noteq> [] \<Longrightarrow> ys \<noteq> [] \<Longrightarrow> qjoin sep (xs @ ys) = qjoin sep xs @ sep @ qjoin sep ys"
proof (induction sep xs rule: qjoin.induct)
  case (2 sep x)
  then show ?case by (cases ys) auto
qed auto

text \<open>The parts of an address with an omission, and what the loop makes of them.\<close>

lemma ipv6_middle:
  assumes a: "\<forall>(t, x) \<in> set a. group_ok q t x" and b: "\<forall>(t, x) \<in> set b. group_ok q t x"
    and ne: "a \<noteq> []" "b \<noteq> []" and len: "length a + length b \<le> 7"
  shows "ipaddr_str2bin q (qjoin [0x3a] (map fst a @ [[]] @ map fst b)) =
    Some (group_bytes a @ replicate (16 - 2 * length a - 2 * length b) 0 @ group_bytes b)"
proof -
  let ?parts = "map fst a @ [[]] @ map fst b" and ?fill = "8 - length a - length b"
  have "0 < length a" "0 < length b" using ne by simp_all
  note l = this len
  have col: "\<forall>p \<in> set ?parts. 0x3a \<notin> set p" using a b by (auto simp: group_ok_def)
  have len3: "3 \<le> length ?parts" "length ?parts \<le> 8" using l unfolding length_append length_map list.size by linarith+
  have "ipaddr_str2bin q (qjoin [0x3a] ?parts) =
      ipv6_loop q ?parts (length (map fst a @ [[]]) + length b) ?fill (16, replicate 16 0 @ [])"
    unfolding ipaddr_colons [OF refl col len3] by simp
  also have "\<dots> = ipv6_loop q ?parts (length (map fst a @ [[]])) ?fill
      (16 - 2 * length b, replicate (16 - 2 * length b) 0 @ group_bytes b @ [])"
    using l b by (intro ipv6_groups [where post = "[]"]) auto
  also have "\<dots> = ipv6_loop q ?parts (length a) ?fill
      (2 * length a, replicate (2 * length a) 0 @ replicate (2 * ?fill) 0 @ group_bytes b)"
  proof -
    have "length (map fst a @ [[] :: qstring]) = Suc (length a)" by simp
    moreover have "?parts ! length a = []" by (simp add: nth_append)
    moreover have "16 - 2 * length b - 2 * ?fill = 2 * length a" using l by linarith
    ultimately show ?thesis
      using ipv6_omission [of ?parts "length a" ?fill "16 - 2 * length b" q "group_bytes b"] l by simp
  qed
  also have "\<dots> = ipv6_loop q ?parts (length ([] :: qstring list)) ?fill
      (2 * length a - 2 * length a, replicate (2 * length a - 2 * length a) 0 @ group_bytes a @ replicate (2 * ?fill) 0 @ group_bytes b)"
    using ipv6_groups [of ?parts "[]" a "[[]] @ map fst b" q "2 * length a"] a by simp
  finally show ?thesis using l by (simp add: diff_mult_distrib2 flip: diff_diff_left)
qed

lemma ipv6_leading:
  assumes b: "\<forall>(t, x) \<in> set b. group_ok q t x" and ne: "b \<noteq> []" and len: "length b \<le> 6"
  shows "ipaddr_str2bin q (qjoin [0x3a] ([[], []] @ map fst b)) = Some (replicate (16 - 2 * length b) 0 @ group_bytes b)"
proof -
  let ?parts = "[[], []] @ map fst b" and ?fill = "7 - length b"
  have "0 < length b" using ne by simp
  note l = this len
  have col: "\<forall>p \<in> set ?parts. 0x3a \<notin> set p" using b by (auto simp: group_ok_def)
  have len3: "3 \<le> length ?parts" "length ?parts \<le> 8" using l unfolding length_append length_map list.size by linarith+
  have "ipaddr_str2bin q (qjoin [0x3a] ?parts) =
      ipv6_loop q ?parts (length ([[], []] :: qstring list) + length b) ?fill (16, replicate 16 0 @ [])"
    unfolding ipaddr_colons [OF refl col len3] by simp
  also have "\<dots> = ipv6_loop q ?parts (length ([[], []] :: qstring list)) ?fill
      (16 - 2 * length b, replicate (16 - 2 * length b) 0 @ group_bytes b @ [])"
    using l b by (intro ipv6_groups [where post = "[]"]) auto
  also have "\<dots> = ipv6_loop q ?parts 1 ?fill (2, replicate 2 0 @ replicate (2 * ?fill) 0 @ group_bytes b)"
  proof -
    have "length ([[], []] :: qstring list) = Suc 1" by simp
    moreover have "16 - 2 * length b - 2 * ?fill = 2" using l by linarith
    ultimately show ?thesis
      using ipv6_omission [of ?parts 1 ?fill "16 - 2 * length b" q "group_bytes b"] l by simp
  qed
  also have "\<dots> = Some (replicate (2 - 2) 0 @ [0, 0] @ replicate (2 * ?fill) 0 @ group_bytes b)"
    unfolding One_nat_def by (rule ipv6_first) auto
  also have "\<dots> = Some (replicate (2 + 2 * ?fill) 0 @ group_bytes b)" by (simp add: replicate_add)
  also have "2 + 2 * ?fill = 16 - 2 * length b" using l by linarith
  finally show ?thesis .
qed

lemma ipv6_trailing:
  assumes a: "\<forall>(t, x) \<in> set a. group_ok q t x" and ne: "a \<noteq> []" and len: "length a \<le> 6"
  shows "ipaddr_str2bin q (qjoin [0x3a] (map fst a @ [[], []])) = Some (group_bytes a @ replicate (16 - 2 * length a) 0)"
proof -
  let ?parts = "map fst a @ [[], []]" and ?fill = "7 - length a"
  have "0 < length a" using ne by simp
  note l = this len
  have nth: "?parts ! length a = []" "?parts ! Suc (length a) = []" by (simp_all add: nth_append)
  have col: "\<forall>p \<in> set ?parts. 0x3a \<notin> set p" using a by (auto simp: group_ok_def)
  have len3: "3 \<le> length ?parts" "length ?parts \<le> 8" using l unfolding length_append length_map list.size by linarith+
  have "ipaddr_str2bin q (qjoin [0x3a] ?parts) = ipv6_loop q ?parts (Suc (Suc (length a))) ?fill (16, replicate 16 0 @ [])"
    unfolding ipaddr_colons [OF refl col len3] by simp
  also have "\<dots> = ipv6_loop q ?parts (Suc (length a)) ?fill (16 - 2, replicate (16 - 2) 0 @ [0, 0] @ [])"
    using nth by (intro ipv6_last) simp_all
  also have "\<dots> = ipv6_loop q ?parts (length a) ?fill (14 - 2 * ?fill, replicate (14 - 2 * ?fill) 0 @ replicate (2 * ?fill) 0 @ [0, 0] @ [])"
    using ipv6_omission [of ?parts "length a" ?fill 14 q "[0, 0]"] nth l by simp
  also have "14 - 2 * ?fill = 2 * length a" using l by linarith
  also have "ipv6_loop q ?parts (length a) ?fill (2 * length a, replicate (2 * length a) 0 @ replicate (2 * ?fill) 0 @ [0, 0] @ []) =
      ipv6_loop q ?parts (length ([] :: qstring list)) ?fill
      (2 * length a - 2 * length a, replicate (2 * length a - 2 * length a) 0 @ group_bytes a @ replicate (2 * ?fill) 0 @ [0, 0] @ [])"
    using ipv6_groups [of ?parts "[]" a "[[], []]" q "2 * length a"] a by simp
  also have "\<dots> = Some (group_bytes a @ replicate (2 * ?fill) 0 @ [0, 0])" by simp
  also have "replicate (2 * ?fill) 0 @ [0, 0 :: byte] = replicate (2 * ?fill + 2) 0"
    by (subst replicate_add) (simp add: numeral_2_eq_2)
  also have "2 * ?fill + 2 = 16 - 2 * length a" using l by linarith
  finally show ?thesis .
qed

lemma ipv6_plain:
  assumes a: "\<forall>(t, x) \<in> set a. group_ok q t x" and len: "3 \<le> length a" "length a \<le> 8"
  shows "ipaddr_str2bin q (qjoin [0x3a] (map fst a)) = Some (replicate (16 - 2 * length a) 0 @ group_bytes a)"
proof -
  have "\<forall>p \<in> set (map fst a). 0x3a \<notin> set p" using a by (auto simp: group_ok_def)
  then have "ipaddr_str2bin q (qjoin [0x3a] (map fst a)) =
      ipv6_loop q (map fst a) (length ([] :: qstring list) + length a) (9 - length a) (16, replicate 16 0 @ [])"
    using len by (subst ipaddr_colons [OF refl]) auto
  also have "\<dots> = ipv6_loop q (map fst a) (length ([] :: qstring list)) (9 - length a)
      (16 - 2 * length a, replicate (16 - 2 * length a) 0 @ group_bytes a @ [])"
    using len a by (intro ipv6_groups [where post = "[]"]) auto
  finally show ?thesis by simp
qed

section \<open>Properties of addresses\<close>

text \<open>
  Textual IPv6 addresses are read as RFC 4291 prescribes, for groups that \<^verbatim>\<open>toInt\<close> reads as
  numbers of 16 bits: eight groups; an omission between groups, before them or after them, and
  the lone omission.  Text with three to seven groups and no omission, which is no address, is
  read, too, as if the missing groups were zeros at the front.
\<close>

theorem ipv6_text_forms:
  assumes "\<forall>(t, x) \<in> set a. group_ok q t x" and "\<forall>(t, x) \<in> set b. group_ok q t x"
  shows "(3 \<le> length a \<and> length a \<le> 8 \<longrightarrow>
      ipaddr_str2bin q (qjoin [0x3a] (map fst a)) = Some (replicate (16 - 2 * length a) 0 @ group_bytes a)) \<and>
    (a \<noteq> [] \<and> b \<noteq> [] \<and> length a + length b \<le> 7 \<longrightarrow>
      ipaddr_str2bin q (qjoin [0x3a] (map fst a) @ [0x3a, 0x3a] @ qjoin [0x3a] (map fst b)) =
        Some (group_bytes a @ replicate (16 - 2 * length a - 2 * length b) 0 @ group_bytes b)) \<and>
    (length b \<le> 6 \<longrightarrow>
      ipaddr_str2bin q ([0x3a, 0x3a] @ qjoin [0x3a] (map fst b)) = Some (replicate (16 - 2 * length b) 0 @ group_bytes b)) \<and>
    (a \<noteq> [] \<and> length a \<le> 6 \<longrightarrow>
      ipaddr_str2bin q (qjoin [0x3a] (map fst a) @ [0x3a, 0x3a]) = Some (group_bytes a @ replicate (16 - 2 * length a) 0))"
proof (intro conjI impI)
  show "ipaddr_str2bin q (qjoin [0x3a] (map fst a)) = Some (replicate (16 - 2 * length a) 0 @ group_bytes a)"
    if "3 \<le> length a \<and> length a \<le> 8"
    using ipv6_plain [OF assms(1)] that by blast
  show "ipaddr_str2bin q (qjoin [0x3a] (map fst a) @ [0x3a, 0x3a] @ qjoin [0x3a] (map fst b)) =
      Some (group_bytes a @ replicate (16 - 2 * length a - 2 * length b) 0 @ group_bytes b)"
    if "a \<noteq> [] \<and> b \<noteq> [] \<and> length a + length b \<le> 7"
    using ipv6_middle [OF assms] that qjoin_append [of "map fst a" "[[]] @ map fst b" "[0x3a]"]
      qjoin_append [of "[[]]" "map fst b" "[0x3a]"] by simp
  show "ipaddr_str2bin q (qjoin [0x3a] (map fst a) @ [0x3a, 0x3a]) = Some (group_bytes a @ replicate (16 - 2 * length a) 0)"
    if "a \<noteq> [] \<and> length a \<le> 6"
    using ipv6_trailing [OF assms(1)] that qjoin_append [of "map fst a" "[[], []]" "[0x3a]"] by simp
  show "ipaddr_str2bin q ([0x3a, 0x3a] @ qjoin [0x3a] (map fst b)) = Some (replicate (16 - 2 * length b) 0 @ group_bytes b)"
    if "length b \<le> 6"
  proof (cases "b = []")
    case True
    have "ipaddr_str2bin q (qjoin [0x3a] [[], [], []]) = Some (replicate 16 0)"
      by (subst ipaddr_colons [OF refl]) (simp_all add: store_down_def poke_def eval_nat_numeral)
    then show ?thesis using True by (simp add: group_bytes_def)
  next
    case False
    then show ?thesis using ipv6_leading [OF assms(2) _ that] qjoin_append [of "[[], []]" "map fst b" "[0x3a]"] by simp
  qed
qed

theorem ipv6_text_forms_witness:
  "ipaddr_str2bin plain_text (qlatin ''1::2'') = Some ([0, 1] @ replicate 12 0 @ [0, 2])"
proof -
  have "\<forall>(t, x) \<in> set [(qlatin ''1'', 1)]. group_ok plain_text t x" "\<forall>(t, x) \<in> set [(qlatin ''2'', 2)]. group_ok plain_text t x"
    by (simp_all add: group_ok_def plain_text_def qlatin_def)
  from ipv6_text_forms [OF this] show ?thesis by (simp add: qlatin_def group_bytes_def)
qed

text \<open>
  C30. Addresses.  The reader of addresses never leaves its buffer and yields no bytes, four or
  sixteen; and for a host that is an address the certificate is accepted exactly when an IP
  address, DNS name or common name of it, without blanks and brackets, reads as that address.
\<close>

theorem host_address_match:
  assumes "ipaddr_str2bin q host = Some addr" and "addr \<noteq> []"
  shows "(\<forall>str. \<exists>b. ipaddr_str2bin q str = Some b \<and> length b \<in> {0, 4, 16}) \<and>
    matchesHostName q subject host = Some (\<exists>p \<in> set subject.
      (info_eq (fst p) (info_type_known IPAddress) \<or> info_eq (fst p) (info_type_known DNS) \<or>
       info_eq (fst p) (info_type_known CommonName)) \<and> ipaddr_str2bin q (unbracket (qt_trimmed q (snd p))) = Some addr)"
  using assms ipaddr_ok by (simp add: matchesHostName_def match_addresses_val)

theorem host_address_match_witness:
  "matchesHostName plain_text [(info_type_known IPAddress, qlatin ''[1.2.3.4]'')] (qlatin ''1.2.3.4'') = Some True"
proof -
  have "replicate 4 (0 :: byte) = [0, 0, 0, 0]" by (simp add: eval_nat_numeral)
  then have 0: "ipaddr_str2bin plain_text (qlatin ''1.2.3.4'') = Some [1, 2, 3, 4]"
    by (simp add: ipaddr_str2bin_def ipaddr_v4_def plain_text_def qlatin_def poke_def)
  moreover have "unbracket (qlatin ''[1.2.3.4]'') = qlatin ''1.2.3.4''" by (simp add: unbracket_def qlatin_def)
  ultimately show ?thesis
    using host_address_match [OF 0, of "[(info_type_known IPAddress, qlatin ''[1.2.3.4]'')]"]
    by (simp add: info_eq_def info_type_known_def) (simp add: plain_text_def)
qed

end
