(* ===== verification/CertChain.thy ===== *)
theory CertChain
  imports Prelude
begin

text \<open>
  The completion of a certificate chain (\<^verbatim>\<open>Certificate::chain_complete\<close> of \<^verbatim>\<open>src/src/qca_cert.cpp\<close>).  A
  certificate is a value of any type; what the provider knows of it are parameters: whether it
  is self-signed, whether one is the issuer of another, and the comparison of two.
\<close>

section \<open>Model\<close>

datatype validity =
  ValidityGood | ErrorRejected | ErrorUntrusted | ErrorSignatureFailed | ErrorInvalidCA | ErrorInvalidPurpose | ErrorSelfSigned |
  ErrorRevoked | ErrorPathLengthExceeded | ErrorExpired | ErrorExpiredCA | ErrorSecurityLevel | ErrorValidityUnknown







section \<open>Lemmas\<close>






section \<open>Properties\<close>



end
