(* ===== verification/LayerTracker.thy ===== *)
theory LayerTracker
  imports Prelude
begin

text \<open>
  \<^verbatim>\<open>LayerTracker\<close> of \<^verbatim>\<open>src/src/qca_securelayer.cpp\<close>: how many bytes of application data a number of
  bytes written to the network stands for.  The counts are C++ integers, taken without their bound.
\<close>

section \<open>Model\<close>

record layer_item =
  li_plain :: int
  li_encoded :: int

record layer_tracker =
  lt_p :: int
  lt_list :: "layer_item list"

definition layer_reset :: layer_tracker where
  "layer_reset = \<lparr> lt_p = 0, lt_list = [] \<rparr>"

definition addPlain :: "int \<Rightarrow> layer_tracker \<Rightarrow> layer_tracker" where
  "addPlain plain t = t\<lparr> lt_p := lt_p t + plain \<rparr>"

definition specifyEncoded :: "int \<Rightarrow> int \<Rightarrow> layer_tracker \<Rightarrow> layer_tracker" where
  "specifyEncoded encoded plain t =
     (let plain = (if lt_p t < plain then lt_p t else plain)
      in t\<lparr> lt_p := lt_p t - plain, lt_list := lt_list t @ [\<lparr> li_plain = plain, li_encoded = encoded \<rparr>] \<rparr>)"

fun finished_loop :: "int \<Rightarrow> int \<Rightarrow> layer_item list \<Rightarrow> int \<times> layer_item list" where
  "finished_loop encoded plain [] = (plain, [])"
| "finished_loop encoded plain (i # is) =
     (if encoded < li_encoded i then (plain, i\<lparr> li_encoded := li_encoded i - encoded \<rparr> # is)
      else finished_loop (encoded - li_encoded i) (plain + li_plain i) is)"

definition finished :: "int \<Rightarrow> layer_tracker \<Rightarrow> int \<times> layer_tracker" where
  "finished encoded t = (case finished_loop encoded 0 (lt_list t) of (plain, l) \<Rightarrow> (plain, t\<lparr> lt_list := l \<rparr>))"

section \<open>Conservation\<close>

definition plain_sum :: "layer_item list \<Rightarrow> int" where
  "plain_sum l = sum_list (map li_plain l)"

definition encoded_sum :: "layer_item list \<Rightarrow> int" where
  "encoded_sum l = sum_list (map li_encoded l)"

lemma sums_simps [simp]:
  "plain_sum [] = 0" "encoded_sum [] = 0"
  "plain_sum (i # l) = li_plain i + plain_sum l" "encoded_sum (i # l) = li_encoded i + encoded_sum l"
  "plain_sum (l @ l') = plain_sum l + plain_sum l'" "encoded_sum (l @ l') = encoded_sum l + encoded_sum l'"
  by (simp_all add: plain_sum_def encoded_sum_def)

lemma finished_loop_plain: "finished_loop encoded plain l = (r, l') \<Longrightarrow> r + plain_sum l' = plain + plain_sum l"
  by (induction encoded plain l arbitrary: r l' rule: finished_loop.induct) (auto split: if_splits)

lemma finished_loop_all:
  "\<forall>i \<in> set l. 0 \<le> li_encoded i \<Longrightarrow> encoded = encoded_sum l \<Longrightarrow> finished_loop encoded plain l = (plain + plain_sum l, [])"
proof (induction encoded plain l rule: finished_loop.induct)
  case (2 encoded plain i "is")
  moreover have "0 \<le> encoded_sum is" using 2(2) by (induction "is") auto
  ultimately show ?case by auto
qed simp

text \<open>Reports in pieces: what a first report leaves and a second one takes is what one report takes.\<close>

lemma finished_loop_split:
  assumes "\<forall>i \<in> set l. 0 < li_encoded i" and "0 \<le> a" and "0 \<le> b"
  shows "(case finished_loop a plain l of (r, l') \<Rightarrow> finished_loop b r l') = finished_loop (a + b) plain l"
  using assms by (induction a plain l rule: finished_loop.induct) (auto simp: algebra_simps split: prod.splits)

section \<open>Runs\<close>

text \<open>The tracker after any sequence of calls, with the bytes added and the bytes reported so far.\<close>

inductive layer_run :: "layer_tracker \<Rightarrow> int \<Rightarrow> int \<Rightarrow> bool" where
  fresh: "layer_run layer_reset 0 0"
| add: "layer_run t added reported \<Longrightarrow> 0 \<le> n \<Longrightarrow> layer_run (addPlain n t) (added + n) reported"
| specify: "layer_run t added reported \<Longrightarrow> 0 < e \<Longrightarrow> 0 \<le> n \<Longrightarrow> layer_run (specifyEncoded e n t) added reported"
| report: "layer_run t added reported \<Longrightarrow> 0 \<le> e \<Longrightarrow> finished e t = (n, t') \<Longrightarrow> layer_run t' added (reported + n)"

lemma finished_loop_items:
  "finished_loop e plain l = (r, l') \<Longrightarrow> 0 \<le> e \<Longrightarrow> \<forall>i \<in> set l. 0 < li_encoded i \<and> 0 \<le> li_plain i \<Longrightarrow>
   \<forall>i \<in> set l'. 0 < li_encoded i \<and> 0 \<le> li_plain i"
  by (induction e plain l rule: finished_loop.induct) (auto split: if_splits)

lemma layer_run_inv:
  "layer_run t added reported \<Longrightarrow> added = reported + lt_p t + plain_sum (lt_list t) \<and> 0 \<le> lt_p t \<and>
    (\<forall>i \<in> set (lt_list t). 0 < li_encoded i \<and> 0 \<le> li_plain i)"
proof (induction rule: layer_run.induct)
  case (report t added reported e n t')
  obtain l where l: "finished_loop e 0 (lt_list t) = (n, l)" "t' = t\<lparr> lt_list := l \<rparr>"
    using report.hyps by (auto simp: finished_def split: prod.splits)
  then show ?case using report.IH report.hyps finished_loop_plain [OF l(1)] finished_loop_items [OF l(1)] by simp
qed (auto simp: layer_reset_def addPlain_def specifyEncoded_def Let_def)

lemma plain_sum_nonneg: "\<forall>i \<in> set l. 0 \<le> li_plain i \<Longrightarrow> 0 \<le> plain_sum l"
  by (induction l) auto

text \<open>
  Accounting of written bytes.  After any sequence of calls with counts that are not negative,
  the application bytes reported never exceed the bytes added; what is not reported yet is
  either not encoded yet or in a record under way; and when the network has written all
  encoded bytes, exactly the bytes of the records under way are reported.  Reporting in two
  pieces reports the same as reporting at once.
\<close>

theorem layer_accounting:
  assumes "layer_run t added reported" and "0 \<le> a" and "0 \<le> b"
  shows "reported \<le> added \<and> added - reported = lt_p t + plain_sum (lt_list t) \<and>
    finished (encoded_sum (lt_list t)) t = (plain_sum (lt_list t), t\<lparr> lt_list := [] \<rparr>) \<and>
    (case finished a t of (m, t') \<Rightarrow> case finished b t' of (n, t'') \<Rightarrow> finished (a + b) t = (m + n, t''))"
proof -
  note inv = layer_run_inv [OF assms(1)]
  have shift: "finished_loop e (m + n) l = (case finished_loop e n l of (r, l') \<Rightarrow> (m + r, l'))" for e m n l
    by (induction e n l rule: finished_loop.induct) (auto simp: algebra_simps)
  obtain m l where ml: "finished_loop a 0 (lt_list t) = (m, l)" by fastforce
  have "finished_loop b m l = finished_loop (a + b) 0 (lt_list t)"
    using finished_loop_split [of "lt_list t" a b 0] inv assms(2,3) ml by auto
  then have "finished_loop (a + b) 0 (lt_list t) = (case finished_loop b 0 l of (n, l') \<Rightarrow> (m + n, l'))"
    using shift [of b m 0 l] by simp
  then have "case finished a t of (m, t') \<Rightarrow> case finished b t' of (n, t'') \<Rightarrow> finished (a + b) t = (m + n, t'')"
    using ml by (simp add: finished_def split: prod.splits)
  moreover have "finished_loop (encoded_sum (lt_list t)) 0 (lt_list t) = (0 + plain_sum (lt_list t), [])"
    by (rule finished_loop_all) (use inv in \<open>auto intro: less_imp_le\<close>)
  moreover have "0 \<le> plain_sum (lt_list t)" using inv plain_sum_nonneg by blast
  ultimately show ?thesis using inv by (simp add: finished_def)
qed

theorem layer_accounting_witness:
  "finished 7 (specifyEncoded 30 5 (addPlain 5 layer_reset)) =
     (0, \<lparr> lt_p = 0, lt_list = [\<lparr> li_plain = 5, li_encoded = 23 \<rparr>] \<rparr>) \<and>
   finished 30 (specifyEncoded 30 5 (addPlain 5 layer_reset)) = (5, \<lparr> lt_p = 0, lt_list = [] \<rparr>)"
proof -
  have "layer_run (specifyEncoded 30 5 (addPlain 5 layer_reset)) (0 + 5) 0" by (intro specify add fresh) simp_all
  from layer_accounting [OF this, of 7 23] show ?thesis
    by (simp add: specifyEncoded_def addPlain_def layer_reset_def finished_def)
qed

end
