(* ===== verification/TlsLayer.thy ===== *)
theory TlsLayer
  imports HostNames CertChain LayerTracker
begin

text \<open>
  The TLS front end (\<^verbatim>\<open>TLS::Private\<close> and \<^verbatim>\<open>TLS\<close> of \<^verbatim>\<open>src/src/qca_securelayer.cpp\<close>): the state machine between
  an application, the network and the context of a provider, which does the cryptography.

  \<^item> The context is a parameter: what it answers while a step runs is the record \<open>tls_env\<close> of
    that step, any value of it.  A list stands for the answers of successive calls.
  \<^item> What the object does to the outside is its log: the calls of the context and the signals,
    in order; the data exchanged with the application and the network are logged as well.
  \<^item> The context delivers its results later (the slot \<^verbatim>\<open>tls_resultsReady\<close>), as providers do, and the
    timer of the object fires later.  Every signal is the last thing a step does, so that what
    a receiver calls in response is a step of its own.
  \<^item> Keys, certificate collections and sessions are opaque numbers.
\<close>

named_theorems tls_defs \<open>definitions of the steps\<close>

section \<open>Data\<close>

datatype tls_mode = Stream | Datagram
datatype tls_state = Inactive | Initializing | Handshaking | Connected | Closing
datatype tls_op = OpStart | OpUpdate
datatype tls_action =
  ReadyRead | ReadyReadOutgoing | Handshaken | Close | CheckPeerCertificate | CertificateRequested | HostNameReceived
datatype reset_mode = ResetSession | ResetSessionAndData | ResetAll
datatype tls_error = ErrorSignerExpired | ErrorSignerInvalid | ErrorCertKeyMismatch | ErrorInit | ErrorHandshake | ErrorCrypt
datatype ctx_result = CtxSuccess | CtxError | CtxContinue
datatype identity_result = Valid | HostMismatch | InvalidCertificate | NoCertificate

datatype tls_signal =
  readyRead | readyReadOutgoing | handshaken | closed | error_signal | peerCertificateAvailable | certificateRequested | hostNameReceived

record session_info =
  si_details :: nat
  si_id :: "nat option"

datatype tls_event =
    CtxReset reset_mode
  | CtxSetup bool qstring bool
  | CtxConstraints int int
  | CtxCipherSuites "qstring list"
  | CtxCertificate "certificate list" nat
  | CtxTrusted nat
  | CtxSRTPProfiles "qstring list"
  | CtxIssuerList "info_pair list list"
  | CtxSessionId nat
  | CtxMTU int
  | CtxStart
  | CtxUpdate tls_state bytes bytes
  | CtxShutdown
  | CtxResults ctx_result
  | CtxToNet bytes
  | CtxToApp bytes
  | Emit tls_signal
  | AppWrite bytes
  | AppRead bytes
  | NetWrite bytes
  | NetRead bytes

record tls_env =
  e_result :: ctx_result
  e_to_net :: "bytes list"
  e_to_app :: "bytes list"
  e_clientHello :: bool
  e_serverHello :: bool
  e_hostName :: qstring
  e_certRequested :: bool
  e_sessionInfo :: session_info
  e_eof :: bool
  e_encoded :: int
  e_unprocessed :: bytes
  e_peerChain :: "certificate list"
  e_peerValidity :: validity
  e_issuerList :: "info_pair list list"

record tls =
  t_mode :: tls_mode
  connect_hostNameReceived :: bool
  connect_certificateRequested :: bool
  connect_peerCertificateAvailable :: bool
  connect_handshaken :: bool
  localCert :: "certificate list"
  localKey :: nat
  trusted :: nat
  con_ssfMode :: bool
  con_minSSF :: int
  con_maxSSF :: int
  con_cipherSuites :: "qstring list"
  srtpProfiles :: "qstring list"
  tryCompress :: bool
  packet_mtu :: int
  issuerList :: "info_pair list list"
  t_session :: "nat option"
  t_state :: tls_state
  blocked :: bool
  server :: bool
  t_host :: qstring
  sessionInfo :: session_info
  trigger :: bool
  t_op :: "tls_op option"
  actionQueue :: "tls_action list"
  need_update :: bool
  maybe_input :: bool
  emitted_hostNameReceived :: bool
  emitted_certificateRequested :: bool
  emitted_peerCertificateAvailable :: bool
  peerCert :: "certificate list"
  peerValidity :: validity
  hostMismatch :: bool
  errorCode :: "tls_error option"
  t_in :: bytes
  t_out :: bytes
  to_net :: bytes
  from_net :: bytes
  unprocessed :: bytes
  out_pending :: int
  to_net_encoded :: int
  t_layer :: layer_tracker
  packet_in :: "bytes list"
  packet_out :: "bytes list"
  packet_to_net :: "bytes list"
  packet_from_net :: "bytes list"
  packet_out_pending :: int
  packet_to_net_encoded :: "int list"
  t_log :: "tls_event list"

definition logs :: "tls_event list \<Rightarrow> tls \<Rightarrow> tls" where
  [tls_defs]: "logs evs s = s\<lparr> t_log := t_log s @ evs \<rparr>"

definition no_session :: session_info where
  "no_session = \<lparr> si_details = 0, si_id = None \<rparr>"

section \<open>TLS::Private\<close>

definition reset_data :: "tls \<Rightarrow> tls" where
  [tls_defs]: "reset_data s = s\<lparr> peerCert := [], peerValidity := ErrorValidityUnknown, hostMismatch := False, errorCode := None,
     t_in := [], to_net := [], from_net := [], unprocessed := [], to_net_encoded := 0, t_layer := layer_reset,
     packet_in := [], packet_to_net := [], packet_from_net := [], packet_to_net_encoded := [] \<rparr>"

definition reset_all :: "tls \<Rightarrow> tls" where
  [tls_defs]: "reset_all s = s\<lparr> localCert := [], localKey := 0, trusted := 0, con_ssfMode := True, con_minSSF := 128, con_maxSSF := -1,
     con_cipherSuites := [], srtpProfiles := [], tryCompress := False, packet_mtu := -1, issuerList := [], t_session := None \<rparr>"

definition reset_session :: "tls \<Rightarrow> tls" where
  [tls_defs]: "reset_session s = s\<lparr> issuerList := (if server s then issuerList s else []), t_state := Inactive, blocked := False,
     server := False, t_host := [], sessionInfo := no_session, trigger := False, t_op := None, actionQueue := [],
     need_update := False, maybe_input := False, emitted_hostNameReceived := False, emitted_certificateRequested := False,
     emitted_peerCertificateAvailable := False, t_out := [], out_pending := 0, packet_out := [], packet_out_pending := 0 \<rparr>"

text \<open>\<^verbatim>\<open>reset\<close> with a context; the constructor runs it before there is one.\<close>

definition reset_fields :: "reset_mode \<Rightarrow> tls \<Rightarrow> tls" where
  "reset_fields m s =
     (let s = reset_session s;
          s = (if m \<noteq> ResetSession then reset_data s else s)
      in if m = ResetAll then reset_all s else s)"

definition reset :: "reset_mode \<Rightarrow> tls \<Rightarrow> tls" where
  "reset m s = reset_fields m (logs [CtxReset m] s)"

definition new_tls :: "tls_mode \<Rightarrow> tls" where
  "new_tls mode = \<lparr>
     t_mode = mode, connect_hostNameReceived = False, connect_certificateRequested = False,
     connect_peerCertificateAvailable = False, connect_handshaken = False, localCert = [], localKey = 0, trusted = 0,
     con_ssfMode = True, con_minSSF = 128, con_maxSSF = -1, con_cipherSuites = [], srtpProfiles = [], tryCompress = False,
     packet_mtu = -1, issuerList = [], t_session = None, t_state = Inactive, blocked = False, server = False, t_host = [],
     sessionInfo = no_session, trigger = False, t_op = None, actionQueue = [], need_update = False, maybe_input = False,
     emitted_hostNameReceived = False, emitted_certificateRequested = False, emitted_peerCertificateAvailable = False,
     peerCert = [], peerValidity = ErrorValidityUnknown, hostMismatch = False, errorCode = None, t_in = [], t_out = [],
     to_net = [], from_net = [], unprocessed = [], out_pending = 0, to_net_encoded = 0, t_layer = layer_reset,
     packet_in = [], packet_out = [], packet_to_net = [], packet_from_net = [], packet_out_pending = 0,
     packet_to_net_encoded = [], t_log = [] \<rparr>"

definition tls_start :: "bool \<Rightarrow> tls \<Rightarrow> tls" where
  "tls_start serverMode s =
     (let s = s\<lparr> t_state := Initializing, server := serverMode \<rparr>;
          s = logs ([CtxSetup serverMode (t_host s) (tryCompress s),
                     if con_ssfMode s then CtxConstraints (con_minSSF s) (con_maxSSF s) else CtxCipherSuites (con_cipherSuites s),
                     CtxCertificate (localCert s) (localKey s), CtxTrusted (trusted s), CtxSRTPProfiles (srtpProfiles s)] @
                    (if serverMode then [CtxIssuerList (issuerList s)] else []) @
                    (case t_session s of Some sc \<Rightarrow> [CtxSessionId sc] | None \<Rightarrow> []) @
                    [CtxMTU (packet_mtu s)]) s
      in logs [CtxStart] (s\<lparr> t_op := Some OpStart \<rparr>))"

definition tls_close :: "tls \<Rightarrow> tls" where
  "tls_close s = (if t_state s \<noteq> Connected then s else logs [CtxShutdown] (s\<lparr> t_state := Closing \<rparr>))"

text \<open>The arguments for the context that \<^verbatim>\<open>update\<close> takes out of the buffers.\<close>

definition take_args :: "tls \<Rightarrow> (bytes \<times> bytes) \<times> tls" where
  "take_args s =
     (case t_mode s of
        Stream \<Rightarrow>
          if t_state s = Handshaking then ((from_net s, []), s\<lparr> from_net := [] \<rparr>)
          else
            let s' = s\<lparr> from_net := [] \<rparr>;
                s' = (if t_out s \<noteq> [] then s'\<lparr> out_pending := out_pending s + int (length (t_out s)), t_out := [] \<rparr> else s')
            in ((from_net s, t_out s), s')
      | Datagram \<Rightarrow>
          let (arg_net, s) = (case packet_from_net s of [] \<Rightarrow> ([], s) | p # ps \<Rightarrow> (p, s\<lparr> packet_from_net := ps \<rparr>)) in
          if t_state s = Handshaking then ((arg_net, []), s)
          else let (arg_app, s) = (case packet_out s of [] \<Rightarrow> ([], s)
                     | p # ps \<Rightarrow> (p, s\<lparr> packet_out := ps, packet_out_pending := packet_out_pending s + 1 \<rparr>))
               in ((arg_net, arg_app), s))"

definition tls_update :: "tls \<Rightarrow> tls" where
  "tls_update s =
     (if blocked s then s
      else if actionQueue s \<noteq> [] then s\<lparr> need_update := True \<rparr>
      else if t_op s \<noteq> None then s\<lparr> need_update := True \<rparr>
      else
        let s = s\<lparr> need_update := False \<rparr>;
            ((arg_from_net, arg_from_app), s) = take_args s
        in
        if arg_from_net = [] \<and> arg_from_app = [] \<and> \<not> maybe_input s then s
        else logs [CtxUpdate (t_state s) arg_from_net arg_from_app] (s\<lparr> maybe_input := False, t_op := Some OpUpdate \<rparr>))"

definition continueAfterStep :: "tls \<Rightarrow> tls" where
  "continueAfterStep s = (if \<not> blocked s then s else tls_update (s\<lparr> blocked := False \<rparr>))"

definition do_action :: "qt_text \<Rightarrow> tls_env \<Rightarrow> tls_action \<Rightarrow> tls \<Rightarrow> tls" where
  "do_action q e a s =
     (case a of
        ReadyRead \<Rightarrow> logs [Emit readyRead] s
      | ReadyReadOutgoing \<Rightarrow> logs [Emit readyReadOutgoing] s
      | Handshaken \<Rightarrow>
          let s = s\<lparr> t_state := Connected \<rparr>;
              s = (if t_out s \<noteq> [] then s\<lparr> need_update := True, trigger := True \<rparr> else s)
          in if connect_handshaken s then logs [Emit handshaken] (s\<lparr> blocked := True \<rparr>) else s
      | Close \<Rightarrow> logs [Emit closed] (reset ResetSession (s\<lparr> unprocessed := e_unprocessed e \<rparr>))
      | CheckPeerCertificate \<Rightarrow>
          let s = s\<lparr> peerCert := e_peerChain e \<rparr>;
              s = (case peerCert s of
                     [] \<Rightarrow> s
                   | c # _ \<Rightarrow>
                       let s = s\<lparr> peerValidity := e_peerValidity e \<rparr> in
                       if peerValidity s = ValidityGood \<and> t_host s \<noteq> [] \<and> matchesHostName q (ct_subject c) (t_host s) \<noteq> Some True
                       then s\<lparr> hostMismatch := True \<rparr> else s)
          in if connect_peerCertificateAvailable s
             then logs [Emit peerCertificateAvailable] (s\<lparr> blocked := True, emitted_peerCertificateAvailable := True \<rparr>)
             else s
      | CertificateRequested \<Rightarrow>
          let s = s\<lparr> issuerList := e_issuerList e \<rparr> in
          if connect_certificateRequested s
          then logs [Emit certificateRequested] (s\<lparr> blocked := True, emitted_certificateRequested := True \<rparr>)
          else s
      | HostNameReceived \<Rightarrow>
          let s = s\<lparr> emitted_hostNameReceived := True, maybe_input := True \<rparr> in
          if connect_hostNameReceived s then logs [Emit hostNameReceived] (s\<lparr> blocked := True \<rparr>)
          else s\<lparr> need_update := True, trigger := True \<rparr>)"

definition processNextAction :: "qt_text \<Rightarrow> tls_env \<Rightarrow> tls \<Rightarrow> tls" where
  "processNextAction q e s =
     (case actionQueue s of
        [] \<Rightarrow> if need_update s then tls_update s else s
      | a # as \<Rightarrow>
          let s = s\<lparr> actionQueue := as \<rparr>;
              s = (if as \<noteq> [] \<or> need_update s then s\<lparr> trigger := True \<rparr> else s)
          in do_action q e a s)"

definition start_finished :: "tls_env \<Rightarrow> tls \<Rightarrow> tls" where
  "start_finished e s =
     (if e_result e \<noteq> CtxSuccess then logs [Emit error_signal] ((reset ResetSession s)\<lparr> errorCode := Some ErrorInit \<rparr>)
      else tls_update (s\<lparr> t_state := Handshaking, maybe_input := True \<rparr>))"

definition first_answer :: "bytes list \<Rightarrow> bytes" where
  "first_answer xs = (case xs of [] \<Rightarrow> [] | x # _ \<Rightarrow> x)"

text \<open>What the context has for the network: the number of pieces, and the buffers with them.\<close>

definition take_to_net :: "tls_env \<Rightarrow> tls \<Rightarrow> nat \<times> tls" where
  "take_to_net e s =
     (case t_mode s of
        Stream \<Rightarrow> (let c_to_net = first_answer (e_to_net e) in
          if c_to_net \<noteq> [] then (1, logs [CtxToNet c_to_net] (s\<lparr> to_net := to_net s @ c_to_net \<rparr>)) else (0, s))
      | Datagram \<Rightarrow> (let ps = takeWhile (\<lambda>p. p \<noteq> []) (e_to_net e) in
          (length ps, logs (map CtxToNet ps) (s\<lparr> packet_to_net := packet_to_net s @ ps \<rparr>))))"

definition take_to_app :: "tls_env \<Rightarrow> tls \<Rightarrow> bool \<times> tls" where
  "take_to_app e s =
     (case t_mode s of
        Stream \<Rightarrow> (let c_to_app = first_answer (e_to_app e) in
          if c_to_app \<noteq> [] then (True, logs [CtxToApp c_to_app] (s\<lparr> t_in := t_in s @ c_to_app \<rparr>)) else (False, s))
      | Datagram \<Rightarrow> (let ps = takeWhile (\<lambda>p. p \<noteq> []) (e_to_app e) in
          (ps \<noteq> [], logs (map CtxToApp ps) (s\<lparr> packet_in := packet_in s @ ps \<rparr>))))"

definition push :: "bool \<Rightarrow> tls_action \<Rightarrow> tls \<Rightarrow> tls" where
  [tls_defs]: "push b a s = (if b then s\<lparr> actionQueue := actionQueue s @ [a] \<rparr> else s)"

text \<open>The actions of a handshake step.\<close>

definition handshake_results :: "tls_env \<Rightarrow> tls \<Rightarrow> tls" where
  "handshake_results e s =
     (let clientHello = server s \<and> e_clientHello e;
          serverHello = \<not> server s \<and> e_serverHello e;
          s = (if \<not> emitted_hostNameReceived s \<and> clientHello
               then push (e_hostName e \<noteq> []) HostNameReceived (s\<lparr> t_host := e_hostName e \<rparr>) else s);
          s = push (\<not> emitted_peerCertificateAvailable s \<and> (e_result e = CtxSuccess \<or> (\<not> server s \<and> serverHello))) CheckPeerCertificate s;
          s = push (\<not> emitted_certificateRequested s \<and> serverHello \<and> e_certRequested e) CertificateRequested s
      in if e_result e = CtxSuccess then
           push True Handshaken (s\<lparr> sessionInfo := e_sessionInfo e,
             t_session := (case si_id (e_sessionInfo e) of None \<Rightarrow> t_session s | Some i \<Rightarrow> Some i) \<rparr>)
         else if e_result e = CtxContinue \<and> t_mode s = Datagram \<and> packet_from_net s \<noteq> [] then s\<lparr> need_update := True \<rparr>
         else s)"

text \<open>
  Accounting of a connected step; \<open>pieces\<close> is how many went to the network.  The count of application
  bytes in them is \<open>-1\<close> when there are none.
\<close>

definition account :: "tls_env \<Rightarrow> nat \<Rightarrow> tls \<Rightarrow> bool \<times> tls" where
  "account e pieces s =
     (let has_to_net = (0 < pieces);
          enc = (if has_to_net then e_encoded e else -1)
      in case t_mode s of
        Stream \<Rightarrow>
          let s = (if has_to_net then s\<lparr> out_pending := out_pending s - enc \<rparr> else s);
              s' = (if 0 < out_pending s then s\<lparr> maybe_input := True \<rparr> else s);
              io_pending = (0 < out_pending s \<or> t_out s \<noteq> [])
          in (io_pending, s'\<lparr> to_net_encoded := to_net_encoded s' + enc \<rparr>)
      | Datagram \<Rightarrow>
          let s = (if has_to_net then s\<lparr> packet_out_pending := max 0 (packet_out_pending s - int pieces) \<rparr> else s);
              s' = (if 0 < packet_out_pending s then s\<lparr> maybe_input := True \<rparr> else s)
          in (0 < packet_out_pending s \<or> packet_out s \<noteq> [] \<or> packet_from_net s \<noteq> [], s'))"

definition connected_results :: "tls_env \<Rightarrow> nat \<Rightarrow> tls \<Rightarrow> tls" where
  "connected_results e pieces s =
     (let (has_to_app, s) = take_to_app e s;
          s = push has_to_app ReadyRead s;
          (io_pending, s) = account e pieces s;
          s = (if e_eof e then (tls_close s)\<lparr> maybe_input := True \<rparr> else s)
      in if e_eof e \<or> io_pending then tls_update s else s)"

definition update_finished :: "qt_text \<Rightarrow> tls_env \<Rightarrow> tls \<Rightarrow> tls" where
  "update_finished q e s =
     (if e_result e = CtxError then
        (let code = (if t_state s = Handshaking \<or> t_state s = Closing then ErrorHandshake else ErrorCrypt)
         in logs [Emit error_signal] ((reset ResetSession s)\<lparr> errorCode := Some code \<rparr>))
      else
        let (pieces, s) = take_to_net e s;
            s = push (0 < pieces) ReadyReadOutgoing s
        in case t_state s of
          Closing \<Rightarrow> processNextAction q e (push (e_result e = CtxSuccess) Close s)
        | Handshaking \<Rightarrow> processNextAction q e (handshake_results e s)
        | _ \<Rightarrow> processNextAction q e (connected_results e pieces s))"

definition tls_resultsReady :: "qt_text \<Rightarrow> tls_env \<Rightarrow> tls \<Rightarrow> tls" where
  "tls_resultsReady q e s =
     (let last_op = t_op s; s = logs [CtxResults (e_result e)] (s\<lparr> t_op := None \<rparr>) in
      if last_op = Some OpStart then start_finished e s else update_finished q e s)"

definition tls_dtlsTimeout :: "tls \<Rightarrow> tls" where
  "tls_dtlsTimeout s = tls_update (s\<lparr> maybe_input := True \<rparr>)"

definition doNextAction :: "qt_text \<Rightarrow> tls_env \<Rightarrow> tls \<Rightarrow> tls" where
  "doNextAction q e s = processNextAction q e (s\<lparr> trigger := False \<rparr>)"

section \<open>TLS\<close>

definition startClient :: "qstring \<Rightarrow> tls \<Rightarrow> tls" where
  "startClient host s = tls_start False ((reset ResetSessionAndData s)\<lparr> t_host := host, issuerList := [] \<rparr>)"

definition startServer :: "tls \<Rightarrow> tls" where
  "startServer s = tls_start True (reset ResetSessionAndData s)"

definition api_close :: "tls \<Rightarrow> tls" where
  "api_close s = tls_update (tls_close s)"

definition api_write :: "bytes \<Rightarrow> tls \<Rightarrow> tls" where
  "api_write a s =
     (let s = logs [AppWrite a] s in
      tls_update (case t_mode s of
        Stream \<Rightarrow> s\<lparr> t_out := t_out s @ a, t_layer := addPlain (int (length a)) (t_layer s) \<rparr>
      | Datagram \<Rightarrow> s\<lparr> packet_out := packet_out s @ [a] \<rparr>))"

definition api_read :: "tls \<Rightarrow> bytes \<times> tls" where
  "api_read s =
     (case t_mode s of
        Stream \<Rightarrow> (t_in s, logs [AppRead (t_in s)] (s\<lparr> t_in := [] \<rparr>))
      | Datagram \<Rightarrow> (case packet_in s of [] \<Rightarrow> ([], s) | p # ps \<Rightarrow> (p, logs [AppRead p] (s\<lparr> packet_in := ps \<rparr>))))"

definition api_writeIncoming :: "bytes \<Rightarrow> tls \<Rightarrow> tls" where
  "api_writeIncoming a s =
     (let s = logs [NetWrite a] s in
      tls_update (case t_mode s of
        Stream \<Rightarrow> s\<lparr> from_net := from_net s @ a \<rparr>
      | Datagram \<Rightarrow> s\<lparr> packet_from_net := packet_from_net s @ [a] \<rparr>))"

text \<open>The second result is what is stored through \<^verbatim>\<open>plainBytes\<close>, if anything.\<close>

definition readOutgoing :: "tls \<Rightarrow> bytes \<times> int option \<times> tls" where
  "readOutgoing s =
     (case t_mode s of
        Stream \<Rightarrow>
          (to_net s, Some (to_net_encoded s),
           logs [NetRead (to_net s)] (s\<lparr> to_net := [], to_net_encoded := 0,
             t_layer := specifyEncoded (int (length (to_net s))) (to_net_encoded s) (t_layer s) \<rparr>))
      | Datagram \<Rightarrow>
          (case packet_to_net s of
             [] \<Rightarrow> ([], Some 0, s)
           | p # ps \<Rightarrow>
               let s = logs [NetRead p] (s\<lparr> packet_to_net := ps \<rparr>) in
               (case packet_to_net_encoded s of
                  [] \<Rightarrow> (p, None, s)
                | x # xs \<Rightarrow> (p, Some x, s\<lparr> packet_to_net_encoded := xs \<rparr>))))"

definition readUnprocessed :: "tls \<Rightarrow> bytes \<times> tls" where
  "readUnprocessed s = (case t_mode s of Stream \<Rightarrow> (unprocessed s, s\<lparr> unprocessed := [] \<rparr>) | Datagram \<Rightarrow> ([], s))"

definition convertBytesWritten :: "int \<Rightarrow> tls \<Rightarrow> int \<times> tls" where
  "convertBytesWritten n s = (case finished n (t_layer s) of (r, l) \<Rightarrow> (r, s\<lparr> t_layer := l \<rparr>))"

text \<open>A setting is stored, and passed on when the session is active.\<close>

definition pass_on :: "tls_event \<Rightarrow> tls \<Rightarrow> tls" where
  [tls_defs]: "pass_on ev s = (if t_state s \<noteq> Inactive then logs [ev] s else s)"

definition setCertificate :: "certificate list \<Rightarrow> nat \<Rightarrow> tls \<Rightarrow> tls" where
  "setCertificate cert key s = pass_on (CtxCertificate cert key) (s\<lparr> localCert := cert, localKey := key \<rparr>)"

definition setTrustedCertificates :: "nat \<Rightarrow> tls \<Rightarrow> tls" where
  "setTrustedCertificates t s = pass_on (CtxTrusted t) (s\<lparr> trusted := t \<rparr>)"

datatype security_level = SL_None | SL_Integrity | SL_Export | SL_Baseline | SL_High | SL_Highest

definition level_min :: "int \<Rightarrow> security_level \<Rightarrow> int" where
  "level_min maxSSF l =
     (case l of SL_None \<Rightarrow> 0 | SL_Integrity \<Rightarrow> 1 | SL_Export \<Rightarrow> 40 | SL_Baseline \<Rightarrow> 128 | SL_High \<Rightarrow> 129 | SL_Highest \<Rightarrow> max 129 maxSSF)"

definition setConstraints_ssf :: "int \<Rightarrow> int \<Rightarrow> tls \<Rightarrow> tls" where
  "setConstraints_ssf lo hi s = pass_on (CtxConstraints lo hi) (s\<lparr> con_ssfMode := True, con_minSSF := lo, con_maxSSF := hi \<rparr>)"

definition setConstraints_level :: "int \<Rightarrow> security_level \<Rightarrow> tls \<Rightarrow> tls" where
  "setConstraints_level maxSSF l s = setConstraints_ssf (level_min maxSSF l) (-1) s"

definition setConstraints_suites :: "qstring list \<Rightarrow> tls \<Rightarrow> tls" where
  "setConstraints_suites l s = pass_on (CtxCipherSuites l) (s\<lparr> con_ssfMode := False, con_cipherSuites := l \<rparr>)"

definition setIssuerList :: "info_pair list list \<Rightarrow> tls \<Rightarrow> tls" where
  "setIssuerList l s = pass_on (CtxIssuerList l) (s\<lparr> issuerList := l \<rparr>)"

definition setPacketMTU :: "int \<Rightarrow> tls \<Rightarrow> tls" where
  "setPacketMTU n s = pass_on (CtxMTU n) (s\<lparr> packet_mtu := n \<rparr>)"

fun normalized_profiles :: "qstring list \<Rightarrow> qstring list \<Rightarrow> qstring list \<Rightarrow> qstring list option" where
  "normalized_profiles supported [] acc = Some acc"
| "normalized_profiles supported (p # ps) acc =
     (if p = [] \<or> p \<notin> set supported then None
      else normalized_profiles supported ps (if p \<in> set acc then acc else acc @ [p]))"

definition setSRTPProfiles :: "qstring list \<Rightarrow> qstring list \<Rightarrow> tls \<Rightarrow> bool \<times> tls" where
  "setSRTPProfiles supported profiles s =
     (if t_mode s \<noteq> Datagram \<or> t_state s \<noteq> Inactive then (False, s)
      else case normalized_profiles supported profiles [] of
        None \<Rightarrow> (False, s) | Some l \<Rightarrow> (True, s\<lparr> srtpProfiles := l \<rparr>))"

definition connectNotify :: "tls_signal \<Rightarrow> bool \<Rightarrow> tls \<Rightarrow> tls" where
  "connectNotify sig b s =
     (case sig of
        hostNameReceived \<Rightarrow> s\<lparr> connect_hostNameReceived := b \<rparr>
      | certificateRequested \<Rightarrow> s\<lparr> connect_certificateRequested := b \<rparr>
      | peerCertificateAvailable \<Rightarrow> s\<lparr> connect_peerCertificateAvailable := b \<rparr>
      | handshaken \<Rightarrow> s\<lparr> connect_handshaken := b \<rparr>
      | _ \<Rightarrow> s)"

definition isHandshaken :: "tls \<Rightarrow> bool" where
  "isHandshaken s \<longleftrightarrow> t_state s = Connected \<or> t_state s = Closing"

definition peerIdentityResult :: "tls \<Rightarrow> identity_result" where
  "peerIdentityResult s =
     (if peerCert s = [] then NoCertificate
      else if peerValidity s \<noteq> ValidityGood then InvalidCertificate
      else if hostMismatch s then HostMismatch
      else Valid)"

section \<open>Runs\<close>

text \<open>
  What can happen to the object: the calls of the application, the results of the context (only
  while an operation is under way), the timer (only when it is active) and the context's timeout.
\<close>

datatype tls_input =
    InReset | InStartClient qstring | InStartServer | InContinue | InClose | InWrite bytes | InRead | InWriteIncoming bytes
  | InReadOutgoing | InReadUnprocessed | InBytesWritten int | InCertificate "certificate list" nat | InTrusted nat
  | InSSF int int | InLevel int security_level | InSuites "qstring list" | InIssuers "info_pair list list" | InMTU int
  | InSRTP "qstring list" "qstring list" | InSession "nat option" | InCompression bool | InConnect tls_signal bool
  | InResults tls_env | InTimer tls_env | InDtlsTimeout

fun tls_step :: "qt_text \<Rightarrow> tls_input \<Rightarrow> tls \<Rightarrow> tls" where
  "tls_step q InReset s = reset ResetAll s"
| "tls_step q (InStartClient h) s = startClient h s"
| "tls_step q InStartServer s = startServer s"
| "tls_step q InContinue s = continueAfterStep s"
| "tls_step q InClose s = api_close s"
| "tls_step q (InWrite a) s = api_write a s"
| "tls_step q InRead s = snd (api_read s)"
| "tls_step q (InWriteIncoming a) s = api_writeIncoming a s"
| "tls_step q InReadOutgoing s = snd (snd (readOutgoing s))"
| "tls_step q InReadUnprocessed s = snd (readUnprocessed s)"
| "tls_step q (InBytesWritten n) s = snd (convertBytesWritten n s)"
| "tls_step q (InCertificate c k) s = setCertificate c k s"
| "tls_step q (InTrusted t) s = setTrustedCertificates t s"
| "tls_step q (InSSF lo hi) s = setConstraints_ssf lo hi s"
| "tls_step q (InLevel mx l) s = setConstraints_level mx l s"
| "tls_step q (InSuites l) s = setConstraints_suites l s"
| "tls_step q (InIssuers l) s = setIssuerList l s"
| "tls_step q (InMTU n) s = setPacketMTU n s"
| "tls_step q (InSRTP av l) s = snd (setSRTPProfiles av l s)"
| "tls_step q (InSession i) s = s\<lparr> t_session := i \<rparr>"
| "tls_step q (InCompression b) s = s\<lparr> tryCompress := b \<rparr>"
| "tls_step q (InConnect sig b) s = connectNotify sig b s"
| "tls_step q (InResults e) s = tls_resultsReady q e s"
| "tls_step q (InTimer e) s = doNextAction q e s"
| "tls_step q InDtlsTimeout s = tls_dtlsTimeout s"

definition possible :: "tls_input \<Rightarrow> tls \<Rightarrow> bool" where
  "possible i s =
     (case i of InResults _ \<Rightarrow> t_op s \<noteq> None | InTimer _ \<Rightarrow> trigger s | _ \<Rightarrow> True)"

inductive tls_reach :: "qt_text \<Rightarrow> tls_mode \<Rightarrow> tls \<Rightarrow> bool" for q :: qt_text and mode :: tls_mode where
  created: "tls_reach q mode (new_tls mode)"
| happens: "tls_reach q mode s \<Longrightarrow> possible i s \<Longrightarrow> tls_reach q mode (tls_step q i s)"

end
