(* ===== verification/TlsRun.thy ===== *)
theory TlsRun
  imports TlsLayer
begin

text \<open>
  What holds in every state a TLS object can reach, however calls, results and timers interleave:
  the context is used as it must be, no application data go into an update between the start of a
  session and the success of its handshake (without a session they do),
  a stream loses, repeats and reorders nothing, and an identity is reported as valid only for
  a certificate that covers the host.
\<close>

section \<open>The log\<close>

text \<open>One operation of the context at a time: \<open>Some b\<close> while the rule is kept, \<open>b\<close> if one is under way.\<close>

fun proto :: "bool option \<Rightarrow> tls_event \<Rightarrow> bool option" where
  "proto None ev = None"
| "proto (Some b) CtxStart = (if b then None else Some True)"
| "proto (Some b) (CtxUpdate st net app) = (if b then None else Some True)"
| "proto (Some b) (CtxResults r) = (if b then Some False else None)"
| "proto (Some b) (CtxReset m) = Some False"
| "proto (Some b) ev = Some b"

definition protocol :: "tls_event list \<Rightarrow> bool option" where
  "protocol l = foldl proto (Some False) l"

lemma protocol_simps [simp]: "protocol [] = Some False" "protocol (l @ es) = foldl proto (protocol l) es"
  by (simp_all add: protocol_def)

text \<open>Application data that the context got while the session was being set up.\<close>

definition early_data :: "tls_event \<Rightarrow> bool" where
  "early_data ev = (case ev of CtxUpdate st net app \<Rightarrow> app \<noteq> [] \<and> st \<in> {Initializing, Handshaking} | _ \<Rightarrow> False)"

text \<open>
  How far the session has come, read off the log alone: no session since the last reset, start
  requested, handshake under way (the context reported that the start succeeded), handshake
  complete (it reported success again).  \<open>None\<close> when application data go into an update between
  the request to start and the success of the handshake.
\<close>

datatype phase = NoSession | StartAsked | HandshakeOpen | HandshakeDone

fun phase_step :: "phase option \<Rightarrow> tls_event \<Rightarrow> phase option" where
  "phase_step None ev = None"
| "phase_step (Some p) (CtxReset m) = Some NoSession"
| "phase_step (Some p) CtxStart = Some StartAsked"
| "phase_step (Some p) (CtxResults r) =
     Some (if r = CtxSuccess then (case p of StartAsked \<Rightarrow> HandshakeOpen | HandshakeOpen \<Rightarrow> HandshakeDone | _ \<Rightarrow> p) else p)"
| "phase_step (Some p) (CtxUpdate st net app) =
     (if app \<noteq> [] \<and> (p = StartAsked \<or> p = HandshakeOpen) then None else Some p)"
| "phase_step (Some p) ev = Some p"

definition phase_of :: "tls_event list \<Rightarrow> phase option" where
  "phase_of l = foldl phase_step (Some NoSession) l"

lemma phase_simps [simp]: "phase_of [] = Some NoSession" "phase_of (l @ es) = foldl phase_step (phase_of l) es"
  by (simp_all add: phase_of_def)

text \<open>The phase that the state of the object stands for.\<close>

fun phase_in :: "tls_state \<Rightarrow> phase \<Rightarrow> bool" where
  "phase_in Inactive p = (p = NoSession)"
| "phase_in Initializing p = (p = StartAsked)"
| "phase_in Handshaking p = (p = HandshakeOpen \<or> p = HandshakeDone)"
| "phase_in _ p = (p = HandshakeDone)"

lemma phase_in_iff [simp]:
  "phase_in st NoSession \<longleftrightarrow> st = Inactive" "phase_in st StartAsked \<longleftrightarrow> st = Initializing"
  "phase_in st HandshakeOpen \<longleftrightarrow> st = Handshaking" "phase_in st HandshakeDone \<longleftrightarrow> st \<noteq> Inactive \<and> st \<noteq> Initializing"
  by (cases st; simp)+

definition phase_ok :: "tls \<Rightarrow> bool" where
  "phase_ok s \<longleftrightarrow> (\<exists>p. phase_of (t_log s) = Some p \<and> phase_in (t_state s) p \<and>
     (Handshaken \<in> set (actionQueue s) \<longrightarrow> p = HandshakeDone))"

definition inv_protocol :: "tls \<Rightarrow> bool" where
  "inv_protocol s \<longleftrightarrow>
     protocol (t_log s) = Some (t_op s \<noteq> None) \<and> (\<forall>ev \<in> set (t_log s). \<not> early_data ev) \<and> phase_ok s \<and>
     (t_op s = Some OpStart \<longleftrightarrow> t_state s = Initializing) \<and> (t_state s = Initializing \<longrightarrow> actionQueue s = [])"

lemma take_args_fields:
  "take_args s = ((net, app), s') \<Longrightarrow>
   t_log s' = t_log s \<and> t_op s' = t_op s \<and> t_state s' = t_state s \<and> actionQueue s' = actionQueue s \<and> t_mode s' = t_mode s \<and>
   (t_state s = Handshaking \<longrightarrow> app = []) \<and> maybe_input s' = maybe_input s"
  by (auto simp: take_args_def Let_def split: tls_mode.splits list.splits if_splits)

text \<open>\<open>update\<close> either leaves the log alone or starts an operation with what it took from the buffers.\<close>

lemma tls_update_cases [case_names idle none call]:
  assumes idle: "\<And>n. tls_update s = s\<lparr> need_update := n \<rparr> \<Longrightarrow> P"
    and none: "\<And>s'. blocked s = False \<Longrightarrow> take_args (s\<lparr> need_update := False \<rparr>) = (([], []), s') \<Longrightarrow> tls_update s = s' \<Longrightarrow> P"
    and call: "\<And>net app s'. blocked s = False \<Longrightarrow> actionQueue s = [] \<Longrightarrow> t_op s = None \<Longrightarrow>
      take_args (s\<lparr> need_update := False \<rparr>) = ((net, app), s') \<Longrightarrow>
      tls_update s = logs [CtxUpdate (t_state s) net app] (s'\<lparr> maybe_input := False, t_op := Some OpUpdate \<rparr>) \<Longrightarrow> P"
  shows P
proof (cases "blocked s \<or> actionQueue s \<noteq> [] \<or> t_op s \<noteq> None")
  case True
  then have "tls_update s = s\<lparr> need_update := need_update s \<rparr> \<or> tls_update s = s\<lparr> need_update := True \<rparr>"
    by (auto simp: tls_update_def)
  then show P using idle by blast
next
  case False
  obtain net app s' where t: "take_args (s\<lparr> need_update := False \<rparr>) = ((net, app), s')" by (metis prod.collapse)
  have st: "t_state s' = t_state s" using take_args_fields [OF t] by simp
  show P
  proof (cases "net = [] \<and> app = [] \<and> \<not> maybe_input s'")
    case True
    then show P using none [of s'] False t by (simp add: tls_update_def)
  next
    case ne: False
    show P using call [of net app s'] False t ne st by (simp add: tls_update_def)
  qed
qed

lemma inv_update: "inv_protocol s \<Longrightarrow> inv_protocol (tls_update s)"
proof (cases s rule: tls_update_cases)
  case (none s')
  then show "inv_protocol s \<Longrightarrow> ?thesis" using take_args_fields [OF none(2)] by (simp add: inv_protocol_def phase_ok_def)
next
  case (call net app s')
  then show "inv_protocol s \<Longrightarrow> ?thesis"
    using take_args_fields [OF call(4)] by (auto simp: inv_protocol_def phase_ok_def early_data_def logs_def)
qed (simp add: inv_protocol_def phase_ok_def)

definition log_ok :: "tls \<Rightarrow> bool" where
  "log_ok s \<longleftrightarrow> protocol (t_log s) = Some (t_op s \<noteq> None) \<and> (\<forall>ev \<in> set (t_log s). \<not> early_data ev) \<and>
     phase_of (t_log s) \<noteq> None"

lemma inv_log_ok: "inv_protocol s \<Longrightarrow> log_ok s"
  by (auto simp: inv_protocol_def phase_ok_def log_ok_def)

lemmas reset_defs = reset_def reset_fields_def reset_session_def reset_data_def reset_all_def logs_def

lemma inv_reset: "log_ok s \<Longrightarrow> inv_protocol (reset m s)"
  by (auto simp: log_ok_def inv_protocol_def phase_ok_def reset_defs early_data_def Let_def)

lemma reset_fields_simps [simp]:
  "t_state (reset m s) = Inactive" "t_op (reset m s) = None" "actionQueue (reset m s) = []" "t_mode (reset m s) = t_mode s"
  "t_log (reset m s) = t_log s @ [CtxReset m]"
  by (simp_all add: reset_defs Let_def)

lemma inv_start: "inv_protocol s \<Longrightarrow> t_op s = None \<Longrightarrow> actionQueue s = [] \<Longrightarrow> inv_protocol (tls_start b s)"
  by (auto simp: inv_protocol_def phase_ok_def tls_start_def logs_def early_data_def Let_def split: option.splits)

lemma inv_close: "inv_protocol s \<Longrightarrow> inv_protocol (tls_close s)"
  by (auto simp: inv_protocol_def phase_ok_def tls_close_def logs_def early_data_def)

lemma inv_action:
  assumes "inv_protocol s" and "t_state s \<noteq> Initializing"
    and "a = Handshaken \<Longrightarrow> phase_of (t_log s) = Some HandshakeDone"
  shows "inv_protocol (do_action q e a s)"
proof (cases a)
  case Close
  have "log_ok (s\<lparr> unprocessed := e_unprocessed e \<rparr>)" using inv_log_ok [OF assms(1)] by (simp add: log_ok_def)
  from inv_reset [OF this, of ResetSession] show ?thesis
    using Close by (auto simp: do_action_def inv_protocol_def phase_ok_def logs_def early_data_def)
qed (use assms in \<open>auto simp: do_action_def inv_protocol_def phase_ok_def logs_def early_data_def Let_def split: list.splits\<close>)

lemma inv_process: "inv_protocol s \<Longrightarrow> inv_protocol (processNextAction q e s)"
proof (cases "actionQueue s")
  case Nil
  then show "inv_protocol s \<Longrightarrow> ?thesis" by (simp add: processNextAction_def inv_update)
next
  case (Cons a as)
  assume "inv_protocol s"
  then have "t_state s \<noteq> Initializing" "inv_protocol (s\<lparr> actionQueue := as \<rparr>)" "inv_protocol (s\<lparr> actionQueue := as, trigger := True \<rparr>)"
    "a = Handshaken \<Longrightarrow> phase_of (t_log s) = Some HandshakeDone"
    using Cons by (auto simp: inv_protocol_def phase_ok_def)
  then show ?thesis using Cons by (auto simp: processNextAction_def Let_def intro!: inv_action)
qed

lemma inv_start_finished:
  assumes "log_ok s" and "t_op s = None" and "actionQueue s = []"
    and "e_result e = CtxSuccess \<Longrightarrow> phase_of (t_log s) = Some HandshakeOpen"
  shows "inv_protocol (start_finished e s)"
proof (cases "e_result e = CtxSuccess")
  case True
  have "inv_protocol (s\<lparr> t_state := Handshaking, maybe_input := True \<rparr>)"
    using assms True by (simp add: inv_protocol_def phase_ok_def log_ok_def)
  then show ?thesis using True by (simp add: start_finished_def inv_update)
next
  case False
  then show ?thesis using inv_reset [OF assms(1), of ResetSession]
    by (auto simp: start_finished_def inv_protocol_def phase_ok_def logs_def early_data_def)
qed

text \<open>Fields that the steps of \<open>update_finished\<close> before the actions do not touch.\<close>

lemma take_to_net_fields:
  "take_to_net e s = (n, s') \<Longrightarrow> t_op s' = t_op s \<and> t_state s' = t_state s \<and> actionQueue s' = actionQueue s \<and> t_mode s' = t_mode s \<and>
   (\<exists>ps. t_log s' = t_log s @ map CtxToNet ps)"
  by (auto simp: take_to_net_def logs_def Let_def split: tls_mode.splits if_splits intro: exI [of _ "[_]"] exI [of _ "[]"])

lemma take_to_app_fields:
  "take_to_app e s = (b, s') \<Longrightarrow> t_op s' = t_op s \<and> t_state s' = t_state s \<and> actionQueue s' = actionQueue s \<and> t_mode s' = t_mode s \<and>
   (\<exists>ps. t_log s' = t_log s @ map CtxToApp ps)"
  by (auto simp: take_to_app_def logs_def Let_def split: tls_mode.splits if_splits intro: exI [of _ "[_]"] exI [of _ "[]"])

lemma account_fields:
  "account e n s = (b, s') \<Longrightarrow> t_op s' = t_op s \<and> t_state s' = t_state s \<and> actionQueue s' = actionQueue s \<and> t_mode s' = t_mode s \<and>
   t_log s' = t_log s \<and> t_in s' = t_in s \<and> t_out s' = t_out s \<and> to_net s' = to_net s \<and> from_net s' = from_net s"
  by (auto simp: account_def Let_def split: tls_mode.splits if_splits)

text \<open>Events that neither start nor end an operation.\<close>

definition quiet :: "tls_event \<Rightarrow> bool" where
  "quiet ev = (case ev of CtxStart \<Rightarrow> False | CtxUpdate _ _ _ \<Rightarrow> False | CtxResults _ \<Rightarrow> False | CtxReset _ \<Rightarrow> False | _ \<Rightarrow> True)"

lemma quiet_proto: "quiet ev \<Longrightarrow> proto (Some b) ev = Some b \<and> phase_step (Some p) ev = Some p \<and> \<not> early_data ev"
  by (cases ev) (auto simp: quiet_def early_data_def)

lemma quiet_protos:
  "\<forall>ev \<in> set evs. quiet ev \<Longrightarrow> foldl proto (Some b) evs = Some b \<and> foldl phase_step (Some p) evs = Some p"
  by (induction evs) (auto simp: quiet_proto)

lemma quiet_maps [simp]: "quiet (CtxToNet x)" "quiet (CtxToApp x)" "quiet (AppWrite x)" "quiet (NetWrite x)" "quiet (AppRead x)"
  "quiet (NetRead x)" "quiet (Emit sig)" "quiet CtxShutdown" "quiet (CtxCertificate c k)" "quiet (CtxTrusted t)"
  "quiet (CtxConstraints lo hi)" "quiet (CtxCipherSuites l)" "quiet (CtxIssuerList il)" "quiet (CtxMTU n)"
  by (simp_all add: quiet_def)

lemma inv_frame:
  assumes "inv_protocol s" and "t_op s' = t_op s" and "t_state s' = t_state s" and "t_state s' = Initializing \<longrightarrow> actionQueue s' = []"
    and "t_log s' = t_log s @ evs" and "\<forall>ev \<in> set evs. quiet ev"
    and "Handshaken \<in> set (actionQueue s') \<Longrightarrow> Handshaken \<in> set (actionQueue s) \<or> phase_of (t_log s) = Some HandshakeDone"
  shows "inv_protocol s'"
  using assms quiet_protos [OF assms(6)] by (auto simp: inv_protocol_def phase_ok_def dest: quiet_proto)

lemma inv_same:
  assumes "inv_protocol s" and "t_op s' = t_op s" and "t_state s' = t_state s" and "actionQueue s' = actionQueue s" and "t_log s' = t_log s"
  shows "inv_protocol s'"
  using assms by (simp add: inv_protocol_def phase_ok_def)

lemma inv_connected:
  assumes "inv_protocol s" and "t_state s \<noteq> Initializing"
  shows "inv_protocol (connected_results e n s)"
proof -
  obtain b s1 where 1: "take_to_app e s = (b, s1)" by fastforce
  obtain io s2 where 2: "account e n (push b ReadyRead s1) = (io, s2)" by fastforce
  obtain ps where l: "t_log s1 = t_log s @ map CtxToApp ps" using take_to_app_fields [OF 1] by blast
  have s2: "inv_protocol s2"
    by (rule inv_frame [of s s2 "map CtxToApp ps"])
      (use take_to_app_fields [OF 1] account_fields [OF 2] l assms in \<open>auto simp: push_def split: if_splits\<close>)
  then have "inv_protocol ((tls_close s2)\<lparr> maybe_input := True \<rparr>)" using inv_close [OF s2] by (simp add: inv_protocol_def phase_ok_def)
  then show ?thesis using s2 1 2 by (simp add: connected_results_def inv_update)
qed

lemma inv_update_finished:
  assumes inv: "inv_protocol s" and st: "t_state s \<noteq> Initializing"
    and ready: "t_state s = Handshaking \<Longrightarrow> e_result e = CtxSuccess \<Longrightarrow> phase_of (t_log s) = Some HandshakeDone"
  shows "inv_protocol (update_finished q e s)"
proof (cases "e_result e = CtxError")
  case True
  have "inv_protocol (logs [Emit error_signal] ((reset ResetSession s)\<lparr> errorCode := c \<rparr>))" for c
    using inv_reset [OF inv_log_ok [OF inv], of ResetSession] by (auto simp: inv_protocol_def phase_ok_def logs_def early_data_def)
  then show ?thesis using True by (simp add: update_finished_def Let_def)
next
  case False
  obtain n s1 where 1: "take_to_net e s = (n, s1)" by fastforce
  obtain ps where l: "t_log s1 = t_log s @ map CtxToNet ps" using take_to_net_fields [OF 1] by blast
  define s2 where "s2 = push (0 < n) ReadyReadOutgoing s1"
  have s2: "inv_protocol s2" "t_state s2 = t_state s"
    using take_to_net_fields [OF 1] l st inv_frame [OF inv, of s2 "map CtxToNet ps"] by (auto simp: s2_def push_def split: if_splits)
  have ph: "phase_of (t_log s2) = phase_of (t_log s)"
    using l inv quiet_protos [of "map CtxToNet ps"] by (auto simp: s2_def push_def inv_protocol_def phase_ok_def)
  have "inv_protocol (push b Close s2)" for b
    by (rule inv_frame [of s2 _ "[]"]) (use s2 st in \<open>auto simp: push_def split: if_splits\<close>)
  moreover have "inv_protocol (handshake_results e s2)" if "t_state s = Handshaking"
    by (rule inv_frame [of s2 _ "[]"])
      (use s2 st ph ready [OF that] in \<open>auto simp: handshake_results_def push_def Let_def split: if_splits\<close>)
  moreover have "inv_protocol (connected_results e n s2)" using inv_connected s2 st by simp
  ultimately show ?thesis
    using False 1 s2(2) by (auto simp: update_finished_def inv_process simp flip: s2_def split: tls_state.splits)
qed

lemma inv_results:
  assumes "inv_protocol s" and "t_op s \<noteq> None"
  shows "inv_protocol (tls_resultsReady q e s)"
proof -
  let ?s = "logs [CtxResults (e_result e)] (s\<lparr> t_op := None \<rparr>)"
  obtain p where p: "phase_of (t_log s) = Some p" "phase_in (t_state s) p" "Handshaken \<in> set (actionQueue s) \<longrightarrow> p = HandshakeDone"
    using assms(1) by (auto simp: inv_protocol_def phase_ok_def)
  show ?thesis
  proof (cases "t_op s = Some OpStart")
    case True
    then have "p = StartAsked" using assms(1) p(2) by (cases p) (auto simp: inv_protocol_def)
    then have "log_ok ?s" "t_op ?s = None" "actionQueue ?s = []"
      "e_result e = CtxSuccess \<Longrightarrow> phase_of (t_log ?s) = Some HandshakeOpen"
      using assms True p by (auto simp: inv_protocol_def log_ok_def logs_def early_data_def)
    then show ?thesis using True by (simp add: tls_resultsReady_def Let_def inv_start_finished)
  next
    case False
    then have st: "t_state ?s = t_state s" "t_state s \<noteq> Initializing" using assms(1) by (auto simp: inv_protocol_def logs_def)
    define p' where "p' = (if e_result e = CtxSuccess \<and> p = HandshakeOpen then HandshakeDone else p)"
    have ph: "phase_of (t_log ?s) = Some p'" "phase_in (t_state s) p'"
      using p st by (cases p; auto simp: p'_def logs_def)+
    then have "phase_ok ?s" using p(3) by (auto simp: phase_ok_def p'_def logs_def)
    then have inv: "inv_protocol ?s" using assms False by (auto simp: inv_protocol_def logs_def early_data_def)
    have "phase_of (t_log ?s) = Some HandshakeDone" if "t_state ?s = Handshaking" "e_result e = CtxSuccess"
      using that p(2) ph st by (cases p) (auto simp: p'_def)
    from inv_update_finished [OF inv _ this] st show ?thesis using False by (simp add: tls_resultsReady_def Let_def)
  qed
qed

lemmas setting_defs = setCertificate_def setTrustedCertificates_def setConstraints_level_def setConstraints_ssf_def
  setConstraints_suites_def setIssuerList_def setPacketMTU_def pass_on_def logs_def

text \<open>The steps that only exchange data with the application or the network, or change a setting.\<close>

lemma inv_write: "inv_protocol s \<Longrightarrow> inv_protocol (api_write a s)"
  unfolding api_write_def Let_def
  by (intro inv_update, rule inv_frame [of s _ "[AppWrite a]"]) (auto simp: logs_def inv_protocol_def phase_ok_def split: tls_mode.splits)

lemma inv_writeIncoming: "inv_protocol s \<Longrightarrow> inv_protocol (api_writeIncoming a s)"
  unfolding api_writeIncoming_def Let_def
  by (intro inv_update, rule inv_frame [of s _ "[NetWrite a]"]) (auto simp: logs_def inv_protocol_def phase_ok_def split: tls_mode.splits)

lemma inv_quiet_step:
  assumes "t_op s' = t_op s" and "t_state s' = t_state s" and "actionQueue s' = actionQueue s"
    and "\<exists>evs. t_log s' = t_log s @ evs \<and> (\<forall>ev \<in> set evs. quiet ev)" and "inv_protocol s"
  shows "inv_protocol s'"
  using assms inv_frame [of s s'] by (auto simp: inv_protocol_def phase_ok_def)

lemma inv_step:
  assumes "inv_protocol s" and "possible i s"
  shows "inv_protocol (tls_step q i s)"
proof (cases i)
  case InReset
  then show ?thesis using inv_reset [OF inv_log_ok [OF assms(1)]] by simp
next
  case (InStartClient h)
  have "inv_protocol ((reset ResetSessionAndData s)\<lparr> t_host := h, issuerList := [] \<rparr>)"
    using inv_reset [OF inv_log_ok [OF assms(1)], of ResetSessionAndData] by (simp add: inv_protocol_def phase_ok_def)
  then show ?thesis using InStartClient by (simp add: startClient_def inv_start)
next
  case InStartServer
  then show ?thesis using inv_reset [OF inv_log_ok [OF assms(1)], of ResetSessionAndData] by (simp add: startServer_def inv_start)
next
  case InContinue
  have "inv_protocol (s\<lparr> blocked := False \<rparr>)" by (rule inv_same [OF assms(1)]) simp_all
  then show ?thesis using InContinue assms(1) by (simp add: continueAfterStep_def inv_update)
next
  case InClose
  then show ?thesis using assms(1) by (simp add: api_close_def inv_close inv_update)
next
  case (InWrite a)
  then show ?thesis using assms(1) by (simp add: inv_write)
next
  case (InWriteIncoming a)
  then show ?thesis using assms(1) by (simp add: inv_writeIncoming)
next
  case (InResults e)
  then show ?thesis using inv_results assms by (simp add: possible_def)
next
  case (InTimer e)
  have "inv_protocol (s\<lparr> trigger := False \<rparr>)" by (rule inv_same [OF assms(1)]) simp_all
  then show ?thesis using InTimer by (simp add: doNextAction_def inv_process)
next
  case InDtlsTimeout
  have "inv_protocol (s\<lparr> maybe_input := True \<rparr>)" by (rule inv_same [OF assms(1)]) simp_all
  then show ?thesis using InDtlsTimeout by (simp add: tls_dtlsTimeout_def inv_update)
next
  case InRead
  show ?thesis
    by (rule inv_quiet_step [OF _ _ _ _ assms(1)])
      (simp_all add: InRead api_read_def logs_def split: tls_mode.splits list.splits)
next
  case InReadOutgoing
  show ?thesis
    by (rule inv_quiet_step [OF _ _ _ _ assms(1)])
      (simp_all add: InReadOutgoing readOutgoing_def logs_def Let_def split: tls_mode.splits list.splits)
next
  case (InSRTP av l)
  show ?thesis
    by (rule inv_same [OF assms(1)]) (simp_all add: InSRTP setSRTPProfiles_def split: option.splits)
next
  case (InConnect sig b)
  show ?thesis
    by (rule inv_same [OF assms(1)]) (simp_all add: InConnect connectNotify_def split: tls_signal.splits)
next
  case (InBytesWritten n)
  show ?thesis
    by (rule inv_same [OF assms(1)]) (simp_all add: InBytesWritten convertBytesWritten_def split: prod.splits)
next
  case InReadUnprocessed
  show ?thesis
    by (rule inv_same [OF assms(1)]) (simp_all add: InReadUnprocessed readUnprocessed_def split: tls_mode.splits)
qed (rule inv_quiet_step [OF _ _ _ _ assms(1)]; simp add: setting_defs)+

section \<open>Streams\<close>

text \<open>
  The bytes of one kind of event since the last reset that discards such data.  A reset always
  discards what the application wrote; what was exchanged with the network or delivered to the
  application survives the end of a session.
\<close>

definition flow_step :: "bool \<Rightarrow> (tls_event \<Rightarrow> bytes) \<Rightarrow> bytes \<Rightarrow> tls_event \<Rightarrow> bytes" where
  "flow_step every get acc ev = (case ev of CtxReset m \<Rightarrow> if every \<or> m \<noteq> ResetSession then [] else acc | _ \<Rightarrow> acc @ get ev)"

definition flow :: "bool \<Rightarrow> (tls_event \<Rightarrow> bytes) \<Rightarrow> tls_event list \<Rightarrow> bytes" where
  "flow every get l = foldl (flow_step every get) [] l"

lemma flow_append [simp]: "flow every get (l @ es) = foldl (flow_step every get) (flow every get l) es"
  by (simp add: flow_def)

lemma flow_Nil [simp]: "flow every get [] = []"
  by (simp add: flow_def)

definition app_written :: "tls_event \<Rightarrow> bytes" where "app_written ev = (case ev of AppWrite a \<Rightarrow> a | _ \<Rightarrow> [])"
definition app_sent :: "tls_event \<Rightarrow> bytes" where "app_sent ev = (case ev of CtxUpdate st net app \<Rightarrow> app | _ \<Rightarrow> [])"
definition net_written :: "tls_event \<Rightarrow> bytes" where "net_written ev = (case ev of NetWrite a \<Rightarrow> a | _ \<Rightarrow> [])"
definition net_fed :: "tls_event \<Rightarrow> bytes" where "net_fed ev = (case ev of CtxUpdate st net app \<Rightarrow> net | _ \<Rightarrow> [])"
definition app_decoded :: "tls_event \<Rightarrow> bytes" where "app_decoded ev = (case ev of CtxToApp a \<Rightarrow> a | _ \<Rightarrow> [])"
definition app_read :: "tls_event \<Rightarrow> bytes" where "app_read ev = (case ev of AppRead a \<Rightarrow> a | _ \<Rightarrow> [])"
definition net_encoded :: "tls_event \<Rightarrow> bytes" where "net_encoded ev = (case ev of CtxToNet a \<Rightarrow> a | _ \<Rightarrow> [])"
definition net_read :: "tls_event \<Rightarrow> bytes" where "net_read ev = (case ev of NetRead a \<Rightarrow> a | _ \<Rightarrow> [])"

lemmas flow_defs = flow_step_def app_written_def app_sent_def net_written_def net_fed_def app_decoded_def app_read_def
  net_encoded_def net_read_def

definition inv_flow :: "tls \<Rightarrow> bool" where
  "inv_flow s \<longleftrightarrow> (t_mode s = Stream \<longrightarrow>
     flow True app_written (t_log s) = flow True app_sent (t_log s) @ t_out s \<and>
     flow False net_written (t_log s) = flow False net_fed (t_log s) @ from_net s \<and>
     flow False app_decoded (t_log s) = flow False app_read (t_log s) @ t_in s \<and>
     flow False net_encoded (t_log s) = flow False net_read (t_log s) @ to_net s)"

definition neutral :: "tls_event \<Rightarrow> bool" where
  "neutral ev = (case ev of CtxReset _ \<Rightarrow> False | CtxUpdate _ _ _ \<Rightarrow> False | CtxToNet _ \<Rightarrow> False | CtxToApp _ \<Rightarrow> False |
     AppWrite _ \<Rightarrow> False | AppRead _ \<Rightarrow> False | NetWrite _ \<Rightarrow> False | NetRead _ \<Rightarrow> False | _ \<Rightarrow> True)"

lemma neutral_flow:
  assumes "\<forall>ev \<in> set evs. neutral ev" and "get \<in> {app_written, app_sent, net_written, net_fed, app_decoded, app_read, net_encoded, net_read}"
  shows "foldl (flow_step every get) acc evs = acc"
proof -
  have "flow_step every get acc ev = acc" if "neutral ev" for ev acc
    using that assms(2) by (cases ev) (auto simp: neutral_def flow_defs)
  then show ?thesis using assms(1) by (induction evs) auto
qed

lemma flow_frame:
  assumes "inv_flow s" and "t_mode s' = t_mode s" and "t_log s' = t_log s @ evs" and "\<forall>ev \<in> set evs. neutral ev"
    and "t_out s' = t_out s" and "from_net s' = from_net s" and "t_in s' = t_in s" and "to_net s' = to_net s"
  shows "inv_flow s'"
  using assms(1-3,5-8) neutral_flow [OF assms(4)] by (simp add: inv_flow_def)

lemma neutral_simps [simp]: "neutral (Emit sig)" "neutral CtxShutdown" "neutral CtxStart" "neutral (CtxResults r)" "neutral (CtxSetup a b c)"
  "neutral (CtxCertificate cs k)" "neutral (CtxTrusted t)" "neutral (CtxConstraints lo hi)" "neutral (CtxCipherSuites l)"
  "neutral (CtxIssuerList il)" "neutral (CtxMTU n)" "neutral (CtxSRTPProfiles l)" "neutral (CtxSessionId i)"
  by (simp_all add: neutral_def)

lemma flow_reset: "inv_flow s \<Longrightarrow> inv_flow (reset m s)"
  by (auto simp: inv_flow_def reset_defs flow_defs Let_def)

lemma take_args_stream:
  "take_args s = ((net, app), s') \<Longrightarrow> t_mode s = Stream \<Longrightarrow>
   from_net s = net @ from_net s' \<and> t_out s = app @ t_out s' \<and> t_in s' = t_in s \<and> to_net s' = to_net s"
  by (auto simp: take_args_def Let_def split: if_splits)

lemma flow_update: "inv_flow s \<Longrightarrow> inv_flow (tls_update s)"
proof (cases s rule: tls_update_cases)
  case (none s')
  then show "inv_flow s \<Longrightarrow> ?thesis"
    using take_args_fields [OF none(2)] take_args_stream [OF none(2)] by (simp add: inv_flow_def)
next
  case (call net app s')
  then show "inv_flow s \<Longrightarrow> ?thesis"
    using take_args_fields [OF call(4)] take_args_stream [OF call(4)] by (auto simp: inv_flow_def logs_def flow_defs)
qed (simp add: inv_flow_def)

lemma flow_action: "inv_flow s \<Longrightarrow> inv_flow (do_action q e a s)"
proof (cases a)
  case Close
  assume "inv_flow s"
  then have "inv_flow (s\<lparr> unprocessed := e_unprocessed e \<rparr>)" by (simp add: inv_flow_def)
  from flow_reset [OF this, of ResetSession] show ?thesis
    using Close by (auto simp: do_action_def inv_flow_def logs_def flow_defs)
qed (auto simp: do_action_def inv_flow_def logs_def flow_defs Let_def split: list.splits)

lemma flow_process: "inv_flow s \<Longrightarrow> inv_flow (processNextAction q e s)"
proof (cases "actionQueue s")
  case Nil
  then show "inv_flow s \<Longrightarrow> ?thesis" by (simp add: processNextAction_def flow_update)
next
  case (Cons a as)
  assume "inv_flow s"
  then have "inv_flow (s\<lparr> actionQueue := as \<rparr>)" "inv_flow (s\<lparr> actionQueue := as, trigger := True \<rparr>)" by (auto simp: inv_flow_def)
  then show ?thesis using Cons by (auto simp: processNextAction_def Let_def intro!: flow_action)
qed

lemma flow_take_to_net: "take_to_net e s = (n, s') \<Longrightarrow> inv_flow s \<Longrightarrow> inv_flow s'"
  by (cases "t_mode s") (auto simp: take_to_net_def inv_flow_def logs_def flow_defs Let_def split: if_splits)

lemma flow_take_to_app: "take_to_app e s = (n, s') \<Longrightarrow> inv_flow s \<Longrightarrow> inv_flow s'"
  by (cases "t_mode s") (auto simp: take_to_app_def inv_flow_def logs_def flow_defs Let_def split: if_splits)

lemma flow_push: "inv_flow s \<Longrightarrow> inv_flow (push b a s)"
  by (simp add: push_def inv_flow_def)

lemma flow_close: "inv_flow s \<Longrightarrow> inv_flow (tls_close s)"
  by (simp add: tls_close_def inv_flow_def logs_def flow_defs)

lemma flow_handshake: "inv_flow s \<Longrightarrow> inv_flow (handshake_results e s)"
  by (rule flow_frame [of s _ "[]"]) (auto simp: handshake_results_def push_def Let_def)

lemma flow_connected: "inv_flow s \<Longrightarrow> inv_flow (connected_results e n s)"
proof -
  assume inv: "inv_flow s"
  obtain b s1 where 1: "take_to_app e s = (b, s1)" by fastforce
  obtain io s2 where 2: "account e n (push b ReadyRead s1) = (io, s2)" by fastforce
  have s2: "inv_flow s2"
    by (rule flow_frame [of "push b ReadyRead s1" s2 "[]"])
      (use account_fields [OF 2] flow_push [OF flow_take_to_app [OF 1 inv]] in auto)
  then have "inv_flow ((tls_close s2)\<lparr> maybe_input := True \<rparr>)" using flow_close [OF s2] by (simp add: inv_flow_def)
  then show ?thesis using s2 1 2 by (simp add: connected_results_def flow_update)
qed

lemma flow_error: "inv_flow s \<Longrightarrow> inv_flow (logs [Emit error_signal] ((reset ResetSession s)\<lparr> errorCode := c \<rparr>))"
  by (rule flow_frame [of "reset ResetSession s" _ "[Emit error_signal]"]) (auto simp: flow_reset logs_def)

lemma flow_update_finished: "inv_flow s \<Longrightarrow> inv_flow (update_finished q e s)"
proof -
  assume inv: "inv_flow s"
  obtain n s1 where 1: "take_to_net e s = (n, s1)" by fastforce
  have "inv_flow (push (0 < n) ReadyReadOutgoing s1)" by (rule flow_push [OF flow_take_to_net [OF 1 inv]])
  then show ?thesis
    using 1 inv by (auto simp: update_finished_def Let_def intro!: flow_error flow_process flow_push flow_handshake flow_connected
        split: tls_state.splits)
qed

lemma flow_results: "inv_flow s \<Longrightarrow> inv_flow (tls_resultsReady q e s)"
proof -
  assume inv: "inv_flow s"
  have r: "inv_flow (logs [CtxResults (e_result e)] (s\<lparr> t_op := None \<rparr>))" (is "inv_flow ?s")
    by (rule flow_frame [OF inv, of _ "[CtxResults (e_result e)]"]) (simp_all add: logs_def)
  then have "inv_flow (?s\<lparr> t_state := Handshaking, maybe_input := True \<rparr>)" by (simp add: inv_flow_def)
  then have "inv_flow (start_finished e ?s)"
    unfolding start_finished_def by (auto intro: flow_update flow_error [OF r])
  then show ?thesis using flow_update_finished [OF r] by (simp add: tls_resultsReady_def Let_def)
qed

lemma flow_start: "inv_flow s \<Longrightarrow> inv_flow (tls_start b s)"
  by (simp add: inv_flow_def tls_start_def logs_def flow_defs Let_def split: option.splits)

lemma flow_step_ok: "inv_flow s \<Longrightarrow> inv_flow (tls_step q i s)"
proof (cases i)
  case (InStartClient h)
  assume "inv_flow s"
  then have "inv_flow ((reset ResetSessionAndData s)\<lparr> t_host := h, issuerList := [] \<rparr>)"
    using flow_reset [of s ResetSessionAndData] by (simp add: inv_flow_def)
  then show ?thesis using InStartClient by (simp add: startClient_def flow_start)
next
  case (InTimer e)
  assume "inv_flow s"
  then have "inv_flow (s\<lparr> trigger := False \<rparr>)" by (simp add: inv_flow_def)
  then show ?thesis using InTimer by (simp add: doNextAction_def flow_process)
next
  case InDtlsTimeout
  assume "inv_flow s"
  then have "inv_flow (s\<lparr> maybe_input := True \<rparr>)" by (simp add: inv_flow_def)
  then show ?thesis using InDtlsTimeout by (simp add: tls_dtlsTimeout_def flow_update)
next
  case InContinue
  assume s: "inv_flow s"
  then have "inv_flow (s\<lparr> blocked := False \<rparr>)" by (simp add: inv_flow_def)
  then show ?thesis using InContinue s by (simp add: continueAfterStep_def flow_update)
next
  case (InWrite a)
  assume "inv_flow s"
  then show ?thesis unfolding InWrite
    by (auto simp: api_write_def Let_def inv_flow_def logs_def flow_defs intro!: flow_update [unfolded inv_flow_def] split: tls_mode.splits)
next
  case (InWriteIncoming a)
  assume "inv_flow s"
  then show ?thesis unfolding InWriteIncoming
    by (auto simp: api_writeIncoming_def Let_def inv_flow_def logs_def flow_defs intro!: flow_update [unfolded inv_flow_def] split: tls_mode.splits)
qed (simp_all add: flow_reset startServer_def flow_start api_close_def flow_close flow_update flow_results,
     auto simp: inv_flow_def setting_defs flow_defs api_read_def readOutgoing_def readUnprocessed_def convertBytesWritten_def
       setSRTPProfiles_def connectNotify_def Let_def split: tls_mode.splits list.splits option.splits prod.splits tls_signal.splits)

section \<open>Identity\<close>

text \<open>In an inactive session only data can be announced; in an active one a checked certificate covers the host.\<close>

definition covered :: "qt_text \<Rightarrow> tls \<Rightarrow> bool" where
  "covered q s \<longleftrightarrow>
     (\<not> server s \<and> t_host s \<noteq> [] \<and> peerCert s \<noteq> [] \<and> peerValidity s = ValidityGood \<and> \<not> hostMismatch s \<longrightarrow>
      matchesHostName q (ct_subject (hd (peerCert s))) (t_host s) = Some True)"

definition inv_identity :: "qt_text \<Rightarrow> tls \<Rightarrow> bool" where
  "inv_identity q s \<longleftrightarrow>
     (if t_state s = Inactive then set (actionQueue s) \<subseteq> {ReadyRead, ReadyReadOutgoing} else covered q s)"

definition ident_part :: "tls \<Rightarrow> bool \<times> qstring \<times> certificate list \<times> validity \<times> bool" where
  "ident_part s = (server s, t_host s, peerCert s, peerValidity s, hostMismatch s)"

lemma ident_frame:
  assumes "inv_identity q s" and "ident_part s' = ident_part s" and "t_state s' = Inactive \<longleftrightarrow> t_state s = Inactive"
    and "t_state s = Inactive \<Longrightarrow> set (actionQueue s') \<subseteq> {ReadyRead, ReadyReadOutgoing} \<union> set (actionQueue s)"
  shows "inv_identity q s'"
  using assms by (auto simp: inv_identity_def covered_def ident_part_def split: if_splits)

lemma take_args_ident: "take_args s = (args, s') \<Longrightarrow> ident_part s' = ident_part s"
  by (cases args) (auto simp: take_args_def ident_part_def Let_def split: tls_mode.splits list.splits if_splits)

lemma ident_update: "inv_identity q s \<Longrightarrow> inv_identity q (tls_update s)"
proof (cases s rule: tls_update_cases)
  case (idle n)
  then show "inv_identity q s \<Longrightarrow> ?thesis" by (auto simp: ident_part_def elim!: ident_frame)
next
  case (none s')
  then show "inv_identity q s \<Longrightarrow> ?thesis"
    using take_args_fields [OF none(2)] take_args_ident [OF none(2)] by (auto simp: ident_part_def elim!: ident_frame)
next
  case (call net app s')
  then show "inv_identity q s \<Longrightarrow> ?thesis"
    using take_args_fields [OF call(4)] take_args_ident [OF call(4)] by (auto simp: ident_part_def logs_def elim!: ident_frame)
qed

lemma ident_inactive [simp]: "t_state s = Inactive \<Longrightarrow> actionQueue s = [] \<Longrightarrow> inv_identity q s"
  by (simp add: inv_identity_def)

lemma ident_error: "inv_identity q (logs [Emit error_signal] ((reset ResetSession s)\<lparr> errorCode := c \<rparr>))"
  by (rule ident_inactive) (simp_all add: logs_def)

lemma ident_start: "peerCert s = [] \<Longrightarrow> inv_identity q (tls_start b s)"
  by (simp add: inv_identity_def covered_def tls_start_def logs_def Let_def)

lemma ident_close: "inv_identity q s \<Longrightarrow> inv_identity q (tls_close s)"
  by (erule ident_frame) (auto simp: tls_close_def logs_def ident_part_def)

lemma ident_action:
  assumes "inv_identity q s" and "t_state s = Inactive \<Longrightarrow> a = ReadyRead \<or> a = ReadyReadOutgoing"
  shows "inv_identity q (do_action q e a s)"
  using assms
  by (cases a) (auto simp: do_action_def logs_def inv_identity_def covered_def Let_def split: list.splits if_splits)

lemma ident_process: "inv_identity q s \<Longrightarrow> inv_identity q (processNextAction q e s)"
proof (cases "actionQueue s")
  case Nil
  then show "inv_identity q s \<Longrightarrow> ?thesis" by (simp add: processNextAction_def ident_update)
next
  case (Cons a as)
  assume inv: "inv_identity q s"
  then have "inv_identity q (s\<lparr> actionQueue := as \<rparr>)" "inv_identity q (s\<lparr> actionQueue := as, trigger := True \<rparr>)"
    using Cons by (auto simp: inv_identity_def covered_def)
  moreover have "t_state s = Inactive \<Longrightarrow> a = ReadyRead \<or> a = ReadyReadOutgoing" using inv Cons by (auto simp: inv_identity_def)
  ultimately show ?thesis using Cons by (auto simp: processNextAction_def Let_def intro!: ident_action)
qed

lemma ident_parts:
  "take_to_net e s = (n, s') \<Longrightarrow> ident_part s' = ident_part s"
  "take_to_app e s = (b, s') \<Longrightarrow> ident_part s' = ident_part s"
  "account e n s = (b, s') \<Longrightarrow> ident_part s' = ident_part s"
  by (auto simp: take_to_net_def take_to_app_def account_def ident_part_def logs_def Let_def split: tls_mode.splits if_splits)

lemma ident_connected: "inv_identity q s \<Longrightarrow> inv_identity q (connected_results e n s)"
proof -
  assume inv: "inv_identity q s"
  obtain b s1 where 1: "take_to_app e s = (b, s1)" by fastforce
  obtain io s2 where 2: "account e n (push b ReadyRead s1) = (io, s2)" by fastforce
  have s2: "inv_identity q s2"
    by (rule ident_frame [OF inv])
      (use take_to_app_fields [OF 1] account_fields [OF 2] ident_parts(2) [OF 1] ident_parts(3) [OF 2] in
        \<open>auto simp: push_def ident_part_def\<close>)
  have "inv_identity q ((tls_close s2)\<lparr> maybe_input := True \<rparr>)"
    by (rule ident_frame [OF ident_close [OF s2]]) (auto simp: ident_part_def)
  then show ?thesis using s2 1 2 by (simp add: connected_results_def ident_update)
qed

lemma ident_active:
  assumes "inv_identity q s" and "t_state s \<noteq> Inactive" and "t_state s' \<noteq> Inactive"
    and "server s' = server s" and "server s \<or> t_host s' = t_host s" and "peerCert s' = peerCert s"
    and "peerValidity s' = peerValidity s" and "hostMismatch s' = hostMismatch s"
  shows "inv_identity q s'"
  using assms by (auto simp: inv_identity_def covered_def)

lemma ident_update_finished: "inv_identity q s \<Longrightarrow> inv_identity q (update_finished q e s)"
proof (cases "e_result e = CtxError")
  case True
  then show ?thesis by (simp add: update_finished_def Let_def ident_error)
next
  case False
  assume inv: "inv_identity q s"
  obtain n s1 where 1: "take_to_net e s = (n, s1)" by fastforce
  define s2 where "s2 = push (0 < n) ReadyReadOutgoing s1"
  have s2: "inv_identity q s2"
    by (rule ident_frame [OF inv])
      (use take_to_net_fields [OF 1] ident_parts(1) [OF 1] in \<open>auto simp: s2_def push_def ident_part_def\<close>)
  have "inv_identity q (push b Close s2)" if "t_state s2 = Closing" for b
    by (rule ident_active [OF s2]) (auto simp: that push_def)
  moreover have "inv_identity q (handshake_results e s2)" if "t_state s2 = Handshaking"
    by (rule ident_active [OF s2]) (auto simp: that handshake_results_def push_def Let_def)
  ultimately show ?thesis
    using False 1 ident_connected [OF s2]
    by (auto simp: update_finished_def simp flip: s2_def intro!: ident_process split: tls_state.splits)
qed

lemma ident_results:
  assumes inv: "inv_identity q s" and "inv_protocol s"
  shows "inv_identity q (tls_resultsReady q e s)"
proof -
  let ?s = "logs [CtxResults (e_result e)] (s\<lparr> t_op := None \<rparr>)"
  have r: "inv_identity q ?s" by (rule ident_frame [OF inv]) (auto simp: logs_def ident_part_def)
  have "inv_identity q (start_finished e ?s)" if "t_state s = Initializing"
  proof (cases "e_result e = CtxSuccess")
    case True
    have "inv_identity q (?s\<lparr> t_state := Handshaking, maybe_input := True \<rparr>)"
      by (rule ident_active [OF r]) (auto simp: that logs_def)
    then show ?thesis using True by (simp add: start_finished_def ident_update)
  qed (simp add: start_finished_def ident_error)
  then show ?thesis using ident_update_finished [OF r] assms(2) by (auto simp: tls_resultsReady_def Let_def inv_protocol_def phase_ok_def)
qed

lemma ident_quiet_step:
  assumes "ident_part s' = ident_part s" and "t_state s' = t_state s" and "actionQueue s' = actionQueue s" and "inv_identity q s"
  shows "inv_identity q s'"
  using assms by (auto elim!: ident_frame)

lemma reset_peerCert: "m \<noteq> ResetSession \<Longrightarrow> peerCert (reset m s) = []"
  by (simp add: reset_defs Let_def)

lemma ident_step:
  assumes "inv_identity q s" and "inv_protocol s"
  shows "inv_identity q (tls_step q i s)"
proof (cases i)
  case (InStartClient h)
  then show ?thesis by (simp add: startClient_def ident_start reset_peerCert)
next
  case InStartServer
  then show ?thesis by (simp add: startServer_def ident_start reset_peerCert)
next
  case InContinue
  have "inv_identity q (s\<lparr> blocked := False \<rparr>)" by (rule ident_quiet_step [OF _ _ _ assms(1)]) (simp_all add: ident_part_def)
  then show ?thesis using InContinue assms(1) by (simp add: continueAfterStep_def ident_update)
next
  case InClose
  then show ?thesis using assms(1) by (simp add: api_close_def ident_close ident_update)
next
  case (InWrite a)
  show ?thesis unfolding InWrite tls_step.simps api_write_def Let_def
    by (rule ident_update, rule ident_quiet_step [OF _ _ _ assms(1)]) (simp_all add: logs_def ident_part_def split: tls_mode.splits)
next
  case (InWriteIncoming a)
  show ?thesis unfolding InWriteIncoming tls_step.simps api_writeIncoming_def Let_def
    by (rule ident_update, rule ident_quiet_step [OF _ _ _ assms(1)]) (simp_all add: logs_def ident_part_def split: tls_mode.splits)
next
  case (InResults e)
  then show ?thesis using ident_results assms by simp
next
  case (InTimer e)
  have "inv_identity q (s\<lparr> trigger := False \<rparr>)" by (rule ident_quiet_step [OF _ _ _ assms(1)]) (simp_all add: ident_part_def)
  then show ?thesis using InTimer by (simp add: doNextAction_def ident_process)
next
  case InDtlsTimeout
  have "inv_identity q (s\<lparr> maybe_input := True \<rparr>)" by (rule ident_quiet_step [OF _ _ _ assms(1)]) (simp_all add: ident_part_def)
  then show ?thesis using InDtlsTimeout by (simp add: tls_dtlsTimeout_def ident_update)
next
  case InReset
  then show ?thesis by simp
qed (rule ident_quiet_step [OF _ _ _ assms(1)];
     simp add: setting_defs ident_part_def api_read_def readOutgoing_def readUnprocessed_def convertBytesWritten_def
       setSRTPProfiles_def connectNotify_def Let_def split: tls_mode.splits list.splits option.splits prod.splits tls_signal.splits)+

section \<open>Every reachable state\<close>

lemma mode_update [simp]: "t_mode (tls_update s) = t_mode s"
  by (cases s rule: tls_update_cases) (auto simp: logs_def dest: take_args_fields)

lemma mode_simple [simp]:
  "t_mode (tls_start b s) = t_mode s" "t_mode (tls_close s) = t_mode s" "t_mode (handshake_results e s) = t_mode s"
  "t_mode (push b a s) = t_mode s" "t_mode (do_action q e a s) = t_mode s" "t_mode (start_finished e s) = t_mode s"
  by (simp_all add: tls_start_def tls_close_def handshake_results_def push_def do_action_def start_finished_def logs_def Let_def
      split: tls_action.splits list.splits option.splits)

lemma mode_process [simp]: "t_mode (processNextAction q e s) = t_mode s"
  by (simp add: processNextAction_def Let_def split: list.splits)

lemma mode_connected [simp]: "t_mode (connected_results e n s) = t_mode s"
  by (auto simp: connected_results_def split: prod.splits dest!: take_to_app_fields account_fields)

lemma mode_results [simp]: "t_mode (tls_resultsReady q e s) = t_mode s"
  by (auto simp: tls_resultsReady_def update_finished_def logs_def Let_def split: prod.splits tls_state.splits dest!: take_to_net_fields)

lemma mode_step: "t_mode (tls_step q i s) = t_mode s"
  by (cases i) (auto simp: startClient_def startServer_def continueAfterStep_def api_close_def api_write_def api_writeIncoming_def
      doNextAction_def tls_dtlsTimeout_def setting_defs api_read_def readOutgoing_def readUnprocessed_def convertBytesWritten_def
      setSRTPProfiles_def connectNotify_def Let_def split: tls_mode.splits list.splits option.splits prod.splits tls_signal.splits)

lemma reach_invariants:
  assumes "tls_reach q mode s"
  shows "inv_protocol s \<and> inv_flow s \<and> inv_identity q s \<and> t_mode s = mode"
  using assms
proof induction
  case created
  show ?case by (simp add: new_tls_def inv_protocol_def phase_ok_def inv_flow_def)
next
  case (happens s i)
  then show ?case by (simp add: inv_step flow_step_ok ident_step mode_step)
qed

text \<open>A run as a list of inputs, which ends early when an input is not possible.\<close>

fun tls_run :: "qt_text \<Rightarrow> tls_input list \<Rightarrow> tls \<Rightarrow> tls option" where
  "tls_run q [] s = Some s"
| "tls_run q (i # is) s = (if possible i s then tls_run q is (tls_step q i s) else None)"

lemma run_reach: "tls_reach q mode s \<Longrightarrow> tls_run q is s = Some s' \<Longrightarrow> tls_reach q mode s'"
  by (induction "is" arbitrary: s) (auto split: if_splits intro: tls_reach.happens)

text \<open>
  A client session: data are written before the handshake is complete, the server presents a
  certificate for the host, and data arrive after the handshake.
\<close>

definition demo_env :: tls_env where
  "demo_env = \<lparr> e_result = CtxSuccess, e_to_net = [], e_to_app = [], e_clientHello = False, e_serverHello = False, e_hostName = [],
     e_certRequested = False, e_sessionInfo = no_session, e_eof = False, e_encoded = 0, e_unprocessed = [], e_peerChain = [],
     e_peerValidity = ErrorValidityUnknown, e_issuerList = [] \<rparr>"

definition demo_cert :: certificate where
  "demo_cert = \<lparr> ct_subject = [(info_type_known DNS, qlatin ''a.b'')], ct_issuer = [], ct_constraints = [] \<rparr>"

definition demo_inputs :: "tls_input list" where
  "demo_inputs = [InStartClient (qlatin ''a.b''), InWrite [1], InResults demo_env,
     InResults (demo_env\<lparr> e_to_net := [[7, 8]] \<rparr>),
     InTimer (demo_env\<lparr> e_peerChain := [demo_cert], e_peerValidity := ValidityGood \<rparr>),
     InTimer demo_env, InTimer demo_env, InReadOutgoing, InWriteIncoming [9],
     InResults (demo_env\<lparr> e_to_net := [[5]], e_encoded := 1 \<rparr>), InTimer demo_env, InReadOutgoing,
     InResults (demo_env\<lparr> e_to_app := [[3]] \<rparr>), InRead]"

definition demo_state :: tls where
  "demo_state = the (tls_run plain_text demo_inputs (new_tls Stream))"

lemma demo_runs: "tls_run plain_text demo_inputs (new_tls Stream) \<noteq> None"
  by code_simp

lemma demo_reach: "tls_reach plain_text Stream demo_state"
  using run_reach [OF tls_reach.created] demo_runs by (auto simp: demo_state_def)

section \<open>Properties\<close>

text \<open>
  C6. The context is used one operation at a time.  Whatever the application, the network, the
  context and the timer do: the context is never asked to start or to update while an earlier
  request is under way, results are taken only for a request, and the object knows whether one
  is under way.  From the request to start a session until the context has reported that the
  handshake succeeded, no application data go into an update (\<open>phase_of\<close> is defined, and it is what
  the state stands for), nor afterwards while the object is still in state \<^verbatim>\<open>Handshaking\<close>.  An object
  without a session has no such guard: in stream mode, when no request, action or answer of the
  application is pending, \<^verbatim>\<open>write\<close> on it hands everything that waits at once to the context, which
  was not started.
\<close>

theorem tls_protocol:
  assumes "tls_reach q mode s"
  shows "protocol (t_log s) = Some (t_op s \<noteq> None) \<and> (t_op s = Some OpStart \<longleftrightarrow> t_state s = Initializing) \<and>
    (\<exists>p. phase_of (t_log s) = Some p \<and> phase_in (t_state s) p) \<and> (\<forall>ev \<in> set (t_log s). \<not> early_data ev) \<and>
    (\<forall>a. mode = Stream \<and> t_state s = Inactive \<and> t_op s = None \<and> actionQueue s = [] \<and> \<not> blocked s \<and> a \<noteq> [] \<longrightarrow>
       t_log (tls_step q (InWrite a) s) = t_log s @ [AppWrite a, CtxUpdate Inactive (from_net s) (t_out s @ a)])"
proof (intro conjI allI impI)
  note inv = reach_invariants [OF assms]
  show "protocol (t_log s) = Some (t_op s \<noteq> None)" "t_op s = Some OpStart \<longleftrightarrow> t_state s = Initializing"
    "\<forall>ev \<in> set (t_log s). \<not> early_data ev" "\<exists>p. phase_of (t_log s) = Some p \<and> phase_in (t_state s) p"
    using inv by (auto simp: inv_protocol_def phase_ok_def)
  show "t_log (tls_step q (InWrite a) s) = t_log s @ [AppWrite a, CtxUpdate Inactive (from_net s) (t_out s @ a)]"
    if "mode = Stream \<and> t_state s = Inactive \<and> t_op s = None \<and> actionQueue s = [] \<and> \<not> blocked s \<and> a \<noteq> []" for a
    using inv that by (simp add: api_write_def tls_update_def take_args_def logs_def Let_def)
qed

theorem tls_protocol_witness:
  "protocol (t_log demo_state) = Some False \<and> phase_of (t_log demo_state) = Some HandshakeDone \<and>
   \<not> list_ex early_data (t_log demo_state) \<and>
   CtxUpdate Handshaking [] [] \<in> set (t_log demo_state) \<and> CtxUpdate Connected [] [1] \<in> set (t_log demo_state) \<and>
   t_log (tls_step plain_text (InWrite [1]) (new_tls Stream)) = [AppWrite [1], CtxUpdate Inactive [] [1]]"
proof -
  have d: "t_op demo_state = None" "t_state demo_state = Connected"
    "CtxUpdate Handshaking [] [] \<in> set (t_log demo_state)" "CtxUpdate Connected [] [1] \<in> set (t_log demo_state)"
    by code_simp+
  moreover have "t_log (tls_step plain_text (InWrite [1]) (new_tls Stream)) = [AppWrite [1], CtxUpdate Inactive [] [1]]"
    using tls_protocol [OF tls_reach.created [of plain_text Stream]] by (simp add: new_tls_def)
  ultimately show ?thesis using tls_protocol [OF demo_reach] by (auto simp: list_ex_iff)
qed

text \<open>
  C8. A stream keeps its bytes.  In stream mode, at every moment, the bytes the application wrote
  are those given to the context followed by those that wait; the bytes from the network are those
  given to the context followed by those that wait; the decoded bytes are those the application
  read followed by those that wait; and the encoded bytes are those the network read followed
  by those that wait: nothing is lost, repeated or reordered, counted from the last reset that
  discards such data.
\<close>

theorem tls_stream_order:
  assumes "tls_reach q Stream s"
  shows "flow True app_written (t_log s) = flow True app_sent (t_log s) @ t_out s \<and>
    flow False net_written (t_log s) = flow False net_fed (t_log s) @ from_net s \<and>
    flow False app_decoded (t_log s) = flow False app_read (t_log s) @ t_in s \<and>
    flow False net_encoded (t_log s) = flow False net_read (t_log s) @ to_net s"
  using reach_invariants [OF assms] by (simp add: inv_flow_def)

theorem tls_stream_order_witness:
  "flow True app_written (t_log demo_state) = [1] \<and> flow False net_written (t_log demo_state) = [9] \<and>
   flow False app_decoded (t_log demo_state) = [3] \<and> flow False net_encoded (t_log demo_state) = [7, 8, 5]"
proof -
  have "flow True app_sent (t_log demo_state) = [1]" "t_out demo_state = []"
    "flow False net_fed (t_log demo_state) = [9]" "from_net demo_state = []"
    "flow False app_read (t_log demo_state) = [3]" "t_in demo_state = []"
    "flow False net_read (t_log demo_state) = [7, 8, 5]" "to_net demo_state = []"
    by code_simp+
  then show ?thesis using tls_stream_order [OF demo_reach] by simp
qed

text \<open>
  C7. A valid identity covers the host.  While a client session for a host is active, the peer is
  reported as valid only when the first certificate of its chain matches that host.
\<close>

theorem tls_identity:
  assumes "tls_reach q mode s" and "t_state s \<noteq> Inactive" and "\<not> server s" and "t_host s \<noteq> []" and "peerIdentityResult s = Valid"
  shows "peerCert s \<noteq> [] \<and> peerValidity s = ValidityGood \<and>
    matchesHostName q (ct_subject (hd (peerCert s))) (t_host s) = Some True"
  using reach_invariants [OF assms(1)] assms(2-)
  by (auto simp: inv_identity_def covered_def peerIdentityResult_def split: if_splits)

theorem tls_identity_witness:
  "peerIdentityResult demo_state = Valid \<and>
   matchesHostName plain_text (ct_subject (hd (peerCert demo_state))) (t_host demo_state) = Some True"
proof -
  have "t_state demo_state \<noteq> Inactive" "\<not> server demo_state" "t_host demo_state \<noteq> []" "peerIdentityResult demo_state = Valid"
    by code_simp+
  then show ?thesis using tls_identity [OF demo_reach] by simp
qed

lemma update_encoded [simp]:
  "to_net_encoded (tls_update s) = to_net_encoded s \<and> to_net (tls_update s) = to_net s \<and> actionQueue (tls_update s) = actionQueue s"
  by (simp add: tls_update_def take_args_def logs_def Let_def split: tls_mode.splits list.splits)

text \<open>
  C35. The count of encoded bytes drifts.  In a connected stream every result that has nothing for
  the network lowers the count of application bytes in the outgoing buffer by one, although
  nothing was put into the buffer: \<^verbatim>\<open>readOutgoing\<close> then reports too few bytes, or a negative number.
\<close>

theorem tls_encoded_drift:
  assumes "t_mode s = Stream" and "t_state s = Connected" and "t_op s = Some OpUpdate" and "actionQueue s = []"
    and "e_result e \<noteq> CtxError" and "e_to_net e = []"
  shows "to_net_encoded (tls_resultsReady q e s) = to_net_encoded s - 1 \<and> to_net (tls_resultsReady q e s) = to_net s"
proof -
  have act: "to_net_encoded (do_action q e ReadyRead s') = to_net_encoded s'" "to_net (do_action q e ReadyRead s') = to_net s'" for s'
    by (simp_all add: do_action_def logs_def)
  let ?s = "logs [CtxResults (e_result e)] (s\<lparr> t_op := None \<rparr>)"
  let ?r = "connected_results e 0 ?s"
  have r: "to_net_encoded ?r = to_net_encoded s - 1" "to_net ?r = to_net s"
    using assms(1)
    by (simp_all add: connected_results_def take_to_app_def account_def push_def tls_close_def logs_def Let_def)
  have q: "actionQueue ?r = [] \<or> actionQueue ?r = [ReadyRead]"
    using assms(1,4)
    by (simp add: connected_results_def take_to_app_def account_def push_def tls_close_def logs_def Let_def)
  have "tls_resultsReady q e s = processNextAction q e ?r"
    using assms by (simp add: tls_resultsReady_def update_finished_def take_to_net_def first_answer_def push_def logs_def Let_def)
  then show ?thesis using q r by (auto simp: processNextAction_def act)
qed

theorem tls_encoded_drift_witness:
  "to_net_encoded (tls_resultsReady plain_text (demo_env\<lparr> e_to_app := [[3]] \<rparr>)
     (the (tls_run plain_text (take 12 demo_inputs) (new_tls Stream)))) = -1 \<and>
   fst (snd (readOutgoing demo_state)) = Some (-1)"
proof -
  let ?s = "the (tls_run plain_text (take 12 demo_inputs) (new_tls Stream))"
  have "t_mode ?s = Stream" "t_state ?s = Connected" "t_op ?s = Some OpUpdate" "actionQueue ?s = []" "to_net_encoded ?s = 0"
    by code_simp+
  moreover have "e_result (demo_env\<lparr> e_to_app := [[3]] \<rparr>) \<noteq> CtxError" "e_to_net (demo_env\<lparr> e_to_app := [[3]] \<rparr>) = []"
    by (simp_all add: demo_env_def)
  moreover have "fst (snd (readOutgoing demo_state)) = Some (-1)" by code_simp
  ultimately show ?thesis using tls_encoded_drift [of ?s "demo_env\<lparr> e_to_app := [[3]] \<rparr>"] by simp
qed

end
