(* ===== verification/Spec2Isabelle.thy ===== *)
theory Spec2Isabelle
  imports CoreGlobal ModeGcm RsaKeys BigMod BigText SecureHeap LineConverter HostNames CertChain TlsRun
begin

text \<open>
  This library verifies the core of QCA, the Qt Cryptographic Architecture: the data types
  every provider and application passes around, the text codecs, the built-in provider,
  and the algorithms that QCA implements itself rather than taking from a cryptographic
  library.  Every definition is a translation of the C++ code under \<^verbatim>\<open>src/\<close>; comments name the
  function, and the definitions keep the source's names where Isabelle allows it.

  \<^bold>\<open>Conventions.\<close>  A buffer is a list.  An access outside a buffer, which C++ leaves undefined,
  is the value \<open>None\<close> of an \<open>option\<close>, so that a theorem that an operation returns \<open>Some\<close> is a
  memory-safety theorem.  Fixed-width unsigned integers are words.  C++'s \<^verbatim>\<open>int\<close> is \<open>int\<close>; in
  \<open>MemoryRegion\<close> and the hash contexts its range is checked (an addition that leaves it gives \<open>None\<close>,
  a \<^verbatim>\<open>qsizetype\<close> is narrowed), and the cipher modes and the DER reader bound their input as the
  code does.  The text filters (\<open>TextFilter\<close>, \<open>Base64Codec\<close>, \<open>LineBreaks\<close>, \<open>Base64\<close>), \<open>LineConverter\<close>
  and the counters of \<open>LayerTracker\<close> and \<open>TlsLayer\<close> compute with unbounded sizes and differ from the
  code only for data near 2 GB (1.6 GB for Base64 encoding).  Objects are records, passed and
  returned; error results are values of a sum or option type or the boolean the code
  returns.  Loops are recursive functions that terminate for every input; the loops whose
  termination is itself a theorem (\<^verbatim>\<open>modInverse\<close>, \<^verbatim>\<open>divide\<close>) are partial functions into \<open>option\<close>.
  No definition uses fuel.

  \<^bold>\<open>Components and theories.\<close>

  \<^item> \<open>Prelude\<close>: buffers, arithmetic readings of bit operations, and the interfaces of the
    library as locales: \<open>codec\<close>, \<open>digest\<close> and \<open>stream_filter\<close> (\<open>byte_buffer\<close> is in
    \<open>MemoryRegion\<close>, \<open>integer_arith\<close> in \<open>BigText\<close>).  Every locale is interpreted on
    the definitions of the components that provide it.
  \<^item> \<open>MemoryRegion\<close>: \<^verbatim>\<open>alloc_info\<close>, \<^verbatim>\<open>MemoryRegion\<close> and \<^verbatim>\<open>SecureArray\<close> of \<^verbatim>\<open>src/src/qca_tools.cpp\<close>.
    The representation invariant; that the bytes of a secure array live in locked memory exactly
    when its allocation was not requested with a negative size; what every operation does to the
    contents; and the self-append that leaves the buffer.
  \<^item> \<open>TextFilter\<close>, \<open>Base64Codec\<close>, \<open>LineBreaks\<close>, \<open>Base64\<close>: \<^verbatim>\<open>src/src/qca_textfilter.cpp\<close> and the
    conversion functions of \<^verbatim>\<open>src/src/qca_core.cpp\<close>.  Round trips, the languages the decoders
    accept, equality of incremental and one-shot use, and the inputs on which the code
    leaves its buffers.
  \<^item> \<open>HashCommon\<close>, \<open>Md5\<close>, \<open>Sha1\<close>, \<open>Sha1Context\<close>: the hash functions of \<^verbatim>\<open>src/src/qca_default.cpp\<close>.  The
    compression functions equal RFC 1321 and FIPS 180-4, and the contexts compute the digest
    of everything they were given, for every division into updates.
  \<^item> \<open>KeyStoreEntry\<close>, \<open>DefaultProvider\<close>: the rest of \<^verbatim>\<open>src/src/qca_default.cpp\<close>: the text form of
    key store entries, shared configuration and the key store list.
  \<^item> \<open>CipherPrims\<close>, \<open>ModeEngine\<close>, \<open>ModeStream\<close>, \<open>ModeBlocks\<close>, \<open>ModeGcm\<close>: the block cipher modes of
    \<^verbatim>\<open>src/plugins/qca-wincrypto/aesmodes.cpp\<close> over a block cipher that is a parameter: its
    documented behaviour (calls succeed, and decryption inverts encryption block by block) is
    the hypothesis \<open>cipher_law\<close>.  Every mode equals its NIST reference on the whole message
    whatever the chunks and batches, GCM decryption releases nothing unauthenticated,
    failures erase the engine.
  \<^item> \<open>DerCodec\<close>, \<open>RsaKeys\<close>: \<^verbatim>\<open>src/plugins/qca-wincrypto/rsa_codec.cpp\<close>.  DER is read exactly as it
    is written; which files are accepted as public keys; protected private keys round trip.
    Key derivation, random bytes and the block ciphers of the system are parameters.
  \<^item> \<open>MpWords\<close>, \<open>MpMul\<close>, \<open>MpDiv\<close>, \<open>MpShift\<close>: the word-array arithmetic of
    \<^verbatim>\<open>src/src/botantools/botan\<close> (\<^verbatim>\<open>mp_asm\<close>, \<^verbatim>\<open>mp_mulop\<close>, \<^verbatim>\<open>mp_comba\<close>, \<^verbatim>\<open>mp_mul\<close>, \<^verbatim>\<open>mp_misc\<close>, \<^verbatim>\<open>mp_shift\<close>) with
    32-bit words: every routine stays inside its arrays and computes the operation it is
    named after, Comba and Karatsuba multiplication included.
  \<^item> \<open>BigIntOps\<close>, \<open>BigDivide\<close>: sign-and-magnitude arithmetic of \<^verbatim>\<open>Botan::BigInt\<close> (\<^verbatim>\<open>big_ops2.cpp\<close>) and the
    word-by-word division of \<^verbatim>\<open>divide.cpp\<close>, whose loops are shown to end with quotient and
    remainder.
  \<^item> \<open>BigReg\<close>, \<open>BigOps\<close>: the same operators on registers of words, as they are stored
    (\<^verbatim>\<open>big_base.cpp\<close>, \<^verbatim>\<open>big_ops2.cpp\<close>, \<^verbatim>\<open>big_ops3.cpp\<close>); they refine the abstract arithmetic, and the one
    operator that does not is characterised.
  \<^item> \<open>BigArray\<close>, \<open>BigText\<close>: conversion of \<^verbatim>\<open>BigInteger\<close> to and from byte arrays and decimal text
    (\<^verbatim>\<open>src/src/qca_tools.cpp\<close>, \<^verbatim>\<open>big_code.cpp\<close>): two's complement, canonical text, round trips.  The
    decoder is a client of the locale \<open>integer_arith\<close>.
  \<^item> \<open>BigMod\<close>: the modular arithmetic of \<^verbatim>\<open>src/src/qca_bigint.cpp\<close>.
  \<^item> \<open>MemPool\<close>, \<open>SecureHeap\<close>: the pooled allocator of locked memory
    (\<^verbatim>\<open>src/src/botantools/botan/mem_pool.cpp\<close>) and \<^verbatim>\<open>qca_secure_alloc\<close>, \<^verbatim>\<open>qca_secure_free\<close>, \<^verbatim>\<open>qca_secure_realloc\<close>
    on it.  The pieces of memory come from the operating system, a parameter that is assumed to return
    memory it has not given out already (\<open>os_fresh\<close>).  Reachable pools keep live requests apart,
    serve every request while there is memory, wipe what is released and change the memory of no
    other request.
  \<^item> \<open>LineConverter\<close>: the line-ending converter of the GnuPG provider
    (\<^verbatim>\<open>src/plugins/qca-gnupg/lineconverter.cpp\<close>).
  \<^item> \<open>QStrings\<close>, \<open>CertInfo\<close>, \<open>HostNames\<close>, \<open>CertChain\<close>: the part of \<^verbatim>\<open>src/src/qca_cert.cpp\<close> that decides
    something: the types of certificate information and their multi-map, friendly names, the
    match of a certificate with a host name or address, the completion of a chain.  Qt's text
    functions and the provider's view of a certificate are parameters.
  \<^item> \<open>LayerTracker\<close>, \<open>TlsLayer\<close>, \<open>TlsRun\<close>: the TLS front end (\<^verbatim>\<open>src/src/qca_securelayer.cpp\<close>), a state machine
    between the application, the network and the context of a provider.  What the context answers
    is a parameter of each step, its results and the timer come at any later moment, and the
    object keeps a log of its calls and signals.  \<open>TlsRun\<close> shows what holds in every reachable
    state: one operation at a time, no application data in an update from the start of a session
    until its handshake has succeeded (on an object without a session they do go to the context),
    no byte lost or reordered, and no identity reported as valid that does not cover the host.
  \<^item> \<open>ProviderManager\<close>, \<open>ProviderRun\<close>, \<open>ProviderLife\<close>, \<open>CoreGlobal\<close>: the registry of providers
    (\<^verbatim>\<open>src/src/qca_plugin.cpp\<close>) and the state of the library (\<^verbatim>\<open>src/src/qca_core.cpp\<close>).  What plugin files,
    directories and providers answer are arguments of a scan or lookup; what the registry does to provider
    objects is a log of events.  Shown: the order and uniqueness of the list, the life of each provider object, that
    those handed out are initialised, what
    scans add, the choice of a provider for an algorithm, stored configuration.

  \<^bold>\<open>Bounds.\<close>  Lengths are bounded only where the code bounds them (\<^verbatim>\<open>int\<close> sizes, the 64 KiB limit
  of DER input, the GCM message limit) and, for decimal text, to numbers of 36000 bits, for
  which the estimate of the number of digits is proved sufficient; numbers and messages are
  otherwise arbitrary.

  \<^bold>\<open>Not modelled.\<close>  The providers that wrap another library or an operating system service
  (OpenSSL, NSS, gcrypt, Botan, Cyrus SASL, GSSAPI, PKCS #11, Schannel, and GnuPG but for its line
  converter), whose code is calls to it; the certificate, key store, SASL and secure message interfaces, whose
  operations forward to a provider's context and to Qt's event loop; the loading of a library by Qt; the
  command-line tool, the examples and the tests; console, pipe and synchronizer support,
  which is operating-system I/O; translation and string conversion by Qt.
\<close>

end
